(* ===== verification/Prelude.thy ===== *)
theory Prelude
  imports Main "HOL-Library.Word" "HOL-Library.Multiset"
begin

section \<open>Prelude: results, bytes and shared lemmas\<close>

text \<open>
  What the component theories share: the result type of C code that may stop the process,
  network-order encodings of machine integers, and lemmas on lists that the standard
  library does not have in the form the components need.
\<close>

unbundle bit_operations_syntax

named_theorems res_simps \<open>unfolding the result monad\<close>
named_theorems bytes_simps \<open>lengths and round trips of byte encodings\<close>
named_theorems list_upd_simps \<open>swaps and deletions by index\<close>

type_synonym byte = "8 word"
type_synonym u16 = "16 word"
type_synonym u32 = "32 word"
type_synonym u64 = "64 word"

text \<open>
  A pointer of the source is either NULL (\<^term>\<open>None\<close>) or names an object.
\<close>

type_synonym 'p ptr = "'p option"

subsection \<open>Results of code that may stop the process\<close>

text \<open>
  \<open>Assert_Fail\<close> is a failing \<^verbatim>\<open>tor_assert\<close>, \<open>Mem_Fault\<close> a read or
  write outside the object it addresses, \<open>Int_Overflow\<close> a signed overflow (undefined
  behaviour in C), \<open>Diverge\<close> a loop that is known to run forever.  A function that can do none of
  these has a plain result type.
\<close>

datatype fault = Assert_Fail | Mem_Fault | Int_Overflow | Diverge

datatype 'a res = OK 'a | Fault fault

fun rbind :: "'a res \<Rightarrow> ('a \<Rightarrow> 'b res) \<Rightarrow> 'b res" where
  "rbind (OK x) f = f x"
| "rbind (Fault e) f = Fault e"

definition tor_assert :: "bool \<Rightarrow> 'a res \<Rightarrow> 'a res" where
  "tor_assert b k = (if b then k else Fault Assert_Fail)"

definition int_max :: nat where
  "int_max = 2147483647"

text \<open>A loop that does not return, \<^term>\<open>None\<close> as the value of a partial function, is the fault \<open>Diverge\<close>.\<close>

definition returns :: "'a res option \<Rightarrow> 'a res" where
  "returns r = (case r of None \<Rightarrow> Fault Diverge | Some x \<Rightarrow> x)"

lemma returns_Some [simp]: "returns (Some r) = r"
  by (simp add: returns_def)

lemma returns_OK_iff [res_simps]: "returns r = OK x \<longleftrightarrow> r = Some (OK x)"
  by (auto simp: returns_def split: option.splits)

lemma rbind_OK_iff [res_simps]: "rbind m f = OK y \<longleftrightarrow> (\<exists>x. m = OK x \<and> f x = OK y)"
  by (cases m) auto

lemma rbind_assoc: "rbind (rbind m f) g = rbind m (\<lambda>x. rbind (f x) g)"
  by (cases m) auto

lemma rbind_cong [fundef_cong]:
  "m = m' \<Longrightarrow> (\<And>x. m' = OK x \<Longrightarrow> f x = g x) \<Longrightarrow> rbind m f = rbind m' g"
  by (cases m') auto

lemma tor_assert_OK_iff [res_simps]: "tor_assert b k = OK y \<longleftrightarrow> b \<and> k = OK y"
  by (simp add: tor_assert_def)

lemma tor_assert_True [simp]: "tor_assert True k = k"
  by (simp add: tor_assert_def)

lemma tor_assert_False [simp]: "tor_assert False k = Fault Assert_Fail"
  by (simp add: tor_assert_def)

lemma tor_assert_holds: "b \<Longrightarrow> tor_assert b k = k"
  by (simp add: tor_assert_def)

subsection \<open>Swaps and deletions by index\<close>

definition swap_at :: "'a list \<Rightarrow> nat \<Rightarrow> nat \<Rightarrow> 'a list" where
  "swap_at xs i j = xs[i := xs ! j, j := xs ! i]"

lemma length_swap_at [simp]: "length (swap_at xs i j) = length xs"
  by (simp add: swap_at_def)

lemma mset_swap_at [list_upd_simps]:
  "i < length xs \<Longrightarrow> j < length xs \<Longrightarrow> mset (swap_at xs i j) = mset xs"
  by (simp add: swap_at_def mset_swap)

lemma nth_swap_at:
  "i < length xs \<Longrightarrow> j < length xs \<Longrightarrow> k < length xs \<Longrightarrow>
   swap_at xs i j ! k = (if k = i then xs ! j else if k = j then xs ! i else xs ! k)"
  by (auto simp: swap_at_def nth_list_update)

lemma mset_remove_nth:
  "i < length xs \<Longrightarrow> add_mset (xs ! i) (mset (take i xs @ drop (Suc i) xs)) = mset xs"
  by (metis id_take_nth_drop mset_append mset.simps(2) union_mset_add_mset_right)

lemma butlast_upd_last:
  assumes "i < length xs"
  shows "add_mset (xs ! i) (mset (butlast (xs[i := last xs]))) = mset xs"
proof (cases "i = length xs - 1")
  case True
  with assms have ne: "xs \<noteq> []" by auto
  with True have "butlast (xs[i := last xs]) = butlast xs" "xs ! i = last xs"
    by (simp_all add: butlast_list_update last_conv_nth)
  with ne have "butlast (xs[i := last xs]) = butlast xs" "xs ! i = last xs" "xs \<noteq> []"
    by simp_all
  then show ?thesis
    by (metis append_butlast_last_id mset_append mset.simps add_mset_add_single)
next
  case False
  with assms have i: "i < length (butlast xs)" and ne: "xs \<noteq> []" by auto
  then have b: "butlast (xs[i := last xs]) = (butlast xs)[i := last xs]"
    using False by (simp add: butlast_list_update)
  have ub: "xs ! i = butlast xs ! i" using i by (simp add: nth_butlast)
  have m: "mset xs = add_mset (last xs) (mset (butlast xs))"
    using ne by (metis append_butlast_last_id mset_append mset.simps add_mset_add_single)
  have "mset ((butlast xs)[i := last xs]) = add_mset (last xs) (mset (butlast xs) - {#butlast xs ! i#})"
    using i by (simp add: mset_update)
  moreover have "butlast xs ! i \<in># mset (butlast xs)" using i by simp
  ultimately show ?thesis unfolding b ub m
    by (simp add: add_mset_commute)
qed

subsection \<open>Searching\<close>

text \<open>\<^verbatim>\<open>memchr\<close> and \<^verbatim>\<open>memmem\<close> as indices: the first position of an element and
  the first position of a sublist.\<close>

fun memchr_idx :: "'a \<Rightarrow> 'a list \<Rightarrow> nat option" where
  "memchr_idx c [] = None"
| "memchr_idx c (x # xs) = (if x = c then Some 0 else map_option Suc (memchr_idx c xs))"

fun find_sub :: "'a list \<Rightarrow> 'a list \<Rightarrow> nat option" where
  "find_sub s [] = (if s = [] then Some 0 else None)"
| "find_sub s (x # xs) =
     (if take (length s) (x # xs) = s then Some 0 else map_option Suc (find_sub s xs))"

lemma memchr_idx_None: "memchr_idx c xs = None \<longleftrightarrow> c \<notin> set xs"
  by (induction xs) auto

lemma memchr_idx_Some:
  "memchr_idx c xs = Some k \<Longrightarrow> k < length xs \<and> xs ! k = c \<and> c \<notin> set (take k xs)"
  by (induction xs arbitrary: k) (auto split: if_splits)

lemma memchr_idx_append:
  "memchr_idx c (xs @ ys) = (case memchr_idx c xs of
     Some k \<Rightarrow> Some k | None \<Rightarrow> map_option ((+) (length xs)) (memchr_idx c ys))"
  by (induction xs; cases "memchr_idx c ys") (auto split: option.splits)

lemma find_sub_Some:
  "find_sub s xs = Some k \<Longrightarrow> take (length s) (drop k xs) = s \<and> k + length s \<le> length xs \<and>
     (\<forall>j<k. take (length s) (drop j xs) \<noteq> s)"
proof (induction xs arbitrary: k)
  case (Cons x xs)
  show ?case
  proof (cases "take (length s) (x # xs) = s")
    case True
    then have "length s \<le> length (x # xs)" by (metis length_take min.cobounded1)
    with True Cons.prems show ?thesis by simp
  next
    case False
    with Cons obtain k' where "k = Suc k'" "find_sub s xs = Some k'" by auto
    with Cons.IH [of k'] False show ?thesis by (auto simp: less_Suc_eq_0_disj)
  qed
qed (auto split: if_splits)

lemma find_sub_None: "find_sub s xs = None \<Longrightarrow> take (length s) (drop j xs) \<noteq> s"
proof (induction xs arbitrary: j)
  case (Cons x xs)
  then show ?case by (cases j) (auto split: if_splits)
qed (auto split: if_splits)

lemma find_sub_eq_None_iff: "find_sub s xs = None \<longleftrightarrow> (\<forall>j. take (length s) (drop j xs) \<noteq> s)"
  using find_sub_None [of s xs] find_sub_Some [of s xs] by (cases "find_sub s xs") auto

lemma find_sub_skip:
  assumes "s \<noteq> []" and "hd s \<notin> set (take k xs)" and "k \<le> length xs"
  shows "find_sub s xs = map_option ((+) k) (find_sub s (drop k xs))"
  using assms(2,3)
proof (induction k arbitrary: xs)
  case (Suc k)
  then obtain x xs' where xs: "xs = x # xs'" by (cases xs) auto
  obtain a s' where s: "s = a # s'" using assms(1) by (cases s) auto
  with Suc.prems xs have "take (length s) (x # xs') \<noteq> s" by auto
  with Suc.IH [of xs'] Suc.prems xs show ?case
    by (cases "find_sub s (drop k xs')") auto
next
  case 0
  then show ?case by (cases "find_sub s xs") auto
qed

subsection \<open>Network byte order\<close>

definition be16 :: "u16 \<Rightarrow> byte list" where
  "be16 w = [ucast (drop_bit 8 w), ucast w]"

definition be32 :: "u32 \<Rightarrow> byte list" where
  "be32 w = [ucast (drop_bit 24 w), ucast (drop_bit 16 w), ucast (drop_bit 8 w), ucast w]"

fun rd16 :: "byte list \<Rightarrow> u16" where
  "rd16 (a # b # _) = push_bit 8 (ucast a) OR ucast b"
| "rd16 _ = 0"

fun rd32 :: "byte list \<Rightarrow> u32" where
  "rd32 (a # b # c # d # _) =
     push_bit 24 (ucast a) OR push_bit 16 (ucast b) OR push_bit 8 (ucast c) OR ucast d"
| "rd32 _ = 0"

lemma length_be16 [simp, bytes_simps]: "length (be16 w) = 2"
  by (simp add: be16_def)

lemma length_be32 [simp, bytes_simps]: "length (be32 w) = 4"
  by (simp add: be32_def)

lemma rd16_be16 [simp, bytes_simps]: "rd16 (be16 w @ xs) = w"
  by (simp add: be16_def) (rule bit_word_eqI, auto simp: bit_simps)

lemma rd32_be32 [simp, bytes_simps]: "rd32 (be32 w @ xs) = w"
proof -
  have "push_bit 24 (ucast (ucast (drop_bit 24 w) :: byte)) OR
      push_bit 16 (ucast (ucast (drop_bit 16 w) :: byte)) OR
      push_bit 8 (ucast (ucast (drop_bit 8 w) :: byte)) OR ucast (ucast w :: byte) = w"
    (is "?l = w")
  proof (rule bit_word_eqI)
    fix n assume "n < LENGTH(32)"
    then have "n < 8 \<or> 8 \<le> n \<and> n < 16 \<or> 16 \<le> n \<and> n < 24 \<or> 24 \<le> n \<and> n < 32" by auto
    then show "bit ?l n = bit w n"
      by (elim disjE; simp add: bit_simps; linarith)
  qed
  then show ?thesis by (simp add: be32_def)
qed

lemma be16_rd16: "be16 (rd16 (a # b # xs)) = [a, b]"
  by (simp add: be16_def) (intro conjI bit_word_eqI; auto simp: bit_simps dest: bit_imp_le_length)

end
