(* ===== verification/CType.thy ===== *)
theory CType
  imports Prelude
begin

section \<open>Character classes and case (src/innomitor/src/common/compat.c, compat.h)\<close>

text \<open>
  C strings are lists of bytes without the terminating NUL.  The character classes are looked
  up in 256-bit tables, as the source does; the lemmas say which characters each table holds.
\<close>

definition bytes_of :: "string \<Rightarrow> byte list" where
  "bytes_of s = map of_char s"

definition ctype_lookup :: "u32 list \<Rightarrow> byte \<Rightarrow> bool" where
  "ctype_lookup tbl c = bit (tbl ! unat ((drop_bit 5 c) AND 7)) (unat (c AND 31))"

definition TOR_ISALPHA_TABLE :: "u32 list" where
  "TOR_ISALPHA_TABLE = [0, 0, 0x7fffffe, 0x7fffffe, 0, 0, 0, 0]"
definition TOR_ISALNUM_TABLE :: "u32 list" where
  "TOR_ISALNUM_TABLE = [0, 0x3ff0000, 0x7fffffe, 0x7fffffe, 0, 0, 0, 0]"
definition TOR_ISSPACE_TABLE :: "u32 list" where
  "TOR_ISSPACE_TABLE = [0x3e00, 0x1, 0, 0, 0, 0, 0, 0]"
definition TOR_ISXDIGIT_TABLE :: "u32 list" where
  "TOR_ISXDIGIT_TABLE = [0, 0x3ff0000, 0x7e, 0x7e, 0, 0, 0, 0]"
definition TOR_ISDIGIT_TABLE :: "u32 list" where
  "TOR_ISDIGIT_TABLE = [0, 0x3ff0000, 0, 0, 0, 0, 0, 0]"
definition TOR_ISPRINT_TABLE :: "u32 list" where
  "TOR_ISPRINT_TABLE = [0, 0xffffffff, 0xffffffff, 0x7fffffff, 0, 0, 0, 0x0]"
definition TOR_ISUPPER_TABLE :: "u32 list" where
  "TOR_ISUPPER_TABLE = [0, 0, 0x7fffffe, 0, 0, 0, 0, 0]"
definition TOR_ISLOWER_TABLE :: "u32 list" where
  "TOR_ISLOWER_TABLE = [0, 0, 0, 0x7fffffe, 0, 0, 0, 0]"

lemmas ctype_tables = TOR_ISALPHA_TABLE_def TOR_ISALNUM_TABLE_def TOR_ISSPACE_TABLE_def
  TOR_ISXDIGIT_TABLE_def TOR_ISDIGIT_TABLE_def TOR_ISPRINT_TABLE_def TOR_ISUPPER_TABLE_def
  TOR_ISLOWER_TABLE_def

definition TOR_ISALPHA :: "byte \<Rightarrow> bool" where "TOR_ISALPHA c = ctype_lookup TOR_ISALPHA_TABLE c"
definition TOR_ISALNUM :: "byte \<Rightarrow> bool" where "TOR_ISALNUM c = ctype_lookup TOR_ISALNUM_TABLE c"
definition TOR_ISSPACE :: "byte \<Rightarrow> bool" where "TOR_ISSPACE c = ctype_lookup TOR_ISSPACE_TABLE c"
definition TOR_ISXDIGIT :: "byte \<Rightarrow> bool" where "TOR_ISXDIGIT c = ctype_lookup TOR_ISXDIGIT_TABLE c"
definition TOR_ISDIGIT :: "byte \<Rightarrow> bool" where "TOR_ISDIGIT c = ctype_lookup TOR_ISDIGIT_TABLE c"
definition TOR_ISPRINT :: "byte \<Rightarrow> bool" where "TOR_ISPRINT c = ctype_lookup TOR_ISPRINT_TABLE c"
definition TOR_ISUPPER :: "byte \<Rightarrow> bool" where "TOR_ISUPPER c = ctype_lookup TOR_ISUPPER_TABLE c"
definition TOR_ISLOWER :: "byte \<Rightarrow> bool" where "TOR_ISLOWER c = ctype_lookup TOR_ISLOWER_TABLE c"

lemmas ctype_defs = TOR_ISALPHA_def TOR_ISALNUM_def TOR_ISSPACE_def TOR_ISXDIGIT_def
  TOR_ISDIGIT_def TOR_ISPRINT_def TOR_ISUPPER_def TOR_ISLOWER_def

text \<open>
  The case tables are the identity but for one run of 26 entries each; the model writes them as
  that run between two identity runs.
\<close>

definition case_table :: "nat \<Rightarrow> nat \<Rightarrow> nat \<Rightarrow> byte list" where
  "case_table a b c = map of_nat ([0..<a] @ [c..<c + (b - a)] @ [b..<256])"

definition TOR_TOUPPER_TABLE :: "byte list" where
  "TOR_TOUPPER_TABLE = case_table 97 123 65"

definition TOR_TOLOWER_TABLE :: "byte list" where
  "TOR_TOLOWER_TABLE = case_table 65 91 97"

definition TOR_TOUPPER :: "byte \<Rightarrow> byte" where
  "TOR_TOUPPER c = TOR_TOUPPER_TABLE ! unat c"

definition TOR_TOLOWER :: "byte \<Rightarrow> byte" where
  "TOR_TOLOWER c = TOR_TOLOWER_TABLE ! unat c"

subsection \<open>What the tables say\<close>

text \<open>A finite check over the 256 characters.\<close>

lemma all_bytes:
  assumes "\<forall>n \<in> set [0..<256]. P (of_nat n)"
  shows "P (c :: byte)"
proof -
  have "unat c < 2 ^ LENGTH(8)" by (rule unsigned_less)
  then have "unat c \<in> set [0..<256]" by simp
  with assms have "P (of_nat (unat c))" by blast
  then show ?thesis by simp
qed

lemma TOR_ISDIGIT_iff: "TOR_ISDIGIT c \<longleftrightarrow> 48 \<le> c \<and> c \<le> 57"
  by (rule all_bytes [where P = "\<lambda>c. TOR_ISDIGIT c \<longleftrightarrow> 48 \<le> c \<and> c \<le> 57"]) code_simp

lemma TOR_ISPRINT_iff: "TOR_ISPRINT c \<longleftrightarrow> 32 \<le> c \<and> c \<le> 126"
  by (rule all_bytes [where P = "\<lambda>c. TOR_ISPRINT c \<longleftrightarrow> 32 \<le> c \<and> c \<le> 126"]) code_simp

lemma TOR_ISSPACE_iff: "TOR_ISSPACE c \<longleftrightarrow> c = 32 \<or> 9 \<le> c \<and> c \<le> 13"
  by (rule all_bytes [where P = "\<lambda>c. TOR_ISSPACE c \<longleftrightarrow> c = 32 \<or> 9 \<le> c \<and> c \<le> 13"]) code_simp

lemma TOR_ISUPPER_iff: "TOR_ISUPPER c \<longleftrightarrow> 65 \<le> c \<and> c \<le> 90"
  by (rule all_bytes [where P = "\<lambda>c. TOR_ISUPPER c \<longleftrightarrow> 65 \<le> c \<and> c \<le> 90"]) code_simp

lemma TOR_ISLOWER_iff: "TOR_ISLOWER c \<longleftrightarrow> 97 \<le> c \<and> c \<le> 122"
  by (rule all_bytes [where P = "\<lambda>c. TOR_ISLOWER c \<longleftrightarrow> 97 \<le> c \<and> c \<le> 122"]) code_simp

lemma TOR_ISXDIGIT_iff:
  "TOR_ISXDIGIT c \<longleftrightarrow> 48 \<le> c \<and> c \<le> 57 \<or> 65 \<le> c \<and> c \<le> 70 \<or> 97 \<le> c \<and> c \<le> 102"
  by (rule all_bytes [where P = "\<lambda>c. TOR_ISXDIGIT c \<longleftrightarrow>
        48 \<le> c \<and> c \<le> 57 \<or> 65 \<le> c \<and> c \<le> 70 \<or> 97 \<le> c \<and> c \<le> 102"]) code_simp

lemma case_table_nth:
  assumes "a \<le> b" and "b \<le> 256"
  shows "case_table a b c ! unat x =
    (if a \<le> unat x \<and> unat x < b then of_nat (c + (unat x - a)) else x)"
proof -
  have "unat x < 2 ^ LENGTH(8)" by (rule unsigned_less)
  with assms show ?thesis
    by (auto simp: case_table_def nth_append not_less)
qed

lemma TOR_TOLOWER_eq: "TOR_TOLOWER c = (if TOR_ISUPPER c then c + 32 else c)"
  by (auto simp: TOR_TOLOWER_def TOR_TOLOWER_TABLE_def case_table_nth TOR_ISUPPER_iff
        word_le_nat_alt of_nat_diff)

lemma TOR_TOUPPER_eq: "TOR_TOUPPER c = (if TOR_ISLOWER c then c - 32 else c)"
  by (auto simp: TOR_TOUPPER_def TOR_TOUPPER_TABLE_def case_table_nth TOR_ISLOWER_iff
        word_le_nat_alt of_nat_diff)

end
