(* ===== verification/CLib.thy ===== *)
theory CLib
  imports CType
begin

section \<open>The C library functions the sources call\<close>

text \<open>
  Conversions between machine integers, and the string functions of the C library on bytes in
  memory.  A function that scans memory is given the bytes from its pointer to the end of the
  initialised data; running past them is a memory fault.
\<close>

text \<open>The cast \<^verbatim>\<open>(int)n\<close> of a \<^verbatim>\<open>size_t\<close> or a \<^verbatim>\<open>long\<close>.\<close>

definition c_int :: "int \<Rightarrow> int" where
  "c_int n = sint (word_of_int n :: 32 word)"

lemma c_int_id: "- (2 ^ 31) \<le> n \<Longrightarrow> n < 2 ^ 31 \<Longrightarrow> c_int n = n"
  by (simp add: c_int_def signed_of_int signed_take_bit_int_eq_self)

lemma c_int_nat [simp]: "n \<le> int_max \<Longrightarrow> c_int (int n) = int n"
  by (rule c_int_id) (auto simp: int_max_def)

subsection \<open>strtol and atoi\<close>

definition digit_val :: "byte \<Rightarrow> nat" where
  "digit_val c = unat c - 48"

definition dec_val :: "byte list \<Rightarrow> nat" where
  "dec_val ds = foldl (\<lambda>v d. 10 * v + digit_val d) 0 ds"

text \<open>\<^verbatim>\<open>strtol(s, NULL, 10)\<close>: white space, an optional sign, digits, saturating at the ends of
  the range of \<^verbatim>\<open>long\<close>; \<^verbatim>\<open>atoi\<close> casts its result to \<^verbatim>\<open>int\<close>.\<close>

definition long_clamp :: "int \<Rightarrow> int" where
  "long_clamp v = max (- (2 ^ 63)) (min (2 ^ 63 - 1) v)"

definition strtol_digits :: "bool \<Rightarrow> byte list \<Rightarrow> int res" where
  "strtol_digits neg s =
     (if dropWhile TOR_ISDIGIT s = [] then Fault Mem_Fault
      else let v = int (dec_val (takeWhile TOR_ISDIGIT s))
           in OK (long_clamp (if neg then - v else v)))"

definition strtol :: "byte list \<Rightarrow> int res" where
  "strtol s = (case dropWhile TOR_ISSPACE s of
     [] \<Rightarrow> Fault Mem_Fault
   | c # cs \<Rightarrow> if c = 0x2D then strtol_digits True cs
               else if c = 0x2B then strtol_digits False cs
               else strtol_digits False (c # cs))"

definition atoi :: "byte list \<Rightarrow> int res" where
  "atoi s = rbind (strtol s) (\<lambda>v. OK (c_int v))"

subsection \<open>Comparing and printing\<close>

text \<open>Strings are given by their bytes before the terminating NUL.  Only the sign of the result of a
  comparison is specified.\<close>

fun strcmp :: "byte list \<Rightarrow> byte list \<Rightarrow> int" where
  "strcmp [] [] = 0"
| "strcmp [] (b # bs) = -1"
| "strcmp (a # as) [] = 1"
| "strcmp (a # as) (b # bs) = (if a < b then -1 else if b < a then 1 else strcmp as bs)"

definition strcasecmp :: "byte list \<Rightarrow> byte list \<Rightarrow> int" where
  "strcasecmp a b = strcmp (map TOR_TOLOWER a) (map TOR_TOLOWER b)"

lemma strcmp_eq_0 [simp]: "strcmp a b = 0 \<longleftrightarrow> a = b"
  by (induction a b rule: strcmp.induct) auto

lemma strcmp_antisym: "strcmp b a = - strcmp a b"
  by (induction a b rule: strcmp.induct) auto

lemma strcmp_trans: "strcmp a b \<le> 0 \<Longrightarrow> strcmp b c \<le> 0 \<Longrightarrow> strcmp a c \<le> 0"
proof (induction a b arbitrary: c rule: strcmp.induct)
  case (4 a as b bs)
  then show ?case by (cases c) (auto split: if_splits)
next
  case (2 b bs)
  then show ?case by (cases c) auto
qed auto

definition memcmp :: "byte list \<Rightarrow> byte list \<Rightarrow> nat \<Rightarrow> int" where
  "memcmp a b n = strcmp (take n a) (take n b)"

text \<open>The digits \<^verbatim>\<open>%d\<close> prints.\<close>

fun dec_digits :: "nat \<Rightarrow> byte list" where
  "dec_digits n = (if n < 10 then [of_nat (48 + n)] else dec_digits (n div 10) @ [of_nat (48 + n mod 10)])"

declare dec_digits.simps [simp del]

definition dec_string :: "int \<Rightarrow> byte list" where
  "dec_string n = (if n < 0 then 0x2D # dec_digits (nat (- n)) else dec_digits (nat n))"

subsection \<open>Facts on number parsing\<close>

lemma strtol_digits_append: "strtol_digits neg s = OK v \<Longrightarrow> strtol_digits neg (s @ t) = OK v"
proof -
  assume h: "strtol_digits neg s = OK v"
  then have "\<exists>x\<in>set s. \<not> TOR_ISDIGIT x"
    by (auto simp: strtol_digits_def split: if_splits)
  with h show ?thesis
    by (auto simp: strtol_digits_def dropWhile_append takeWhile_append split: if_splits)
qed

text \<open>A scan that ends inside the data is not changed by what follows.\<close>

lemma strtol_append: "strtol s = OK v \<Longrightarrow> strtol (s @ t) = OK v"
proof -
  assume h: "strtol s = OK v"
  then obtain c cs where c: "dropWhile TOR_ISSPACE s = c # cs"
    by (auto simp: strtol_def split: list.splits)
  then have "dropWhile TOR_ISSPACE (s @ t) = c # cs @ t"
    by (metis append_Cons dropWhile_append dropWhile_eq_Nil_conv list.distinct(1))
  with h c show ?thesis
    using strtol_digits_append [of False "c # cs" v t]
    by (auto simp: strtol_def intro: strtol_digits_append split: if_splits)
qed

lemma atoi_append: "atoi s = OK v \<Longrightarrow> atoi (s @ t) = OK v"
  by (auto simp: atoi_def res_simps dest: strtol_append)

lemma foldl_dec_bound:
  "list_all TOR_ISDIGIT ds \<Longrightarrow>
     foldl (\<lambda>v d. 10 * v + digit_val d) a ds < (a + 1) * 10 ^ length ds"
proof (induction ds arbitrary: a)
  case (Cons d ds)
  then have "digit_val d < 10" by (auto simp: digit_val_def TOR_ISDIGIT_iff word_le_nat_alt)
  then have "10 * a + digit_val d + 1 \<le> (a + 1) * 10" by simp
  then have "(10 * a + digit_val d + 1) * 10 ^ length ds \<le> (a + 1) * 10 * 10 ^ length ds"
    by (rule mult_le_mono1)
  moreover have "foldl (\<lambda>v d. 10 * v + digit_val d) (10 * a + digit_val d) ds
      < (10 * a + digit_val d + 1) * 10 ^ length ds"
    using Cons by simp
  ultimately have "foldl (\<lambda>v d. 10 * v + digit_val d) (10 * a + digit_val d) ds
      < (a + 1) * 10 * 10 ^ length ds"
    by (rule order_less_le_trans [rotated])
  then show ?case by (simp only: foldl_Cons length_Cons power_Suc mult.assoc)
qed simp

lemma dec_val_bound: "list_all TOR_ISDIGIT ds \<Longrightarrow> dec_val ds < 10 ^ length ds"
  using foldl_dec_bound [of ds 0] by (simp add: dec_val_def)

text \<open>A plain decimal number of at most nine digits followed by another character.\<close>

lemma atoi_digits:
  assumes "list_all TOR_ISDIGIT ds" and "ds \<noteq> []" and "length ds \<le> 9" and "\<not> TOR_ISDIGIT c"
  shows "atoi (ds @ c # t) = OK (int (dec_val ds))"
proof -
  obtain d ds' where d: "ds = d # ds'" using assms(2) by (cases ds) auto
  have "TOR_ISDIGIT d" using assms(1) d by simp
  then have nd: "48 \<le> unat d" "unat d \<le> 57" by (simp_all add: TOR_ISDIGIT_iff word_le_nat_alt)
  then have sp: "\<not> TOR_ISSPACE d" "d \<noteq> 0x2D" "d \<noteq> 0x2B" by (auto simp: TOR_ISSPACE_iff word_le_nat_alt)
  have "dec_val ds < 10 ^ 9"
    using dec_val_bound [OF assms(1)] power_increasing [OF assms(3), of "10::nat"] by simp
  then have v: "int (dec_val ds) < 10 ^ 9" by simp
  have "strtol (ds @ c # t) = strtol_digits False (ds @ c # t)"
    using sp by (simp add: strtol_def d)
  also have "\<dots> = OK (int (dec_val ds))"
    using assms(1,4) v
    by (simp add: strtol_digits_def list_all_iff takeWhile_append2 dropWhile_append2 long_clamp_def
        dropWhile_append3)
  finally have "strtol (ds @ c # t) = OK (int (dec_val ds))" .
  with v show ?thesis by (simp add: atoi_def c_int_id)
qed

end
