(* ===== verification/Chunks.thy ===== *)
theory Chunks
  imports Prelude
begin

section \<open>Chunks and chunk freelists (src/innomitor/src/or/buffers.c, first part)\<close>

text \<open>
  A chunk is a block of \<open>ch_memlen\<close> usable bytes of which a contiguous run, starting
  \<open>ch_off\<close> bytes into the block (\<^verbatim>\<open>data - mem\<close>), holds data.  The bytes
  outside the run are never read, so the model keeps only the run itself; a write that would
  leave the block is the fault \<^term>\<open>Mem_Fault\<close>.  Chunks of a few sizes are recycled through
  freelists when the program is configured with \<^verbatim>\<open>ENABLE_BUF_FREELISTS\<close> (as the
  checked-in \<^verbatim>\<open>orconfig.h\<close> is); the allocator state is \<^term>\<open>None\<close> in a build
  without them.  Sizes are those of a 64-bit build (\<^verbatim>\<open>SIZEOF_SIZE_T\<close> is 8): the
  chunk header takes 32 bytes and the structure 40.
\<close>

record chunk =
  ch_memlen :: nat
  ch_off :: nat
  ch_data :: "byte list"

abbreviation ch_datalen :: "chunk \<Rightarrow> nat" where
  "ch_datalen c \<equiv> length (ch_data c)"

definition CHUNK_HEADER_LEN :: nat where
  "CHUNK_HEADER_LEN = 32"

definition SIZEOF_CHUNK_T :: nat where
  "SIZEOF_CHUNK_T = 40"

definition CHUNK_ALLOC_SIZE :: "nat \<Rightarrow> nat" where
  "CHUNK_ALLOC_SIZE memlen = CHUNK_HEADER_LEN + memlen"

definition CHUNK_SIZE_WITH_ALLOC :: "nat \<Rightarrow> nat" where
  "CHUNK_SIZE_WITH_ALLOC memlen = memlen - CHUNK_HEADER_LEN"

definition CHUNK_REMAINING_CAPACITY :: "chunk \<Rightarrow> nat" where
  "CHUNK_REMAINING_CAPACITY c = ch_memlen c - (ch_off c + ch_datalen c)"

definition chunk_ok :: "chunk \<Rightarrow> bool" where
  "chunk_ok c \<longleftrightarrow> ch_off c + ch_datalen c \<le> ch_memlen c"

definition chunk_repack :: "chunk \<Rightarrow> chunk" where
  "chunk_repack c = c\<lparr>ch_off := 0\<rparr>"

text \<open>\<^verbatim>\<open>memcpy(CHUNK_WRITE_PTR(c), bs, n)\<close> followed by \<^verbatim>\<open>c->datalen += n\<close>.\<close>

definition chunk_write :: "chunk \<Rightarrow> byte list \<Rightarrow> chunk res" where
  "chunk_write c bs =
     (if ch_off c + ch_datalen c + length bs \<le> ch_memlen c
      then OK (c\<lparr>ch_data := ch_data c @ bs\<rparr>) else Fault Mem_Fault)"

text \<open>\<^verbatim>\<open>c->data += n; c->datalen -= n\<close>.\<close>

definition chunk_advance :: "chunk \<Rightarrow> nat \<Rightarrow> chunk" where
  "chunk_advance c n = c\<lparr>ch_off := ch_off c + n, ch_data := drop n (ch_data c)\<rparr>"

definition chunk_grow :: "chunk \<Rightarrow> nat \<Rightarrow> chunk res" where
  "chunk_grow c sz = tor_assert (sz > ch_memlen c) (OK (c\<lparr>ch_memlen := sz\<rparr>))"

subsection \<open>Freelists\<close>

record chunk_freelist =
  fl_alloc_size :: nat
  fl_max_length :: int
  fl_slack :: int
  fl_cur_length :: int
  fl_lowest_length :: int
  fl_n_alloc :: u64
  fl_n_free :: u64
  fl_n_hit :: u64
  fl_head :: "chunk list"

definition FL :: "nat \<Rightarrow> int \<Rightarrow> int \<Rightarrow> chunk_freelist" where
  "FL a m s = \<lparr>fl_alloc_size = a, fl_max_length = m, fl_slack = s, fl_cur_length = 0,
     fl_lowest_length = 0, fl_n_alloc = 0, fl_n_free = 0, fl_n_hit = 0, fl_head = []\<rparr>"

definition initial_freelists :: "chunk_freelist list" where
  "initial_freelists = [FL 4096 256 8, FL 8192 128 4, FL 16384 64 4, FL 32768 32 2, FL 0 0 0]"

record fl_state =
  freelists :: "chunk_freelist list"
  n_freelist_miss :: u64

type_synonym chunk_alloc = "fl_state option"

definition initial_alloc :: chunk_alloc where
  "initial_alloc = Some \<lparr>freelists = initial_freelists, n_freelist_miss = 0\<rparr>"

text \<open>
  The loop of \<^verbatim>\<open>get_freelist\<close> stops at the first entry larger than the size asked
  for.  The terminating entry has size 0 and does not stop it, so the loop can step past the
  end of the array: that read is the fault of the last equation.
\<close>

fun get_freelist_from :: "nat \<Rightarrow> chunk_freelist list \<Rightarrow> nat \<Rightarrow> nat option res" where
  "get_freelist_from i (f # fs) alloc =
     (if fl_alloc_size f \<le> alloc
      then if fl_alloc_size f = alloc then OK (Some i) else get_freelist_from (Suc i) fs alloc
      else OK None)"
| "get_freelist_from i [] alloc = Fault Mem_Fault"

definition get_freelist :: "chunk_freelist list \<Rightarrow> nat \<Rightarrow> nat option res" where
  "get_freelist fls alloc = get_freelist_from 0 fls alloc"

definition chunk_free :: "chunk_alloc \<Rightarrow> chunk \<Rightarrow> chunk_alloc res" where
  "chunk_free st c = (case st of
     None \<Rightarrow> OK None
   | Some s \<Rightarrow>
       rbind (get_freelist (freelists s) (CHUNK_ALLOC_SIZE (ch_memlen c))) (\<lambda>r. case r of
         None \<Rightarrow> OK (Some s)
       | Some i \<Rightarrow>
           (let f = freelists s ! i;
                f' = (if fl_cur_length f < fl_max_length f
                      then f\<lparr>fl_head := c # fl_head f, fl_cur_length := fl_cur_length f + 1\<rparr>
                      else f\<lparr>fl_n_free := fl_n_free f + 1\<rparr>)
            in OK (Some (s\<lparr>freelists := (freelists s)[i := f']\<rparr>)))))"

definition fresh_chunk :: "nat \<Rightarrow> chunk" where
  "fresh_chunk alloc = \<lparr>ch_memlen = CHUNK_SIZE_WITH_ALLOC alloc, ch_off = 0, ch_data = []\<rparr>"

text \<open>
  A build without freelists (\<open>None\<close>) asks \<^verbatim>\<open>tor_malloc_roundup\<close> for the block, which changes the size only on
  platforms with \<^verbatim>\<open>malloc_good_size\<close>; elsewhere, as here, it is the size requested.
\<close>

definition chunk_new_with_alloc_size :: "chunk_alloc \<Rightarrow> nat \<Rightarrow> (chunk_alloc \<times> chunk) res" where
  "chunk_new_with_alloc_size st alloc = (case st of
     None \<Rightarrow> OK (None, fresh_chunk alloc)
   | Some s \<Rightarrow> tor_assert (alloc \<ge> SIZEOF_CHUNK_T)
       (rbind (get_freelist (freelists s) alloc) (\<lambda>r. case r of
         None \<Rightarrow> OK (Some (s\<lparr>n_freelist_miss := n_freelist_miss s + 1\<rparr>), fresh_chunk alloc)
       | Some i \<Rightarrow>
           (let f = freelists s ! i;
                f' = (case fl_head f of
                        [] \<Rightarrow> f\<lparr>fl_n_alloc := fl_n_alloc f + 1\<rparr>
                      | ch # rest \<Rightarrow>
                          (let n = fl_cur_length f - 1 in
                           f\<lparr>fl_head := rest, fl_cur_length := n,
                             fl_lowest_length := (if n < fl_lowest_length f then n
                                                  else fl_lowest_length f),
                             fl_n_hit := fl_n_hit f + 1\<rparr>))
            in OK (Some (s\<lparr>freelists := (freelists s)[i := f']\<rparr>), fresh_chunk alloc)))))"

text \<open>\<^verbatim>\<open>assert_freelist_ok\<close>, as a predicate.\<close>

definition assert_freelist_ok :: "chunk_freelist \<Rightarrow> bool" where
  "assert_freelist_ok fl \<longleftrightarrow>
     fl_alloc_size fl > 0 \<and>
     list_all (\<lambda>ch. CHUNK_ALLOC_SIZE (ch_memlen ch) = fl_alloc_size fl) (fl_head fl) \<and>
     int (length (fl_head fl)) = fl_cur_length fl \<and>
     fl_cur_length fl \<ge> fl_lowest_length fl \<and>
     fl_cur_length fl \<le> fl_max_length fl"

text \<open>
  One pass of the loop of \<^verbatim>\<open>buf_shrink_freelists\<close>.  \<open>skip_links\<close> walks over the
  chunks that are kept, asserting before each step that the chunk has a successor.
\<close>

fun skip_links :: "int \<Rightarrow> chunk list \<Rightarrow> chunk list \<Rightarrow> (chunk list \<times> chunk list) res" where
  "skip_links n kept [] = (if n = 0 then OK (kept, []) else Fault Mem_Fault)"
| "skip_links n kept (c # cs) =
     (if n = 0 then OK (kept, c # cs)
      else tor_assert (cs \<noteq> []) (skip_links (n - 1) (kept @ [c]) cs))"

definition shrink_freelist :: "bool \<Rightarrow> chunk_freelist \<Rightarrow> chunk_freelist res" where
  "shrink_freelist free_all fl =
     tor_assert (assert_freelist_ok fl)
       (rbind
         (if free_all \<or> fl_lowest_length fl > fl_slack fl then
            (let n_to_free = (if free_all then fl_cur_length fl
                              else fl_lowest_length fl - fl_slack fl);
                 n_to_skip = fl_cur_length fl - n_to_free
             in rbind (skip_links n_to_skip [] (fl_head fl)) (\<lambda>(kept, dropped).
                  OK (fl\<lparr>fl_head := kept,
                         fl_n_free := fl_n_free fl + of_nat (length dropped),
                         fl_cur_length := n_to_skip\<rparr>)))
          else OK fl)
         (\<lambda>f. let f' = f\<lparr>fl_lowest_length := fl_cur_length f\<rparr>
              in tor_assert (assert_freelist_ok f') (OK f')))"

fun shrink_freelists_loop :: "bool \<Rightarrow> chunk_freelist list \<Rightarrow> chunk_freelist list res" where
  "shrink_freelists_loop free_all (f # fs) =
     (if fl_alloc_size f = 0 then OK (f # fs)
      else rbind (shrink_freelist free_all f) (\<lambda>f'.
             rbind (shrink_freelists_loop free_all fs) (\<lambda>fs'. OK (f' # fs'))))"
| "shrink_freelists_loop free_all [] = Fault Mem_Fault"

definition buf_shrink_freelists :: "bool \<Rightarrow> chunk_alloc \<Rightarrow> chunk_alloc res" where
  "buf_shrink_freelists free_all st = (case st of
     None \<Rightarrow> OK None
   | Some s \<Rightarrow> rbind (shrink_freelists_loop free_all (freelists s))
                 (\<lambda>fls. OK (Some (s\<lparr>freelists := fls\<rparr>))))"

subsection \<open>Preferred sizes\<close>

definition MIN_READ_LEN :: nat where "MIN_READ_LEN = 8"
definition MIN_CHUNK_ALLOC :: nat where "MIN_CHUNK_ALLOC = 256"
definition MAX_CHUNK_ALLOC :: nat where "MAX_CHUNK_ALLOC = 65536"

text \<open>
  The loop doubles the size from 256; object sizes stay far below \<open>2\<^sup>6\<^sup>3\<close>, so the shift
  does not lose bits.  (The guard \<open>0 < sz\<close> holds throughout: it is there for the
  termination proof.)
\<close>

function preferred_loop :: "nat \<Rightarrow> nat \<Rightarrow> nat" where
  "preferred_loop target sz =
     (if 0 < sz \<and> CHUNK_SIZE_WITH_ALLOC sz < target then preferred_loop target (2 * sz) else sz)"
  by pat_completeness auto
termination
  by (relation "measure (\<lambda>(target, sz). target + CHUNK_HEADER_LEN - sz)")
     (auto simp: CHUNK_SIZE_WITH_ALLOC_def)

declare preferred_loop.simps [simp del]

definition preferred_chunk_size :: "nat \<Rightarrow> nat" where
  "preferred_chunk_size target = preferred_loop target MIN_CHUNK_ALLOC"

lemmas chunk_sizes = CHUNK_HEADER_LEN_def SIZEOF_CHUNK_T_def CHUNK_ALLOC_SIZE_def
  CHUNK_SIZE_WITH_ALLOC_def MIN_CHUNK_ALLOC_def MAX_CHUNK_ALLOC_def MIN_READ_LEN_def

subsection \<open>Lemmas on chunks\<close>

lemma chunk_write_OK:
  "chunk_write c bs = OK c' \<longleftrightarrow>
     c' = c\<lparr>ch_data := ch_data c @ bs\<rparr> \<and> ch_off c + ch_datalen c + length bs \<le> ch_memlen c"
  by (auto simp: chunk_write_def)

lemma chunk_write_fits:
  "chunk_ok c \<Longrightarrow> length bs \<le> CHUNK_REMAINING_CAPACITY c \<Longrightarrow>
     chunk_write c bs = OK (c\<lparr>ch_data := ch_data c @ bs\<rparr>)"
  by (auto simp: chunk_write_def chunk_ok_def CHUNK_REMAINING_CAPACITY_def)

lemma chunk_ok_write: "chunk_write c bs = OK c' \<Longrightarrow> chunk_ok c'"
  by (auto simp: chunk_write_OK chunk_ok_def)

lemma chunk_ok_repack [simp]: "chunk_ok c \<Longrightarrow> chunk_ok (chunk_repack c)"
  by (simp add: chunk_ok_def chunk_repack_def)

lemma chunk_ok_advance [simp]: "chunk_ok c \<Longrightarrow> n \<le> ch_datalen c \<Longrightarrow> chunk_ok (chunk_advance c n)"
  by (simp add: chunk_ok_def chunk_advance_def)

lemma chunk_ok_fresh [simp]: "chunk_ok (fresh_chunk a)"
  by (simp add: chunk_ok_def fresh_chunk_def)

lemma chunk_repack_sel [simp]:
  "ch_data (chunk_repack c) = ch_data c" "ch_memlen (chunk_repack c) = ch_memlen c"
  "ch_off (chunk_repack c) = 0"
  by (simp_all add: chunk_repack_def)

lemma chunk_advance_sel [simp]:
  "ch_data (chunk_advance c n) = drop n (ch_data c)"
  "ch_memlen (chunk_advance c n) = ch_memlen c"
  by (simp_all add: chunk_advance_def)

lemma fresh_chunk_sel [simp]:
  "ch_data (fresh_chunk a) = []" "ch_memlen (fresh_chunk a) = CHUNK_SIZE_WITH_ALLOC a"
  "ch_off (fresh_chunk a) = 0"
  by (simp_all add: fresh_chunk_def)

subsection \<open>Preferred sizes: least doubling that fits\<close>

lemma preferred_loop_ge: "0 < sz \<Longrightarrow> sz \<le> preferred_loop target sz"
proof (induction target sz rule: preferred_loop.induct)
  case (1 target sz)
  then show ?case
    by (subst preferred_loop.simps) (auto intro: order_trans [of sz "2 * sz"])
qed

lemma preferred_loop_fits: "0 < sz \<Longrightarrow> target \<le> CHUNK_SIZE_WITH_ALLOC (preferred_loop target sz)"
proof (induction target sz rule: preferred_loop.induct)
  case (1 target sz)
  then show ?case by (subst preferred_loop.simps) auto
qed

lemma preferred_loop_pow: "\<exists>k. preferred_loop target sz = sz * 2 ^ k"
proof (induction target sz rule: preferred_loop.induct)
  case (1 target sz)
  show ?case
  proof (cases "0 < sz \<and> CHUNK_SIZE_WITH_ALLOC sz < target")
    case True
    then obtain k where "preferred_loop target (2 * sz) = 2 * sz * 2 ^ k"
      using 1 by auto
    with True have "preferred_loop target sz = sz * 2 ^ Suc k"
      by (subst preferred_loop.simps) simp
    then show ?thesis by blast
  next
    case False
    then have "preferred_loop target sz = sz * 2 ^ 0"
      by (subst preferred_loop.simps) auto
    then show ?thesis by blast
  qed
qed

lemma preferred_loop_minimal:
  "0 < sz \<Longrightarrow> target \<le> CHUNK_SIZE_WITH_ALLOC (sz * 2 ^ k) \<Longrightarrow>
   preferred_loop target sz \<le> sz * 2 ^ k"
proof (induction target sz arbitrary: k rule: preferred_loop.induct)
  case (1 target sz)
  show ?case
  proof (cases "CHUNK_SIZE_WITH_ALLOC sz < target")
    case True
    with 1 obtain j where j: "k = Suc j" by (cases k) auto
    have "preferred_loop target (2 * sz) \<le> 2 * sz * 2 ^ j"
      using 1 True j by (simp add: mult.assoc mult.left_commute)
    with True 1(2) show ?thesis
      by (subst preferred_loop.simps) (simp add: j mult.assoc mult.left_commute)
  next
    case False
    then show ?thesis by (subst preferred_loop.simps) simp
  qed
qed

lemma preferred_chunk_size_ge: "MIN_CHUNK_ALLOC \<le> preferred_chunk_size t"
  unfolding preferred_chunk_size_def by (rule preferred_loop_ge) (simp add: chunk_sizes)

lemma preferred_chunk_size_fits: "t \<le> CHUNK_SIZE_WITH_ALLOC (preferred_chunk_size t)"
  unfolding preferred_chunk_size_def by (rule preferred_loop_fits) (simp add: chunk_sizes)

lemma preferred_chunk_size_le_32768:
  "t + CHUNK_HEADER_LEN \<le> 32768 \<Longrightarrow> preferred_chunk_size t \<le> 32768"
  using preferred_loop_minimal [of MIN_CHUNK_ALLOC t 7]
  by (simp add: preferred_chunk_size_def chunk_sizes)

subsection \<open>The allocator's invariant\<close>

text \<open>
  Every freelist passes \<^const>\<open>assert_freelist_ok\<close> and the array is the one of the source: the
  four sizes in ascending order and the terminating entry.
\<close>

definition alloc_ok :: "chunk_alloc \<Rightarrow> bool" where
  "alloc_ok st = (case st of None \<Rightarrow> True | Some s \<Rightarrow>
     map fl_alloc_size (freelists s) = [4096, 8192, 16384, 32768, 0] \<and>
     list_all assert_freelist_ok (butlast (freelists s)))"

text \<open>The sizes for which \<^const>\<open>get_freelist\<close> stays inside the array.\<close>

definition alloc_fits :: "chunk_alloc \<Rightarrow> nat \<Rightarrow> bool" where
  "alloc_fits st a \<longleftrightarrow> st = None \<or> a \<le> 32768"

lemma alloc_ok_initial: "alloc_ok initial_alloc"
  by (simp add: alloc_ok_def initial_alloc_def initial_freelists_def FL_def assert_freelist_ok_def)

lemma freelists_cases:
  assumes "map fl_alloc_size fls = [4096, 8192, 16384, 32768, 0]"
  obtains a b c d e where "fls = [a, b, c, d, e]" "fl_alloc_size a = 4096"
    "fl_alloc_size b = 8192" "fl_alloc_size c = 16384" "fl_alloc_size d = 32768"
    "fl_alloc_size e = 0"
  using assms by (auto simp: map_eq_Cons_conv)

lemma get_freelist_cases:
  assumes "map fl_alloc_size fls = [4096, 8192, 16384, 32768, 0]"
  shows "get_freelist fls a =
    (if a > 32768 then Fault Mem_Fault else if a = 4096 then OK (Some 0)
     else if a = 8192 then OK (Some 1) else if a = 16384 then OK (Some 2)
     else if a = 32768 then OK (Some 3) else OK None)"
  using assms
  by (elim freelists_cases) (simp add: get_freelist_def numeral_2_eq_2 numeral_3_eq_3)

lemma get_freelist_index:
  assumes "map fl_alloc_size fls = [4096, 8192, 16384, 32768, 0]" and "get_freelist fls a = OK (Some i)"
  shows "i < 4" "fl_alloc_size (fls ! i) = a"
proof -
  have "i = 0 \<and> a = 4096 \<or> i = 1 \<and> a = 8192 \<or> i = 2 \<and> a = 16384 \<or> i = 3 \<and> a = 32768"
    using assms by (simp add: get_freelist_cases split: if_splits)
  with assms(1) show "i < 4" "fl_alloc_size (fls ! i) = a"
    by (auto elim!: freelists_cases simp: numeral_2_eq_2 numeral_3_eq_3)
qed

lemma alloc_ok_update:
  assumes "alloc_ok (Some s)" and "i < 4" and "assert_freelist_ok f"
    and "fl_alloc_size f = fl_alloc_size (freelists s ! i)"
  shows "alloc_ok (Some (s\<lparr>freelists := (freelists s)[i := f]\<rparr>))"
proof -
  from assms(1) have m: "map fl_alloc_size (freelists s) = [4096, 8192, 16384, 32768, 0]"
    and b: "list_all assert_freelist_ok (butlast (freelists s))"
    by (auto simp: alloc_ok_def)
  have l: "length (freelists s) = 5" using arg_cong [OF m, of length] by simp
  have "map fl_alloc_size ((freelists s)[i := f]) = map fl_alloc_size (freelists s)"
    using assms(2,4) l by (metis (no_types) list_update_id map_update)
  moreover have "butlast ((freelists s)[i := f]) = (butlast (freelists s))[i := f]"
    using assms(2) l by (simp add: butlast_list_update)
  moreover have "list_all assert_freelist_ok ((butlast (freelists s))[i := f])"
    using b assms(3) by (metis list.pred_set set_update_subset_insert insertE subsetD)
  ultimately show ?thesis using m by (simp add: alloc_ok_def)
qed

lemma alloc_ok_nth:
  "alloc_ok (Some s) \<Longrightarrow> i < 4 \<Longrightarrow> assert_freelist_ok (freelists s ! i)"
proof -
  assume a: "alloc_ok (Some s)" and "i < 4"
  then have "i = 0 \<or> i = 1 \<or> i = 2 \<or> i = 3" by arith
  with a show ?thesis
    by (auto simp: alloc_ok_def numeral_2_eq_2 numeral_3_eq_3 elim!: freelists_cases)
qed

lemma chunk_free_ok:
  assumes "alloc_ok st" and "alloc_fits st (CHUNK_ALLOC_SIZE (ch_memlen c))"
  shows "\<exists>st'. chunk_free st c = OK st' \<and> alloc_ok st' \<and> (st' = None \<longleftrightarrow> st = None)"
proof (cases st)
  case None
  then show ?thesis by (simp add: chunk_free_def alloc_ok_def)
next
  case (Some s)
  with assms have m: "map fl_alloc_size (freelists s) = [4096, 8192, 16384, 32768, 0]"
    by (simp add: alloc_ok_def)
  let ?a = "CHUNK_ALLOC_SIZE (ch_memlen c)"
  obtain r where r: "get_freelist (freelists s) ?a = OK r"
    using assms(2) Some by (force simp: get_freelist_cases [OF m] alloc_fits_def split: if_splits)
  show ?thesis
  proof (cases r)
    case None
    with r Some assms(1) show ?thesis by (simp add: chunk_free_def)
  next
    case (Some i)
    note i = get_freelist_index [OF m r [unfolded Some]]
    have "assert_freelist_ok (freelists s ! i)"
      using assms(1) \<open>st = Some s\<close> i(1) by (simp add: alloc_ok_nth)
    then show ?thesis
      using r Some i \<open>st = Some s\<close> assms(1)
      by (auto simp: chunk_free_def Let_def intro!: alloc_ok_update) (auto simp: assert_freelist_ok_def)
  qed
qed

lemma chunk_new_ok:
  assumes "alloc_ok st" and "alloc_fits st a" and "SIZEOF_CHUNK_T \<le> a"
  shows "\<exists>st'. chunk_new_with_alloc_size st a = OK (st', fresh_chunk a) \<and> alloc_ok st' \<and>
           (st' = None \<longleftrightarrow> st = None)"
proof (cases st)
  case None
  then show ?thesis by (simp add: chunk_new_with_alloc_size_def alloc_ok_def)
next
  case (Some s)
  with assms have m: "map fl_alloc_size (freelists s) = [4096, 8192, 16384, 32768, 0]"
    by (simp add: alloc_ok_def)
  obtain r where r: "get_freelist (freelists s) a = OK r"
    using assms(2) Some by (force simp: get_freelist_cases [OF m] alloc_fits_def split: if_splits)
  show ?thesis
  proof (cases r)
    case None
    with r Some assms show ?thesis by (simp add: chunk_new_with_alloc_size_def alloc_ok_def)
  next
    case (Some i)
    note i = get_freelist_index [OF m r [unfolded Some]]
    have "assert_freelist_ok (freelists s ! i)"
      using assms(1) \<open>st = Some s\<close> i(1) by (simp add: alloc_ok_nth)
    then show ?thesis
      using r Some i \<open>st = Some s\<close> assms
      by (auto simp: chunk_new_with_alloc_size_def Let_def intro!: alloc_ok_update split: list.splits)
         (auto simp: assert_freelist_ok_def split: list.splits)
  qed
qed

lemma chunk_new_OK_D:
  "chunk_new_with_alloc_size st a = OK (st', c) \<Longrightarrow> c = fresh_chunk a"
  by (auto simp: chunk_new_with_alloc_size_def Let_def res_simps split: option.splits)

lemma chunk_free_fault:
  "chunk_free st c = Fault e \<Longrightarrow> alloc_ok st \<Longrightarrow> e = Mem_Fault"
  by (auto simp: chunk_free_def alloc_ok_def get_freelist_cases Let_def
           split: option.splits if_splits)

subsection \<open>Shrinking the freelists\<close>

lemma skip_links_ok:
  "0 \<le> n \<Longrightarrow> n < int (length cs) \<or> n = 0 \<Longrightarrow>
   skip_links n kept cs = OK (kept @ take (nat n) cs, drop (nat n) cs)"
proof (induction n kept cs rule: skip_links.induct)
  case (2 n kept c cs)
  show ?case
  proof (cases "n = 0")
    case False
    with 2(2,3) have "cs \<noteq> []" and n: "nat n = Suc (nat (n - 1))" by auto
    with False 2 show ?thesis by (simp add: n)
  qed simp
qed simp

definition shrunk :: "bool \<Rightarrow> chunk_freelist \<Rightarrow> chunk_freelist \<Rightarrow> bool" where
  "shrunk free_all f f' \<longleftrightarrow>
     fl_head f' = take (nat (fl_cur_length f')) (fl_head f) \<and>
     fl_lowest_length f' = fl_cur_length f' \<and> (free_all \<longrightarrow> fl_head f' = [])"

lemma shrink_freelist_ok:
  assumes "assert_freelist_ok fl" and "0 \<le> fl_slack fl"
  shows "\<exists>fl'. shrink_freelist free_all fl = OK fl' \<and> assert_freelist_ok fl' \<and>
    fl_alloc_size fl' = fl_alloc_size fl \<and> shrunk free_all fl fl'"
proof (cases "free_all \<or> fl_lowest_length fl > fl_slack fl")
  case False
  with assms show ?thesis
    by (auto simp: shrink_freelist_def Let_def assert_freelist_ok_def shrunk_def)
next
  case True
  define k where "k = fl_cur_length fl -
    (if free_all then fl_cur_length fl else fl_lowest_length fl - fl_slack fl)"
  have k: "0 \<le> k" "k < int (length (fl_head fl)) \<or> k = 0"
    using True assms by (auto simp: k_def assert_freelist_ok_def)
  define fl1 where "fl1 = fl\<lparr>fl_head := take (nat k) (fl_head fl),
    fl_n_free := fl_n_free fl + of_nat (length (drop (nat k) (fl_head fl))),
    fl_cur_length := k, fl_lowest_length := k\<rparr>"
  have ok: "assert_freelist_ok fl1"
    using assms k True
    by (auto simp: fl1_def k_def assert_freelist_ok_def list_all_iff dest: in_set_takeD)
  have "shrink_freelist free_all fl = OK fl1"
    using True assms(1) ok
    by (simp add: shrink_freelist_def Let_def k_def [symmetric] skip_links_ok [OF k] fl1_def)
  with ok show ?thesis
    by (auto simp: fl1_def k_def shrunk_def)
qed

text \<open>
  The whole pass: on a well-formed allocator with non-negative slacks it never fails an
  assertion or walks off a list, and leaves a well-formed allocator.
\<close>

lemma shrink_loop_ok:
  assumes "list_all (\<lambda>f. assert_freelist_ok f \<and> 0 \<le> fl_slack f) fs" and "fl_alloc_size e = 0"
  shows "\<exists>fs'. shrink_freelists_loop free_all (fs @ [e]) = OK (fs' @ [e]) \<and>
           list_all assert_freelist_ok fs' \<and> map fl_alloc_size fs' = map fl_alloc_size fs \<and>
           list_all2 (shrunk free_all) fs fs'"
  using assms
proof (induction fs)
  case (Cons f fs)
  then obtain f' where f': "shrink_freelist free_all f = OK f'" "assert_freelist_ok f'"
    "fl_alloc_size f' = fl_alloc_size f" "shrunk free_all f f'"
    using shrink_freelist_ok by fastforce
  from Cons obtain fs' where "shrink_freelists_loop free_all (fs @ [e]) = OK (fs' @ [e])"
    "list_all assert_freelist_ok fs'" "map fl_alloc_size fs' = map fl_alloc_size fs"
    "list_all2 (shrunk free_all) fs fs'"
    by auto
  moreover have "fl_alloc_size f \<noteq> 0" using Cons.prems by (simp add: assert_freelist_ok_def)
  ultimately show ?case using f' by (intro exI [of _ "f' # fs'"]) simp
qed simp

end
