(* ===== verification/Buffers.thy ===== *)
theory Buffers
  imports Chunks
begin

section \<open>Buffers (src/innomitor/src/or/buffers.c)\<close>

text \<open>
  A buffer is a list of chunks; the head and tail pointers of the source are the first and
  the last element of the list.  Operations that allocate or release chunks thread the
  allocator state.  \<open>buf_bytes\<close> is the abstraction: the byte queue a buffer stands for.
\<close>

definition BUFFER_MAGIC :: u32 where
  "BUFFER_MAGIC = 0xB0FFF312"

record buf =
  buf_magic :: u32
  buf_datalen :: nat
  buf_default_chunk_size :: nat
  buf_chunks :: "chunk list"

definition buf_bytes :: "buf \<Rightarrow> byte list" where
  "buf_bytes b = concat (map ch_data (buf_chunks b))"

definition buf_new :: buf where
  "buf_new = \<lparr>buf_magic = BUFFER_MAGIC, buf_datalen = 0, buf_default_chunk_size = 4096,
     buf_chunks = []\<rparr>"

definition buf_new_with_capacity :: "nat \<Rightarrow> buf" where
  "buf_new_with_capacity capacity = buf_new\<lparr>buf_default_chunk_size := preferred_chunk_size capacity\<rparr>"

fun free_chunks :: "chunk_alloc \<Rightarrow> chunk list \<Rightarrow> chunk_alloc res" where
  "free_chunks st [] = OK st"
| "free_chunks st (c # cs) = rbind (chunk_free st c) (\<lambda>st'. free_chunks st' cs)"

definition buf_clear :: "chunk_alloc \<Rightarrow> buf \<Rightarrow> (chunk_alloc \<times> buf) res" where
  "buf_clear st b = rbind (free_chunks st (buf_chunks b))
     (\<lambda>st'. OK (st', b\<lparr>buf_datalen := 0, buf_chunks := []\<rparr>))"

definition buf_allocation :: "buf \<Rightarrow> nat" where
  "buf_allocation b = foldl (\<lambda>total c. total + ch_memlen c) 0 (buf_chunks b)"

definition buf_slack :: "buf \<Rightarrow> nat" where
  "buf_slack b = (if buf_chunks b = [] then 0 else CHUNK_REMAINING_CAPACITY (last (buf_chunks b)))"

definition buf_add_chunk_with_capacity ::
  "chunk_alloc \<Rightarrow> buf \<Rightarrow> nat \<Rightarrow> bool \<Rightarrow> (chunk_alloc \<times> buf) res" where
  "buf_add_chunk_with_capacity st b capacity capped =
     (let alloc = (if CHUNK_ALLOC_SIZE capacity < buf_default_chunk_size b
                   then buf_default_chunk_size b
                   else if capped \<and> CHUNK_ALLOC_SIZE capacity > MAX_CHUNK_ALLOC
                   then MAX_CHUNK_ALLOC
                   else preferred_chunk_size capacity)
      in rbind (chunk_new_with_alloc_size st alloc) (\<lambda>(st', chunk).
           OK (st', b\<lparr>buf_chunks := buf_chunks b @ [chunk]\<rparr>)))"

subsection \<open>Removing from the front, peeking and fetching\<close>

fun remove_from_chunks ::
  "chunk_alloc \<Rightarrow> nat \<Rightarrow> chunk list \<Rightarrow> nat \<Rightarrow> (chunk_alloc \<times> nat \<times> chunk list) res" where
  "remove_from_chunks st dl [] n = (if n = 0 then OK (st, dl, []) else Fault Assert_Fail)"
| "remove_from_chunks st dl (c # cs) n =
     (if n = 0 then OK (st, dl, c # cs)
      else if ch_datalen c > n then OK (st, dl - n, chunk_advance c n # cs)
      else rbind (chunk_free st c) (\<lambda>st'.
             remove_from_chunks st' (dl - ch_datalen c) cs (n - ch_datalen c)))"

definition buf_remove_from_front :: "chunk_alloc \<Rightarrow> buf \<Rightarrow> nat \<Rightarrow> (chunk_alloc \<times> buf) res" where
  "buf_remove_from_front st b n =
     tor_assert (buf_datalen b \<ge> n)
       (rbind (remove_from_chunks st (buf_datalen b) (buf_chunks b) n) (\<lambda>(st', dl, cs).
          OK (st', b\<lparr>buf_datalen := dl, buf_chunks := cs\<rparr>)))"

fun peek_chunks :: "chunk list \<Rightarrow> nat \<Rightarrow> byte list res" where
  "peek_chunks [] n = (if n = 0 then OK [] else Fault Assert_Fail)"
| "peek_chunks (c # cs) n =
     (if n = 0 then OK []
      else let copy = (if ch_datalen c < n then ch_datalen c else n) in
           rbind (peek_chunks cs (n - copy)) (\<lambda>r. OK (take copy (ch_data c) @ r)))"

definition peek_from_buf :: "buf \<Rightarrow> nat \<Rightarrow> byte list res" where
  "peek_from_buf b n = tor_assert (n \<le> buf_datalen b) (peek_chunks (buf_chunks b) n)"

definition fetch_from_buf ::
  "chunk_alloc \<Rightarrow> buf \<Rightarrow> nat \<Rightarrow> (byte list \<times> chunk_alloc \<times> buf) res" where
  "fetch_from_buf st b n =
     rbind (peek_from_buf b n) (\<lambda>string.
       rbind (buf_remove_from_front st b n) (\<lambda>(st', b').
         tor_assert (buf_datalen b' < int_max) (OK (string, st', b'))))"

subsection \<open>Appending\<close>

definition ensure_tail_room :: "chunk_alloc \<Rightarrow> buf \<Rightarrow> nat \<Rightarrow> (chunk_alloc \<times> buf) res" where
  "ensure_tail_room st b len =
     (if buf_chunks b = [] \<or> CHUNK_REMAINING_CAPACITY (last (buf_chunks b)) = 0
      then buf_add_chunk_with_capacity st b len True else OK (st, b))"

definition tail_write :: "buf \<Rightarrow> byte list \<Rightarrow> buf res" where
  "tail_write b bs =
     rbind (chunk_write (last (buf_chunks b)) bs) (\<lambda>t.
       OK (b\<lparr>buf_datalen := buf_datalen b + length bs,
             buf_chunks := butlast (buf_chunks b) @ [t]\<rparr>))"

lemma add_chunk_room:
  assumes "buf_add_chunk_with_capacity st b len capped = OK (st', b')" and "0 < len"
  shows "buf_chunks b' \<noteq> []" "0 < CHUNK_REMAINING_CAPACITY (last (buf_chunks b'))"
proof -
  from assms(1) obtain a where a: "chunk_new_with_alloc_size st a = OK (st', last (buf_chunks b'))"
    and ne: "buf_chunks b' \<noteq> []"
    and size: "a = buf_default_chunk_size b \<and> CHUNK_ALLOC_SIZE len < a \<or>
               a = MAX_CHUNK_ALLOC \<or> a = preferred_chunk_size len"
    by (auto simp: buf_add_chunk_with_capacity_def Let_def res_simps split: if_splits prod.splits)
  show "buf_chunks b' \<noteq> []" by (rule ne)
  have "0 < CHUNK_SIZE_WITH_ALLOC a"
    using size assms(2) preferred_chunk_size_fits [of len] by (auto simp: chunk_sizes)
  with chunk_new_OK_D [OF a] show "0 < CHUNK_REMAINING_CAPACITY (last (buf_chunks b'))"
    by (simp add: CHUNK_REMAINING_CAPACITY_def)
qed

lemma ensure_tail_room_room:
  assumes "ensure_tail_room st b len = OK (st', b')" and "0 < len"
  shows "buf_chunks b' \<noteq> []" "0 < CHUNK_REMAINING_CAPACITY (last (buf_chunks b'))"
  using assms by (auto simp: ensure_tail_room_def dest: add_chunk_room split: if_splits)

function write_loop :: "chunk_alloc \<Rightarrow> buf \<Rightarrow> byte list \<Rightarrow> (chunk_alloc \<times> buf) res" where
  "write_loop st b str =
     (if str = [] then OK (st, b)
      else rbind (ensure_tail_room st b (length str)) (\<lambda>(st', b').
             let cap = CHUNK_REMAINING_CAPACITY (last (buf_chunks b'));
                 copy = (if cap > length str then length str else cap)
             in rbind (tail_write b' (take copy str)) (\<lambda>b''.
                  write_loop st' b'' (drop copy str))))"
  by pat_completeness auto
termination
  by (relation "measure (\<lambda>(st, b, str). length str)") (auto dest: ensure_tail_room_room)

declare write_loop.simps [simp del]

definition write_to_buf :: "chunk_alloc \<Rightarrow> byte list \<Rightarrow> buf \<Rightarrow> (chunk_alloc \<times> buf \<times> nat) res" where
  "write_to_buf st string b =
     (if string = [] then OK (st, b, buf_datalen b)
      else rbind (write_loop st b string) (\<lambda>(st', b').
             tor_assert (buf_datalen b' < int_max) (OK (st', b', buf_datalen b'))))"

text \<open>Moving data between buffers, 4096 bytes at a time.\<close>

fun move_loop :: "nat \<Rightarrow> chunk_alloc \<Rightarrow> buf \<Rightarrow> buf \<Rightarrow> (chunk_alloc \<times> buf \<times> buf) res" where
  "move_loop len st out inb =
     (if len = 0 then OK (st, out, inb)
      else let n = (if len > 4096 then 4096 else len) in
           rbind (fetch_from_buf st inb n) (\<lambda>(bs, st1, inb').
             rbind (write_to_buf st1 bs out) (\<lambda>(st2, out', _).
               move_loop (len - n) st2 out' inb')))"

declare move_loop.simps [simp del]

definition move_buf_to_buf ::
  "chunk_alloc \<Rightarrow> buf \<Rightarrow> buf \<Rightarrow> nat \<Rightarrow> (chunk_alloc \<times> buf \<times> buf \<times> nat \<times> nat) res" where
  "move_buf_to_buf st out inb flushlen =
     (let cp = (if flushlen > buf_datalen inb then buf_datalen inb else flushlen)
      in tor_assert (cp < int_max)
           (rbind (move_loop cp st out inb) (\<lambda>(st', out', inb').
              OK (st', out', inb', flushlen - cp, cp))))"

subsection \<open>Pulling data up into the first chunk\<close>

text \<open>\<^verbatim>\<open>size_t\<close> subtraction: modulo \<open>2\<^sup>6\<^sup>4\<close>.\<close>

definition size_sub :: "nat \<Rightarrow> nat \<Rightarrow> nat" where
  "size_sub a b = (if b \<le> a then a - b else 2 ^ 64 + a - b)"

fun pullup_loop ::
  "chunk_alloc \<Rightarrow> nat \<Rightarrow> chunk \<Rightarrow> chunk list \<Rightarrow> (chunk_alloc \<times> chunk list) res" where
  "pullup_loop st bytes dest [] =
     (if ch_datalen dest < bytes then Fault Assert_Fail else OK (st, [dest]))"
| "pullup_loop st bytes dest (src # rest) =
     (if ch_datalen dest < bytes then
        let n = bytes - ch_datalen dest in
        if n > ch_datalen src then
          rbind (chunk_write dest (ch_data src)) (\<lambda>dest'.
            rbind (chunk_free st src) (\<lambda>st'. pullup_loop st' bytes dest' rest))
        else
          rbind (chunk_write dest (take n (ch_data src))) (\<lambda>dest'.
            tor_assert (ch_datalen dest' = bytes)
              (OK (st, dest' # chunk_advance src n # rest)))
      else OK (st, dest # src # rest))"

text \<open>Making room in the first chunk, either by repacking it or by growing it.\<close>

definition pullup_head :: "buf \<Rightarrow> chunk \<Rightarrow> nat \<Rightarrow> chunk res" where
  "pullup_head b head capacity =
     (if ch_memlen head \<ge> capacity then
        let need = size_sub capacity (buf_datalen b);
            head' = (if CHUNK_REMAINING_CAPACITY head < need then chunk_repack head else head)
        in tor_assert (CHUNK_REMAINING_CAPACITY head' \<ge> need) (OK head')
      else
        let newsize = CHUNK_SIZE_WITH_ALLOC (preferred_chunk_size capacity) in
        rbind (chunk_grow (chunk_repack head) newsize) (\<lambda>newhead.
          tor_assert (ch_memlen newhead \<ge> capacity) (OK newhead)))"

definition buf_pullup :: "chunk_alloc \<Rightarrow> buf \<Rightarrow> nat \<Rightarrow> bool \<Rightarrow> (chunk_alloc \<times> buf) res" where
  "buf_pullup st b bytes0 nulterminate = (case buf_chunks b of
     [] \<Rightarrow> OK (st, b)
   | head # rest \<Rightarrow>
       (let bytes = (if buf_datalen b < bytes0 then buf_datalen b else bytes0);
            capacity = (if nulterminate then bytes + 1 else bytes)
        in if ch_datalen head \<ge> bytes \<and>
              (nulterminate \<longrightarrow> CHUNK_REMAINING_CAPACITY head \<noteq> 0)
           then OK (st, b)
           else rbind (pullup_head b head capacity) (\<lambda>dest.
             rbind (pullup_loop st bytes dest rest) (\<lambda>(st', cs).
               tor_assert (nulterminate \<longrightarrow> CHUNK_REMAINING_CAPACITY (hd cs) \<noteq> 0)
                 (OK (st', b\<lparr>buf_chunks := cs\<rparr>))))))"

subsection \<open>Well-formedness\<close>

text \<open>\<^verbatim>\<open>assert_buf_ok\<close>, as a predicate.\<close>

definition assert_buf_ok :: "buf \<Rightarrow> bool" where
  "assert_buf_ok b \<longleftrightarrow> buf_magic b = BUFFER_MAGIC \<and>
     (if buf_chunks b = [] then buf_datalen b = 0
      else list_all (\<lambda>ch. ch_datalen ch \<le> ch_memlen ch \<and> ch_off ch < ch_memlen ch \<and>
                          ch_off ch + ch_datalen ch \<le> ch_memlen ch) (buf_chunks b) \<and>
           buf_datalen b = sum_list (map length (map ch_data (buf_chunks b))))"

text \<open>
  The full invariant: also the implementation note at the top of the file (every chunk but
  the tail holds at least one byte), and that every chunk has a size the allocator handles.
\<close>

definition buf_inv :: "chunk_alloc \<Rightarrow> buf \<Rightarrow> bool" where
  "buf_inv st b \<longleftrightarrow> alloc_ok st \<and> assert_buf_ok b \<and>
     list_all (\<lambda>c. ch_data c \<noteq> []) (butlast (buf_chunks b)) \<and>
     list_all (\<lambda>c. alloc_fits st (CHUNK_ALLOC_SIZE (ch_memlen c))) (buf_chunks b) \<and>
     alloc_fits st (buf_default_chunk_size b) \<and> SIZEOF_CHUNK_T \<le> buf_default_chunk_size b"

definition chunk_inv :: "chunk_alloc \<Rightarrow> chunk \<Rightarrow> bool" where
  "chunk_inv st c \<longleftrightarrow> ch_off c < ch_memlen c \<and> chunk_ok c \<and>
     alloc_fits st (CHUNK_ALLOC_SIZE (ch_memlen c))"

definition chunks_inv :: "chunk_alloc \<Rightarrow> chunk list \<Rightarrow> bool" where
  "chunks_inv st cs \<longleftrightarrow> list_all (chunk_inv st) cs \<and> list_all (\<lambda>c. ch_data c \<noteq> []) (butlast cs)"

abbreviation chunks_bytes :: "chunk list \<Rightarrow> byte list" where
  "chunks_bytes cs \<equiv> concat (map ch_data cs)"

text \<open>Two allocator states of the same build: both with freelists or both without.\<close>

definition same_build :: "chunk_alloc \<Rightarrow> chunk_alloc \<Rightarrow> bool" where
  "same_build st st' \<longleftrightarrow> (st = None \<longleftrightarrow> st' = None)"

lemma same_build_refl [simp]: "same_build st st"
  by (simp add: same_build_def)

lemma same_build_trans: "same_build a b \<Longrightarrow> same_build b c \<Longrightarrow> same_build a c"
  by (simp add: same_build_def)

lemma alloc_fits_same_build: "same_build st st' \<Longrightarrow> alloc_fits st a = alloc_fits st' a"
  by (simp add: same_build_def alloc_fits_def)

lemma chunk_inv_same_build: "same_build st st' \<Longrightarrow> chunk_inv st c = chunk_inv st' c"
  by (simp add: chunk_inv_def alloc_fits_same_build [of st st'])

lemma chunks_inv_same_build: "same_build st st' \<Longrightarrow> chunks_inv st cs = chunks_inv st' cs"
  using chunk_inv_same_build [of st st'] by (simp add: chunks_inv_def list_all_iff)

lemma chunks_inv_Cons:
  "chunks_inv st (c # cs) \<longleftrightarrow> chunk_inv st c \<and> (cs \<noteq> [] \<longrightarrow> ch_data c \<noteq> []) \<and> chunks_inv st cs"
  by (auto simp: chunks_inv_def)

lemma chunks_inv_snoc:
  "chunks_inv st (cs @ [c]) \<longleftrightarrow>
     list_all (chunk_inv st) cs \<and> list_all (\<lambda>c. ch_data c \<noteq> []) cs \<and> chunk_inv st c"
  by (auto simp: chunks_inv_def)

lemma buf_inv_iff:
  "buf_inv st b \<longleftrightarrow> alloc_ok st \<and> buf_magic b = BUFFER_MAGIC \<and>
     buf_datalen b = length (buf_bytes b) \<and> chunks_inv st (buf_chunks b) \<and>
     alloc_fits st (buf_default_chunk_size b) \<and> SIZEOF_CHUNK_T \<le> buf_default_chunk_size b"
  by (auto simp: buf_inv_def assert_buf_ok_def buf_bytes_def length_concat chunks_inv_def
        chunk_inv_def chunk_ok_def list_all_iff o_def)

text \<open>
  \<^verbatim>\<open>buf_pullup\<close> can leave a chunk that has been emptied between two others, with its data
  pointer at the end of its block: a weaker condition that removal and peeking need.
\<close>

definition chunk_wf :: "chunk_alloc \<Rightarrow> chunk \<Rightarrow> bool" where
  "chunk_wf st c \<longleftrightarrow> chunk_ok c \<and> alloc_fits st (CHUNK_ALLOC_SIZE (ch_memlen c))"

definition buf_wf :: "chunk_alloc \<Rightarrow> buf \<Rightarrow> bool" where
  "buf_wf st b \<longleftrightarrow> alloc_ok st \<and> buf_datalen b = length (buf_bytes b) \<and>
     list_all (chunk_wf st) (buf_chunks b)"

lemma chunk_inv_wf: "chunk_inv st c \<Longrightarrow> chunk_wf st c"
  by (simp add: chunk_inv_def chunk_wf_def)

lemma chunk_wf_same_build: "same_build st st' \<Longrightarrow> chunk_wf st c = chunk_wf st' c"
  by (simp add: chunk_wf_def alloc_fits_same_build [of st st'])

lemma buf_inv_wf: "buf_inv st b \<Longrightarrow> buf_wf st b"
  by (auto simp: buf_inv_iff buf_wf_def chunks_inv_def list_all_iff chunk_inv_wf)

lemma buf_inv_same_build:
  "buf_inv st b \<Longrightarrow> same_build st st' \<Longrightarrow> alloc_ok st' \<Longrightarrow> buf_inv st' b"
  using chunks_inv_same_build [of st st'] alloc_fits_same_build [of st st']
  by (simp add: buf_inv_iff)

lemma buf_inv_new: "alloc_ok st \<Longrightarrow> buf_inv st buf_new"
  by (simp add: buf_inv_iff buf_new_def buf_bytes_def chunks_inv_def alloc_fits_def chunk_sizes)

subsection \<open>Each operation against the byte queue\<close>

lemma peek_chunks_ok:
  "n \<le> length (chunks_bytes cs) \<Longrightarrow> peek_chunks cs n = OK (take n (chunks_bytes cs))"
proof (induction cs n rule: peek_chunks.induct)
  case (2 c cs n)
  then show ?case by (cases "n = 0"; cases "ch_datalen c < n") (simp_all add: Let_def)
qed simp

lemma free_chunks_ok:
  assumes "alloc_ok st" and "list_all (chunk_wf st) cs"
  shows "\<exists>st'. free_chunks st cs = OK st' \<and> alloc_ok st' \<and> same_build st st'"
  using assms
proof (induction cs arbitrary: st)
  case (Cons c cs)
  then obtain st1 where st1: "chunk_free st c = OK st1" "alloc_ok st1" "same_build st st1"
    using chunk_free_ok [of st c] by (auto simp: chunk_wf_def same_build_def)
  with Cons.prems have "list_all (chunk_wf st1) cs"
    by (simp add: list_all_iff chunk_wf_same_build [of st st1])
  with Cons.IH [of st1] st1 show ?case
    by (auto intro: same_build_trans)
qed simp

lemma chunk_inv_advance:
  "chunk_inv st c \<Longrightarrow> n < ch_datalen c \<Longrightarrow> chunk_inv st (chunk_advance c n)"
  by (auto simp: chunk_inv_def chunk_ok_def chunk_advance_def)

lemma chunk_wf_advance:
  "chunk_wf st c \<Longrightarrow> n \<le> ch_datalen c \<Longrightarrow> chunk_wf st (chunk_advance c n)"
  by (simp add: chunk_wf_def)

lemma remove_from_chunks_wf:
  assumes "alloc_ok st" and "list_all (chunk_wf st) cs" and "n \<le> length (chunks_bytes cs)"
  shows "\<exists>st' cs'. remove_from_chunks st dl cs n = OK (st', dl - n, cs') \<and>
           chunks_bytes cs' = drop n (chunks_bytes cs) \<and> alloc_ok st' \<and> same_build st st' \<and>
           list_all (chunk_wf st') cs'"
  using assms
proof (induction cs arbitrary: st dl n)
  case (Cons c cs)
  show ?case
  proof (cases "n = 0 \<or> ch_datalen c > n")
    case True
    with Cons.prems show ?thesis by (auto simp: chunk_wf_advance)
  next
    case False
    obtain st1 where st1: "chunk_free st c = OK st1" "alloc_ok st1" "same_build st st1"
      using chunk_free_ok [of st c] Cons.prems by (auto simp: chunk_wf_def same_build_def)
    have "list_all (chunk_wf st1) cs"
      using Cons.prems(2) chunk_wf_same_build [OF st1(3)] by (simp add: list_all_iff)
    moreover have "n - ch_datalen c \<le> length (chunks_bytes cs)" using Cons.prems(3) by simp
    ultimately obtain st' cs' where
      "remove_from_chunks st1 (dl - ch_datalen c) cs (n - ch_datalen c) = OK (st', dl - n, cs')"
      "chunks_bytes cs' = drop (n - ch_datalen c) (chunks_bytes cs)" "alloc_ok st'"
      "same_build st1 st'" "list_all (chunk_wf st') cs'"
      using Cons.IH [of st1 "n - ch_datalen c" "dl - ch_datalen c"] st1(2) False by auto
    with st1 False show ?thesis
      by (auto intro: same_build_trans)
  qed
qed auto

text \<open>Removal keeps the stronger invariant as well: what is left is a suffix of the chunks, its
  first chunk advanced by less than its length.\<close>

lemma remove_from_chunks_inv:
  assumes "remove_from_chunks st dl cs n = OK (st', dl', cs')" and "same_build st st'"
    and "chunks_inv st cs"
  shows "chunks_inv st' cs'"
  using assms
proof (induction st dl cs n rule: remove_from_chunks.induct)
  case (2 st dl c cs n)
  show ?case
  proof (cases "n = 0 \<or> ch_datalen c > n")
    case True
    with 2(2-4) chunks_inv_same_build [OF 2(3)] show ?thesis
      by (auto simp: chunks_inv_Cons chunk_inv_advance split: if_splits)
  next
    case False
    with 2(2) obtain st1 where st1: "chunk_free st c = OK st1"
      "remove_from_chunks st1 (dl - ch_datalen c) cs (n - ch_datalen c) = OK (st', dl', cs')"
      by (auto simp: res_simps)
    have "same_build st st1"
      using st1(1) by (auto simp: chunk_free_def same_build_def Let_def res_simps
          split: option.splits if_splits)
    with 2(1) [of st1] st1 False 2(3,4) chunks_inv_same_build [of st st1] show ?thesis
      by (auto simp: chunks_inv_Cons same_build_def)
  qed
qed (auto simp: chunks_inv_def split: if_splits)

lemma buf_remove_from_front_wf:
  assumes "buf_wf st b" and "n \<le> length (buf_bytes b)"
  shows "\<exists>st' b'. buf_remove_from_front st b n = OK (st', b') \<and>
           buf_bytes b' = drop n (buf_bytes b) \<and> buf_wf st' b' \<and> same_build st st'"
proof -
  have inv: "alloc_ok st" "list_all (chunk_wf st) (buf_chunks b)" "buf_datalen b = length (buf_bytes b)"
    using assms(1) by (auto simp: buf_wf_def)
  from remove_from_chunks_wf [OF inv(1,2), of n "buf_datalen b"] assms(2)
  obtain st' cs' where r: "remove_from_chunks st (buf_datalen b) (buf_chunks b) n =
      OK (st', buf_datalen b - n, cs')" "chunks_bytes cs' = drop n (buf_bytes b)"
    "alloc_ok st'" "same_build st st'" "list_all (chunk_wf st') cs'"
    by (auto simp: buf_bytes_def)
  let ?b = "b\<lparr>buf_datalen := buf_datalen b - n, buf_chunks := cs'\<rparr>"
  have "buf_remove_from_front st b n = OK (st', ?b)"
    using r(1) inv(3) assms(2) by (simp add: buf_remove_from_front_def)
  moreover have "buf_bytes ?b = drop n (buf_bytes b)"
    using r(2) by (simp add: buf_bytes_def)
  ultimately show ?thesis
    using r inv(3) by (auto simp: buf_wf_def)
qed

lemma buf_remove_from_front_ok:
  assumes "buf_inv st b" and "n \<le> length (buf_bytes b)"
  shows "\<exists>st' b'. buf_remove_from_front st b n = OK (st', b') \<and>
           buf_bytes b' = drop n (buf_bytes b) \<and> buf_inv st' b' \<and> same_build st st'"
proof -
  obtain st' b' where r: "buf_remove_from_front st b n = OK (st', b')"
    "buf_bytes b' = drop n (buf_bytes b)" "buf_wf st' b'" "same_build st st'"
    using buf_remove_from_front_wf [OF buf_inv_wf [OF assms(1)] assms(2)] by blast
  then obtain dl cs where c: "remove_from_chunks st (buf_datalen b) (buf_chunks b) n = OK (st', dl, cs)"
    "b' = b\<lparr>buf_datalen := dl, buf_chunks := cs\<rparr>"
    by (auto simp: buf_remove_from_front_def res_simps)
  have "chunks_inv st' cs"
    using remove_from_chunks_inv [OF c(1) r(4)] assms(1) by (simp add: buf_inv_iff)
  then have "buf_inv st' b'"
    using assms(1) r(3) c(2) alloc_fits_same_build [OF r(4)] by (simp add: buf_inv_iff buf_wf_def)
  with r show ?thesis by blast
qed

lemma peek_from_buf_wf:
  "buf_wf st b \<Longrightarrow> n \<le> length (buf_bytes b) \<Longrightarrow> peek_from_buf b n = OK (take n (buf_bytes b))"
  by (simp add: peek_from_buf_def buf_wf_def peek_chunks_ok buf_bytes_def)

lemma fetch_from_buf_wf:
  assumes "buf_wf st b" and "n \<le> length (buf_bytes b)" and "length (buf_bytes b) < int_max"
  shows "\<exists>st' b'. fetch_from_buf st b n = OK (take n (buf_bytes b), st', b') \<and>
           buf_bytes b' = drop n (buf_bytes b) \<and> buf_wf st' b' \<and> same_build st st'"
proof -
  obtain st' b' where r: "buf_remove_from_front st b n = OK (st', b')"
    "buf_bytes b' = drop n (buf_bytes b)" "buf_wf st' b'" "same_build st st'"
    using buf_remove_from_front_wf [OF assms(1,2)] by blast
  have "buf_datalen b' < int_max" using r assms(3) by (simp add: buf_wf_def)
  with r peek_from_buf_wf [OF assms(1,2)] show ?thesis by (simp add: fetch_from_buf_def)
qed

lemma fetch_from_buf_ok:
  assumes "buf_inv st b" and "n \<le> length (buf_bytes b)" and "length (buf_bytes b) < int_max"
  shows "\<exists>st' b'. fetch_from_buf st b n = OK (take n (buf_bytes b), st', b') \<and>
           buf_bytes b' = drop n (buf_bytes b) \<and> buf_inv st' b' \<and> same_build st st'"
proof -
  obtain st' b' where r: "buf_remove_from_front st b n = OK (st', b')"
    "buf_bytes b' = drop n (buf_bytes b)" "buf_inv st' b'" "same_build st st'"
    using buf_remove_from_front_ok [OF assms(1,2)] by blast
  have "buf_datalen b' < int_max" using r assms(3) by (simp add: buf_inv_iff)
  with r peek_from_buf_wf [OF buf_inv_wf [OF assms(1)] assms(2)] show ?thesis
    by (simp add: fetch_from_buf_def)
qed

lemma buf_clear_wf:
  assumes "buf_wf st b"
  shows "\<exists>st' b'. buf_clear st b = OK (st', b') \<and> buf_bytes b' = [] \<and> buf_wf st' b' \<and> same_build st st'"
  using free_chunks_ok [of st "buf_chunks b"] assms
  by (auto simp: buf_wf_def buf_clear_def buf_bytes_def)

text \<open>The sizes of a single write for which every chunk it may need can be allocated.\<close>

definition write_fits :: "chunk_alloc \<Rightarrow> nat \<Rightarrow> bool" where
  "write_fits st len \<longleftrightarrow> st = None \<or> CHUNK_ALLOC_SIZE len \<le> 32768"

lemma write_fits_same_build: "same_build st st' \<Longrightarrow> write_fits st n = write_fits st' n"
  by (simp add: same_build_def write_fits_def)

lemma write_fits_mono: "write_fits st n \<Longrightarrow> m \<le> n \<Longrightarrow> write_fits st m"
  by (auto simp: write_fits_def chunk_sizes)

lemma add_chunk_ok:
  assumes "buf_inv st b" and "write_fits st len" and "0 < len"
    and "buf_chunks b \<noteq> [] \<Longrightarrow> ch_data (last (buf_chunks b)) \<noteq> []"
  shows "\<exists>st' a. buf_add_chunk_with_capacity st b len capped =
             OK (st', b\<lparr>buf_chunks := buf_chunks b @ [fresh_chunk a]\<rparr>) \<and>
           MIN_READ_LEN \<le> CHUNK_SIZE_WITH_ALLOC a \<and>
           buf_inv st' (b\<lparr>buf_chunks := buf_chunks b @ [fresh_chunk a]\<rparr>) \<and> same_build st st'"
proof -
  let ?a = "if CHUNK_ALLOC_SIZE len < buf_default_chunk_size b then buf_default_chunk_size b
     else if capped \<and> CHUNK_ALLOC_SIZE len > MAX_CHUNK_ALLOC then MAX_CHUNK_ALLOC
     else preferred_chunk_size len"
  obtain a where a: "a = ?a" by blast
  have sz: "SIZEOF_CHUNK_T \<le> a" and fits: "alloc_fits st a"
    using assms(1,2) preferred_chunk_size_ge [of len] preferred_chunk_size_le_32768 [of len]
    by (auto simp: a buf_inv_iff alloc_fits_def write_fits_def chunk_sizes)
  obtain st' where new: "chunk_new_with_alloc_size st a = OK (st', fresh_chunk a)"
    "alloc_ok st'" "same_build st st'"
    using chunk_new_ok [of st a] assms(1) sz fits by (auto simp: buf_inv_iff same_build_def)
  have "chunk_inv st' (fresh_chunk a)"
    using sz fits alloc_fits_same_build [OF new(3)] by (auto simp: chunk_inv_def chunk_sizes)
  moreover have "list_all (chunk_inv st') (buf_chunks b)"
    using assms(1) chunk_inv_same_build [OF new(3)]
    by (auto simp: buf_inv_iff chunks_inv_def list_all_iff)
  moreover have "list_all (\<lambda>c. ch_data c \<noteq> []) (buf_chunks b)"
    using assms(1,4) by (cases "buf_chunks b" rule: rev_cases) (auto simp: buf_inv_iff chunks_inv_def)
  ultimately have "buf_inv st' (b\<lparr>buf_chunks := buf_chunks b @ [fresh_chunk a]\<rparr>)"
    using assms(1) new alloc_fits_same_build [OF new(3)]
    by (simp add: buf_inv_iff chunks_inv_snoc buf_bytes_def)
  moreover have "MIN_READ_LEN \<le> CHUNK_SIZE_WITH_ALLOC a" using sz by (simp add: chunk_sizes)
  ultimately show ?thesis
    using new a by (auto simp: buf_add_chunk_with_capacity_def Let_def)
qed

lemma tail_write_ok:
  assumes "buf_inv st b" and "buf_chunks b \<noteq> []"
    and "length bs \<le> CHUNK_REMAINING_CAPACITY (last (buf_chunks b))"
  shows "\<exists>b'. tail_write b bs = OK b' \<and> buf_bytes b' = buf_bytes b @ bs \<and> buf_inv st b'"
proof -
  obtain cs t where cs: "buf_chunks b = cs @ [t]"
    using assms(2) by (cases "buf_chunks b" rule: rev_cases) auto
  have t: "chunk_inv st t" using assms(1) by (simp add: buf_inv_iff cs chunks_inv_snoc)
  let ?t = "t\<lparr>ch_data := ch_data t @ bs\<rparr>"
  let ?b = "b\<lparr>buf_datalen := buf_datalen b + length bs, buf_chunks := cs @ [?t]\<rparr>"
  have w: "chunk_write t bs = OK ?t"
    using t assms(3) by (simp add: cs chunk_inv_def chunk_write_fits)
  have "chunk_inv st ?t"
    using t chunk_ok_write [OF w] by (simp add: chunk_inv_def)
  then have "buf_inv st ?b" "buf_bytes ?b = buf_bytes b @ bs"
    using assms(1) by (auto simp: buf_inv_iff cs chunks_inv_snoc buf_bytes_def)
  with w show ?thesis by (auto simp: tail_write_def cs)
qed

lemma ensure_tail_room_ok:
  assumes "buf_inv st b" and "write_fits st len" and "0 < len"
  shows "\<exists>st' b'. ensure_tail_room st b len = OK (st', b') \<and> buf_bytes b' = buf_bytes b \<and>
           buf_inv st' b' \<and> same_build st st'"
proof (cases "buf_chunks b = [] \<or> CHUNK_REMAINING_CAPACITY (last (buf_chunks b)) = 0")
  case True
  have "ch_data (last (buf_chunks b)) \<noteq> []" if "buf_chunks b \<noteq> []"
  proof -
    have "chunk_inv st (last (buf_chunks b))"
      using that assms(1) by (auto simp: buf_inv_iff chunks_inv_def list_all_iff)
    with True that show ?thesis by (auto simp: chunk_inv_def CHUNK_REMAINING_CAPACITY_def)
  qed
  from add_chunk_ok [OF assms this, of True] True show ?thesis
    by (auto simp: ensure_tail_room_def buf_bytes_def)
next
  case False
  with assms(1) show ?thesis by (auto simp: ensure_tail_room_def)
qed

lemma write_loop_ok:
  assumes "buf_inv st b" and "write_fits st (length str)"
  shows "\<exists>st' b'. write_loop st b str = OK (st', b') \<and> buf_bytes b' = buf_bytes b @ str \<and>
           buf_inv st' b' \<and> same_build st st'"
  using assms
proof (induction "length str" arbitrary: st b str rule: less_induct)
  case less
  show ?case
  proof (cases "str = []")
    case False
    obtain st1 b1 where r: "ensure_tail_room st b (length str) = OK (st1, b1)"
      "buf_bytes b1 = buf_bytes b" "buf_inv st1 b1" "same_build st st1"
      using ensure_tail_room_ok less.prems False by blast
    note room = ensure_tail_room_room [OF r(1)]
    define copy where "copy = (if CHUNK_REMAINING_CAPACITY (last (buf_chunks b1)) > length str
      then length str else CHUNK_REMAINING_CAPACITY (last (buf_chunks b1)))"
    have copy: "0 < copy" "copy \<le> length str" "copy \<le> CHUNK_REMAINING_CAPACITY (last (buf_chunks b1))"
      using room False by (auto simp: copy_def)
    then have len: "length (take copy str) \<le> CHUNK_REMAINING_CAPACITY (last (buf_chunks b1))"
      by simp
    obtain b2 where w: "tail_write b1 (take copy str) = OK b2"
      "buf_bytes b2 = buf_bytes b @ take copy str" "buf_inv st1 b2"
      using tail_write_ok [OF r(3) room(1) len] False r(2) by auto
    have f: "write_fits st1 (length (drop copy str))"
      using less.prems(2) write_fits_same_build [OF r(4)]
      by (auto intro: write_fits_mono)
    have "length (drop copy str) < length str" using copy(1,2) False by simp
    then obtain st' b' where "write_loop st1 b2 (drop copy str) = OK (st', b')"
      "buf_bytes b' = buf_bytes b2 @ drop copy str" "buf_inv st' b'" "same_build st1 st'"
      using less.hyps [OF _ w(3) f] by blast
    with r w False show ?thesis
      by (subst write_loop.simps) (auto simp: Let_def copy_def [symmetric] intro: same_build_trans)
  qed (use less.prems in \<open>auto simp: write_loop.simps\<close>)
qed

lemma write_to_buf_ok:
  assumes "buf_inv st b" and "write_fits st (length str)"
    and "length (buf_bytes b) + length str < int_max"
  shows "\<exists>st' b'. write_to_buf st str b = OK (st', b', length (buf_bytes b')) \<and>
           buf_bytes b' = buf_bytes b @ str \<and> buf_inv st' b' \<and> same_build st st'"
proof (cases "str = []")
  case True
  with assms(1) show ?thesis by (auto simp: write_to_buf_def buf_inv_iff)
next
  case False
  obtain st' b' where "write_loop st b str = OK (st', b')" "buf_bytes b' = buf_bytes b @ str"
    "buf_inv st' b'" "same_build st st'"
    using write_loop_ok [OF assms(1,2)] by blast
  with False assms(3) show ?thesis by (auto simp: write_to_buf_def buf_inv_iff)
qed

lemma write_fits_4096: "n \<le> 4096 \<Longrightarrow> write_fits st n"
  by (simp add: write_fits_def chunk_sizes)

lemma move_loop_ok:
  assumes "buf_inv st out" "buf_inv st inb" "len \<le> length (buf_bytes inb)"
    and "length (buf_bytes inb) < int_max" "length (buf_bytes out) + len < int_max"
  shows "\<exists>st' out' inb'. move_loop len st out inb = OK (st', out', inb') \<and>
     buf_bytes out' = buf_bytes out @ take len (buf_bytes inb) \<and>
     buf_bytes inb' = drop len (buf_bytes inb) \<and> buf_inv st' out' \<and> buf_inv st' inb' \<and>
     same_build st st'"
  using assms
proof (induction len arbitrary: st out inb rule: less_induct)
  case (less len)
  show ?case
  proof (cases "len = 0")
    case False
    define n where "n = (if len > 4096 then 4096 else len)"
    have n: "0 < n" "n \<le> len" "n \<le> 4096" using False by (auto simp: n_def)
    obtain st1 in1 where f: "fetch_from_buf st inb n = OK (take n (buf_bytes inb), st1, in1)"
      "buf_bytes in1 = drop n (buf_bytes inb)" "buf_inv st1 in1" "same_build st st1"
      using fetch_from_buf_ok [OF less.prems(2), of n] less.prems n by auto
    have o1: "buf_inv st1 out"
      using buf_inv_same_build [OF less.prems(1) f(4)] f(3) by (simp add: buf_inv_iff)
    have sz: "length (take n (buf_bytes inb)) = n" using n less.prems(3) by simp
    obtain st2 out2 where w: "write_to_buf st1 (take n (buf_bytes inb)) out =
        OK (st2, out2, length (buf_bytes out2))"
      "buf_bytes out2 = buf_bytes out @ take n (buf_bytes inb)" "buf_inv st2 out2"
      "same_build st1 st2"
      using write_to_buf_ok [OF o1, of "take n (buf_bytes inb)"] sz n less.prems(5) write_fits_4096
      by auto
    have i2: "buf_inv st2 in1"
      using buf_inv_same_build [OF f(3) w(4)] w(3) by (simp add: buf_inv_iff)
    obtain st' out' inb' where m: "move_loop (len - n) st2 out2 in1 = OK (st', out', inb')"
      "buf_bytes out' = buf_bytes out2 @ take (len - n) (buf_bytes in1)"
      "buf_bytes inb' = drop (len - n) (buf_bytes in1)"
      "buf_inv st' out'" "buf_inv st' inb'" "same_build st2 st'"
      using less.IH [OF _ w(3) i2, of "len - n"] n w(2) f(2) less.prems(3-5) sz
      by (auto simp: diff_le_mono less_imp_diff_less)
    have "take n (buf_bytes inb) @ take (len - n) (drop n (buf_bytes inb)) = take len (buf_bytes inb)"
      using n(2) by (metis le_add_diff_inverse take_add)
    with m f w n False show ?thesis
      by (subst move_loop.simps)
         (auto simp: Let_def n_def [symmetric] intro: same_build_trans [OF _ same_build_trans])
  qed (use less.prems in \<open>auto simp: move_loop.simps\<close>)
qed

end
