(* ===== verification/BufferQueue.thy ===== *)
theory BufferQueue
  imports Buffers
begin

section \<open>Buffers as byte queues\<close>

text \<open>
  The contract that the rest of the program relies on, as a locale: appending and fetching
  behave like a queue of bytes, in any order and number.  The buffers of
  \<^theory_text>\<open>Buffers\<close> are an instance.  The second half of the theory determines what
  \<^verbatim>\<open>buf_pullup\<close> does in every case.
\<close>

datatype fifo_op = Put "byte list" | Get nat

text \<open>What a queue of bytes does: the outputs of the fetches and the bytes left.\<close>

fun fifo_spec :: "(nat \<Rightarrow> bool) \<Rightarrow> byte list \<Rightarrow> fifo_op list \<Rightarrow> (byte list list \<times> byte list) option" where
  "fifo_spec fits q [] = Some ([], q)"
| "fifo_spec fits q (Put bs # ops) =
     (if fits (length bs) \<and> length q + length bs < int_max then fifo_spec fits (q @ bs) ops else None)"
| "fifo_spec fits q (Get n # ops) =
     (if n \<le> length q then map_option (\<lambda>(out, r). (take n q # out, r)) (fifo_spec fits (drop n q) ops)
      else None)"

fun fifo_run :: "('s \<Rightarrow> byte list \<Rightarrow> 'q \<Rightarrow> ('s \<times> 'q \<times> nat) res) \<Rightarrow>
    ('s \<Rightarrow> 'q \<Rightarrow> nat \<Rightarrow> (byte list \<times> 's \<times> 'q) res) \<Rightarrow> 's \<Rightarrow> 'q \<Rightarrow> fifo_op list \<Rightarrow>
    (byte list list \<times> 's \<times> 'q) res" where
  "fifo_run put get s q [] = OK ([], s, q)"
| "fifo_run put get s q (Put bs # ops) =
     rbind (put s bs q) (\<lambda>(s', q', _). fifo_run put get s' q' ops)"
| "fifo_run put get s q (Get n # ops) =
     rbind (get s q n) (\<lambda>(bs, s', q').
       rbind (fifo_run put get s' q' ops) (\<lambda>(out, s'', q''). OK (bs # out, s'', q'')))"

locale byte_fifo =
  fixes invar :: "'s \<Rightarrow> 'q \<Rightarrow> bool"
    and contents :: "'q \<Rightarrow> byte list"
    and put :: "'s \<Rightarrow> byte list \<Rightarrow> 'q \<Rightarrow> ('s \<times> 'q \<times> nat) res"
    and get :: "'s \<Rightarrow> 'q \<Rightarrow> nat \<Rightarrow> (byte list \<times> 's \<times> 'q) res"
    and fits :: "'s \<Rightarrow> nat \<Rightarrow> bool"
  assumes put_ok: "invar s q \<Longrightarrow> fits s (length bs) \<Longrightarrow> length (contents q) + length bs < int_max \<Longrightarrow>
      \<exists>s' q'. put s bs q = OK (s', q', length (contents q')) \<and> contents q' = contents q @ bs \<and>
        invar s' q' \<and> fits s' = fits s"
    and get_ok: "invar s q \<Longrightarrow> n \<le> length (contents q) \<Longrightarrow> length (contents q) < int_max \<Longrightarrow>
      \<exists>s' q'. get s q n = OK (take n (contents q), s', q') \<and> contents q' = drop n (contents q) \<and>
        invar s' q' \<and> fits s' = fits s"
begin

lemma run_refines:
  assumes "invar s q" and "length (contents q) < int_max"
    and "fifo_spec (fits s) (contents q) ops = Some (out, r)"
  shows "\<exists>s' q'. fifo_run put get s q ops = OK (out, s', q') \<and> contents q' = r \<and> invar s' q'"
  using assms
proof (induction ops arbitrary: s q out)
  case (Cons op ops)
  show ?case
  proof (cases op)
    case (Put bs)
    with Cons.prems(3) have f: "fits s (length bs)" "length (contents q) + length bs < int_max"
      and spec: "fifo_spec (fits s) (contents q @ bs) ops = Some (out, r)"
      by (auto split: if_splits)
    obtain s' q' where p: "put s bs q = OK (s', q', length (contents q'))"
      "contents q' = contents q @ bs" "invar s' q'" "fits s' = fits s"
      using put_ok [OF Cons.prems(1) f] by blast
    from Cons.IH [OF p(3)] p spec f(2) Put show ?thesis by auto
  next
    case (Get n)
    with Cons.prems(3) obtain out' where n: "n \<le> length (contents q)"
      and out: "out = take n (contents q) # out'"
      and spec: "fifo_spec (fits s) (drop n (contents q)) ops = Some (out', r)"
      by (auto split: if_splits)
    obtain s' q' where g: "get s q n = OK (take n (contents q), s', q')"
      "contents q' = drop n (contents q)" "invar s' q'" "fits s' = fits s"
      using get_ok [OF Cons.prems(1) n Cons.prems(2)] by blast
    obtain s'' q'' where "fifo_run put get s' q' ops = OK (out', s'', q'')"
      "contents q'' = r" "invar s'' q''"
      using Cons.IH [OF g(3)] g spec Cons.prems(2) by (auto simp: less_imp_diff_less)
    with Get g out show ?thesis by simp
  qed
qed simp

lemma put_get_roundtrip:
  assumes "invar s q" and "contents q = []" and "fits s (length bs)" and "length bs < int_max"
  shows "\<exists>s' q'. fifo_run put get s q [Put bs, Get (length bs)] = OK ([bs], s', q') \<and>
           contents q' = [] \<and> invar s' q'"
  using run_refines [OF assms(1), of "[Put bs, Get (length bs)]" "[bs]" "[]"] assms
  by (simp add: int_max_def)

end

interpretation bufq: byte_fifo buf_inv buf_bytes write_to_buf fetch_from_buf write_fits
proof (unfold_locales, goal_cases)
  case (1 s q bs)
  from write_to_buf_ok [OF this] show ?case
    using write_fits_same_build by blast
next
  case (2 s q n)
  from fetch_from_buf_ok [OF this] show ?case
    using write_fits_same_build by blast
qed

text \<open>
  C24: any interleaving of \<^verbatim>\<open>write_to_buf\<close> and \<^verbatim>\<open>fetch_from_buf\<close> on a
  well-formed chunked buffer refines a plain queue of bytes: whenever the queue can perform the
  operations (no fetch of more than is there, every write of a size whose chunk the allocator
  can provide, total below \<^verbatim>\<open>INT_MAX\<close>), the buffer performs them without any failing
  assertion or bad memory access, returns the same bytes, and stays well formed.
\<close>

theorem buffer_refines_queue:
  assumes "buf_inv st b" and "length (buf_bytes b) < int_max"
    and "fifo_spec (write_fits st) (buf_bytes b) ops = Some (out, r)"
  shows "\<exists>st' b'. fifo_run write_to_buf fetch_from_buf st b ops = OK (out, st', b') \<and>
           buf_bytes b' = r \<and> buf_inv st' b'"
  using assms by (rule bufq.run_refines)

theorem buffer_refines_queue_witness:
  "fifo_spec (write_fits initial_alloc) (buf_bytes buf_new)
     [Put [1, 2, 3], Get 2, Put [4], Get 2] = Some ([[1, 2], [3, 4]], []) \<and>
   (\<exists>st' b'. fifo_run write_to_buf fetch_from_buf initial_alloc buf_new
      [Put [1, 2, 3], Get 2, Put [4], Get 2] = OK ([[1, 2], [3, 4]], st', b') \<and> buf_bytes b' = [])"
proof -
  have b: "buf_bytes buf_new = []" by (simp add: buf_bytes_def buf_new_def)
  have spec: "fifo_spec (write_fits initial_alloc) (buf_bytes buf_new)
     [Put [1, 2, 3], Get 2, Put [4], Get 2] = Some ([[1, 2], [3, 4]], [])"
    by (simp add: b write_fits_def chunk_sizes int_max_def numeral_2_eq_2)
  show ?thesis
    using spec buffer_refines_queue [OF buf_inv_new [OF alloc_ok_initial] _ spec]
    by (auto simp: b int_max_def)
qed

text \<open>
  \<^verbatim>\<open>move_buf_to_buf\<close> appends to the output buffer exactly the first
  \<open>min flushlen datalen\<close> bytes of the input buffer, removes them from the input buffer, and
  returns that count and the flush length reduced by it.
\<close>

lemma move_buf_to_buf_correct:
  assumes "buf_inv st out" and "buf_inv st inb" and "cp = min flushlen (length (buf_bytes inb))"
    and "length (buf_bytes inb) < int_max" and "length (buf_bytes out) + cp < int_max"
  shows "\<exists>st' out' inb'. move_buf_to_buf st out inb flushlen =
             OK (st', out', inb', flushlen - cp, cp) \<and>
           buf_bytes out' = buf_bytes out @ take cp (buf_bytes inb) \<and>
           buf_bytes inb' = drop cp (buf_bytes inb) \<and> buf_inv st' out' \<and> buf_inv st' inb'"
proof -
  have cp: "cp = (if flushlen > buf_datalen inb then buf_datalen inb else flushlen)"
    using assms(2,3) by (auto simp: buf_inv_iff)
  have le: "cp \<le> length (buf_bytes inb)" using assms(3) by simp
  from move_loop_ok [OF assms(1,2) le assms(4,5)] assms(5) show ?thesis
    by (auto simp: move_buf_to_buf_def Let_def cp [symmetric])
qed

subsection \<open>What buf-pullup does\<close>

lemma chunk_free_alloc_ok:
  assumes "chunk_free st c = OK st'" and "alloc_ok st"
  shows "alloc_ok st' \<and> same_build st st'"
proof (cases "alloc_fits st (CHUNK_ALLOC_SIZE (ch_memlen c))")
  case True
  from chunk_free_ok [OF assms(2) this] assms(1) show ?thesis by (auto simp: same_build_def)
next
  case False
  with assms show ?thesis
    by (auto simp: chunk_free_def alloc_fits_def alloc_ok_def get_freelist_cases)
qed

lemma pullup_loop_OK_D:
  "pullup_loop st bytes dest cs = OK (st', cs') \<Longrightarrow>
     chunks_bytes cs' = ch_data dest @ chunks_bytes cs \<and> cs' \<noteq> [] \<and> bytes \<le> ch_datalen (hd cs')"
proof (induction st bytes dest cs rule: pullup_loop.induct)
  case (2 st bytes dest src rest)
  show ?case
  proof (cases "ch_datalen dest < bytes \<and> bytes - ch_datalen dest > ch_datalen src")
    case True
    with 2 show ?thesis by (fastforce simp: Let_def res_simps chunk_write_OK)
  next
    case False
    with 2(2) show ?thesis by (auto simp: Let_def res_simps chunk_write_OK split: if_splits)
  qed
qed (auto split: if_splits)

lemma pullup_loop_fits:
  assumes "alloc_ok st" and "list_all (chunk_inv st) cs"
    and "bytes \<le> length (ch_data dest @ chunks_bytes cs)"
    and "ch_off dest + bytes \<le> ch_memlen dest" and "chunk_ok dest"
  shows "\<exists>st' cs'. pullup_loop st bytes dest cs = OK (st', cs') \<and> alloc_ok st'"
  using assms
proof (induction st bytes dest cs rule: pullup_loop.induct)
  case (2 st bytes dest src rest)
  show ?case
  proof (cases "ch_datalen dest < bytes \<and> bytes - ch_datalen dest > ch_datalen src")
    case True
    let ?d = "dest\<lparr>ch_data := ch_data dest @ ch_data src\<rparr>"
    have w: "chunk_write dest (ch_data src) = OK ?d"
      using True 2(5) by (auto simp: chunk_write_def)
    obtain st1 where f: "chunk_free st src = OK st1" "alloc_ok st1" "same_build st st1"
      using chunk_free_ok [of st src] 2(2,3) by (auto simp: chunk_inv_def same_build_def)
    have "list_all (chunk_inv st1) rest"
      using 2(3) chunk_inv_same_build [OF f(3)] by (simp add: list_all_iff)
    moreover have "chunk_ok ?d" using chunk_ok_write [OF w] .
    ultimately have "\<exists>st' cs'. pullup_loop st1 bytes ?d rest = OK (st', cs') \<and> alloc_ok st'"
      using 2(1) [of "bytes - ch_datalen dest" ?d st1] True w f 2(4,5) by auto
    with True w f show ?thesis by simp
  next
    case False
    with 2(2,5) show ?thesis by (auto simp: Let_def chunk_write_def)
  qed
qed auto

lemma pullup_loop_overflows:
  assumes "alloc_ok st" and "bytes \<le> length (ch_data dest @ chunks_bytes cs)"
    and "ch_datalen dest < bytes" and "ch_memlen dest < ch_off dest + bytes"
  shows "pullup_loop st bytes dest cs = Fault Mem_Fault"
  using assms
proof (induction st bytes dest cs rule: pullup_loop.induct)
  case (2 st bytes dest src rest)
  show ?case
  proof (cases "bytes - ch_datalen dest > ch_datalen src")
    case True
    let ?d = "dest\<lparr>ch_data := ch_data dest @ ch_data src\<rparr>"
    show ?thesis
    proof (cases "chunk_write dest (ch_data src)")
      case (OK d)
      then have d: "d = ?d" by (simp add: chunk_write_OK)
      show ?thesis
      proof (cases "chunk_free st src")
        case f: (OK st1)
        have "pullup_loop st1 bytes ?d rest = Fault Mem_Fault"
          using 2(1) [of "bytes - ch_datalen dest" ?d st1] True OK f d 2(3-5)
            chunk_free_alloc_ok [OF f 2(2)] by auto
        with True OK f d 2(4) show ?thesis by simp
      next
        case (Fault e)
        with True OK 2(4) chunk_free_fault [OF Fault 2(2)] show ?thesis by simp
      qed
    qed (use True 2(4) in \<open>auto simp: chunk_write_def split: if_splits\<close>)
  next
    case False
    with 2(4,5) show ?thesis by (simp add: Let_def chunk_write_def)
  qed
qed simp

lemma pullup_head_grow:
  assumes "ch_memlen head < capacity"
  shows "pullup_head b head capacity = OK ((chunk_repack head)\<lparr>ch_memlen :=
           CHUNK_SIZE_WITH_ALLOC (preferred_chunk_size capacity)\<rparr>)"
  using assms preferred_chunk_size_fits [of capacity]
  by (simp add: pullup_head_def Let_def chunk_grow_def)

lemma pullup_head_aborts:
  assumes "capacity \<le> ch_memlen head" and "capacity < buf_datalen b"
    and "buf_datalen b < 2 ^ 62" and "ch_memlen head < 2 ^ 62"
  shows "pullup_head b head capacity = Fault Assert_Fail"
proof -
  have "CHUNK_REMAINING_CAPACITY h < size_sub capacity (buf_datalen b)"
    if "ch_memlen h = ch_memlen head" for h
    using assms that by (auto simp: size_sub_def CHUNK_REMAINING_CAPACITY_def)
  from this [of head] this [of "chunk_repack head"] assms(1) show ?thesis
    by (simp add: pullup_head_def Let_def tor_assert_def)
qed

lemma pullup_head_no_room_check:
  "buf_datalen b \<le> ch_memlen head \<Longrightarrow> pullup_head b head (buf_datalen b) = OK head"
  by (simp add: pullup_head_def size_sub_def Let_def)

text \<open>The outcome when the first chunk has to be grown: success.\<close>

lemma buf_pullup_grows:
  assumes inv: "buf_inv st b" and cs: "buf_chunks b = head # rest"
    and m: "m = min bytes (length (buf_bytes b))"
    and short: "ch_datalen head < m" and small: "ch_memlen head < m"
  shows "\<exists>st' b'. buf_pullup st b bytes False = OK (st', b') \<and> buf_bytes b' = buf_bytes b \<and>
           buf_datalen b' = buf_datalen b \<and> m \<le> ch_datalen (hd (buf_chunks b')) \<and> alloc_ok st'"
proof -
  define d where "d = (chunk_repack head)\<lparr>ch_memlen := CHUNK_SIZE_WITH_ALLOC (preferred_chunk_size m)\<rparr>"
  have dl: "buf_datalen b = length (buf_bytes b)" "alloc_ok st" "list_all (chunk_inv st) rest"
    using inv cs by (auto simp: buf_inv_iff chunks_inv_Cons chunks_inv_def)
  have bytes: "(if buf_datalen b < bytes then buf_datalen b else bytes) = m"
    using m dl by auto
  have dd: "ch_data d = ch_data head" "ch_off d = 0" "m \<le> ch_memlen d"
    using preferred_chunk_size_fits [of m] by (simp_all add: d_def)
  have "m \<le> length (ch_data d @ chunks_bytes rest)"
    using m cs by (simp add: dd buf_bytes_def)
  then obtain st' cs' where r: "pullup_loop st m d rest = OK (st', cs')" "alloc_ok st'"
    using pullup_loop_fits [OF dl(2,3), of m d] dd short by (auto simp: chunk_ok_def)
  note post = pullup_loop_OK_D [OF r(1)]
  have "buf_pullup st b bytes False = OK (st', b\<lparr>buf_chunks := cs'\<rparr>)"
    using short r(1) pullup_head_grow [OF small, of b, folded d_def]
    by (simp add: buf_pullup_def cs bytes)
  with post r(2) show ?thesis by (auto simp: buf_bytes_def cs dd)
qed

lemma buf_pullup_all:
  assumes inv: "buf_inv st b" and cs: "buf_chunks b = head # rest"
    and bytes: "length (buf_bytes b) \<le> bytes"
    and short: "ch_datalen head < length (buf_bytes b)"
    and big: "length (buf_bytes b) \<le> ch_memlen head"
  shows "buf_pullup st b bytes False =
    rbind (pullup_loop st (length (buf_bytes b)) head rest) (\<lambda>(st', cs). OK (st', b\<lparr>buf_chunks := cs\<rparr>))"
proof -
  have dl: "buf_datalen b = length (buf_bytes b)" using inv by (simp add: buf_inv_iff)
  have "(if buf_datalen b < bytes then buf_datalen b else bytes) = length (buf_bytes b)"
    using bytes dl by auto
  then show ?thesis
    using short pullup_head_no_room_check [of b head] big by (simp add: buf_pullup_def cs dl)
qed

text \<open>Whatever path it takes, when \<^verbatim>\<open>buf_pullup\<close> returns the buffer is usable.\<close>

lemma pullup_loop_wf:
  assumes "pullup_loop st bytes dest cs = OK (st', cs')" and "alloc_ok st"
    and "chunk_wf st dest" and "list_all (chunk_wf st) cs"
  shows "alloc_ok st' \<and> same_build st st' \<and> list_all (chunk_wf st') cs'"
  using assms
proof (induction st bytes dest cs rule: pullup_loop.induct)
  case (2 st bytes dest src rest)
  show ?case
  proof (cases "ch_datalen dest < bytes \<and> bytes - ch_datalen dest > ch_datalen src")
    case True
    with 2(2) obtain d st1 where d: "chunk_write dest (ch_data src) = OK d" "chunk_free st src = OK st1"
      "pullup_loop st1 bytes d rest = OK (st', cs')"
      by (auto simp: Let_def res_simps)
    have b: "alloc_ok st1" "same_build st st1" using chunk_free_alloc_ok [OF d(2) 2(3)] by simp_all
    have "chunk_wf st1 d" "list_all (chunk_wf st1) rest"
      using 2(4,5) d(1) chunk_ok_write [OF d(1)] alloc_fits_same_build [OF b(2)]
      by (auto simp: chunk_wf_def list_all_iff chunk_write_OK)
    with 2(1) [of "bytes - ch_datalen dest" d st1] True d b show ?thesis
      by (auto intro: same_build_trans)
  next
    case False
    with 2(2-5) show ?thesis
      by (auto simp: Let_def res_simps chunk_write_OK chunk_wf_def chunk_ok_def chunk_advance_def
          split: if_splits)
  qed
qed (auto split: if_splits)

lemma pullup_head_wf:
  assumes "pullup_head b head capacity = OK d" and "chunk_wf st head" and "write_fits st capacity"
  shows "chunk_wf st d \<and> ch_data d = ch_data head"
proof (cases "ch_memlen head \<ge> capacity")
  case True
  with assms show ?thesis
    by (auto simp: pullup_head_def Let_def res_simps chunk_wf_def split: if_splits)
next
  case False
  then have d: "d = (chunk_repack head)\<lparr>ch_memlen := CHUNK_SIZE_WITH_ALLOC (preferred_chunk_size capacity)\<rparr>"
    using pullup_head_grow [of head capacity b] assms(1) by simp
  have "chunk_ok d"
    using assms(2) False preferred_chunk_size_fits [of capacity] by (simp add: d chunk_wf_def chunk_ok_def)
  moreover have "alloc_fits st (CHUNK_ALLOC_SIZE (ch_memlen d))"
    using assms(3) preferred_chunk_size_le_32768 [of capacity] preferred_chunk_size_ge [of capacity]
    by (auto simp: d alloc_fits_def write_fits_def chunk_sizes)
  ultimately show ?thesis by (simp add: chunk_wf_def d)
qed

lemma buf_pullup_OK_D:
  assumes ok: "buf_pullup st b bytes nt = OK (st', b')" and wf: "buf_wf st b"
    and fits: "write_fits st (if nt then bytes + 1 else bytes)"
  shows "buf_wf st' b' \<and> same_build st st' \<and> buf_bytes b' = buf_bytes b \<and>
    (buf_chunks b \<noteq> [] \<longrightarrow> buf_chunks b' \<noteq> [] \<and>
       min bytes (length (buf_bytes b)) \<le> ch_datalen (hd (buf_chunks b')))"
proof (cases "buf_chunks b")
  case Nil
  with ok wf show ?thesis by (simp add: buf_pullup_def)
next
  case (Cons head rest)
  define m where "m = (if buf_datalen b < bytes then buf_datalen b else bytes)"
  define capacity where "capacity = (if nt then m + 1 else m)"
  have m: "m = min bytes (length (buf_bytes b))" using wf by (simp add: m_def buf_wf_def)
  show ?thesis
  proof (cases "ch_datalen head \<ge> m \<and> (nt \<longrightarrow> CHUNK_REMAINING_CAPACITY head \<noteq> 0)")
    case True
    with ok have "b' = b" "st' = st" by (simp_all add: buf_pullup_def Cons m_def [symmetric])
    with True wf Cons m show ?thesis by simp
  next
    case False
    with ok obtain d cs where d: "pullup_head b head capacity = OK d"
      "pullup_loop st m d rest = OK (st', cs)" "b' = b\<lparr>buf_chunks := cs\<rparr>"
      by (auto simp: buf_pullup_def Cons m_def [symmetric] capacity_def Let_def res_simps)
    have w: "chunk_wf st head" "list_all (chunk_wf st) rest" "alloc_ok st"
      using wf Cons by (auto simp: buf_wf_def)
    have "write_fits st capacity"
      using write_fits_mono [OF fits, of capacity] m by (simp add: capacity_def)
    from pullup_head_wf [OF d(1) w(1) this] have hd: "chunk_wf st d" "ch_data d = ch_data head"
      by simp_all
    from pullup_loop_wf [OF d(2) w(3) hd(1) w(2)] pullup_loop_OK_D [OF d(2)] show ?thesis
      using wf Cons m hd(2) by (auto simp: d(3) buf_wf_def buf_bytes_def)
  qed
qed

text \<open>
  \<^verbatim>\<open>buf_pullup\<close> on a well-formed buffer never changes the byte sequence, and when it
  returns the first chunk holds the first \<open>min bytes datalen\<close> bytes; it does return whenever
  the first chunk already holds them or has to be grown to hold them.
\<close>

lemma buf_pullup_preserves:
  assumes "buf_inv st b" and "buf_chunks b = head # rest"
    and "m = min bytes (length (buf_bytes b))"
    and "m \<le> ch_datalen head \<or> ch_memlen head < m"
  shows "\<exists>st' b'. buf_pullup st b bytes False = OK (st', b') \<and> buf_bytes b' = buf_bytes b \<and>
           buf_datalen b' = buf_datalen b \<and> m \<le> ch_datalen (hd (buf_chunks b')) \<and> alloc_ok st'"
proof (cases "m \<le> ch_datalen head")
  case True
  with assms(1-3) show ?thesis by (auto simp: buf_pullup_def buf_inv_iff Let_def min_def)
next
  case False
  with assms(4) have "ch_datalen head < m" "ch_memlen head < m" by auto
  then show ?thesis by (rule buf_pullup_grows [OF assms(1-3)])
qed

definition two_chunk_buf :: "nat \<Rightarrow> byte list \<Rightarrow> nat \<Rightarrow> byte list \<Rightarrow> buf" where
  "two_chunk_buf off1 bs1 memlen bs2 = buf_new\<lparr>buf_datalen := length bs1 + length bs2,
     buf_chunks := [\<lparr>ch_memlen = memlen, ch_off = off1, ch_data = bs1\<rparr>,
                    \<lparr>ch_memlen = 4064, ch_off = 0, ch_data = bs2\<rparr>]\<rparr>"

lemma two_chunk_buf_inv:
  "alloc_ok st \<Longrightarrow> bs1 = x # xs \<Longrightarrow> length bs2 \<le> 4064 \<Longrightarrow> off1 + length bs1 \<le> memlen \<Longrightarrow>
   memlen \<le> 4064 \<Longrightarrow> buf_inv st (two_chunk_buf off1 bs1 memlen bs2)"
  by (auto simp: two_chunk_buf_def buf_inv_iff buf_new_def buf_bytes_def chunks_inv_def chunk_inv_def
        chunk_ok_def alloc_fits_def chunk_sizes)

text \<open>
  A heap overflow in \<^verbatim>\<open>buf_pullup\<close>.  The room check compares the first chunk's free
  space with \<^verbatim>\<open>capacity-buf->datalen\<close>, which is 0 when the whole buffer is pulled up, so the
  chunk is not repacked.  If its block is large enough for all the data but part of it has been
  consumed (\<open>ch_off\<close>), the copy runs past the end of the block.
\<close>

lemma buf_pullup_overflow:
  assumes "buf_inv st b" and "buf_chunks b = head # rest" and "length (buf_bytes b) \<le> bytes"
    and "ch_datalen head < length (buf_bytes b)" and "length (buf_bytes b) \<le> ch_memlen head"
    and "ch_memlen head < ch_off head + length (buf_bytes b)"
  shows "buf_pullup st b bytes False = Fault Mem_Fault"
proof -
  have "pullup_loop st (length (buf_bytes b)) head rest = Fault Mem_Fault"
    using assms(1,2,4,6) by (intro pullup_loop_overflows) (auto simp: buf_inv_iff buf_bytes_def)
  then show ?thesis using buf_pullup_all [OF assms(1-5)] by simp
qed

text \<open>
  An assertion failure in \<^verbatim>\<open>buf_pullup\<close>.  When fewer bytes are pulled up than the
  buffer holds and the first chunk's block could hold them, \<^verbatim>\<open>capacity-buf->datalen\<close>
  wraps around to a huge \<^verbatim>\<open>size_t\<close> and the process aborts, although there is room.
\<close>

lemma buf_pullup_abort:
  assumes "buf_inv st b" and "buf_chunks b = head # rest" and "ch_datalen head < bytes"
    and "bytes \<le> ch_memlen head" and "bytes < length (buf_bytes b)"
    and "length (buf_bytes b) < 2 ^ 62" and "ch_memlen head < 2 ^ 62"
  shows "buf_pullup st b bytes False = Fault Assert_Fail"
proof -
  have dl: "buf_datalen b = length (buf_bytes b)" using assms(1) by (simp add: buf_inv_iff)
  have "pullup_head b head bytes = Fault Assert_Fail"
    using assms(4-7) by (intro pullup_head_aborts) (simp_all add: dl)
  moreover have "(if buf_datalen b < bytes then buf_datalen b else bytes) = bytes"
    using assms(5) dl by auto
  ultimately show ?thesis using assms(3) by (simp add: buf_pullup_def assms(2))
qed

text \<open>
  An out-of-bounds read in \<^verbatim>\<open>get_freelist\<close>.  Appending more than 32736 bytes to a
  buffer with no room at its tail asks for a chunk larger than every freelist; the search does
  not stop at the terminating entry and reads past the end of the \<^verbatim>\<open>freelists\<close> array.
\<close>

lemma large_write_reads_past_freelists:
  assumes "buf_inv st b" and "st \<noteq> None" and "buf_chunks b = []"
    and "32736 < length str" and "buf_default_chunk_size b \<le> 32768"
  shows "write_to_buf st str b = Fault Mem_Fault"
proof -
  obtain s where s: "st = Some s" using assms(2) by blast
  have m: "map fl_alloc_size (freelists s) = [4096, 8192, 16384, 32768, 0]"
    using assms(1) s by (simp add: buf_inv_iff alloc_ok_def)
  have big: "32768 < preferred_chunk_size (length str)"
    using preferred_chunk_size_fits [of "length str"] assms(4) by (simp add: chunk_sizes)
  have new: "chunk_new_with_alloc_size st a = Fault Mem_Fault" if "32768 < a" for a
    using that by (simp add: chunk_new_with_alloc_size_def s get_freelist_cases [OF m] chunk_sizes)
  have "buf_add_chunk_with_capacity st b (length str) True = Fault Mem_Fault"
    using assms(4,5) big new
    by (auto simp: buf_add_chunk_with_capacity_def Let_def CHUNK_ALLOC_SIZE_def CHUNK_HEADER_LEN_def
        MAX_CHUNK_ALLOC_def)
  moreover have "str \<noteq> []" using assms(4) by auto
  ultimately show ?thesis
    by (simp add: write_to_buf_def write_loop.simps [of st b str] ensure_tail_room_def assms(3))
qed

text \<open>
  \<^verbatim>\<open>buf_shrink_freelists\<close> on a well-formed allocator with non-negative slacks never
  fails one of its assertions: every freelist keeps a prefix of its chunks, its length fields
  agree with it, and with \<^verbatim>\<open>free_all\<close> every list ends up empty.
\<close>

lemma shrink_freelists_safe:
  assumes "alloc_ok (Some s)" and "list_all (\<lambda>f. 0 \<le> fl_slack f) (freelists s)"
  shows "\<exists>s'. buf_shrink_freelists free_all (Some s) = OK (Some s') \<and> alloc_ok (Some s') \<and>
           list_all2 (shrunk free_all) (butlast (freelists s)) (butlast (freelists s'))"
proof -
  obtain fs e where fs: "freelists s = fs @ [e]"
    using assms(1) by (cases "freelists s" rule: rev_cases) (auto simp: alloc_ok_def)
  have m: "map fl_alloc_size fs @ [fl_alloc_size e] = [4096, 8192, 16384, 32768] @ [0]"
    using assms(1) by (simp add: alloc_ok_def fs)
  then have e: "fl_alloc_size e = 0" and ms: "map fl_alloc_size fs = [4096, 8192, 16384, 32768]"
    by (simp_all only: append1_eq_conv)
  have "list_all (\<lambda>f. assert_freelist_ok f \<and> 0 \<le> fl_slack f) fs"
    using assms by (auto simp: alloc_ok_def fs list_all_iff)
  from shrink_loop_ok [OF this e, of free_all] obtain fs' where
    "shrink_freelists_loop free_all (fs @ [e]) = OK (fs' @ [e])" "list_all assert_freelist_ok fs'"
    "map fl_alloc_size fs' = map fl_alloc_size fs" "list_all2 (shrunk free_all) fs fs'"
    by blast
  with e ms show ?thesis
    by (intro exI [of _ "s\<lparr>freelists := fs' @ [e]\<rparr>"])
       (simp add: buf_shrink_freelists_def fs alloc_ok_def)
qed

end
