(* ===== verification/BufferParse.thy ===== *)
theory BufferParse
  imports CLib BufferQueue
begin

section \<open>Searching and parsing buffered data (src/innomitor/src/or/buffers.c)\<close>

text \<open>
  Positions in a buffer and the string search over the chunk list, the extraction of HTTP
  messages, lines, and variable-length cells.  The search is verified against \<open>find_sub\<close> on
  the bytes of the buffer, the extractors against functions of the byte sequence alone.
\<close>

subsection \<open>Positions\<close>

text \<open>A position: the chunk pointed to and its successors, the offset in that chunk, and the
  total length of the chunks before it.\<close>

record buf_pos =
  bp_chunk :: "chunk list"
  bp_pos :: nat
  bp_chunk_pos :: nat

definition buf_pos_init :: "buf \<Rightarrow> buf_pos" where
  "buf_pos_init b = \<lparr>bp_chunk = buf_chunks b, bp_pos = 0, bp_chunk_pos = 0\<rparr>"

fun find_char_loop :: "byte \<Rightarrow> buf_pos \<Rightarrow> chunk list \<Rightarrow> nat \<Rightarrow> (buf_pos \<times> nat option) res" where
  "find_char_loop ch out [] pos = OK (out, None)"
| "find_char_loop ch out (c # cs) pos = (case memchr_idx ch (drop pos (ch_data c)) of
     Some k \<Rightarrow> tor_assert (pos + k < int_max)
       (OK (out\<lparr>bp_chunk := c # cs, bp_pos := pos + k\<rparr>, Some (bp_chunk_pos out + (pos + k))))
   | None \<Rightarrow> find_char_loop ch (out\<lparr>bp_chunk_pos := bp_chunk_pos out + ch_datalen c\<rparr>) cs 0)"

definition buf_find_pos_of_char :: "byte \<Rightarrow> buf_pos \<Rightarrow> (buf_pos \<times> nat option) res" where
  "buf_find_pos_of_char ch out =
     tor_assert (case bp_chunk out of
                   [] \<Rightarrow> True
                 | c # _ \<Rightarrow> if ch_datalen c \<noteq> 0 then bp_pos out < ch_datalen c else bp_pos out = 0)
       (find_char_loop ch out (bp_chunk out) (bp_pos out))"

definition buf_pos_inc :: "buf_pos \<Rightarrow> (buf_pos \<times> bool) res" where
  "buf_pos_inc p = (case bp_chunk p of
     [] \<Rightarrow> Fault Mem_Fault
   | c # cs \<Rightarrow>
       if bp_pos p = int_max then Fault Int_Overflow
       else let p' = p\<lparr>bp_pos := bp_pos p + 1\<rparr> in
            if bp_pos p' = ch_datalen c then
              (if cs = [] then OK (p', False)
               else OK (p'\<lparr>bp_chunk_pos := bp_chunk_pos p + ch_datalen c, bp_chunk := cs, bp_pos := 0\<rparr>,
                        True))
            else OK (p', True))"

text \<open>The byte at a position.  Beyond the data of the chunk the memory is uninitialised or left
  over from an earlier use: reading it is a fault of the model.\<close>

definition byte_at_pos :: "buf_pos \<Rightarrow> byte res" where
  "byte_at_pos p = (case bp_chunk p of
     [] \<Rightarrow> Fault Mem_Fault
   | c # _ \<Rightarrow> if bp_pos p < ch_datalen c then OK (ch_data c ! bp_pos p) else Fault Mem_Fault)"

fun matches_loop :: "buf_pos \<Rightarrow> byte list \<Rightarrow> bool res" where
  "matches_loop p [] = OK True"
| "matches_loop p (a # s) = rbind (byte_at_pos p) (\<lambda>ch.
     if ch \<noteq> a then OK False
     else if s = [] then OK True
     else rbind (buf_pos_inc p) (\<lambda>(p', ok). if \<not> ok then OK False else matches_loop p' s))"

definition buf_matches_at_pos :: "buf_pos \<Rightarrow> byte list \<Rightarrow> bool res" where
  "buf_matches_at_pos p s = (if s = [] then OK True else matches_loop p s)"

text \<open>The bytes from a position to the end of the buffer.\<close>

definition pos_rest :: "buf_pos \<Rightarrow> byte list" where
  "pos_rest p = drop (bp_pos p) (chunks_bytes (bp_chunk p))"

lemma find_char_loop_Some:
  assumes "find_char_loop ch out cs pos = OK (p, Some k)" and "cs \<noteq> [] \<Longrightarrow> pos \<le> ch_datalen (hd cs)"
  shows "length (pos_rest p) \<le> length (drop pos (chunks_bytes cs)) \<and>
    (\<exists>c cs'. bp_chunk p = c # cs' \<and> bp_pos p < ch_datalen c)"
  using assms
proof (induction ch out cs pos rule: find_char_loop.induct)
  case (2 ch out c cs pos)
  show ?case
  proof (cases "memchr_idx ch (drop pos (ch_data c))")
    case None
    with 2 show ?thesis by fastforce
  next
    case (Some j)
    with memchr_idx_Some [OF Some] 2(2) show ?thesis
      by (auto simp: pos_rest_def res_simps)
  qed
qed simp

lemma buf_pos_inc_rest:
  assumes "buf_pos_inc p = OK (p', True)" and "bp_chunk p = c # cs" and "bp_pos p < ch_datalen c"
  shows "length (pos_rest p') < length (pos_rest p)"
  using assms by (auto simp: buf_pos_inc_def pos_rest_def Let_def split: if_splits)

function find_string_loop :: "buf_pos \<Rightarrow> byte list \<Rightarrow> nat option res" where
  "find_string_loop pos s =
     rbind (buf_find_pos_of_char (hd s) pos) (\<lambda>(pos1, found). case found of
       None \<Rightarrow> OK None
     | Some _ \<Rightarrow> rbind (buf_matches_at_pos pos1 s) (\<lambda>m.
         if m then tor_assert (bp_chunk_pos pos1 + bp_pos pos1 < int_max)
                     (OK (Some (bp_chunk_pos pos1 + bp_pos pos1)))
         else rbind (buf_pos_inc pos1) (\<lambda>(pos2, ok).
                if \<not> ok then OK None else find_string_loop pos2 s)))"
  by pat_completeness auto
termination
proof (relation "measure (\<lambda>(p, s). length (pos_rest p))", simp, clarsimp)
  fix pos s p1 k p2
  assume f: "buf_find_pos_of_char (hd s) pos = OK (p1, Some k)" and i: "buf_pos_inc p1 = OK (p2, True)"
  from f have l: "find_char_loop (hd s) pos (bp_chunk pos) (bp_pos pos) = OK (p1, Some k)"
    and "bp_chunk pos \<noteq> [] \<Longrightarrow> bp_pos pos \<le> ch_datalen (hd (bp_chunk pos))"
    by (auto simp: buf_find_pos_of_char_def res_simps split: list.splits if_splits)
  from find_char_loop_Some [OF this] obtain c cs where
    "length (pos_rest p1) \<le> length (pos_rest pos)" "bp_chunk p1 = c # cs" "bp_pos p1 < ch_datalen c"
    by (auto simp: pos_rest_def)
  with buf_pos_inc_rest [OF i] show "length (pos_rest p2) < length (pos_rest pos)" by fastforce
qed

declare find_string_loop.simps [simp del]

text \<open>\<^verbatim>\<open>*s\<close> is read before the loop, so the string must not be empty.\<close>

definition buf_find_string_offset :: "buf \<Rightarrow> byte list \<Rightarrow> nat option res" where
  "buf_find_string_offset b s = (if s = [] then Fault Mem_Fault else find_string_loop (buf_pos_init b) s)"

subsection \<open>The search is the search on the byte sequence\<close>

definition pos_ok :: "buf_pos \<Rightarrow> bool" where
  "pos_ok p \<longleftrightarrow> list_all (\<lambda>c. ch_data c \<noteq> []) (bp_chunk p) \<and>
     (case bp_chunk p of [] \<Rightarrow> bp_pos p = 0 | c # _ \<Rightarrow> bp_pos p < ch_datalen c) \<and>
     bp_chunk_pos p + length (chunks_bytes (bp_chunk p)) < int_max"

abbreviation pos_abs :: "buf_pos \<Rightarrow> nat" where
  "pos_abs p \<equiv> bp_chunk_pos p + bp_pos p"

lemma find_char_loop_spec:
  assumes "list_all (\<lambda>c. ch_data c \<noteq> []) cs" and "cs = [] \<Longrightarrow> pos = 0"
    and "cs \<noteq> [] \<Longrightarrow> pos \<le> ch_datalen (hd cs)"
    and "bp_chunk_pos out + length (chunks_bytes cs) < int_max"
  shows "case memchr_idx ch (drop pos (chunks_bytes cs)) of
     None \<Rightarrow> \<exists>p. find_char_loop ch out cs pos = OK (p, None)
   | Some k \<Rightarrow> \<exists>p. find_char_loop ch out cs pos = OK (p, Some (bp_chunk_pos out + pos + k)) \<and>
       pos_ok p \<and> pos_rest p = drop (pos + k) (chunks_bytes cs) \<and>
       pos_abs p = bp_chunk_pos out + pos + k"
  using assms
proof (induction ch out cs pos rule: find_char_loop.induct)
  case (2 ch out c cs pos)
  show ?case
  proof (cases "memchr_idx ch (drop pos (ch_data c))")
    case (Some k)
    with memchr_idx_Some [OF Some] 2(2-5) show ?thesis
      by (auto simp: memchr_idx_append pos_ok_def pos_rest_def tor_assert_def)
  next
    case None
    let ?o = "out\<lparr>bp_chunk_pos := bp_chunk_pos out + ch_datalen c\<rparr>"
    have "case memchr_idx ch (drop 0 (chunks_bytes cs)) of
       None \<Rightarrow> \<exists>p. find_char_loop ch ?o cs 0 = OK (p, None)
     | Some k \<Rightarrow> \<exists>p. find_char_loop ch ?o cs 0 = OK (p, Some (bp_chunk_pos ?o + 0 + k)) \<and>
         pos_ok p \<and> pos_rest p = drop (0 + k) (chunks_bytes cs) \<and>
         pos_abs p = bp_chunk_pos ?o + 0 + k"
      using 2 None by (intro 2(1)) auto
    with None 2(4) show ?thesis
      by (cases "memchr_idx ch (chunks_bytes cs)") (auto simp: memchr_idx_append)
  qed
qed simp

lemma buf_pos_inc_spec:
  assumes "pos_ok p" and "pos_rest p = x # r"
  shows "\<exists>p'. buf_pos_inc p = OK (p', r \<noteq> []) \<and>
           (r \<noteq> [] \<longrightarrow> pos_ok p' \<and> pos_rest p' = r \<and> pos_abs p' = pos_abs p + 1)"
proof -
  obtain c cs where c: "bp_chunk p = c # cs" "bp_pos p < ch_datalen c"
    using assms by (cases "bp_chunk p") (auto simp: pos_ok_def pos_rest_def)
  have r: "r = drop (Suc (bp_pos p)) (ch_data c) @ chunks_bytes cs"
    using assms(2) c by (simp add: pos_rest_def Cons_nth_drop_Suc [symmetric])
  have ov: "bp_pos p < int_max" using assms(1) c by (simp add: pos_ok_def)
  show ?thesis
  proof (cases "Suc (bp_pos p) = ch_datalen c")
    case True
    then have r': "r = chunks_bytes cs" by (simp add: r)
    show ?thesis
    proof (cases cs)
      case (Cons d ds)
      then have "r \<noteq> []" using assms(1) c by (auto simp: r' pos_ok_def)
      with True Cons c r' ov assms(1) show ?thesis
        by (auto simp: buf_pos_inc_def Let_def pos_ok_def pos_rest_def)
    qed (use True c r' ov in \<open>auto simp: buf_pos_inc_def Let_def\<close>)
  next
    case False
    with c r ov assms(1) show ?thesis
      by (auto simp: buf_pos_inc_def Let_def pos_ok_def pos_rest_def)
  qed
qed

lemma byte_at_pos_spec: "pos_ok p \<Longrightarrow> pos_rest p = x # r \<Longrightarrow> byte_at_pos p = OK x"
  by (cases "bp_chunk p")
     (auto simp: pos_ok_def pos_rest_def byte_at_pos_def Cons_nth_drop_Suc [symmetric])

lemma matches_loop_spec:
  assumes "pos_ok p" and "pos_rest p \<noteq> []" and "s \<noteq> []"
  shows "matches_loop p s = OK (take (length s) (pos_rest p) = s)"
  using assms
proof (induction s arbitrary: p)
  case (Cons a s)
  then obtain x r where x: "pos_rest p = x # r" by (cases "pos_rest p") auto
  note b = byte_at_pos_spec [OF Cons.prems(1) x]
  obtain p' where p': "buf_pos_inc p = OK (p', r \<noteq> [])"
    "r \<noteq> [] \<longrightarrow> pos_ok p' \<and> pos_rest p' = r"
    using buf_pos_inc_spec [OF Cons.prems(1) x] by blast
  show ?case
  proof (cases "x = a \<and> s \<noteq> [] \<and> r \<noteq> []")
    case True
    with Cons.IH [of p'] p' x b show ?thesis by simp
  next
    case False
    with p' x b show ?thesis by auto
  qed
qed simp

lemma find_string_loop_spec:
  assumes "pos_ok p" and "s \<noteq> []"
  shows "find_string_loop p s = OK (map_option (\<lambda>i. pos_abs p + i) (find_sub s (pos_rest p)))"
  using assms(1)
proof (induction "length (pos_rest p)" arbitrary: p rule: less_induct)
  case less
  have pre: "case bp_chunk p of [] \<Rightarrow> True
      | c # _ \<Rightarrow> if ch_datalen c \<noteq> 0 then bp_pos p < ch_datalen c else bp_pos p = 0"
    using less.prems by (auto simp: pos_ok_def split: list.splits)
  have spec: "case memchr_idx (hd s) (pos_rest p) of
     None \<Rightarrow> \<exists>q. buf_find_pos_of_char (hd s) p = OK (q, None)
   | Some k \<Rightarrow> \<exists>q. buf_find_pos_of_char (hd s) p = OK (q, Some (pos_abs p + k)) \<and>
       pos_ok q \<and> pos_rest q = drop k (pos_rest p) \<and> pos_abs q = pos_abs p + k"
  proof -
    have eq: "buf_find_pos_of_char (hd s) p = find_char_loop (hd s) p (bp_chunk p) (bp_pos p)"
      using pre by (simp add: buf_find_pos_of_char_def)
    have "bp_chunk p = [] \<Longrightarrow> bp_pos p = 0" "bp_chunk p \<noteq> [] \<Longrightarrow> bp_pos p \<le> ch_datalen (hd (bp_chunk p))"
      using less.prems by (auto simp: pos_ok_def split: list.splits)
    from find_char_loop_spec [OF _ this, of p "hd s"] less.prems show ?thesis
      unfolding eq pos_rest_def [of p]
      by (cases "memchr_idx (hd s) (drop (bp_pos p) (chunks_bytes (bp_chunk p)))")
         (auto simp: pos_ok_def [of p] add.commute)
  qed
  show ?case
  proof (cases "memchr_idx (hd s) (pos_rest p)")
    case None
    then have "hd s \<notin> set (pos_rest p)" by (simp add: memchr_idx_None)
    then have "find_sub s (pos_rest p) = None"
      using find_sub_skip [OF assms(2), of "length (pos_rest p)" "pos_rest p"] assms(2) by simp
    with None spec show ?thesis by (subst find_string_loop.simps) auto
  next
    case (Some k)
    with spec obtain q where q: "buf_find_pos_of_char (hd s) p = OK (q, Some (pos_abs p + k))"
      "pos_ok q" "pos_rest q = drop k (pos_rest p)" "pos_abs q = pos_abs p + k" by auto
    note k = memchr_idx_Some [OF Some]
    obtain x r where x: "pos_rest q = x # r"
      using k q(3) by (metis Cons_nth_drop_Suc)
    have m: "buf_matches_at_pos q s = OK (take (length s) (pos_rest q) = s)"
      using matches_loop_spec [OF q(2) _ assms(2)] x assms(2) by (simp add: buf_matches_at_pos_def)
    have skip: "find_sub s (pos_rest p) = map_option ((+) k) (find_sub s (pos_rest q))"
      using find_sub_skip [OF assms(2), of k "pos_rest p"] k q(3) by simp
    have lt: "pos_abs q < int_max"
      using q(2) x by (auto simp: pos_ok_def pos_rest_def split: list.splits)
    obtain q' where q': "buf_pos_inc q = OK (q', r \<noteq> [])"
      "r \<noteq> [] \<longrightarrow> pos_ok q' \<and> pos_rest q' = r \<and> pos_abs q' = pos_abs q + 1"
      using buf_pos_inc_spec [OF q(2) x] by blast
    show ?thesis
    proof (cases "take (length s) (pos_rest q) = s")
      case True
      with q(1,4) m lt skip x show ?thesis
        by (subst find_string_loop.simps) simp
    next
      case no: False
      then have next_sub: "find_sub s (pos_rest q) = map_option Suc (find_sub s r)" by (simp add: x)
      show ?thesis
      proof (cases "r = []")
        case True
        with q(1) m q'(1) no skip next_sub assms(2) show ?thesis
          by (subst find_string_loop.simps) simp
      next
        case False
        have "length (pos_rest q') < length (pos_rest p)"
        proof -
          have "length (x # r) = length (pos_rest p) - k" using x q(3) by (metis length_drop)
          with q'(2) False k show ?thesis by simp
        qed
        then have "find_string_loop q' s = OK (map_option (\<lambda>i. pos_abs q' + i) (find_sub s r))"
          using less.hyps [of q'] q'(2) False by (cases "find_sub s r") simp_all
        with q(1,4) m q' no False skip next_sub show ?thesis
          by (subst find_string_loop.simps) (cases "find_sub s r"; simp)
      qed
    qed
  qed
qed

lemma buf_find_string_offset_spec:
  assumes "list_all (\<lambda>c. ch_data c \<noteq> []) (buf_chunks b)" and "length (buf_bytes b) < int_max"
    and "s \<noteq> []"
  shows "buf_find_string_offset b s = OK (find_sub s (buf_bytes b))"
proof -
  have "pos_ok (buf_pos_init b)"
    using assms by (auto simp: pos_ok_def buf_pos_init_def buf_bytes_def split: list.splits)
  from find_string_loop_spec [OF this assms(3)] show ?thesis
    using assms(3) by (simp add: buf_find_string_offset_def buf_pos_init_def pos_rest_def buf_bytes_def
        option.map_ident)
qed

subsection \<open>HTTP messages\<close>

definition CRLFCRLF :: "byte list" where
  "CRLFCRLF = [13, 10, 13, 10]"

definition CONTENT_LENGTH :: "byte list" where
  "CONTENT_LENGTH = [13, 10] @ bytes_of ''Content-Length: ''"

text \<open>The part after the header has been pulled up: the value of the Content-Length field, read
  by \<^verbatim>\<open>atoi\<close> from the memory of the first chunk.  The result is the length of the body to
  return, or the value the function returns instead.\<close>

definition http_body_len :: "byte list \<Rightarrow> nat \<Rightarrow> nat \<Rightarrow> bool \<Rightarrow> (int + nat) res" where
  "http_body_len mem headerlen bodylen force_complete =
     (case find_sub CONTENT_LENGTH (take headerlen mem) of
        None \<Rightarrow> OK (Inr bodylen)
      | Some p \<Rightarrow> rbind (atoi (drop (p + length CONTENT_LENGTH) mem)) (\<lambda>i.
          if i < 0 then OK (Inl (-1))
          else let contentlen = nat i in
               if bodylen < contentlen \<and> \<not> force_complete then OK (Inl 0)
               else OK (Inr (if bodylen > contentlen then contentlen else bodylen))))"

record http_out =
  ho_ret :: int
  ho_headers :: "byte list option"
  ho_body :: "byte list option"

abbreviation http_fail :: "int \<Rightarrow> http_out" where
  "http_fail r \<equiv> \<lparr>ho_ret = r, ho_headers = None, ho_body = None\<rparr>"

text \<open>The copies at the end; \<open>want_headers\<close> and \<open>want_body\<close> say whether the output pointers
  are non-NULL.\<close>

definition http_take :: "chunk_alloc \<Rightarrow> buf \<Rightarrow> bool \<Rightarrow> nat \<Rightarrow> (byte list option \<times> chunk_alloc \<times> buf) res" where
  "http_take st b want n = (if want then rbind (fetch_from_buf st b n) (\<lambda>(bs, st', b').
     OK (Some bs, st', b')) else OK (None, st, b))"

definition fetch_from_buf_http ::
  "chunk_alloc \<Rightarrow> buf \<Rightarrow> bool \<Rightarrow> nat \<Rightarrow> bool \<Rightarrow> nat \<Rightarrow> bool \<Rightarrow> (http_out \<times> chunk_alloc \<times> buf) res" where
  "fetch_from_buf_http st b want_headers max_headerlen want_body max_bodylen force_complete =
     (if buf_chunks b = [] then OK (http_fail 0, st, b)
      else rbind (buf_find_string_offset b CRLFCRLF) (\<lambda>found.
        let crlf_offset = (case found of None \<Rightarrow> -1 | Some off \<Rightarrow> int off) in
        if crlf_offset > c_int (int max_headerlen) \<or> crlf_offset < 0 \<and> buf_datalen b > max_headerlen
        then OK (http_fail (-1), st, b)
        else if crlf_offset < 0 then OK (http_fail 0, st, b)
        else rbind (if c_int (int (ch_datalen (hd (buf_chunks b)))) < crlf_offset + 4
                    then buf_pullup st b (nat crlf_offset + 4) False else OK (st, b)) (\<lambda>(st1, b1).
          let headerlen = nat crlf_offset + 4;
              bodylen = size_sub (buf_datalen b1) headerlen in
          if max_headerlen \<le> headerlen then OK (http_fail (-1), st1, b1)
          else if max_bodylen \<le> bodylen then OK (http_fail (-1), st1, b1)
          else rbind (http_body_len (ch_data (hd (buf_chunks b1))) headerlen bodylen force_complete)
            (\<lambda>r. case r of
               Inl ret \<Rightarrow> OK (http_fail ret, st1, b1)
             | Inr blen \<Rightarrow>
                 rbind (http_take st1 b1 want_headers headerlen) (\<lambda>(h, st2, b2).
                   rbind (http_take st2 b2 want_body blen) (\<lambda>(bd, st3, b3).
                     OK (\<lparr>ho_ret = 1, ho_headers = h, ho_body = bd\<rparr>, st3, b3)))))))"

subsection \<open>Lines, old control commands, variable-length cells\<close>

fun find_offset_loop :: "byte \<Rightarrow> nat \<Rightarrow> chunk list \<Rightarrow> nat option" where
  "find_offset_loop ch offset [] = None"
| "find_offset_loop ch offset (c # cs) = (case memchr_idx ch (ch_data c) of
     Some k \<Rightarrow> Some (offset + k)
   | None \<Rightarrow> find_offset_loop ch (offset + ch_datalen c) cs)"

definition buf_find_offset_of_char :: "buf \<Rightarrow> byte \<Rightarrow> nat option" where
  "buf_find_offset_of_char b ch = find_offset_loop ch 0 (buf_chunks b)"

text \<open>\<^verbatim>\<open>fetch_from_buf_line\<close>: the return value, the line written with its NUL, the new
  \<^verbatim>\<open>*data_len\<close>.\<close>

definition fetch_from_buf_line ::
  "chunk_alloc \<Rightarrow> buf \<Rightarrow> nat \<Rightarrow> (int \<times> byte list \<times> nat \<times> chunk_alloc \<times> buf) res" where
  "fetch_from_buf_line st b data_len =
     (if buf_chunks b = [] then OK (0, [], data_len, st, b)
      else case buf_find_offset_of_char b 10 of
        None \<Rightarrow> OK (0, [], data_len, st, b)
      | Some sz \<Rightarrow>
          if sz + 2 > data_len then OK (-1, [], sz + 2, st, b)
          else rbind (fetch_from_buf st b (sz + 1)) (\<lambda>(line, st', b').
                 OK (1, line @ [0], sz + 1, st', b')))"

definition peek_buf_has_control0_command :: "buf \<Rightarrow> bool res" where
  "peek_buf_has_control0_command b =
     (if buf_datalen b \<ge> 4 then
        rbind (peek_from_buf b 4) (\<lambda>header. OK (rd16 (drop 2 header) \<le> 0x14))
      else OK False)"

definition VAR_CELL_HEADER_SIZE :: nat where "VAR_CELL_HEADER_SIZE = 5"
definition CELL_VERSIONS :: byte where "CELL_VERSIONS = 7"

definition CELL_COMMAND_IS_VAR_LENGTH :: "byte \<Rightarrow> bool" where
  "CELL_COMMAND_IS_VAR_LENGTH x \<longleftrightarrow> x = CELL_VERSIONS"

record var_cell =
  vc_command :: byte
  vc_circ_id :: u16
  vc_payload :: "byte list"

definition fetch_var_cell_from_buf ::
  "chunk_alloc \<Rightarrow> buf \<Rightarrow> int \<Rightarrow> (int \<times> var_cell option \<times> chunk_alloc \<times> buf) res" where
  "fetch_var_cell_from_buf st b linkproto =
     (if linkproto = 1 then OK (0, None, st, b)
      else if buf_datalen b < VAR_CELL_HEADER_SIZE then OK (0, None, st, b)
      else rbind (peek_from_buf b VAR_CELL_HEADER_SIZE) (\<lambda>hdr.
        let command = hdr ! 2 in
        if \<not> CELL_COMMAND_IS_VAR_LENGTH command then OK (0, None, st, b)
        else let length = unat (rd16 (drop 3 hdr)) in
          if buf_datalen b < VAR_CELL_HEADER_SIZE + length then OK (1, None, st, b)
          else rbind (buf_remove_from_front st b VAR_CELL_HEADER_SIZE) (\<lambda>(st1, b1).
            rbind (peek_from_buf b1 length) (\<lambda>payload.
              rbind (buf_remove_from_front st1 b1 length) (\<lambda>(st2, b2).
                OK (1, Some \<lparr>vc_command = command, vc_circ_id = rd16 hdr, vc_payload = payload\<rparr>,
                    st2, b2))))))"

lemma find_offset_loop_eq:
  "find_offset_loop ch off cs = map_option ((+) off) (memchr_idx ch (chunks_bytes cs))"
proof (induction cs arbitrary: off)
  case (Cons c cs)
  then show ?case
    by (cases "memchr_idx ch (chunks_bytes cs)") (auto simp: memchr_idx_append split: option.splits)
qed simp

lemma buf_find_offset_of_char_eq: "buf_find_offset_of_char b ch = memchr_idx ch (buf_bytes b)"
  by (cases "memchr_idx ch (buf_bytes b)")
     (simp_all add: buf_find_offset_of_char_def find_offset_loop_eq buf_bytes_def)

subsection \<open>Messages as a function of the byte sequence\<close>

datatype http_outcome = Http_More | Http_Bad | Http_Msg "byte list" "byte list"

definition http_split :: "byte list \<Rightarrow> (byte list \<times> byte list) option" where
  "http_split bs = map_option (\<lambda>o'. (take (o' + 4) bs, drop (o' + 4) bs)) (find_sub CRLFCRLF bs)"

definition http_content_length :: "byte list \<Rightarrow> int option res" where
  "http_content_length h = (case find_sub CONTENT_LENGTH h of
     None \<Rightarrow> OK None
   | Some p \<Rightarrow> rbind (atoi (drop (p + length CONTENT_LENGTH) h)) (\<lambda>i. OK (Some i)))"

definition http_spec :: "nat \<Rightarrow> nat \<Rightarrow> bool \<Rightarrow> int option \<Rightarrow> byte list \<Rightarrow> http_outcome" where
  "http_spec max_h max_b force clen bs = (case http_split bs of
     None \<Rightarrow> if length bs > max_h then Http_Bad else Http_More
   | Some (h, rest) \<Rightarrow>
       if length h \<ge> max_h \<or> length rest \<ge> max_b then Http_Bad
       else case clen of
         None \<Rightarrow> Http_Msg h rest
       | Some n \<Rightarrow> if n < 0 then Http_Bad
                   else if length rest < nat n \<and> \<not> force then Http_More
                   else Http_Msg h (take (nat n) rest))"

definition http_result :: "byte list \<Rightarrow> http_outcome \<Rightarrow> http_out \<times> byte list" where
  "http_result bs r = (case r of
     Http_More \<Rightarrow> (http_fail 0, bs)
   | Http_Bad \<Rightarrow> (http_fail (-1), bs)
   | Http_Msg h body \<Rightarrow> (\<lparr>ho_ret = 1, ho_headers = Some h, ho_body = Some body\<rparr>,
                        drop (length h + length body) bs))"

lemma http_body_len_eq:
  assumes "http_content_length (take headerlen mem) = OK clen"
  shows "http_body_len mem headerlen bodylen force = OK (case clen of
     None \<Rightarrow> Inr bodylen
   | Some n \<Rightarrow> if n < 0 then Inl (-1) else if bodylen < nat n \<and> \<not> force then Inl 0
               else Inr (min bodylen (nat n)))"
proof (cases "find_sub CONTENT_LENGTH (take headerlen mem)")
  case (Some p)
  with assms obtain i where i: "clen = Some i"
    "atoi (drop (p + length CONTENT_LENGTH) (take headerlen mem)) = OK i"
    by (auto simp: http_content_length_def res_simps)
  have "p + length CONTENT_LENGTH \<le> length (take headerlen mem)"
    using find_sub_Some [OF Some] by simp
  then have "drop (p + length CONTENT_LENGTH) mem =
      drop (p + length CONTENT_LENGTH) (take headerlen mem) @ drop headerlen mem"
    by (metis append_take_drop_id drop_append diff_is_0_eq drop0)
  with atoi_append [OF i(2)] have "atoi (drop (p + length CONTENT_LENGTH) mem) = OK i" by simp
  with Some i(1) show ?thesis by (simp add: http_body_len_def min_def Let_def)
qed (use assms in \<open>auto simp: http_content_length_def http_body_len_def\<close>)

lemma http_takes_ok:
  assumes "buf_wf st b" and "n + m \<le> length (buf_bytes b)" and "length (buf_bytes b) < int_max"
  shows "\<exists>st2 b2 st3 b3. http_take st b True n = OK (Some (take n (buf_bytes b)), st2, b2) \<and>
     http_take st2 b2 True m = OK (Some (take m (drop n (buf_bytes b))), st3, b3) \<and>
     buf_bytes b3 = drop (n + m) (buf_bytes b) \<and> buf_wf st3 b3"
proof -
  obtain st2 b2 where 2: "fetch_from_buf st b n = OK (take n (buf_bytes b), st2, b2)"
    "buf_bytes b2 = drop n (buf_bytes b)" "buf_wf st2 b2"
    using fetch_from_buf_wf [OF assms(1), of n] assms(2,3) by auto
  obtain st3 b3 where 3: "fetch_from_buf st2 b2 m = OK (take m (buf_bytes b2), st3, b3)"
    "buf_bytes b3 = drop m (buf_bytes b2)" "buf_wf st3 b3"
  proof -
    have "m \<le> length (buf_bytes b2)" "length (buf_bytes b2) < int_max" using 2(2) assms(2,3) by simp_all
    then show ?thesis using fetch_from_buf_wf [OF 2(3), of m] that by blast
  qed
  from 2 3 show ?thesis by (auto simp: http_take_def add.commute)
qed

text \<open>The pull-up of the header: skipped when the first chunk already holds it.\<close>

lemma http_pullup_ok:
  assumes "buf_wf st b" and "buf_chunks b \<noteq> []" and "n \<le> length (buf_bytes b)"
    and "length (buf_bytes b) < int_max" and "write_fits st n"
    and "ch_datalen (hd (buf_chunks b)) < n \<Longrightarrow> \<exists>r. buf_pullup st b n False = OK r"
  shows "\<exists>st1 b1. (if c_int (int (ch_datalen (hd (buf_chunks b)))) < int n
      then buf_pullup st b n False else OK (st, b)) = OK (st1, b1) \<and> buf_wf st1 b1 \<and>
      buf_bytes b1 = buf_bytes b \<and> take n (ch_data (hd (buf_chunks b1))) = take n (buf_bytes b)"
proof -
  have pre: "take n (ch_data (hd (buf_chunks b'))) = take n (buf_bytes b')"
    if "buf_chunks b' \<noteq> []" "n \<le> ch_datalen (hd (buf_chunks b'))" for b'
    using that by (cases "buf_chunks b'") (auto simp: buf_bytes_def)
  have "ch_datalen (hd (buf_chunks b)) \<le> length (buf_bytes b)"
    using assms(2) by (cases "buf_chunks b") (auto simp: buf_bytes_def)
  with assms(4) have c: "c_int (int (ch_datalen (hd (buf_chunks b)))) = int (ch_datalen (hd (buf_chunks b)))"
    by simp
  show ?thesis
  proof (cases "ch_datalen (hd (buf_chunks b)) < n")
    case True
    then obtain st1 b1 where p: "buf_pullup st b n False = OK (st1, b1)" using assms(6) by auto
    from buf_pullup_OK_D [OF p assms(1)] assms(2,3,5) True c p pre [of b1] show ?thesis by auto
  next
    case False
    with assms(1,2) c pre [of b] show ?thesis by auto
  qed
qed

lemma http_split_Some:
  assumes "http_split bs = Some (h, rest)"
  shows "\<exists>k. find_sub CRLFCRLF bs = Some k \<and> length h = k + 4 \<and> bs = h @ rest \<and>
    h = take (k + 4) bs \<and> rest = drop (k + 4) bs"
  using assms find_sub_Some [of CRLFCRLF bs] by (auto simp: http_split_def CRLFCRLF_def)

text \<open>
  C30: \<^verbatim>\<open>fetch_from_buf_http\<close>, asked for headers and body, is a function of the buffered bytes alone, however
  they are split into non-empty chunks: a message with incomplete headers or body is left untouched (0), an
  oversized one or one with a negative Content-Length is refused (-1), and otherwise exactly the
  headers and the body are returned and removed, later bytes staying for the next message.  The
  conditions: when the headers are complete, their Content-Length is a number \<^verbatim>\<open>atoi\<close> can read, and
  either they lie in the first chunk or they do not fit into it and a chunk for them can be allocated.
\<close>

theorem fetch_from_buf_http_correct:
  assumes "buf_inv st b" and "list_all (\<lambda>c. ch_data c \<noteq> []) (buf_chunks b)"
    and "length (buf_bytes b) < int_max" and "max_h \<le> int_max"
    and "\<And>h rest. http_split (buf_bytes b) = Some (h, rest) \<Longrightarrow>
       http_content_length h = OK clen \<and> write_fits st (length h) \<and>
       (length h \<le> ch_datalen (hd (buf_chunks b)) \<or> ch_memlen (hd (buf_chunks b)) < length h)"
  shows "\<exists>st' b' r. fetch_from_buf_http st b True max_h True max_b force = OK (r, st', b') \<and>
     (r, buf_bytes b') = http_result (buf_bytes b) (http_spec max_h max_b force clen (buf_bytes b))"
proof (cases "buf_chunks b = []")
  case True
  then have "buf_bytes b = []" by (simp add: buf_bytes_def)
  with True show ?thesis
    by (simp add: fetch_from_buf_http_def http_spec_def http_result_def http_split_def CRLFCRLF_def)
next
  case ne: False
  have find: "buf_find_string_offset b CRLFCRLF = OK (find_sub CRLFCRLF (buf_bytes b))"
    using assms(2,3) by (intro buf_find_string_offset_spec) (auto simp: CRLFCRLF_def)
  have dl: "buf_datalen b = length (buf_bytes b)" and wf: "buf_wf st b"
    using assms(1) buf_inv_wf by (auto simp: buf_inv_iff)
  show ?thesis
  proof (cases "http_split (buf_bytes b)")
    case None
    then have "find_sub CRLFCRLF (buf_bytes b) = None" by (simp add: http_split_def)
    with ne find None assms(4) dl show ?thesis
      by (simp add: fetch_from_buf_http_def http_spec_def http_result_def)
  next
    case (Some hr)
    obtain h rest where hr: "http_split (buf_bytes b) = Some (h, rest)" using Some by (cases hr) auto
    then obtain k where k: "find_sub CRLFCRLF (buf_bytes b) = Some k" "length h = k + 4"
      "buf_bytes b = h @ rest" using http_split_Some by blast
    note pre = assms(5) [OF hr]
    have pull: "\<exists>r. buf_pullup st b (length h) False = OK r" if short: "ch_datalen (hd (buf_chunks b)) < length h"
    proof -
      have "length h = min (length h) (length (buf_bytes b))" using k(3) by simp
      moreover have "buf_chunks b = hd (buf_chunks b) # tl (buf_chunks b)" using ne by simp
      ultimately show ?thesis using buf_pullup_preserves [OF assms(1)] pre short by (metis linorder_not_less)
    qed
    obtain st1 b1 where p: "(if c_int (int (ch_datalen (hd (buf_chunks b)))) < int (length h)
        then buf_pullup st b (length h) False else OK (st, b)) = OK (st1, b1)"
      "buf_wf st1 b1" "buf_bytes b1 = h @ rest" "take (length h) (ch_data (hd (buf_chunks b1))) = h"
      using http_pullup_ok [OF wf ne, of "length h"] pre pull assms(3) k(3) by fastforce
    have dl1: "buf_datalen b1 = length h + length rest" using p(2,3) by (simp add: buf_wf_def)
    have step: "fetch_from_buf_http st b True max_h True max_b force =
       (if max_h \<le> length h \<and> k > max_h then OK (http_fail (-1), st, b)
        else if max_h \<le> length h \<or> max_b \<le> length rest then OK (http_fail (-1), st1, b1)
        else rbind (http_body_len (ch_data (hd (buf_chunks b1))) (length h) (length rest) force)
          (\<lambda>r. case r of Inl ret \<Rightarrow> OK (http_fail ret, st1, b1)
             | Inr blen \<Rightarrow> rbind (http_take st1 b1 True (length h)) (\<lambda>(hh, st2, b2).
                 rbind (http_take st2 b2 True blen) (\<lambda>(bd, st3, b3).
                   OK (\<lparr>ho_ret = 1, ho_headers = hh, ho_body = bd\<rparr>, st3, b3)))))"
    proof -
      have p1: "(if c_int (int (ch_datalen (hd (buf_chunks b)))) < int k + 4
          then buf_pullup st b (k + 4) False else OK (st, b)) = OK (st1, b1)"
        using p(1) unfolding k(2) by simp
      show ?thesis
        using ne find k(1,2) assms(4) dl1 p1
        by (cases "c_int (int (ch_datalen (hd (buf_chunks b)))) < int k + 4")
           (simp_all add: fetch_from_buf_http_def size_sub_def Let_def)
    qed
    show ?thesis
    proof (cases "max_h \<le> length h \<or> max_b \<le> length rest")
      case True
      with step hr p(3) k(3) show ?thesis by (auto simp: http_spec_def http_result_def)
    next
      case False
      define blen where "blen = (case clen of None \<Rightarrow> length rest | Some n \<Rightarrow> min (length rest) (nat n))"
      have cl: "http_content_length (take (length h) (ch_data (hd (buf_chunks b1)))) = OK clen"
        using pre p(4) by simp
      have tk: "\<exists>st2 b2 st3 b3. http_take st1 b1 True (length h) = OK (Some h, st2, b2) \<and>
          http_take st2 b2 True blen = OK (Some (take blen rest), st3, b3) \<and>
          buf_bytes b3 = drop blen rest"
        using http_takes_ok [OF p(2), of "length h" blen] p(3) assms(3) k(3)
        by (auto simp: blen_def split: option.splits)
      have mn: "take (min (length rest) n) rest = take n rest" for n by (simp add: min_def)
      show ?thesis
        using step False tk http_body_len_eq [OF cl, of "length rest" force] hr p(3) k(3)
        by (auto simp: http_spec_def http_result_def blen_def mn split: option.splits if_splits)
    qed
  qed
qed

definition http_example :: "byte list" where
  "http_example = bytes_of ''GET /'' @ CONTENT_LENGTH @ bytes_of ''2'' @ CRLFCRLF @ bytes_of ''okmore''"

text \<open>The message in two chunks, the first of them full with the first ten bytes.\<close>

definition http_example_buf :: buf where
  "http_example_buf = two_chunk_buf 0 (take 10 http_example) 10 (drop 10 http_example)"

theorem fetch_from_buf_http_correct_witness:
  "\<exists>st' b' r. fetch_from_buf_http initial_alloc http_example_buf True 100 True 100 False = OK (r, st', b') \<and>
     ho_ret r = 1 \<and> ho_body r = Some (bytes_of ''ok'') \<and> buf_bytes b' = bytes_of ''more''"
proof -
  have len: "length http_example = 34" by code_simp
  have b: "buf_bytes http_example_buf = http_example"
    by (simp add: http_example_buf_def two_chunk_buf_def buf_bytes_def)
  have ne: "take 10 http_example \<noteq> []" "drop 10 http_example \<noteq> []" using len by auto
  have i: "buf_inv initial_alloc http_example_buf" unfolding http_example_buf_def
    using len by (intro two_chunk_buf_inv [OF alloc_ok_initial list.collapse [OF ne(1), symmetric]]) simp_all
  have s: "http_split http_example = Some (take 28 http_example, drop 28 http_example)" by code_simp
  have c: "http_content_length (take 28 http_example) = OK (Some 2)" by code_simp
  have r: "http_spec 100 100 False (Some 2) http_example =
      Http_Msg (take 28 http_example) (bytes_of ''ok'')" by code_simp
  have d: "drop 30 http_example = bytes_of ''more''" by code_simp
  have ch: "list_all (\<lambda>c. ch_data c \<noteq> []) (buf_chunks http_example_buf)" "ch_memlen (hd (buf_chunks http_example_buf)) = 10"
    using ne len by (auto simp: http_example_buf_def two_chunk_buf_def)
  have w: "write_fits initial_alloc 28" by (simp add: write_fits_def chunk_sizes)
  have "\<exists>st' b' r. fetch_from_buf_http initial_alloc http_example_buf True 100 True 100 False = OK (r, st', b') \<and>
     (r, buf_bytes b') = http_result (buf_bytes http_example_buf)
       (http_spec 100 100 False (Some 2) (buf_bytes http_example_buf))"
    using s c w len ch
    by (intro fetch_from_buf_http_correct [OF i]) (auto simp: b int_max_def)
  then show ?thesis using r d len by (auto simp: b http_result_def bytes_of_def)
qed

text \<open>
  \<^verbatim>\<open>buf_find_string_offset\<close> on a buffer without empty chunks returns the position of the
  first occurrence of the string in the buffered bytes, matches that straddle chunks included,
  and reports absence exactly when there is none; it never reads outside the data.
\<close>

lemma buf_find_string_offset_first:
  assumes "list_all (\<lambda>c. ch_data c \<noteq> []) (buf_chunks b)" and "length (buf_bytes b) < int_max"
    and "s \<noteq> []"
  shows "\<exists>r. buf_find_string_offset b s = OK r \<and> (case r of
     Some k \<Rightarrow> take (length s) (drop k (buf_bytes b)) = s \<and>
               (\<forall>j<k. take (length s) (drop j (buf_bytes b)) \<noteq> s)
   | None \<Rightarrow> \<forall>j. take (length s) (drop j (buf_bytes b)) \<noteq> s)"
  using buf_find_string_offset_spec [OF assms] find_sub_Some [of s "buf_bytes b"]
    find_sub_eq_None_iff [of s "buf_bytes b"]
  by (auto split: option.splits)

text \<open>
  An empty last chunk (which a read that returns no data leaves behind) makes the search
  read memory that holds no data of the buffer: a partial match at the end of the chunk before
  it is continued in the empty chunk.
\<close>

lemma find_string_reads_stale_memory:
  assumes "buf_chunks b = [c, e]" and "ch_data c = pre @ s1" and "ch_data e = []"
    and "hd s \<notin> set pre" and "s = s1 @ s2" and "s1 \<noteq> []" and "s2 \<noteq> []" and "ch_datalen c < int_max"
  shows "buf_find_string_offset b s = Fault Mem_Fault"
proof -
  let ?p = "\<lparr>bp_chunk = [c, e], bp_pos = length pre, bp_chunk_pos = 0\<rparr>"
  have m: "matches_loop \<lparr>bp_chunk = [c, e], bp_pos = length (pre @ t), bp_chunk_pos = 0\<rparr> (u @ s2) =
      Fault Mem_Fault" if "s1 = t @ u" "u \<noteq> []" for t u
    using that
  proof (induction u arbitrary: t)
    case (Cons a u)
    then have c: "ch_data c = (pre @ t) @ a # u" using assms(2) by simp
    show ?case
    proof (cases "u = []")
      case True
      obtain x s2' where s2: "s2 = x # s2'" using assms(7) by (cases s2) auto
      have "byte_at_pos \<lparr>bp_chunk = [e], bp_pos = 0, bp_chunk_pos = q\<rparr> = Fault Mem_Fault" for q
        using assms(3) by (simp add: byte_at_pos_def)
      with c True s2 assms(8) show ?thesis
        by (auto simp: byte_at_pos_def buf_pos_inc_def Let_def nth_append)
    next
      case False
      with Cons.IH [of "t @ [a]"] Cons.prems c assms(8) show ?thesis
        by (auto simp: byte_at_pos_def buf_pos_inc_def Let_def nth_append)
    qed
  qed simp
  have hd: "memchr_idx (hd s) (ch_data c) = Some (length pre)"
  proof -
    have "memchr_idx (hd s) pre = None" using assms(4) by (simp add: memchr_idx_None)
    then show ?thesis using assms(2,5,6) by (cases s1) (simp_all add: memchr_idx_append)
  qed
  have "buf_find_pos_of_char (hd s) (buf_pos_init b) = OK (?p, Some (length pre))"
    using hd assms(1,2,6,8) by (auto simp: buf_find_pos_of_char_def buf_pos_init_def tor_assert_def)
  moreover have "buf_matches_at_pos ?p s = Fault Mem_Fault"
    using m [of "[]" s1] assms(5,6) by (auto simp: buf_matches_at_pos_def)
  ultimately show ?thesis
    using assms(5,6) by (simp add: buf_find_string_offset_def find_string_loop.simps [of "buf_pos_init b"])
qed

text \<open>
  \<^verbatim>\<open>fetch_from_buf_line\<close> returns the bytes up to and including the first line feed,
  NUL-terminated, when they fit, and removes exactly these; it leaves the buffer alone and
  returns 0 when there is no line feed, and -1 with the room needed when the line does not fit.
\<close>

lemma fetch_from_buf_line_correct:
  assumes "buf_inv st b" and "length (buf_bytes b) < int_max"
  shows "\<exists>st' b' ret out len. fetch_from_buf_line st b data_len = OK (ret, out, len, st', b') \<and>
     buf_inv st' b' \<and>
     (if 10 \<notin> set (buf_bytes b) then ret = 0 \<and> len = data_len \<and> b' = b
      else let line = takeWhile (\<lambda>c. c \<noteq> 10) (buf_bytes b) in
           if length line + 2 > data_len then ret = -1 \<and> len = length line + 2 \<and> b' = b
           else ret = 1 \<and> out = line @ [10, 0] \<and> len = length line + 1 \<and>
                buf_bytes b = line @ [10] @ buf_bytes b')"
proof (cases "memchr_idx 10 (buf_bytes b)")
  case None
  then have no: "10 \<notin> set (buf_bytes b)" by (simp add: memchr_idx_None)
  then have "fetch_from_buf_line st b data_len = OK (0, [], data_len, st, b)"
    using None by (simp add: fetch_from_buf_line_def buf_find_offset_of_char_eq)
  with no assms(1) show ?thesis by auto
next
  case (Some k)
  note k = memchr_idx_Some [OF Some]
  then have mem: "10 \<in> set (buf_bytes b)" by (metis nth_mem)
  have line: "takeWhile (\<lambda>c. c \<noteq> 10) (buf_bytes b) = take k (buf_bytes b)"
    using k by (intro takeWhile_eq_take_P_nth) (auto simp: in_set_conv_nth)
  have ne: "buf_chunks b \<noteq> []" using k by (auto simp: buf_bytes_def)
  obtain st' b' where f: "fetch_from_buf st b (k + 1) = OK (take (k + 1) (buf_bytes b), st', b')"
    "buf_bytes b' = drop (k + 1) (buf_bytes b)" "buf_inv st' b'"
    using fetch_from_buf_ok [OF assms(1), of "k + 1"] k assms(2) by auto
  have t: "take (k + 1) (buf_bytes b) = take k (buf_bytes b) @ [10]"
    using k by (simp add: take_Suc_conv_app_nth)
  have "buf_bytes b = take k (buf_bytes b) @ [10] @ buf_bytes b'"
    using t f(2) append_take_drop_id [of "k + 1" "buf_bytes b"] by simp
  with mem line ne Some f t k assms(1) show ?thesis
    by (auto simp: fetch_from_buf_line_def buf_find_offset_of_char_eq min_def)
qed

text \<open>
  \<^verbatim>\<open>fetch_var_cell_from_buf\<close> reads back a variable-length cell: when the buffer starts with
  the five-byte header of a VERSIONS cell and the whole payload is there, the cell is returned
  and exactly its bytes are removed; while the payload is incomplete it returns 1 with no cell
  and the buffer is unchanged.
\<close>

lemma fetch_var_cell_roundtrip:
  assumes "buf_inv st b" and "linkproto \<noteq> 1" and "length payload < 2 ^ 16"
    and "buf_bytes b = be16 circ_id @ [CELL_VERSIONS] @ be16 (of_nat (length payload)) @ rest"
    and "\<exists>tl. rest = payload @ tl \<or> payload = rest @ tl \<and> tl \<noteq> []"
  shows "\<exists>st' b' cell. fetch_var_cell_from_buf st b linkproto = OK (1, cell, st', b') \<and> buf_inv st' b' \<and>
     (if length payload \<le> length rest
      then cell = Some \<lparr>vc_command = CELL_VERSIONS, vc_circ_id = circ_id, vc_payload = payload\<rparr> \<and>
           buf_bytes b' = drop (length payload) rest
      else cell = None \<and> b' = b)"
proof -
  have dl: "buf_datalen b = 5 + length rest" using assms(1,4) by (simp add: buf_inv_iff)
  define hdr where "hdr = be16 circ_id @ [CELL_VERSIONS] @ be16 (of_nat (length payload))"
  have h5: "length hdr = 5" by (simp add: hdr_def)
  have peek: "peek_from_buf b 5 = OK hdr"
    using peek_from_buf_wf [OF buf_inv_wf [OF assms(1)], of 5] assms(4) h5 by (simp add: hdr_def be16_def)
  have cmd: "hdr ! 2 = CELL_VERSIONS" by (simp add: hdr_def nth_append)
  have cid: "rd16 hdr = circ_id" by (simp add: hdr_def)
  have len: "unat (rd16 (drop 3 hdr)) = length payload"
    using assms(3) rd16_be16 [of "of_nat (length payload)" "[]"]
    by (simp add: hdr_def be16_def unat_of_nat take_bit_nat_eq_self)
  show ?thesis
  proof (cases "length payload \<le> length rest")
    case False
    with peek cmd len dl assms(1,2) show ?thesis
      by (simp add: fetch_var_cell_from_buf_def VAR_CELL_HEADER_SIZE_def CELL_COMMAND_IS_VAR_LENGTH_def Let_def)
  next
    case True
    then have pay: "take (length payload) rest = payload" using assms(5) by auto
    obtain st1 b1 where 1: "buf_remove_from_front st b 5 = OK (st1, b1)" "buf_bytes b1 = rest" "buf_inv st1 b1"
      using buf_remove_from_front_ok [OF assms(1), of 5] assms(4) by (auto simp: be16_def)
    have peek1: "peek_from_buf b1 (length payload) = OK payload"
      using peek_from_buf_wf [OF buf_inv_wf [OF 1(3)], of "length payload"] True 1(2) pay by simp
    obtain st2 b2 where 2: "buf_remove_from_front st1 b1 (length payload) = OK (st2, b2)"
      "buf_bytes b2 = drop (length payload) rest" "buf_inv st2 b2"
      using buf_remove_from_front_ok [OF 1(3), of "length payload"] True 1(2) by auto
    show ?thesis
      using True peek cmd cid len dl assms(2) 1 2 peek1
      by (simp add: fetch_var_cell_from_buf_def VAR_CELL_HEADER_SIZE_def CELL_COMMAND_IS_VAR_LENGTH_def Let_def)
  qed
qed

lemma fetch_var_cell_none:
  assumes "buf_wf st b" and "length (buf_bytes b) < VAR_CELL_HEADER_SIZE \<or>
      \<not> CELL_COMMAND_IS_VAR_LENGTH (buf_bytes b ! 2)"
  shows "fetch_var_cell_from_buf st b linkproto = OK (0, None, st, b)"
  using assms peek_from_buf_wf [OF assms(1), of VAR_CELL_HEADER_SIZE]
  by (auto simp: fetch_var_cell_from_buf_def buf_wf_def VAR_CELL_HEADER_SIZE_def Let_def)

end
