(* ===== verification/Cells.thy ===== *)
theory Cells
  imports BufferParse
begin

section \<open>Cells and their wire formats (or.h, connection\_or.c, relay.c)\<close>

text \<open>
  Fixed-length cells, relay headers, and the loop that cuts an OR connection's input buffer into
  cells.  A cell's payload is a list of \<open>CELL_PAYLOAD_SIZE\<close> bytes.
\<close>

definition CELL_PAYLOAD_SIZE :: nat where "CELL_PAYLOAD_SIZE = 509"
definition CELL_NETWORK_SIZE :: nat where "CELL_NETWORK_SIZE = 512"
definition RELAY_HEADER_SIZE :: nat where "RELAY_HEADER_SIZE = 11"
definition RELAY_PAYLOAD_SIZE :: nat where "RELAY_PAYLOAD_SIZE = CELL_PAYLOAD_SIZE - RELAY_HEADER_SIZE"

lemmas cell_sizes = CELL_PAYLOAD_SIZE_def CELL_NETWORK_SIZE_def RELAY_HEADER_SIZE_def
  RELAY_PAYLOAD_SIZE_def VAR_CELL_HEADER_SIZE_def

record cell =
  ce_circ_id :: u16
  ce_command :: byte
  ce_payload :: "byte list"

definition cell_pack :: "cell \<Rightarrow> byte list" where
  "cell_pack src = be16 (ce_circ_id src) @ [ce_command src] @ take CELL_PAYLOAD_SIZE (ce_payload src)"

definition cell_unpack :: "byte list \<Rightarrow> cell" where
  "cell_unpack src = \<lparr>ce_circ_id = rd16 src, ce_command = src ! 2,
     ce_payload = take CELL_PAYLOAD_SIZE (drop 3 src)\<rparr>"

definition var_cell_pack_header :: "var_cell \<Rightarrow> byte list" where
  "var_cell_pack_header c = be16 (vc_circ_id c) @ [vc_command c] @ be16 (of_nat (length (vc_payload c)))"

record relay_header =
  rh_command :: byte
  rh_recognized :: u16
  rh_stream_id :: u16
  rh_integrity :: "byte list"
  rh_length :: u16

text \<open>\<^verbatim>\<open>relay_header_pack\<close> overwrites the first eleven bytes of a payload.\<close>

definition relay_header_pack :: "byte list \<Rightarrow> relay_header \<Rightarrow> byte list" where
  "relay_header_pack dest src =
     [rh_command src] @ be16 (rh_recognized src) @ be16 (rh_stream_id src) @
     take 4 (rh_integrity src) @ be16 (rh_length src) @ drop RELAY_HEADER_SIZE dest"

definition relay_header_unpack :: "byte list \<Rightarrow> relay_header" where
  "relay_header_unpack src =
     \<lparr>rh_command = src ! 0, rh_recognized = rd16 (drop 1 src), rh_stream_id = rd16 (drop 3 src),
      rh_integrity = take 4 (drop 5 src), rh_length = rd16 (drop 9 src)\<rparr>"

lemma cell_unpack_pack:
  "length (ce_payload c) = CELL_PAYLOAD_SIZE \<Longrightarrow> cell_unpack (cell_pack c) = c"
  by (simp add: cell_unpack_def cell_pack_def nth_append)

lemma length_cell_pack:
  "length (ce_payload c) = CELL_PAYLOAD_SIZE \<Longrightarrow> length (cell_pack c) = CELL_NETWORK_SIZE"
  by (simp add: cell_pack_def cell_sizes)

lemma be16_list: "\<exists>a b. be16 w = [a, b] \<and> rd16 (a # b # xs) = w"
  using rd16_be16 [of w xs] by (auto simp: be16_def)

lemma relay_header_unpack_pack:
  assumes "length (rh_integrity rh) = 4"
  shows "relay_header_unpack (relay_header_pack dest rh) = rh"
proof -
  obtain i1 i2 i3 i4 where i: "rh_integrity rh = [i1, i2, i3, i4]"
    using assms by (auto simp: length_Suc_conv eval_nat_numeral)
  have r: "rd16 (ucast (drop_bit 8 w) # ucast w # xs) = w" for w :: u16 and xs
    using rd16_be16 [of w xs] by (simp add: be16_def)
  show ?thesis
    by (simp add: relay_header_unpack_def relay_header_pack_def i be16_def r del: rd16.simps)
qed

lemma relay_header_pack_unpack:
  assumes "RELAY_HEADER_SIZE \<le> length p"
  shows "relay_header_pack p (relay_header_unpack p) = p"
proof -
  obtain a b c d e f g h i j k p' where p: "p = a # b # c # d # e # f # g # h # i # j # k # p'"
    using assms by (auto simp: RELAY_HEADER_SIZE_def eval_nat_numeral Suc_le_length_iff)
  show ?thesis
    by (simp add: p relay_header_pack_def relay_header_unpack_def RELAY_HEADER_SIZE_def be16_rd16
        del: rd16.simps)
qed

lemma length_relay_header_pack:
  "length (rh_integrity rh) = 4 \<Longrightarrow> RELAY_HEADER_SIZE \<le> length p \<Longrightarrow>
     length (relay_header_pack p rh) = length p"
  by (simp add: relay_header_pack_def RELAY_HEADER_SIZE_def)

lemma relay_header_pack_pack:
  "length (rh_integrity rh) = 4 \<Longrightarrow> RELAY_HEADER_SIZE \<le> length p \<Longrightarrow>
     relay_header_pack (relay_header_pack p rh) rh' = relay_header_pack p rh'"
  by (simp add: relay_header_pack_def RELAY_HEADER_SIZE_def)

lemma length_integrity_unpack:
  "RELAY_HEADER_SIZE \<le> length p \<Longrightarrow> length (rh_integrity (relay_header_unpack p)) = 4"
  by (simp add: relay_header_unpack_def RELAY_HEADER_SIZE_def)

subsection \<open>Cutting the input buffer into cells\<close>

datatype wire_cell = Fixed cell | Var var_cell

text \<open>
  \<^verbatim>\<open>connection_or_process_cells_from_inbuf\<close>.  The command handlers are a function \<open>handle\<close> on
  the connection's state, of which the loop reads the link protocol version.
\<close>

lemma remove_from_chunks_datalen:
  "remove_from_chunks st dl cs n = OK (st', dl', cs') \<Longrightarrow> dl' = dl - n"
  by (induction st dl cs n rule: remove_from_chunks.induct)
     (auto simp: res_simps split: if_splits)

lemma buf_remove_from_front_datalen:
  "buf_remove_from_front st b n = OK (st', b') \<Longrightarrow> n \<le> buf_datalen b \<and> buf_datalen b' = buf_datalen b - n"
  by (auto simp: buf_remove_from_front_def res_simps dest: remove_from_chunks_datalen)

lemma fetch_from_buf_datalen:
  "fetch_from_buf st b n = OK (bs, st', b') \<Longrightarrow> n \<le> buf_datalen b \<and> buf_datalen b' = buf_datalen b - n"
  by (auto simp: fetch_from_buf_def res_simps dest: buf_remove_from_front_datalen)

lemma fetch_var_cell_datalen:
  "fetch_var_cell_from_buf st b lp = OK (r, Some vc, st', b') \<Longrightarrow> buf_datalen b' < buf_datalen b"
  "fetch_var_cell_from_buf st b lp = OK (r, None, st', b') \<Longrightarrow> b' = b \<and> st' = st"
  by (auto simp: fetch_var_cell_from_buf_def Let_def res_simps VAR_CELL_HEADER_SIZE_def split: if_splits
      dest!: buf_remove_from_front_datalen)

lemma fetch_var_cell_le:
  "fetch_var_cell_from_buf st b lp = OK (r, vc, st', b') \<Longrightarrow> buf_datalen b' \<le> buf_datalen b"
  by (cases vc) (auto dest: fetch_var_cell_datalen)

function process_cells_from_inbuf ::
  "('s \<Rightarrow> int) \<Rightarrow> ('s \<Rightarrow> wire_cell \<Rightarrow> 's) \<Rightarrow> 's \<Rightarrow> chunk_alloc \<Rightarrow> buf \<Rightarrow> ('s \<times> chunk_alloc \<times> buf) res" where
  "process_cells_from_inbuf link_proto handle s st b =
     rbind (fetch_var_cell_from_buf st b (link_proto s)) (\<lambda>(r, var_cell, st1, b1).
       if r \<noteq> 0 then
         (case var_cell of
            None \<Rightarrow> OK (s, st1, b1)
          | Some v \<Rightarrow> process_cells_from_inbuf link_proto handle (handle s (Var v)) st1 b1)
       else if buf_datalen b1 < CELL_NETWORK_SIZE then OK (s, st1, b1)
       else rbind (fetch_from_buf st1 b1 CELL_NETWORK_SIZE) (\<lambda>(bs, st2, b2).
              process_cells_from_inbuf link_proto handle (handle s (Fixed (cell_unpack bs))) st2 b2))"
  by pat_completeness auto
termination
  by (relation "measure (\<lambda>(_, _, _, _, b). buf_datalen b)")
     (simp, metis fetch_var_cell_datalen(1) in_measure case_prod_conv,
      auto dest!: fetch_from_buf_datalen fetch_var_cell_le simp: CELL_NETWORK_SIZE_def)

declare process_cells_from_inbuf.simps [simp del]

fun wire_encode :: "wire_cell \<Rightarrow> byte list" where
  "wire_encode (Fixed c) = cell_pack c"
| "wire_encode (Var v) = var_cell_pack_header v @ vc_payload v"

fun wire_valid :: "wire_cell \<Rightarrow> bool" where
  "wire_valid (Fixed c) \<longleftrightarrow> length (ce_payload c) = CELL_PAYLOAD_SIZE \<and>
     \<not> CELL_COMMAND_IS_VAR_LENGTH (ce_command c)"
| "wire_valid (Var v) \<longleftrightarrow> CELL_COMMAND_IS_VAR_LENGTH (vc_command v) \<and> length (vc_payload v) < 2 ^ 16"

text \<open>What is left when no further cell is complete.\<close>

definition wire_incomplete :: "byte list \<Rightarrow> bool" where
  "wire_incomplete r \<longleftrightarrow> length r < VAR_CELL_HEADER_SIZE \<or>
     (if CELL_COMMAND_IS_VAR_LENGTH (r ! 2)
      then length r < VAR_CELL_HEADER_SIZE + unat (rd16 (drop 3 r))
      else length r < CELL_NETWORK_SIZE)"

lemma process_cells_stop:
  assumes "buf_inv st b" and "link_proto s \<noteq> 1" and "wire_incomplete (buf_bytes b)"
  shows "process_cells_from_inbuf link_proto handle s st b = OK (s, st, b)"
proof (cases "length (buf_bytes b) < VAR_CELL_HEADER_SIZE \<or>
    \<not> CELL_COMMAND_IS_VAR_LENGTH (buf_bytes b ! 2)")
  case True
  with fetch_var_cell_none [OF buf_inv_wf [OF assms(1)] True] assms show ?thesis
    by (subst process_cells_from_inbuf.simps)
       (auto simp: buf_inv_iff wire_incomplete_def cell_sizes)
next
  case False
  have "peek_from_buf b VAR_CELL_HEADER_SIZE = OK (take VAR_CELL_HEADER_SIZE (buf_bytes b))"
    using False peek_from_buf_wf [OF buf_inv_wf [OF assms(1)]] by simp
  moreover have "rd16 (drop 3 (take VAR_CELL_HEADER_SIZE (buf_bytes b))) = rd16 (drop 3 (buf_bytes b))"
    using False
    by (auto simp: VAR_CELL_HEADER_SIZE_def eval_nat_numeral not_less Suc_le_length_iff)
  ultimately have "fetch_var_cell_from_buf st b (link_proto s) = OK (1, None, st, b)"
    using False assms
    by (auto simp: fetch_var_cell_from_buf_def Let_def wire_incomplete_def buf_inv_iff
        VAR_CELL_HEADER_SIZE_def)
  then show ?thesis by (subst process_cells_from_inbuf.simps) simp
qed

lemma process_cells_one:
  assumes "buf_inv st b" and "link_proto s \<noteq> 1" and "wire_valid c"
    and "buf_bytes b = wire_encode c @ rest" and "length (buf_bytes b) < int_max"
  shows "\<exists>st' b'. process_cells_from_inbuf link_proto handle s st b =
      process_cells_from_inbuf link_proto handle (handle s c) st' b' \<and>
      buf_bytes b' = rest \<and> buf_inv st' b'"
proof (cases c)
  case (Fixed f)
  then have f: "length (ce_payload f) = CELL_PAYLOAD_SIZE" "\<not> CELL_COMMAND_IS_VAR_LENGTH (ce_command f)"
    using assms(3) by auto
  have len: "length (cell_pack f) = CELL_NETWORK_SIZE" by (rule length_cell_pack [OF f(1)])
  have "buf_bytes b ! 2 = ce_command f"
    using assms(4) Fixed by (simp add: cell_pack_def nth_append)
  then have none: "fetch_var_cell_from_buf st b (link_proto s) = OK (0, None, st, b)"
    using f(2) by (intro fetch_var_cell_none [OF buf_inv_wf [OF assms(1)]]) simp
  have "CELL_NETWORK_SIZE \<le> length (buf_bytes b)" using assms(4) Fixed len by simp
  from fetch_from_buf_ok [OF assms(1) this assms(5)] obtain st' b' where
    ft: "fetch_from_buf st b CELL_NETWORK_SIZE = OK (cell_pack f, st', b')"
    "buf_bytes b' = rest" "buf_inv st' b'"
    using assms(4) Fixed len by auto
  have "\<not> buf_datalen b < CELL_NETWORK_SIZE"
    using assms(1,4) Fixed len by (simp add: buf_inv_iff)
  with none ft Fixed show ?thesis
    by (subst process_cells_from_inbuf.simps) (auto simp: cell_unpack_pack [OF f(1)])
next
  case (Var v)
  then have v: "vc_command v = CELL_VERSIONS" "length (vc_payload v) < 2 ^ 16"
    using assms(3) by (auto simp: CELL_COMMAND_IS_VAR_LENGTH_def)
  have "buf_bytes b = be16 (vc_circ_id v) @ [CELL_VERSIONS] @
      be16 (of_nat (length (vc_payload v))) @ (vc_payload v @ rest)"
    using assms(4) Var v by (simp add: var_cell_pack_header_def)
  from fetch_var_cell_roundtrip [OF assms(1,2) v(2) this] obtain st' b' where
    "fetch_var_cell_from_buf st b (link_proto s) = OK (1, Some v, st', b')"
    "buf_bytes b' = rest" "buf_inv st' b'"
    using v(1) by (cases v) auto
  with Var show ?thesis by (subst process_cells_from_inbuf.simps) auto
qed

text \<open>
  C29: the receiving loop of an OR connection whose link protocol is not 1 inverts the senders \<^verbatim>\<open>cell_pack\<close> and
  \<^verbatim>\<open>var_cell_pack_header\<close>: if the input buffer holds the encodings of any sequence of fixed
  and variable-length cells, however chunked, followed by an incomplete cell, then exactly these
  cells are handed to the command handlers in order, and the incomplete rest stays buffered.
\<close>

theorem process_cells_from_inbuf_correct:
  assumes "buf_inv st b" and "\<And>t. link_proto t \<noteq> 1" and "list_all wire_valid cs"
    and "buf_bytes b = concat (map wire_encode cs) @ rest" and "wire_incomplete rest"
    and "length (buf_bytes b) < int_max"
  shows "\<exists>st' b'. process_cells_from_inbuf link_proto handle s st b = OK (foldl handle s cs, st', b') \<and>
           buf_bytes b' = rest \<and> buf_inv st' b'"
  using assms
proof (induction cs arbitrary: s st b)
  case Nil
  then have "process_cells_from_inbuf link_proto handle s st b = OK (s, st, b)"
    by (intro process_cells_stop) simp_all
  with Nil show ?case by simp
next
  case (Cons c cs)
  then have "buf_bytes b = wire_encode c @ (concat (map wire_encode cs) @ rest)" "wire_valid c" by auto
  from process_cells_one [where link_proto = link_proto and s = s and handle = handle,
      OF Cons.prems(1) Cons.prems(2) this(2,1) Cons.prems(6)] obtain st1 b1 where
    1: "process_cells_from_inbuf link_proto handle s st b =
          process_cells_from_inbuf link_proto handle (handle s c) st1 b1"
      "buf_bytes b1 = concat (map wire_encode cs) @ rest" "buf_inv st1 b1" by blast
  have "length (buf_bytes b1) < int_max" using Cons.prems(4,6) 1(2) by simp
  from Cons.IH [OF 1(3) Cons.prems(2) _ 1(2) Cons.prems(5) this] Cons.prems(3) 1(1) show ?case by simp
qed

definition example_cell :: cell where
  "example_cell = \<lparr>ce_circ_id = 5, ce_command = 3, ce_payload = replicate 509 7\<rparr>"

definition example_versions :: var_cell where
  "example_versions = \<lparr>vc_command = 7, vc_circ_id = 0, vc_payload = [0, 1, 0, 2]\<rparr>"

theorem process_cells_from_inbuf_correct_witness:
  "\<exists>st' b'. process_cells_from_inbuf (\<lambda>_. 2) (\<lambda>l c. l @ [c]) []
      initial_alloc (two_chunk_buf 0 (wire_encode (Var example_versions)) 9
        (wire_encode (Fixed example_cell) @ [0, 5])) =
     OK ([Var example_versions, Fixed example_cell], st', b') \<and> buf_bytes b' = [0, 5]"
proof -
  let ?cs = "[Var example_versions, Fixed example_cell]"
  let ?b = "two_chunk_buf 0 (wire_encode (Var example_versions)) 9 (wire_encode (Fixed example_cell) @ [0, 5])"
  have v: "wire_encode (Var example_versions) = 0 # [0, 7, 0, 4, 0, 1, 0, 2]"
    by (simp add: example_versions_def var_cell_pack_header_def be16_def)
  have l: "length (wire_encode (Fixed example_cell)) = 512"
    by (simp add: example_cell_def cell_pack_def cell_sizes)
  have b: "buf_bytes ?b = concat (map wire_encode ?cs) @ [0, 5]"
    by (simp add: two_chunk_buf_def buf_bytes_def del: wire_encode.simps)
  have i: "buf_inv initial_alloc ?b"
    by (rule two_chunk_buf_inv [OF alloc_ok_initial v]) (use v l in auto)
  have valid: "list_all wire_valid ?cs"
    by (simp add: example_cell_def example_versions_def CELL_COMMAND_IS_VAR_LENGTH_def CELL_VERSIONS_def
        cell_sizes)
  have r: "wire_incomplete [0, 5]" by (simp add: wire_incomplete_def cell_sizes)
  have n: "length (buf_bytes ?b) < int_max" using v l b by (simp add: int_max_def del: wire_encode.simps)
  show ?thesis
    using process_cells_from_inbuf_correct [OF i _ valid b r n, of "\<lambda>_. 2" "\<lambda>l c. l @ [c]" "[]"]
    by (auto simp del: wire_encode.simps)
qed

end
