(* ===== verification/Aes.thy ===== *)
theory Aes
  imports AesTables
begin

section \<open>AES and counter mode (src/innomitor/src/common/aes.c)\<close>

text \<open>
  The built-in AES: key schedule, the table-driven encryption of one block, and the counter-mode
  stream cipher on top of it that encrypts every relay cell.  The reference is FIPS 197: a state
  of four rows and four columns of bytes, SubBytes, ShiftRows, MixColumns, AddRoundKey and the
  key expansion of its section 5.2.  The C arrays of round keys are lists of the words written.
\<close>

definition GETU32 :: "byte list \<Rightarrow> u32" where
  "GETU32 p = push_bit 24 (ucast (p ! 0)) XOR push_bit 16 (ucast (p ! 1)) XOR
     push_bit 8 (ucast (p ! 2)) XOR ucast (p ! 3)"

definition PUTU32 :: "u32 \<Rightarrow> byte list" where
  "PUTU32 st = [ucast (drop_bit 24 st), ucast (drop_bit 16 st), ucast (drop_bit 8 st), ucast st]"

subsection \<open>Key schedule\<close>

text \<open>The substitution of a rotated word, and of a word, as the source spells them.\<close>

definition te4_rot :: "u32 \<Rightarrow> u32" where
  "te4_rot temp =
     (Te4 ! unat (drop_bit 16 temp AND 0xff) AND 0xff000000) XOR
     (Te4 ! unat (drop_bit 8 temp AND 0xff) AND 0x00ff0000) XOR
     (Te4 ! unat (temp AND 0xff) AND 0x0000ff00) XOR
     (Te4 ! unat (drop_bit 24 temp) AND 0x000000ff)"

definition te4_sub :: "u32 \<Rightarrow> u32" where
  "te4_sub temp =
     (Te4 ! unat (drop_bit 24 temp) AND 0xff000000) XOR
     (Te4 ! unat (drop_bit 16 temp AND 0xff) AND 0x00ff0000) XOR
     (Te4 ! unat (drop_bit 8 temp AND 0xff) AND 0x0000ff00) XOR
     (Te4 ! unat (temp AND 0xff) AND 0x000000ff)"

text \<open>One pass of each of the three loops.  The list holds the words written so far; the pointer
  \<^verbatim>\<open>rk\<close> of the source addresses the last 4, 6 or 8 of them.\<close>

definition key_step_128 :: "u32 list \<Rightarrow> nat \<Rightarrow> u32 list" where
  "key_step_128 ws i =
     (let rk = drop (length ws - 4) ws;
          rk4 = (rk ! 0) XOR te4_rot (rk ! 3) XOR (rcon ! i);
          rk5 = (rk ! 1) XOR rk4; rk6 = (rk ! 2) XOR rk5; rk7 = (rk ! 3) XOR rk6
      in ws @ [rk4, rk5, rk6, rk7])"

definition key_step_192 :: "u32 list \<Rightarrow> nat \<Rightarrow> u32 list" where
  "key_step_192 ws i =
     (let rk = drop (length ws - 6) ws;
          rk6 = (rk ! 0) XOR te4_rot (rk ! 5) XOR (rcon ! i);
          rk7 = (rk ! 1) XOR rk6; rk8 = (rk ! 2) XOR rk7; rk9 = (rk ! 3) XOR rk8;
          rk10 = (rk ! 4) XOR rk9; rk11 = (rk ! 5) XOR rk10
      in if i + 1 = 8 then ws @ [rk6, rk7, rk8, rk9]
         else ws @ [rk6, rk7, rk8, rk9, rk10, rk11])"

definition key_step_256 :: "u32 list \<Rightarrow> nat \<Rightarrow> u32 list" where
  "key_step_256 ws i =
     (let rk = drop (length ws - 8) ws;
          rk8 = (rk ! 0) XOR te4_rot (rk ! 7) XOR (rcon ! i);
          rk9 = (rk ! 1) XOR rk8; rk10 = (rk ! 2) XOR rk9; rk11 = (rk ! 3) XOR rk10;
          rk12 = (rk ! 4) XOR te4_sub rk11;
          rk13 = (rk ! 5) XOR rk12; rk14 = (rk ! 6) XOR rk13; rk15 = (rk ! 7) XOR rk14
      in if i + 1 = 7 then ws @ [rk8, rk9, rk10, rk11]
         else ws @ [rk8, rk9, rk10, rk11, rk12, rk13, rk14, rk15])"

definition rijndaelKeySetupEnc :: "byte list \<Rightarrow> nat \<Rightarrow> u32 list \<times> nat" where
  "rijndaelKeySetupEnc cipherKey keyBits =
     (let rk = map (\<lambda>j. GETU32 (drop (4 * j) cipherKey)) [0..<4] in
      if keyBits = 128 then (foldl key_step_128 rk [0..<10], 10)
      else let rk = rk @ map (\<lambda>j. GETU32 (drop (4 * j) cipherKey)) [4..<6] in
      if keyBits = 192 then (foldl key_step_192 rk [0..<8], 12)
      else let rk = rk @ map (\<lambda>j. GETU32 (drop (4 * j) cipherKey)) [6..<8] in
      if keyBits = 256 then (foldl key_step_256 rk [0..<7], 14)
      else (rk, 0))"

subsection \<open>Encrypting a block\<close>

type_synonym aes_words = "u32 \<times> u32 \<times> u32 \<times> u32"

definition te_col :: "u32 \<Rightarrow> u32 \<Rightarrow> u32 \<Rightarrow> u32 \<Rightarrow> u32 \<Rightarrow> u32" where
  "te_col a b c d k =
     Te0 ! unat (drop_bit 24 a) XOR Te1 ! unat (drop_bit 16 b AND 0xff) XOR
     Te2 ! unat (drop_bit 8 c AND 0xff) XOR Te3 ! unat (d AND 0xff) XOR k"

definition te_round :: "u32 list \<Rightarrow> aes_words \<Rightarrow> aes_words" where
  "te_round rk s = (case s of (s0, s1, s2, s3) \<Rightarrow>
     (te_col s0 s1 s2 s3 (rk ! 0), te_col s1 s2 s3 s0 (rk ! 1),
      te_col s2 s3 s0 s1 (rk ! 2), te_col s3 s0 s1 s2 (rk ! 3)))"

text \<open>The loop over pairs of rounds; \<open>r\<close> counts down to the break in the middle of a pass.\<close>

fun te_rounds :: "u32 list \<Rightarrow> nat \<Rightarrow> aes_words \<Rightarrow> (u32 list \<times> aes_words) res" where
  "te_rounds rk 0 s = Fault Mem_Fault"
| "te_rounds rk (Suc r) s =
     (let t = te_round (drop 4 rk) s; rk' = drop 8 rk in
      if r = 0 then OK (rk', t) else te_rounds rk' r (te_round rk' t))"

definition te_last :: "u32 \<Rightarrow> u32 \<Rightarrow> u32 \<Rightarrow> u32 \<Rightarrow> u32 \<Rightarrow> u32" where
  "te_last a b c d k =
     (Te4 ! unat (drop_bit 24 a) AND 0xff000000) XOR
     (Te4 ! unat (drop_bit 16 b AND 0xff) AND 0x00ff0000) XOR
     (Te4 ! unat (drop_bit 8 c AND 0xff) AND 0x0000ff00) XOR
     (Te4 ! unat (d AND 0xff) AND 0x000000ff) XOR k"

definition rijndaelEncrypt :: "u32 list \<Rightarrow> nat \<Rightarrow> u32 \<Rightarrow> u32 \<Rightarrow> u32 \<Rightarrow> u32 \<Rightarrow> byte list res" where
  "rijndaelEncrypt rk nr ctr3 ctr2 ctr1 ctr0 =
     rbind (te_rounds rk (nr div 2)
              (ctr3 XOR rk ! 0, ctr2 XOR rk ! 1, ctr1 XOR rk ! 2, ctr0 XOR rk ! 3))
       (\<lambda>(rk', t0, t1, t2, t3).
          OK (PUTU32 (te_last t0 t1 t2 t3 (rk' ! 0)) @ PUTU32 (te_last t1 t2 t3 t0 (rk' ! 1)) @
              PUTU32 (te_last t2 t3 t0 t1 (rk' ! 2)) @ PUTU32 (te_last t3 t0 t1 t2 (rk' ! 3))))"

subsection \<open>Counter mode\<close>

record aes_cnt_cipher =
  ac_rk :: "u32 list"
  ac_nr :: nat
  ac_counter3 :: u32
  ac_counter2 :: u32
  ac_counter1 :: u32
  ac_counter0 :: u32
  ac_buf :: "byte list"
  ac_pos :: nat

definition aes_fill_buf :: "aes_cnt_cipher \<Rightarrow> aes_cnt_cipher res" where
  "aes_fill_buf c = rbind (rijndaelEncrypt (ac_rk c) (ac_nr c) (ac_counter3 c) (ac_counter2 c)
       (ac_counter1 c) (ac_counter0 c)) (\<lambda>b. OK (c\<lparr>ac_buf := b\<rparr>))"

definition aes_new_cipher :: aes_cnt_cipher where
  "aes_new_cipher = \<lparr>ac_rk = [], ac_nr = 0, ac_counter3 = 0, ac_counter2 = 0, ac_counter1 = 0,
     ac_counter0 = 0, ac_buf = replicate 16 0, ac_pos = 0\<rparr>"

definition aes_set_key :: "aes_cnt_cipher \<Rightarrow> byte list \<Rightarrow> nat \<Rightarrow> aes_cnt_cipher res" where
  "aes_set_key c key key_bits =
     (let (rk, nr) = rijndaelKeySetupEnc key key_bits
      in aes_fill_buf (c\<lparr>ac_rk := rk, ac_nr := nr, ac_counter0 := 0, ac_counter1 := 0,
           ac_counter2 := 0, ac_counter3 := 0, ac_pos := 0\<rparr>))"

definition aes_set_iv :: "aes_cnt_cipher \<Rightarrow> byte list \<Rightarrow> aes_cnt_cipher res" where
  "aes_set_iv c iv = aes_fill_buf (c\<lparr>ac_counter3 := rd32 iv, ac_counter2 := rd32 (drop 4 iv),
     ac_counter1 := rd32 (drop 8 iv), ac_counter0 := rd32 (drop 12 iv), ac_pos := 0\<rparr>)"

text \<open>The carry from one counter word into the next.\<close>

definition aes_incr :: "aes_cnt_cipher \<Rightarrow> aes_cnt_cipher" where
  "aes_incr c =
     (let c0 = ac_counter0 c + 1; c = c\<lparr>ac_counter0 := c0\<rparr> in
      if c0 \<noteq> 0 then c
      else let c1 = ac_counter1 c + 1; c = c\<lparr>ac_counter1 := c1\<rparr> in
      if c1 \<noteq> 0 then c
      else let c2 = ac_counter2 c + 1; c = c\<lparr>ac_counter2 := c2\<rparr> in
      if c2 \<noteq> 0 then c else c\<lparr>ac_counter3 := ac_counter3 c + 1\<rparr>)"

text \<open>After a byte: the next position, and at the end of a block the next block.\<close>

definition aes_next :: "aes_cnt_cipher \<Rightarrow> aes_cnt_cipher res" where
  "aes_next c = (if ac_pos c + 1 = 16 then aes_fill_buf (aes_incr (c\<lparr>ac_pos := 0\<rparr>))
     else OK (c\<lparr>ac_pos := ac_pos c + 1\<rparr>))"

fun aes_stream :: "aes_cnt_cipher \<Rightarrow> byte list \<Rightarrow> (aes_cnt_cipher \<times> byte list) res" where
  "aes_stream c [] = OK (c, [])"
| "aes_stream c (x # xs) =
     (let y = x XOR ac_buf c ! ac_pos c in
      rbind (aes_next c) (\<lambda>c'. rbind (aes_stream c' xs) (\<lambda>(c'', ys). OK (c'', y # ys))))"

definition aes_crypt :: "aes_cnt_cipher \<Rightarrow> byte list \<Rightarrow> (aes_cnt_cipher \<times> byte list) res" where
  "aes_crypt c input = (if input = [] then OK (c, []) else aes_stream c input)"

definition aes_crypt_inplace :: "aes_cnt_cipher \<Rightarrow> byte list \<Rightarrow> (aes_cnt_cipher \<times> byte list) res" where
  "aes_crypt_inplace c data = (if data = [] then OK (c, []) else aes_stream c data)"

subsection \<open>FIPS 197\<close>

text \<open>A state is indexed by row and column.\<close>

type_synonym aes_state = "nat \<Rightarrow> nat \<Rightarrow> byte"

definition SubBytes :: "aes_state \<Rightarrow> aes_state" where
  "SubBytes S = (\<lambda>r c. sbox (S r c))"

definition ShiftRows :: "aes_state \<Rightarrow> aes_state" where
  "ShiftRows S = (\<lambda>r c. S r ((c + r) mod 4))"

definition MixColumns :: "aes_state \<Rightarrow> aes_state" where
  "MixColumns S = (\<lambda>r c. gmul (S r c) 2 XOR gmul (S ((r + 1) mod 4) c) 3 XOR
     S ((r + 2) mod 4) c XOR S ((r + 3) mod 4) c)"

definition AddRoundKey :: "(nat \<Rightarrow> u32) \<Rightarrow> nat \<Rightarrow> aes_state \<Rightarrow> aes_state" where
  "AddRoundKey w i S = (\<lambda>r c. S r c XOR be32 (w (4 * i + c)) ! r)"

fun CipherRounds :: "(nat \<Rightarrow> u32) \<Rightarrow> nat \<Rightarrow> aes_state \<Rightarrow> aes_state" where
  "CipherRounds w 0 S = AddRoundKey w 0 S"
| "CipherRounds w (Suc i) S = AddRoundKey w (Suc i) (MixColumns (ShiftRows (SubBytes (CipherRounds w i S))))"

definition Cipher :: "(nat \<Rightarrow> u32) \<Rightarrow> nat \<Rightarrow> aes_state \<Rightarrow> aes_state" where
  "Cipher w nr S = AddRoundKey w nr (ShiftRows (SubBytes (CipherRounds w (nr - 1) S)))"

definition SubWord :: "u32 \<Rightarrow> u32" where
  "SubWord w = rd32 (map sbox (be32 w))"

definition RotWord :: "u32 \<Rightarrow> u32" where
  "RotWord w = rd32 (rotate1 (be32 w))"

text \<open>
  The round constant of FIPS 197: the power \<open>i - 1\<close> of \<open>x\<close> in GF(2^8), followed by three zero bytes;
  and word \<open>j\<close> of the key, four of its bytes, most significant first.
\<close>

definition Rcon :: "nat \<Rightarrow> u32" where
  "Rcon i = rd32 [(xtime ^^ (i - 1)) 1, 0, 0, 0]"

definition key_words :: "byte list \<Rightarrow> nat \<Rightarrow> u32" where
  "key_words key j = rd32 (map (\<lambda>r. drop (4 * j) key ! r) [0..<4])"

function KeyExpansion :: "nat \<Rightarrow> (nat \<Rightarrow> u32) \<Rightarrow> nat \<Rightarrow> u32" where
  "KeyExpansion nk key i =
     (if nk = 0 \<or> i < nk then key i
      else let temp = KeyExpansion nk key (i - 1) in
           KeyExpansion nk key (i - nk) XOR
           (if i mod nk = 0 then SubWord (RotWord temp) XOR Rcon (i div nk)
            else if 6 < nk \<and> i mod nk = 4 then SubWord temp else temp))"
  by pat_completeness auto
termination by (relation "measure (\<lambda>(nk, key, i). i)") auto

declare KeyExpansion.simps [simp del]

subsection \<open>Words as four bytes\<close>

lemma be32_rd32: "be32 (rd32 [a, b, c, d]) = [a, b, c, d]"
  by (simp add: be32_def) (intro conjI bit_word_eqI; auto simp: bit_simps dest: bit_imp_le_length)

lemma rd32_be32_id: "rd32 (be32 w) = w"
  using rd32_be32 [of w "[]"] by simp

lemma be32_xor: "be32 (x XOR y) = map2 (XOR) (be32 x) (be32 y)"
  by (simp add: be32_def) (intro conjI bit_word_eqI; auto simp: bit_simps)

text \<open>The bytes of a word, most significant first.\<close>

definition wb0 :: "u32 \<Rightarrow> byte" where "wb0 w = ucast (drop_bit 24 w)"
definition wb1 :: "u32 \<Rightarrow> byte" where "wb1 w = ucast (drop_bit 16 w)"
definition wb2 :: "u32 \<Rightarrow> byte" where "wb2 w = ucast (drop_bit 8 w)"
definition wb3 :: "u32 \<Rightarrow> byte" where "wb3 w = ucast w"

lemmas wb_defs = wb0_def wb1_def wb2_def wb3_def

lemma be32_wb: "be32 w = [wb0 w, wb1 w, wb2 w, wb3 w]"
  by (simp add: be32_def wb_defs)

lemma wb_rd32 [simp]:
  "wb0 (rd32 [a, b, c, d]) = a" "wb1 (rd32 [a, b, c, d]) = b"
  "wb2 (rd32 [a, b, c, d]) = c" "wb3 (rd32 [a, b, c, d]) = d"
  using be32_rd32 [of a b c d] by (simp_all add: be32_wb del: rd32.simps)

lemma wb_xor [simp]:
  "wb0 (x XOR y) = wb0 x XOR wb0 y" "wb1 (x XOR y) = wb1 x XOR wb1 y"
  "wb2 (x XOR y) = wb2 x XOR wb2 y" "wb3 (x XOR y) = wb3 x XOR wb3 y"
  using be32_xor [of x y] by (simp_all add: be32_wb)

lemma wb_shift [simp]: "wb3 (drop_bit 16 w) = wb1 w" "wb3 (drop_bit 8 w) = wb2 w"
  by (simp_all add: wb_defs)

lemma byte_index:
  "unat (drop_bit 24 w) = unat (wb0 w)" "unat (w AND 0xff) = unat (wb3 w)" for w :: u32
proof -
  have u: "unat (ucast (x :: byte) :: u32) = unat x" for x
  proof -
    have "unat x < 2 ^ 32" by (rule order.strict_trans [OF unat_byte_lt]) simp
    then show ?thesis by (simp add: unsigned_ucast_eq take_bit_nat_eq_self)
  qed
  have "w AND 0xff = take_bit 8 w" by (simp add: take_bit_eq_mask mask_eq_exp_minus_1)
  also have "\<dots> = ucast (wb3 w)" by (rule bit_word_eqI) (auto simp: bit_simps wb3_def)
  finally show "unat (w AND 0xff) = unat (wb3 w)" by (simp add: u)
  have "drop_bit 24 w = ucast (wb0 w)"
    by (rule bit_word_eqI) (auto simp: bit_simps wb0_def dest: bit_imp_le_length)
  then show "unat (drop_bit 24 w) = unat (wb0 w)" by (simp add: u)
qed

lemma rd32_masks:
  "rd32 [a, b, c, d] AND 0xff000000 = rd32 [a, 0, 0, 0]"
  "rd32 [a, b, c, d] AND 0x00ff0000 = rd32 [0, b, 0, 0]"
  "rd32 [a, b, c, d] AND 0x0000ff00 = rd32 [0, 0, c, 0]"
  "rd32 [a, b, c, d] AND 0x000000ff = rd32 [0, 0, 0, d]"
proof -
  have k: "w AND 0xff000000 = w AND push_bit 24 (mask 8)" "w AND 0x00ff0000 = w AND push_bit 16 (mask 8)"
    "w AND 0x0000ff00 = w AND push_bit 8 (mask 8)" "w AND 0x000000ff = w AND mask 8" for w :: u32
    by (simp_all add: mask_eq_exp_minus_1)
  show "rd32 [a, b, c, d] AND 0xff000000 = rd32 [a, 0, 0, 0]"
    "rd32 [a, b, c, d] AND 0x00ff0000 = rd32 [0, b, 0, 0]"
    "rd32 [a, b, c, d] AND 0x0000ff00 = rd32 [0, 0, c, 0]"
    "rd32 [a, b, c, d] AND 0x000000ff = rd32 [0, 0, 0, d]"
    unfolding k by (rule bit_word_eqI, auto simp: bit_simps dest: bit_imp_le_length)+
qed

subsection \<open>One round\<close>

lemma te_col_bytes:
  "wb0 (te_col a b c d k) = xtime (sbox (wb0 a)) XOR (sbox (wb1 b) XOR xtime (sbox (wb1 b)))
     XOR sbox (wb2 c) XOR sbox (wb3 d) XOR wb0 k"
  "wb1 (te_col a b c d k) = sbox (wb0 a) XOR xtime (sbox (wb1 b))
     XOR (sbox (wb2 c) XOR xtime (sbox (wb2 c))) XOR sbox (wb3 d) XOR wb1 k"
  "wb2 (te_col a b c d k) = sbox (wb0 a) XOR sbox (wb1 b) XOR xtime (sbox (wb2 c))
     XOR (sbox (wb3 d) XOR xtime (sbox (wb3 d))) XOR wb2 k"
  "wb3 (te_col a b c d k) = (sbox (wb0 a) XOR xtime (sbox (wb0 a))) XOR sbox (wb1 b)
     XOR sbox (wb2 c) XOR xtime (sbox (wb3 d)) XOR wb3 k"
  by (simp_all add: te_col_def byte_index Te_nth del: rd32.simps)

lemma te_last_bytes:
  "wb0 (te_last a b c d k) = sbox (wb0 a) XOR wb0 k"
  "wb1 (te_last a b c d k) = sbox (wb1 b) XOR wb1 k"
  "wb2 (te_last a b c d k) = sbox (wb2 c) XOR wb2 k"
  "wb3 (te_last a b c d k) = sbox (wb3 d) XOR wb3 k"
  by (simp_all add: te_last_def byte_index Te_nth rd32_masks del: rd32.simps)

text \<open>The state four words stand for: each word is a column.\<close>

definition word_state :: "aes_words \<Rightarrow> aes_state" where
  "word_state s = (\<lambda>r c. be32 ([fst s, fst (snd s), fst (snd (snd s)), snd (snd (snd s))] ! c) ! r)"

definition aes_repr :: "aes_words \<Rightarrow> aes_state \<Rightarrow> bool" where
  "aes_repr s S \<longleftrightarrow> (\<forall>r<4. \<forall>c<4. S r c = word_state s r c)"

lemma four_cases: "(\<forall>r<4. P r) \<longleftrightarrow> P 0 \<and> P (Suc 0) \<and> P 2 \<and> P (3 :: nat)"
  by (simp add: numeral_eq_Suc All_less_Suc2)

lemma aes_repr_iff:
  "aes_repr (s0, s1, s2, s3) S \<longleftrightarrow>
    (S 0 0 = wb0 s0 \<and> S 0 (Suc 0) = wb0 s1 \<and> S 0 2 = wb0 s2 \<and> S 0 3 = wb0 s3) \<and>
    (S (Suc 0) 0 = wb1 s0 \<and> S (Suc 0) (Suc 0) = wb1 s1 \<and> S (Suc 0) 2 = wb1 s2 \<and> S (Suc 0) 3 = wb1 s3) \<and>
    (S 2 0 = wb2 s0 \<and> S 2 (Suc 0) = wb2 s1 \<and> S 2 2 = wb2 s2 \<and> S 2 3 = wb2 s3) \<and>
    S 3 0 = wb3 s0 \<and> S 3 (Suc 0) = wb3 s1 \<and> S 3 2 = wb3 s2 \<and> S 3 3 = wb3 s3"
  by (simp add: aes_repr_def four_cases word_state_def be32_wb)

lemmas xor_ac = xor.assoc xor.commute xor.left_commute

lemma ShiftRows_at:
  "ShiftRows S 0 c = S 0 (c mod 4)"
  "ShiftRows S (Suc 0) 0 = S (Suc 0) (Suc 0)" "ShiftRows S (Suc 0) (Suc 0) = S (Suc 0) 2"
  "ShiftRows S (Suc 0) 2 = S (Suc 0) 3" "ShiftRows S (Suc 0) 3 = S (Suc 0) 0"
  "ShiftRows S 2 0 = S 2 2" "ShiftRows S 2 (Suc 0) = S 2 3" "ShiftRows S 2 2 = S 2 0"
  "ShiftRows S 2 3 = S 2 (Suc 0)"
  "ShiftRows S 3 0 = S 3 3" "ShiftRows S 3 (Suc 0) = S 3 0" "ShiftRows S 3 2 = S 3 (Suc 0)"
  "ShiftRows S 3 3 = S 3 2"
  by (simp_all add: ShiftRows_def numeral_2_eq_2 [symmetric])

lemma MixColumns_at:
  "MixColumns S 0 c = xtime (S 0 c) XOR (S (Suc 0) c XOR xtime (S (Suc 0) c)) XOR S 2 c XOR S 3 c"
  "MixColumns S (Suc 0) c = xtime (S (Suc 0) c) XOR (S 2 c XOR xtime (S 2 c)) XOR S 3 c XOR S 0 c"
  "MixColumns S 2 c = xtime (S 2 c) XOR (S 3 c XOR xtime (S 3 c)) XOR S 0 c XOR S (Suc 0) c"
  "MixColumns S 3 c = xtime (S 3 c) XOR (S 0 c XOR xtime (S 0 c)) XOR S (Suc 0) c XOR S 2 c"
  by (simp_all add: MixColumns_def gmul_2_3 numeral_2_eq_2 [symmetric])

lemma AddRoundKey_at:
  "AddRoundKey w i S 0 c = S 0 c XOR wb0 (w (4 * i + c))"
  "AddRoundKey w i S (Suc 0) c = S (Suc 0) c XOR wb1 (w (4 * i + c))"
  "AddRoundKey w i S 2 c = S 2 c XOR wb2 (w (4 * i + c))"
  "AddRoundKey w i S 3 c = S 3 c XOR wb3 (w (4 * i + c))"
  by (simp_all add: AddRoundKey_def be32_wb)

lemma te_round_repr:
  assumes "aes_repr s S" and "\<forall>c<4. rk ! c = w (4 * i + c)"
  shows "aes_repr (te_round rk s) (AddRoundKey w i (MixColumns (ShiftRows (SubBytes S))))"
proof -
  obtain s0 s1 s2 s3 where s: "s = (s0, s1, s2, s3)" by (cases s) auto
  have k: "rk ! 0 = w (4 * i + 0)" "rk ! 1 = w (4 * i + Suc 0)" "rk ! 2 = w (4 * i + 2)"
    "rk ! 3 = w (4 * i + 3)"
    using assms(2) by (auto simp: four_cases)
  note S = assms(1) [unfolded s aes_repr_iff]
  show ?thesis
    unfolding s te_round_def prod.case aes_repr_iff k AddRoundKey_at MixColumns_at ShiftRows_at
      SubBytes_def te_col_bytes
    by (intro conjI; simp add: S xor_ac)
qed

subsection \<open>The block cipher\<close>

lemma te_rounds_repr:
  assumes "aes_repr s (CipherRounds w i S)" and "\<forall>j<8 * r + 4. rk ! j = w (4 * i + j)"
    and "8 * r + 4 \<le> length rk" and "0 < r"
  shows "\<exists>t. te_rounds rk r s = OK (drop (8 * r) rk, t) \<and> aes_repr t (CipherRounds w (i + 2 * r - 1) S)"
  using assms
proof (induction r arbitrary: rk s i)
  case (Suc r)
  have 1: "aes_repr (te_round (drop 4 rk) s) (CipherRounds w (Suc i) S)"
    unfolding CipherRounds.simps using Suc.prems(2,3)
    by (intro te_round_repr [OF Suc.prems(1)]) (auto simp: algebra_simps)
  show ?case
  proof (cases "r = 0")
    case True
    with 1 show ?thesis by (simp add: Let_def)
  next
    case False
    have k8: "\<forall>j<8 * r + 4. drop 8 rk ! j = w (4 * (Suc (Suc i)) + j)"
      using Suc.prems(2,3) by (auto simp: algebra_simps)
    then have "\<forall>c<4. drop 8 rk ! c = w (4 * (Suc (Suc i)) + c)" by auto
    then have 2: "aes_repr (te_round (drop 8 rk) (te_round (drop 4 rk) s)) (CipherRounds w (Suc (Suc i)) S)"
      unfolding CipherRounds.simps(2) [of w "Suc i"] by (rule te_round_repr [OF 1])
    from Suc.IH [OF 2 k8] Suc.prems(3) False show ?thesis
      by (auto simp: Let_def add.commute)
  qed
qed simp

lemma aes_repr_word_state [simp]: "aes_repr s (word_state s)"
  by (simp add: aes_repr_def)

lemma aes_repr_first:
  assumes "\<forall>c<4. rk ! c = w c"
  shows "aes_repr (c3 XOR rk ! 0, c2 XOR rk ! 1, c1 XOR rk ! 2, c0 XOR rk ! 3)
           (AddRoundKey w 0 (word_state (c3, c2, c1, c0)))"
  using assms unfolding aes_repr_iff AddRoundKey_at four_cases
  by (simp add: word_state_def be32_wb numeral_2_eq_2 [symmetric])

lemma PUTU32_wb: "PUTU32 w = [wb0 w, wb1 w, wb2 w, wb3 w]"
  by (simp add: PUTU32_def wb_defs)

lemma rijndaelEncrypt_fips:
  assumes "even nr" and "0 < nr" and "length rk = 4 * (nr + 1)"
  shows "\<exists>ct. rijndaelEncrypt rk nr c3 c2 c1 c0 = OK ct \<and> length ct = 16 \<and>
    (\<forall>r<4. \<forall>c<4. ct ! (r + 4 * c) = Cipher ((!) rk) nr (word_state (c3, c2, c1, c0)) r c)"
proof -
  obtain h where h: "nr = 2 * h" using assms(1) by blast
  let ?S = "word_state (c3, c2, c1, c0)"
  have first: "aes_repr (c3 XOR rk ! 0, c2 XOR rk ! 1, c1 XOR rk ! 2, c0 XOR rk ! 3)
      (CipherRounds ((!) rk) 0 ?S)"
    unfolding CipherRounds.simps by (rule aes_repr_first) simp
  from te_rounds_repr [OF first, of h rk] assms h obtain t where
    t: "te_rounds rk h (c3 XOR rk ! 0, c2 XOR rk ! 1, c1 XOR rk ! 2, c0 XOR rk ! 3) =
          OK (drop (8 * h) rk, t)" "aes_repr t (CipherRounds ((!) rk) (nr - 1) ?S)"
    by auto
  obtain t0 t1 t2 t3 where tt: "t = (t0, t1, t2, t3)" by (cases t) auto
  define R where "R = CipherRounds ((!) rk) (nr - 1) ?S"
  note Rt = t(2) [folded R_def, unfolded tt aes_repr_iff]
  have k: "drop (8 * h) rk ! c = rk ! (4 * nr + c)" if "c < 4" for c
    using that assms(3) h by (simp add: add.commute)
  define ct where "ct = PUTU32 (te_last t0 t1 t2 t3 (rk ! (4 * nr + 0))) @
    PUTU32 (te_last t1 t2 t3 t0 (rk ! (4 * nr + 1))) @ PUTU32 (te_last t2 t3 t0 t1 (rk ! (4 * nr + 2))) @
    PUTU32 (te_last t3 t0 t1 t2 (rk ! (4 * nr + 3)))"
  have "\<forall>r<4. \<forall>c<4. ct ! (r + 4 * c) = Cipher ((!) rk) nr ?S r c"
    unfolding four_cases Cipher_def R_def [symmetric] AddRoundKey_at ShiftRows_at SubBytes_def ct_def
    by (simp add: PUTU32_wb te_last_bytes Rt)
  moreover have "rijndaelEncrypt rk nr c3 c2 c1 c0 = OK ct"
  proof -
    have "nr div 2 = h" using h by simp
    then show ?thesis
      by (simp only: rijndaelEncrypt_def t(1) tt rbind.simps prod.case ct_def) (simp add: k)
  qed
  moreover have "length ct = 16" by (simp add: ct_def PUTU32_wb)
  ultimately show ?thesis by blast
qed

subsection \<open>The key schedule\<close>

lemma word_eq_bytes:
  "x = y \<longleftrightarrow> wb0 x = wb0 y \<and> wb1 x = wb1 y \<and> wb2 x = wb2 y \<and> wb3 x = wb3 y"
  by (metis be32_wb rd32_be32_id)

lemma te4_rot_eq: "te4_rot w = SubWord (RotWord w)"
  unfolding word_eq_bytes SubWord_def RotWord_def
  by (simp add: te4_rot_def byte_index Te_nth rd32_masks be32_wb del: rd32.simps)

lemma te4_sub_eq: "te4_sub w = SubWord w"
  unfolding word_eq_bytes SubWord_def
  by (simp add: te4_sub_def byte_index Te_nth rd32_masks be32_wb del: rd32.simps)

lemma drop_map_upt_nth:
  "k \<le> n \<Longrightarrow> j < k \<Longrightarrow> drop (length (map f [0..<n]) - k) (map f [0..<n]) ! j = f (n - k + j)"
  by simp

lemma KeyExpansion_step:
  assumes "0 < nk" and "nk \<le> i"
  shows "KeyExpansion nk key i = KeyExpansion nk key (i - nk) XOR
     (if i mod nk = 0 then te4_rot (KeyExpansion nk key (i - 1)) XOR Rcon (i div nk)
      else if 6 < nk \<and> i mod nk = 4 then te4_sub (KeyExpansion nk key (i - 1))
      else KeyExpansion nk key (i - 1))"
  using assms by (subst KeyExpansion.simps) (simp add: Let_def te4_rot_eq te4_sub_eq)

text \<open>The first word of a group of \<open>nk\<close>, and the ones after it.\<close>

lemma KeyExpansion_group:
  assumes "0 < nk"
  shows "KeyExpansion nk key (nk * Suc i) =
      KeyExpansion nk key (nk * i) XOR te4_rot (KeyExpansion nk key (nk * i + (nk - 1))) XOR Rcon (Suc i)"
    and "0 < j \<Longrightarrow> j < nk \<Longrightarrow> \<not> (6 < nk \<and> j = 4) \<Longrightarrow>
      KeyExpansion nk key (nk * Suc i + j) =
      KeyExpansion nk key (nk * i + j) XOR KeyExpansion nk key (nk * Suc i + (j - 1))"
    and "6 < nk \<Longrightarrow> KeyExpansion nk key (nk * Suc i + 4) =
      KeyExpansion nk key (nk * i + 4) XOR te4_sub (KeyExpansion nk key (nk * Suc i + 3))"
proof -
  have a: "nk * Suc i - 1 = nk * i + (nk - 1)" using assms by (cases nk) auto
  have b: "nk * Suc i - nk = nk * i" by simp
  show "KeyExpansion nk key (nk * Suc i) =
      KeyExpansion nk key (nk * i) XOR te4_rot (KeyExpansion nk key (nk * i + (nk - 1))) XOR Rcon (Suc i)"
    by (subst KeyExpansion_step [OF assms]) (use assms in \<open>simp_all only: a b, simp_all\<close>)
  {
    fix j assume j: "0 < j" "j < nk"
    have m: "(nk * Suc i + j) mod nk = j" using j by (simp add: add.assoc)
    have c: "nk * Suc i + j - nk = nk * i + j" "nk * Suc i + j - 1 = nk * Suc i + (j - 1)" using j by simp_all
    have "KeyExpansion nk key (nk * Suc i + j) = KeyExpansion nk key (nk * i + j) XOR
      (if 6 < nk \<and> j = 4 then te4_sub (KeyExpansion nk key (nk * Suc i + (j - 1)))
       else KeyExpansion nk key (nk * Suc i + (j - 1)))"
      using j by (subst KeyExpansion_step [OF assms]) (simp_all only: m c, simp_all)
  } note step = this
  show "0 < j \<Longrightarrow> j < nk \<Longrightarrow> \<not> (6 < nk \<and> j = 4) \<Longrightarrow>
      KeyExpansion nk key (nk * Suc i + j) =
      KeyExpansion nk key (nk * i + j) XOR KeyExpansion nk key (nk * Suc i + (j - 1))"
    using step [of j] by presburger
  show "6 < nk \<Longrightarrow> KeyExpansion nk key (nk * Suc i + 4) =
      KeyExpansion nk key (nk * i + 4) XOR te4_sub (KeyExpansion nk key (nk * Suc i + 3))"
    using step [of 4] by simp
qed

lemma map_upt_add: "map f [0..<n + k] = map f [0..<n] @ map (\<lambda>j. f (n + j)) [0..<k]"
  by (induction k) auto

lemma upt_small:
  "[0..<4] = [0, 1, 2, 3 :: nat]" "[0..<6] = [0, 1, 2, 3, 4, 5 :: nat]"
  "[0..<8] = [0, 1, 2, 3, 4, 5, 6, 7 :: nat]"
  by (simp_all add: upt_rec)

text \<open>The table of the source against the round constants, and its word reader against \<^const>\<open>rd32\<close>.\<close>

lemma rcon_Rcon: "rcon = map (\<lambda>i. Rcon (Suc i)) [0..<10]"
  by code_simp

lemma rcon_nth: "i < 10 \<Longrightarrow> rcon ! i = Rcon (Suc i)"
  by (simp add: rcon_Rcon)

lemma GETU32_key_words: "GETU32 (drop (4 * j) key) = key_words key j"
  by (simp add: GETU32_def key_words_def upt_small) (intro bit_word_eqI; auto simp: bit_simps dest: bit_imp_le_length)

lemma key_step_128_ok:
  fixes key :: "nat \<Rightarrow> u32"
  assumes "i < 10"
  defines "K \<equiv> KeyExpansion 4 key"
  shows "key_step_128 (map K [0..<4 * Suc i]) i = map K [0..<4 * Suc (Suc i)]"
proof -
  define rk where "rk = drop (length (map K [0..<4 * Suc i]) - 4) (map K [0..<4 * Suc i])"
  have rk: "rk ! j = K (4 * i + j)" if "j < 4" for j
    using drop_map_upt_nth [of 4 "4 * Suc i" j K] that by (simp add: rk_def)
  have g: "K (4 * Suc i) = K (4 * i) XOR te4_rot (K (4 * i + 3)) XOR rcon ! i"
    "K (4 * Suc i + 1) = K (4 * i + 1) XOR K (4 * Suc i)"
    "K (4 * Suc i + 2) = K (4 * i + 2) XOR K (4 * Suc i + 1)"
    "K (4 * Suc i + 3) = K (4 * i + 3) XOR K (4 * Suc i + 2)"
    using KeyExpansion_group(1) [of 4 key i] KeyExpansion_group(2) [of 4 1 key i]
      KeyExpansion_group(2) [of 4 2 key i] KeyExpansion_group(2) [of 4 3 key i]
    by (simp_all add: K_def rcon_nth assms(1))
  have "key_step_128 (map K [0..<4 * Suc i]) i = map K [0..<4 * Suc i] @
      [K (4 * Suc i), K (4 * Suc i + 1), K (4 * Suc i + 2), K (4 * Suc i + 3)]"
    unfolding key_step_128_def rk_def [symmetric] Let_def by (simp only: rk g) (simp add: rk)
  also have "\<dots> = map K [0..<4 * Suc i + 4]" by (simp only: map_upt_add upt_small) simp
  finally show ?thesis by simp
qed

lemma key_step_192_ok:
  fixes key :: "nat \<Rightarrow> u32"
  assumes "i < 10"
  defines "K \<equiv> KeyExpansion 6 key"
  shows "key_step_192 (map K [0..<6 * Suc i]) i =
    map K [0..<6 * Suc i + (if i + 1 = 8 then 4 else 6)]"
proof -
  define rk where "rk = drop (length (map K [0..<6 * Suc i]) - 6) (map K [0..<6 * Suc i])"
  have rk: "rk ! j = K (6 * i + j)" if "j < 6" for j
    using drop_map_upt_nth [of 6 "6 * Suc i" j K] that by (simp add: rk_def)
  have g: "K (6 * Suc i) = K (6 * i) XOR te4_rot (K (6 * i + 5)) XOR rcon ! i"
    "K (6 * Suc i + 1) = K (6 * i + 1) XOR K (6 * Suc i)"
    "K (6 * Suc i + 2) = K (6 * i + 2) XOR K (6 * Suc i + 1)"
    "K (6 * Suc i + 3) = K (6 * i + 3) XOR K (6 * Suc i + 2)"
    "K (6 * Suc i + 4) = K (6 * i + 4) XOR K (6 * Suc i + 3)"
    "K (6 * Suc i + 5) = K (6 * i + 5) XOR K (6 * Suc i + 4)"
    using KeyExpansion_group(1) [of 6 key i] KeyExpansion_group(2) [of 6 1 key i]
      KeyExpansion_group(2) [of 6 2 key i] KeyExpansion_group(2) [of 6 3 key i]
      KeyExpansion_group(2) [of 6 4 key i] KeyExpansion_group(2) [of 6 5 key i]
    by (simp_all add: K_def rcon_nth assms(1))
  have "key_step_192 (map K [0..<6 * Suc i]) i = map K [0..<6 * Suc i] @
      (if i + 1 = 8 then [K (6 * Suc i), K (6 * Suc i + 1), K (6 * Suc i + 2), K (6 * Suc i + 3)]
       else [K (6 * Suc i), K (6 * Suc i + 1), K (6 * Suc i + 2), K (6 * Suc i + 3), K (6 * Suc i + 4),
             K (6 * Suc i + 5)])"
    unfolding key_step_192_def rk_def [symmetric] Let_def by (simp only: rk g) (simp add: rk)
  also have "\<dots> = map K [0..<6 * Suc i + (if i + 1 = 8 then 4 else 6)]"
    by (simp only: map_upt_add upt_small split: if_split) simp
  finally show ?thesis .
qed

lemma key_step_256_ok:
  fixes key :: "nat \<Rightarrow> u32"
  assumes "i < 10"
  defines "K \<equiv> KeyExpansion 8 key"
  shows "key_step_256 (map K [0..<8 * Suc i]) i =
    map K [0..<8 * Suc i + (if i + 1 = 7 then 4 else 8)]"
proof -
  define rk where "rk = drop (length (map K [0..<8 * Suc i]) - 8) (map K [0..<8 * Suc i])"
  have rk: "rk ! j = K (8 * i + j)" if "j < 8" for j
    using drop_map_upt_nth [of 8 "8 * Suc i" j K] that by (simp add: rk_def)
  have g: "K (8 * Suc i) = K (8 * i) XOR te4_rot (K (8 * i + 7)) XOR rcon ! i"
    "K (8 * Suc i + 1) = K (8 * i + 1) XOR K (8 * Suc i)"
    "K (8 * Suc i + 2) = K (8 * i + 2) XOR K (8 * Suc i + 1)"
    "K (8 * Suc i + 3) = K (8 * i + 3) XOR K (8 * Suc i + 2)"
    "K (8 * Suc i + 4) = K (8 * i + 4) XOR te4_sub (K (8 * Suc i + 3))"
    "K (8 * Suc i + 5) = K (8 * i + 5) XOR K (8 * Suc i + 4)"
    "K (8 * Suc i + 6) = K (8 * i + 6) XOR K (8 * Suc i + 5)"
    "K (8 * Suc i + 7) = K (8 * i + 7) XOR K (8 * Suc i + 6)"
    using KeyExpansion_group(1) [of 8 key i] KeyExpansion_group(2) [of 8 1 key i]
      KeyExpansion_group(2) [of 8 2 key i] KeyExpansion_group(2) [of 8 3 key i]
      KeyExpansion_group(3) [of 8 key i] KeyExpansion_group(2) [of 8 5 key i]
      KeyExpansion_group(2) [of 8 6 key i] KeyExpansion_group(2) [of 8 7 key i]
    by (simp_all add: K_def rcon_nth assms(1))
  have "key_step_256 (map K [0..<8 * Suc i]) i = map K [0..<8 * Suc i] @
      (if i + 1 = 7 then [K (8 * Suc i), K (8 * Suc i + 1), K (8 * Suc i + 2), K (8 * Suc i + 3)]
       else [K (8 * Suc i), K (8 * Suc i + 1), K (8 * Suc i + 2), K (8 * Suc i + 3), K (8 * Suc i + 4),
             K (8 * Suc i + 5), K (8 * Suc i + 6), K (8 * Suc i + 7)])"
    unfolding key_step_256_def rk_def [symmetric] Let_def by (simp only: rk g) (simp add: rk)
  also have "\<dots> = map K [0..<8 * Suc i + (if i + 1 = 7 then 4 else 8)]"
    by (simp only: map_upt_add upt_small split: if_split) simp
  finally show ?thesis .
qed

lemma foldl_key_steps:
  assumes "\<And>i. i < m \<Longrightarrow> f (map K [0..<nk * Suc i]) i = map K [0..<nk * Suc (Suc i)]"
  shows "foldl f (map K [0..<nk]) [0..<m] = map K [0..<nk * Suc m]"
  using assms by (induction m) simp_all

lemma KeyExpansion_base: "map (KeyExpansion nk key) [0..<nk] = map key [0..<nk]"
  by (simp add: KeyExpansion.simps)

lemma key_setup_fips:
  "rijndaelKeySetupEnc key 128 = (map (KeyExpansion 4 (key_words key)) [0..<44], 10) \<and>
   rijndaelKeySetupEnc key 192 = (map (KeyExpansion 6 (key_words key)) [0..<52], 12) \<and>
   rijndaelKeySetupEnc key 256 = (map (KeyExpansion 8 (key_words key)) [0..<60], 14)"
proof (intro conjI)
  let ?k = "key_words key"
  have f4: "foldl key_step_128 (map (KeyExpansion 4 ?k) [0..<4]) [0..<10] = map (KeyExpansion 4 ?k) [0..<44]"
    using foldl_key_steps [of 10 key_step_128 "KeyExpansion 4 ?k" 4] key_step_128_ok by simp
  have s6: "key_step_192 (map (KeyExpansion 6 ?k) [0..<6 * Suc i]) i = map (KeyExpansion 6 ?k) [0..<6 * Suc (Suc i)]"
    if "i < 7" for i using key_step_192_ok [of i ?k] that by (simp add: add.commute)
  have f6: "foldl key_step_192 (map (KeyExpansion 6 ?k) [0..<6]) [0..<8] = map (KeyExpansion 6 ?k) [0..<52]"
  proof -
    have "[0..<8] = [0..<7] @ [7 :: nat]" by (simp add: upt_rec)
    then have "foldl key_step_192 (map (KeyExpansion 6 ?k) [0..<6]) [0..<8] =
        key_step_192 (map (KeyExpansion 6 ?k) [0..<6 * Suc 7]) 7"
      using foldl_key_steps [of 7 key_step_192 "KeyExpansion 6 ?k" 6] s6 by simp
    then show ?thesis using key_step_192_ok [of 7 ?k] by simp
  qed
  have s8: "key_step_256 (map (KeyExpansion 8 ?k) [0..<8 * Suc i]) i = map (KeyExpansion 8 ?k) [0..<8 * Suc (Suc i)]"
    if "i < 6" for i using key_step_256_ok [of i ?k] that by (simp add: add.commute)
  have f8: "foldl key_step_256 (map (KeyExpansion 8 ?k) [0..<8]) [0..<7] = map (KeyExpansion 8 ?k) [0..<60]"
  proof -
    have "[0..<7] = [0..<6] @ [6 :: nat]" by (simp add: upt_rec)
    then have "foldl key_step_256 (map (KeyExpansion 8 ?k) [0..<8]) [0..<7] =
        key_step_256 (map (KeyExpansion 8 ?k) [0..<8 * Suc 6]) 6"
      using foldl_key_steps [of 6 key_step_256 "KeyExpansion 8 ?k" 8] s8 by simp
    then show ?thesis using key_step_256_ok [of 6 ?k] by simp
  qed
  have w: "(\<lambda>j. GETU32 (drop (4 * j) key)) = ?k" by (simp add: fun_eq_iff GETU32_key_words)
  have u: "map ?k [0..<4] @ [?k 4, ?k 5] = map ?k [0..<6]"
    "map ?k [0..<4] @ [?k 4, ?k 5, ?k 6, ?k 7] = map ?k [0..<8]"
    using upt_add_eq_append [of 0 4 2] upt_add_eq_append [of 0 6 2] by simp_all
  show "rijndaelKeySetupEnc key 128 = (map (KeyExpansion 4 ?k) [0..<44], 10)"
    using f4 by (simp add: rijndaelKeySetupEnc_def w KeyExpansion_base)
  show "rijndaelKeySetupEnc key 192 = (map (KeyExpansion 6 ?k) [0..<52], 12)"
    using f6 by (simp add: rijndaelKeySetupEnc_def w u KeyExpansion_base Let_def)
  show "rijndaelKeySetupEnc key 256 = (map (KeyExpansion 8 ?k) [0..<60], 14)"
    using f8 by (simp add: rijndaelKeySetupEnc_def w u KeyExpansion_base Let_def)
qed

text \<open>
  C31: the key schedule of the built-in AES is the key expansion of FIPS 197 for all three key
  sizes: 44, 52 and 60 round-key words and 10, 12 and 14 rounds.  The reference has its own round
  constants, powers of \<open>x\<close> in GF(2^8), its own reading of the key and the S-box of FIPS 197; none of
  the tables of the source occurs in it.
\<close>

theorem rijndaelKeySetupEnc_fips:
  "rijndaelKeySetupEnc key 128 = (map (KeyExpansion 4 (key_words key)) [0..<44], 10) \<and>
   rijndaelKeySetupEnc key 192 = (map (KeyExpansion 6 (key_words key)) [0..<52], 12) \<and>
   rijndaelKeySetupEnc key 256 = (map (KeyExpansion 8 (key_words key)) [0..<60], 14)"
  by (rule key_setup_fips)

text \<open>
  C32: the table-driven encryption of a block is the Cipher of FIPS 197 (SubBytes, ShiftRows,
  MixColumns and AddRoundKey on a four-by-four state), for every even number of rounds and every
  key schedule of the right length; it never indexes outside its tables or round keys.
\<close>

theorem rijndaelEncrypt_correct:
  assumes "even nr" and "0 < nr" and "length rk = 4 * (nr + 1)"
  shows "\<exists>ct. rijndaelEncrypt rk nr c3 c2 c1 c0 = OK ct \<and> length ct = 16 \<and>
    (\<forall>r<4. \<forall>c<4. ct ! (r + 4 * c) = Cipher ((!) rk) nr (word_state (c3, c2, c1, c0)) r c)"
  using assms by (rule rijndaelEncrypt_fips)

theorem rijndaelEncrypt_correct_witness:
  "\<exists>ct. rijndaelEncrypt (replicate 44 0) 10 1 2 3 4 = OK ct \<and> length ct = 16 \<and>
     ct ! 0 = Cipher ((!) (replicate 44 0)) 10 (word_state (1, 2, 3, 4)) 0 0"
proof -
  have "length (replicate 44 (0 :: u32)) = 4 * (10 + 1)" by simp
  from rijndaelEncrypt_correct [OF _ _ this, of 1 2 3 4] show ?thesis by fastforce
qed

subsection \<open>Counter mode\<close>

text \<open>The value of the 128-bit counter, and the position in the key stream.\<close>

definition ctr_val :: "aes_cnt_cipher \<Rightarrow> nat" where
  "ctr_val c = unat (ac_counter3 c) * 2 ^ 96 + unat (ac_counter2 c) * 2 ^ 64 +
     unat (ac_counter1 c) * 2 ^ 32 + unat (ac_counter0 c)"

definition stream_pos :: "aes_cnt_cipher \<Rightarrow> nat" where
  "stream_pos c = 16 * ctr_val c + ac_pos c"

text \<open>The block for a counter value, and the key stream: block after block.\<close>

definition aes_block :: "u32 list \<Rightarrow> nat \<Rightarrow> nat \<Rightarrow> byte list res" where
  "aes_block rk nr v = rijndaelEncrypt rk nr (of_nat (v div 2 ^ 96)) (of_nat (v div 2 ^ 64))
     (of_nat (v div 2 ^ 32)) (of_nat v)"

definition keystream :: "u32 list \<Rightarrow> nat \<Rightarrow> nat \<Rightarrow> byte" where
  "keystream rk nr p = (case aes_block rk nr (p div 16) of OK b \<Rightarrow> b ! (p mod 16) | Fault _ \<Rightarrow> 0)"

definition aes_ok :: "aes_cnt_cipher \<Rightarrow> bool" where
  "aes_ok c \<longleftrightarrow> even (ac_nr c) \<and> 0 < ac_nr c \<and> length (ac_rk c) = 4 * (ac_nr c + 1) \<and>
     ac_pos c < 16 \<and> aes_block (ac_rk c) (ac_nr c) (ctr_val c) = OK (ac_buf c)"

lemma unat_u32_lt: "unat (w :: u32) < 4294967296"
  using unsigned_less [of w] by simp

lemma ctr_val_lt: "ctr_val c < 2 ^ 128"
  using unat_u32_lt [of "ac_counter3 c"] unat_u32_lt [of "ac_counter2 c"]
    unat_u32_lt [of "ac_counter1 c"] unat_u32_lt [of "ac_counter0 c"]
  by (simp add: ctr_val_def)

lemma unat_plus_one:
  "w + 1 = 0 \<Longrightarrow> unat (w :: u32) = 4294967295" "w + 1 \<noteq> 0 \<Longrightarrow> unat (w + 1 :: u32) = unat w + 1"
proof -
  assume "w + 1 = 0"
  then have "w = - 1" by (simp add: eq_neg_iff_add_eq_0)
  then show "unat w = 4294967295" by (simp add: unsigned_minus_1_eq_mask mask_eq_exp_minus_1)
next
  assume "w + 1 \<noteq> 0"
  then show "unat (w + 1) = unat w + 1" using unatSuc [of w] by (simp add: add.commute)
qed

lemma aes_incr_val: "ctr_val (aes_incr c) = (ctr_val c + 1) mod 2 ^ 128"
proof -
  note lt = ctr_val_lt [of "aes_incr c"] unat_u32_lt [of "ac_counter3 c"] unat_u32_lt [of "ac_counter2 c"]
    unat_u32_lt [of "ac_counter1 c"] unat_u32_lt [of "ac_counter0 c"]
  consider (a) "ac_counter0 c + 1 \<noteq> 0" | (b) "ac_counter0 c + 1 = 0" "ac_counter1 c + 1 \<noteq> 0"
    | (c) "ac_counter0 c + 1 = 0" "ac_counter1 c + 1 = 0" "ac_counter2 c + 1 \<noteq> 0"
    | (d) "ac_counter0 c + 1 = 0" "ac_counter1 c + 1 = 0" "ac_counter2 c + 1 = 0" "ac_counter3 c + 1 \<noteq> 0"
    | (e) "ac_counter0 c + 1 = 0" "ac_counter1 c + 1 = 0" "ac_counter2 c + 1 = 0" "ac_counter3 c + 1 = 0"
    by blast
  then show ?thesis
  proof cases
    case a
    with lt unat_plus_one(2) [OF a] show ?thesis by (simp add: aes_incr_def ctr_val_def Let_def)
  next
    case b
    with lt unat_plus_one(1) [OF b(1)] unat_plus_one(2) [OF b(2)] show ?thesis
      by (simp add: aes_incr_def ctr_val_def Let_def)
  next
    case c
    with lt unat_plus_one(1) [OF c(1)] unat_plus_one(1) [OF c(2)] unat_plus_one(2) [OF c(3)] show ?thesis
      by (simp add: aes_incr_def ctr_val_def Let_def)
  next
    case d
    with lt unat_plus_one(1) [OF d(1)] unat_plus_one(1) [OF d(2)] unat_plus_one(1) [OF d(3)]
      unat_plus_one(2) [OF d(4)] show ?thesis
      by (simp add: aes_incr_def ctr_val_def Let_def)
  next
    case e
    with lt unat_plus_one(1) [OF e(1)] unat_plus_one(1) [OF e(2)] unat_plus_one(1) [OF e(3)]
      unat_plus_one(1) [OF e(4)] show ?thesis
      by (simp add: aes_incr_def ctr_val_def Let_def)
  qed
qed

lemma aes_incr_sel [simp]:
  "ac_rk (aes_incr c) = ac_rk c" "ac_nr (aes_incr c) = ac_nr c" "ac_pos (aes_incr c) = ac_pos c"
  by (simp_all add: aes_incr_def Let_def)

lemma of_nat_u32_low: "(of_nat (x * 4294967296 + unat w) :: u32) = w"
  by (rule word_unat_eq_iff [THEN iffD2]) (simp only: unat_of_nat take_bit_eq_mod, use unat_u32_lt [of w] in simp)

lemma aes_block_ctr:
  "aes_block rk nr (ctr_val c) = rijndaelEncrypt rk nr (ac_counter3 c) (ac_counter2 c) (ac_counter1 c)
     (ac_counter0 c)"
proof -
  note lt = unat_u32_lt [of "ac_counter3 c"] unat_u32_lt [of "ac_counter2 c"]
    unat_u32_lt [of "ac_counter1 c"] unat_u32_lt [of "ac_counter0 c"]
  have "ctr_val c div 2 ^ 96 = unat (ac_counter3 c)"
    by (rule div_nat_eqI) (use lt in \<open>simp_all add: ctr_val_def\<close>)
  then have 3: "(of_nat (ctr_val c div 2 ^ 96) :: u32) = ac_counter3 c" by simp
  have "ctr_val c div 2 ^ 64 = unat (ac_counter3 c) * 4294967296 + unat (ac_counter2 c)"
    by (rule div_nat_eqI) (use lt in \<open>simp_all add: ctr_val_def\<close>)
  then have 2: "(of_nat (ctr_val c div 2 ^ 64) :: u32) = ac_counter2 c"
    by (simp only: of_nat_u32_low)
  have "ctr_val c div 2 ^ 32 =
      (unat (ac_counter3 c) * 4294967296 + unat (ac_counter2 c)) * 4294967296 + unat (ac_counter1 c)"
    by (rule div_nat_eqI) (use lt in \<open>simp_all add: ctr_val_def\<close>)
  then have 1: "(of_nat (ctr_val c div 2 ^ 32) :: u32) = ac_counter1 c"
    by (simp only: of_nat_u32_low)
  have "ctr_val c = ((unat (ac_counter3 c) * 4294967296 + unat (ac_counter2 c)) * 4294967296 +
      unat (ac_counter1 c)) * 4294967296 + unat (ac_counter0 c)"
    by (simp add: ctr_val_def)
  then have 0: "(of_nat (ctr_val c) :: u32) = ac_counter0 c"
    by (simp only: of_nat_u32_low)
  from 3 2 1 0 show ?thesis by (simp add: aes_block_def)
qed

lemma aes_block_period: "aes_block rk nr (v mod 2 ^ 128) = aes_block rk nr v"
proof -
  have "(of_nat (v mod 2 ^ 128 div 2 ^ n) :: u32) = of_nat (v div 2 ^ n)" if "n \<le> 96" for n
  proof -
    have "v mod 2 ^ 128 div 2 ^ n = v div 2 ^ n mod 2 ^ (128 - n)"
      using drop_bit_take_bit [of n 128 v] by (simp only: drop_bit_eq_div take_bit_eq_mod)
    moreover have "(v div 2 ^ n mod 2 ^ (128 - n)) mod 2 ^ 32 = v div 2 ^ n mod 2 ^ 32"
    proof -
      have "min 32 (128 - n) = 32" using that by simp
      then show ?thesis
        using take_bit_take_bit [of 32 "128 - n" "v div 2 ^ n"] by (simp only: take_bit_eq_mod)
    qed
    ultimately show ?thesis by (simp add: word_unat_eq_iff unat_of_nat take_bit_eq_mod)
  qed
  from this [of 96] this [of 64] this [of 32] this [of 0] show ?thesis by (simp add: aes_block_def)
qed

lemma aes_fill_buf_ok:
  assumes "even (ac_nr c)" and "0 < ac_nr c" and "length (ac_rk c) = 4 * (ac_nr c + 1)"
    and "ac_pos c < 16"
  shows "\<exists>b. aes_fill_buf c = OK (c\<lparr>ac_buf := b\<rparr>) \<and> aes_ok (c\<lparr>ac_buf := b\<rparr>)"
proof -
  obtain b where b: "rijndaelEncrypt (ac_rk c) (ac_nr c) (ac_counter3 c) (ac_counter2 c)
      (ac_counter1 c) (ac_counter0 c) = OK b"
    using rijndaelEncrypt_fips [OF assms(1-3)] by blast
  then have "aes_block (ac_rk c) (ac_nr c) (ctr_val (c\<lparr>ac_buf := b\<rparr>)) = OK b"
    using aes_block_ctr [of _ _ "c\<lparr>ac_buf := b\<rparr>"] by simp
  with b assms show ?thesis by (auto simp: aes_fill_buf_def aes_ok_def)
qed

lemma aes_ok_byte: "aes_ok c \<Longrightarrow> ac_buf c ! ac_pos c = keystream (ac_rk c) (ac_nr c) (stream_pos c)"
  by (simp add: aes_ok_def keystream_def stream_pos_def)

lemma keystream_period: "keystream rk nr (p mod 2 ^ 132) = keystream rk nr p"
proof -
  have "p mod 2 ^ 132 div 16 = (p div 16) mod 2 ^ 128"
    using drop_bit_take_bit [of 4 132 p] by (simp add: drop_bit_eq_div take_bit_eq_mod)
  moreover have "p mod 2 ^ 132 mod 16 = p mod 16"
    by (rule mod_mod_cancel) simp
  ultimately show ?thesis by (simp only: keystream_def aes_block_period)
qed

text \<open>One byte: the position advances by one, modulo the period of the stream.\<close>

lemma aes_advance:
  assumes "aes_ok c"
  shows "\<exists>c'. aes_next c = OK c' \<and> aes_ok c' \<and>
     stream_pos c' = (stream_pos c + 1) mod 2 ^ 132 \<and> ac_rk c' = ac_rk c \<and> ac_nr c' = ac_nr c"
proof (cases "ac_pos c + 1 = 16")
  case True
  let ?c = "aes_incr (c\<lparr>ac_pos := 0\<rparr>)"
  obtain b where b: "aes_fill_buf ?c = OK (?c\<lparr>ac_buf := b\<rparr>)" "aes_ok (?c\<lparr>ac_buf := b\<rparr>)"
    using aes_fill_buf_ok [of ?c] assms by (auto simp: aes_ok_def)
  have "ctr_val (?c\<lparr>ac_buf := b\<rparr>) = (ctr_val c + 1) mod 2 ^ 128"
    using aes_incr_val [of "c\<lparr>ac_pos := 0\<rparr>"] by (simp add: ctr_val_def)
  then have "stream_pos (?c\<lparr>ac_buf := b\<rparr>) = 16 * ((ctr_val c + 1) mod 2 ^ 128)"
    by (simp add: stream_pos_def)
  also have "\<dots> = (stream_pos c + 1) mod 2 ^ 132"
    using True mult_mod_right [of 16 "ctr_val c + 1" "2 ^ 128"] by (simp add: stream_pos_def)
  finally show ?thesis using True b by (simp add: aes_next_def)
next
  case False
  have "stream_pos c + 1 < 2 ^ 132"
    using ctr_val_lt [of c] assms False by (simp add: stream_pos_def aes_ok_def)
  with False assms show ?thesis
    by (simp add: aes_next_def aes_ok_def stream_pos_def ctr_val_def)
qed

lemma keystream_shift:
  "map (keystream rk nr) [p mod 2 ^ 132..<p mod 2 ^ 132 + n] = map (keystream rk nr) [p..<p + n]"
proof (rule nth_equalityI)
  fix i assume "i < length (map (keystream rk nr) [p mod 2 ^ 132..<p mod 2 ^ 132 + n])"
  then have "i < n" by simp
  have "keystream rk nr (p mod 2 ^ 132 + i) = keystream rk nr ((p mod 2 ^ 132 + i) mod 2 ^ 132)"
    by (simp only: keystream_period)
  also have "\<dots> = keystream rk nr ((p + i) mod 2 ^ 132)" by (simp only: mod_add_left_eq)
  also have "\<dots> = keystream rk nr (p + i)" by (simp only: keystream_period)
  finally show "map (keystream rk nr) [p mod 2 ^ 132..<p mod 2 ^ 132 + n] ! i =
      map (keystream rk nr) [p..<p + n] ! i"
    using \<open>i < n\<close> by simp
qed simp

lemma aes_stream_ok:
  assumes "aes_ok c"
  shows "\<exists>c'. aes_stream c xs = OK (c', map2 (XOR) xs
       (map (keystream (ac_rk c) (ac_nr c)) [stream_pos c..<stream_pos c + length xs])) \<and>
     aes_ok c' \<and> stream_pos c' = (stream_pos c + length xs) mod 2 ^ 132 \<and>
     ac_rk c' = ac_rk c \<and> ac_nr c' = ac_nr c"
  using assms
proof (induction xs arbitrary: c)
  case Nil
  have "stream_pos c < 2 ^ 132"
    using ctr_val_lt [of c] Nil by (simp add: stream_pos_def aes_ok_def)
  with Nil show ?case by simp
next
  case (Cons x xs)
  obtain c1 where c1: "aes_next c = OK c1" "aes_ok c1"
    "stream_pos c1 = (stream_pos c + 1) mod 2 ^ 132" "ac_rk c1 = ac_rk c" "ac_nr c1 = ac_nr c"
    using aes_advance [OF Cons.prems] by blast
  obtain c2 where c2: "aes_stream c1 xs = OK (c2, map2 (XOR) xs
      (map (keystream (ac_rk c) (ac_nr c)) [stream_pos c1..<stream_pos c1 + length xs]))" "aes_ok c2"
    "stream_pos c2 = (stream_pos c1 + length xs) mod 2 ^ 132" "ac_rk c2 = ac_rk c" "ac_nr c2 = ac_nr c"
    using Cons.IH [OF c1(2)] c1(4,5) by auto
  have ks: "map (keystream (ac_rk c) (ac_nr c)) [stream_pos c1..<stream_pos c1 + length xs] =
      map (keystream (ac_rk c) (ac_nr c)) [stream_pos c + 1..<stream_pos c + 1 + length xs]"
    using keystream_shift [of _ _ "stream_pos c + 1" "length xs"] by (simp only: c1(3))
  have up: "[stream_pos c..<stream_pos c + length (x # xs)] =
      stream_pos c # [stream_pos c + 1..<stream_pos c + 1 + length xs]"
    by (subst upt_conv_Cons) simp_all
  have "stream_pos c2 = (stream_pos c + length (x # xs)) mod 2 ^ 132"
    using c2(3) by (simp only: c1(3) mod_add_left_eq) simp
  moreover have "aes_stream c (x # xs) = OK (c2, map2 (XOR) (x # xs)
      (map (keystream (ac_rk c) (ac_nr c)) [stream_pos c..<stream_pos c + length (x # xs)]))"
    unfolding up aes_stream.simps Let_def c1(1) rbind.simps c2(1) ks prod.case aes_ok_byte [OF Cons.prems]
    by simp
  ultimately show ?case using c2 by blast
qed

text \<open>
  C33: \<^verbatim>\<open>aes_crypt_inplace\<close> on a keyed cipher XORs the data with the AES key stream from the
  cipher's position on (block \<open>i\<close> of the stream is the encryption of the 128-bit counter value
  \<open>i\<close>, with the carries between its four words), and leaves the cipher at the position after it.
\<close>

theorem aes_crypt_inplace_keystream:
  assumes "aes_ok c"
  shows "\<exists>c'. aes_crypt_inplace c data = OK (c', map2 (XOR) data
       (map (keystream (ac_rk c) (ac_nr c)) [stream_pos c..<stream_pos c + length data])) \<and>
     aes_ok c' \<and> stream_pos c' = (stream_pos c + length data) mod 2 ^ 132 \<and> ac_rk c' = ac_rk c"
proof (cases "data = []")
  case True
  have "stream_pos c < 2 ^ 132"
    using ctr_val_lt [of c] assms by (simp add: stream_pos_def aes_ok_def)
  with True assms show ?thesis by (simp add: aes_crypt_inplace_def)
next
  case False
  with aes_stream_ok [OF assms, of data] show ?thesis by (auto simp: aes_crypt_inplace_def)
qed

lemma aes_set_key_ok:
  assumes "key_bits \<in> {128, 192, 256}"
  shows "\<exists>c'. aes_set_key c key key_bits = OK c' \<and> aes_ok c' \<and> stream_pos c' = 0"
proof -
  obtain rk nr where k: "rijndaelKeySetupEnc key key_bits = (rk, nr)" by fastforce
  then have "even nr \<and> 0 < nr \<and> length rk = 4 * (nr + 1)"
    using assms key_setup_fips [of key] by auto
  then obtain b where "aes_set_key c key key_bits = OK b" "aes_ok b" "stream_pos b = 0"
    using aes_fill_buf_ok [of "c\<lparr>ac_rk := rk, ac_nr := nr, ac_counter0 := 0, ac_counter1 := 0,
           ac_counter2 := 0, ac_counter3 := 0, ac_pos := 0\<rparr>"] k
    by (auto simp: aes_set_key_def stream_pos_def ctr_val_def)
  then show ?thesis by blast
qed

theorem aes_crypt_inplace_keystream_witness:
  "\<exists>c c'. aes_set_key aes_new_cipher (replicate 16 1) 128 = OK c \<and>
     aes_crypt_inplace c [5, 6] = OK (c', map2 (XOR) [5, 6]
       (map (keystream (ac_rk c) (ac_nr c)) [0..<0 + length [5, 6 :: byte]])) \<and>
     stream_pos c' = (0 + length [5, 6 :: byte]) mod 2 ^ 132"
proof -
  obtain c where c: "aes_set_key aes_new_cipher (replicate 16 1) 128 = OK c" "aes_ok c" "stream_pos c = 0"
    using aes_set_key_ok [of 128 aes_new_cipher "replicate 16 1"] by auto
  from aes_crypt_inplace_keystream [OF c(2), of "[5, 6]", unfolded c(3)] c(1) show ?thesis by blast
qed

subsection \<open>Stream ciphers as an interface\<close>

text \<open>What the relay code needs of the cipher: it always succeeds, keeps lengths, and decrypting
  from the state that encrypted restores the data and ends in the same state.\<close>

fun onion_layers ::
  "('c \<Rightarrow> byte list \<Rightarrow> ('c \<times> byte list) res) \<Rightarrow> 'c list \<Rightarrow> byte list \<Rightarrow> ('c list \<times> byte list) res" where
  "onion_layers crypt [] d = OK ([], d)"
| "onion_layers crypt (c # cs) d = rbind (onion_layers crypt cs d) (\<lambda>(cs', d').
     rbind (crypt c d') (\<lambda>(c', d''). OK (c' # cs', d'')))"

fun peel_layers ::
  "('c \<Rightarrow> byte list \<Rightarrow> ('c \<times> byte list) res) \<Rightarrow> 'c list \<Rightarrow> byte list \<Rightarrow> ('c list \<times> byte list) res" where
  "peel_layers crypt [] d = OK ([], d)"
| "peel_layers crypt (c # cs) d = rbind (crypt c d) (\<lambda>(c', d').
     rbind (peel_layers crypt cs d') (\<lambda>(cs', d''). OK (c' # cs', d'')))"

locale stream_cipher =
  fixes invar :: "'c \<Rightarrow> bool"
    and crypt :: "'c \<Rightarrow> byte list \<Rightarrow> ('c \<times> byte list) res"
  assumes crypt_total: "invar c \<Longrightarrow> \<exists>c' ys. crypt c xs = OK (c', ys) \<and> length ys = length xs \<and> invar c'"
    and crypt_undo: "invar c \<Longrightarrow> crypt c xs = OK (c', ys) \<Longrightarrow> crypt c ys = OK (c', xs)"
begin

lemma layers_total:
  assumes "list_all invar cs"
  shows "\<exists>cs' e. onion_layers crypt cs d = OK (cs', e) \<and> length e = length d \<and> list_all invar cs' \<and>
    length cs' = length cs"
  using assms
proof (induction cs)
  case (Cons c cs)
  then obtain cs' e where "onion_layers crypt cs d = OK (cs', e)" "length e = length d"
    "list_all invar cs'" "length cs' = length cs" by auto
  with crypt_total [of c e] Cons.prems show ?case by fastforce
qed simp

lemma peel_onion:
  "list_all invar cs \<Longrightarrow> onion_layers crypt cs d = OK (cs', e) \<Longrightarrow> peel_layers crypt cs e = OK (cs', d)"
proof (induction cs arbitrary: cs' e)
  case (Cons c cs)
  then obtain cs1 e1 c1 where s: "onion_layers crypt cs d = OK (cs1, e1)" "crypt c e1 = OK (c1, e)"
    "cs' = c1 # cs1" by (auto simp: res_simps)
  with Cons crypt_undo [OF _ s(2)] show ?case by auto
qed simp

end

lemma aes_stream_undo: "aes_stream c xs = OK (c', ys) \<Longrightarrow> aes_stream c ys = OK (c', xs)"
proof (induction xs arbitrary: c ys)
  case (Cons x xs)
  then obtain c1 zs where "aes_next c = OK c1" "aes_stream c1 xs = OK (c', zs)"
    "ys = (x XOR ac_buf c ! ac_pos c) # zs"
    by (auto simp: Let_def res_simps)
  with Cons.IH [of c1 zs] show ?case by (simp add: Let_def xor.assoc)
qed simp

interpretation aes: stream_cipher aes_ok aes_crypt_inplace
proof
  fix c xs assume c: "aes_ok c"
  show "\<exists>c' ys. aes_crypt_inplace c xs = OK (c', ys) \<and> length ys = length xs \<and> aes_ok c'"
    using aes_stream_ok [OF c, of xs] c by (cases "xs = []") (auto simp: aes_crypt_inplace_def)
next
  fix c xs c' ys assume "aes_ok c" and e: "aes_crypt_inplace c xs = OK (c', ys)"
  then show "aes_crypt_inplace c ys = OK (c', xs)"
    using aes_stream_undo [of c xs c' ys]
    by (cases xs; cases ys) (auto simp: aes_crypt_inplace_def Let_def res_simps)
qed

end
