(* ===== verification/Address.thy ===== *)
theory Address
  imports CLib
begin

section \<open>Network addresses (address.c, address.h)\<close>

text \<open>
  Addresses of both families: comparison under a mask, the tests on address ranges, and hashing.  Code
  that reads the sixteen bytes of an IPv6 address as four machine words does so on a little-endian machine unless it
  calls \<^verbatim>\<open>ntohl\<close>.
\<close>

text \<open>An IPv4 address in host order, the sixteen bytes of an IPv6 address, or no address.\<close>

datatype tor_addr = AF_UNSPEC | AF_INET u32 | AF_INET6 "byte list"

datatype tor_addr_comparison = CMP_EXACT | CMP_SEMANTIC

text \<open>The numbers of the families are those of Linux; the code uses their order only.\<close>

fun tor_addr_family :: "tor_addr \<Rightarrow> nat" where
  "tor_addr_family AF_UNSPEC = 0"
| "tor_addr_family (AF_INET _) = 2"
| "tor_addr_family (AF_INET6 _) = 10"

definition le32 :: "byte list \<Rightarrow> u32" where
  "le32 bs = rd32 (rev (take 4 bs))"

text \<open>\<^verbatim>\<open>tor_addr_to_in6_addr32\<close>, as the machine reads it and after \<^verbatim>\<open>ntohl\<close>.\<close>

definition in6_addr32 :: "byte list \<Rightarrow> nat \<Rightarrow> u32" where
  "in6_addr32 bs i = le32 (drop (4 * i) bs)"

definition in6_addr32h :: "byte list \<Rightarrow> nat \<Rightarrow> u32" where
  "in6_addr32h bs i = rd32 (drop (4 * i) bs)"

fun tor_addr_is_v4 :: "tor_addr \<Rightarrow> bool" where
  "tor_addr_is_v4 (AF_INET _) \<longleftrightarrow> True"
| "tor_addr_is_v4 (AF_INET6 bs) \<longleftrightarrow> in6_addr32 bs 0 = 0 \<and> in6_addr32 bs 1 = 0 \<and> in6_addr32h bs 2 = 0x0000ffff"
| "tor_addr_is_v4 AF_UNSPEC \<longleftrightarrow> False"

fun tor_addr_is_null :: "tor_addr \<Rightarrow> bool" where
  "tor_addr_is_null (AF_INET6 bs) \<longleftrightarrow> in6_addr32 bs 0 = 0 \<and> in6_addr32 bs 1 = 0 \<and> in6_addr32 bs 2 = 0 \<and> in6_addr32 bs 3 = 0"
| "tor_addr_is_null (AF_INET a) \<longleftrightarrow> a = 0"
| "tor_addr_is_null AF_UNSPEC \<longleftrightarrow> True"

fun tor_addr_is_loopback :: "tor_addr \<Rightarrow> bool" where
  "tor_addr_is_loopback (AF_INET6 bs) \<longleftrightarrow> in6_addr32 bs 0 = 0 \<and> in6_addr32 bs 1 = 0 \<and> in6_addr32 bs 2 = 0 \<and> in6_addr32 bs 3 = 1"
| "tor_addr_is_loopback (AF_INET a) \<longleftrightarrow> a AND 0xff000000 = 0x7f000000"
| "tor_addr_is_loopback AF_UNSPEC \<longleftrightarrow> False"

definition internal_v4 :: "u32 \<Rightarrow> bool" where
  "internal_v4 iph4 \<longleftrightarrow>
     iph4 AND 0xff000000 = 0x0a000000 \<or> iph4 AND 0xff000000 = 0x00000000 \<or> iph4 AND 0xff000000 = 0x7f000000 \<or>
     iph4 AND 0xffff0000 = 0xa9fe0000 \<or> iph4 AND 0xfff00000 = 0xac100000 \<or> iph4 AND 0xffff0000 = 0xc0a80000"

definition internal_v6 :: "byte list \<Rightarrow> bool" where
  "internal_v6 bs \<longleftrightarrow>
     in6_addr32h bs 0 AND 0xfe000000 = 0xfc000000 \<or> in6_addr32h bs 0 AND 0xffc00000 = 0xfe800000 \<or>
     in6_addr32h bs 0 AND 0xffc00000 = 0xfec00000 \<or>
     in6_addr32h bs 0 = 0 \<and> in6_addr32h bs 1 = 0 \<and> in6_addr32h bs 2 = 0 \<and> in6_addr32h bs 3 AND 0xfffffffe = 0"

definition tor_addr_is_internal :: "tor_addr \<Rightarrow> bool \<Rightarrow> bool" where
  "tor_addr_is_internal addr for_listening = (case addr of
     AF_UNSPEC \<Rightarrow> True
   | AF_INET iph4 \<Rightarrow> if for_listening \<and> iph4 = 0 then False else internal_v4 iph4
   | AF_INET6 bs \<Rightarrow>
       if tor_addr_is_v4 (AF_INET6 bs)
       then (if for_listening \<and> in6_addr32h bs 3 = 0 then False else internal_v4 (in6_addr32h bs 3))
       else if for_listening \<and> in6_addr32h bs 0 = 0 \<and> in6_addr32h bs 1 = 0 \<and> in6_addr32h bs 2 = 0 \<and> in6_addr32h bs 3 = 0 then False
       else internal_v6 bs)"

definition is_internal_IP :: "u32 \<Rightarrow> bool \<Rightarrow> bool" where
  "is_internal_IP ip for_listening = tor_addr_is_internal (AF_INET ip) for_listening"

subsection \<open>Comparison\<close>

definition tristate :: "'a :: linorder \<Rightarrow> 'a \<Rightarrow> int" where
  "tristate a b = (if a < b then -1 else if a = b then 0 else 1)"

definition compare_v4 :: "u32 \<Rightarrow> u32 \<Rightarrow> nat \<Rightarrow> int" where
  "compare_v4 a1 a2 mbits =
     (if mbits = 0 then 0
      else let m = (if mbits > 32 then 32 else mbits) in tristate (drop_bit (32 - m) a1) (drop_bit (32 - m) a2))"

definition compare_v6 :: "byte list \<Rightarrow> byte list \<Rightarrow> nat \<Rightarrow> int res" where
  "compare_v6 a1 a2 mbits =
     (let bytes = mbits div 8; leftover_bits = mbits mod 8 in
      if bytes > length a1 \<or> bytes > length a2 then Fault Mem_Fault
      else let r = memcmp a1 a2 bytes in
        if bytes \<noteq> 0 \<and> r \<noteq> 0 then OK r
        else if leftover_bits \<noteq> 0 then
          (if bytes < length a1 \<and> bytes < length a2
           then OK (tristate (drop_bit (8 - leftover_bits) (a1 ! bytes)) (drop_bit (8 - leftover_bits) (a2 ! bytes)))
           else Fault Mem_Fault)
        else OK 0)"

definition compare_mixed :: "tor_addr \<Rightarrow> tor_addr \<Rightarrow> nat \<Rightarrow> int" where
  "compare_mixed addr1 addr2 mbits = (case (addr1, addr2) of
     (AF_INET6 b1, AF_INET a2) \<Rightarrow>
       if tor_addr_is_v4 addr1 then (if mbits \<le> 96 then 0 else compare_v4 (in6_addr32h b1 3) a2 (mbits - 96))
       else tristate (tor_addr_family addr1) (tor_addr_family addr2)
   | (AF_INET a1, AF_INET6 b2) \<Rightarrow>
       if tor_addr_is_v4 addr2 then compare_v4 a1 (in6_addr32h b2 3) mbits
       else tristate (tor_addr_family addr1) (tor_addr_family addr2)
   | _ \<Rightarrow> tristate (tor_addr_family addr1) (tor_addr_family addr2))"

definition tor_addr_compare_masked :: "tor_addr \<Rightarrow> tor_addr \<Rightarrow> byte \<Rightarrow> tor_addr_comparison \<Rightarrow> int res" where
  "tor_addr_compare_masked addr1 addr2 mbits how =
     (if tor_addr_family addr1 = tor_addr_family addr2 then
        (case (addr1, addr2) of
           (AF_INET a1, AF_INET a2) \<Rightarrow> OK (compare_v4 a1 a2 (unat mbits))
         | (AF_INET6 b1, AF_INET6 b2) \<Rightarrow> compare_v6 b1 b2 (unat mbits)
         | _ \<Rightarrow> OK 0)
      else if how = CMP_EXACT then OK (tristate (tor_addr_family addr1) (tor_addr_family addr2))
      else if mbits = 0 then OK 0
      else OK (compare_mixed addr1 addr2 (unat mbits)))"

definition tor_addr_compare :: "tor_addr \<Rightarrow> tor_addr \<Rightarrow> tor_addr_comparison \<Rightarrow> int res" where
  "tor_addr_compare addr1 addr2 how = tor_addr_compare_masked addr1 addr2 128 how"

fun tor_addr_hash :: "tor_addr \<Rightarrow> u32" where
  "tor_addr_hash (AF_INET a) = a"
| "tor_addr_hash AF_UNSPEC = 0x4e4d5342"
| "tor_addr_hash (AF_INET6 bs) = in6_addr32 bs 0 + in6_addr32 bs 1 + in6_addr32 bs 2 + in6_addr32 bs 3"

subsection \<open>Masks\<close>

definition addr_mask_cmp_bits :: "u32 \<Rightarrow> u32 \<Rightarrow> byte \<Rightarrow> int" where
  "addr_mask_cmp_bits a1 a2 bits =
     (let b = (if unat bits > 32 then 32 else unat bits) in
      if b = 0 then 0 else tristate (drop_bit (32 - b) a1) (drop_bit (32 - b) a2))"

text \<open>
  The loop of \<^verbatim>\<open>addr_mask_get_bits\<close>.  For \<open>i = 0\<close> it shifts a 32-bit word by 32, which C leaves undefined; the
  processors of the x86 family use the lowest five bits of the count.
\<close>

function mask_get_bits_loop :: "u32 \<Rightarrow> nat \<Rightarrow> int" where
  "mask_get_bits_loop netmask i =
     (if i > 32 then -1
      else if netmask = NOT (push_bit ((32 - i) mod 32) 1 - 1) then int i
      else mask_get_bits_loop netmask (i + 1))"
  by auto
termination by (relation "measure (\<lambda>(_, i). 33 - i)") auto

declare mask_get_bits_loop.simps [simp del]

definition addr_mask_get_bits :: "u32 \<Rightarrow> int" where
  "addr_mask_get_bits netmask = (if netmask = 0 then 0 else if netmask = 0xFFFFFFFF then 32 else mask_get_bits_loop netmask 0)"

subsection \<open>Prefixes\<close>

text \<open>
  What the policy code needs of a comparison of prefixes: for each length an equivalence, and a longer common prefix
  gives a shorter one.
\<close>

locale prefix_order =
  fixes same :: "nat \<Rightarrow> 'a \<Rightarrow> 'a \<Rightarrow> bool"
  assumes same_refl: "same n a a"
    and same_sym: "same n a b \<Longrightarrow> same n b a"
    and same_trans: "same n a b \<Longrightarrow> same n b c \<Longrightarrow> same n a c"
    and same_mono: "m \<le> n \<Longrightarrow> same n a b \<Longrightarrow> same m a b"
begin

lemma shared_prefix: "same m x a \<Longrightarrow> same n x b \<Longrightarrow> same (min m n) a b"
  by (metis min.cobounded1 min.cobounded2 same_mono same_sym same_trans)

lemma inside: "m \<le> n \<Longrightarrow> same m a b \<Longrightarrow> same n x b \<Longrightarrow> same m x a"
  by (meson same_mono same_sym same_trans)

end

text \<open>The bits of an address, the highest first, and the first \<open>n\<close> of them.\<close>

definition word_bits :: "'a :: len word \<Rightarrow> bool list" where
  "word_bits w = map (\<lambda>i. bit w (LENGTH('a) - 1 - i)) [0..<LENGTH('a)]"

fun addr_bits :: "tor_addr \<Rightarrow> bool list" where
  "addr_bits AF_UNSPEC = []"
| "addr_bits (AF_INET a) = word_bits a"
| "addr_bits (AF_INET6 bs) = concat (map word_bits bs)"

definition same_prefix :: "nat \<Rightarrow> tor_addr \<Rightarrow> tor_addr \<Rightarrow> bool" where
  "same_prefix n a b \<longleftrightarrow> tor_addr_family a = tor_addr_family b \<and> take n (addr_bits a) = take n (addr_bits b)"

interpretation prefixes: prefix_order same_prefix
proof
  fix m n a b
  assume "m \<le> n" and "same_prefix n a b"
  then show "same_prefix m a b"
    unfolding same_prefix_def by (metis min.absorb1 take_take)
qed (auto simp: same_prefix_def)

fun addr_ok :: "tor_addr \<Rightarrow> bool" where
  "addr_ok (AF_INET6 bs) \<longleftrightarrow> length bs = 16"
| "addr_ok _ \<longleftrightarrow> True"

lemma length_word_bits [simp]: "length (word_bits (w :: 'a :: len word)) = LENGTH('a)"
  by (simp add: word_bits_def)

lemma take_word_bits:
  fixes a b :: "'a :: len word"
  assumes "n \<le> LENGTH('a)"
  shows "take n (word_bits a) = take n (word_bits b) \<longleftrightarrow> drop_bit (LENGTH('a) - n) a = drop_bit (LENGTH('a) - n) b"
proof
  assume eq: "take n (word_bits a) = take n (word_bits b)"
  show "drop_bit (LENGTH('a) - n) a = drop_bit (LENGTH('a) - n) b"
  proof (rule bit_word_eqI)
    fix i assume "i < LENGTH('a)"
    show "bit (drop_bit (LENGTH('a) - n) a) i = bit (drop_bit (LENGTH('a) - n) b) i"
    proof (cases "i < n")
      case True
      then have "take n (word_bits a) ! (n - 1 - i) = take n (word_bits b) ! (n - 1 - i)" by (simp add: eq)
      moreover have "LENGTH('a) - 1 - (n - 1 - i) = LENGTH('a) - n + i" using True assms by simp
      ultimately show ?thesis using True assms by (simp add: word_bits_def bit_drop_bit_eq)
    next
      case False
      with assms have "\<not> LENGTH('a) - n + i < LENGTH('a)" by simp
      then show ?thesis by (simp add: bit_drop_bit_eq bit_imp_le_length) (meson bit_imp_le_length)
    qed
  qed
next
  assume eq: "drop_bit (LENGTH('a) - n) a = drop_bit (LENGTH('a) - n) b"
  show "take n (word_bits a) = take n (word_bits b)"
  proof (rule nth_equalityI)
    fix i assume "i < length (take n (word_bits a))"
    then have i: "i < n" using assms by simp
    have "bit (drop_bit (LENGTH('a) - n) a) (n - 1 - i) = bit (drop_bit (LENGTH('a) - n) b) (n - 1 - i)" by (simp add: eq)
    moreover have "LENGTH('a) - n + (n - 1 - i) = LENGTH('a) - 1 - i" using i assms by simp
    ultimately show "take n (word_bits a) ! i = take n (word_bits b) ! i" using i assms by (simp add: word_bits_def bit_drop_bit_eq)
  qed simp
qed

lemma word_bits_inj: "word_bits a = word_bits b \<longleftrightarrow> a = b"
  using take_word_bits [OF order_refl, of a b] by simp

lemma take_v6_bits:
  "q < length bs \<Longrightarrow> r \<le> 8 \<Longrightarrow> take (8 * q + r) (concat (map word_bits bs)) = concat (map word_bits (take q bs)) @ take r (word_bits (bs ! q :: byte))"
proof (induction bs arbitrary: q)
  case (Cons b bs)
  then show ?case by (cases q) (simp_all add: take_append)
qed simp

lemma v6_bits_inj:
  fixes xs ys :: "byte list"
  shows "length xs = length ys \<Longrightarrow> concat (map word_bits xs) = concat (map word_bits ys) \<longleftrightarrow> xs = ys"
  by (induction xs ys rule: list_induct2) (auto simp: word_bits_inj)

lemma tristate_0 [simp]: "tristate a b = 0 \<longleftrightarrow> a = b"
  by (simp add: tristate_def)

lemma compare_v4_prefix: "compare_v4 a b n = 0 \<longleftrightarrow> take n (word_bits a) = take n (word_bits b)"
proof (cases "n \<le> 32")
  case True
  then show ?thesis using take_word_bits [of n a b] by (auto simp: compare_v4_def Let_def)
next
  case False
  then show ?thesis using word_bits_inj [of a b] by (simp add: compare_v4_def Let_def)
qed

lemma compare_v6_prefix:
  assumes "length a = 16" and "length b = 16" and "n \<le> 128"
  shows "\<exists>r. compare_v6 a b n = OK r \<and> (r = 0 \<longleftrightarrow> take n (concat (map word_bits a)) = take n (concat (map word_bits b)))"
proof -
  let ?q = "n div 8" and ?r = "n mod 8"
  have q: "?q \<le> 16" "?q < 16 \<or> ?r = 0" using assms(3) by (simp, presburger)
  have cmp: "memcmp a b ?q = 0 \<longleftrightarrow> take ?q a = take ?q b" by (simp add: memcmp_def)
  have bits: "take n (concat (map word_bits x)) = concat (map word_bits (take ?q x)) @ (if ?r = 0 then [] else take ?r (word_bits (x ! ?q)))"
    if "length x = 16" for x :: "byte list"
  proof (cases "?q < 16")
    case True
    then show ?thesis using take_v6_bits [of ?q x ?r] that by simp
  next
    case False
    with q have "?q = 16" "n = 128" using assms(3) by auto
    have "length (concat (map word_bits x)) = 128" using that by (simp add: length_concat comp_def sum_list_triv)
    with \<open>n = 128\<close> \<open>?q = 16\<close> that show ?thesis by simp
  qed
  have inj: "concat (map word_bits (take ?q a)) @ u = concat (map word_bits (take ?q b)) @ v \<longleftrightarrow> take ?q a = take ?q b \<and> u = v" for u v
  proof -
    have l: "length (take ?q a) = length (take ?q b)" using assms by simp
    then have "length (concat (map word_bits (take ?q a))) = length (concat (map word_bits (take ?q b)))"
      by (simp add: length_concat comp_def sum_list_triv)
    with v6_bits_inj [OF l] show ?thesis by (auto simp: append_eq_append_conv)
  qed
  have "take n (concat (map word_bits a)) = take n (concat (map word_bits b)) \<longleftrightarrow>
      take ?q a = take ?q b \<and> (?r = 0 \<or> drop_bit (8 - ?r) (a ! ?q) = drop_bit (8 - ?r) (b ! ?q))"
    unfolding bits [OF assms(1)] bits [OF assms(2)] inj using take_word_bits [of ?r "a ! ?q" "b ! ?q"] by simp
  then show ?thesis
    using assms q cmp by (auto simp: compare_v6_def Let_def)
qed

text \<open>An exact comparison under a mask compares the first bits, and does not read outside the addresses.\<close>

lemma compare_masked_prefix:
  assumes "addr_ok a" and "addr_ok b" and "unat m \<le> 128"
  shows "\<exists>r. tor_addr_compare_masked a b m CMP_EXACT = OK r \<and> (r = 0 \<longleftrightarrow> same_prefix (unat m) a b)"
  using assms compare_v4_prefix compare_v6_prefix
  by (cases a; cases b) (auto simp: tor_addr_compare_masked_def same_prefix_def)

text \<open>
  On a little-endian machine \<^verbatim>\<open>tor_addr_is_loopback\<close> takes another address than \<open>::1\<close> for the loopback address of IPv6.
\<close>

lemma loopback_v6:
  "\<not> tor_addr_is_loopback (AF_INET6 [0, 0, 0, 0, 0, 0, 0, 0, 0, 0, 0, 0, 0, 0, 0, 1])"
  "tor_addr_is_loopback (AF_INET6 [0, 0, 0, 0, 0, 0, 0, 0, 0, 0, 0, 0, 1, 0, 0, 0])"
  by (simp_all add: in6_addr32_def le32_def)

end
