(* ===== verification/RelayCrypt.thy ===== *)
theory RelayCrypt
  imports Cells Aes Address
begin

section \<open>Relay-cell cryptography (src/innomitor/src/or/relay.c)\<close>

text \<open>
  Digests and layers of encryption on relay cells: what the origin of a circuit does to a cell it
  sends to one of its hops, what every relay does to a cell that passes, and how the addressee
  recognizes it.  The running SHA-1 digest is OpenSSL's; it is a parameter, given by the three
  operations the code uses.  The cipher is the one of \<^theory_text>\<open>Aes\<close>.
\<close>

record 'd digest_ops =
  dg_new :: 'd
  dg_add :: "'d \<Rightarrow> byte list \<Rightarrow> 'd"
  dg_get :: "'d \<Rightarrow> nat \<Rightarrow> byte list"

datatype cell_direction = CELL_DIRECTION_IN | CELL_DIRECTION_OUT

datatype cpath_state = CPATH_STATE_CLOSED | CPATH_STATE_AWAITING_KEYS | CPATH_STATE_OPEN

text \<open>
  What a circuit needs to know of a router to extend to it.  Its onion key is used by OpenSSL only.
\<close>

record extend_info =
  ei_identity_digest :: "byte list"
  ei_addr :: tor_addr
  ei_port :: u16

text \<open>
  A hop of a circuit at its origin.  The ciphers and digests are NULL in the code until \<open>cp_keys_set\<close>; the
  state of a Diffie-Hellman handshake is an object of OpenSSL, named by a number.
\<close>

record 'd crypt_path =
  cp_extend_info :: extend_info
  cp_keys_set :: bool
  cp_dh_handshake_state :: "nat option"
  cp_fast_handshake_state :: "byte list"
  cp_handshake_digest :: "byte list"
  cp_f_crypto :: aes_cnt_cipher
  cp_b_crypto :: aes_cnt_cipher
  cp_f_digest :: 'd
  cp_b_digest :: 'd
  cp_state :: cpath_state
  cp_package_window :: int
  cp_deliver_window :: int

text \<open>
  The part of a circuit that the cryptography uses.  An origin circuit has a crypt path, first
  hop first; an OR circuit has two ciphers and two digests.
\<close>

record 'd circuit_crypto =
  ci_origin :: bool
  ci_cpath :: "'d crypt_path list"
  ci_n_crypto :: aes_cnt_cipher
  ci_p_crypto :: aes_cnt_cipher
  ci_n_digest :: 'd
  ci_p_digest :: 'd

definition relay_set_digest :: "'d digest_ops \<Rightarrow> 'd \<Rightarrow> cell \<Rightarrow> 'd \<times> cell" where
  "relay_set_digest ops digest cell =
     (let digest' = dg_add ops digest (take CELL_PAYLOAD_SIZE (ce_payload cell));
          integrity = dg_get ops digest' 4;
          rh = relay_header_unpack (ce_payload cell)
      in (digest', cell\<lparr>ce_payload := relay_header_pack (ce_payload cell) (rh\<lparr>rh_integrity := integrity\<rparr>)\<rparr>))"

definition relay_digest_matches :: "'d digest_ops \<Rightarrow> 'd \<Rightarrow> cell \<Rightarrow> bool \<times> 'd \<times> cell" where
  "relay_digest_matches ops digest cell =
     (let backup_digest = digest;
          rh = relay_header_unpack (ce_payload cell);
          received_integrity = rh_integrity rh;
          rh0 = rh\<lparr>rh_integrity := replicate 4 0\<rparr>;
          cell0 = cell\<lparr>ce_payload := relay_header_pack (ce_payload cell) rh0\<rparr>;
          digest' = dg_add ops digest (take CELL_PAYLOAD_SIZE (ce_payload cell0));
          calculated_integrity = dg_get ops digest' 4
      in if received_integrity \<noteq> calculated_integrity
         then (False, backup_digest, cell0\<lparr>ce_payload := relay_header_pack (ce_payload cell0)
                 (rh0\<lparr>rh_integrity := received_integrity\<rparr>)\<rparr>)
         else (True, digest', cell0))"

text \<open>\<^verbatim>\<open>crypto_cipher_crypt_inplace\<close> returns 0 in all cases.\<close>

definition relay_crypt_one_payload ::
  "aes_cnt_cipher \<Rightarrow> byte list \<Rightarrow> (aes_cnt_cipher \<times> byte list) res" where
  "relay_crypt_one_payload cipher payload = aes_crypt_inplace cipher payload"

datatype crypt_result = Crypt_Fail | Not_Recognized | Recognized "nat option"

text \<open>The layered decryption at the origin; \<open>i\<close> is the index of the hop tried.\<close>

fun relay_crypt_origin_loop ::
  "'d digest_ops \<Rightarrow> 'd crypt_path list \<Rightarrow> cell \<Rightarrow> nat \<Rightarrow> ('d crypt_path list \<times> cell \<times> crypt_result) res" where
  "relay_crypt_origin_loop ops [] cell i = Fault Assert_Fail"
| "relay_crypt_origin_loop ops (thishop # hops) cell i =
     rbind (relay_crypt_one_payload (cp_b_crypto thishop) (ce_payload cell)) (\<lambda>(crypto, payload).
       let hop1 = thishop\<lparr>cp_b_crypto := crypto\<rparr>;
           cell1 = cell\<lparr>ce_payload := payload\<rparr>;
           (matched, digest, cell2) =
             (if rh_recognized (relay_header_unpack payload) = 0
              then relay_digest_matches ops (cp_b_digest hop1) cell1
              else (False, cp_b_digest hop1, cell1));
           hop2 = hop1\<lparr>cp_b_digest := digest\<rparr>
       in if matched then OK (hop2 # hops, cell2, Recognized (Some i))
          else if hops \<noteq> [] \<and> cp_state (hd hops) = CPATH_STATE_OPEN
          then rbind (relay_crypt_origin_loop ops hops cell2 (i + 1)) (\<lambda>(hops', cell', r).
                 OK (hop2 # hops', cell', r))
          else OK (hop2 # hops, cell2, Crypt_Fail))"

definition relay_crypt ::
  "'d digest_ops \<Rightarrow> ('d, 'z) circuit_crypto_scheme \<Rightarrow> cell \<Rightarrow> cell_direction \<Rightarrow>
   (('d, 'z) circuit_crypto_scheme \<times> cell \<times> crypt_result) res" where
  "relay_crypt ops circ cell dir = (case dir of
     CELL_DIRECTION_IN \<Rightarrow>
       if ci_origin circ then
         (if ci_cpath circ = [] then Fault Mem_Fault
          else if cp_state (hd (ci_cpath circ)) \<noteq> CPATH_STATE_OPEN then OK (circ, cell, Crypt_Fail)
          else rbind (relay_crypt_origin_loop ops (ci_cpath circ) cell 0) (\<lambda>(cpath, cell', r).
                 OK (circ\<lparr>ci_cpath := cpath\<rparr>, cell', r)))
       else
         rbind (relay_crypt_one_payload (ci_p_crypto circ) (ce_payload cell)) (\<lambda>(crypto, payload).
           OK (circ\<lparr>ci_p_crypto := crypto\<rparr>, cell\<lparr>ce_payload := payload\<rparr>, Not_Recognized))
   | CELL_DIRECTION_OUT \<Rightarrow>
       if ci_origin circ then Fault Assert_Fail
       else rbind (relay_crypt_one_payload (ci_n_crypto circ) (ce_payload cell)) (\<lambda>(crypto, payload).
         let circ1 = circ\<lparr>ci_n_crypto := crypto\<rparr>; cell1 = cell\<lparr>ce_payload := payload\<rparr> in
         if rh_recognized (relay_header_unpack payload) = 0 then
           let (matched, digest, cell2) = relay_digest_matches ops (ci_n_digest circ1) cell1 in
           if matched then OK (circ1\<lparr>ci_n_digest := digest\<rparr>, cell2, Recognized None)
           else OK (circ1\<lparr>ci_n_digest := digest\<rparr>, cell2, Not_Recognized)
         else OK (circ1, cell1, Not_Recognized)))"

text \<open>
  The cryptographic part of \<^verbatim>\<open>circuit_package_relay_cell\<close>: outgoing from the origin to hop
  \<open>layer\<close> (farthest hop first), incoming from a relay.
\<close>

fun package_out_loop :: "'d crypt_path list \<Rightarrow> byte list \<Rightarrow> ('d crypt_path list \<times> byte list) res" where
  "package_out_loop [] payload = OK ([], payload)"
| "package_out_loop (hop # hops) payload =
     rbind (package_out_loop hops payload) (\<lambda>(hops', p).
       rbind (relay_crypt_one_payload (cp_f_crypto hop) p) (\<lambda>(crypto, p').
         OK (hop\<lparr>cp_f_crypto := crypto\<rparr> # hops', p')))"

definition package_out ::
  "'d digest_ops \<Rightarrow> ('d, 'z) circuit_crypto_scheme \<Rightarrow> cell \<Rightarrow> nat \<Rightarrow>
   (('d, 'z) circuit_crypto_scheme \<times> cell) res" where
  "package_out ops circ cell layer =
     (if layer \<ge> length (ci_cpath circ) then Fault Mem_Fault
      else let hop = ci_cpath circ ! layer;
               (digest, cell1) = relay_set_digest ops (cp_f_digest hop) cell;
               cpath1 = (ci_cpath circ)[layer := hop\<lparr>cp_f_digest := digest\<rparr>]
           in rbind (package_out_loop (take (layer + 1) cpath1) (ce_payload cell1)) (\<lambda>(hops, p).
                OK (circ\<lparr>ci_cpath := hops @ drop (layer + 1) cpath1\<rparr>, cell1\<lparr>ce_payload := p\<rparr>)))"

definition package_in ::
  "'d digest_ops \<Rightarrow> ('d, 'z) circuit_crypto_scheme \<Rightarrow> cell \<Rightarrow>
   (('d, 'z) circuit_crypto_scheme \<times> cell) res" where
  "package_in ops circ cell =
     (let (digest, cell1) = relay_set_digest ops (ci_p_digest circ) cell in
      rbind (relay_crypt_one_payload (ci_p_crypto circ) (ce_payload cell1)) (\<lambda>(crypto, p).
        OK (circ\<lparr>ci_p_digest := digest, ci_p_crypto := crypto\<rparr>, cell1\<lparr>ce_payload := p\<rparr>)))"

subsection \<open>Digests\<close>

text \<open>The state in which a cell to be sent leaves \<^verbatim>\<open>relay_send_command_from_edge\<close>: a full payload
  with both marker fields zero.\<close>

definition fresh_payload :: "byte list \<Rightarrow> bool" where
  "fresh_payload p \<longleftrightarrow> length p = CELL_PAYLOAD_SIZE \<and>
     rh_integrity (relay_header_unpack p) = replicate 4 0 \<and> rh_recognized (relay_header_unpack p) = 0"

definition digest_lengths :: "'d digest_ops \<Rightarrow> bool" where
  "digest_lengths ops \<longleftrightarrow> (\<forall>d n. length (dg_get ops d n) = n)"

lemma payload_header: "length p = CELL_PAYLOAD_SIZE \<Longrightarrow> RELAY_HEADER_SIZE \<le> length p"
  by (simp add: cell_sizes)

lemma relay_set_digest_payload:
  assumes "relay_set_digest ops d cell = (d', cell')" and "fresh_payload (ce_payload cell)"
    and "digest_lengths ops"
  shows "length (ce_payload cell') = CELL_PAYLOAD_SIZE"
    and "rh_recognized (relay_header_unpack (ce_payload cell')) = 0"
    and "relay_digest_matches ops d cell' = (True, d', cell)"
    and "cell' = cell\<lparr>ce_payload := ce_payload cell'\<rparr>"
proof -
  let ?p = "ce_payload cell" and ?rh = "relay_header_unpack (ce_payload cell)"
  let ?i = "dg_get ops (dg_add ops d (take CELL_PAYLOAD_SIZE ?p)) 4"
  have len: "RELAY_HEADER_SIZE \<le> length ?p"
    using assms(2) by (intro payload_header) (simp add: fresh_payload_def)
  have i4: "length ?i = 4" using assms(3) by (simp add: digest_lengths_def)
  have cell': "cell' = cell\<lparr>ce_payload := relay_header_pack ?p (?rh\<lparr>rh_integrity := ?i\<rparr>)\<rparr>"
    and d': "d' = dg_add ops d (take CELL_PAYLOAD_SIZE ?p)"
    using assms(1) by (auto simp: relay_set_digest_def Let_def)
  then have un: "relay_header_unpack (ce_payload cell') = ?rh\<lparr>rh_integrity := ?i\<rparr>"
    using i4 by (simp add: relay_header_unpack_pack)
  show "length (ce_payload cell') = CELL_PAYLOAD_SIZE"
    using cell' i4 len assms(2) by (simp add: length_relay_header_pack fresh_payload_def)
  show "rh_recognized (relay_header_unpack (ce_payload cell')) = 0"
    using un assms(2) by (simp add: fresh_payload_def)
  have same: "?rh\<lparr>rh_integrity := replicate 4 0\<rparr> = ?rh"
    using assms(2) by (cases ?rh) (simp add: fresh_payload_def)
  have "relay_header_pack (ce_payload cell') (?rh\<lparr>rh_integrity := replicate 4 0\<rparr>) = ?p"
    using cell' i4 len by (simp add: relay_header_pack_pack relay_header_pack_unpack same)
  then show "relay_digest_matches ops d cell' = (True, d', cell)"
    unfolding relay_digest_matches_def Let_def un using cell' d' by simp
  show "cell' = cell\<lparr>ce_payload := ce_payload cell'\<rparr>" by (simp add: cell')
qed

lemma relay_digest_matches_restores:
  assumes "relay_digest_matches ops d cell = (False, d', cell')"
    and "length (ce_payload cell) = CELL_PAYLOAD_SIZE"
  shows "d' = d \<and> cell' = cell"
proof -
  let ?p = "ce_payload cell" and ?rh = "relay_header_unpack (ce_payload cell)"
  have len: "RELAY_HEADER_SIZE \<le> length ?p" using assms(2) by (rule payload_header)
  have "relay_header_pack (relay_header_pack ?p (?rh\<lparr>rh_integrity := replicate 4 0\<rparr>)) ?rh = ?p"
    using len by (simp add: relay_header_pack_pack relay_header_pack_unpack)
  moreover have "?rh\<lparr>rh_integrity := replicate 4 0, rh_integrity := rh_integrity ?rh\<rparr> = ?rh" by simp
  ultimately show ?thesis
    using assms(1) by (auto simp: relay_digest_matches_def Let_def split: if_splits)
qed

text \<open>
  The digest of relay cells.  A cell stamped by \<^verbatim>\<open>relay_set_digest\<close> is accepted by
  \<^verbatim>\<open>relay_digest_matches\<close> with the same running digest, which then advances to the sender's,
  and the cell is handed on with its digest field cleared; a cell that is not accepted leaves the
  running digest and the cell exactly as they were.
\<close>

lemma relay_digest_check:
  assumes "digest_lengths ops" and "length (ce_payload cell) = CELL_PAYLOAD_SIZE"
  shows "(fresh_payload (ce_payload cell) \<longrightarrow>
      (let (d', cell') = relay_set_digest ops d cell in
       relay_digest_matches ops d cell' = (True, d', cell))) \<and>
    (\<not> fst (relay_digest_matches ops d cell) \<longrightarrow>
      relay_digest_matches ops d cell = (False, d, cell))"
proof (intro conjI impI)
  assume "fresh_payload (ce_payload cell)"
  then show "let (d', cell') = relay_set_digest ops d cell in
       relay_digest_matches ops d cell' = (True, d', cell)"
    using relay_set_digest_payload(3) [of ops d cell] assms(1) by (simp add: case_prod_unfold)
next
  assume "\<not> fst (relay_digest_matches ops d cell)"
  then obtain d' cell' where "relay_digest_matches ops d cell = (False, d', cell')"
    by (cases "relay_digest_matches ops d cell") auto
  with relay_digest_matches_restores [OF this assms(2)]
  show "relay_digest_matches ops d cell = (False, d, cell)" by simp
qed

subsection \<open>Whose a cell is\<close>

text \<open>
  The rule of the protocol, on the bytes of a payload: bytes 1 and 2 are the recognized field, bytes 5
  to 8 the digest.  A payload is meant for the holder of running digest \<open>d\<close> when the recognized field
  is zero and the digest field is the start of \<open>d\<close> continued with the payload, digest field cleared.
  A layer of encryption is the key stream of a cipher from its position on, XORed to the payload.
\<close>

definition cleared_digest :: "byte list \<Rightarrow> byte list" where
  "cleared_digest p = take 5 p @ replicate 4 0 @ drop 9 p"

definition meant_for :: "'d digest_ops \<Rightarrow> 'd \<Rightarrow> byte list \<Rightarrow> bool" where
  "meant_for ops d p \<longleftrightarrow> take 2 (drop 1 p) = [0, 0] \<and>
     take 4 (drop 5 p) = dg_get ops (dg_add ops d (cleared_digest p)) 4"

definition stamped :: "'d digest_ops \<Rightarrow> 'd \<Rightarrow> byte list \<Rightarrow> byte list" where
  "stamped ops d p = take 5 p @ dg_get ops (dg_add ops d p) 4 @ drop 9 p"

definition key_layer :: "aes_cnt_cipher \<Rightarrow> byte list \<Rightarrow> byte list" where
  "key_layer c p = map2 (XOR) p (map (keystream (ac_rk c) (ac_nr c)) [stream_pos c..<stream_pos c + length p])"

definition key_layers :: "aes_cnt_cipher list \<Rightarrow> byte list \<Rightarrow> byte list" where
  "key_layers = foldr key_layer"

text \<open>
  The hops up to the one a payload is stamped for, each with its running digest and its cipher.  Hop
  \<open>i\<close> finds the payload with the layers of the later hops still on it; the payload lands at the first
  hop that finds it meant for itself.
\<close>

definition own_at :: "'d digest_ops \<Rightarrow> ('d \<times> aes_cnt_cipher) list \<Rightarrow> byte list \<Rightarrow> nat \<Rightarrow> bool" where
  "own_at ops keys p i \<longleftrightarrow> meant_for ops (fst (keys ! i)) (key_layers (map snd (drop (Suc i) keys)) p)"

definition lands_at :: "'d digest_ops \<Rightarrow> ('d \<times> aes_cnt_cipher) list \<Rightarrow> byte list \<Rightarrow> nat \<Rightarrow> bool" where
  "lands_at ops keys p j \<longleftrightarrow> own_at ops keys p j \<and> (\<forall>i<j. \<not> own_at ops keys p i)"

definition forward_keys :: "'d crypt_path list \<Rightarrow> ('d \<times> aes_cnt_cipher) list" where
  "forward_keys hops = map (\<lambda>h. (cp_f_digest h, cp_f_crypto h)) hops"

definition backward_keys :: "'d crypt_path list \<Rightarrow> ('d \<times> aes_cnt_cipher) list" where
  "backward_keys hops = map (\<lambda>h. (cp_b_digest h, cp_b_crypto h)) hops"

lemma lands_at_0: "lands_at ops (k # ks) p 0 \<longleftrightarrow> meant_for ops (fst k) (key_layers (map snd ks) p)"
  by (simp add: lands_at_def own_at_def)

lemma lands_at_Suc:
  "lands_at ops (k # ks) p (Suc j) \<longleftrightarrow>
     \<not> meant_for ops (fst k) (key_layers (map snd ks) p) \<and> lands_at ops ks p j"
proof -
  have "own_at ops (k # ks) p 0 \<longleftrightarrow> meant_for ops (fst k) (key_layers (map snd ks) p)"
    "own_at ops (k # ks) p (Suc i) \<longleftrightarrow> own_at ops ks p i" for i by (simp_all add: own_at_def)
  then show ?thesis by (auto simp: lands_at_def less_Suc_eq_0_disj)
qed

lemma header_bytes:
  assumes "RELAY_HEADER_SIZE \<le> length p"
  shows "rh_recognized (relay_header_unpack p) = 0 \<longleftrightarrow> take 2 (drop 1 p) = [0, 0]"
    and "relay_header_pack p (relay_header_unpack p\<lparr>rh_integrity := i\<rparr>) = take 5 p @ take 4 i @ drop 9 p"
proof -
  obtain a0 a1 a2 a3 a4 a5 a6 a7 a8 a9 a10 p' where
    p: "p = a0 # a1 # a2 # a3 # a4 # a5 # a6 # a7 # a8 # a9 # a10 # p'"
    using assms by (auto simp: RELAY_HEADER_SIZE_def eval_nat_numeral Suc_le_length_iff)
  have "rd16 (a1 # a2 # xs) = 0 \<longleftrightarrow> a1 = 0 \<and> a2 = 0" for xs
    using be16_rd16 [of a1 a2 xs] by (auto simp: be16_def simp del: rd16.simps) simp
  then show "rh_recognized (relay_header_unpack p) = 0 \<longleftrightarrow> take 2 (drop 1 p) = [0, 0]"
    by (simp add: p relay_header_unpack_def del: rd16.simps)
  show "relay_header_pack p (relay_header_unpack p\<lparr>rh_integrity := i\<rparr>) = take 5 p @ take 4 i @ drop 9 p"
    by (simp add: p relay_header_pack_def relay_header_unpack_def RELAY_HEADER_SIZE_def be16_rd16 del: rd16.simps)
qed

text \<open>\<^verbatim>\<open>relay_digest_matches\<close>, with the test of the recognized field before it, decides this rule.\<close>

lemma matches_iff_meant:
  assumes "length (ce_payload cell) = CELL_PAYLOAD_SIZE"
  shows "rh_recognized (relay_header_unpack (ce_payload cell)) = 0 \<and> fst (relay_digest_matches ops d cell) \<longleftrightarrow>
    meant_for ops d (ce_payload cell)"
proof -
  let ?p = "ce_payload cell"
  note hb = header_bytes [OF payload_header [OF assms]]
  have "take CELL_PAYLOAD_SIZE (cleared_digest ?p) = cleared_digest ?p"
    using assms by (simp add: cleared_digest_def cell_sizes)
  moreover have "rh_integrity (relay_header_unpack ?p) = take 4 (drop 5 ?p)" by (simp add: relay_header_unpack_def)
  ultimately show ?thesis
    by (simp add: relay_digest_matches_def meant_for_def hb cleared_digest_def Let_def)
qed

lemma relay_set_digest_stamped:
  assumes "fresh_payload (ce_payload cell)" and "digest_lengths ops"
  shows "snd (relay_set_digest ops d cell) = cell\<lparr>ce_payload := stamped ops d (ce_payload cell)\<rparr>"
  using assms header_bytes(2) [OF payload_header, of "ce_payload cell"]
  by (simp add: relay_set_digest_def Let_def stamped_def fresh_payload_def digest_lengths_def)

lemma aes_crypt_layer:
  assumes "aes_ok c" and "aes_crypt_inplace c xs = OK (c', ys)"
  shows "ys = key_layer c xs"
  using aes_stream_ok [OF assms(1), of xs] assms(2)
  by (cases "xs = []") (auto simp: aes_crypt_inplace_def key_layer_def)

text \<open>A digest for the witnesses: it keeps the bytes added and returns the last ones.\<close>

definition toy_digest :: "byte list digest_ops" where
  "toy_digest = \<lparr>dg_new = [], dg_add = (\<lambda>d bs. d @ bs), dg_get = (\<lambda>d n. replicate (n - length d) 1 @ take n d)\<rparr>"

lemma toy_digest_lengths: "digest_lengths toy_digest"
  by (auto simp: digest_lengths_def toy_digest_def min_def)

definition example_relay_cell :: cell where
  "example_relay_cell = \<lparr>ce_circ_id = 1, ce_command = 3, ce_payload = 2 # replicate 508 0\<rparr>"

lemma example_relay_cell_fresh: "fresh_payload (ce_payload example_relay_cell)"
  by (simp add: fresh_payload_def example_relay_cell_def relay_header_unpack_def cell_sizes
      numeral_eq_Suc)

subsection \<open>Cells along a circuit\<close>

text \<open>
  The relays of a circuit, first hop first.  An outgoing cell passes them until one recognizes it;
  an incoming cell passes those between its sender and the origin, the nearest to the sender first.
\<close>

fun forward_cell ::
  "'d digest_ops \<Rightarrow> ('d, 'z) circuit_crypto_scheme list \<Rightarrow> cell \<Rightarrow>
   (('d, 'z) circuit_crypto_scheme list \<times> cell \<times> nat option) res" where
  "forward_cell ops [] cell = OK ([], cell, None)"
| "forward_cell ops (r # rs) cell =
     rbind (relay_crypt ops r cell CELL_DIRECTION_OUT) (\<lambda>(r', cell', res).
       if res = Recognized None then OK (r' # rs, cell', Some 0)
       else rbind (forward_cell ops rs cell') (\<lambda>(rs', cell'', k).
         OK (r' # rs', cell'', map_option Suc k)))"

fun backward_cell ::
  "'d digest_ops \<Rightarrow> ('d, 'z) circuit_crypto_scheme list \<Rightarrow> cell \<Rightarrow>
   (('d, 'z) circuit_crypto_scheme list \<times> cell) res" where
  "backward_cell ops [] cell = OK ([], cell)"
| "backward_cell ops (r # rs) cell =
     rbind (backward_cell ops rs cell) (\<lambda>(rs', cell').
       rbind (relay_crypt ops r cell' CELL_DIRECTION_IN) (\<lambda>(r', cell'', _).
         OK (r' # rs', cell'')))"

definition out_keyed :: "'d crypt_path \<Rightarrow> ('d, 'z) circuit_crypto_scheme \<Rightarrow> bool" where
  "out_keyed h r \<longleftrightarrow> \<not> ci_origin r \<and> aes_ok (cp_f_crypto h) \<and> ci_n_crypto r = cp_f_crypto h"

definition out_synced :: "'d crypt_path \<Rightarrow> ('d, 'z) circuit_crypto_scheme \<Rightarrow> bool" where
  "out_synced h r \<longleftrightarrow> out_keyed h r \<and> ci_n_digest r = cp_f_digest h"

definition in_synced :: "'d crypt_path \<Rightarrow> ('d, 'z) circuit_crypto_scheme \<Rightarrow> bool" where
  "in_synced h r \<longleftrightarrow> \<not> ci_origin r \<and> aes_ok (cp_b_crypto h) \<and> ci_p_crypto r = cp_b_crypto h \<and>
     ci_p_digest r = cp_b_digest h \<and> cp_state h = CPATH_STATE_OPEN"

text \<open>One relay takes one layer off and either accepts the cell or passes it on unchanged.\<close>

lemma relay_crypt_out_step:
  assumes "\<not> ci_origin r" and "aes_crypt_inplace (ci_n_crypto r) (ce_payload cell) = OK (c, p)"
    and "length p = CELL_PAYLOAD_SIZE"
  obtains (accepted) r' cell' where "meant_for ops (ci_n_digest r) p" and
      "relay_crypt ops r cell CELL_DIRECTION_OUT = OK (r', cell', Recognized None)"
    | (passed) "\<not> meant_for ops (ci_n_digest r) p" and "relay_crypt ops r cell CELL_DIRECTION_OUT =
        OK (r\<lparr>ci_n_crypto := c\<rparr>, cell\<lparr>ce_payload := p\<rparr>, Not_Recognized)"
proof (cases "rh_recognized (relay_header_unpack p) = 0")
  case True
  note iff = matches_iff_meant [of "cell\<lparr>ce_payload := p\<rparr>" ops "ci_n_digest r"]
  obtain m d cell' where m: "relay_digest_matches ops (ci_n_digest r) (cell\<lparr>ce_payload := p\<rparr>) = (m, d, cell')"
    by (cases "relay_digest_matches ops (ci_n_digest r) (cell\<lparr>ce_payload := p\<rparr>)") auto
  show thesis
  proof (cases m)
    case True
    with m assms iff \<open>rh_recognized _ = 0\<close> show thesis
      by (intro accepted) (simp_all add: relay_crypt_def relay_crypt_one_payload_def)
  next
    case False
    with m relay_digest_matches_restores [of ops _ "cell\<lparr>ce_payload := p\<rparr>"] assms(3)
    have "d = ci_n_digest r \<and> cell' = cell\<lparr>ce_payload := p\<rparr>" by auto
    with m assms iff False \<open>rh_recognized _ = 0\<close> show thesis
      by (intro passed) (simp_all add: relay_crypt_def relay_crypt_one_payload_def)
  qed
next
  case False
  with assms matches_iff_meant [of "cell\<lparr>ce_payload := p\<rparr>" ops "ci_n_digest r"] show thesis
    by (intro passed) (simp_all add: relay_crypt_def relay_crypt_one_payload_def)
qed

lemma package_out_loop_ok:
  assumes "list_all (\<lambda>h. aes_ok (cp_f_crypto h)) hops"
  shows "\<exists>hops' e. package_out_loop hops p = OK (hops', e) \<and> length e = length p"
  using assms
proof (induction hops)
  case (Cons h hops)
  then obtain hops' e where "package_out_loop hops p = OK (hops', e)" "length e = length p" by auto
  with aes.crypt_total [of "cp_f_crypto h" e] Cons.prems show ?case
    by (fastforce simp: relay_crypt_one_payload_def)
qed simp

lemma package_out_loop_layers:
  assumes "list_all (\<lambda>h. aes_ok (cp_f_crypto h)) hops" and "package_out_loop hops p = OK (hops', e)"
  shows "e = key_layers (map cp_f_crypto hops) p"
  using assms
proof (induction hops arbitrary: hops' e)
  case (Cons h hops)
  then show ?case
    by (auto simp: res_simps relay_crypt_one_payload_def key_layers_def dest: aes_crypt_layer)
qed (simp add: key_layers_def)

lemma aes_crypt_OK_D:
  assumes "aes_ok c" and "aes_crypt_inplace c xs = OK (c', ys)"
  shows "length ys = length xs" and "aes_ok c'" and "aes_crypt_inplace c ys = OK (c', xs)"
  using aes.crypt_total [of c xs] aes.crypt_undo [of c xs] assms by auto

text \<open>
  The cell wrapped for the last of \<open>hops\<close>, going through the relays of these hops: the first relay
  that finds it meant for itself accepts it, and if that is the last then it gets the stamped cell and
  the keys stay paired.
\<close>

definition relay_keys :: "('d, 'z) circuit_crypto_scheme list \<Rightarrow> ('d \<times> aes_cnt_cipher) list" where
  "relay_keys rs = map (\<lambda>r. (ci_n_digest r, ci_n_crypto r)) rs"

lemma relay_keys_keyed:
  "list_all2 out_keyed hops rs \<Longrightarrow> map snd (relay_keys rs) = map cp_f_crypto hops"
  by (induction rule: list_all2_induct) (auto simp: relay_keys_def out_keyed_def)

lemma relay_keys_synced: "list_all2 out_synced hops rs \<Longrightarrow> relay_keys rs = forward_keys hops"
  by (induction rule: list_all2_induct) (auto simp: relay_keys_def forward_keys_def out_synced_def out_keyed_def)

lemma out_keyed_aes_ok:
  "list_all2 out_keyed hops rs \<Longrightarrow> list_all (\<lambda>h. aes_ok (cp_f_crypto h)) hops"
  by (induction rule: list_all2_induct) (auto simp: out_keyed_def)

lemma forward_wrapped:
  assumes "package_out_loop (hops @ [h]) p = OK (hops', e)"
    and "list_all2 out_keyed (hops @ [h]) (rs @ [r])" and "length p = CELL_PAYLOAD_SIZE"
    and "rh_recognized (relay_header_unpack p) = 0"
    and "relay_digest_matches ops (ci_n_digest r) (cell\<lparr>ce_payload := p\<rparr>) = (True, d', cell0)"
  shows "\<exists>rs' cell' j. forward_cell ops (rs @ r # rest) (cell\<lparr>ce_payload := e\<rparr>) = OK (rs', cell', Some j) \<and>
     length e = CELL_PAYLOAD_SIZE \<and> j \<le> length rs \<and> lands_at ops (relay_keys (rs @ [r])) p j \<and>
     (j = length rs \<longrightarrow> cell' = cell0 \<and> (\<exists>cs c. length cs = length rs \<and>
        rs' = map2 (\<lambda>c r. r\<lparr>ci_n_crypto := c\<rparr>) cs rs @ r\<lparr>ci_n_crypto := c, ci_n_digest := d'\<rparr> # rest \<and>
        list_all aes_ok (cs @ [c]) \<and>
        hops' = map2 (\<lambda>c h. h\<lparr>cp_f_crypto := c\<rparr>) cs hops @ [h\<lparr>cp_f_crypto := c\<rparr>]))"
  using assms(1,2)
proof (induction hops arbitrary: rs hops' e)
  case Nil
  then have rs: "rs = []" and k: "\<not> ci_origin r" "aes_ok (ci_n_crypto r)" "ci_n_crypto r = cp_f_crypto h"
    by (auto simp: out_keyed_def list_all2_Cons1)
  from Nil obtain c where c: "aes_crypt_inplace (ci_n_crypto r) p = OK (c, e)" "hops' = [h\<lparr>cp_f_crypto := c\<rparr>]"
    by (auto simp: res_simps relay_crypt_one_payload_def k)
  note D = aes_crypt_OK_D [OF k(2) c(1)]
  have "relay_crypt ops r (cell\<lparr>ce_payload := e\<rparr>) CELL_DIRECTION_OUT =
      OK (r\<lparr>ci_n_crypto := c, ci_n_digest := d'\<rparr>, cell0, Recognized None)"
    using assms(4,5) D k(1) by (simp add: relay_crypt_def relay_crypt_one_payload_def)
  moreover have "lands_at ops (relay_keys [r]) p 0"
    using matches_iff_meant [of "cell\<lparr>ce_payload := p\<rparr>" ops "ci_n_digest r"] assms(3-5)
    by (simp add: lands_at_0 relay_keys_def key_layers_def)
  ultimately show ?case using rs c D assms(3) by (auto intro: exI [of _ "[]"])
next
  case (Cons h1 hops)
  obtain r1 rs1 where rs: "rs = r1 # rs1" and ok: "out_keyed h1 r1"
    and l2: "list_all2 out_keyed (hops @ [h]) (rs1 @ [r])"
    using Cons.prems(2) by (cases rs) auto
  from ok have k: "\<not> ci_origin r1" "aes_ok (ci_n_crypto r1)" "ci_n_crypto r1 = cp_f_crypto h1"
    by (simp_all add: out_keyed_def)
  from Cons.prems(1) obtain hops1 e1 c1 where 1: "package_out_loop (hops @ [h]) p = OK (hops1, e1)"
    "aes_crypt_inplace (ci_n_crypto r1) e1 = OK (c1, e)" "hops' = h1\<lparr>cp_f_crypto := c1\<rparr> # hops1"
    by (auto simp: res_simps relay_crypt_one_payload_def k)
  from Cons.IH [OF 1(1) l2] obtain rs' cell' j where
    IH: "forward_cell ops (rs1 @ r # rest) (cell\<lparr>ce_payload := e1\<rparr>) = OK (rs', cell', Some j)"
      "length e1 = CELL_PAYLOAD_SIZE" "j \<le> length rs1" "lands_at ops (relay_keys (rs1 @ [r])) p j"
    and last: "j = length rs1 \<longrightarrow> cell' = cell0 \<and> (\<exists>cs c. length cs = length rs1 \<and>
        rs' = map2 (\<lambda>c r. r\<lparr>ci_n_crypto := c\<rparr>) cs rs1 @ r\<lparr>ci_n_crypto := c, ci_n_digest := d'\<rparr> # rest \<and>
        list_all aes_ok (cs @ [c]) \<and>
        hops1 = map2 (\<lambda>c h. h\<lparr>cp_f_crypto := c\<rparr>) cs hops @ [h\<lparr>cp_f_crypto := c\<rparr>])"
    by blast
  note D = aes_crypt_OK_D [OF k(2) 1(2)]
  have step: "aes_crypt_inplace (ci_n_crypto r1) (ce_payload (cell\<lparr>ce_payload := e\<rparr>)) = OK (c1, e1)"
    using D by simp
  have "e1 = key_layers (map snd (relay_keys (rs1 @ [r]))) p"
    using package_out_loop_layers [OF out_keyed_aes_ok [OF l2] 1(1)] relay_keys_keyed [OF l2] by simp
  then have lands: "lands_at ops (relay_keys (rs @ [r])) p 0 \<longleftrightarrow> meant_for ops (ci_n_digest r1) e1"
    "lands_at ops (relay_keys (rs @ [r])) p (Suc i) \<longleftrightarrow>
      \<not> meant_for ops (ci_n_digest r1) e1 \<and> lands_at ops (relay_keys (rs1 @ [r])) p i" for i
    using rs by (simp_all add: relay_keys_def lands_at_0 lands_at_Suc)
  from k(1) step IH(2) show ?case
  proof (cases rule: relay_crypt_out_step [where ops = ops])
    case (accepted r' cell'')
    then show ?thesis using rs D IH lands(1) by simp
  next
    case passed
    then have f: "forward_cell ops (rs @ r # rest) (cell\<lparr>ce_payload := e\<rparr>) =
        OK (r1\<lparr>ci_n_crypto := c1\<rparr> # rs', cell', Some (Suc j))"
      using rs IH by simp
    have "cell' = cell0 \<and> (\<exists>cs c. length cs = length rs \<and>
        r1\<lparr>ci_n_crypto := c1\<rparr> # rs' =
          map2 (\<lambda>c r. r\<lparr>ci_n_crypto := c\<rparr>) cs rs @ r\<lparr>ci_n_crypto := c, ci_n_digest := d'\<rparr> # rest \<and>
        list_all aes_ok (cs @ [c]) \<and>
        hops' = map2 (\<lambda>c h. h\<lparr>cp_f_crypto := c\<rparr>) cs (h1 # hops) @ [h\<lparr>cp_f_crypto := c\<rparr>])"
      if "Suc j = length rs"
    proof -
      from that rs last obtain cs c where "cell' = cell0" "length cs = length rs1"
        "rs' = map2 (\<lambda>c r. r\<lparr>ci_n_crypto := c\<rparr>) cs rs1 @ r\<lparr>ci_n_crypto := c, ci_n_digest := d'\<rparr> # rest"
        "list_all aes_ok (cs @ [c])"
        "hops1 = map2 (\<lambda>c h. h\<lparr>cp_f_crypto := c\<rparr>) cs hops @ [h\<lparr>cp_f_crypto := c\<rparr>]" by auto
      with rs D 1(3) show ?thesis
        by (intro conjI exI [of _ "c1 # cs"] exI [of _ c]) simp_all
    qed
    with f D IH rs lands(2) passed(1) show ?thesis by auto
  qed
qed

lemma list_all2_synced_update:
  assumes "list_all2 out_synced hops rs" and "length cs = length rs" and "list_all aes_ok cs"
  shows "list_all2 out_synced (map2 (\<lambda>c h. h\<lparr>cp_f_crypto := c\<rparr>) cs hops)
     (map2 (\<lambda>c r. r\<lparr>ci_n_crypto := c\<rparr>) cs rs)"
  using assms
proof (induction arbitrary: cs rule: list_all2_induct)
  case (Cons h hs r rs)
  then show ?case by (cases cs) (auto simp: out_synced_def out_keyed_def)
qed simp

lemma list_all2_split_at:
  assumes "list_all2 P xs ys" and "k < length ys"
  obtains xs1 x xs2 ys1 y ys2 where "xs = xs1 @ x # xs2" and "ys = ys1 @ y # ys2" and
    "length xs1 = k" and "length ys1 = k" and "list_all2 P xs1 ys1" and "P x y" and "list_all2 P xs2 ys2"
proof
  have l: "length xs = length ys" using assms(1) by (rule list_all2_lengthD)
  show "xs = take k xs @ xs ! k # drop (Suc k) xs" "ys = take k ys @ ys ! k # drop (Suc k) ys"
    using assms(2) l by (simp_all add: id_take_nth_drop [symmetric])
  show "length (take k xs) = k" "length (take k ys) = k" using assms(2) l by simp_all
  show "list_all2 P (take k xs) (take k ys)" "list_all2 P (drop (Suc k) xs) (drop (Suc k) ys)"
    using assms(1) by (simp_all add: list_all2_takeI list_all2_dropI)
  show "P (xs ! k) (ys ! k)" using assms l by (simp add: list_all2_nthD)
qed

lemma forward_delivery:
  assumes "digest_lengths ops" and "fresh_payload (ce_payload cell)"
    and "list_all2 out_synced (ci_cpath circ) rs" and "k < length rs"
  shows "\<exists>circ' wrapped rs' cell' j. package_out ops circ cell k = OK (circ', wrapped) \<and>
     forward_cell ops rs wrapped = OK (rs', cell', Some j) \<and> j \<le> k \<and>
     lands_at ops (forward_keys (take (Suc k) (ci_cpath circ)))
       (stamped ops (cp_f_digest (ci_cpath circ ! k)) (ce_payload cell)) j \<and>
     (j = k \<longrightarrow> cell' = cell \<and> list_all2 out_synced (ci_cpath circ') rs')"
proof -
  obtain hs h hs2 rs1 r rs2 where s: "ci_cpath circ = hs @ h # hs2" "rs = rs1 @ r # rs2"
    "length hs = k" "length rs1 = k" "list_all2 out_synced hs rs1" "out_synced h r"
    "list_all2 out_synced hs2 rs2"
    using assms(3,4) by (rule list_all2_split_at)
  obtain d' cell1 where sd: "relay_set_digest ops (cp_f_digest h) cell = (d', cell1)" by fastforce
  let ?p = "ce_payload cell1" and ?h = "h\<lparr>cp_f_digest := d'\<rparr>"
  note rs = relay_set_digest_payload [OF sd assms(2,1)]
  have "list_all2 out_keyed hs rs1" using s(5) by (rule list_all2_mono) (simp add: out_synced_def)
  moreover have "out_keyed ?h r" using s(6) by (simp add: out_synced_def out_keyed_def)
  ultimately have k2: "list_all2 out_keyed (hs @ [?h]) (rs1 @ [r])" by (simp add: list_all2_appendI)
  have "list_all (\<lambda>h. aes_ok (cp_f_crypto h)) (hs @ [?h])"
    using out_keyed_aes_ok [OF k2] .
  then obtain hops e where l: "package_out_loop (hs @ [?h]) ?p = OK (hops, e)"
    using package_out_loop_ok by blast
  have m: "relay_digest_matches ops (ci_n_digest r) (cell\<lparr>ce_payload := ?p\<rparr>) = (True, d', cell)"
    using rs(3,4) s(6) by (simp add: out_synced_def)
  from forward_wrapped [OF l k2 rs(1,2) m, of rs2, folded s(2), unfolded s(4)] obtain rs' cell' j where
    f: "forward_cell ops rs (cell\<lparr>ce_payload := e\<rparr>) = OK (rs', cell', Some j)" "j \<le> k"
      "lands_at ops (relay_keys (rs1 @ [r])) ?p j"
    and last: "j = k \<longrightarrow> cell' = cell \<and> (\<exists>cs c. length cs = k \<and>
        rs' = map2 (\<lambda>c r. r\<lparr>ci_n_crypto := c\<rparr>) cs rs1 @ r\<lparr>ci_n_crypto := c, ci_n_digest := d'\<rparr> # rs2 \<and>
        list_all aes_ok (cs @ [c]) \<and>
        hops = map2 (\<lambda>c h. h\<lparr>cp_f_crypto := c\<rparr>) cs hs @ [?h\<lparr>cp_f_crypto := c\<rparr>])"
    by blast
  have "cell1\<lparr>ce_payload := e\<rparr> = cell\<lparr>ce_payload := e\<rparr>" by (subst rs(4)) simp
  then have p: "package_out ops circ cell k = OK (circ\<lparr>ci_cpath := hops @ hs2\<rparr>, cell\<lparr>ce_payload := e\<rparr>)"
    using s(1) l sd by (simp add: package_out_def nth_append list_update_append s(3) [symmetric])
  have "list_all2 out_synced (hops @ hs2) rs'" if "j = k"
  proof -
    from that last s(4) obtain cs c where "length cs = length rs1"
        "rs' = map2 (\<lambda>c r. r\<lparr>ci_n_crypto := c\<rparr>) cs rs1 @ r\<lparr>ci_n_crypto := c, ci_n_digest := d'\<rparr> # rs2"
        "list_all aes_ok (cs @ [c])"
        "hops = map2 (\<lambda>c h. h\<lparr>cp_f_crypto := c\<rparr>) cs hs @ [?h\<lparr>cp_f_crypto := c\<rparr>]" by auto
    with list_all2_synced_update [OF s(5)] s(6,7) show ?thesis
      by (auto simp: out_synced_def out_keyed_def intro!: list_all2_appendI)
  qed
  moreover have "relay_keys (rs1 @ [r]) = forward_keys (take (Suc k) (ci_cpath circ))"
    using relay_keys_synced [of "hs @ [h]" "rs1 @ [r]"] s by (simp add: list_all2_appendI)
  moreover have "?p = stamped ops (cp_f_digest (ci_cpath circ ! k)) (ce_payload cell)"
    using relay_set_digest_stamped [OF assms(2,1), of "cp_f_digest h"] sd s(1,3) by (simp add: nth_append)
  ultimately show ?thesis using p f last by auto
qed

text \<open>
  C3: an outgoing cell.  Let the origin share the forward keys and running digests of its crypt
  path with the relays.  A cell that \<^verbatim>\<open>circuit_package_relay_cell\<close> wraps for hop \<open>k\<close>, sent
  through the relays' \<^verbatim>\<open>relay_crypt\<close>, is taken by exactly the first relay that, with the layers
  up to its own removed, reads a zero recognized field and the digest of its own running digest; the
  relays before it pass it on.  Hop \<open>k\<close> always reads it so.  When no earlier hop does, hop \<open>k\<close> gets the
  cell as it was before wrapping, and all keys and digests of the two sides are paired again.
\<close>

theorem onion_forward_delivery:
  assumes "digest_lengths ops" and "fresh_payload (ce_payload cell)"
    and "list_all2 out_synced (ci_cpath circ) rs" and "k < length rs"
  shows "\<exists>circ' wrapped rs' cell' j. package_out ops circ cell k = OK (circ', wrapped) \<and>
     forward_cell ops rs wrapped = OK (rs', cell', Some j) \<and> j \<le> k \<and>
     lands_at ops (forward_keys (take (Suc k) (ci_cpath circ)))
       (stamped ops (cp_f_digest (ci_cpath circ ! k)) (ce_payload cell)) j \<and>
     (j = k \<longrightarrow> cell' = cell \<and> list_all2 out_synced (ci_cpath circ') rs')"
  using forward_delivery [OF assms] .

text \<open>The origin takes the layers off again; \<open>i\<close> is the index of the first hop.\<close>

lemma backward_unwrapped:
  assumes "aes_crypt_inplace (cp_b_crypto h) p = OK (c, e)" and "aes_ok (cp_b_crypto h)"
    and "list_all2 in_synced hs rs" and "length p = CELL_PAYLOAD_SIZE"
    and "rh_recognized (relay_header_unpack p) = 0" and "cp_state h = CPATH_STATE_OPEN"
    and "relay_digest_matches ops (cp_b_digest h) (cell\<lparr>ce_payload := p\<rparr>) = (True, d', cell0)"
  shows "\<exists>rs' e' hops' cell' j. e' = key_layers (map cp_b_crypto (hs @ [h])) p \<and>
     backward_cell ops rs (cell\<lparr>ce_payload := e\<rparr>) = OK (rs', cell\<lparr>ce_payload := e'\<rparr>) \<and>
     length e' = CELL_PAYLOAD_SIZE \<and>
     relay_crypt_origin_loop ops (hs @ h # rest) (cell\<lparr>ce_payload := e'\<rparr>) i =
       OK (hops', cell', Recognized (Some (i + j))) \<and> j \<le> length hs \<and>
     lands_at ops (backward_keys (hs @ [h])) p j \<and>
     (j = length hs \<longrightarrow> cell' = cell0 \<and> (\<exists>hs'. list_all2 in_synced hs' rs' \<and>
        hops' = hs' @ h\<lparr>cp_b_crypto := c, cp_b_digest := d'\<rparr> # rest))"
  using assms(3)
proof (induction arbitrary: i rule: list_all2_induct)
  case Nil
  note D = aes_crypt_OK_D [OF assms(2,1)]
  have "relay_crypt_origin_loop ops (h # rest) (cell\<lparr>ce_payload := e\<rparr>) i =
      OK (h\<lparr>cp_b_crypto := c, cp_b_digest := d'\<rparr> # rest, cell0, Recognized (Some i))"
    using D assms(4-7) by (simp add: relay_crypt_one_payload_def)
  moreover have "lands_at ops (backward_keys [h]) p 0"
    using matches_iff_meant [of "cell\<lparr>ce_payload := p\<rparr>" ops "cp_b_digest h"] assms(4,5,7)
    by (simp add: lands_at_0 backward_keys_def key_layers_def)
  ultimately show ?case using D assms(4) aes_crypt_layer [OF assms(2,1)] by (auto simp: key_layers_def)
next
  case (Cons h1 hs r1 rs)
  from Cons.hyps(1) have k: "\<not> ci_origin r1" "aes_ok (ci_p_crypto r1)" "ci_p_crypto r1 = cp_b_crypto h1"
    by (simp_all add: in_synced_def)
  from Cons.IH [of "Suc i"] obtain rs' e' hops' cell' j where
    e': "e' = key_layers (map cp_b_crypto (hs @ [h])) p" and
    IH: "backward_cell ops rs (cell\<lparr>ce_payload := e\<rparr>) = OK (rs', cell\<lparr>ce_payload := e'\<rparr>)"
      "length e' = CELL_PAYLOAD_SIZE"
      "relay_crypt_origin_loop ops (hs @ h # rest) (cell\<lparr>ce_payload := e'\<rparr>) (Suc i) =
       OK (hops', cell', Recognized (Some (Suc i + j)))" "j \<le> length hs"
      "lands_at ops (backward_keys (hs @ [h])) p j"
    and last: "j = length hs \<longrightarrow> cell' = cell0 \<and> (\<exists>hs'. list_all2 in_synced hs' rs' \<and>
        hops' = hs' @ h\<lparr>cp_b_crypto := c, cp_b_digest := d'\<rparr> # rest)" by blast
  obtain c1 e1 where c1: "aes_crypt_inplace (ci_p_crypto r1) e' = OK (c1, e1)"
    using aes.crypt_total [OF k(2)] by blast
  note D = aes_crypt_OK_D [OF k(2) c1]
  let ?h1 = "h1\<lparr>cp_b_crypto := c1\<rparr>" and ?r1 = "r1\<lparr>ci_p_crypto := c1\<rparr>"
  have b: "backward_cell ops (r1 # rs) (cell\<lparr>ce_payload := e\<rparr>) = OK (?r1 # rs', cell\<lparr>ce_payload := e1\<rparr>)"
    using IH(1) c1 k(1) by (simp add: relay_crypt_def relay_crypt_one_payload_def)
  have synced: "in_synced ?h1 ?r1" using Cons.hyps(1) D by (simp add: in_synced_def)
  have len: "length e1 = CELL_PAYLOAD_SIZE" using D IH(2) by simp
  have e1: "e1 = key_layers (map cp_b_crypto ((h1 # hs) @ [h])) p"
    using aes_crypt_layer [OF k(2) c1] e' k(3) by (simp add: key_layers_def)
  have lands: "lands_at ops (backward_keys ((h1 # hs) @ [h])) p 0 \<longleftrightarrow> meant_for ops (cp_b_digest h1) e'"
    "lands_at ops (backward_keys ((h1 # hs) @ [h])) p (Suc j) \<longleftrightarrow>
      \<not> meant_for ops (cp_b_digest h1) e' \<and> lands_at ops (backward_keys (hs @ [h])) p j" for j
    by (simp_all add: backward_keys_def lands_at_0 lands_at_Suc e' comp_def)
  have next_open: "cp_state (hd (hs @ h # rest)) = CPATH_STATE_OPEN"
    using Cons.hyps(2) assms(6) by (cases hs) (auto simp: in_synced_def list_all2_Cons1)
  obtain m d cell2 where m: "(if rh_recognized (relay_header_unpack e') = 0
      then relay_digest_matches ops (cp_b_digest h1) (cell\<lparr>ce_payload := e'\<rparr>)
      else (False, cp_b_digest h1, cell\<lparr>ce_payload := e'\<rparr>)) = (m, d, cell2)"
    by (rule prod_cases3)
  have meant: "m \<longleftrightarrow> meant_for ops (cp_b_digest h1) e'"
    using matches_iff_meant [of "cell\<lparr>ce_payload := e'\<rparr>" ops "cp_b_digest h1"] m IH(2) by (auto split: if_splits)
  have loop: "relay_crypt_origin_loop ops ((h1 # hs) @ h # rest) (cell\<lparr>ce_payload := e1\<rparr>) i =
     (if m then OK (?h1\<lparr>cp_b_digest := d\<rparr> # hs @ h # rest, cell2, Recognized (Some i))
      else rbind (relay_crypt_origin_loop ops (hs @ h # rest) cell2 (Suc i)) (\<lambda>(hops', cell', r).
             OK (?h1\<lparr>cp_b_digest := d\<rparr> # hops', cell', r)))"
    using D(3) k(3) m next_open by (simp add: relay_crypt_one_payload_def Let_def cong: if_cong split del: if_split)
  show ?case
  proof (cases m)
    case True
    with loop have "relay_crypt_origin_loop ops ((h1 # hs) @ h # rest) (cell\<lparr>ce_payload := e1\<rparr>) i =
        OK (?h1\<lparr>cp_b_digest := d\<rparr> # hs @ h # rest, cell2, Recognized (Some (i + 0)))" by simp
    with b len e1 lands(1) meant True show ?thesis by fastforce
  next
    case False
    with m relay_digest_matches_restores [of ops "cp_b_digest h1" "cell\<lparr>ce_payload := e'\<rparr>"] IH(2)
    have "d = cp_b_digest h1" "cell2 = cell\<lparr>ce_payload := e'\<rparr>" by (auto split: if_splits)
    with loop False IH(3) have "relay_crypt_origin_loop ops ((h1 # hs) @ h # rest) (cell\<lparr>ce_payload := e1\<rparr>) i =
        OK (?h1 # hops', cell', Recognized (Some (i + Suc j)))" by simp
    with b len IH(4,5) e1 lands(2) meant False last synced show ?thesis
      by (intro exI [of _ "?r1 # rs'"] exI [of _ e1] exI [of _ "?h1 # hops'"] exI [of _ cell'] exI [of _ "Suc j"])
        (auto intro: exI [of _ "?h1 # _"])
  qed
qed

text \<open>
  C23: an incoming cell.  Let the origin share the backward keys and running digests of its open
  hops with the relays.  A cell that hop \<open>k\<close> packages, passed on by the relays before it, is
  attributed by the origin to exactly the first hop for which, with the layers up to that hop removed,
  the recognized field is zero and the digest is the one of that hop's running digest; hop \<open>k\<close> is such
  a hop.  When no earlier one is, the cell is attributed to hop \<open>k\<close>, arrives as it was before
  packaging, and the two sides are paired again.
\<close>

theorem onion_backward_delivery:
  assumes "digest_lengths ops" and "fresh_payload (ce_payload cell)" and "ci_origin circ"
    and "list_all2 in_synced (ci_cpath circ) (rs @ r # rest)"
  shows "\<exists>r' sent rs' arrived circ' cell' j. package_in ops r cell = OK (r', sent) \<and>
     backward_cell ops rs sent = OK (rs', arrived) \<and>
     relay_crypt ops circ arrived CELL_DIRECTION_IN = OK (circ', cell', Recognized (Some j)) \<and>
     j \<le> length rs \<and>
     lands_at ops (backward_keys (take (Suc (length rs)) (ci_cpath circ)))
       (stamped ops (ci_p_digest r) (ce_payload cell)) j \<and>
     (j = length rs \<longrightarrow> cell' = cell \<and> list_all2 in_synced (ci_cpath circ') (rs' @ r' # rest))"
proof -
  obtain hs h hs2 where s: "ci_cpath circ = hs @ h # hs2" "list_all2 in_synced hs rs" "in_synced h r"
    "list_all2 in_synced hs2 rest"
    using assms(4) by (auto simp: list_all2_append2 list_all2_Cons2)
  obtain d' cell1 where sd: "relay_set_digest ops (cp_b_digest h) cell = (d', cell1)" by fastforce
  note rs = relay_set_digest_payload [OF sd assms(2,1)]
  have h: "aes_ok (cp_b_crypto h)" "cp_state h = CPATH_STATE_OPEN" "ci_p_crypto r = cp_b_crypto h"
    "ci_p_digest r = cp_b_digest h" using s(3) by (simp_all add: in_synced_def)
  obtain c e where c: "aes_crypt_inplace (cp_b_crypto h) (ce_payload cell1) = OK (c, e)"
    using aes.crypt_total [OF h(1)] by blast
  have ce: "cell1\<lparr>ce_payload := e\<rparr> = cell\<lparr>ce_payload := e\<rparr>" by (subst rs(4)) simp
  let ?r = "r\<lparr>ci_p_digest := d', ci_p_crypto := c\<rparr>"
  have p: "package_in ops r cell = OK (?r, cell\<lparr>ce_payload := e\<rparr>)"
    using sd c h ce by (simp add: package_in_def relay_crypt_one_payload_def)
  have m: "relay_digest_matches ops (cp_b_digest h) (cell\<lparr>ce_payload := ce_payload cell1\<rparr>) = (True, d', cell)"
    using rs(3,4) by simp
  from backward_unwrapped [OF c h(1) s(2) rs(1,2) h(2) m, of hs2 0] obtain rs' e' hops' cell' j where
    b: "backward_cell ops rs (cell\<lparr>ce_payload := e\<rparr>) = OK (rs', cell\<lparr>ce_payload := e'\<rparr>)"
      "relay_crypt_origin_loop ops (ci_cpath circ) (cell\<lparr>ce_payload := e'\<rparr>) 0 =
       OK (hops', cell', Recognized (Some j))" "j \<le> length hs"
      "lands_at ops (backward_keys (hs @ [h])) (ce_payload cell1) j"
    and last: "j = length hs \<longrightarrow> cell' = cell \<and> (\<exists>hs'. list_all2 in_synced hs' rs' \<and>
        hops' = hs' @ h\<lparr>cp_b_crypto := c, cp_b_digest := d'\<rparr> # hs2)" using s(1) by auto
  have "ci_cpath circ \<noteq> [] \<and> cp_state (hd (ci_cpath circ)) = CPATH_STATE_OPEN"
    using s(1,2) h(2) by (cases hs) (auto simp: in_synced_def list_all2_Cons1)
  then have orig: "relay_crypt ops circ (cell\<lparr>ce_payload := e'\<rparr>) CELL_DIRECTION_IN =
      OK (circ\<lparr>ci_cpath := hops'\<rparr>, cell', Recognized (Some j))"
    using b(2) assms(3) by (simp add: relay_crypt_def)
  have "in_synced (h\<lparr>cp_b_crypto := c, cp_b_digest := d'\<rparr>) ?r"
    using s(3) aes_crypt_OK_D [OF h(1) c] by (simp add: in_synced_def)
  moreover have "ce_payload cell1 = stamped ops (ci_p_digest r) (ce_payload cell)"
    using relay_set_digest_stamped [OF assms(2,1), of "cp_b_digest h"] sd h(4) by simp
  moreover have "hs @ [h] = take (Suc (length rs)) (ci_cpath circ)" using s(1) list_all2_lengthD [OF s(2)] by simp
  ultimately show ?thesis using p b orig last s(4) list_all2_lengthD [OF s(2)]
    by (auto intro!: list_all2_appendI)
qed

text \<open>
  A circuit of two hops for the witnesses, its four ciphers freshly keyed; the running digests of the
  first hop have already taken in \<open>d\<close>.
\<close>

definition no_extend_info :: extend_info where
  "no_extend_info = \<lparr>ei_identity_digest = replicate 20 0, ei_addr = AF_INET 0, ei_port = 0\<rparr>"

definition example_hop :: "aes_cnt_cipher \<Rightarrow> byte list \<Rightarrow> byte list crypt_path" where
  "example_hop c d = \<lparr>cp_extend_info = no_extend_info, cp_keys_set = True, cp_dh_handshake_state = None,
     cp_fast_handshake_state = [], cp_handshake_digest = [], cp_f_crypto = c, cp_b_crypto = c, cp_f_digest = d, cp_b_digest = d,
     cp_state = CPATH_STATE_OPEN, cp_package_window = 1000, cp_deliver_window = 1000\<rparr>"

definition example_circ :: "aes_cnt_cipher \<Rightarrow> byte list \<Rightarrow> byte list circuit_crypto" where
  "example_circ c d = \<lparr>ci_origin = True, ci_cpath = [example_hop c d, example_hop c []],
     ci_n_crypto = c, ci_p_crypto = c, ci_n_digest = [], ci_p_digest = []\<rparr>"

definition example_relay :: "aes_cnt_cipher \<Rightarrow> byte list \<Rightarrow> byte list circuit_crypto" where
  "example_relay c d = \<lparr>ci_origin = False, ci_cpath = [], ci_n_crypto = c, ci_p_crypto = c, ci_n_digest = d, ci_p_digest = d\<rparr>"

lemmas example_defs = example_circ_def example_hop_def example_relay_def

lemma example_synced:
  assumes "aes_ok c"
  shows "list_all2 out_synced (ci_cpath (example_circ c d)) [example_relay c d, example_relay c []]"
    and "list_all2 in_synced (ci_cpath (example_circ c d)) ([example_relay c d] @ example_relay c [] # [])"
  using assms by (simp_all add: example_defs out_synced_def out_keyed_def in_synced_def)

text \<open>The digest of the witnesses returns its first bytes: of two digests one does not match.\<close>

lemma toy_digest_misses: "\<exists>b\<in>{0, 1}. \<not> meant_for toy_digest (replicate 4 b) p"
  by (cases "take 4 (drop 5 p) = replicate 4 0") (auto simp: meant_for_def toy_digest_def)

lemma example_passes_first_hop:
  "\<exists>b\<in>{0, 1}. \<not> lands_at toy_digest (forward_keys (take (Suc 1) (ci_cpath (example_circ c (replicate 4 b))))) p 0 \<and>
     \<not> lands_at toy_digest (backward_keys (take (Suc 1) (ci_cpath (example_circ c (replicate 4 b))))) p 0"
  using toy_digest_misses [of "key_layer c p"]
  by (simp add: forward_keys_def backward_keys_def lands_at_0 key_layers_def example_defs)

theorem onion_forward_delivery_witness:
  "\<exists>c b. aes_set_key aes_new_cipher (replicate 16 1) 128 = OK c \<and> b \<in> {0, 1} \<and>
    (\<exists>circ' wrapped rs'. package_out toy_digest (example_circ c (replicate 4 b)) example_relay_cell 1 = OK (circ', wrapped) \<and>
     forward_cell toy_digest [example_relay c (replicate 4 b), example_relay c []] wrapped =
       OK (rs', example_relay_cell, Some 1))"
proof -
  obtain c where c: "aes_set_key aes_new_cipher (replicate 16 1) 128 = OK c" "aes_ok c"
    using aes_set_key_ok [of 128 aes_new_cipher "replicate 16 1"] by auto
  let ?p = "stamped toy_digest [] (ce_payload example_relay_cell)"
  obtain b where b: "b \<in> {0, 1}"
    "\<not> lands_at toy_digest (forward_keys (take (Suc 1) (ci_cpath (example_circ c (replicate 4 b))))) ?p 0"
    using example_passes_first_hop [of c ?p] by blast
  have d: "cp_f_digest (ci_cpath (example_circ c (replicate 4 b)) ! 1) = []" by (simp add: example_defs)
  have j: "j = 1" if "lands_at toy_digest (forward_keys (take (Suc 1) (ci_cpath (example_circ c (replicate 4 b))))) ?p j"
    "j \<le> 1" for j using that b(2) by (cases "j = 0") auto
  from onion_forward_delivery [OF toy_digest_lengths example_relay_cell_fresh
      example_synced(1) [OF c(2), of "replicate 4 b"], of 1, unfolded d] obtain circ' wrapped rs' cell' j where
    o: "package_out toy_digest (example_circ c (replicate 4 b)) example_relay_cell 1 = OK (circ', wrapped)"
    "forward_cell toy_digest [example_relay c (replicate 4 b), example_relay c []] wrapped = OK (rs', cell', Some j)"
    "j = 1" "j = 1 \<longrightarrow> cell' = example_relay_cell" using j by auto
  then show ?thesis using c(1) b(1) by blast
qed

theorem onion_backward_delivery_witness:
  "\<exists>c b. aes_set_key aes_new_cipher (replicate 16 1) 128 = OK c \<and> b \<in> {0, 1} \<and>
    (\<exists>r' sent rs' arrived circ'. package_in toy_digest (example_relay c []) example_relay_cell = OK (r', sent) \<and>
     backward_cell toy_digest [example_relay c (replicate 4 b)] sent = OK (rs', arrived) \<and>
     relay_crypt toy_digest (example_circ c (replicate 4 b)) arrived CELL_DIRECTION_IN =
       OK (circ', example_relay_cell, Recognized (Some 1)))"
proof -
  obtain c where c: "aes_set_key aes_new_cipher (replicate 16 1) 128 = OK c" "aes_ok c"
    using aes_set_key_ok [of 128 aes_new_cipher "replicate 16 1"] by auto
  let ?p = "stamped toy_digest [] (ce_payload example_relay_cell)"
  obtain b where b: "b \<in> {0, 1}"
    "\<not> lands_at toy_digest (backward_keys (take (Suc 1) (ci_cpath (example_circ c (replicate 4 b))))) ?p 0"
    using example_passes_first_hop [of c ?p] by blast
  have d: "ci_p_digest (example_relay c []) = []" "length [example_relay c (replicate 4 b)] = 1"
    "ci_origin (example_circ c (replicate 4 b))" by (simp_all add: example_defs)
  have j: "j = 1" if "lands_at toy_digest (backward_keys (take (Suc 1) (ci_cpath (example_circ c (replicate 4 b))))) ?p j"
    "j \<le> 1" for j using that b(2) by (cases "j = 0") auto
  from onion_backward_delivery [OF toy_digest_lengths example_relay_cell_fresh d(3)
      example_synced(2) [OF c(2), of "replicate 4 b"], unfolded d(1,2)] obtain r' sent rs' arrived circ' cell' j where
    o: "package_in toy_digest (example_relay c []) example_relay_cell = OK (r', sent)"
    "backward_cell toy_digest [example_relay c (replicate 4 b)] sent = OK (rs', arrived)"
    "relay_crypt toy_digest (example_circ c (replicate 4 b)) arrived CELL_DIRECTION_IN = OK (circ', cell', Recognized (Some j))"
    "j = 1" "j = 1 \<longrightarrow> cell' = example_relay_cell" using j by auto
  then show ?thesis using c(1) b(1) by blast
qed

end
