(* ===== verification/Circuits.thy ===== *)
theory Circuits
  imports RelayCrypt
begin

section \<open>Circuits, connections and their queues (or.h, connection.c, relay.c)\<close>

text \<open>
  The objects of a running router: circuits, OR connections, edge connections (streams), and the
  process-wide state they share.  Objects are named by natural numbers, and the heap of each kind
  is a function from names to records; a pointer field is a name or \<^term>\<open>None\<close>.  The intrusive
  list of the streams of a circuit (\<^verbatim>\<open>next_stream\<close>) is a list of names, and a hop of a crypt path
  is named by its index.
\<close>

type_synonym circ_ref = nat
type_synonym conn_ref = nat
type_synonym edge_ref = nat

subsection \<open>Queues of packed cells\<close>

text \<open>The singly linked list from \<^verbatim>\<open>head\<close> to \<^verbatim>\<open>tail\<close> and the counter \<^verbatim>\<open>n\<close>.\<close>

record cell_queue =
  cq_cells :: "byte list list"
  cq_n :: int

definition empty_queue :: cell_queue where
  "empty_queue = \<lparr>cq_cells = [], cq_n = 0\<rparr>"

definition cell_queue_append :: "cell_queue \<Rightarrow> byte list \<Rightarrow> cell_queue" where
  "cell_queue_append q c = q\<lparr>cq_cells := cq_cells q @ [c], cq_n := cq_n q + 1\<rparr>"

definition cell_queue_pop :: "cell_queue \<Rightarrow> (byte list \<times> cell_queue) option" where
  "cell_queue_pop q = (case cq_cells q of
     [] \<Rightarrow> None
   | c # cs \<Rightarrow> Some (c, q\<lparr>cq_cells := cs, cq_n := cq_n q - 1\<rparr>))"

definition cell_queue_clear :: "cell_queue \<Rightarrow> cell_queue" where
  "cell_queue_clear q = q\<lparr>cq_cells := [], cq_n := 0\<rparr>"

definition queue_ok :: "cell_queue \<Rightarrow> bool" where
  "queue_ok q \<longleftrightarrow> cq_n q = int (length (cq_cells q))"

lemma queue_ok_append [simp]: "queue_ok q \<Longrightarrow> queue_ok (cell_queue_append q c)"
  by (simp add: queue_ok_def cell_queue_append_def)

lemma queue_ok_pop: "queue_ok q \<Longrightarrow> cell_queue_pop q = Some (c, q') \<Longrightarrow> queue_ok q'"
  by (auto simp: queue_ok_def cell_queue_pop_def split: list.splits)

lemma queue_ok_clear [simp]: "queue_ok (cell_queue_clear q)" "queue_ok empty_queue"
  by (simp_all add: queue_ok_def cell_queue_clear_def empty_queue_def)

subsection \<open>Circuits\<close>

text \<open>
  \<^verbatim>\<open>circuit_t\<close> with the fields of its two subtypes; \<open>ci_origin\<close> tells the subtype, so that
  \<^verbatim>\<open>TO_OR_CIRCUIT\<close> and \<^verbatim>\<open>TO_ORIGIN_CIRCUIT\<close> are assertions on it.  (\<^verbatim>\<open>CIRCUIT_IS_ORIGIN\<close> reads the
  subtype off the purpose, which is set when the circuit is created.)  The field
  \<^verbatim>\<open>relay_early_cells_sent\<close> is the length of \<open>ci_relay_early_commands\<close>.  The ciphers and digests of an OR circuit
  are NULL in the code until \<open>ci_keys_set\<close>.
\<close>

record 'd circuit = "'d circuit_crypto" +
  ci_n_conn_cells :: cell_queue
  ci_n_conn :: "conn_ref option"
  ci_n_circ_id :: u16
  ci_streams_blocked_on_n_conn :: bool
  ci_streams_blocked_on_p_conn :: bool
  ci_state :: nat
  ci_purpose :: nat
  ci_package_window :: int
  ci_deliver_window :: int
  ci_payedReads :: int
  ci_payedWrites :: int
  ci_payedReadsAdded :: int
  ci_payedWritesAdded :: int
  ci_marked_for_close :: bool
  ci_next_active_on_n_conn :: "circ_ref option"
  ci_prev_active_on_n_conn :: "circ_ref option"
  ci_p_streams :: "edge_ref list"
  ci_remaining_relay_early_cells :: nat
  ci_relay_early_commands :: "byte list"
  ci_next_active_on_p_conn :: "circ_ref option"
  ci_prev_active_on_p_conn :: "circ_ref option"
  ci_p_circ_id :: u16
  ci_p_conn_cells :: cell_queue
  ci_p_conn :: "conn_ref option"
  ci_n_streams :: "edge_ref list"
  ci_resolving_streams :: "edge_ref list"
  ci_rend_splice :: "circ_ref option"
  ci_n_hop :: "extend_info option"
  ci_n_conn_onionskin :: "byte list option"
  ci_keys_set :: bool
  ci_handshake_digest :: "byte list"
  ci_is_first_hop :: bool
  ci_onehop_tunnel :: bool

subsection \<open>Connections\<close>

text \<open>
  The fields of \<^verbatim>\<open>connection_t\<close> both kinds of connection use.  \<open>cn_reading\<close> and \<open>cn_writing\<close> are
  what \<^verbatim>\<open>connection_is_reading\<close> and \<^verbatim>\<open>connection_is_writing\<close> return: the event library keeps
  them.
\<close>

record base_conn =
  cn_open :: bool
  cn_marked_for_close :: bool
  cn_hold_open_until_flushed :: bool
  cn_in_flushed_some :: bool
  cn_read_event :: bool
  cn_reading :: bool
  cn_writing :: bool
  cn_inbuf :: buf
  cn_outbuf :: buf
  cn_outbuf_flushlen :: nat

datatype circ_id_type = CIRC_ID_TYPE_LOWER | CIRC_ID_TYPE_HIGHER | CIRC_ID_TYPE_NEITHER

record or_conn = base_conn +
  oc_addr :: tor_addr
  oc_port :: u16
  oc_identity_digest :: "byte list"
  oc_circ_id_type :: circ_id_type
  oc_next_circ_id :: u16
  oc_state :: nat
  oc_link_proto :: nat
  oc_client_used :: int
  oc_timestamp_last_added_nonpadding :: int
  oc_n_circuits :: int
  oc_active_circuits :: "circ_ref option"

datatype edge_type = CONN_TYPE_AP | CONN_TYPE_EXIT

text \<open>\<open>ec_socks_request\<close> is \<^term>\<open>None\<close> for no request, else its command and \<^verbatim>\<open>has_finished\<close>.\<close>

record edge_conn = base_conn +
  ec_type :: edge_type
  ec_state :: nat
  ec_addr :: tor_addr
  ec_address_ttl :: u32
  ec_socks_request :: "(byte \<times> bool) option"
  ec_cpath_layer :: "nat option"
  ec_package_window :: int
  ec_deliver_window :: int
  ec_on_circuit :: "circ_ref option"
  ec_stream_id :: u16
  ec_end_reason :: nat
  ec_edge_has_sent_end :: bool
  ec_edge_blocked_on_circ :: bool
  ec_rendezvous :: bool

text \<open>
  What is sent to the controller.  The message about an OR circuit has the circuit IDs and the
  connections (for the identities of the routers behind them) on its two sides.
\<close>

datatype control_event =
    Orcircuit_Event string "byte list" u16 "conn_ref option" u16 "conn_ref option"
  | Circuit_Status circ_ref bool int
  | Circuit_Extended circ_ref
  | Stream_Bandwidth edge_ref
  | Stream_Closed edge_ref nat
  | Stream_Remap edge_ref u32

text \<open>
  The process: the heaps, the chunk allocator of the buffers, the clock, the one configuration
  option the payment code reads, the statistics counters of relay.c, the map from circuit IDs on a
  connection to circuits with the entry returned last, the list of connections to be closed, the list of circuits
  that wait for a connection, the queue of circuits whose handshake waits for a worker (circuit, onion skin and
  time of each, from \<^verbatim>\<open>ol_list\<close> to \<^verbatim>\<open>ol_tail\<close>, with \<^verbatim>\<open>ol_length\<close>), and a log of what is sent to the controller.
\<close>

record 'd world =
  w_circs :: "circ_ref \<Rightarrow> 'd circuit"
  w_conns :: "conn_ref \<Rightarrow> or_conn"
  w_edges :: "edge_ref \<Rightarrow> edge_conn"
  w_alloc :: chunk_alloc
  w_now :: int
  w_CloseUnpaid :: bool
  w_total_cells_allocated :: int
  w_relay_cells_relayed :: nat
  w_relay_cells_delivered :: nat
  w_data_cells_packaged :: nat
  w_data_bytes_packaged :: nat
  w_data_cells_received :: nat
  w_data_bytes_received :: nat
  w_circid_map :: "conn_ref \<times> u16 \<rightharpoonup> circ_ref"
  w_last_circid_ent :: "(conn_ref \<times> u16) option"
  w_closeable :: "edge_ref list"
  w_pending_or_conns :: "circ_ref list"
  w_onion_queue :: "(circ_ref \<times> byte list \<times> int) list"
  w_onion_length :: int
  w_events :: "control_event list"

definition upd_circ :: "circ_ref \<Rightarrow> ('d circuit \<Rightarrow> 'd circuit) \<Rightarrow> 'd world \<Rightarrow> 'd world" where
  "upd_circ c f w = w\<lparr>w_circs := (w_circs w)(c := f (w_circs w c))\<rparr>"

definition upd_conn :: "conn_ref \<Rightarrow> (or_conn \<Rightarrow> or_conn) \<Rightarrow> 'd world \<Rightarrow> 'd world" where
  "upd_conn k f w = w\<lparr>w_conns := (w_conns w)(k := f (w_conns w k))\<rparr>"

definition upd_edge :: "edge_ref \<Rightarrow> (edge_conn \<Rightarrow> edge_conn) \<Rightarrow> 'd world \<Rightarrow> 'd world" where
  "upd_edge e f w = w\<lparr>w_edges := (w_edges w)(e := f (w_edges w e))\<rparr>"

lemma upd_circ_sel [simp]:
  "w_circs (upd_circ c f w) = (w_circs w)(c := f (w_circs w c))"
  "w_conns (upd_circ c f w) = w_conns w" "w_edges (upd_circ c f w) = w_edges w"
  "w_alloc (upd_circ c f w) = w_alloc w" "w_now (upd_circ c f w) = w_now w"
  "w_CloseUnpaid (upd_circ c f w) = w_CloseUnpaid w"
  "w_circid_map (upd_circ c f w) = w_circid_map w"
  by (simp_all add: upd_circ_def)

lemma upd_conn_sel [simp]:
  "w_conns (upd_conn k g w) = (w_conns w)(k := g (w_conns w k))"
  "w_circs (upd_conn k g w) = w_circs w" "w_edges (upd_conn k g w) = w_edges w"
  "w_alloc (upd_conn k g w) = w_alloc w" "w_now (upd_conn k g w) = w_now w"
  "w_CloseUnpaid (upd_conn k g w) = w_CloseUnpaid w"
  "w_circid_map (upd_conn k g w) = w_circid_map w"
  by (simp_all add: upd_conn_def)

lemma upd_edge_sel [simp]:
  "w_edges (upd_edge e h w) = (w_edges w)(e := h (w_edges w e))"
  "w_circs (upd_edge e h w) = w_circs w" "w_conns (upd_edge e h w) = w_conns w"
  "w_alloc (upd_edge e h w) = w_alloc w" "w_now (upd_edge e h w) = w_now w"
  "w_CloseUnpaid (upd_edge e h w) = w_CloseUnpaid w"
  "w_circid_map (upd_edge e h w) = w_circid_map w"
  by (simp_all add: upd_edge_def)

text \<open>\<^verbatim>\<open>packed_cell_copy\<close>, \<^verbatim>\<open>packed_cell_free\<close>: the cells in all queues are counted.\<close>

definition packed_cell_copy :: "cell \<Rightarrow> 'd world \<Rightarrow> byte list \<times> 'd world" where
  "packed_cell_copy c w = (cell_pack c, w\<lparr>w_total_cells_allocated := w_total_cells_allocated w + 1\<rparr>)"

definition packed_cell_free :: "'d world \<Rightarrow> 'd world" where
  "packed_cell_free w = w\<lparr>w_total_cells_allocated := w_total_cells_allocated w - 1\<rparr>"

subsection \<open>Writing on an OR connection\<close>

definition MIN_TLS_FLUSHLEN :: nat where "MIN_TLS_FLUSHLEN = 15872"

text \<open>
  \<^verbatim>\<open>_connection_write_to_buf_impl\<close> for an OR connection (no compression).  The attempt to
  write to the socket, \<^verbatim>\<open>connection_handle_write\<close>, is the parameter \<open>hw\<close>: it returns a new world
  and whether it failed.
\<close>

type_synonym 'd socket_writer = "conn_ref \<Rightarrow> 'd world \<Rightarrow> 'd world \<times> bool"

definition connection_close_immediate :: "conn_ref \<Rightarrow> 'd world \<Rightarrow> 'd world res" where
  "connection_close_immediate k w =
     (if \<not> cn_open (w_conns w k) then OK w
      else rbind (buf_clear (w_alloc w) (cn_outbuf (w_conns w k))) (\<lambda>(st, b).
        OK (upd_conn k (\<lambda>c. c\<lparr>cn_open := False, cn_reading := False, cn_writing := False,
              cn_outbuf := b, cn_outbuf_flushlen := 0\<rparr>) (w\<lparr>w_alloc := st\<rparr>))))"

definition connection_write_to_buf ::
  "'d socket_writer \<Rightarrow> byte list \<Rightarrow> conn_ref \<Rightarrow> 'd world \<Rightarrow> 'd world res" where
  "connection_write_to_buf hw string k w =
     (let conn = w_conns w k; len = length string in
      if len = 0 then OK w
      else if cn_marked_for_close conn \<and> \<not> cn_hold_open_until_flushed conn then OK w
      else rbind (write_to_buf (w_alloc w) string (cn_outbuf conn)) (\<lambda>(st, b, _).
        let flushlen = cn_outbuf_flushlen conn + len;
            w1 = upd_conn k (\<lambda>c. c\<lparr>cn_outbuf := b, cn_writing := True, cn_outbuf_flushlen := flushlen\<rparr>)
                   (w\<lparr>w_alloc := st\<rparr>)
        in if cn_in_flushed_some conn then OK w1
           else if flushlen - len < MIN_TLS_FLUSHLEN \<and> flushlen \<ge> MIN_TLS_FLUSHLEN then
             (let extra = flushlen - MIN_TLS_FLUSHLEN;
                  w2 = upd_conn k (\<lambda>c. c\<lparr>cn_outbuf_flushlen := MIN_TLS_FLUSHLEN\<rparr>) w1;
                  (w3, failed) = hw k w2
              in if failed then
                   (if \<not> cn_marked_for_close (w_conns w3 k) then connection_close_immediate k w3
                    else OK w3)
                 else if extra \<noteq> 0 then
                   OK (upd_conn k (\<lambda>c. c\<lparr>cn_outbuf_flushlen := cn_outbuf_flushlen c + extra,
                         cn_writing := True\<rparr>) w3)
                 else OK w3)
           else OK w1))"

definition or_conns_wf :: "'d world \<Rightarrow> bool" where
  "or_conns_wf w \<longleftrightarrow> (\<forall>k. buf_inv (w_alloc w) (cn_outbuf (w_conns w k)))"

text \<open>When nothing prompts a write to the socket, the bytes are appended to the output buffer.\<close>

definition write_is_queued :: "conn_ref \<Rightarrow> nat \<Rightarrow> 'd world \<Rightarrow> bool" where
  "write_is_queued k len w \<longleftrightarrow>
     (let conn = w_conns w k in
      (cn_marked_for_close conn \<longrightarrow> cn_hold_open_until_flushed conn) \<and>
      (cn_in_flushed_some conn \<or> cn_outbuf_flushlen conn + len < MIN_TLS_FLUSHLEN) \<and>
      length (buf_bytes (cn_outbuf conn)) + len < int_max)"

lemma connection_write_to_buf_queued:
  assumes "or_conns_wf w" and "string \<noteq> []" and "write_is_queued k (length string) w"
    and "length string \<le> 4096"
  shows "\<exists>st b. connection_write_to_buf hw string k w =
      OK (upd_conn k (\<lambda>c. c\<lparr>cn_outbuf := b, cn_writing := True,
           cn_outbuf_flushlen := cn_outbuf_flushlen c + length string\<rparr>) (w\<lparr>w_alloc := st\<rparr>)) \<and>
    buf_bytes b = buf_bytes (cn_outbuf (w_conns w k)) @ string \<and> buf_inv st b \<and>
    same_build (w_alloc w) st"
proof -
  have inv: "buf_inv (w_alloc w) (cn_outbuf (w_conns w k))" using assms(1) by (simp add: or_conns_wf_def)
  then have "write_fits (w_alloc w) (length string)"
    using write_fits_4096 assms(4) by blast
  from write_to_buf_ok [OF inv this] assms(3) obtain st b where
    "write_to_buf (w_alloc w) string (cn_outbuf (w_conns w k)) = OK (st, b, length (buf_bytes b))"
    "buf_bytes b = buf_bytes (cn_outbuf (w_conns w k)) @ string" "buf_inv st b" "same_build (w_alloc w) st"
    by (auto simp: write_is_queued_def Let_def)
  with assms(2,3) show ?thesis
    by (auto simp: connection_write_to_buf_def Let_def write_is_queued_def upd_conn_def)
qed

lemma or_conns_wf_write:
  assumes "or_conns_wf w" and "same_build (w_alloc w) st" and "buf_inv st b"
  shows "or_conns_wf (upd_conn k (\<lambda>c. c\<lparr>cn_outbuf := b, cn_writing := x, cn_outbuf_flushlen := n\<rparr>)
    (w\<lparr>w_alloc := st\<rparr>))"
  using assms buf_inv_same_build [of "w_alloc w" _ st] by (auto simp: or_conns_wf_def buf_inv_iff)

end
