(* ===== verification/LinkedRings.thy ===== *)
theory LinkedRings
  imports Prelude
begin

section \<open>Doubly linked rings\<close>

text \<open>
  A ring of objects linked by a next and a previous pointer field, as a list of object names in
  order.  Objects outside the ring have both fields NULL.
\<close>

definition next_in :: "'a list \<Rightarrow> 'a \<rightharpoonup> 'a" where
  "next_in cs = map_of (zip cs (rotate1 cs))"

definition prev_in :: "'a list \<Rightarrow> 'a \<rightharpoonup> 'a" where
  "prev_in cs = map_of (zip (rotate1 cs) cs)"

definition is_ring :: "('a \<rightharpoonup> 'a) \<Rightarrow> ('a \<rightharpoonup> 'a) \<Rightarrow> 'a list \<Rightarrow> bool" where
  "is_ring nx pv cs \<longleftrightarrow> distinct cs \<and> nx = next_in cs \<and> pv = prev_in cs"

lemma is_ring_Nil [simp]: "is_ring nx pv [] \<longleftrightarrow> nx = (\<lambda>_. None) \<and> pv = (\<lambda>_. None)"
  by (simp add: is_ring_def next_in_def prev_in_def)

lemma dom_next_in [simp]: "dom (next_in cs) = set cs"
  by (simp add: next_in_def)

lemma dom_prev_in [simp]: "dom (prev_in cs) = set cs"
  by (simp add: prev_in_def)

lemma next_in_iff: "next_in cs c \<noteq> None \<longleftrightarrow> c \<in> set cs"
  using dom_next_in [of cs] by (auto simp: dom_def)

lemma prev_in_iff: "prev_in cs c \<noteq> None \<longleftrightarrow> c \<in> set cs"
  using dom_prev_in [of cs] by (auto simp: dom_def)

lemma next_in_None [simp]: "next_in cs c = None \<longleftrightarrow> c \<notin> set cs"
  using next_in_iff by metis

lemma prev_in_None [simp]: "prev_in cs c = None \<longleftrightarrow> c \<notin> set cs"
  using prev_in_iff by metis

lemma None_next_in [simp]: "None = next_in cs c \<longleftrightarrow> c \<notin> set cs"
  using next_in_None by metis

lemma None_prev_in [simp]: "None = prev_in cs c \<longleftrightarrow> c \<notin> set cs"
  using prev_in_None by metis

text \<open>The pointers of a ring cut open at one place.\<close>

lemma map_of_snoc: "k \<notin> fst ` set xs \<Longrightarrow> map_of (xs @ [(k, v)]) = (map_of xs)(k \<mapsto> v)"
  by (auto simp: map_add_def fun_eq_iff map_of_eq_None_iff [symmetric] split: option.splits)

lemma set_zip_fst: "fst ` set (zip xs ys) \<subseteq> set xs"
  by (auto dest: set_zip_leftD)

lemma zip_snoc: "length xs = length ys \<Longrightarrow> zip (xs @ [x]) (ys @ [y]) = zip xs ys @ [(x, y)]"
  by simp

lemma next_in_snoc:
  assumes "distinct (bs @ [l])"
  shows "next_in (bs @ [l]) = (map_of (zip bs (tl (bs @ [l]))))(l \<mapsto> hd (bs @ [l]))"
proof -
  have "rotate1 (bs @ [l]) = tl (bs @ [l]) @ [hd (bs @ [l])]" by (cases bs) auto
  then have "next_in (bs @ [l]) = map_of (zip bs (tl (bs @ [l])) @ [(l, hd (bs @ [l]))])"
    unfolding next_in_def by (simp add: zip_append1)
  also have "\<dots> = (map_of (zip bs (tl (bs @ [l]))))(l \<mapsto> hd (bs @ [l]))"
    using assms set_zip_fst [of bs "tl (bs @ [l])"] by (intro map_of_snoc) auto
  finally show ?thesis .
qed

lemma prev_in_cons:
  assumes "distinct (a # cs)"
  shows "prev_in (a # cs) = (map_of (zip cs (butlast (a # cs))))(a \<mapsto> last (a # cs))"
proof -
  have "zip (cs @ [a]) (a # cs) = zip (cs @ [a]) (butlast (a # cs) @ [last (a # cs)])"
    by (simp del: butlast.simps last.simps)
  also have "\<dots> = zip cs (butlast (a # cs)) @ [(a, last (a # cs))]" by (rule zip_snoc) simp
  finally have "prev_in (a # cs) = map_of (zip cs (butlast (a # cs)) @ [(a, last (a # cs))])"
    by (simp add: prev_in_def)
  also have "\<dots> = (map_of (zip cs (butlast (a # cs))))(a \<mapsto> last (a # cs))"
    using assms set_zip_fst [of cs "butlast (a # cs)"]
    by (intro map_of_snoc notI) (metis distinct.simps(2) subsetD)
  finally show ?thesis .
qed

lemma zip_rotate1:
  "length xs = length ys \<Longrightarrow> zip (rotate1 xs) (rotate1 ys) = rotate1 (zip xs ys)"
  by (cases xs; cases ys) auto

lemma next_in_rotate1: "distinct cs \<Longrightarrow> next_in (rotate1 cs) = next_in cs"
  unfolding next_in_def by (subst map_of_inject_set) (auto simp: zip_rotate1 simp flip: rotate1_map)

lemma prev_in_rotate1: "distinct cs \<Longrightarrow> prev_in (rotate1 cs) = prev_in cs"
  unfolding prev_in_def by (subst map_of_inject_set) (auto simp: zip_rotate1 simp flip: rotate1_map)

lemma is_ring_rotate1: "is_ring nx pv (rotate1 cs) \<longleftrightarrow> is_ring nx pv cs"
  by (auto simp: is_ring_def next_in_rotate1 prev_in_rotate1)

lemma is_ring_swap: "is_ring nx pv (xs @ ys) \<longleftrightarrow> is_ring nx pv (ys @ xs)"
proof (induction xs arbitrary: ys)
  case (Cons x xs)
  have "is_ring nx pv (x # xs @ ys) \<longleftrightarrow> is_ring nx pv (rotate1 (x # xs @ ys))"
    by (simp only: is_ring_rotate1)
  also have "\<dots> \<longleftrightarrow> is_ring nx pv ((ys @ [x]) @ xs)" using Cons.IH [of "ys @ [x]"] by simp
  finally show ?case by simp
qed simp

lemma ring_last: "is_ring nx pv cs \<Longrightarrow> cs \<noteq> [] \<Longrightarrow> nx (last cs) = Some (hd cs)"
  using next_in_snoc [of "butlast cs" "last cs"] by (simp add: is_ring_def)

lemma ring_hd: "is_ring nx pv cs \<Longrightarrow> cs \<noteq> [] \<Longrightarrow> pv (hd cs) = Some (last cs)"
  using prev_in_cons [of "hd cs" "tl cs"] by (simp add: is_ring_def)

lemma ring_next: "is_ring nx pv (a # b # cs) \<Longrightarrow> nx a = Some b"
  by (simp add: is_ring_def next_in_def)

lemma ring_prev_next:
  assumes "is_ring nx pv cs" and "c \<in> set cs"
  obtains n p where "nx c = Some n" and "pv c = Some p" and "pv n = Some c" and "nx p = Some c"
    and "n \<in> set cs" and "p \<in> set cs"
proof -
  obtain xs ys where cs: "cs = xs @ c # ys" using assms(2) by (meson split_list)
  then have r1: "is_ring nx pv ((c # ys) @ xs)" using assms(1) by (simp only: is_ring_swap)
  have r2: "is_ring nx pv (ys @ xs @ [c])" using r1 is_ring_swap [of nx pv "[c]" "ys @ xs"] by simp
  have r3: "is_ring nx pv ((ys @ xs @ [c]))" by (rule r2)
  show thesis
    using that ring_last [OF r2] ring_hd [OF r1] ring_hd [OF r2] ring_last [OF r1] cs
    by (simp add: hd_append last_append split: if_splits)
qed

text \<open>Adding an object before the first one, that is, at the end.\<close>

lemma next_in_append:
  assumes "distinct (cs @ [c])" and "cs \<noteq> []"
  shows "next_in (cs @ [c]) = (next_in cs)(last cs \<mapsto> c, c \<mapsto> hd cs)"
proof -
  obtain bs l where cs: "cs = bs @ [l]" using assms(2) by (cases cs rule: rev_cases) auto
  let ?m = "map_of (zip bs (tl (bs @ [l])))"
  have "zip (bs @ [l]) (tl (bs @ [l, c])) = zip bs (tl (bs @ [l])) @ [(l, c)]"
    using zip_snoc [of bs "tl (bs @ [l])" l c] by (cases bs) simp_all
  moreover have "l \<notin> fst ` set (zip bs (tl (bs @ [l])))"
    using set_zip_fst [of bs "tl (bs @ [l])"] assms(1) cs by auto
  ultimately have "map_of (zip (bs @ [l]) (tl (bs @ [l, c]))) = ?m(l \<mapsto> c)"
    using map_of_snoc by metis
  moreover have "next_in cs = ?m(l \<mapsto> hd cs)" using next_in_snoc [of bs l] assms(1) cs by simp
  moreover have "next_in (cs @ [c]) = (map_of (zip cs (tl (cs @ [c]))))(c \<mapsto> hd cs)"
    using next_in_snoc [OF assms(1)] assms(2) by simp
  ultimately show ?thesis using cs by simp
qed

lemma prev_in_append:
  assumes "distinct (cs @ [c])" and "cs \<noteq> []"
  shows "prev_in (cs @ [c]) = (prev_in cs)(hd cs \<mapsto> c, c \<mapsto> last cs)"
proof -
  obtain a as where cs: "cs = a # as" using assms(2) by (cases cs) auto
  let ?m = "map_of (zip as (butlast (a # as)))"
  have "zip (as @ [c]) (a # as) = zip (as @ [c]) (butlast (a # as) @ [last (a # as)])"
    by (simp del: butlast.simps last.simps)
  also have "\<dots> = zip as (butlast (a # as)) @ [(c, last (a # as))]" by (rule zip_snoc) simp
  finally have z: "zip (as @ [c]) (a # as) = zip as (butlast (a # as)) @ [(c, last (a # as))]" .
  have "c \<notin> fst ` set (zip as (butlast (a # as)))"
    using set_zip_fst [of as "butlast (a # as)"] assms(1) cs by (auto simp del: butlast.simps)
  then have "map_of (zip (as @ [c]) (a # as)) = ?m(c \<mapsto> last cs)"
    unfolding z cs by (rule map_of_snoc)
  moreover have "prev_in cs = ?m(a \<mapsto> last cs)" using prev_in_cons [of a as] assms(1) cs by simp
  moreover have "prev_in (cs @ [c]) = (map_of (zip (as @ [c]) (a # as)))(a \<mapsto> c)"
    using prev_in_cons [of a "as @ [c]"] assms(1) cs by (simp add: butlast_append)
  ultimately show ?thesis using cs assms(1) by (auto simp: fun_upd_twist)
qed

lemma ring_append:
  assumes "is_ring nx pv cs" and "cs \<noteq> []" and "c \<notin> set cs"
  shows "is_ring (nx(last cs \<mapsto> c, c \<mapsto> hd cs)) (pv(hd cs \<mapsto> c, c \<mapsto> last cs)) (cs @ [c])"
  using assms by (simp add: is_ring_def next_in_append prev_in_append)

lemma ring_single: "is_ring ((\<lambda>_. None)(c \<mapsto> c)) ((\<lambda>_. None)(c \<mapsto> c)) [c]"
  by (simp add: is_ring_def next_in_def prev_in_def)

text \<open>Removing the last object.\<close>

lemma ring_remove_last:
  assumes "is_ring nx pv (cs @ [c])" and "cs \<noteq> []"
  shows "is_ring (nx(last cs \<mapsto> hd cs, c := None)) (pv(hd cs \<mapsto> last cs, c := None)) cs"
proof -
  have d: "distinct (cs @ [c])" using assms(1) by (simp add: is_ring_def)
  have r: "is_ring (next_in cs) (prev_in cs) cs" using d by (simp add: is_ring_def)
  have "(nx(last cs \<mapsto> hd cs, c := None)) = next_in cs"
    using assms next_in_append [OF d assms(2)] ring_last [OF r assms(2)] d next_in_None [of cs c]
    by (auto simp: is_ring_def fun_eq_iff simp del: next_in_None)
  moreover have "(pv(hd cs \<mapsto> last cs, c := None)) = prev_in cs"
    using assms prev_in_append [OF d assms(2)] ring_hd [OF r assms(2)] d prev_in_None [of cs c]
    by (auto simp: is_ring_def fun_eq_iff simp del: prev_in_None)
  ultimately show ?thesis using d by (simp add: is_ring_def)
qed

lemma ring_remove_only:
  "is_ring nx pv [c] \<Longrightarrow> is_ring (nx(c := None)) (pv(c := None)) []"
  by (auto simp: is_ring_def next_in_def prev_in_def fun_eq_iff)

text \<open>Neighbours of an object anywhere in a ring of at least two.\<close>

lemma ring_at_last: "is_ring nx pv (xs @ c # ys) \<longleftrightarrow> is_ring nx pv ((ys @ xs) @ [c])"
  using is_ring_swap [of nx pv "xs @ [c]" ys] is_ring_swap [of nx pv "ys" "xs @ [c]"] by simp

lemma ring_last_neighbours:
  assumes "is_ring nx pv (cs @ [c])" and "cs \<noteq> []"
  shows "nx c = Some (hd cs)" and "pv c = Some (last cs)" and "pv (hd cs) = Some c"
    and "nx (last cs) = Some c"
proof -
  have r: "is_ring nx pv (c # cs)" using assms(1) is_ring_swap [of nx pv cs "[c]"] by simp
  show "nx c = Some (hd cs)" "pv (hd cs) = Some c"
    using ring_last [OF assms(1)] ring_hd [OF assms(1)] assms(2) by simp_all
  show "pv c = Some (last cs)" "nx (last cs) = Some c"
    using ring_hd [OF r] ring_last [OF r] assms(2) by simp_all
qed

end
