(* ===== verification/ActiveCircuits.thy ===== *)
theory ActiveCircuits
  imports Circuits LinkedRings
begin

section \<open>Circuits waiting to write on a connection (relay.c, connection\_or.c, circuitlist.c)\<close>

text \<open>
  Every OR connection has a ring of the circuits with cells queued for it, linked through pointer
  fields of the circuits; cells are moved from the queues to the output buffer one circuit after
  the other.
\<close>

definition CELL_QUEUE_HIGHWATER_SIZE :: int where "CELL_QUEUE_HIGHWATER_SIZE = 256"
definition CELL_QUEUE_LOWWATER_SIZE :: int where "CELL_QUEUE_LOWWATER_SIZE = 64"
definition OR_CONN_HIGHWATER :: nat where "OR_CONN_HIGHWATER = 32 * 1024"
definition OR_CONN_LOWWATER :: nat where "OR_CONN_LOWWATER = 16 * 1024"
definition CELL_RELAY :: byte where "CELL_RELAY = 3"
definition CELL_RELAY_EARLY :: byte where "CELL_RELAY_EARLY = 9"

subsection \<open>The model\<close>

text \<open>
  \<^verbatim>\<open>next_circ_on_conn_p\<close> and \<^verbatim>\<open>prev_circ_on_conn_p\<close> return the address of a field: here a read
  and a write of that field.  A NULL circuit fails an assertion.
\<close>

definition circ_side ::
  "circ_ref option \<Rightarrow> conn_ref \<Rightarrow> 'd world \<Rightarrow> (circ_ref \<Rightarrow> bool \<Rightarrow> 'a res) \<Rightarrow> 'a res" where
  "circ_side circ k w f = (case circ of
     None \<Rightarrow> Fault Assert_Fail
   | Some c \<Rightarrow>
       if ci_n_conn (w_circs w c) = Some k then f c True
       else tor_assert (\<not> ci_origin (w_circs w c))
         (tor_assert (ci_p_conn (w_circs w c) = Some k) (f c False)))"

definition next_circ_on_conn :: "circ_ref option \<Rightarrow> conn_ref \<Rightarrow> 'd world \<Rightarrow> circ_ref option res" where
  "next_circ_on_conn circ k w = circ_side circ k w (\<lambda>c n_side.
     OK (if n_side then ci_next_active_on_n_conn (w_circs w c) else ci_next_active_on_p_conn (w_circs w c)))"

definition prev_circ_on_conn :: "circ_ref option \<Rightarrow> conn_ref \<Rightarrow> 'd world \<Rightarrow> circ_ref option res" where
  "prev_circ_on_conn circ k w = circ_side circ k w (\<lambda>c n_side.
     OK (if n_side then ci_prev_active_on_n_conn (w_circs w c) else ci_prev_active_on_p_conn (w_circs w c)))"

definition set_next_circ_on_conn ::
  "circ_ref option \<Rightarrow> conn_ref \<Rightarrow> circ_ref option \<Rightarrow> 'd world \<Rightarrow> 'd world res" where
  "set_next_circ_on_conn circ k v w = circ_side circ k w (\<lambda>c n_side.
     OK (upd_circ c (if n_side then (\<lambda>ci. ci\<lparr>ci_next_active_on_n_conn := v\<rparr>)
                     else (\<lambda>ci. ci\<lparr>ci_next_active_on_p_conn := v\<rparr>)) w))"

definition set_prev_circ_on_conn ::
  "circ_ref option \<Rightarrow> conn_ref \<Rightarrow> circ_ref option \<Rightarrow> 'd world \<Rightarrow> 'd world res" where
  "set_prev_circ_on_conn circ k v w = circ_side circ k w (\<lambda>c n_side.
     OK (upd_circ c (if n_side then (\<lambda>ci. ci\<lparr>ci_prev_active_on_n_conn := v\<rparr>)
                     else (\<lambda>ci. ci\<lparr>ci_prev_active_on_p_conn := v\<rparr>)) w))"

definition make_circuit_active_on_conn :: "circ_ref \<Rightarrow> conn_ref \<Rightarrow> 'd world \<Rightarrow> 'd world res" where
  "make_circuit_active_on_conn c k w =
     rbind (next_circ_on_conn (Some c) k w) (\<lambda>nextp.
     rbind (prev_circ_on_conn (Some c) k w) (\<lambda>prevp.
       if nextp \<noteq> None \<and> prevp \<noteq> None then OK w
       else case oc_active_circuits (w_conns w k) of
         None \<Rightarrow>
           (let w1 = upd_conn k (\<lambda>oc. oc\<lparr>oc_active_circuits := Some c\<rparr>) w in
            rbind (set_next_circ_on_conn (Some c) k (Some c) w1) (\<lambda>w2.
              set_prev_circ_on_conn (Some c) k (Some c) w2))
       | Some head \<Rightarrow>
           rbind (prev_circ_on_conn (Some head) k w) (\<lambda>old_tail.
           rbind (set_next_circ_on_conn old_tail k (Some c) w) (\<lambda>w1.
           rbind (set_next_circ_on_conn (Some c) k (Some head) w1) (\<lambda>w2.
           rbind (set_prev_circ_on_conn (Some head) k (Some c) w2) (\<lambda>w3.
             set_prev_circ_on_conn (Some c) k old_tail w3))))))"

definition make_circuit_inactive_on_conn :: "circ_ref \<Rightarrow> conn_ref \<Rightarrow> 'd world \<Rightarrow> 'd world res" where
  "make_circuit_inactive_on_conn c k w =
     rbind (next_circ_on_conn (Some c) k w) (\<lambda>next.
     rbind (prev_circ_on_conn (Some c) k w) (\<lambda>prev.
       if next = None \<and> prev = None then OK w
       else tor_assert (next \<noteq> None \<and> prev \<noteq> None)
        (rbind (prev_circ_on_conn next k w) (\<lambda>pn. tor_assert (pn = Some c)
        (rbind (next_circ_on_conn prev k w) (\<lambda>np. tor_assert (np = Some c)
          (rbind
            (if next = Some c then OK (upd_conn k (\<lambda>oc. oc\<lparr>oc_active_circuits := None\<rparr>) w)
             else rbind (set_prev_circ_on_conn next k prev w) (\<lambda>w1.
                  rbind (set_next_circ_on_conn prev k next w1) (\<lambda>w2.
                    OK (if oc_active_circuits (w_conns w2 k) = Some c
                        then upd_conn k (\<lambda>oc. oc\<lparr>oc_active_circuits := next\<rparr>) w2 else w2))))
            (\<lambda>w3. rbind (set_next_circ_on_conn (Some c) k None w3) (\<lambda>w4.
                    set_prev_circ_on_conn (Some c) k None w4))))))))) "

text \<open>
  The two loops around the ring do not end on a corrupted ring that never comes back to its head:
  they are partial functions, and that they return is a theorem.
\<close>

partial_function (option) unlink_loop ::
  "circ_ref \<Rightarrow> conn_ref \<Rightarrow> circ_ref option \<Rightarrow> 'd world \<Rightarrow> 'd world res option" where
  "unlink_loop head k cur w =
     (case rbind (next_circ_on_conn cur k w) (\<lambda>next.
           rbind (set_prev_circ_on_conn cur k None w) (\<lambda>w1.
           rbind (set_next_circ_on_conn cur k None w1) (\<lambda>w2. OK (next, w2)))) of
        Fault e \<Rightarrow> Some (Fault e)
      | OK p \<Rightarrow> if fst p = Some head then Some (OK (snd p)) else unlink_loop head k (fst p) (snd p))"

definition connection_or_unlink_all_active_circs :: "conn_ref \<Rightarrow> 'd world \<Rightarrow> 'd world res option" where
  "connection_or_unlink_all_active_circs k w = (case oc_active_circuits (w_conns w k) of
     None \<Rightarrow> Some (OK w)
   | Some head \<Rightarrow> map_option (\<lambda>r. rbind r (\<lambda>w1.
        OK (upd_conn k (\<lambda>oc. oc\<lparr>oc_active_circuits := None\<rparr>) w1)))
       (unlink_loop head k (Some head) w))"

partial_function (option) assert_ring_loop ::
  "circ_ref \<Rightarrow> conn_ref \<Rightarrow> circ_ref option \<Rightarrow> 'd world \<Rightarrow> unit res option" where
  "assert_ring_loop head k cur w =
     (case rbind (next_circ_on_conn cur k w) (\<lambda>next.
           rbind (prev_circ_on_conn cur k w) (\<lambda>prev.
             tor_assert (next \<noteq> None) (tor_assert (prev \<noteq> None)
             (rbind (next_circ_on_conn prev k w) (\<lambda>np. tor_assert (np = cur)
             (rbind (prev_circ_on_conn next k w) (\<lambda>pn. tor_assert (pn = cur) (OK next)))))))) of
        Fault e \<Rightarrow> Some (Fault e)
      | OK next \<Rightarrow> if next = Some head then Some (OK ()) else assert_ring_loop head k next w)"

definition assert_active_circuits_ok :: "conn_ref \<Rightarrow> 'd world \<Rightarrow> unit res option" where
  "assert_active_circuits_ok k w = (case oc_active_circuits (w_conns w k) of
     None \<Rightarrow> Some (OK ())
   | Some head \<Rightarrow> assert_ring_loop head k (Some head) w)"

definition block_edge :: "bool \<Rightarrow> 'd world \<Rightarrow> edge_ref \<Rightarrow> 'd world" where
  "block_edge block w e =
     (let w1 = upd_edge e (\<lambda>ec. ec\<lparr>ec_edge_blocked_on_circ := block\<rparr>) w in
      if \<not> cn_read_event (w_edges w1 e) then w1
      else if block then
        (if cn_reading (w_edges w1 e) then upd_edge e (\<lambda>ec. ec\<lparr>cn_reading := False\<rparr>) w1 else w1)
      else
        (if \<not> cn_reading (w_edges w1 e) then upd_edge e (\<lambda>ec. ec\<lparr>cn_reading := True\<rparr>) w1 else w1))"

definition set_streams_blocked_on_circ :: "circ_ref \<Rightarrow> conn_ref \<Rightarrow> bool \<Rightarrow> 'd world \<Rightarrow> 'd world res" where
  "set_streams_blocked_on_circ c k block w =
     (let circ = w_circs w c in
      if ci_n_conn circ = Some k then
        OK (foldl (block_edge block) (upd_circ c (\<lambda>ci. ci\<lparr>ci_streams_blocked_on_n_conn := block\<rparr>) w)
              (if ci_origin circ then ci_p_streams circ else []))
      else tor_assert (\<not> ci_origin circ)
        (OK (foldl (block_edge block) (upd_circ c (\<lambda>ci. ci\<lparr>ci_streams_blocked_on_p_conn := block\<rparr>) w)
              (ci_n_streams circ))))"

text \<open>The two queues of a circuit; the flag says which one, as the code keeps a pointer to it.\<close>

definition circ_queue :: "bool \<Rightarrow> circ_ref \<Rightarrow> 'd world \<Rightarrow> cell_queue" where
  "circ_queue n_side c w = (if n_side then ci_n_conn_cells (w_circs w c) else ci_p_conn_cells (w_circs w c))"

definition set_circ_queue :: "bool \<Rightarrow> circ_ref \<Rightarrow> cell_queue \<Rightarrow> 'd world \<Rightarrow> 'd world" where
  "set_circ_queue n_side c q w = upd_circ c (\<lambda>ci. if n_side then ci\<lparr>ci_n_conn_cells := q\<rparr>
     else ci\<lparr>ci_p_conn_cells := q\<rparr>) w"

text \<open>The loop of the flush; the last component tells the jump to \<^verbatim>\<open>done\<close>.\<close>

fun flush_loop ::
  "'d socket_writer \<Rightarrow> bool \<Rightarrow> circ_ref \<Rightarrow> conn_ref \<Rightarrow> nat \<Rightarrow> 'd world \<Rightarrow> ('d world \<times> nat \<times> bool) res" where
  "flush_loop hw n_side c k 0 w = OK (w, 0, False)"
| "flush_loop hw n_side c k (Suc n) w =
     (case cell_queue_pop (circ_queue n_side c w) of
        None \<Rightarrow> OK (w, 0, False)
      | Some (cell, q) \<Rightarrow>
          (let w1 = set_circ_queue n_side c q w in
           rbind (next_circ_on_conn (Some c) k w1) (\<lambda>nx. tor_assert (nx \<noteq> None)
             (rbind (connection_write_to_buf hw cell k w1) (\<lambda>w2.
               let w3 = packed_cell_free w2 in
               if oc_active_circuits (w_conns w3 k) \<noteq> Some c then OK (w3, 1, True)
               else rbind (flush_loop hw n_side c k n w3) (\<lambda>(w4, m, jumped). OK (w4, Suc m, jumped)))))))"

definition connection_or_flush_from_first_active_circuit ::
  "'d socket_writer \<Rightarrow> conn_ref \<Rightarrow> nat \<Rightarrow> int \<Rightarrow> 'd world \<Rightarrow> ('d world \<times> nat) res" where
  "connection_or_flush_from_first_active_circuit hw k max_cells now w =
     (case oc_active_circuits (w_conns w k) of
        None \<Rightarrow> OK (w, 0)
      | Some c \<Rightarrow>
          (let n_side = (ci_n_conn (w_circs w c) = Some k);
               streams_blocked = (if n_side then ci_streams_blocked_on_n_conn (w_circs w c)
                                  else ci_streams_blocked_on_p_conn (w_circs w c))
           in tor_assert (n_side \<or> \<not> ci_origin (w_circs w c))
            (rbind (next_circ_on_conn (Some c) k w) (\<lambda>nx. tor_assert (nx \<noteq> None)
            (rbind (flush_loop hw n_side c k max_cells w) (\<lambda>(w1, n_flushed, jumped).
             rbind
              (if jumped then OK w1
               else rbind (next_circ_on_conn (Some c) k w1) (\<lambda>nx1. tor_assert (nx1 \<noteq> None)
                 (let w2 = upd_conn k (\<lambda>oc. oc\<lparr>oc_active_circuits := nx1\<rparr>) w1 in
                  rbind (if streams_blocked \<and> cq_n (circ_queue n_side c w2) \<le> CELL_QUEUE_LOWWATER_SIZE
                         then set_streams_blocked_on_circ c k False w2 else OK w2) (\<lambda>w3.
                    if cq_n (circ_queue n_side c w3) = 0 then make_circuit_inactive_on_conn c k w3
                    else OK w3))))
              (\<lambda>w4. OK (if n_flushed \<noteq> 0
                        then upd_conn k (\<lambda>oc. oc\<lparr>oc_timestamp_last_added_nonpadding := now\<rparr>) w4 else w4,
                        n_flushed))))))))"

definition append_cell_to_circuit_queue ::
  "'d socket_writer \<Rightarrow> circ_ref \<Rightarrow> conn_ref \<Rightarrow> cell \<Rightarrow> cell_direction \<Rightarrow> 'd world \<Rightarrow> 'd world res" where
  "append_cell_to_circuit_queue hw c k cell direction w =
     (let n_side = (direction = CELL_DIRECTION_OUT) in
      tor_assert (n_side \<or> \<not> ci_origin (w_circs w c))
      (let streams_blocked = (if n_side then ci_streams_blocked_on_n_conn (w_circs w c)
                              else ci_streams_blocked_on_p_conn (w_circs w c));
           cell1 = (if ce_command cell = CELL_RELAY_EARLY \<and> oc_link_proto (w_conns w k) < 2
                    then cell\<lparr>ce_command := CELL_RELAY\<rparr> else cell);
           (copy, w1) = packed_cell_copy cell1 w;
           w2 = set_circ_queue n_side c (cell_queue_append (circ_queue n_side c w1) copy) w1
       in rbind (if \<not> streams_blocked \<and> cq_n (circ_queue n_side c w2) \<ge> CELL_QUEUE_HIGHWATER_SIZE
                 then set_streams_blocked_on_circ c k True w2 else OK w2) (\<lambda>w3.
          rbind (if cq_n (circ_queue n_side c w3) = 1 then make_circuit_active_on_conn c k w3
                 else OK w3) (\<lambda>w4.
          if buf_datalen (cn_outbuf (w_conns w4 k)) = 0 then
            rbind (connection_or_flush_from_first_active_circuit hw k 1 (w_now w4) w4) (\<lambda>(w5, _). OK w5)
          else OK w4))))"

text \<open>\<^verbatim>\<open>connection_or_flushed_some\<close>: refilling the output buffer.\<close>

partial_function (option) flushed_some_loop ::
  "'d socket_writer \<Rightarrow> conn_ref \<Rightarrow> int \<Rightarrow> int \<Rightarrow> 'd world \<Rightarrow> 'd world res option" where
  "flushed_some_loop hw k now n w =
     (if oc_active_circuits (w_conns w k) = None \<or> n \<le> 0 then Some (OK w)
      else case connection_or_flush_from_first_active_circuit hw k 1 now w of
        Fault e \<Rightarrow> Some (Fault e)
      | OK p \<Rightarrow> flushed_some_loop hw k now (n - int (snd p)) (fst p))"

definition connection_or_flushed_some :: "'d socket_writer \<Rightarrow> conn_ref \<Rightarrow> 'd world \<Rightarrow> 'd world res option" where
  "connection_or_flushed_some hw k w =
     (let datalen = buf_datalen (cn_outbuf (w_conns w k)) in
      if datalen < OR_CONN_LOWWATER then
        flushed_some_loop hw k (w_now w)
          (int ((OR_CONN_HIGHWATER - datalen + CELL_NETWORK_SIZE - 1) div CELL_NETWORK_SIZE)) w
      else Some (OK w))"

subsection \<open>The links of one connection\<close>

definition linked :: "'d world \<Rightarrow> conn_ref \<Rightarrow> circ_ref \<Rightarrow> bool" where
  "linked w k c \<longleftrightarrow> ci_n_conn (w_circs w c) = Some k \<or>
     \<not> ci_origin (w_circs w c) \<and> ci_p_conn (w_circs w c) = Some k"

definition nextf :: "'d world \<Rightarrow> conn_ref \<Rightarrow> circ_ref \<rightharpoonup> circ_ref" where
  "nextf w k c = (if linked w k c
     then if ci_n_conn (w_circs w c) = Some k then ci_next_active_on_n_conn (w_circs w c)
          else ci_next_active_on_p_conn (w_circs w c)
     else None)"

definition prevf :: "'d world \<Rightarrow> conn_ref \<Rightarrow> circ_ref \<rightharpoonup> circ_ref" where
  "prevf w k c = (if linked w k c
     then if ci_n_conn (w_circs w c) = Some k then ci_prev_active_on_n_conn (w_circs w c)
          else ci_prev_active_on_p_conn (w_circs w c)
     else None)"

definition activef :: "'d world \<Rightarrow> conn_ref \<Rightarrow> circ_ref option" where
  "activef w k = oc_active_circuits (w_conns w k)"

text \<open>All links of connection \<open>k\<close> replaced at once.\<close>

definition put_circ ::
  "conn_ref \<Rightarrow> circ_ref option \<Rightarrow> circ_ref option \<Rightarrow> 'd circuit \<Rightarrow> 'd circuit" where
  "put_circ k n p ci =
     (if ci_n_conn ci = Some k then ci\<lparr>ci_next_active_on_n_conn := n, ci_prev_active_on_n_conn := p\<rparr>
      else if \<not> ci_origin ci \<and> ci_p_conn ci = Some k
      then ci\<lparr>ci_next_active_on_p_conn := n, ci_prev_active_on_p_conn := p\<rparr> else ci)"

definition put_links ::
  "conn_ref \<Rightarrow> (circ_ref \<rightharpoonup> circ_ref) \<Rightarrow> (circ_ref \<rightharpoonup> circ_ref) \<Rightarrow> circ_ref option \<Rightarrow> 'd world \<Rightarrow> 'd world" where
  "put_links k nx pv a w = w\<lparr>w_circs := (\<lambda>c. put_circ k (nx c) (pv c) (w_circs w c)),
     w_conns := (w_conns w)(k := (w_conns w k)\<lparr>oc_active_circuits := a\<rparr>)\<rparr>"

lemma put_circ_sel [simp]:
  "ci_n_conn (put_circ k n p ci) = ci_n_conn ci" "ci_p_conn (put_circ k n p ci) = ci_p_conn ci"
  "ci_origin (put_circ k n p ci) = ci_origin ci"
  "ci_n_conn_cells (put_circ k n p ci) = ci_n_conn_cells ci"
  "ci_p_conn_cells (put_circ k n p ci) = ci_p_conn_cells ci"
  "ci_streams_blocked_on_n_conn (put_circ k n p ci) = ci_streams_blocked_on_n_conn ci"
  "ci_streams_blocked_on_p_conn (put_circ k n p ci) = ci_streams_blocked_on_p_conn ci"
  by (simp_all add: put_circ_def)

lemma put_links_sel [simp]:
  "w_circs (put_links k nx pv a w) c = put_circ k (nx c) (pv c) (w_circs w c)"
  "w_edges (put_links k nx pv a w) = w_edges w" "w_alloc (put_links k nx pv a w) = w_alloc w"
  "w_now (put_links k nx pv a w) = w_now w"
  "w_conns (put_links k nx pv a w) = (w_conns w)(k := (w_conns w k)\<lparr>oc_active_circuits := a\<rparr>)"
  by (simp_all add: put_links_def)

lemma linked_put [simp]: "linked (put_links k nx pv a w) k' c = linked w k' c"
  by (simp add: linked_def)

lemma nextf_put [simp]:
  "nextf (put_links k nx pv a w) k' c = (if k' = k then if linked w k c then nx c else None else nextf w k' c)"
  by (auto simp: nextf_def linked_def put_circ_def)

lemma prevf_put [simp]:
  "prevf (put_links k nx pv a w) k' c = (if k' = k then if linked w k c then pv c else None else prevf w k' c)"
  by (auto simp: prevf_def linked_def put_circ_def)

lemma activef_put [simp]: "activef (put_links k nx pv a w) k' = (if k' = k then a else activef w k')"
  by (simp add: activef_def)

lemma put_links_self: "put_links k (nextf w k) (prevf w k) (activef w k) w = w"
proof -
  have "put_circ k (nextf w k c) (prevf w k c) (w_circs w c) = w_circs w c" for c
    by (simp add: put_circ_def nextf_def prevf_def linked_def)
  then show ?thesis by (simp add: put_links_def activef_def)
qed

named_theorems link_simps \<open>reading and writing links\<close>

lemma next_circ_put [link_simps]:
  "linked w k c \<Longrightarrow> next_circ_on_conn (Some c) k (put_links k nx pv a w) = OK (nx c)"
  by (auto simp: next_circ_on_conn_def circ_side_def put_circ_def linked_def)

lemma prev_circ_put [link_simps]:
  "linked w k c \<Longrightarrow> prev_circ_on_conn (Some c) k (put_links k nx pv a w) = OK (pv c)"
  by (auto simp: prev_circ_on_conn_def circ_side_def put_circ_def linked_def)

lemma put_circ_upd:
  "ci_n_conn ci = Some k \<Longrightarrow> (put_circ k n p ci)\<lparr>ci_next_active_on_n_conn := v\<rparr> = put_circ k v p ci"
  "ci_n_conn ci = Some k \<Longrightarrow> (put_circ k n p ci)\<lparr>ci_prev_active_on_n_conn := v\<rparr> = put_circ k n v ci"
  "ci_n_conn ci \<noteq> Some k \<Longrightarrow> \<not> ci_origin ci \<Longrightarrow> ci_p_conn ci = Some k \<Longrightarrow>
     (put_circ k n p ci)\<lparr>ci_next_active_on_p_conn := v\<rparr> = put_circ k v p ci"
  "ci_n_conn ci \<noteq> Some k \<Longrightarrow> \<not> ci_origin ci \<Longrightarrow> ci_p_conn ci = Some k \<Longrightarrow>
     (put_circ k n p ci)\<lparr>ci_prev_active_on_p_conn := v\<rparr> = put_circ k n v ci"
  by (simp_all add: put_circ_def)

lemma upd_put_links:
  assumes "f (put_circ k (nx c) (pv c) (w_circs w c)) = put_circ k n p (w_circs w c)"
  shows "upd_circ c f (put_links k nx pv a w) = put_links k (nx(c := n)) (pv(c := p)) a w"
proof -
  have "(\<lambda>d. put_circ k (nx d) (pv d) (w_circs w d))(c := put_circ k n p (w_circs w c)) =
      (\<lambda>d. put_circ k ((nx(c := n)) d) ((pv(c := p)) d) (w_circs w d))"
    by (simp add: fun_eq_iff)
  with assms show ?thesis by (simp add: upd_circ_def put_links_def)
qed

lemma set_next_put [link_simps]:
  assumes "linked w k c"
  shows "set_next_circ_on_conn (Some c) k v (put_links k nx pv a w) =
     OK (put_links k (nx(c := v)) pv a w)"
proof (cases "ci_n_conn (w_circs w c) = Some k")
  case True
  with upd_put_links [of "\<lambda>ci. ci\<lparr>ci_next_active_on_n_conn := v\<rparr>" k nx c pv w v "pv c" a]
  show ?thesis by (simp add: set_next_circ_on_conn_def circ_side_def put_circ_upd)
next
  case False
  with assms upd_put_links [of "\<lambda>ci. ci\<lparr>ci_next_active_on_p_conn := v\<rparr>" k nx c pv w v "pv c" a]
  show ?thesis by (simp add: set_next_circ_on_conn_def circ_side_def put_circ_upd linked_def)
qed

lemma set_prev_put [link_simps]:
  assumes "linked w k c"
  shows "set_prev_circ_on_conn (Some c) k v (put_links k nx pv a w) =
     OK (put_links k nx (pv(c := v)) a w)"
proof (cases "ci_n_conn (w_circs w c) = Some k")
  case True
  with upd_put_links [of "\<lambda>ci. ci\<lparr>ci_prev_active_on_n_conn := v\<rparr>" k nx c pv w "nx c" v a]
  show ?thesis by (simp add: set_prev_circ_on_conn_def circ_side_def put_circ_upd)
next
  case False
  with assms upd_put_links [of "\<lambda>ci. ci\<lparr>ci_prev_active_on_p_conn := v\<rparr>" k nx c pv w "nx c" v a]
  show ?thesis by (simp add: set_prev_circ_on_conn_def circ_side_def put_circ_upd linked_def)
qed

lemma set_active_put [link_simps]:
  "upd_conn k (\<lambda>oc. oc\<lparr>oc_active_circuits := b\<rparr>) (put_links k nx pv a w) = put_links k nx pv b w"
  by (simp add: upd_conn_def put_links_def)

lemma next_circ_OK: "linked w k c \<Longrightarrow> next_circ_on_conn (Some c) k w = OK (nextf w k c)"
  using next_circ_put [of w k c "nextf w k" "prevf w k" "activef w k"] by (simp add: put_links_self)

text \<open>A ring on connection \<open>k\<close>, and the two operations on it.\<close>

definition ring_on :: "'d world \<Rightarrow> conn_ref \<Rightarrow> circ_ref list \<Rightarrow> bool" where
  "ring_on w k cs \<longleftrightarrow> is_ring (nextf w k) (prevf w k) cs \<and>
     activef w k = (if cs = [] then None else Some (hd cs))"

lemma ring_on_linked: "ring_on w k cs \<Longrightarrow> c \<in> set cs \<Longrightarrow> linked w k c"
proof (rule ccontr)
  assume r: "ring_on w k cs" "c \<in> set cs" and "\<not> linked w k c"
  then have "nextf w k c = None" by (simp add: nextf_def)
  with r show False by (simp add: ring_on_def is_ring_def)
qed

lemma ring_on_put:
  assumes "is_ring nx pv cs" and "\<forall>c\<in>set cs. linked w k c"
  shows "ring_on (put_links k nx pv (if cs = [] then None else Some (hd cs)) w) k cs"
proof -
  have "nextf (put_links k nx pv b w) k = nx" "prevf (put_links k nx pv b w) k = pv" for b
    using assms next_in_iff [of cs] prev_in_iff [of cs]
    by (auto simp: is_ring_def fun_eq_iff split: if_splits)
  with assms(1) show ?thesis by (simp add: ring_on_def)
qed

lemma ring_on_put_other: "k' \<noteq> k \<Longrightarrow> ring_on (put_links k nx pv a w) k' cs = ring_on w k' cs"
proof -
  assume "k' \<noteq> k"
  then have "nextf (put_links k nx pv a w) k' = nextf w k'" "prevf (put_links k nx pv a w) k' = prevf w k'"
    by (auto simp: fun_eq_iff)
  with \<open>k' \<noteq> k\<close> show ?thesis by (simp add: ring_on_def)
qed

lemma make_active_ok:
  assumes "ring_on w k cs" and "linked w k c"
  shows "\<exists>nx pv a. make_circuit_active_on_conn c k w = OK (put_links k nx pv a w) \<and>
     ring_on (put_links k nx pv a w) k (if c \<in> set cs then cs else cs @ [c])"
proof -
  let ?nx = "nextf w k" and ?pv = "prevf w k" and ?a = "activef w k"
  define v where "v = put_links k ?nx ?pv ?a w"
  then have v: "v = w" by (simp add: put_links_self)
  have r: "is_ring ?nx ?pv cs" and a: "?a = (if cs = [] then None else Some (hd cs))"
    using assms(1) by (auto simp: ring_on_def)
  have l: "\<forall>c\<in>set cs. linked w k c" using ring_on_linked [OF assms(1)] by blast
  note rw = make_circuit_active_on_conn_def link_simps assms(2)
  consider "c \<in> set cs" | "c \<notin> set cs" "cs = []" | "c \<notin> set cs" "cs \<noteq> []" by blast
  then show ?thesis
  proof cases
    case 1
    then obtain n p where "?nx c = Some n" "?pv c = Some p" using ring_prev_next [OF r] by metis
    then have "make_circuit_active_on_conn c k v = OK v" by (simp add: rw v_def)
    with 1 assms(1) v show ?thesis by (metis put_links_self)
  next
    case 2
    then have "?nx c = None" using r by simp
    with 2 a have "make_circuit_active_on_conn c k v =
        OK (put_links k (?nx(c \<mapsto> c)) (?pv(c \<mapsto> c)) (Some c) w)"
      by (simp add: rw v_def activef_def)
    moreover have "is_ring (?nx(c \<mapsto> c)) (?pv(c \<mapsto> c)) [c]"
      using r 2 ring_single [of c] by simp
    ultimately show ?thesis using ring_on_put [of _ _ "[c]" w k] assms(2) 2 v by fastforce
  next
    case 3
    then have n: "?nx c = None" and p: "?pv (hd cs) = Some (last cs)"
      using r ring_hd [OF r] by (auto simp: is_ring_def)
    have "linked w k (hd cs)" "linked w k (last cs)" using l 3 by auto
    with 3 a n p have "make_circuit_active_on_conn c k v =
        OK (put_links k (?nx(last cs \<mapsto> c, c \<mapsto> hd cs)) (?pv(hd cs \<mapsto> c, c \<mapsto> last cs)) (Some (hd cs)) w)"
      by (simp add: rw v_def activef_def)
    moreover have "\<forall>d\<in>set (cs @ [c]). linked w k d" using l assms(2) by simp
    ultimately show ?thesis
      using ring_on_put [OF ring_append [OF r 3(2,1)], of w k] 3 v by fastforce
  qed
qed

lemma make_inactive_ok:
  assumes "ring_on w k cs" and "linked w k c"
  shows "\<exists>nx pv a. make_circuit_inactive_on_conn c k w = OK (put_links k nx pv a w) \<and>
     ring_on (put_links k nx pv a w) k (remove1 c cs)"
proof -
  let ?nx = "nextf w k" and ?pv = "prevf w k" and ?a = "activef w k"
  define v where "v = put_links k ?nx ?pv ?a w"
  then have v: "v = w" by (simp add: put_links_self)
  have r: "is_ring ?nx ?pv cs" and a: "?a = (if cs = [] then None else Some (hd cs))"
    using assms(1) by (auto simp: ring_on_def)
  have l: "\<forall>c\<in>set cs. linked w k c" using ring_on_linked [OF assms(1)] by blast
  note rw = make_circuit_inactive_on_conn_def link_simps assms(2)
  consider "c \<notin> set cs" | "cs = [c]" | xs ys where "cs = xs @ c # ys" "ys @ xs \<noteq> []"
    by (metis append_is_Nil_conv append_Nil split_list)
  then show ?thesis
  proof cases
    case 1
    then have "?nx c = None" "?pv c = None" using r by (auto simp: is_ring_def)
    then have "make_circuit_inactive_on_conn c k v = OK v" by (simp add: rw v_def)
    with 1 assms(1) v show ?thesis by (metis put_links_self remove1_idem)
  next
    case 2
    then have "?nx c = Some c" "?pv c = Some c" using r ring_last [OF r] ring_hd [OF r] by auto
    with 2 have "make_circuit_inactive_on_conn c k v = OK (put_links k (?nx(c := None)) (?pv(c := None)) None w)"
      by (simp add: rw v_def)
    moreover have "ring_on (put_links k (?nx(c := None)) (?pv(c := None)) None w) k []"
      using ring_on_put [OF ring_remove_only, of ?nx ?pv c w k] r 2 by simp
    ultimately show ?thesis using 2 v by auto
  next
    case 3
    let ?zs = "ys @ xs"
    have rz: "is_ring ?nx ?pv (?zs @ [c])" using r 3(1) ring_at_last [of ?nx ?pv xs c ys] by simp
    note nb = ring_last_neighbours [OF rz 3(2)]
    have c: "c \<notin> set ?zs" using rz by (simp add: is_ring_def)
    then have ne: "hd ?zs \<noteq> c" "last ?zs \<noteq> c" using 3(2) by (metis hd_in_set, metis last_in_set)
    have "linked w k (hd ?zs)" "linked w k (last ?zs)"
      using l 3 hd_in_set [OF 3(2)] last_in_set [OF 3(2)] by auto
    then have m: "make_circuit_inactive_on_conn c k v =
        OK (put_links k (?nx(last ?zs \<mapsto> hd ?zs, c := None)) (?pv(hd ?zs \<mapsto> last ?zs, c := None))
          (if ?a = Some c then Some (hd ?zs) else ?a) w)"
      using nb ne by (simp add: rw v_def)
    let ?nx' = "?nx(last ?zs \<mapsto> hd ?zs, c := None)" and ?pv' = "?pv(hd ?zs \<mapsto> last ?zs, c := None)"
    have "is_ring ?nx' ?pv' (xs @ ys)"
      using ring_remove_last [OF rz 3(2)] by (simp only: is_ring_swap [of _ _ xs ys])
    moreover have "\<forall>c\<in>set (xs @ ys). linked w k c" using l 3(1) by simp
    ultimately have ring: "ring_on (put_links k ?nx' ?pv' (if xs @ ys = [] then None else Some (hd (xs @ ys))) w) k (xs @ ys)"
      by (rule ring_on_put)
    have act: "(if ?a = Some c then Some (hd ?zs) else ?a) = (if xs @ ys = [] then None else Some (hd (xs @ ys)))"
      using a 3 c by (cases xs) auto
    have rem: "remove1 c cs = xs @ ys" using 3(1) c by (simp add: remove1_append)
    show ?thesis unfolding rem
      by (rule exI [of _ ?nx'], rule exI [of _ ?pv'], rule exI) (rule conjI [OF m [unfolded v act] ring])
  qed
qed

text \<open>The loops around the ring.\<close>

lemma next_in_last_part:
  "is_ring nx pv (xs @ c # ys) \<Longrightarrow> nx c = Some (hd (ys @ [hd (xs @ [c])]))"
  using ring_last [of nx pv "(ys @ xs) @ [c]"] ring_at_last [of nx pv xs c ys]
  by (cases ys; cases xs) auto

lemma unlink_loop_ok:
  assumes "\<forall>d\<in>set (c # ys). linked w k d" and "distinct (c # ys)" and "head \<notin> set ys"
    and "\<forall>i<length (c # ys). nx ((c # ys) ! i) = Some ((ys @ [head]) ! i)"
  shows "unlink_loop head k (Some c) (put_links k nx pv a w) =
    Some (OK (put_links k (\<lambda>d. if d \<in> set (c # ys) then None else nx d)
                (\<lambda>d. if d \<in> set (c # ys) then None else pv d) a w))"
  using assms
proof (induction ys arbitrary: c nx pv)
  case Nil
  then have "nx c = Some head" by simp
  then show ?case using Nil.prems(1)
    by (subst unlink_loop.simps) (simp add: link_simps fun_upd_def)
next
  case (Cons d ys)
  let ?nx = "nx(c := None)" and ?pv = "pv(c := None)"
  have n: "nx c = Some d" "d \<noteq> head" using Cons.prems(3,4) by auto
  have nx: "\<forall>i<length (d # ys). ?nx ((d # ys) ! i) = Some ((ys @ [head]) ! i)"
  proof (intro allI impI)
    fix i assume i: "i < length (d # ys)"
    then have "(d # ys) ! i \<noteq> c" using Cons.prems(2) nth_mem [of i "d # ys"] by auto
    with Cons.prems(4) [rule_format, of "Suc i"] i show "?nx ((d # ys) ! i) = Some ((ys @ [head]) ! i)"
      by simp
  qed
  have "\<forall>e\<in>set (d # ys). linked w k e" "distinct (d # ys)" "head \<notin> set ys" using Cons.prems by auto
  from Cons.IH [OF this nx, of ?pv] have IH: "unlink_loop head k (Some d) (put_links k ?nx ?pv a w) =
    Some (OK (put_links k (\<lambda>x. if x \<in> set (d # ys) then None else ?nx x)
                (\<lambda>x. if x \<in> set (d # ys) then None else ?pv x) a w))" .
  have "(\<lambda>x. if x \<in> set (d # ys) then None else ?nx x) = (\<lambda>x. if x \<in> set (c # d # ys) then None else nx x)"
    "(\<lambda>x. if x \<in> set (d # ys) then None else ?pv x) = (\<lambda>x. if x \<in> set (c # d # ys) then None else pv x)"
    by auto
  with IH n Cons.prems(1) show ?case
    by (subst unlink_loop.simps) (simp add: link_simps del: fun_upd_apply)
qed

lemma ring_nth_next:
  assumes "is_ring nx pv (h # ys)" and "i < length (h # ys)"
  shows "nx ((h # ys) ! i) = Some ((ys @ [h]) ! i)"
  using assms map_of_zip_nth [of "h # ys" "ys @ [h]" i] by (simp add: is_ring_def next_in_def)

lemma unlink_all_ok:
  assumes "ring_on w k cs"
  shows "connection_or_unlink_all_active_circs k w =
     Some (OK (put_links k (\<lambda>_. None) (\<lambda>_. None) None w))"
proof (cases cs)
  case Nil
  with assms have "nextf w k = (\<lambda>_. None)" "prevf w k = (\<lambda>_. None)" "activef w k = None"
    by (auto simp: ring_on_def)
  with put_links_self [of k w] show ?thesis
    by (simp add: connection_or_unlink_all_active_circs_def activef_def)
next
  case (Cons h ys)
  let ?nx = "nextf w k" and ?pv = "prevf w k" and ?a = "activef w k"
  have r: "is_ring ?nx ?pv (h # ys)" and a: "?a = Some h" using assms Cons by (auto simp: ring_on_def)
  have l: "\<forall>c\<in>set (h # ys). linked w k c" using ring_on_linked [OF assms] Cons by blast
  have d: "distinct (h # ys)" using r by (simp add: is_ring_def)
  have "\<forall>i<length (h # ys). ?nx ((h # ys) ! i) = Some ((ys @ [h]) ! i)"
    using ring_nth_next [OF r] by blast
  from unlink_loop_ok [OF l d _ this, of ?pv ?a] d
  have "unlink_loop h k (Some h) (put_links k ?nx ?pv ?a w) =
    Some (OK (put_links k (\<lambda>d. if d \<in> set (h # ys) then None else ?nx d)
                (\<lambda>d. if d \<in> set (h # ys) then None else ?pv d) ?a w))" by simp
  moreover have "(\<lambda>d. if d \<in> set (h # ys) then None else ?nx d) = (\<lambda>_. None)"
    "(\<lambda>d. if d \<in> set (h # ys) then None else ?pv d) = (\<lambda>_. None)"
    using r by (auto simp: is_ring_def fun_eq_iff)
  ultimately have "unlink_loop h k (Some h) w = Some (OK (put_links k (\<lambda>_. None) (\<lambda>_. None) ?a w))"
    by (simp only: put_links_self)
  then show ?thesis
    using a by (simp add: connection_or_unlink_all_active_circs_def activef_def link_simps)
qed

lemma assert_ring_loop_ok:
  assumes "ring_on w k cs" and "cs = xs @ c # ys" and "h = hd cs"
  shows "assert_ring_loop h k (Some c) w = Some (OK ())"
  using assms(2)
proof (induction ys arbitrary: xs c)
  case (Cons d ys)
  let ?nx = "nextf w k" and ?pv = "prevf w k"
  have r: "is_ring ?nx ?pv cs" using assms(1) by (simp add: ring_on_def)
  obtain n p where np: "?nx c = Some n" "?pv c = Some p" "?pv n = Some c" "?nx p = Some c"
    "n \<in> set cs" "p \<in> set cs" using ring_prev_next [OF r, of c] Cons.prems by auto
  then have l: "linked w k c" "linked w k n" "linked w k p"
    using ring_on_linked [OF assms(1)] Cons.prems by auto
  have "n = d" using next_in_last_part [of ?nx ?pv xs c "d # ys"] r np(1) Cons.prems by simp
  moreover have "d \<noteq> h" using r Cons.prems assms(3) by (cases xs) (auto simp: is_ring_def)
  moreover note Cons.IH [of "xs @ [c]" d] Cons.prems
  ultimately show ?case using np l
      next_circ_put [of w k _ ?nx ?pv "activef w k"] prev_circ_put [of w k _ ?nx ?pv "activef w k"]
    by (subst assert_ring_loop.simps) (simp add: put_links_self)
next
  case Nil
  let ?nx = "nextf w k" and ?pv = "prevf w k"
  have r: "is_ring ?nx ?pv cs" using assms(1) by (simp add: ring_on_def)
  obtain n p where np: "?nx c = Some n" "?pv c = Some p" "?pv n = Some c" "?nx p = Some c"
    "n \<in> set cs" "p \<in> set cs" using ring_prev_next [OF r, of c] Nil by auto
  then have l: "linked w k c" "linked w k n" "linked w k p"
    using ring_on_linked [OF assms(1)] Nil by auto
  have "n = h" using next_in_last_part [of ?nx ?pv xs c "[]"] r np(1) Nil assms(3) by (cases xs) auto
  then show ?case using np l
      next_circ_put [of w k _ ?nx ?pv "activef w k"] prev_circ_put [of w k _ ?nx ?pv "activef w k"]
    by (subst assert_ring_loop.simps) (simp add: put_links_self)
qed

lemma assert_active_ok:
  assumes "ring_on w k cs"
  shows "assert_active_circuits_ok k w = Some (OK ())"
  using assms assert_ring_loop_ok [OF assms, of "[]" "hd cs" "tl cs" "hd cs"]
  by (cases cs) (auto simp: assert_active_circuits_ok_def ring_on_def activef_def)

subsection \<open>What an update changes, seen from the connections\<close>

definition queue_on :: "'d world \<Rightarrow> conn_ref \<Rightarrow> circ_ref \<Rightarrow> cell_queue" where
  "queue_on w k c = (if linked w k c then circ_queue (ci_n_conn (w_circs w c) = Some k) c w else empty_queue)"

definition blocked_on :: "'d world \<Rightarrow> conn_ref \<Rightarrow> circ_ref \<Rightarrow> bool" where
  "blocked_on w k c = (linked w k c \<and>
     (if ci_n_conn (w_circs w c) = Some k then ci_streams_blocked_on_n_conn (w_circs w c)
      else ci_streams_blocked_on_p_conn (w_circs w c)))"

definition outbuf_of :: "'d world \<Rightarrow> conn_ref \<Rightarrow> byte list" where
  "outbuf_of w k = buf_bytes (cn_outbuf (w_conns w k))"

definition flags_of :: "'d world \<Rightarrow> conn_ref \<Rightarrow> bool \<times> bool \<times> bool" where
  "flags_of w k = (cn_marked_for_close (w_conns w k), cn_hold_open_until_flushed (w_conns w k),
     cn_in_flushed_some (w_conns w k))"

definition set_blocked :: "conn_ref \<Rightarrow> bool \<Rightarrow> 'd circuit \<Rightarrow> 'd circuit" where
  "set_blocked k b ci = (if ci_n_conn ci = Some k then ci\<lparr>ci_streams_blocked_on_n_conn := b\<rparr>
     else ci\<lparr>ci_streams_blocked_on_p_conn := b\<rparr>)"

definition set_queue :: "conn_ref \<Rightarrow> cell_queue \<Rightarrow> 'd circuit \<Rightarrow> 'd circuit" where
  "set_queue k q ci = (if ci_n_conn ci = Some k then ci\<lparr>ci_n_conn_cells := q\<rparr>
     else ci\<lparr>ci_p_conn_cells := q\<rparr>)"

lemma set_circ_queue_eq:
  "set_circ_queue (ci_n_conn (w_circs w c) = Some k) c q w = upd_circ c (set_queue k q) w"
  by (simp add: set_circ_queue_def upd_circ_def set_queue_def)

text \<open>Two updates that touch no link, seen through the functions above.\<close>

named_theorems view_simps \<open>projections of an updated world\<close>

lemma set_queue_sel [simp]:
  "ci_n_conn (set_queue k q ci) = ci_n_conn ci" "ci_p_conn (set_queue k q ci) = ci_p_conn ci"
  "ci_origin (set_queue k q ci) = ci_origin ci"
  "ci_streams_blocked_on_n_conn (set_queue k q ci) = ci_streams_blocked_on_n_conn ci"
  "ci_streams_blocked_on_p_conn (set_queue k q ci) = ci_streams_blocked_on_p_conn ci"
  "ci_next_active_on_n_conn (set_queue k q ci) = ci_next_active_on_n_conn ci"
  "ci_prev_active_on_n_conn (set_queue k q ci) = ci_prev_active_on_n_conn ci"
  "ci_next_active_on_p_conn (set_queue k q ci) = ci_next_active_on_p_conn ci"
  "ci_prev_active_on_p_conn (set_queue k q ci) = ci_prev_active_on_p_conn ci"
  by (simp_all add: set_queue_def)

lemma set_blocked_sel [simp]:
  "ci_n_conn (set_blocked k b ci) = ci_n_conn ci" "ci_p_conn (set_blocked k b ci) = ci_p_conn ci"
  "ci_origin (set_blocked k b ci) = ci_origin ci"
  "ci_n_conn_cells (set_blocked k b ci) = ci_n_conn_cells ci"
  "ci_p_conn_cells (set_blocked k b ci) = ci_p_conn_cells ci"
  "ci_next_active_on_n_conn (set_blocked k b ci) = ci_next_active_on_n_conn ci"
  "ci_prev_active_on_n_conn (set_blocked k b ci) = ci_prev_active_on_n_conn ci"
  "ci_next_active_on_p_conn (set_blocked k b ci) = ci_next_active_on_p_conn ci"
  "ci_prev_active_on_p_conn (set_blocked k b ci) = ci_prev_active_on_p_conn ci"
  by (simp_all add: set_blocked_def)

lemma linked_upd [view_simps]:
  "linked (upd_circ c (set_queue k q) w) k' d = linked w k' d"
  "linked (upd_circ c (set_blocked k b) w) k' d = linked w k' d"
  "linked (upd_conn k f w) k' d = linked w k' d"
  "linked (w\<lparr>w_alloc := st\<rparr>) k' d = linked w k' d"
  "linked (w\<lparr>w_edges := E\<rparr>) k' d = linked w k' d"
  "linked (w\<lparr>w_total_cells_allocated := t\<rparr>) k' d = linked w k' d"
  by (simp_all add: linked_def)

lemma nextf_upd [view_simps]:
  "nextf (upd_circ c (set_queue k q) w) k' = nextf w k'"
  "nextf (upd_circ c (set_blocked k b) w) k' = nextf w k'"
  "nextf (upd_conn k f w) k' = nextf w k'"
  "nextf (w\<lparr>w_alloc := st\<rparr>) k' = nextf w k'"
  "nextf (w\<lparr>w_edges := E\<rparr>) k' = nextf w k'"
  "nextf (w\<lparr>w_total_cells_allocated := t\<rparr>) k' = nextf w k'"
  by (simp_all add: nextf_def view_simps fun_eq_iff)

lemma prevf_upd [view_simps]:
  "prevf (upd_circ c (set_queue k q) w) k' = prevf w k'"
  "prevf (upd_circ c (set_blocked k b) w) k' = prevf w k'"
  "prevf (upd_conn k f w) k' = prevf w k'"
  "prevf (w\<lparr>w_alloc := st\<rparr>) k' = prevf w k'"
  "prevf (w\<lparr>w_edges := E\<rparr>) k' = prevf w k'"
  "prevf (w\<lparr>w_total_cells_allocated := t\<rparr>) k' = prevf w k'"
  by (simp_all add: prevf_def view_simps fun_eq_iff)

lemma queue_on_upd [view_simps]:
  "linked w k c \<Longrightarrow> queue_on (upd_circ c (set_queue k q) w) k' d =
     (if k' = k \<and> d = c then q else queue_on w k' d)"
  "queue_on (upd_circ c (set_blocked k b) w) k' d = queue_on w k' d"
  "queue_on (upd_conn k f w) k' d = queue_on w k' d"
  "queue_on (w\<lparr>w_alloc := st\<rparr>) k' d = queue_on w k' d"
  "queue_on (w\<lparr>w_edges := E\<rparr>) k' d = queue_on w k' d"
  "queue_on (w\<lparr>w_total_cells_allocated := t\<rparr>) k' d = queue_on w k' d"
  "queue_on (put_links k nx pv a w) k' d = queue_on w k' d"
  by (auto simp: queue_on_def view_simps circ_queue_def set_queue_def linked_def)

lemma blocked_on_upd [view_simps]:
  "blocked_on (upd_circ c (set_queue k q) w) k' d = blocked_on w k' d"
  "linked w k c \<Longrightarrow> blocked_on (upd_circ c (set_blocked k b) w) k' d =
     (if k' = k \<and> d = c then b else blocked_on w k' d)"
  "blocked_on (upd_conn k f w) k' d = blocked_on w k' d"
  "blocked_on (w\<lparr>w_alloc := st\<rparr>) k' d = blocked_on w k' d"
  "blocked_on (w\<lparr>w_edges := E\<rparr>) k' d = blocked_on w k' d"
  "blocked_on (w\<lparr>w_total_cells_allocated := t\<rparr>) k' d = blocked_on w k' d"
  "blocked_on (put_links k nx pv a w) k' d = blocked_on w k' d"
  by (auto simp: blocked_on_def view_simps set_blocked_def linked_def)

lemma activef_upd [view_simps]:
  "activef (upd_circ c g w) k' = activef w k'"
  "activef (w\<lparr>w_alloc := st\<rparr>) k' = activef w k'" "activef (w\<lparr>w_edges := E\<rparr>) k' = activef w k'"
  "activef (w\<lparr>w_total_cells_allocated := t\<rparr>) k' = activef w k'"
  by (simp_all add: activef_def)

lemma outbuf_of_upd [view_simps]:
  "outbuf_of (upd_circ c g w) k' = outbuf_of w k'"
  "outbuf_of (w\<lparr>w_alloc := st\<rparr>) k' = outbuf_of w k'" "outbuf_of (w\<lparr>w_edges := E\<rparr>) k' = outbuf_of w k'"
  "outbuf_of (w\<lparr>w_total_cells_allocated := t\<rparr>) k' = outbuf_of w k'"
  "outbuf_of (put_links k nx pv a w) k' = outbuf_of w k'"
  by (simp_all add: outbuf_of_def)

lemma set_streams_blocked_ok:
  assumes "linked w k c"
  shows "\<exists>E. set_streams_blocked_on_circ c k b w = OK ((upd_circ c (set_blocked k b) w)\<lparr>w_edges := E\<rparr>)"
proof -
  have *: "\<exists>E. foldl (block_edge b) v es = v\<lparr>w_edges := E\<rparr>" for v :: "'a world" and es
  proof (induction es arbitrary: v)
    case Nil
    then show ?case by (intro exI [of _ "w_edges v"]) simp
  next
    case (Cons e es)
    have "\<exists>E. block_edge b v e = v\<lparr>w_edges := E\<rparr>"
      by (auto simp: block_edge_def upd_edge_def Let_def)
    then obtain E1 where 1: "block_edge b v e = v\<lparr>w_edges := E1\<rparr>" by blast
    obtain E2 where "foldl (block_edge b) (v\<lparr>w_edges := E1\<rparr>) es = v\<lparr>w_edges := E2\<rparr>"
      using Cons.IH [of "v\<lparr>w_edges := E1\<rparr>"] by auto
    with 1 show ?case by (auto simp: foldl_Cons)
  qed
  show ?thesis
  proof (cases "ci_n_conn (w_circs w c) = Some k")
    case True
    have "upd_circ c (set_blocked k b) w = upd_circ c (\<lambda>ci. ci\<lparr>ci_streams_blocked_on_n_conn := b\<rparr>) w"
      using True by (simp add: upd_circ_def set_blocked_def)
    with True * show ?thesis by (simp add: set_streams_blocked_on_circ_def Let_def)
  next
    case False
    have "upd_circ c (set_blocked k b) w = upd_circ c (\<lambda>ci. ci\<lparr>ci_streams_blocked_on_p_conn := b\<rparr>) w"
      using False by (simp add: upd_circ_def set_blocked_def)
    with False assms * show ?thesis by (simp add: set_streams_blocked_on_circ_def Let_def linked_def)
  qed
qed

lemma circ_queue_on: "linked w k c \<Longrightarrow> circ_queue (ci_n_conn (w_circs w c) = Some k) c w = queue_on w k c"
  by (simp add: queue_on_def)

lemma blocked_on_side:
  "linked w k c \<Longrightarrow> (if ci_n_conn (w_circs w c) = Some k then ci_streams_blocked_on_n_conn (w_circs w c)
     else ci_streams_blocked_on_p_conn (w_circs w c)) = blocked_on w k c"
  by (simp add: blocked_on_def)

lemma set_blocked_same:
  assumes "linked w k c"
  shows "(upd_circ c (set_blocked k (blocked_on w k c)) w)\<lparr>w_edges := w_edges w\<rparr> = w"
  using assms by (simp add: upd_circ_def set_blocked_def blocked_on_def)

lemma unblock_ok:
  assumes "linked w k c"
  shows "\<exists>E. (if blocked_on w k c \<and> low then set_streams_blocked_on_circ c k False w else OK w) =
    OK ((upd_circ c (set_blocked k (blocked_on w k c \<and> \<not> low)) w)\<lparr>w_edges := E\<rparr>)"
proof (cases "blocked_on w k c \<and> low")
  case False
  then have "(blocked_on w k c \<and> \<not> low) = blocked_on w k c" by blast
  with False set_blocked_same [OF assms] show ?thesis by (intro exI [of _ "w_edges w"]) auto
qed (use set_streams_blocked_ok [OF assms, of False] in simp)

lemma block_ok:
  assumes "linked w k c"
  shows "\<exists>E. (if \<not> blocked_on w k c \<and> high then set_streams_blocked_on_circ c k True w else OK w) =
    OK ((upd_circ c (set_blocked k (blocked_on w k c \<or> high)) w)\<lparr>w_edges := E\<rparr>)"
proof (cases "\<not> blocked_on w k c \<and> high")
  case False
  then have "(blocked_on w k c \<or> high) = blocked_on w k c" by blast
  with False set_blocked_same [OF assms] show ?thesis by (intro exI [of _ "w_edges w"]) auto
qed (use set_streams_blocked_ok [OF assms, of True] in simp)

subsection \<open>The invariant\<close>

text \<open>
  \<open>circuits_ok w R\<close>: for every connection \<open>k\<close>, \<open>R k\<close> is the ring of circuits linked to it, which
  are exactly those with cells queued for it; queues count their cells, which are packed cells; the
  streams of a circuit are blocked between the high and the low water mark; no circuit has the same
  connection on both sides.
\<close>

definition water_ok :: "bool \<Rightarrow> int \<Rightarrow> bool" where
  "water_ok blocked n \<longleftrightarrow> (if blocked then CELL_QUEUE_LOWWATER_SIZE < n else n < CELL_QUEUE_HIGHWATER_SIZE)"

definition two_sided :: "'d world \<Rightarrow> bool" where
  "two_sided w \<longleftrightarrow> (\<forall>c k. ci_n_conn (w_circs w c) = Some k \<longrightarrow> \<not> ci_origin (w_circs w c) \<longrightarrow>
     ci_p_conn (w_circs w c) \<noteq> Some k)"

definition circuits_ok :: "'d world \<Rightarrow> (conn_ref \<Rightarrow> circ_ref list) \<Rightarrow> bool" where
  "circuits_ok w R \<longleftrightarrow> or_conns_wf w \<and> two_sided w \<and> (\<forall>k. ring_on w k (R k)) \<and>
     (\<forall>k c. c \<in> set (R k) \<longleftrightarrow> cq_cells (queue_on w k c) \<noteq> []) \<and>
     (\<forall>k c. queue_ok (queue_on w k c) \<and>
        list_all (\<lambda>cell. length cell = CELL_NETWORK_SIZE) (cq_cells (queue_on w k c)) \<and>
        water_ok (blocked_on w k c) (cq_n (queue_on w k c)))"

lemma two_sided_upd [view_simps]:
  "two_sided (upd_circ c (set_queue k q) w) = two_sided w"
  "two_sided (upd_circ c (set_blocked k b) w) = two_sided w"
  "two_sided (upd_conn k f w) = two_sided w"
  "two_sided (w\<lparr>w_alloc := st\<rparr>) = two_sided w" "two_sided (w\<lparr>w_edges := E\<rparr>) = two_sided w"
  "two_sided (w\<lparr>w_total_cells_allocated := t\<rparr>) = two_sided w"
  "two_sided (put_links k nx pv a w) = two_sided w"
  by (auto simp: two_sided_def)

lemma or_conns_wf_upd [view_simps]:
  "or_conns_wf (upd_circ c f w) = or_conns_wf w" "or_conns_wf (w\<lparr>w_edges := E\<rparr>) = or_conns_wf w"
  "or_conns_wf (w\<lparr>w_total_cells_allocated := t\<rparr>) = or_conns_wf w"
  "or_conns_wf (put_links k nx pv a w) = or_conns_wf w"
  by (auto simp: or_conns_wf_def)

lemma ring_on_upd [view_simps]:
  "ring_on (upd_circ c (set_queue k q) w) k' cs = ring_on w k' cs"
  "ring_on (upd_circ c (set_blocked k b) w) k' cs = ring_on w k' cs"
  "ring_on (w\<lparr>w_alloc := st\<rparr>) k' cs = ring_on w k' cs"
  "ring_on (w\<lparr>w_edges := E\<rparr>) k' cs = ring_on w k' cs"
  "ring_on (w\<lparr>w_total_cells_allocated := t\<rparr>) k' cs = ring_on w k' cs"
  by (simp_all add: ring_on_def view_simps)

lemma ring_on_other: "k' \<noteq> k \<Longrightarrow> ring_on (upd_conn k f w) k' cs = ring_on w k' cs"
  by (simp add: ring_on_def view_simps activef_def)

text \<open>Flushing \<open>n\<close> cells of circuit \<open>c\<close>, when no write to the socket interferes.\<close>

definition sent_cells ::
  "conn_ref \<Rightarrow> circ_ref \<Rightarrow> cell_queue \<Rightarrow> buf \<Rightarrow> nat \<Rightarrow> bool \<Rightarrow> chunk_alloc \<Rightarrow> int \<Rightarrow> 'd world \<Rightarrow> 'd world" where
  "sent_cells k c q b fl wr st t w =
     upd_conn k (\<lambda>oc. oc\<lparr>cn_outbuf := b, cn_writing := wr, cn_outbuf_flushlen := fl\<rparr>)
       (upd_circ c (set_queue k q) (w\<lparr>w_alloc := st, w_total_cells_allocated := t\<rparr>))"

lemma sent_cells_again:
  "sent_cells k c q2 b2 f2 w2 s2 t2 (sent_cells k c q1 b1 f1 w1 s1 t1 w) = sent_cells k c q2 b2 f2 w2 s2 t2 w"
  by (simp add: sent_cells_def upd_conn_def upd_circ_def set_queue_def)

lemma sent_cells_none:
  assumes "linked w k c"
  shows "sent_cells k c (queue_on w k c) (cn_outbuf (w_conns w k)) (cn_outbuf_flushlen (w_conns w k))
     (cn_writing (w_conns w k)) (w_alloc w) (w_total_cells_allocated w) w = w"
  using assms
  by (simp add: sent_cells_def upd_conn_def upd_circ_def set_queue_def queue_on_def circ_queue_def)

lemma sent_cells_view [view_simps]:
  "linked (sent_cells k c q b fl wr st t w) k' d = linked w k' d"
  "nextf (sent_cells k c q b fl wr st t w) k' = nextf w k'"
  "prevf (sent_cells k c q b fl wr st t w) k' = prevf w k'"
  "activef (sent_cells k c q b fl wr st t w) k' = activef w k'"
  "ring_on (sent_cells k c q b fl wr st t w) k' cs = ring_on w k' cs"
  "two_sided (sent_cells k c q b fl wr st t w) = two_sided w"
  "blocked_on (sent_cells k c q b fl wr st t w) k' d = blocked_on w k' d"
  "outbuf_of (sent_cells k c q b fl wr st t w) k' = (if k' = k then buf_bytes b else outbuf_of w k')"
  "linked w k c \<Longrightarrow> queue_on (sent_cells k c q b fl wr st t w) k' d =
     (if k' = k \<and> d = c then q else queue_on w k' d)"
  by (auto simp: sent_cells_def view_simps ring_on_def activef_def outbuf_of_def)

lemma sent_one:
  assumes "or_conns_wf w" and "linked w k c" and "cq_cells (queue_on w k c) = cell # cells"
    and "length cell = CELL_NETWORK_SIZE" and "write_is_queued k CELL_NETWORK_SIZE w"
  shows "\<exists>b st. connection_write_to_buf hw cell k (upd_circ c (set_queue k q) w) =
      OK (sent_cells k c q b (cn_outbuf_flushlen (w_conns w k) + CELL_NETWORK_SIZE) True st
            (w_total_cells_allocated w) w) \<and>
    buf_bytes b = outbuf_of w k @ cell \<and> buf_inv st b \<and> same_build (w_alloc w) st"
proof -
  let ?w = "upd_circ c (set_queue k q) w"
  have "or_conns_wf ?w" "write_is_queued k (length cell) ?w" "cell \<noteq> []" "length cell \<le> 4096"
    using assms by (auto simp: view_simps write_is_queued_def cell_sizes)
  from connection_write_to_buf_queued [OF this(1,3,2,4), of hw] obtain st b where
    "connection_write_to_buf hw cell k ?w = OK (upd_conn k (\<lambda>c. c\<lparr>cn_outbuf := b, cn_writing := True,
           cn_outbuf_flushlen := cn_outbuf_flushlen c + length cell\<rparr>) (?w\<lparr>w_alloc := st\<rparr>))"
    "buf_bytes b = outbuf_of w k @ cell" "buf_inv st b" "same_build (w_alloc w) st"
    by (auto simp: outbuf_of_def)
  moreover have "upd_conn k (\<lambda>c. c\<lparr>cn_outbuf := b, cn_writing := True,
           cn_outbuf_flushlen := cn_outbuf_flushlen c + length cell\<rparr>) (?w\<lparr>w_alloc := st\<rparr>) =
      sent_cells k c q b (cn_outbuf_flushlen (w_conns w k) + CELL_NETWORK_SIZE) True st
            (w_total_cells_allocated w) w"
    using assms(4) by (cases w) (simp add: sent_cells_def upd_conn_def upd_circ_def)
  ultimately show ?thesis by auto
qed

lemma or_conns_wf_sent [view_simps]:
  assumes "or_conns_wf w" and "same_build (w_alloc w) st" and "buf_inv st b"
  shows "or_conns_wf (sent_cells k c q b fl wr st t w)"
  using assms buf_inv_same_build [of "w_alloc w" _ st]
  by (auto simp: or_conns_wf_def sent_cells_def buf_inv_iff)

lemma flush_loop_ok:
  assumes "or_conns_wf w" and "linked w k c" and "nextf w k c \<noteq> None" and "activef w k = Some c"
    and "queue_ok (queue_on w k c)"
    and "list_all (\<lambda>cell. length cell = CELL_NETWORK_SIZE) (cq_cells (queue_on w k c))"
    and "write_is_queued k (n * CELL_NETWORK_SIZE) w"
  shows "\<exists>q b fl wr st t. flush_loop hw (ci_n_conn (w_circs w c) = Some k) c k n w =
      OK (sent_cells k c q b fl wr st t w, min n (length (cq_cells (queue_on w k c))), False) \<and>
    queue_ok q \<and> cq_cells q = drop n (cq_cells (queue_on w k c)) \<and>
    buf_bytes b = outbuf_of w k @ concat (take n (cq_cells (queue_on w k c))) \<and>
    buf_inv st b \<and> same_build (w_alloc w) st"
  using assms
proof (induction n arbitrary: w)
  case 0
  have "buf_inv (w_alloc w) (cn_outbuf (w_conns w k))" using 0(1) by (simp add: or_conns_wf_def)
  with 0 sent_cells_none [OF 0(2)] show ?case
    by (intro exI [of _ "queue_on w k c"] exI [of _ "cn_outbuf (w_conns w k)"]
        exI [of _ "cn_outbuf_flushlen (w_conns w k)"] exI [of _ "cn_writing (w_conns w k)"]
        exI [of _ "w_alloc w"] exI [of _ "w_total_cells_allocated w"])
      (simp add: outbuf_of_def same_build_def)
next
  case (Suc n)
  let ?s = "ci_n_conn (w_circs w c) = Some k" and ?q = "queue_on w k c"
  have cq: "circ_queue ?s c w = ?q" using Suc.prems(2) by (simp add: queue_on_def)
  show ?case
  proof (cases "cq_cells ?q")
    case Nil
    have "buf_inv (w_alloc w) (cn_outbuf (w_conns w k))" using Suc.prems(1) by (simp add: or_conns_wf_def)
    with Suc.prems Nil sent_cells_none [OF Suc.prems(2)] cq show ?thesis
      by (intro exI [of _ "queue_on w k c"] exI [of _ "cn_outbuf (w_conns w k)"]
          exI [of _ "cn_outbuf_flushlen (w_conns w k)"] exI [of _ "cn_writing (w_conns w k)"]
          exI [of _ "w_alloc w"] exI [of _ "w_total_cells_allocated w"])
        (simp add: outbuf_of_def same_build_def cell_queue_pop_def)
  next
    case (Cons cell cells)
    let ?q1 = "?q\<lparr>cq_cells := cells, cq_n := cq_n ?q - 1\<rparr>"
    let ?fl = "cn_outbuf_flushlen (w_conns w k) + CELL_NETWORK_SIZE"
    have pop: "cell_queue_pop (circ_queue ?s c w) = Some (cell, ?q1)"
      using Cons cq by (simp add: cell_queue_pop_def)
    have len: "length cell = CELL_NETWORK_SIZE" using Suc.prems(6) Cons by simp
    have wq: "write_is_queued k CELL_NETWORK_SIZE w"
      using Suc.prems(7) by (auto simp: write_is_queued_def Let_def)
    from sent_one [OF Suc.prems(1,2) Cons len wq, of hw ?q1] obtain b st where
      wr: "connection_write_to_buf hw cell k (upd_circ c (set_queue k ?q1) w) =
        OK (sent_cells k c ?q1 b ?fl True st (w_total_cells_allocated w) w)"
      and b: "buf_bytes b = outbuf_of w k @ cell" "buf_inv st b" "same_build (w_alloc w) st" by blast
    let ?w3 = "sent_cells k c ?q1 b ?fl True st (w_total_cells_allocated w - 1) w"
    have free: "packed_cell_free (sent_cells k c ?q1 b ?fl True st (w_total_cells_allocated w) w) = ?w3"
      by (simp add: packed_cell_free_def sent_cells_def upd_conn_def upd_circ_def)
    have s3: "ci_n_conn (w_circs ?w3 c) = ci_n_conn (w_circs w c)" by (simp add: sent_cells_def)
    have q3: "queue_on ?w3 k c = ?q1" using Suc.prems(2) by (simp add: view_simps)
    have "or_conns_wf ?w3" using or_conns_wf_sent [OF Suc.prems(1) b(3,2)] .
    moreover have "linked ?w3 k c" "nextf ?w3 k c \<noteq> None" "activef ?w3 k = Some c"
      using Suc.prems(2,3,4) by (simp_all add: view_simps)
    moreover have "queue_ok (queue_on ?w3 k c)"
      "list_all (\<lambda>cell. length cell = CELL_NETWORK_SIZE) (cq_cells (queue_on ?w3 k c))"
      unfolding q3 using Suc.prems(5,6) Cons by (simp_all add: queue_ok_def)
    moreover have "write_is_queued k (n * CELL_NETWORK_SIZE) ?w3"
      using Suc.prems(7) b(1) len by (auto simp: write_is_queued_def Let_def sent_cells_def outbuf_of_def)
    ultimately obtain q b' fl wr st' t where
      IH: "flush_loop hw ?s c k n ?w3 = OK (sent_cells k c q b' fl wr st' t ?w3, min n (length cells), False)"
        "queue_ok q" "cq_cells q = drop n cells" "buf_bytes b' = outbuf_of ?w3 k @ concat (take n cells)"
        "buf_inv st' b'" "same_build (w_alloc ?w3) st'"
      using Suc.IH [of ?w3] by (auto simp: s3 q3)
    have "next_circ_on_conn (Some c) k (upd_circ c (set_queue k ?q1) w) = OK (nextf w k c)"
      using next_circ_OK [of "upd_circ c (set_queue k ?q1) w" k c] Suc.prems(2) by (simp add: view_simps)
    moreover have "oc_active_circuits (w_conns ?w3 k) = Some c"
      using Suc.prems(4) by (simp add: sent_cells_def activef_def)
    ultimately have "flush_loop hw ?s c k (Suc n) w =
        OK (sent_cells k c q b' fl wr st' t w, Suc (min n (length cells)), False)"
      using pop wr IH(1) Suc.prems(3) free
      by (simp add: set_circ_queue_eq Let_def sent_cells_again)
    moreover have "buf_bytes b' = outbuf_of w k @ cell @ concat (take n cells)"
      using IH(4) b(1) by (simp add: view_simps)
    moreover have "same_build (w_alloc w) st'"
      using b(3) IH(6) by (simp add: sent_cells_def same_build_def)
    ultimately show ?thesis using IH(2,3,5) Cons
      by (intro exI [of _ q] exI [of _ b'] exI [of _ fl] exI [of _ wr] exI [of _ st'] exI [of _ t])
        (simp del: flush_loop.simps)
  qed
qed

lemma circuits_ok_D:
  assumes "circuits_ok w R"
  shows "or_conns_wf w" and "two_sided w" and "ring_on w k (R k)"
    and "c \<in> set (R k) \<longleftrightarrow> cq_cells (queue_on w k c) \<noteq> []" and "queue_ok (queue_on w k c)"
    and "list_all (\<lambda>cell. length cell = CELL_NETWORK_SIZE) (cq_cells (queue_on w k c))"
    and "water_ok (blocked_on w k c) (cq_n (queue_on w k c))"
  using assms by (auto simp: circuits_ok_def)

lemma circuits_ok_timestamp [view_simps]:
  "circuits_ok (upd_conn k (\<lambda>oc. oc\<lparr>oc_timestamp_last_added_nonpadding := t\<rparr>) w) R = circuits_ok w R"
  by (auto simp: circuits_ok_def view_simps or_conns_wf_def ring_on_def activef_def)

text \<open>
  The ring turns: the first circuit goes to the end, or leaves the ring when its queue is empty.
\<close>

lemma flush_first_active_ok:
  assumes ok: "circuits_ok w R" and R: "R k = c # cs" and "0 < n"
    and "write_is_queued k (n * CELL_NETWORK_SIZE) w"
  shows "\<exists>w'. connection_or_flush_from_first_active_circuit hw k n now w =
      OK (w', min n (length (cq_cells (queue_on w k c)))) \<and>
    circuits_ok w' (R(k := if drop n (cq_cells (queue_on w k c)) = [] then cs else cs @ [c])) \<and>
    (\<forall>k' d. cq_cells (queue_on w' k' d) =
       (if k' = k \<and> d = c then drop n (cq_cells (queue_on w k c)) else cq_cells (queue_on w k' d))) \<and>
    (\<forall>k'. outbuf_of w' k' = (if k' = k then outbuf_of w k @ concat (take n (cq_cells (queue_on w k c)))
       else outbuf_of w k')) \<and> (\<forall>k'. flags_of w' k' = flags_of w k')"
proof -
  let ?cells = "cq_cells (queue_on w k c)"
  have ring: "ring_on w k (c # cs)" using circuits_ok_D(3) [OF ok, of k] R by simp
  then have l: "linked w k c" and act: "activef w k = Some c" and nx: "nextf w k c \<noteq> None"
    using ring_on_linked [of w k "c # cs" c] by (auto simp: ring_on_def is_ring_def)
  have side: "ci_n_conn (w_circs w c) = Some k \<or> \<not> ci_origin (w_circs w c)"
    using l by (auto simp: linked_def)
  obtain q b fl wr st t where
    loop: "flush_loop hw (ci_n_conn (w_circs w c) = Some k) c k n w =
      OK (sent_cells k c q b fl wr st t w, min n (length ?cells), False)"
    and q: "queue_ok q" "cq_cells q = drop n ?cells"
    and b: "buf_bytes b = outbuf_of w k @ concat (take n ?cells)" "buf_inv st b" "same_build (w_alloc w) st"
    using flush_loop_ok [OF circuits_ok_D(1) [OF ok] l nx act circuits_ok_D(5,6) [OF ok] assms(4)] by blast
  let ?w1 = "sent_cells k c q b fl wr st t w"
  let ?w2 = "upd_conn k (\<lambda>oc. oc\<lparr>oc_active_circuits := nextf w k c\<rparr>) ?w1"
  let ?low = "cq_n q \<le> CELL_QUEUE_LOWWATER_SIZE" and ?bl = "blocked_on w k c"
  have is_r: "is_ring (nextf w k) (prevf w k) (c # cs)" using ring by (simp add: ring_on_def)
  then have c: "c \<notin> set cs" by (simp add: is_ring_def)
  have ring2: "ring_on ?w2 k (cs @ [c])"
    using is_r is_ring_rotate1 [of _ _ "c # cs"] next_in_last_part [of _ _ "[]" c cs]
    by (auto simp: ring_on_def view_simps activef_def)
  have l2: "linked ?w2 k c" and bl2: "blocked_on ?w2 k c = ?bl" using l by (simp_all add: view_simps)
  obtain E where unbl: "(if ?bl \<and> ?low then set_streams_blocked_on_circ c k False ?w2 else OK ?w2) =
      OK ((upd_circ c (set_blocked k (?bl \<and> \<not> ?low)) ?w2)\<lparr>w_edges := E\<rparr>)"
    using unblock_ok [OF l2, of ?low] unfolding bl2 by blast
  let ?w3 = "(upd_circ c (set_blocked k (?bl \<and> \<not> ?low)) ?w2)\<lparr>w_edges := E\<rparr>"
  have l3: "linked ?w3 k c" and ring3: "ring_on ?w3 k (cs @ [c])"
    using l ring2 by (simp_all add: view_simps)
  obtain nx pv a where in3: "make_circuit_inactive_on_conn c k ?w3 = OK (put_links k nx pv a ?w3)"
    "ring_on (put_links k nx pv a ?w3) k cs"
    using make_inactive_ok [OF ring3 l3] c by (auto simp: remove1_append)
  define w4 where "w4 = (if cq_n q = 0 then put_links k nx pv a ?w3 else ?w3)"
  have q0: "cq_n q = 0 \<longleftrightarrow> drop n ?cells = []" using q by (simp add: queue_ok_def)
  have side2: "ci_n_conn (w_circs ?w2 c) = ci_n_conn (w_circs w c)"
    "ci_n_conn (w_circs ?w3 c) = ci_n_conn (w_circs w c)" by (simp_all add: sent_cells_def)
  have cq: "circ_queue (ci_n_conn (w_circs w c) = Some k) c ?w2 = q"
    "circ_queue (ci_n_conn (w_circs w c) = Some k) c ?w3 = q"
    using circ_queue_on [OF l2] circ_queue_on [OF l3] l unfolding side2 by (simp_all add: view_simps)
  have nx1: "next_circ_on_conn (Some c) k ?w1 = OK (nextf w k c)"
    using next_circ_OK [of ?w1 k c] l by (simp add: view_simps)
  have fin: "(if cq_n q = 0 then make_circuit_inactive_on_conn c k ?w3 else OK ?w3) = OK w4"
    unfolding w4_def in3(1) by (rule if_distrib [symmetric])
  have flush: "connection_or_flush_from_first_active_circuit hw k n now w =
     OK (if min n (length ?cells) \<noteq> 0
         then upd_conn k (\<lambda>oc. oc\<lparr>oc_timestamp_last_added_nonpadding := now\<rparr>) w4 else w4,
         min n (length ?cells))"
    unfolding connection_or_flush_from_first_active_circuit_def act [unfolded activef_def] option.case Let_def
      blocked_on_side [OF l] tor_assert_holds [OF side] next_circ_OK [OF l] rbind.simps
      tor_assert_holds [OF nx] loop prod.case nx1 cq unbl fin
    by simp
  have view: "queue_on w4 k' d = (if k' = k \<and> d = c then q else queue_on w k' d)"
    "blocked_on w4 k' d = (if k' = k \<and> d = c then ?bl \<and> \<not> ?low else blocked_on w k' d)"
    "outbuf_of w4 k' = (if k' = k then buf_bytes b else outbuf_of w k')"
    "flags_of w4 k' = flags_of w k'" for k' d
    using l l2 by (simp_all add: w4_def view_simps outbuf_of_def flags_of_def sent_cells_def)
  have ring4: "ring_on w4 k' ((R(k := if drop n ?cells = [] then cs else cs @ [c])) k')" for k'
  proof (cases "k' = k")
    case True
    with in3(2) ring3 q0 show ?thesis by (simp add: w4_def)
  next
    case False
    then have "ring_on ?w3 k' (R k')"
      using circuits_ok_D(3) [OF ok, of k'] by (simp add: view_simps ring_on_other)
    with False show ?thesis unfolding w4_def if_distrib [of "\<lambda>v. ring_on v k' _"]
      by (simp only: ring_on_put_other [OF False] if_cancel fun_upd_other [OF False])
  qed
  have "water_ok (?bl \<and> \<not> ?low) (cq_n q)"
    using circuits_ok_D(5,7) [OF ok, of k c] q
    by (auto simp: water_ok_def queue_ok_def CELL_QUEUE_LOWWATER_SIZE_def CELL_QUEUE_HIGHWATER_SIZE_def)
  moreover have "or_conns_wf w4"
    using or_conns_wf_sent [OF circuits_ok_D(1) [OF ok] b(3,2)]
    by (simp add: w4_def view_simps or_conns_wf_def)
  moreover have "two_sided w4" using circuits_ok_D(2) [OF ok] by (simp add: w4_def view_simps)
  moreover have "list_all (\<lambda>cell. length cell = CELL_NETWORK_SIZE) (drop n ?cells)"
    using circuits_ok_D(6) [OF ok] by (auto simp: list_all_iff dest: in_set_dropD)
  moreover have "d \<in> set ((R(k := if drop n ?cells = [] then cs else cs @ [c])) k') \<longleftrightarrow>
      cq_cells (queue_on w4 k' d) \<noteq> []" for k' d
    using circuits_ok_D(4) [OF ok, of d k'] q(2) c R by (auto simp: view)
  ultimately have "circuits_ok w4 (R(k := if drop n ?cells = [] then cs else cs @ [c]))"
    unfolding circuits_ok_def using ring4 circuits_ok_D(5,6,7) [OF ok] q
    by (simp add: view del: fun_upd_apply)
  then show ?thesis unfolding flush
    using q b view by (auto simp: view_simps outbuf_of_def flags_of_def)
qed

subsection \<open>A scheduler of queues\<close>

text \<open>
  The contract, without pointers: per connection, the active circuits in turn with their queued
  cells, and the bytes written so far.  Flushing sends one cell of the first circuit, which then
  goes to the back or, with an empty queue, leaves.
\<close>

record sched =
  sc_ring :: "conn_ref \<Rightarrow> (circ_ref \<times> byte list list) list"
  sc_out :: "conn_ref \<Rightarrow> byte list"

definition sched_flush :: "conn_ref \<Rightarrow> sched \<Rightarrow> sched" where
  "sched_flush k s = (case sc_ring s k of
     (c, cell # cells) # r \<Rightarrow>
       s\<lparr>sc_ring := (sc_ring s)(k := if cells = [] then r else r @ [(c, cells)]),
         sc_out := (sc_out s)(k := sc_out s k @ cell)\<rparr>
   | _ \<Rightarrow> s)"

definition sched_enqueue :: "conn_ref \<Rightarrow> circ_ref \<Rightarrow> byte list \<Rightarrow> sched \<Rightarrow> sched" where
  "sched_enqueue k c cell s = s\<lparr>sc_ring := (sc_ring s)(k :=
     if c \<in> fst ` set (sc_ring s k)
     then map (\<lambda>(d, q). (d, if d = c then q @ [cell] else q)) (sc_ring s k)
     else sc_ring s k @ [(c, [cell])])\<rparr>"

definition sched_append :: "conn_ref \<Rightarrow> circ_ref \<Rightarrow> byte list \<Rightarrow> sched \<Rightarrow> sched" where
  "sched_append k c cell s =
     (let s1 = sched_enqueue k c cell s in if sc_out s1 k = [] then sched_flush k s1 else s1)"

definition abs_sched :: "'d world \<Rightarrow> (conn_ref \<Rightarrow> circ_ref list) \<Rightarrow> sched" where
  "abs_sched w R = \<lparr>sc_ring = (\<lambda>k. map (\<lambda>c. (c, cq_cells (queue_on w k c))) (R k)), sc_out = outbuf_of w\<rparr>"

lemma flush_refines:
  assumes ok: "circuits_ok w R" and wq: "write_is_queued k CELL_NETWORK_SIZE w" and ne: "R k \<noteq> []"
  shows "\<exists>w' R'. connection_or_flush_from_first_active_circuit hw k 1 now w = OK (w', 1) \<and>
    circuits_ok w' R' \<and> abs_sched w' R' = sched_flush k (abs_sched w R) \<and>
    (\<forall>k'. flags_of w' k' = flags_of w k') \<and>
    length (outbuf_of w' k) = length (outbuf_of w k) + CELL_NETWORK_SIZE"
proof -
  obtain c cs where R: "R k = c # cs" using ne by (cases "R k") auto
  have dist: "c \<notin> set cs" using circuits_ok_D(3) [OF ok, of k] R by (simp add: ring_on_def is_ring_def)
  obtain cell cells where q: "cq_cells (queue_on w k c) = cell # cells"
    using circuits_ok_D(4) [OF ok, of c k] R by (cases "cq_cells (queue_on w k c)") auto
  have len: "length cell = CELL_NETWORK_SIZE" using circuits_ok_D(6) [OF ok, of k c] q by simp
  let ?R = "R(k := if cells = [] then cs else cs @ [c])"
  obtain w' where w': "connection_or_flush_from_first_active_circuit hw k 1 now w = OK (w', 1)"
    "circuits_ok w' ?R"
    and v: "\<And>k' d. cq_cells (queue_on w' k' d) = (if k' = k \<and> d = c then cells else cq_cells (queue_on w k' d))"
      "\<And>k'. outbuf_of w' k' = (if k' = k then outbuf_of w k @ cell else outbuf_of w k')"
    and fl: "\<forall>k'. flags_of w' k' = flags_of w k'"
    using flush_first_active_ok [OF ok R zero_less_one, of hw now] wq q by auto
  have "map (\<lambda>d. (d, cq_cells (queue_on w' k d))) cs = map (\<lambda>d. (d, cq_cells (queue_on w k d))) cs"
    using dist v(1) by auto
  then have "abs_sched w' ?R = sched_flush k (abs_sched w R)"
    using R q v by (auto simp: abs_sched_def sched_flush_def fun_eq_iff)
  with w' fl v(2) len show ?thesis by auto
qed

text \<open>The circuit writes on connection \<open>k\<close> in the given direction.\<close>

definition writes_on :: "'d world \<Rightarrow> circ_ref \<Rightarrow> conn_ref \<Rightarrow> cell_direction \<Rightarrow> bool" where
  "writes_on w c k dir \<longleftrightarrow> (case dir of
     CELL_DIRECTION_OUT \<Rightarrow> ci_n_conn (w_circs w c) = Some k
   | CELL_DIRECTION_IN \<Rightarrow> \<not> ci_origin (w_circs w c) \<and> ci_p_conn (w_circs w c) = Some k)"

definition on_wire :: "'d world \<Rightarrow> conn_ref \<Rightarrow> cell \<Rightarrow> cell" where
  "on_wire w k cell = (if ce_command cell = CELL_RELAY_EARLY \<and> oc_link_proto (w_conns w k) < 2
     then cell\<lparr>ce_command := CELL_RELAY\<rparr> else cell)"

lemma writes_on_side:
  assumes "writes_on w c k dir" and "two_sided w"
  shows "linked w k c" and "(dir = CELL_DIRECTION_OUT) = (ci_n_conn (w_circs w c) = Some k)"
    and "dir = CELL_DIRECTION_OUT \<or> \<not> ci_origin (w_circs w c)"
  using assms by (auto simp: writes_on_def linked_def two_sided_def split: cell_direction.splits)

lemma activate_if_first:
  assumes "ring_on w k cs" and "linked w k c" and "first \<longrightarrow> c \<notin> set cs"
  shows "\<exists>w'. (if first then make_circuit_active_on_conn c k w else OK w) = OK w' \<and>
    ring_on w' k (if first then cs @ [c] else cs) \<and> (\<forall>k' ds. k' \<noteq> k \<longrightarrow> ring_on w' k' ds = ring_on w k' ds) \<and>
    queue_on w' = queue_on w \<and> blocked_on w' = blocked_on w \<and> outbuf_of w' = outbuf_of w \<and>
    or_conns_wf w' = or_conns_wf w \<and> two_sided w' = two_sided w \<and> flags_of w' = flags_of w \<and>
    (\<forall>k'. cn_outbuf (w_conns w' k') = cn_outbuf (w_conns w k') \<and>
       cn_outbuf_flushlen (w_conns w' k') = cn_outbuf_flushlen (w_conns w k')) \<and> w_now w' = w_now w"
proof (cases first)
  case True
  from make_active_ok [OF assms(1,2)] assms(3) True obtain nx pv a where
    "make_circuit_active_on_conn c k w = OK (put_links k nx pv a w)"
    "ring_on (put_links k nx pv a w) k (cs @ [c])" by auto
  with True show ?thesis
    by (intro exI [of _ "put_links k nx pv a w"]) (simp add: view_simps ring_on_put_other fun_eq_iff flags_of_def)
qed (use assms in simp)

lemma append_refines:
  assumes ok: "circuits_ok w R" and wo: "writes_on w c k dir"
    and len: "length (ce_payload cell) = CELL_PAYLOAD_SIZE"
    and wq: "outbuf_of w k = [] \<longrightarrow> write_is_queued k CELL_NETWORK_SIZE w"
  shows "\<exists>w' R'. append_cell_to_circuit_queue hw c k cell dir w = OK w' \<and> circuits_ok w' R' \<and>
    abs_sched w' R' = sched_append k c (cell_pack (on_wire w k cell)) (abs_sched w R)"
proof -
  note side = writes_on_side [OF wo circuits_ok_D(2) [OF ok]]
  note l = side(1)
  let ?cells = "cq_cells (queue_on w k c)" and ?copy = "cell_pack (on_wire w k cell)"
  let ?q = "cell_queue_append (queue_on w k c) ?copy"
  let ?w1 = "w\<lparr>w_total_cells_allocated := w_total_cells_allocated w + 1\<rparr>"
  let ?w2 = "upd_circ c (set_queue k ?q) ?w1"
  let ?high = "CELL_QUEUE_HIGHWATER_SIZE \<le> cq_n ?q" and ?bl = "blocked_on w k c"
  have copy: "length ?copy = CELL_NETWORK_SIZE"
    using len by (simp add: length_cell_pack on_wire_def)
  have qok: "queue_ok ?q" using circuits_ok_D(5) [OF ok] by simp
  have first: "cq_n ?q = 1 \<longleftrightarrow> ?cells = []"
    using circuits_ok_D(5) [OF ok, of k c] by (auto simp: cell_queue_append_def queue_ok_def)
  have l2: "linked ?w2 k c" and bl2: "blocked_on ?w2 k c = ?bl" and ring2: "ring_on ?w2 k (R k)"
    using l circuits_ok_D(3) [OF ok, of k] by (simp_all add: view_simps)
  obtain E where bl: "(if \<not> ?bl \<and> ?high then set_streams_blocked_on_circ c k True ?w2 else OK ?w2) =
      OK ((upd_circ c (set_blocked k (?bl \<or> ?high)) ?w2)\<lparr>w_edges := E\<rparr>)"
    using block_ok [OF l2, of ?high] unfolding bl2 by blast
  let ?w3 = "(upd_circ c (set_blocked k (?bl \<or> ?high)) ?w2)\<lparr>w_edges := E\<rparr>"
  have l3: "linked ?w3 k c" and ring3: "ring_on ?w3 k (R k)" using l2 ring2 by (simp_all add: view_simps)
  have set_circ_queue_w1: "set_circ_queue (ci_n_conn (w_circs w c) = Some k) c q ?w1 =
      upd_circ c (set_queue k q) ?w1" for q
    using set_circ_queue_eq [of ?w1 c k q] by simp
  have side3: "ci_n_conn (w_circs ?w2 c) = ci_n_conn (w_circs w c)"
    "ci_n_conn (w_circs ?w3 c) = ci_n_conn (w_circs w c)" by simp_all
  have cq1: "circ_queue (ci_n_conn (w_circs w c) = Some k) c ?w1 = queue_on w k c"
    using circ_queue_on [OF l] by (simp add: circ_queue_def split: if_splits)
  have cq: "circ_queue (ci_n_conn (w_circs w c) = Some k) c ?w2 = ?q"
    "circ_queue (ci_n_conn (w_circs w c) = Some k) c ?w3 = ?q"
    using circ_queue_on [OF l2] circ_queue_on [OF l3] l unfolding side3 by (simp_all add: view_simps)
  obtain w4 where act: "(if cq_n ?q = 1 then make_circuit_active_on_conn c k ?w3 else OK ?w3) = OK w4"
    and ring4: "ring_on w4 k (if ?cells = [] then R k @ [c] else R k)"
      "\<And>k' ds. k' \<noteq> k \<Longrightarrow> ring_on w4 k' ds = ring_on ?w3 k' ds"
    and v4: "queue_on w4 = queue_on ?w3" "blocked_on w4 = blocked_on ?w3" "outbuf_of w4 = outbuf_of ?w3"
      "or_conns_wf w4 = or_conns_wf ?w3" "two_sided w4 = two_sided ?w3" "flags_of w4 = flags_of ?w3"
    and buf4: "cn_outbuf (w_conns w4 k) = cn_outbuf (w_conns ?w3 k)"
      "cn_outbuf_flushlen (w_conns w4 k) = cn_outbuf_flushlen (w_conns ?w3 k)"
      and now4: "w_now w4 = w_now ?w3"
    using activate_if_first [OF ring3 l3, of "?cells = []"] circuits_ok_D(4) [OF ok, of c k]
    unfolding first [symmetric] by (auto simp: first simp del: fun_upd_apply)
  have app: "append_cell_to_circuit_queue hw c k cell dir w =
      (if buf_datalen (cn_outbuf (w_conns w4 k)) = 0 then
            rbind (connection_or_flush_from_first_active_circuit hw k 1 (w_now w4) w4) (\<lambda>(w5, _). OK w5)
          else OK w4)"
    unfolding append_cell_to_circuit_queue_def Let_def side(2) tor_assert_holds [OF side(3) [unfolded side(2)]]
      packed_cell_copy_def prod.case on_wire_def [symmetric] cq1 blocked_on_side [OF l] set_circ_queue_w1
      cq bl rbind.simps act ..
  let ?R = "R(k := if ?cells = [] then R k @ [c] else R k)"
  have view: "queue_on w4 k' d = (if k' = k \<and> d = c then ?q else queue_on w k' d)"
    "blocked_on w4 k' d = (if k' = k \<and> d = c then ?bl \<or> ?high else blocked_on w k' d)"
    "outbuf_of w4 k' = outbuf_of w k'" for k' d
    using l l2 by (simp_all add: v4 view_simps)
  have ok4: "circuits_ok w4 ?R"
  proof -
    have "ring_on w4 k' (?R k')" for k'
      using ring4 circuits_ok_D(3) [OF ok, of k'] by (cases "k' = k") (simp_all add: view_simps)
    moreover have "water_ok (?bl \<or> ?high) (cq_n ?q)"
      using circuits_ok_D(7) [OF ok, of k c]
      by (auto simp: water_ok_def cell_queue_append_def CELL_QUEUE_LOWWATER_SIZE_def
          CELL_QUEUE_HIGHWATER_SIZE_def split: if_splits)
    moreover have "d \<in> set (?R k') \<longleftrightarrow> cq_cells (queue_on w4 k' d) \<noteq> []" for k' d
      using circuits_ok_D(4) [OF ok, of d k'] by (auto simp: view cell_queue_append_def)
    moreover have "list_all (\<lambda>cell. length cell = CELL_NETWORK_SIZE) (cq_cells ?q)"
      using circuits_ok_D(6) [OF ok, of k c] copy by (simp add: cell_queue_append_def)
    moreover have "or_conns_wf w4" "two_sided w4"
      using circuits_ok_D(1,2) [OF ok] by (simp_all add: v4 view_simps)
    ultimately show ?thesis
      unfolding circuits_ok_def using circuits_ok_D(5,6,7) [OF ok] qok by (simp add: view del: fun_upd_apply)
  qed
  have enq: "abs_sched w4 ?R = sched_enqueue k c ?copy (abs_sched w R)"
  proof (cases "?cells = []")
    case True
    then have "c \<notin> set (R k)" using circuits_ok_D(4) [OF ok] by simp
    moreover from this have "map (\<lambda>d. (d, cq_cells (queue_on w4 k d))) (R k) = map (\<lambda>d. (d, cq_cells (queue_on w k d))) (R k)"
      by (auto simp: view)
    ultimately show ?thesis using True
      by (auto simp: abs_sched_def sched_enqueue_def fun_eq_iff view cell_queue_append_def)
  next
    case False
    then have "c \<in> set (R k)" using circuits_ok_D(4) [OF ok] by simp
    with False show ?thesis
      by (auto simp: abs_sched_def sched_enqueue_def fun_eq_iff view cell_queue_append_def image_image)
  qed
  have dl: "buf_datalen (cn_outbuf (w_conns w4 k)) = 0 \<longleftrightarrow> outbuf_of w k = []"
    using circuits_ok_D(1) [OF ok] buf4 by (simp add: or_conns_wf_def buf_inv_iff outbuf_of_def)
  have out: "sc_out (sched_enqueue k c ?copy (abs_sched w R)) k = outbuf_of w k"
    by (simp add: sched_enqueue_def abs_sched_def)
  show ?thesis
  proof (cases "outbuf_of w k = []")
    case True
    have "write_is_queued k CELL_NETWORK_SIZE w4"
      using wq True buf4 v4(6) by (simp add: write_is_queued_def Let_def flags_of_def fun_eq_iff)
    moreover have "?R k \<noteq> []" using circuits_ok_D(4) [OF ok4, of c k] by (auto simp: view cell_queue_append_def)
    ultimately obtain w' R' where
      "connection_or_flush_from_first_active_circuit hw k 1 (w_now w4) w4 = OK (w', 1)"
      "circuits_ok w' R'" "abs_sched w' R' = sched_flush k (abs_sched w4 ?R)"
      using flush_refines [OF ok4] by blast
    with app dl True enq out show ?thesis by (auto simp: sched_append_def Let_def)
  next
    case False
    with app dl enq out ok4 show ?thesis by (auto simp: sched_append_def Let_def)
  qed
qed

subsection \<open>Refilling the output buffer\<close>

lemma sched_flush_empty: "sc_ring s k = [] \<Longrightarrow> (sched_flush k ^^ n) s = s"
  by (induction n) (simp_all add: sched_flush_def)

lemma ring_empty_iff: "circuits_ok w R \<Longrightarrow> oc_active_circuits (w_conns w k) = None \<longleftrightarrow> R k = []"
  using circuits_ok_D(3) [of w R k] by (simp add: ring_on_def activef_def)

lemma flushed_some_loop_refines:
  assumes "circuits_ok w R" and "write_is_queued k (n * CELL_NETWORK_SIZE) w"
    and "cn_in_flushed_some (w_conns w k)"
  shows "\<exists>w' R'. flushed_some_loop hw k now (int n) w = Some (OK w') \<and> circuits_ok w' R' \<and>
     abs_sched w' R' = (sched_flush k ^^ n) (abs_sched w R)"
  using assms
proof (induction n arbitrary: w R)
  case 0
  then show ?case by (auto simp: flushed_some_loop.simps)
next
  case (Suc n)
  show ?case
  proof (cases "R k = []")
    case True
    then have "sc_ring (abs_sched w R) k = []" by (simp add: abs_sched_def)
    with True Suc.prems(1) ring_empty_iff [OF Suc.prems(1)] show ?thesis
      by (auto simp: flushed_some_loop.simps sched_flush_empty simp del: funpow.simps)
  next
    case False
    have "write_is_queued k CELL_NETWORK_SIZE w"
      using Suc.prems(2) by (auto simp: write_is_queued_def Let_def)
    from flush_refines [OF Suc.prems(1) this False] obtain w1 R1 where
      1: "connection_or_flush_from_first_active_circuit hw k 1 now w = OK (w1, 1)" "circuits_ok w1 R1"
        "abs_sched w1 R1 = sched_flush k (abs_sched w R)" "flags_of w1 k = flags_of w k"
        "length (outbuf_of w1 k) = length (outbuf_of w k) + CELL_NETWORK_SIZE" by blast
    have "cn_in_flushed_some (w_conns w1 k)" "write_is_queued k (n * CELL_NETWORK_SIZE) w1"
      using Suc.prems(2,3) 1(4,5) by (auto simp: write_is_queued_def Let_def flags_of_def outbuf_of_def)
    from Suc.IH [OF 1(2) this(2,1)] obtain w' R' where
      "flushed_some_loop hw k now (int n) w1 = Some (OK w')" "circuits_ok w' R'"
      "abs_sched w' R' = (sched_flush k ^^ n) (abs_sched w1 R1)" by blast
    with 1 False ring_empty_iff [OF Suc.prems(1)] show ?thesis
      by (subst flushed_some_loop.simps) (auto simp: funpow_swap1)
  qed
qed

text \<open>One round: every circuit that was active sends one cell, in the order of the ring.\<close>

lemma sched_round:
  assumes "list_all (\<lambda>(c, q). q \<noteq> []) cs" and "sc_ring s k = cs @ ds"
  shows "sc_out ((sched_flush k ^^ length cs) s) k = sc_out s k @ concat (map (\<lambda>(c, q). hd q) cs)"
  using assms
proof (induction cs arbitrary: s ds)
  case (Cons p cs)
  obtain c cell cells where p: "p = (c, cell # cells)" using Cons.prems(1) by (cases p; cases "snd p") auto
  let ?s = "sched_flush k s"
  have f: "sc_ring ?s k = cs @ (if cells = [] then ds else ds @ [(c, cells)])" "sc_out ?s k = sc_out s k @ cell"
    using Cons.prems(2) p by (auto simp: sched_flush_def)
  show ?case using Cons.IH [OF _ f(1)] Cons.prems(1) f(2) p by (simp add: funpow_swap1)
qed simp

subsection \<open>Properties\<close>

text \<open>
  C25: \<^verbatim>\<open>append_cell_to_circuit_queue\<close> implements the scheduler.  From a state in which every ring is
  well linked and holds exactly the circuits with queued cells, appending a cell succeeds without a
  failing assertion, leads to such a state again, and has the effect of the scheduler: the packed
  cell (with RELAY\_EARLY turned into RELAY for old links) joins the queue of the circuit, which joins
  the ring if it was idle; and if nothing was waiting in the output buffer, the first circuit's
  next cell is written to it.
\<close>

theorem append_cell_refines_scheduler:
  assumes "circuits_ok w R" and "writes_on w c k dir" and "length (ce_payload cell) = CELL_PAYLOAD_SIZE"
    and "outbuf_of w k = [] \<longrightarrow> write_is_queued k CELL_NETWORK_SIZE w"
  shows "\<exists>w' R'. append_cell_to_circuit_queue hw c k cell dir w = OK w' \<and> circuits_ok w' R' \<and>
    abs_sched w' R' = sched_append k c (cell_pack (on_wire w k cell)) (abs_sched w R)"
  using append_refines [OF assms] .

text \<open>
  C26: \<^verbatim>\<open>connection_or_flushed_some\<close> returns, keeps the invariant, and below the low-water mark
  flushes one cell at a time, as many as reach the high-water mark, each from the next circuit in turn
  (nothing happens once the ring is empty).
\<close>

theorem flushed_some_refills:
  assumes "circuits_ok w R" and "cn_in_flushed_some (w_conns w k)"
    and "cn_marked_for_close (w_conns w k) \<longrightarrow> cn_hold_open_until_flushed (w_conns w k)"
    and "length (outbuf_of w k) < OR_CONN_LOWWATER"
  shows "\<exists>w' R'. connection_or_flushed_some hw k w = Some (OK w') \<and> circuits_ok w' R' \<and>
     abs_sched w' R' = (sched_flush k ^^
       ((OR_CONN_HIGHWATER - length (outbuf_of w k) + CELL_NETWORK_SIZE - 1) div CELL_NETWORK_SIZE))
       (abs_sched w R)"
proof -
  let ?n = "(OR_CONN_HIGHWATER - length (outbuf_of w k) + CELL_NETWORK_SIZE - 1) div CELL_NETWORK_SIZE"
  have "?n \<le> (OR_CONN_HIGHWATER + CELL_NETWORK_SIZE - 1) div CELL_NETWORK_SIZE" by (intro div_le_mono) simp
  then have n: "?n \<le> 64" by (simp add: OR_CONN_HIGHWATER_def CELL_NETWORK_SIZE_def)
  have dl: "buf_datalen (cn_outbuf (w_conns w k)) = length (outbuf_of w k)"
    using circuits_ok_D(1) [OF assms(1)] by (simp add: or_conns_wf_def buf_inv_iff outbuf_of_def)
  have "?n * CELL_NETWORK_SIZE \<le> 64 * 512" using n by (simp add: CELL_NETWORK_SIZE_def)
  then have "write_is_queued k (?n * CELL_NETWORK_SIZE) w"
    using assms(2-4) by (simp add: write_is_queued_def Let_def outbuf_of_def OR_CONN_LOWWATER_def int_max_def)
  from flushed_some_loop_refines [OF assms(1) this assms(2), of hw "w_now w"] assms(4) dl show ?thesis
    by (simp add: connection_or_flushed_some_def Let_def)
qed

text \<open>
  C28: fairness.  When the output buffer asks for as many cells as circuits are active, the refill
  takes exactly one cell from each of them, the first of its queue, in the order of the ring.
\<close>

theorem flushed_some_round_robin:
  assumes "circuits_ok w R" and "write_is_queued k (length (R k) * CELL_NETWORK_SIZE) w"
    and "cn_in_flushed_some (w_conns w k)"
  shows "\<exists>w' R'. flushed_some_loop hw k now (int (length (R k))) w = Some (OK w') \<and> circuits_ok w' R' \<and>
     outbuf_of w' k = outbuf_of w k @ concat (map (\<lambda>c. hd (cq_cells (queue_on w k c))) (R k))"
proof -
  from flushed_some_loop_refines [OF assms, of hw now] obtain w' R' where
    w': "flushed_some_loop hw k now (int (length (R k))) w = Some (OK w')" "circuits_ok w' R'"
      "abs_sched w' R' = (sched_flush k ^^ length (R k)) (abs_sched w R)" by blast
  let ?cs = "map (\<lambda>c. (c, cq_cells (queue_on w k c))) (R k)"
  have "\<forall>c\<in>set (R k). cq_cells (queue_on w k c) \<noteq> []"
    using circuits_ok_D(4) [OF assms(1), of _ k] by blast
  then have ne: "list_all (\<lambda>(c, q). q \<noteq> []) ?cs" by (simp add: list_all_iff)
  have ring: "sc_ring (abs_sched w R) k = ?cs @ []" and out0: "sc_out (abs_sched w R) k = outbuf_of w k"
    by (simp_all add: abs_sched_def)
  have out: "sc_out ((sched_flush k ^^ length ?cs) (abs_sched w R)) k =
      outbuf_of w k @ concat (map (\<lambda>(c, q). hd q) ?cs)"
    using sched_round [OF ne ring] unfolding out0 .
  have "outbuf_of w' k = sc_out (abs_sched w' R') k" by (simp add: abs_sched_def)
  also have "\<dots> = outbuf_of w k @ concat (map (\<lambda>c. hd (cq_cells (queue_on w k c))) (R k))"
    using out unfolding w'(3) by (simp add: comp_def)
  finally show ?thesis using w'(1,2) by blast
qed

text \<open>
  C27: the operations on the ring of active circuits.  On a well-linked ring of connection \<open>k\<close>, the
  consistency check returns and passes, making a circuit active or inactive adds it at the end or takes
  it out wherever it is (and does nothing when there is nothing to do), and unlinking all leaves an
  empty ring; no assertion fails and the loops around the ring end.
\<close>

theorem active_ring_operations:
  assumes "ring_on w k cs" and "linked w k c"
  shows "assert_active_circuits_ok k w = Some (OK ()) \<and>
    (\<exists>w'. make_circuit_active_on_conn c k w = OK w' \<and> ring_on w' k (if c \<in> set cs then cs else cs @ [c])) \<and>
    (\<exists>w'. make_circuit_inactive_on_conn c k w = OK w' \<and> ring_on w' k (remove1 c cs)) \<and>
    (\<exists>w'. connection_or_unlink_all_active_circs k w = Some (OK w') \<and> ring_on w' k [])"
proof (intro conjI)
  have empty: "ring_on (put_links k (\<lambda>_. None) (\<lambda>_. None) None w) k []"
    using ring_on_put [of "\<lambda>_. None" "\<lambda>_. None" "[]" w k] by simp
  show "assert_active_circuits_ok k w = Some (OK ())" using assms(1) by (rule assert_active_ok)
  show "\<exists>w'. make_circuit_active_on_conn c k w = OK w' \<and> ring_on w' k (if c \<in> set cs then cs else cs @ [c])"
    using make_active_ok [OF assms] by (elim exE) (rule exI)
  show "\<exists>w'. make_circuit_inactive_on_conn c k w = OK w' \<and> ring_on w' k (remove1 c cs)"
    using make_inactive_ok [OF assms] by (elim exE) (rule exI)
  show "\<exists>w'. connection_or_unlink_all_active_circs k w = Some (OK w') \<and> ring_on w' k []"
    by (rule exI, rule conjI [OF unlink_all_ok [OF assms(1)] empty])
qed

subsection \<open>A small router for the witnesses\<close>

text \<open>Every circuit writes outwards on connection 0; all queues and buffers are empty.\<close>

definition idle_circuit :: "unit circuit" where
  "idle_circuit = \<lparr>ci_origin = False, ci_cpath = [], ci_n_crypto = aes_new_cipher, ci_p_crypto = aes_new_cipher,
     ci_n_digest = (), ci_p_digest = (), ci_n_conn_cells = empty_queue, ci_n_conn = Some 0, ci_n_circ_id = 7,
     ci_streams_blocked_on_n_conn = False, ci_streams_blocked_on_p_conn = False, ci_state = 0, ci_purpose = 1,
     ci_package_window = 1000, ci_deliver_window = 1000, ci_payedReads = 0, ci_payedWrites = 0,
     ci_payedReadsAdded = 0, ci_payedWritesAdded = 0, ci_marked_for_close = False,
     ci_next_active_on_n_conn = None, ci_prev_active_on_n_conn = None, ci_p_streams = [],
     ci_remaining_relay_early_cells = 8, ci_relay_early_commands = [], ci_next_active_on_p_conn = None,
     ci_prev_active_on_p_conn = None, ci_p_circ_id = 0, ci_p_conn_cells = empty_queue, ci_p_conn = None,
     ci_n_streams = [], ci_resolving_streams = [], ci_rend_splice = None, ci_n_hop = None, ci_n_conn_onionskin = None,
     ci_keys_set = True, ci_handshake_digest = [], ci_is_first_hop = False, ci_onehop_tunnel = False\<rparr>"

definition idle_conn :: or_conn where
  "idle_conn = \<lparr>cn_open = True, cn_marked_for_close = False, cn_hold_open_until_flushed = False,
     cn_in_flushed_some = True, cn_read_event = True, cn_reading = True, cn_writing = False,
     cn_inbuf = buf_new, cn_outbuf = buf_new, cn_outbuf_flushlen = 0, oc_addr = AF_INET 0, oc_port = 0,
     oc_identity_digest = replicate 20 1, oc_circ_id_type = CIRC_ID_TYPE_LOWER, oc_next_circ_id = 1, oc_state = 8, oc_link_proto = 2, oc_client_used = 0,
     oc_timestamp_last_added_nonpadding = 0, oc_n_circuits = 0, oc_active_circuits = None\<rparr>"

definition idle_edge :: edge_conn where
  "idle_edge = \<lparr>cn_open = True, cn_marked_for_close = False, cn_hold_open_until_flushed = False,
     cn_in_flushed_some = False, cn_read_event = True, cn_reading = True, cn_writing = False,
     cn_inbuf = buf_new, cn_outbuf = buf_new, cn_outbuf_flushlen = 0, ec_type = CONN_TYPE_EXIT, ec_state = 3,
     ec_addr = AF_INET 0, ec_address_ttl = 0, ec_socks_request = None,
     ec_cpath_layer = None, ec_package_window = 500, ec_deliver_window = 500, ec_on_circuit = Some 1,
     ec_stream_id = 1, ec_end_reason = 0, ec_edge_has_sent_end = False, ec_edge_blocked_on_circ = False,
     ec_rendezvous = False\<rparr>"

definition idle_world :: "unit world" where
  "idle_world = \<lparr>w_circs = (\<lambda>_. idle_circuit), w_conns = (\<lambda>_. idle_conn), w_edges = (\<lambda>_. idle_edge),
     w_alloc = initial_alloc, w_now = 0, w_CloseUnpaid = True, w_total_cells_allocated = 0,
     w_relay_cells_relayed = 0, w_relay_cells_delivered = 0, w_data_cells_packaged = 0,
     w_data_bytes_packaged = 0, w_data_cells_received = 0, w_data_bytes_received = 0,
     w_circid_map = Map.empty, w_last_circid_ent = None,
     w_closeable = [], w_pending_or_conns = [], w_onion_queue = [], w_onion_length = 0, w_events = []\<rparr>"

lemma idle_world_ok: "circuits_ok idle_world (\<lambda>_. [])"
proof -
  have q: "queue_on idle_world k c = empty_queue" "\<not> blocked_on idle_world k c" for k c
    by (simp_all add: queue_on_def circ_queue_def blocked_on_def idle_world_def idle_circuit_def)
  have "nextf idle_world k = (\<lambda>_. None)" "prevf idle_world k = (\<lambda>_. None)" for k
    by (auto simp: nextf_def prevf_def idle_world_def idle_circuit_def)
  then have "ring_on idle_world k []" for k
    by (simp add: ring_on_def activef_def idle_world_def idle_conn_def)
  moreover have "or_conns_wf idle_world"
    by (simp add: or_conns_wf_def idle_world_def idle_conn_def buf_inv_new alloc_ok_initial)
  moreover have "two_sided idle_world" by (simp add: two_sided_def idle_world_def idle_circuit_def)
  ultimately show ?thesis
    by (simp add: circuits_ok_def q empty_queue_def queue_ok_def water_ok_def CELL_QUEUE_HIGHWATER_SIZE_def)
qed

lemma idle_world_queued: "n < 15872 \<Longrightarrow> write_is_queued 0 n idle_world"
  by (simp add: write_is_queued_def idle_world_def idle_conn_def buf_new_def buf_bytes_def int_max_def)

lemma idle_world_outbuf: "outbuf_of idle_world k = []"
  by (simp add: outbuf_of_def idle_world_def idle_conn_def buf_new_def buf_bytes_def)

text \<open>The same router with one cell waiting on circuit 1.\<close>

definition busy_world :: "unit world" where
  "busy_world = put_links 0 ((\<lambda>_. None)(1 \<mapsto> 1)) ((\<lambda>_. None)(1 \<mapsto> 1)) (Some 1)
     (upd_circ 1 (set_queue 0 \<lparr>cq_cells = [replicate 512 5], cq_n = 1\<rparr>) idle_world)"

lemma idle_world_linked: "linked idle_world k c \<longleftrightarrow> k = 0"
  by (simp add: linked_def idle_world_def idle_circuit_def)

lemma busy_world_view:
  "queue_on busy_world k c = (if k = 0 \<and> c = 1 then \<lparr>cq_cells = [replicate 512 5], cq_n = 1\<rparr> else empty_queue)"
  "\<not> blocked_on busy_world k c" "outbuf_of busy_world k = []"
  using idle_world_linked [of 0 1] idle_world_outbuf [of k]
  by (simp_all add: busy_world_def view_simps)
    (simp_all add: queue_on_def circ_queue_def blocked_on_def idle_world_def idle_circuit_def)

lemma busy_world_ok: "circuits_ok busy_world ((\<lambda>_. [])(0 := [1]))"
proof -
  let ?w = "upd_circ 1 (set_queue 0 \<lparr>cq_cells = [replicate 512 5], cq_n = 1\<rparr>) idle_world"
  have "ring_on busy_world 0 [1]"
    using ring_on_put [OF ring_single [of 1], of ?w 0] idle_world_linked [of 0 1]
    by (simp add: busy_world_def view_simps)
  moreover have "ring_on busy_world k []" if "k \<noteq> 0" for k
    using that circuits_ok_D(3) [OF idle_world_ok, of k]
    by (simp only: busy_world_def ring_on_put_other [OF that] view_simps)
  moreover have "or_conns_wf busy_world" "two_sided busy_world"
    using circuits_ok_D(1,2) [OF idle_world_ok] by (simp_all add: busy_world_def view_simps)
  ultimately show ?thesis
    by (auto simp: circuits_ok_def busy_world_view empty_queue_def queue_ok_def water_ok_def
        CELL_QUEUE_HIGHWATER_SIZE_def CELL_NETWORK_SIZE_def)
qed

lemma busy_world_queued:
  "n < 15872 \<Longrightarrow> write_is_queued 0 n busy_world" "cn_in_flushed_some (w_conns busy_world 0)"
  "\<not> cn_marked_for_close (w_conns busy_world 0)"
  using idle_world_queued [of n]
  by (simp_all add: write_is_queued_def busy_world_def idle_world_def idle_conn_def)

theorem append_cell_refines_scheduler_witness:
  "\<exists>w' R'. append_cell_to_circuit_queue (\<lambda>_ w. (w, False)) 1 0 example_cell CELL_DIRECTION_OUT idle_world = OK w' \<and>
    circuits_ok w' R' \<and> abs_sched w' R' =
      sched_append 0 1 (cell_pack (on_wire idle_world 0 example_cell)) (abs_sched idle_world (\<lambda>_. []))"
proof (rule append_cell_refines_scheduler [OF idle_world_ok])
  show "writes_on idle_world 1 0 CELL_DIRECTION_OUT"
    by (simp add: writes_on_def idle_world_def idle_circuit_def)
  show "length (ce_payload example_cell) = CELL_PAYLOAD_SIZE" by (simp add: example_cell_def cell_sizes)
  show "outbuf_of idle_world 0 = [] \<longrightarrow> write_is_queued 0 CELL_NETWORK_SIZE idle_world"
    using idle_world_queued by (simp add: cell_sizes)
qed

theorem flushed_some_refills_witness:
  "\<exists>w' R'. connection_or_flushed_some (\<lambda>_ w. (w, False)) 0 busy_world = Some (OK w') \<and> circuits_ok w' R' \<and>
     abs_sched w' R' = (sched_flush 0 ^^ 64) (abs_sched busy_world ((\<lambda>_. [])(0 := [1])))"
  using flushed_some_refills [OF busy_world_ok busy_world_queued(2), of "\<lambda>_ w. (w, False)"]
    busy_world_queued(3)
  by (simp add: busy_world_view OR_CONN_LOWWATER_def OR_CONN_HIGHWATER_def CELL_NETWORK_SIZE_def)

theorem flushed_some_round_robin_witness:
  "\<exists>w'. flushed_some_loop (\<lambda>_ w. (w, False)) 0 0 1 busy_world = Some (OK w') \<and>
     outbuf_of w' 0 = replicate 512 5"
  using flushed_some_round_robin [OF busy_world_ok _ busy_world_queued(2), of "\<lambda>_ w. (w, False)" 0]
    busy_world_queued(1) [of 512]
  by (auto simp: busy_world_view CELL_NETWORK_SIZE_def)

theorem active_ring_operations_witness:
  "\<exists>w'. make_circuit_active_on_conn 3 0 idle_world = OK w' \<and> ring_on w' 0 [3]"
proof -
  have "ring_on idle_world 0 []" using circuits_ok_D(3) [OF idle_world_ok] .
  moreover have "linked idle_world 0 3" by (simp add: linked_def idle_world_def idle_circuit_def)
  ultimately show ?thesis using active_ring_operations [of idle_world 0 "[]" 3] by simp
qed

end
