(* ===== verification/Smartlist.thy ===== *)
theory Smartlist
  imports CLib
begin

section \<open>Resizable arrays (container.c, container.h)\<close>

text \<open>
  \<^verbatim>\<open>smartlist_t\<close> and its operations.  \<open>sl_list\<close> holds the \<^verbatim>\<open>num_used\<close> elements in use, so that
  \<^verbatim>\<open>num_used\<close> is its length; the slots behind them, up to \<open>sl_capacity\<close>, hold nothing the code
  reads.  An element is a pointer (the functions that compare pointers), or what the pointer points
  to (the functions on strings and those with a comparison function).
\<close>

record 'a smartlist =
  sl_list :: "'a list"
  sl_capacity :: nat

definition SMARTLIST_DEFAULT_CAPACITY :: nat where "SMARTLIST_DEFAULT_CAPACITY = 16"

definition smartlist_len :: "'a smartlist \<Rightarrow> nat" where
  "smartlist_len sl = length (sl_list sl)"

definition smartlist_get :: "'a smartlist \<Rightarrow> nat \<Rightarrow> 'a res" where
  "smartlist_get sl idx = (if idx < smartlist_len sl then OK (sl_list sl ! idx) else Fault Mem_Fault)"

definition smartlist_set :: "'a smartlist \<Rightarrow> nat \<Rightarrow> 'a \<Rightarrow> 'a smartlist res" where
  "smartlist_set sl idx val =
     (if idx < smartlist_len sl then OK (sl\<lparr>sl_list := (sl_list sl)[idx := val]\<rparr>) else Fault Mem_Fault)"

definition smartlist_swap :: "'a smartlist \<Rightarrow> nat \<Rightarrow> nat \<Rightarrow> 'a smartlist res" where
  "smartlist_swap sl idx1 idx2 =
     (if idx1 \<noteq> idx2 then
        rbind (smartlist_get sl idx1) (\<lambda>elt.
        rbind (smartlist_get sl idx2) (\<lambda>elt2.
        rbind (smartlist_set sl idx1 elt2) (\<lambda>sl1. smartlist_set sl1 idx2 elt)))
      else OK sl)"

subsection \<open>Growing and shrinking\<close>

definition smartlist_create :: "'a smartlist" where
  "smartlist_create = \<lparr>sl_list = [], sl_capacity = SMARTLIST_DEFAULT_CAPACITY\<rparr>"

definition smartlist_clear :: "'a smartlist \<Rightarrow> 'a smartlist" where
  "smartlist_clear sl = sl\<lparr>sl_list := []\<rparr>"

text \<open>The doubling of \<^verbatim>\<open>higher\<close>, an \<^verbatim>\<open>int\<close>: it never ends on a list of capacity 0.\<close>

function grow_capacity :: "nat \<Rightarrow> nat \<Rightarrow> nat res" where
  "grow_capacity n_slots higher =
     (if n_slots \<le> higher then OK higher
      else if higher = 0 then Fault Diverge
      else if 2 * higher > int_max then Fault Int_Overflow
      else grow_capacity n_slots (2 * higher))"
  by auto
termination by (relation "measure (\<lambda>(n_slots, higher). n_slots - higher)") auto

declare grow_capacity.simps [simp del]

definition smartlist_ensure_capacity :: "'a smartlist \<Rightarrow> nat \<Rightarrow> 'a smartlist res" where
  "smartlist_ensure_capacity sl n_slots =
     (if n_slots > sl_capacity sl then
        if 2 * sl_capacity sl > int_max then Fault Int_Overflow
        else rbind (grow_capacity n_slots (2 * sl_capacity sl)) (\<lambda>higher.
          tor_assert (higher > 0) (OK (sl\<lparr>sl_capacity := higher\<rparr>)))
      else OK sl)"

definition smartlist_add :: "'a smartlist \<Rightarrow> 'a \<Rightarrow> 'a smartlist res" where
  "smartlist_add sl element =
     rbind (smartlist_ensure_capacity sl (smartlist_len sl + 1)) (\<lambda>sl1.
       if smartlist_len sl1 < sl_capacity sl1 then OK (sl1\<lparr>sl_list := sl_list sl1 @ [element]\<rparr>)
       else Fault Mem_Fault)"

definition smartlist_add_all :: "'a smartlist \<Rightarrow> 'a smartlist \<Rightarrow> 'a smartlist res" where
  "smartlist_add_all s1 s2 =
     (let new_size = smartlist_len s1 + smartlist_len s2 in
      if new_size > int_max then Fault Int_Overflow
      else tor_assert (new_size \<ge> smartlist_len s1)
       (rbind (smartlist_ensure_capacity s1 new_size) (\<lambda>s1'.
          if new_size \<le> sl_capacity s1' then OK (s1'\<lparr>sl_list := sl_list s1' @ sl_list s2\<rparr>)
          else Fault Mem_Fault)))"

definition smartlist_pop_last :: "'a ptr smartlist \<Rightarrow> 'a ptr \<times> 'a ptr smartlist" where
  "smartlist_pop_last sl =
     (if smartlist_len sl \<noteq> 0 then (last (sl_list sl), sl\<lparr>sl_list := butlast (sl_list sl)\<rparr>)
      else (None, sl))"

text \<open>\<^verbatim>\<open>sl->list[i] = sl->list[--sl->num_used]\<close>: the element at \<open>i\<close> replaced by the last one.\<close>

definition swap_out :: "nat \<Rightarrow> 'a list \<Rightarrow> 'a list" where
  "swap_out i xs = butlast (xs[i := last xs])"

definition smartlist_del :: "'a smartlist \<Rightarrow> int \<Rightarrow> 'a smartlist res" where
  "smartlist_del sl idx =
     tor_assert (idx \<ge> 0) (tor_assert (idx < int (smartlist_len sl))
       (OK (sl\<lparr>sl_list := swap_out (nat idx) (sl_list sl)\<rparr>)))"

definition del_keeporder :: "nat \<Rightarrow> 'a list \<Rightarrow> 'a list" where
  "del_keeporder i xs = take i xs @ drop (Suc i) xs"

definition smartlist_del_keeporder :: "'a smartlist \<Rightarrow> int \<Rightarrow> 'a smartlist res" where
  "smartlist_del_keeporder sl idx =
     tor_assert (idx \<ge> 0) (tor_assert (idx < int (smartlist_len sl))
       (OK (sl\<lparr>sl_list := del_keeporder (nat idx) (sl_list sl)\<rparr>)))"

definition smartlist_insert :: "'a smartlist \<Rightarrow> int \<Rightarrow> 'a \<Rightarrow> 'a smartlist res" where
  "smartlist_insert sl idx val =
     tor_assert (idx \<ge> 0) (tor_assert (idx \<le> int (smartlist_len sl))
       (if idx = int (smartlist_len sl) then smartlist_add sl val
        else rbind (smartlist_ensure_capacity sl (smartlist_len sl + 1)) (\<lambda>sl1.
          if smartlist_len sl1 < sl_capacity sl1
          then OK (sl1\<lparr>sl_list := take (nat idx) (sl_list sl1) @ val # drop (nat idx) (sl_list sl1)\<rparr>)
          else Fault Mem_Fault)))"

subsection \<open>Searching and removing elements\<close>

text \<open>The loop of \<^verbatim>\<open>smartlist_remove\<close>, \<^verbatim>\<open>smartlist_string_remove\<close> and \<^verbatim>\<open>smartlist_intersect\<close>.\<close>

function remove_loop :: "('a \<Rightarrow> bool) \<Rightarrow> nat \<Rightarrow> 'a list \<Rightarrow> 'a list" where
  "remove_loop P i xs =
     (if i < length xs then
        if P (xs ! i) then remove_loop P i (swap_out i xs) else remove_loop P (Suc i) xs
      else xs)"
  by auto
termination by (relation "measure (\<lambda>(P, i, xs). length xs - i)") (auto simp: swap_out_def)

declare remove_loop.simps [simp del]

definition smartlist_remove :: "'a ptr smartlist \<Rightarrow> 'a ptr \<Rightarrow> 'a ptr smartlist" where
  "smartlist_remove sl element =
     (if element = None then sl
      else sl\<lparr>sl_list := remove_loop (\<lambda>x. x = element) 0 (sl_list sl)\<rparr>)"

definition smartlist_string_remove :: "byte list smartlist \<Rightarrow> byte list \<Rightarrow> byte list smartlist" where
  "smartlist_string_remove sl element =
     sl\<lparr>sl_list := remove_loop (\<lambda>x. strcmp element x = 0) 0 (sl_list sl)\<rparr>"

function reverse_loop :: "nat \<Rightarrow> nat \<Rightarrow> 'a list \<Rightarrow> 'a list" where
  "reverse_loop i j xs = (if i < j then reverse_loop (i + 1) (j - 1) (swap_at xs i j) else xs)"
  by auto
termination by (relation "measure (\<lambda>(i, j, xs). j - i)") auto

declare reverse_loop.simps [simp del]

text \<open>\<^verbatim>\<open>j\<close> starts at -1 on an empty list; the loop is then not entered, as with 0.\<close>

definition smartlist_reverse :: "'a smartlist \<Rightarrow> 'a smartlist" where
  "smartlist_reverse sl = sl\<lparr>sl_list := reverse_loop 0 (smartlist_len sl - 1) (sl_list sl)\<rparr>"

fun isin_loop :: "('a \<Rightarrow> bool) \<Rightarrow> 'a list \<Rightarrow> bool" where
  "isin_loop P [] = False"
| "isin_loop P (x # xs) = (if P x then True else isin_loop P xs)"

definition smartlist_isin :: "'a smartlist \<Rightarrow> 'a \<Rightarrow> bool" where
  "smartlist_isin sl element = isin_loop (\<lambda>x. x = element) (sl_list sl)"

definition smartlist_string_isin :: "byte list smartlist ptr \<Rightarrow> byte list \<Rightarrow> bool" where
  "smartlist_string_isin slp element = (case slp of
     None \<Rightarrow> False | Some sl \<Rightarrow> isin_loop (\<lambda>x. strcmp x element = 0) (sl_list sl))"

fun pos_loop :: "('a \<Rightarrow> bool) \<Rightarrow> int \<Rightarrow> 'a list \<Rightarrow> int" where
  "pos_loop P i [] = -1"
| "pos_loop P i (x # xs) = (if P x then i else pos_loop P (i + 1) xs)"

definition smartlist_string_pos :: "byte list smartlist ptr \<Rightarrow> byte list \<Rightarrow> int" where
  "smartlist_string_pos slp element = (case slp of
     None \<Rightarrow> -1 | Some sl \<Rightarrow> pos_loop (\<lambda>x. strcmp x element = 0) 0 (sl_list sl))"

definition smartlist_string_isin_case :: "byte list smartlist ptr \<Rightarrow> byte list \<Rightarrow> bool" where
  "smartlist_string_isin_case slp element = (case slp of
     None \<Rightarrow> False | Some sl \<Rightarrow> isin_loop (\<lambda>x. strcasecmp x element = 0) (sl_list sl))"

definition smartlist_string_num_isin :: "byte list smartlist ptr \<Rightarrow> int \<Rightarrow> bool" where
  "smartlist_string_num_isin slp num = smartlist_string_isin slp (dec_string num)"

text \<open>The elements are blocks of at least 20 bytes.\<close>

definition DIGEST_LEN :: nat where "DIGEST_LEN = 20"

definition smartlist_digest_isin :: "byte list smartlist ptr \<Rightarrow> byte list \<Rightarrow> bool" where
  "smartlist_digest_isin slp element = (case slp of
     None \<Rightarrow> False | Some sl \<Rightarrow> isin_loop (\<lambda>x. memcmp x element DIGEST_LEN = 0) (sl_list sl))"

definition smartlist_overlap :: "'a smartlist \<Rightarrow> 'a smartlist \<Rightarrow> bool" where
  "smartlist_overlap sl1 sl2 = isin_loop (smartlist_isin sl1) (sl_list sl2)"

definition smartlist_intersect :: "'a smartlist \<Rightarrow> 'a smartlist \<Rightarrow> 'a smartlist" where
  "smartlist_intersect sl1 sl2 =
     sl1\<lparr>sl_list := remove_loop (\<lambda>x. \<not> smartlist_isin sl2 x) 0 (sl_list sl1)\<rparr>"

definition smartlist_subtract :: "'a ptr smartlist \<Rightarrow> 'a ptr smartlist \<Rightarrow> 'a ptr smartlist" where
  "smartlist_subtract sl1 sl2 = foldl smartlist_remove sl1 (sl_list sl2)"

subsection \<open>Sorted lists\<close>

text \<open>\<^verbatim>\<open>qsort\<close> does not say how it orders elements that compare equal: it is an argument.\<close>

definition smartlist_sort ::
  "(('a \<Rightarrow> 'a \<Rightarrow> int) \<Rightarrow> 'a list \<Rightarrow> 'a list) \<Rightarrow> 'a smartlist \<Rightarrow> ('a \<Rightarrow> 'a \<Rightarrow> int) \<Rightarrow> 'a smartlist" where
  "smartlist_sort qsort sl compare =
     (if smartlist_len sl = 0 then sl else sl\<lparr>sl_list := qsort compare (sl_list sl)\<rparr>)"

function uniq_loop :: "('a \<Rightarrow> 'a \<Rightarrow> int) \<Rightarrow> nat \<Rightarrow> 'a list \<Rightarrow> 'a list" where
  "uniq_loop compare i xs =
     (if i < length xs then
        if compare (xs ! (i - 1)) (xs ! i) = 0 then uniq_loop compare i (del_keeporder i xs)
        else uniq_loop compare (i + 1) xs
      else xs)"
  by auto
termination by (relation "measure (\<lambda>(c, i, xs). length xs - i)") (auto simp: del_keeporder_def)

declare uniq_loop.simps [simp del]

definition smartlist_uniq :: "'a smartlist \<Rightarrow> ('a \<Rightarrow> 'a \<Rightarrow> int) \<Rightarrow> 'a smartlist" where
  "smartlist_uniq sl compare = sl\<lparr>sl_list := uniq_loop compare 1 (sl_list sl)\<rparr>"

text \<open>\<open>Inl\<close> is the return from inside the loop.\<close>

function bsearch_loop :: "('a \<Rightarrow> int) \<Rightarrow> 'a list \<Rightarrow> int \<Rightarrow> int \<Rightarrow> int + int" where
  "bsearch_loop compare xs lo hi =
     (if lo \<le> hi then
        let mid = (lo + hi) div 2; cmp = compare (xs ! nat mid) in
        if cmp > 0 then bsearch_loop compare xs (mid + 1) hi
        else if cmp < 0 then bsearch_loop compare xs lo (mid - 1)
        else Inl mid
      else Inr lo)"
  by auto
termination by (relation "measure (\<lambda>(c, xs, lo, hi). nat (hi + 1 - lo))") auto

declare bsearch_loop.simps [simp del]

definition smartlist_bsearch_idx ::
  "'a smartlist \<Rightarrow> 'k \<Rightarrow> ('k \<Rightarrow> 'a \<Rightarrow> int) \<Rightarrow> (int \<times> bool) res" where
  "smartlist_bsearch_idx sl key compare =
     (let len = int (smartlist_len sl); xs = sl_list sl in
      case bsearch_loop (compare key) xs 0 (len - 1) of
        Inl mid \<Rightarrow> OK (mid, True)
      | Inr lo \<Rightarrow>
          tor_assert (lo \<ge> 0)
           (if lo < len then tor_assert (compare key (xs ! nat lo) < 0) (OK (lo, False))
            else if len \<noteq> 0 then tor_assert (compare key (xs ! nat (len - 1)) > 0) (OK (lo, False))
            else OK (lo, False)))"

definition smartlist_bsearch ::
  "'a ptr smartlist \<Rightarrow> 'k \<Rightarrow> ('k \<Rightarrow> 'a ptr \<Rightarrow> int) \<Rightarrow> 'a ptr res" where
  "smartlist_bsearch sl key compare =
     rbind (smartlist_bsearch_idx sl key compare) (\<lambda>(idx, found).
       if found then smartlist_get sl (nat idx) else OK None)"

text \<open>The comparison functions of the lists of strings and of digests.\<close>

definition smartlist_sort_strings ::
  "((byte list \<Rightarrow> byte list \<Rightarrow> int) \<Rightarrow> byte list list \<Rightarrow> byte list list) \<Rightarrow> byte list smartlist \<Rightarrow> byte list smartlist" where
  "smartlist_sort_strings qsort sl = smartlist_sort qsort sl strcmp"

definition smartlist_uniq_strings :: "byte list smartlist \<Rightarrow> byte list smartlist" where
  "smartlist_uniq_strings sl = smartlist_uniq sl strcmp"

definition compare_digests :: "byte list \<Rightarrow> byte list \<Rightarrow> int" where
  "compare_digests a b = memcmp a b DIGEST_LEN"

definition smartlist_sort_digests ::
  "((byte list \<Rightarrow> byte list \<Rightarrow> int) \<Rightarrow> byte list list \<Rightarrow> byte list list) \<Rightarrow> byte list smartlist \<Rightarrow> byte list smartlist" where
  "smartlist_sort_digests qsort sl = smartlist_sort qsort sl compare_digests"

definition smartlist_uniq_digests :: "byte list smartlist \<Rightarrow> byte list smartlist" where
  "smartlist_uniq_digests sl = smartlist_uniq sl compare_digests"

subsection \<open>The invariant and the operations on lists\<close>

text \<open>The capacity is sixteen doubled a number of times, at most \<open>2\<^sup>3\<^sup>0\<close>.\<close>

definition sl_ok :: "'a smartlist \<Rightarrow> bool" where
  "sl_ok sl \<longleftrightarrow> (\<exists>k\<in>{..26}. sl_capacity sl = 16 * 2 ^ k) \<and> smartlist_len sl \<le> sl_capacity sl"

lemma grow_capacity_ok:
  assumes "n_slots \<le> 2 ^ 30" and "k \<le> 26"
  shows "\<exists>m\<le>26. grow_capacity n_slots (16 * 2 ^ k) = OK (16 * 2 ^ m) \<and> n_slots \<le> 16 * 2 ^ m"
  using assms(2)
proof (induction "26 - k" arbitrary: k)
  case 0
  then have "k = 26" by simp
  with assms(1) show ?case by (intro exI [of _ 26]) (simp add: grow_capacity.simps)
next
  case (Suc d)
  then have k: "k \<le> 25" by simp
  have "(2::nat) ^ k \<le> 2 ^ 25" using k by (intro power_increasing) auto
  then have m: "2 * (16 * (2::nat) ^ k) \<le> int_max" by (simp add: int_max_def)
  from Suc.hyps(1) [of "Suc k"] Suc.hyps(2) k
  have IH: "\<exists>m\<le>26. grow_capacity n_slots (16 * 2 ^ Suc k) = OK (16 * 2 ^ m) \<and> n_slots \<le> 16 * 2 ^ m"
    by simp
  have "2 * (16 * (2::nat) ^ k) = 16 * 2 ^ Suc k" by simp
  then have "grow_capacity n_slots (16 * 2 ^ k) =
      (if n_slots \<le> 16 * 2 ^ k then OK (16 * 2 ^ k) else grow_capacity n_slots (16 * 2 ^ Suc k))"
    using m by (subst grow_capacity.simps) simp
  with IH Suc.prems show ?case by auto
qed

lemma smartlist_ensure_capacity_ok:
  assumes "sl_ok sl" and "n_slots \<le> 2 ^ 30"
  shows "\<exists>c. smartlist_ensure_capacity sl n_slots = OK (sl\<lparr>sl_capacity := c\<rparr>) \<and>
    sl_ok (sl\<lparr>sl_capacity := c\<rparr>) \<and> n_slots \<le> c"
proof (cases "n_slots > sl_capacity sl")
  case False
  with assms show ?thesis
    by (intro exI [of _ "sl_capacity sl"]) (simp add: smartlist_ensure_capacity_def)
next
  case True
  obtain k where k: "k \<le> 26" "sl_capacity sl = 16 * 2 ^ k" using assms(1) by (auto simp: sl_ok_def)
  with True assms(2) have "(16::nat) * 2 ^ k < 16 * 2 ^ 26" by (simp del: mult_less_cancel1)
  then have "(2::nat) ^ k < 2 ^ 26" by (simp only: mult_less_cancel1)
  then have k25: "Suc k \<le> 26" by (simp only: power_strict_increasing_iff Suc_le_eq)
  then have "(2::nat) ^ Suc k \<le> 2 ^ 26" by (intro power_increasing) auto
  then have m: "2 * sl_capacity sl \<le> int_max" using k by (simp add: int_max_def)
  from grow_capacity_ok [OF assms(2) k25] k obtain m where
    "m \<le> 26" "grow_capacity n_slots (2 * sl_capacity sl) = OK (16 * 2 ^ m)" "n_slots \<le> 16 * 2 ^ m"
    by auto
  with True m assms(1) show ?thesis
    by (intro exI [of _ "16 * 2 ^ m"])
      (auto simp: smartlist_ensure_capacity_def sl_ok_def smartlist_len_def)
qed

lemma smartlist_add_ok:
  assumes "sl_ok sl" and "smartlist_len sl < 2 ^ 30"
  shows "\<exists>sl'. smartlist_add sl x = OK sl' \<and> sl_ok sl' \<and> sl_list sl' = sl_list sl @ [x]"
proof -
  from smartlist_ensure_capacity_ok [OF assms(1), of "smartlist_len sl + 1"] assms(2)
  show ?thesis by (auto simp: smartlist_add_def sl_ok_def smartlist_len_def)
qed

lemma smartlist_add_all_ok:
  assumes "sl_ok sl" and "smartlist_len sl + smartlist_len s2 \<le> 2 ^ 30"
  shows "\<exists>sl'. smartlist_add_all sl s2 = OK sl' \<and> sl_ok sl' \<and> sl_list sl' = sl_list sl @ sl_list s2"
proof -
  from smartlist_ensure_capacity_ok [OF assms] assms(2)
  show ?thesis by (auto simp: smartlist_add_all_def sl_ok_def smartlist_len_def int_max_def)
qed

lemma smartlist_insert_ok:
  assumes "sl_ok sl" and "smartlist_len sl < 2 ^ 30" and "idx \<le> smartlist_len sl"
  shows "\<exists>sl'. smartlist_insert sl (int idx) x = OK sl' \<and> sl_ok sl' \<and>
    sl_list sl' = take idx (sl_list sl) @ x # drop idx (sl_list sl)"
proof (cases "idx = smartlist_len sl")
  case True
  with smartlist_add_ok [OF assms(1,2), of x] show ?thesis
    by (auto simp: smartlist_insert_def smartlist_len_def)
next
  case False
  with smartlist_ensure_capacity_ok [OF assms(1), of "smartlist_len sl + 1"] assms(2,3)
  show ?thesis by (auto simp: smartlist_insert_def sl_ok_def smartlist_len_def)
qed

lemma smartlist_insert_full:
  assumes "sl_ok sl" and "smartlist_len sl = 2 ^ 30"
  shows "smartlist_add sl x = Fault Int_Overflow"
proof -
  obtain k where k: "k \<le> 26" "sl_capacity sl = 16 * 2 ^ k" "2 ^ 30 \<le> sl_capacity sl"
    using assms by (auto simp: sl_ok_def)
  then have "(16::nat) * 2 ^ 26 \<le> 16 * 2 ^ k" by (simp del: mult_le_cancel1)
  then have "(2::nat) ^ 26 \<le> 2 ^ k" by (simp only: mult_le_cancel1)
  then have "26 \<le> k" by (simp only: power_increasing_iff)
  with k(1) have "k = 26" by simp
  with k assms(2) show ?thesis
    by (simp add: smartlist_add_def smartlist_ensure_capacity_def int_max_def)
qed

subsection \<open>Deleting\<close>

lemma length_swap_out [simp]: "length (swap_out i xs) = length xs - 1"
  by (simp add: swap_out_def)

lemma swap_out_split: "i < length xs \<Longrightarrow> swap_out i xs = take i xs @ swap_out 0 (drop i xs)"
proof -
  assume i: "i < length xs"
  then have "xs[i := last xs] = take i xs @ (drop i xs)[0 := last (drop i xs)]"
    by (simp add: list_update_append [of "take i xs" "drop i xs", simplified] last_drop)
  with i show ?thesis by (simp add: swap_out_def butlast_append)
qed

lemma mset_swap_out: "i < length xs \<Longrightarrow> add_mset (xs ! i) (mset (swap_out i xs)) = mset xs"
  unfolding swap_out_def by (rule butlast_upd_last)

lemma take_swap_out [simp]: "i < length xs \<Longrightarrow> take i (swap_out i xs) = take i xs"
  by (subst swap_out_split) auto

lemma mset_drop_swap_out:
  assumes "i < length xs"
  shows "mset (drop i xs) = add_mset (xs ! i) (mset (drop i (swap_out i xs)))"
proof -
  have "drop i (swap_out i xs) = swap_out 0 (drop i xs)"
    using assms by (subst swap_out_split) auto
  with mset_swap_out [of 0 "drop i xs"] assms show ?thesis by simp
qed

lemma mset_del_keeporder:
  "i < length xs \<Longrightarrow> add_mset (xs ! i) (mset (del_keeporder i xs)) = mset xs"
  unfolding del_keeporder_def by (rule mset_remove_nth)

lemma remove_loop_mset:
  "mset (remove_loop P i xs) = mset (take i xs) + filter_mset (\<lambda>x. \<not> P x) (mset (drop i xs))"
proof (induction P i xs rule: remove_loop.induct)
  case (1 P i xs)
  show ?case
  proof (cases "i < length xs")
    case True
    then have "take (Suc i) xs = take i xs @ [xs ! i]" "drop i xs = xs ! i # drop (Suc i) xs"
      by (simp_all add: take_Suc_conv_app_nth Cons_nth_drop_Suc)
    with True 1 mset_drop_swap_out [OF True] show ?thesis
      by (cases "P (xs ! i)") (simp_all add: remove_loop.simps [of P i xs])
  qed (simp add: remove_loop.simps)
qed

lemma remove_loop_prefix:
  "i \<le> length xs \<Longrightarrow> \<exists>zs. remove_loop P i xs = take i xs @ takeWhile (\<lambda>x. \<not> P x) (drop i xs) @ zs"
proof (induction P i xs rule: remove_loop.induct)
  case (1 P i xs)
  show ?case
  proof (cases "i < length xs")
    case True
    then have d: "take (Suc i) xs = take i xs @ [xs ! i]" "drop i xs = xs ! i # drop (Suc i) xs"
      by (simp_all add: take_Suc_conv_app_nth Cons_nth_drop_Suc)
    show ?thesis
    proof (cases "P (xs ! i)")
      case p: True
      have "i \<le> length (swap_out i xs)" using True by simp
      with 1(1) [OF True p] True p d(2) show ?thesis
        by (auto simp: remove_loop.simps [of P i xs])
    next
      case False
      from 1(2) [OF True False] True False d show ?thesis
        by (auto simp: remove_loop.simps [of P i xs])
    qed
  qed (simp add: remove_loop.simps)
qed

lemma remove_loop_0:
  "mset (remove_loop P 0 xs) = filter_mset (\<lambda>x. \<not> P x) (mset xs)"
  "\<exists>zs. remove_loop P 0 xs = takeWhile (\<lambda>x. \<not> P x) xs @ zs"
  using remove_loop_mset [of P 0 xs] remove_loop_prefix [of 0 xs P] by simp_all

lemma isin_loop_iff [simp]: "isin_loop P xs \<longleftrightarrow> (\<exists>x\<in>set xs. P x)"
  by (induction xs) auto

lemma pos_loop_correct:
  "pos_loop P i xs = (if \<exists>x\<in>set xs. P x then i + int (length (takeWhile (\<lambda>x. \<not> P x) xs)) else -1)"
  by (induction xs arbitrary: i) auto

lemma smartlist_isin_iff [simp]: "smartlist_isin sl x \<longleftrightarrow> x \<in> set (sl_list sl)"
  by (simp add: smartlist_isin_def)

lemma smartlist_remove_mset:
  "element \<noteq> None \<Longrightarrow>
   mset (sl_list (smartlist_remove sl element)) = filter_mset (\<lambda>x. x \<noteq> element) (mset (sl_list sl))"
  by (simp add: smartlist_remove_def remove_loop_0 del: not_None_eq)

lemma smartlist_subtract_mset:
  assumes "None \<notin> set (sl_list sl2)"
  shows "mset (sl_list (smartlist_subtract sl1 sl2)) =
    filter_mset (\<lambda>x. x \<notin> set (sl_list sl2)) (mset (sl_list sl1))"
proof -
  have "mset (sl_list (foldl smartlist_remove sl ys)) =
      filter_mset (\<lambda>x. x \<notin> set ys) (mset (sl_list sl))"
    if "None \<notin> set ys" for sl and ys :: "'a ptr list"
    using that
  proof (induction ys arbitrary: sl)
    case (Cons y ys)
    have "filter_mset (\<lambda>x. x \<notin> set ys) (filter_mset (\<lambda>x. x \<noteq> y) (mset (sl_list sl))) =
        filter_mset (\<lambda>x. x \<notin> set (y # ys)) (mset (sl_list sl))"
      by (simp only: filter_filter_mset) (rule filter_mset_cong, auto)
    moreover from Cons.prems have "y \<noteq> None" "None \<notin> set ys" by (cases y; auto)+
    ultimately show ?case using Cons.IH smartlist_remove_mset [of y sl] by simp
  qed simp
  with assms show ?thesis by (simp add: smartlist_subtract_def)
qed

lemma reverse_loop_nth:
  "j < length xs \<Longrightarrow> k < length xs \<Longrightarrow>
   length (reverse_loop i j xs) = length xs \<and>
   reverse_loop i j xs ! k = (if i \<le> k \<and> k \<le> j then xs ! (i + j - k) else xs ! k)"
proof (induction i j xs rule: reverse_loop.induct)
  case (1 i j xs)
  show ?case
  proof (cases "i < j")
    case True
    with 1 show ?thesis by (auto simp: reverse_loop.simps [of i j xs] nth_swap_at)
  next
    case False
    with 1 show ?thesis by (auto simp: reverse_loop.simps [of i j xs] intro: arg_cong [of _ _ "(!) xs"])
  qed
qed

lemma smartlist_reverse_rev: "sl_list (smartlist_reverse sl) = rev (sl_list sl)"
proof (cases "sl_list sl = []")
  case False
  then have "length (sl_list sl) - 1 < length (sl_list sl)" by simp
  note n = reverse_loop_nth [OF this, of _ 0]
  have "length (reverse_loop 0 (length (sl_list sl) - 1) (sl_list sl)) = length (sl_list sl)"
    using n [of 0] False by simp
  moreover have "reverse_loop 0 (length (sl_list sl) - 1) (sl_list sl) ! k = rev (sl_list sl) ! k"
    if "k < length (sl_list sl)" for k
  proof -
    have "k \<le> length (sl_list sl) - 1" "length (sl_list sl) - 1 - k = length (sl_list sl) - Suc k"
      using that by auto
    with n [OF that] that show ?thesis by (simp only: rev_nth) simp
  qed
  ultimately have "reverse_loop 0 (length (sl_list sl) - 1) (sl_list sl) = rev (sl_list sl)"
    by (intro nth_equalityI) auto
  then show ?thesis by (simp add: smartlist_reverse_def smartlist_len_def)
qed (simp add: smartlist_reverse_def smartlist_len_def reverse_loop.simps)

subsection \<open>Sorted lists\<close>

text \<open>The comparison of a key with the members goes from positive through zero to negative.\<close>

definition key_sorted :: "('a \<Rightarrow> int) \<Rightarrow> 'a list \<Rightarrow> bool" where
  "key_sorted cmp xs \<longleftrightarrow> sorted_wrt (\<lambda>a b. (cmp b > 0 \<longrightarrow> cmp a > 0) \<and> (cmp a < 0 \<longrightarrow> cmp b < 0)) xs"

lemma key_sorted_nth:
  "key_sorted cmp xs \<Longrightarrow> i \<le> j \<Longrightarrow> j < length xs \<Longrightarrow>
     (cmp (xs ! j) > 0 \<longrightarrow> cmp (xs ! i) > 0) \<and> (cmp (xs ! i) < 0 \<longrightarrow> cmp (xs ! j) < 0)"
  unfolding key_sorted_def sorted_wrt_iff_nth_less by (metis le_neq_implies_less)

definition bsearch_result :: "('a \<Rightarrow> int) \<Rightarrow> 'a list \<Rightarrow> int + int \<Rightarrow> bool" where
  "bsearch_result cmp xs r = (case r of
     Inl i \<Rightarrow> 0 \<le> i \<and> i < int (length xs) \<and> cmp (xs ! nat i) = 0
   | Inr i \<Rightarrow> 0 \<le> i \<and> i \<le> int (length xs) \<and> list_all (\<lambda>x. cmp x > 0) (take (nat i) xs) \<and>
       list_all (\<lambda>x. cmp x < 0) (drop (nat i) xs))"

lemma bsearch_loop_correct:
  assumes "key_sorted cmp xs" and "0 \<le> lo" and "hi < int (length xs)" and "lo \<le> hi + 1"
    and "\<And>a. a < nat lo \<Longrightarrow> cmp (xs ! a) > 0"
    and "\<And>b. nat (hi + 1) \<le> b \<Longrightarrow> b < length xs \<Longrightarrow> cmp (xs ! b) < 0"
  shows "bsearch_result cmp xs (bsearch_loop cmp xs lo hi)"
  using assms
proof (induction cmp xs lo hi rule: bsearch_loop.induct)
  case (1 cmp xs lo hi)
  show ?case
  proof (cases "lo \<le> hi")
    case False
    with 1 have "hi = lo - 1" by simp
    moreover have "bsearch_loop cmp xs lo hi = Inr lo" using False by (simp add: bsearch_loop.simps)
    ultimately show ?thesis using 1(4-8) by (auto simp: bsearch_result_def list_all_length)
  next
    case True
    define mid where "mid = (lo + hi) div 2"
    have mid: "lo \<le> mid" "mid \<le> hi" using True by (auto simp: mid_def)
    with 1(4,5) have nm: "nat mid < length xs" by simp
    consider "cmp (xs ! nat mid) > 0" | "cmp (xs ! nat mid) < 0" | "cmp (xs ! nat mid) = 0"
      by linarith
    then show ?thesis
    proof cases
      case 1
      have "cmp (xs ! a) > 0" if "a < nat (mid + 1)" for a
        using key_sorted_nth [OF \<open>key_sorted cmp xs\<close>, of a "nat mid"] nm 1 that by auto
      with "1.IH"(1) [OF True mid_def _ 1] "1.prems" mid 1 True show ?thesis
        by (simp add: bsearch_loop.simps [of cmp xs lo hi] Let_def flip: mid_def)
    next
      case 2
      have "cmp (xs ! b) < 0" if "nat mid \<le> b" "b < length xs" for b
        using key_sorted_nth [OF \<open>key_sorted cmp xs\<close>, of "nat mid" b] 2 that by auto
      with "1.IH"(2) [OF True mid_def _ _ 2] "1.prems" mid 2 True show ?thesis
        using less_not_sym [OF 2] by (simp add: bsearch_loop.simps [of cmp xs lo hi] Let_def flip: mid_def)
    next
      case 3
      with True mid "1.prems" show ?thesis
        by (simp add: bsearch_loop.simps [of cmp xs lo hi] Let_def bsearch_result_def flip: mid_def)
    qed
  qed
qed

text \<open>What \<^verbatim>\<open>smartlist_uniq\<close> keeps after the element \<open>a\<close>: the first of every run of equals.\<close>

fun drop_equal :: "('a \<Rightarrow> 'a \<Rightarrow> int) \<Rightarrow> 'a \<Rightarrow> 'a list \<Rightarrow> 'a list" where
  "drop_equal cmp a [] = []"
| "drop_equal cmp a (x # xs) = (if cmp a x = 0 then drop_equal cmp a xs else x # drop_equal cmp x xs)"

lemma uniq_loop_eq:
  "0 < i \<Longrightarrow> i \<le> length xs \<Longrightarrow>
   uniq_loop cmp i xs = take i xs @ drop_equal cmp (xs ! (i - 1)) (drop i xs)"
proof (induction cmp i xs rule: uniq_loop.induct)
  case (1 cmp i xs)
  show ?case
  proof (cases "i < length xs")
    case True
    then have d: "drop i xs = xs ! i # drop (Suc i) xs" "take (Suc i) xs = take i xs @ [xs ! i]"
      by (simp_all add: Cons_nth_drop_Suc take_Suc_conv_app_nth)
    show ?thesis
    proof (cases "cmp (xs ! (i - 1)) (xs ! i) = 0")
      case c: True
      have "i \<le> length (del_keeporder i xs)" "take i (del_keeporder i xs) = take i xs"
        "drop i (del_keeporder i xs) = drop (Suc i) xs" "del_keeporder i xs ! (i - 1) = xs ! (i - 1)"
        using True 1(3) by (auto simp: del_keeporder_def nth_append)
      with 1(1) [OF True c] 1(3) True c d show ?thesis by (simp add: uniq_loop.simps [of cmp i xs])
    next
      case c: False
      with 1(2) [OF True c] True d show ?thesis by (simp add: uniq_loop.simps [of cmp i xs])
    qed
  qed (use 1 in \<open>simp add: uniq_loop.simps\<close>)
qed

lemma set_drop_equal: "set (drop_equal cmp a xs) \<subseteq> set xs"
  by (induction xs arbitrary: a) auto

lemma drop_equal_strict:
  assumes anti: "\<And>x y. cmp y x = - cmp x y" and trans: "\<And>x y z. cmp x y \<le> 0 \<Longrightarrow> cmp y z \<le> 0 \<Longrightarrow> cmp x z \<le> 0"
    and "sorted_wrt (\<lambda>x y. cmp x y \<le> 0) (a # xs)"
  shows "sorted_wrt (\<lambda>x y. cmp x y < 0) (a # drop_equal cmp a xs) \<and>
    (\<forall>x\<in>set xs. \<exists>y\<in>insert a (set (drop_equal cmp a xs)). cmp y x = 0)"
  using assms(3)
proof (induction xs arbitrary: a)
  case (Cons x xs)
  show ?case
  proof (cases "cmp a x = 0")
    case True
    with Cons show ?thesis by auto
  next
    case False
    with Cons.prems have ax: "cmp a x < 0" by simp
    from Cons.IH [of x] Cons.prems have IH: "sorted_wrt (\<lambda>x y. cmp x y < 0) (x # drop_equal cmp x xs)"
      "\<forall>z\<in>set xs. \<exists>y\<in>insert x (set (drop_equal cmp x xs)). cmp y z = 0" by auto
    have "cmp a y < 0" if "cmp x y < 0" for y
    proof -
      have "cmp a y \<noteq> 0" using trans [of x y a] anti [of a y] anti [of a x] that ax by auto
      moreover have "cmp a y \<le> 0" using trans [of a x y] that ax by simp
      ultimately show ?thesis by simp
    qed
    moreover have "cmp x x = 0" using anti [of x x] by simp
    ultimately show ?thesis using IH ax False by auto
  qed
qed simp

lemma smartlist_uniq_sorted:
  assumes "\<And>x y. cmp y x = - cmp x y" and "\<And>x y z. cmp x y \<le> 0 \<Longrightarrow> cmp y z \<le> 0 \<Longrightarrow> cmp x z \<le> 0"
    and "sorted_wrt (\<lambda>x y. cmp x y \<le> 0) (sl_list sl)"
  shows "sorted_wrt (\<lambda>x y. cmp x y < 0) (sl_list (smartlist_uniq sl cmp)) \<and>
    set (sl_list (smartlist_uniq sl cmp)) \<subseteq> set (sl_list sl) \<and>
    (\<forall>x\<in>set (sl_list sl). \<exists>y\<in>set (sl_list (smartlist_uniq sl cmp)). cmp y x = 0)"
proof (cases "sl_list sl")
  case Nil
  then show ?thesis by (simp add: smartlist_uniq_def uniq_loop.simps)
next
  case (Cons a xs)
  have "uniq_loop cmp 1 (a # xs) = a # drop_equal cmp a xs"
    by (subst uniq_loop_eq) auto
  moreover have "cmp a a = 0" using assms(1) [of a a] by simp
  ultimately show ?thesis
    using drop_equal_strict [of cmp a xs, OF assms(1,2)] assms(3) set_drop_equal [of cmp a xs] Cons
    by (auto simp: smartlist_uniq_def)
qed

subsection \<open>Properties\<close>

text \<open>
  Inserting into a well-formed list of fewer than \<open>2\<^sup>3\<^sup>0\<close> elements at any position up to its end
  succeeds, puts the value there with the elements before and after it in their order, and keeps
  the capacity a power of two that is large enough; deleting at a position in range with
  \<^verbatim>\<open>smartlist_del_keeporder\<close> undoes it, and \<^verbatim>\<open>smartlist_del\<close> does so up to the order.
\<close>

lemma smartlist_insert_delete:
  assumes "sl_ok sl" and "smartlist_len sl < 2 ^ 30" and "idx \<le> smartlist_len sl"
  shows "\<exists>sl'. smartlist_insert sl (int idx) x = OK sl' \<and> sl_ok sl' \<and>
    sl_list sl' = take idx (sl_list sl) @ x # drop idx (sl_list sl) \<and>
    (\<exists>d. smartlist_del_keeporder sl' (int idx) = OK d \<and> sl_ok d \<and> sl_list d = sl_list sl) \<and>
    (\<exists>d. smartlist_del sl' (int idx) = OK d \<and> sl_ok d \<and> mset (sl_list d) = mset (sl_list sl))"
proof -
  from smartlist_insert_ok [OF assms] obtain sl' where sl':
    "smartlist_insert sl (int idx) x = OK sl'" "sl_ok sl'"
    "sl_list sl' = take idx (sl_list sl) @ x # drop idx (sl_list sl)" by blast
  from assms(3) have i: "idx < length (sl_list sl')" "sl_list sl' ! idx = x"
    by (simp_all add: sl' smartlist_len_def nth_append)
  have "del_keeporder idx (sl_list sl') = sl_list sl"
    using assms(3) by (simp add: del_keeporder_def sl' smartlist_len_def)
  moreover have "mset (sl_list sl') = add_mset x (mset (sl_list sl))"
    by (simp add: sl'(3)) (metis append_take_drop_id mset_append)
  with mset_swap_out [OF i(1)] i(2) have "mset (swap_out idx (sl_list sl')) = mset (sl_list sl)" by simp
  moreover have "sl_ok (sl'\<lparr>sl_list := ys\<rparr>)" if "mset ys = mset (sl_list sl)" for ys
    using sl' that mset_eq_length [OF that] assms(3) by (auto simp: sl_ok_def smartlist_len_def)
  ultimately show ?thesis using sl' i assms(3)
    by (auto simp: smartlist_del_keeporder_def smartlist_del_def smartlist_len_def less_Suc_eq_le)
qed

text \<open>
  The doubling that grows a list overflows \<^verbatim>\<open>int\<close> on a list of \<open>2\<^sup>3\<^sup>0\<close> elements before the assertion
  that is to detect it; below that length an append succeeds and appends.
\<close>

lemma smartlist_add_limit:
  assumes "sl_ok sl" and "smartlist_len sl \<le> 2 ^ 30"
  shows "(\<exists>sl'. smartlist_add sl x = OK sl' \<and> sl_ok sl' \<and> sl_list sl' = sl_list sl @ [x]) \<and>
      smartlist_len sl < 2 ^ 30 \<or>
    smartlist_add sl x = Fault Int_Overflow \<and> smartlist_len sl = 2 ^ 30"
  using smartlist_add_ok [OF assms(1)] smartlist_insert_full [OF assms(1)] assms(2)
  by (cases "smartlist_len sl = 2 ^ 30") auto

text \<open>
  The loops that remove while they scan.  \<^verbatim>\<open>smartlist_remove\<close> removes exactly the elements equal to
  its argument and leaves those before the first of them in place; \<^verbatim>\<open>smartlist_intersect\<close> keeps
  exactly the elements in the other list, \<^verbatim>\<open>smartlist_subtract\<close> exactly those that are not, each as
  often as it occurred; \<^verbatim>\<open>smartlist_reverse\<close> reverses.
\<close>

lemma smartlist_remove_exact:
  assumes "element \<noteq> None" and "None \<notin> set (sl_list sl2)"
  shows "mset (sl_list (smartlist_remove sl element)) = filter_mset (\<lambda>x. x \<noteq> element) (mset (sl_list sl)) \<and>
    (\<exists>zs. sl_list (smartlist_remove sl element) = takeWhile (\<lambda>x. x \<noteq> element) (sl_list sl) @ zs) \<and>
    mset (sl_list (smartlist_intersect sl sl2)) = filter_mset (\<lambda>x. x \<in> set (sl_list sl2)) (mset (sl_list sl)) \<and>
    mset (sl_list (smartlist_subtract sl sl2)) = filter_mset (\<lambda>x. x \<notin> set (sl_list sl2)) (mset (sl_list sl)) \<and>
    sl_list (smartlist_reverse sl) = rev (sl_list sl)"
proof -
  have "\<exists>zs. sl_list (smartlist_remove sl element) = takeWhile (\<lambda>x. x \<noteq> element) (sl_list sl) @ zs"
    using remove_loop_0(2) [of "\<lambda>x. x = element" "sl_list sl"] assms(1)
    by (simp add: smartlist_remove_def del: not_None_eq)
  then show ?thesis
    using smartlist_remove_mset [OF assms(1), of sl] smartlist_subtract_mset [OF assms(2), of sl]
      smartlist_reverse_rev [of sl]
    by (simp add: smartlist_intersect_def remove_loop_0)
qed

text \<open>
  Binary search.  On a list along which the comparison with the key goes from positive through zero to
  negative, \<^verbatim>\<open>smartlist_bsearch_idx\<close> returns, without failing an assertion, the index of a match
  if there is one, and otherwise the index of the first member greater than the key.
\<close>

lemma smartlist_bsearch_idx_correct:
  assumes "key_sorted (compare key) (sl_list sl)"
  shows "\<exists>idx found. smartlist_bsearch_idx sl key compare = OK (int idx, found) \<and>
    (found \<longleftrightarrow> (\<exists>x\<in>set (sl_list sl). compare key x = 0)) \<and>
    (if found then idx < smartlist_len sl \<and> compare key (sl_list sl ! idx) = 0
     else idx \<le> smartlist_len sl \<and> list_all (\<lambda>x. compare key x > 0) (take idx (sl_list sl)) \<and>
       list_all (\<lambda>x. compare key x < 0) (drop idx (sl_list sl)))"
proof -
  let ?c = "compare key" and ?xs = "sl_list sl"
  have res: "bsearch_result ?c ?xs (bsearch_loop ?c ?xs 0 (int (length ?xs) - 1))"
    by (rule bsearch_loop_correct [OF assms]) auto
  show ?thesis
  proof (cases "bsearch_loop ?c ?xs 0 (int (length ?xs) - 1)")
    case (Inl i)
    with res show ?thesis
      by (intro exI [of _ "nat i"] exI [of _ True])
        (auto simp: smartlist_bsearch_idx_def smartlist_len_def bsearch_result_def intro!: nth_mem bexI [of _ "?xs ! nat i"])
  next
    case (Inr i)
    with res have i: "0 \<le> i" "i \<le> int (length ?xs)" "\<forall>x\<in>set (take (nat i) ?xs). ?c x > 0"
      "\<forall>x\<in>set (drop (nat i) ?xs). ?c x < 0" by (auto simp: bsearch_result_def list_all_iff)
    have no: "?c x \<noteq> 0" if "x \<in> set ?xs" for x
      using that i(3,4) append_take_drop_id [of "nat i" ?xs] by (metis Un_iff less_irrefl set_append)
    have "?c (?xs ! nat i) < 0" if "i < int (length ?xs)"
      using i that by (metis Cons_nth_drop_Suc list.set_intros(1) nat_less_iff)
    moreover have "?c (?xs ! nat (int (length ?xs) - 1)) > 0" if "i = int (length ?xs)" "?xs \<noteq> []"
      using i that by (cases ?xs rule: rev_cases) (auto simp: nth_append)
    ultimately show ?thesis using Inr i no
      by (intro exI [of _ "nat i"] exI [of _ False])
        (auto simp: smartlist_bsearch_idx_def smartlist_len_def list_all_iff Let_def nat_diff_distrib)
  qed
qed

text \<open>
  On a sorted list of strings \<^verbatim>\<open>smartlist_uniq_strings\<close> leaves a strictly ascending list of the same
  strings.
\<close>

lemma smartlist_uniq_strings_correct:
  assumes "sorted_wrt (\<lambda>a b. strcmp a b \<le> 0) (sl_list sl)"
  shows "sorted_wrt (\<lambda>a b. strcmp a b < 0) (sl_list (smartlist_uniq_strings sl)) \<and>
    set (sl_list (smartlist_uniq_strings sl)) = set (sl_list sl)"
proof -
  from smartlist_uniq_sorted [of strcmp sl, OF strcmp_antisym _ assms] strcmp_trans
  have "sorted_wrt (\<lambda>x y. strcmp x y < 0) (sl_list (smartlist_uniq sl strcmp)) \<and>
      set (sl_list (smartlist_uniq sl strcmp)) \<subseteq> set (sl_list sl) \<and>
      (\<forall>x\<in>set (sl_list sl). \<exists>y\<in>set (sl_list (smartlist_uniq sl strcmp)). strcmp y x = 0)" by blast
  then show ?thesis by (auto simp: smartlist_uniq_strings_def)
qed

end
