(* ===== verification/CircuitList.thy ===== *)
theory CircuitList
  imports ActiveCircuits Smartlist
begin

section \<open>Finding and closing circuits (circuitlist.c, connection.c, connection\_edge.c)\<close>

text \<open>
  The map from connections and circuit IDs to circuits with its cache of the last answer, the
  consistency check of a circuit, and what marking a stream or a circuit for closing does.  Calls
  into subsystems that are not modelled are the fields of an environment.
\<close>

subsection \<open>Constants\<close>

definition CIRCUIT_STATE_ONIONSKIN_PENDING :: nat where "CIRCUIT_STATE_ONIONSKIN_PENDING = 1"
definition CIRCUIT_STATE_OR_WAIT :: nat where "CIRCUIT_STATE_OR_WAIT = 2"
definition CIRCUIT_STATE_OPEN :: nat where "CIRCUIT_STATE_OPEN = 3"
definition CIRCUIT_PURPOSE_OR :: nat where "CIRCUIT_PURPOSE_OR = 1"
definition CIRCUIT_PURPOSE_REND_ESTABLISHED :: nat where "CIRCUIT_PURPOSE_REND_ESTABLISHED = 4"
definition CIRCUIT_PURPOSE_OR_MAX :: nat where "CIRCUIT_PURPOSE_OR_MAX = 4"
definition CIRCUIT_PURPOSE_C_INTRODUCE_ACK_WAIT :: nat where "CIRCUIT_PURPOSE_C_INTRODUCE_ACK_WAIT = 7"
definition CIRCUIT_PURPOSE_C_MAX :: nat where "CIRCUIT_PURPOSE_C_MAX = 12"
definition CIRCUIT_PURPOSE_S_REND_JOINED :: nat where "CIRCUIT_PURPOSE_S_REND_JOINED = 16"
definition CIRCUIT_PURPOSE_MAX :: nat where "CIRCUIT_PURPOSE_MAX = 18"

definition CIRCUIT_PURPOSE_IS_CLIENT :: "nat \<Rightarrow> bool" where
  "CIRCUIT_PURPOSE_IS_CLIENT p \<longleftrightarrow> p > CIRCUIT_PURPOSE_OR_MAX \<and> p \<le> CIRCUIT_PURPOSE_C_MAX"

definition END_CIRC_AT_ORIGIN :: int where "END_CIRC_AT_ORIGIN = -1"
definition END_CIRC_REASON_NONE :: int where "END_CIRC_REASON_NONE = 0"
definition END_CIRC_REASON_TORPROTOCOL :: int where "END_CIRC_REASON_TORPROTOCOL = 1"
definition END_CIRC_REASON_INTERNAL :: int where "END_CIRC_REASON_INTERNAL = 2"
definition END_CIRC_REASON_REQUESTED :: int where "END_CIRC_REASON_REQUESTED = 3"
definition END_CIRC_REASON_UNPAID :: int where "END_CIRC_REASON_UNPAID = 13"
definition END_CIRC_REASON_MAX :: int where "END_CIRC_REASON_MAX = 13"
definition END_CIRC_REASON_FLAG_REMOTE :: int where "END_CIRC_REASON_FLAG_REMOTE = 512"

definition END_STREAM_REASON_MISC :: nat where "END_STREAM_REASON_MISC = 1"
definition END_STREAM_REASON_EXITPOLICY :: nat where "END_STREAM_REASON_EXITPOLICY = 4"
definition END_STREAM_REASON_DESTROY :: nat where "END_STREAM_REASON_DESTROY = 5"
definition END_STREAM_REASON_DONE :: nat where "END_STREAM_REASON_DONE = 6"
definition END_STREAM_REASON_INTERNAL :: nat where "END_STREAM_REASON_INTERNAL = 10"
definition END_STREAM_REASON_TORPROTOCOL :: nat where "END_STREAM_REASON_TORPROTOCOL = 13"
definition END_STREAM_REASON_CANT_ATTACH :: nat where "END_STREAM_REASON_CANT_ATTACH = 257"
definition END_STREAM_REASON_FLAG_REMOTE :: nat where "END_STREAM_REASON_FLAG_REMOTE = 512"
definition END_STREAM_REASON_FLAG_ALREADY_SENT_CLOSED :: nat where
  "END_STREAM_REASON_FLAG_ALREADY_SENT_CLOSED = 1024"
definition END_STREAM_REASON_FLAG_ALREADY_SOCKS_REPLIED :: nat where
  "END_STREAM_REASON_FLAG_ALREADY_SOCKS_REPLIED = 2048"

definition CELL_PADDING :: byte where "CELL_PADDING = 0"
definition CELL_DESTROY :: byte where "CELL_DESTROY = 4"

lemmas end_circ_reasons = END_CIRC_AT_ORIGIN_def END_CIRC_REASON_NONE_def END_CIRC_REASON_TORPROTOCOL_def
  END_CIRC_REASON_INTERNAL_def END_CIRC_REASON_REQUESTED_def END_CIRC_REASON_UNPAID_def
  END_CIRC_REASON_MAX_def END_CIRC_REASON_FLAG_REMOTE_def

subsection \<open>The environment\<close>

text \<open>
  What the modelled code takes from outside.  The cryptography of OpenSSL: running digests, SHA-1, random
  bytes, Diffie-Hellman and public keys, base64.  Options and the state of the process.  Calls into subsystems that
  are not modelled: writing to sockets, opening connections, the worker processes, SOCKS replies, exit
  streams, hidden services, statistics of circuits.  A call that changes the state of the router takes the world and
  returns the new one; what a random choice or the allocator returns is a function of the world.
\<close>

record 'd relay_env =
  en_ops :: "'d digest_ops"
  en_hw :: "'d socket_writer"
  en_circuit_build_failed :: "circ_ref \<Rightarrow> 'd world \<Rightarrow> 'd world res"
  en_remove_intro_point :: "circ_ref \<Rightarrow> 'd world \<Rightarrow> 'd world res"
  en_socks_reply :: "edge_ref \<Rightarrow> nat \<Rightarrow> 'd world \<Rightarrow> 'd world res"
  en_socks_resolved :: "edge_ref \<Rightarrow> byte \<Rightarrow> nat \<Rightarrow> byte list \<Rightarrow> int \<Rightarrow> 'd world \<Rightarrow> 'd world res"
  en_exit_begin_conn :: "cell \<Rightarrow> circ_ref \<Rightarrow> 'd world \<Rightarrow> ('d world \<times> int) res"
  en_exit_begin_resolve :: "cell \<Rightarrow> circ_ref \<Rightarrow> 'd world \<Rightarrow> 'd world res"
  en_rend_process_relay_cell :: "circ_ref \<Rightarrow> nat option \<Rightarrow> byte \<Rightarrow> byte list \<Rightarrow> 'd world \<Rightarrow> 'd world res"
  en_ap_process_end_not_open :: "relay_header \<Rightarrow> cell \<Rightarrow> circ_ref \<Rightarrow> edge_ref \<Rightarrow> 'd world \<Rightarrow> ('d world \<times> int) res"
  en_client_dns_set_addressmap :: "edge_ref \<Rightarrow> u32 \<Rightarrow> int \<Rightarrow> 'd world \<Rightarrow> 'd world res"
  en_bootstrap_event :: "edge_ref \<Rightarrow> 'd world \<Rightarrow> 'd world res"
  en_ClientDNSRejectInternalAddresses :: bool
  en_evp_encode :: "byte list \<Rightarrow> byte list"
  en_process_netinfo_cell :: "cell \<Rightarrow> conn_ref \<Rightarrow> 'd world \<Rightarrow> 'd world res"
  en_crypto_digest :: "byte list \<Rightarrow> byte list"
  en_crypto_rand :: "nat \<Rightarrow> 'd world \<Rightarrow> byte list option"
  en_onion_skin_create :: "circ_ref \<Rightarrow> nat \<Rightarrow> 'd world \<Rightarrow> (nat \<times> byte list) option"
  en_dh_compute_secret :: "nat \<Rightarrow> byte list \<Rightarrow> nat \<Rightarrow> byte list option"
  en_should_use_create_fast :: "circ_ref \<Rightarrow> 'd world \<Rightarrow> bool"
  en_control_event_bootstrap :: "circ_ref \<Rightarrow> 'd world \<Rightarrow> 'd world res"
  en_circuit_has_opened :: "circ_ref \<Rightarrow> 'd world \<Rightarrow> 'd world res"
  en_server_mode :: bool
  en_we_are_hibernating :: bool
  en_MaxOnionsPending :: int
  en_get_for_extend :: "byte list \<Rightarrow> tor_addr \<Rightarrow> 'd world \<Rightarrow> conn_ref option \<times> bool"
  en_or_connect :: "tor_addr \<Rightarrow> u16 \<Rightarrow> byte list \<Rightarrow> 'd world \<Rightarrow> ('d world \<times> conn_ref option) res"
  en_new_circuit :: "'d world \<Rightarrow> circ_ref"
  en_assign_onionskin :: "circ_ref \<Rightarrow> byte list \<Rightarrow> 'd world \<Rightarrow> ('d world \<times> int) res"
  en_orport_reachable :: "conn_ref \<Rightarrow> 'd world \<Rightarrow> 'd world res"

subsection \<open>Circuit IDs\<close>

text \<open>The fields of a circuit on one of its two sides.\<close>

definition side_conn :: "bool \<Rightarrow> 'd circuit \<Rightarrow> conn_ref option" where
  "side_conn n_side ci = (if n_side then ci_n_conn ci else ci_p_conn ci)"

definition side_circ_id :: "bool \<Rightarrow> 'd circuit \<Rightarrow> u16" where
  "side_circ_id n_side ci = (if n_side then ci_n_circ_id ci else ci_p_circ_id ci)"

definition side_next :: "bool \<Rightarrow> 'd circuit \<Rightarrow> circ_ref option" where
  "side_next s ci = (if s then ci_next_active_on_n_conn ci else ci_next_active_on_p_conn ci)"

definition side_queue :: "bool \<Rightarrow> 'd circuit \<Rightarrow> cell_queue" where
  "side_queue n_side ci = (if n_side then ci_n_conn_cells ci else ci_p_conn_cells ci)"

definition set_side :: "bool \<Rightarrow> conn_ref option \<Rightarrow> u16 \<Rightarrow> 'd circuit \<Rightarrow> 'd circuit" where
  "set_side n_side conn cid ci = (if n_side then ci\<lparr>ci_n_conn := conn, ci_n_circ_id := cid\<rparr>
     else ci\<lparr>ci_p_conn := conn, ci_p_circ_id := cid\<rparr>)"

definition forget_ent :: "conn_ref option \<Rightarrow> u16 \<Rightarrow> 'd world \<Rightarrow> 'd world" where
  "forget_ent conn cid w = (case w_last_circid_ent w of
     None \<Rightarrow> w
   | Some (k, i) \<Rightarrow> if i = cid \<and> conn = Some k then w\<lparr>w_last_circid_ent := None\<rparr> else w)"

definition circuit_set_circid_orconn_helper ::
  "circ_ref \<Rightarrow> cell_direction \<Rightarrow> u16 \<Rightarrow> conn_ref option \<Rightarrow> 'd world \<Rightarrow> 'd world res" where
  "circuit_set_circid_orconn_helper c direction cid conn w =
     (let n_side = (direction = CELL_DIRECTION_OUT); circ = w_circs w c in
      tor_assert (n_side \<or> \<not> ci_origin circ)
       (let was_active = side_next n_side circ \<noteq> None;
            make_active = cq_n (side_queue n_side circ) > 0;
            old_conn = side_conn n_side circ; old_id = side_circ_id n_side circ
        in if cid = old_id \<and> conn = old_conn then OK w
           else let w1 = forget_ent conn cid (forget_ent old_conn old_id w) in
             rbind
              (case old_conn of
                 None \<Rightarrow> OK w1
               | Some k \<Rightarrow>
                   let w2 = (if w_circid_map w1 (k, old_id) \<noteq> None
                             then upd_conn k (\<lambda>oc. oc\<lparr>oc_n_circuits := oc_n_circuits oc - 1\<rparr>)
                                    (w1\<lparr>w_circid_map := (w_circid_map w1)((k, old_id) := None)\<rparr>)
                             else w1)
                   in if was_active \<and> old_conn \<noteq> conn then make_circuit_inactive_on_conn c k w2 else OK w2)
              (\<lambda>w3. let w4 = upd_circ c (set_side n_side conn cid) w3 in
                case conn of
                  None \<Rightarrow> OK w4
                | Some k \<Rightarrow>
                    let w5 = w4\<lparr>w_circid_map := (w_circid_map w4)((k, cid) \<mapsto> c)\<rparr> in
                    rbind (if make_active \<and> old_conn \<noteq> conn then make_circuit_active_on_conn c k w5 else OK w5)
                     (\<lambda>w6. OK (upd_conn k (\<lambda>oc. oc\<lparr>oc_n_circuits := oc_n_circuits oc + 1\<rparr>) w6)))))"

text \<open>
  \<^verbatim>\<open>control_event_orcircuit\<close>: the controller is told about a circuit and its two sides, the one the event
  comes from first.  An outward event reads a field that only OR circuits have.
\<close>

definition CLOSED_text :: "byte list" where
  "CLOSED_text = [0x43, 0x4C, 0x4F, 0x53, 0x45, 0x44]"

definition orcircuit_event :: "string \<Rightarrow> byte list \<Rightarrow> 'd circuit \<Rightarrow> cell_direction \<Rightarrow> control_event" where
  "orcircuit_event msgType data circ direction = (case direction of
     CELL_DIRECTION_OUT \<Rightarrow>
       Orcircuit_Event msgType data (ci_p_circ_id circ) (ci_p_conn circ)
         (if ci_n_conn circ \<noteq> None then ci_n_circ_id circ else 0) (ci_n_conn circ)
   | CELL_DIRECTION_IN \<Rightarrow>
       Orcircuit_Event msgType data (if ci_n_conn circ \<noteq> None then ci_n_circ_id circ else 0) (ci_n_conn circ)
         (if \<not> ci_origin circ \<and> ci_p_conn circ \<noteq> None then ci_p_circ_id circ else 0)
         (if \<not> ci_origin circ then ci_p_conn circ else None))"

definition control_event_orcircuit ::
  "string \<Rightarrow> byte list \<Rightarrow> circ_ref \<Rightarrow> cell_direction \<Rightarrow> 'd world \<Rightarrow> 'd world res" where
  "control_event_orcircuit msgType data c direction w =
     tor_assert (direction = CELL_DIRECTION_OUT \<longrightarrow> \<not> ci_origin (w_circs w c))
       (OK (w\<lparr>w_events := w_events w @ [orcircuit_event msgType data (w_circs w c) direction]\<rparr>))"

definition circuit_set_p_circid_orconn :: "circ_ref \<Rightarrow> u16 \<Rightarrow> conn_ref option \<Rightarrow> 'd world \<Rightarrow> 'd world res" where
  "circuit_set_p_circid_orconn c cid conn w =
     rbind (if ci_p_conn (w_circs w c) \<noteq> None
            then control_event_orcircuit ''STATUS'' CLOSED_text c CELL_DIRECTION_OUT w else OK w) (\<lambda>w1.
     rbind (circuit_set_circid_orconn_helper c CELL_DIRECTION_IN cid conn w1) (\<lambda>w2.
       tor_assert (conn \<noteq> None \<longrightarrow>
         (cq_n (ci_p_conn_cells (w_circs w2 c)) \<noteq> 0) = (ci_next_active_on_p_conn (w_circs w2 c) \<noteq> None))
        (OK w2)))"

definition circuit_set_n_circid_orconn :: "circ_ref \<Rightarrow> u16 \<Rightarrow> conn_ref option \<Rightarrow> 'd world \<Rightarrow> 'd world res" where
  "circuit_set_n_circid_orconn c cid conn w =
     rbind (if \<not> ci_origin (w_circs w c) \<and> ci_n_conn (w_circs w c) \<noteq> None
            then control_event_orcircuit ''STATUS'' CLOSED_text c CELL_DIRECTION_OUT w else OK w) (\<lambda>w1.
     rbind (circuit_set_circid_orconn_helper c CELL_DIRECTION_OUT cid conn w1) (\<lambda>w2.
       tor_assert (conn \<noteq> None \<longrightarrow>
         (cq_n (ci_n_conn_cells (w_circs w2 c)) \<noteq> 0) = (ci_next_active_on_n_conn (w_circs w2 c) \<noteq> None))
        (OK w2)))"

text \<open>
  The lookup.  The cache points to an entry of the map; an entry that has been freed would be read
  after its release.
\<close>

definition circuit_get_by_circid_orconn_impl ::
  "u16 \<Rightarrow> conn_ref \<Rightarrow> 'd world \<Rightarrow> (circ_ref option \<times> 'd world) res" where
  "circuit_get_by_circid_orconn_impl circ_id k w =
     (if w_last_circid_ent w = Some (k, circ_id) then
        (case w_circid_map w (k, circ_id) of None \<Rightarrow> Fault Mem_Fault | Some c \<Rightarrow> OK (Some c, w))
      else
        (let found = w_circid_map w (k, circ_id) in
         OK (found, w\<lparr>w_last_circid_ent := (if found = None then None else Some (k, circ_id))\<rparr>)))"

definition circuit_get_by_circid_orconn ::
  "u16 \<Rightarrow> conn_ref \<Rightarrow> 'd world \<Rightarrow> (circ_ref option \<times> 'd world) res" where
  "circuit_get_by_circid_orconn circ_id k w =
     rbind (circuit_get_by_circid_orconn_impl circ_id k w) (\<lambda>(found, w1).
       case found of
         None \<Rightarrow> OK (None, w1)
       | Some c \<Rightarrow> OK (if ci_marked_for_close (w_circs w1 c) then None else Some c, w1))"

definition circuit_id_in_use_on_orconn :: "u16 \<Rightarrow> conn_ref \<Rightarrow> 'd world \<Rightarrow> (bool \<times> 'd world) res" where
  "circuit_id_in_use_on_orconn circ_id k w =
     rbind (circuit_get_by_circid_orconn_impl circ_id k w) (\<lambda>(found, w1). OK (found \<noteq> None, w1))"

definition circuit_get_by_edge_conn :: "edge_ref \<Rightarrow> 'd world \<Rightarrow> circ_ref option" where
  "circuit_get_by_edge_conn e w = ec_on_circuit (w_edges w e)"

subsection \<open>The consistency check of a circuit\<close>

text \<open>
  \<^verbatim>\<open>assert_cpath_ok\<close> and \<^verbatim>\<open>assert_circuit_ok\<close>.  The lookups go through the cache of the map.
\<close>

definition assert_cpath_layer_ok :: "'d crypt_path \<Rightarrow> bool" where
  "assert_cpath_layer_ok cp \<longleftrightarrow>
     (case cp_state cp of
        CPATH_STATE_OPEN \<Rightarrow> cp_keys_set cp \<and> cp_dh_handshake_state cp = None
      | CPATH_STATE_CLOSED \<Rightarrow> cp_dh_handshake_state cp = None
      | CPATH_STATE_AWAITING_KEYS \<Rightarrow> True) \<and>
     cp_package_window cp \<ge> 0 \<and> cp_deliver_window cp \<ge> 0"

fun assert_cpath_ok :: "cpath_state option \<Rightarrow> 'd crypt_path list \<Rightarrow> bool" where
  "assert_cpath_ok prev [] \<longleftrightarrow> True"
| "assert_cpath_ok prev (cp # cps) \<longleftrightarrow> assert_cpath_layer_ok cp \<and>
     (prev \<noteq> None \<and> cp_state cp \<noteq> CPATH_STATE_CLOSED \<longrightarrow> prev = Some CPATH_STATE_OPEN) \<and>
     assert_cpath_ok (Some (cp_state cp)) cps"

definition assert_id_maps_to :: "circ_ref \<Rightarrow> conn_ref option \<Rightarrow> u16 \<Rightarrow> 'd world \<Rightarrow> 'd world res" where
  "assert_id_maps_to c conn circ_id w = (case conn of
     None \<Rightarrow> OK w
   | Some k \<Rightarrow> if circ_id = 0 then OK w
       else rbind (circuit_get_by_circid_orconn_impl circ_id k w) (\<lambda>(c2, w1). tor_assert (c2 = Some c) (OK w1)))"

definition assert_circuit_ok :: "circ_ref \<Rightarrow> 'd world \<Rightarrow> 'd world res" where
  "assert_circuit_ok c w =
     (let circ = w_circs w c in
      tor_assert (1 \<le> ci_purpose circ \<and> ci_purpose circ \<le> CIRCUIT_PURPOSE_MAX)
      (tor_assert (ci_n_conn circ \<noteq> None \<longrightarrow> ci_n_hop circ = None)
      (rbind (assert_id_maps_to c (ci_n_conn circ) (ci_n_circ_id circ) w) (\<lambda>w1.
       rbind (if ci_origin circ then OK w1
              else assert_id_maps_to c (ci_p_conn circ) (ci_p_circ_id circ) w1) (\<lambda>w2.
        tor_assert (\<not> ci_origin circ \<longrightarrow> list_all (\<lambda>e. ec_type (w_edges w e) = CONN_TYPE_EXIT) (ci_n_streams circ))
       (tor_assert (ci_deliver_window circ \<ge> 0)
       (tor_assert (ci_package_window circ \<ge> 0)
       (tor_assert (ci_state circ = CIRCUIT_STATE_OPEN \<longrightarrow> ci_n_conn_onionskin circ = None \<and> (ci_origin circ \<or> ci_keys_set circ))
       (tor_assert ((ci_state circ = CIRCUIT_STATE_OR_WAIT \<and> \<not> ci_marked_for_close circ) = (c \<in> set (w_pending_or_conns w)))
       (tor_assert (ci_origin circ \<longrightarrow> assert_cpath_ok None (ci_cpath circ))
       (if ci_purpose circ = CIRCUIT_PURPOSE_REND_ESTABLISHED then
          tor_assert (\<not> ci_origin circ)
         (tor_assert (\<not> ci_marked_for_close circ \<longrightarrow> (case ci_rend_splice circ of
             None \<Rightarrow> False | Some s \<Rightarrow> ci_rend_splice (w_circs w s) = Some c))
         (tor_assert (ci_rend_splice circ \<noteq> Some c) (OK w2)))
        else tor_assert (\<not> ci_origin circ \<longrightarrow> ci_rend_splice circ = None) (OK w2))))))))))))"

subsection \<open>Closing streams and circuits\<close>

definition connection_or_write_cell_to_buf ::
  "'d socket_writer \<Rightarrow> cell \<Rightarrow> conn_ref \<Rightarrow> 'd world \<Rightarrow> 'd world res" where
  "connection_or_write_cell_to_buf hw cell k w =
     rbind (connection_write_to_buf hw (cell_pack cell) k w) (\<lambda>w1.
       OK (if ce_command cell \<noteq> CELL_PADDING
           then upd_conn k (\<lambda>oc. oc\<lparr>oc_timestamp_last_added_nonpadding := w_now w1\<rparr>) w1 else w1))"

definition connection_or_send_destroy ::
  "'d socket_writer \<Rightarrow> u16 \<Rightarrow> conn_ref \<Rightarrow> int \<Rightarrow> 'd world \<Rightarrow> 'd world res" where
  "connection_or_send_destroy hw circ_id k reason w =
     connection_or_write_cell_to_buf hw
       \<lparr>ce_circ_id = circ_id, ce_command = CELL_DESTROY,
        ce_payload = word_of_int reason # replicate (CELL_PAYLOAD_SIZE - 1) 0\<rparr> k w"

text \<open>
  \<^verbatim>\<open>_connection_mark_for_close\<close> of a stream, with \<^verbatim>\<open>add_connection_to_closeable_list\<close>; the check of
  the fields of the connection (\<^verbatim>\<open>assert_connection_ok\<close>) is left out.
\<close>

definition connection_mark_for_close :: "edge_ref \<Rightarrow> 'd world \<Rightarrow> 'd world res" where
  "connection_mark_for_close e w =
     (if cn_marked_for_close (w_edges w e) then OK w
      else tor_assert (e \<notin> set (w_closeable w))
        (OK (upd_edge e (\<lambda>ec. ec\<lparr>cn_marked_for_close := True\<rparr>) (w\<lparr>w_closeable := w_closeable w @ [e]\<rparr>))))"

text \<open>SOCKS commands: CONNECT; RESOLVE and RESOLVE\_PTR.\<close>

definition SOCKS_COMMAND_IS_CONNECT :: "byte \<Rightarrow> bool" where
  "SOCKS_COMMAND_IS_CONNECT c \<longleftrightarrow> c = 0x01"

definition SOCKS_COMMAND_IS_RESOLVE :: "byte \<Rightarrow> bool" where
  "SOCKS_COMMAND_IS_RESOLVE c \<longleftrightarrow> c = 0xF0 \<or> c = 0xF1"

definition RESOLVED_TYPE_ERROR_TRANSIENT :: byte where "RESOLVED_TYPE_ERROR_TRANSIENT = 0xF0"

definition connection_mark_unattached_ap :: "'d relay_env \<Rightarrow> edge_ref \<Rightarrow> nat \<Rightarrow> 'd world \<Rightarrow> 'd world res" where
  "connection_mark_unattached_ap env e endreason w =
     tor_assert (ec_type (w_edges w e) = CONN_TYPE_AP)
      (let w1 = upd_edge e (\<lambda>ec. ec\<lparr>ec_edge_has_sent_end := True\<rparr>) w in
       if cn_marked_for_close (w_edges w1 e) then connection_mark_for_close e w1
       else case ec_socks_request (w_edges w1 e) of
         None \<Rightarrow> Fault Mem_Fault
       | Some (command, has_finished) \<Rightarrow>
           rbind
            (if has_finished then OK w1
             else if SOCKS_COMMAND_IS_CONNECT command then en_socks_reply env e endreason w1
             else if SOCKS_COMMAND_IS_RESOLVE command then
               en_socks_resolved env e RESOLVED_TYPE_ERROR_TRANSIENT 0 [] (-1) w1
             else OK (upd_edge e (\<lambda>ec. ec\<lparr>ec_socks_request := Some (command, True)\<rparr>) w1))
            (\<lambda>w2. rbind (connection_mark_for_close e w2) (\<lambda>w3.
               OK (upd_edge e (\<lambda>ec. ec\<lparr>cn_hold_open_until_flushed := True, ec_end_reason := endreason\<rparr>) w3))))"

definition connection_edge_destroy :: "'d relay_env \<Rightarrow> edge_ref \<Rightarrow> 'd world \<Rightarrow> 'd world res" where
  "connection_edge_destroy env e w =
     rbind
      (if cn_marked_for_close (w_edges w e) then OK w
       else case ec_type (w_edges w e) of
         CONN_TYPE_AP \<Rightarrow>
           rbind (connection_mark_unattached_ap env e END_STREAM_REASON_DESTROY w) (\<lambda>w1.
             OK (upd_edge e (\<lambda>ec. ec\<lparr>ec_end_reason :=
                   ec_end_reason ec OR END_STREAM_REASON_FLAG_ALREADY_SENT_CLOSED\<rparr>)
                 (w1\<lparr>w_events := w_events w1 @ [Stream_Bandwidth e, Stream_Closed e END_STREAM_REASON_DESTROY]\<rparr>)))
       | CONN_TYPE_EXIT \<Rightarrow>
           (let w1 = upd_edge e (\<lambda>ec. ec\<lparr>ec_edge_has_sent_end := True, ec_end_reason :=
                       END_STREAM_REASON_DESTROY OR END_STREAM_REASON_FLAG_ALREADY_SENT_CLOSED\<rparr>) w in
            rbind (connection_mark_for_close e w1) (\<lambda>w2.
              OK (upd_edge e (\<lambda>ec. ec\<lparr>cn_hold_open_until_flushed := True\<rparr>) w2))))
      (\<lambda>w3. OK (upd_edge e (\<lambda>ec. ec\<lparr>ec_cpath_layer := None, ec_on_circuit := None\<rparr>) w3))"

fun destroy_streams :: "'d relay_env \<Rightarrow> edge_ref list \<Rightarrow> 'd world \<Rightarrow> 'd world res" where
  "destroy_streams env [] w = OK w"
| "destroy_streams env (e # es) w = rbind (connection_edge_destroy env e w) (destroy_streams env es)"

text \<open>The loop that takes the resolving streams off the circuit one by one.\<close>

definition end_resolving_stream :: "edge_ref \<Rightarrow> 'd world \<Rightarrow> 'd world res" where
  "end_resolving_stream e w =
     rbind
      (if cn_marked_for_close (w_edges w e) then OK w
       else connection_mark_for_close e (upd_edge e (\<lambda>ec. ec\<lparr>ec_edge_has_sent_end := True, ec_end_reason :=
              END_STREAM_REASON_DESTROY OR END_STREAM_REASON_FLAG_ALREADY_SENT_CLOSED\<rparr>) w))
      (\<lambda>w1. OK (upd_edge e (\<lambda>ec. ec\<lparr>ec_on_circuit := None\<rparr>) w1))"

fun end_resolving_streams :: "circ_ref \<Rightarrow> edge_ref list \<Rightarrow> 'd world \<Rightarrow> 'd world res" where
  "end_resolving_streams c [] w = OK w"
| "end_resolving_streams c (e # es) w =
     rbind (end_resolving_stream e (upd_circ c (\<lambda>ci. ci\<lparr>ci_resolving_streams := es\<rparr>) w))
       (end_resolving_streams c es)"

text \<open>The reason that is sent in destroy cells.\<close>

definition destroy_reason :: "bool \<Rightarrow> int \<Rightarrow> int" where
  "destroy_reason origin reason =
     (let r1 = (if reason = END_CIRC_AT_ORIGIN \<or> origin then END_CIRC_REASON_NONE else reason);
          r2 = r1 AND NOT END_CIRC_REASON_FLAG_REMOTE
      in if r2 < END_CIRC_REASON_NONE \<or> r2 > END_CIRC_REASON_MAX then END_CIRC_REASON_NONE else r2)"

text \<open>The queue of circuits that wait for a worker (\<^verbatim>\<open>onion.c\<close>): a circuit is taken out of its list.\<close>

fun take_out_circ :: "circ_ref \<Rightarrow> (circ_ref \<times> 'x) list \<Rightarrow> (circ_ref \<times> 'x) list option" where
  "take_out_circ c [] = None"
| "take_out_circ c (t # ts) = (if fst t = c then Some ts else map_option ((#) t) (take_out_circ c ts))"

definition onion_pending_remove :: "circ_ref \<Rightarrow> 'd world \<Rightarrow> 'd world" where
  "onion_pending_remove c w = (case take_out_circ c (w_onion_queue w) of
     None \<Rightarrow> w
   | Some ts \<Rightarrow> w\<lparr>w_onion_queue := ts, w_onion_length := w_onion_length w - 1\<rparr>)"

text \<open>The circuits that wait for a connection.  Removal puts the last element of the array in the gap.\<close>

definition pending_or_conns_remove :: "circ_ref \<Rightarrow> 'd world \<Rightarrow> 'd world" where
  "pending_or_conns_remove c w = w\<lparr>w_pending_or_conns := remove_loop (\<lambda>x. x = c) 0 (w_pending_or_conns w)\<rparr>"

definition circuit_set_state :: "circ_ref \<Rightarrow> nat \<Rightarrow> 'd world \<Rightarrow> 'd world res" where
  "circuit_set_state c state w =
     (if state = ci_state (w_circs w c) then OK w
      else
        let w1 = (if ci_state (w_circs w c) = CIRCUIT_STATE_OR_WAIT then pending_or_conns_remove c w else w);
            w2 = (if state = CIRCUIT_STATE_OR_WAIT
                  then w1\<lparr>w_pending_or_conns := w_pending_or_conns w1 @ [c]\<rparr> else w1)
        in tor_assert (state = CIRCUIT_STATE_OPEN \<longrightarrow> ci_n_conn_onionskin (w_circs w2 c) = None)
             (OK (upd_circ c (\<lambda>ci. ci\<lparr>ci_state := state\<rparr>) w2)))"

text \<open>Everything \<^verbatim>\<open>_circuit_mark_for_close\<close> does before it marks the circuit.\<close>

definition close_circuit :: "'d relay_env \<Rightarrow> circ_ref \<Rightarrow> int \<Rightarrow> int \<Rightarrow> 'd world \<Rightarrow> 'd world res" where
  "close_circuit env c orig_reason reason w =
     (let circ = w_circs w c in
      rbind (if ci_state circ = CIRCUIT_STATE_ONIONSKIN_PENDING
             then tor_assert (\<not> ci_origin circ) (OK (onion_pending_remove c w)) else OK w) (\<lambda>w1.
      rbind (if ci_state circ \<noteq> CIRCUIT_STATE_OPEN \<and> ci_origin circ
             then en_circuit_build_failed env c w1 else OK w1) (\<lambda>w2.
      let w3 = (if ci_state circ = CIRCUIT_STATE_OR_WAIT then pending_or_conns_remove c w2 else w2);
          w4 = (if ci_origin circ
                then w3\<lparr>w_events := w_events w3 @
                       [Circuit_Status c (ci_state circ = CIRCUIT_STATE_OPEN) orig_reason]\<rparr>
                else w3) in
      rbind (if ci_purpose circ = CIRCUIT_PURPOSE_C_INTRODUCE_ACK_WAIT
             then tor_assert (ci_origin circ) (tor_assert (ci_state circ = CIRCUIT_STATE_OPEN)
                    (en_remove_intro_point env c w4)) else OK w4) (\<lambda>w5.
      rbind (case ci_n_conn (w_circs w5 c) of
               None \<Rightarrow> OK w5
             | Some k \<Rightarrow> connection_or_send_destroy (en_hw env) (ci_n_circ_id (w_circs w5 c)) k reason w5) (\<lambda>w6.
      rbind
       (if \<not> ci_origin circ then
          rbind (destroy_streams env (ci_n_streams (w_circs w6 c)) w6) (\<lambda>w7.
          rbind (end_resolving_streams c (ci_resolving_streams (w_circs w7 c)) w7) (\<lambda>w8.
            case ci_p_conn (w_circs w8 c) of
              None \<Rightarrow> OK w8
            | Some k \<Rightarrow> connection_or_send_destroy (en_hw env) (ci_p_circ_id (w_circs w8 c)) k reason w8))
        else destroy_streams env (ci_p_streams (w_circs w6 c)) w6)
       (\<lambda>w9. OK (upd_circ c (\<lambda>ci. ci\<lparr>ci_marked_for_close := True\<rparr>) w9)))))))"

text \<open>
  \<^verbatim>\<open>_circuit_mark_for_close\<close>.  Closing one half of a rendezvous closes the other: the recursion need not
  end on a chain of circuits that never comes back, so it is a partial function.
\<close>

partial_function (option) mark_circuits ::
  "'d relay_env \<Rightarrow> circ_ref \<Rightarrow> int \<Rightarrow> 'd world \<Rightarrow> 'd world res option" where
  "mark_circuits env c reason w =
     (case assert_circuit_ok c w of
        Fault e \<Rightarrow> Some (Fault e)
      | OK w0 \<Rightarrow>
          if ci_marked_for_close (w_circs w0 c) then Some (OK w0)
          else let r = destroy_reason (ci_origin (w_circs w0 c)) reason in
            case close_circuit env c reason r w0 of
              Fault e \<Rightarrow> Some (Fault e)
            | OK w1 \<Rightarrow>
                if ci_origin (w_circs w1 c) then Some (OK w1)
                else case ci_rend_splice (w_circs w1 c) of
                  None \<Rightarrow> Some (OK w1)
                | Some s \<Rightarrow>
                    Option.bind (if ci_marked_for_close (w_circs w1 s) then Some (OK w1) else mark_circuits env s r w1)
                     (\<lambda>res. Some (rbind res (\<lambda>w2. OK (upd_circ c (\<lambda>ci. ci\<lparr>ci_rend_splice := None\<rparr>) w2)))))"

definition circuit_mark_for_close :: "'d relay_env \<Rightarrow> circ_ref \<Rightarrow> int \<Rightarrow> 'd world \<Rightarrow> 'd world res" where
  "circuit_mark_for_close env c reason w = returns (mark_circuits env c reason w)"

subsection \<open>The map of circuit IDs\<close>

text \<open>The part of the world the rings and queues are in: what \<^const>\<open>circuits_ok\<close> reads.\<close>

definition ring_part :: "'d circuit \<Rightarrow> bool \<times> conn_ref option \<times> conn_ref option \<times> circ_ref option \<times>
    circ_ref option \<times> circ_ref option \<times> circ_ref option \<times> cell_queue \<times> cell_queue \<times> bool \<times> bool" where
  "ring_part ci = (ci_origin ci, ci_n_conn ci, ci_p_conn ci, ci_next_active_on_n_conn ci,
     ci_prev_active_on_n_conn ci, ci_next_active_on_p_conn ci, ci_prev_active_on_p_conn ci,
     ci_n_conn_cells ci, ci_p_conn_cells ci, ci_streams_blocked_on_n_conn ci, ci_streams_blocked_on_p_conn ci)"

definition conn_part :: "or_conn \<Rightarrow> buf \<times> circ_ref option \<times> bool \<times> bool \<times> bool \<times> nat \<times> nat" where
  "conn_part oc = (cn_outbuf oc, oc_active_circuits oc, cn_marked_for_close oc, cn_hold_open_until_flushed oc,
     cn_in_flushed_some oc, cn_outbuf_flushlen oc, oc_link_proto oc)"

definition same_rings :: "'d world \<Rightarrow> 'd world \<Rightarrow> bool" where
  "same_rings w w' \<longleftrightarrow> (\<forall>c. ring_part (w_circs w' c) = ring_part (w_circs w c)) \<and>
     (\<forall>k. conn_part (w_conns w' k) = conn_part (w_conns w k)) \<and> w_alloc w' = w_alloc w"

lemma same_rings_views:
  assumes "same_rings w w'"
  shows "linked w' k c = linked w k c" and "nextf w' k = nextf w k" and "prevf w' k = prevf w k"
    and "activef w' k = activef w k" and "queue_on w' k c = queue_on w k c" and "blocked_on w' k c = blocked_on w k c"
    and "outbuf_of w' = outbuf_of w" and "two_sided w' = two_sided w" and "or_conns_wf w' = or_conns_wf w"
    and "write_is_queued k n w' = write_is_queued k n w" and "on_wire w' k cell = on_wire w k cell"
    and "writes_on w' c k dir = writes_on w c k dir"
  using assms
  by (auto simp: same_rings_def ring_part_def conn_part_def linked_def nextf_def prevf_def activef_def queue_on_def
      circ_queue_def blocked_on_def outbuf_of_def two_sided_def or_conns_wf_def write_is_queued_def on_wire_def
      writes_on_def fun_eq_iff Let_def split: cell_direction.splits)

lemma same_rings_ok:
  assumes "same_rings w w'"
  shows "circuits_ok w' R = circuits_ok w R" and "abs_sched w' R = abs_sched w R"
  by (simp_all add: circuits_ok_def abs_sched_def ring_on_def same_rings_views [OF assms])

lemma same_rings_refl [simp]: "same_rings w w"
  by (simp add: same_rings_def)

lemma same_rings_trans: "same_rings u v \<Longrightarrow> same_rings v w \<Longrightarrow> same_rings u w"
  by (simp add: same_rings_def)

lemma same_rings_upd_circ: "(\<And>ci. ring_part (f ci) = ring_part ci) \<Longrightarrow> same_rings w (upd_circ c f w)"
  by (simp add: same_rings_def)

lemma same_rings_upd_conn: "(\<And>oc. conn_part (f oc) = conn_part oc) \<Longrightarrow> same_rings w (upd_conn k f w)"
  by (simp add: same_rings_def)

definition side_idle :: "bool \<Rightarrow> 'd circuit \<Rightarrow> bool" where
  "side_idle n_side ci \<longleftrightarrow> (if n_side then ci_next_active_on_n_conn ci = None \<and> ci_prev_active_on_n_conn ci = None
     else ci_next_active_on_p_conn ci = None \<and> ci_prev_active_on_p_conn ci = None)"

text \<open>
  The cache names an entry of the map, every entry is the ID of its circuit on one of its sides, and
  a side without a connection is in no ring.
\<close>

definition attached :: "'d circuit \<Rightarrow> conn_ref \<Rightarrow> u16 \<Rightarrow> bool" where
  "attached ci k cid \<longleftrightarrow> ci_n_conn ci = Some k \<and> ci_n_circ_id ci = cid \<or>
     \<not> ci_origin ci \<and> ci_p_conn ci = Some k \<and> ci_p_circ_id ci = cid"

definition circid_ok :: "'d world \<Rightarrow> bool" where
  "circid_ok w \<longleftrightarrow> (\<forall>x. w_last_circid_ent w = Some x \<longrightarrow> w_circid_map w x \<noteq> None) \<and>
     (\<forall>k cid c. w_circid_map w (k, cid) = Some c \<longrightarrow> attached (w_circs w c) k cid) \<and>
     (\<forall>c s. (s \<or> \<not> ci_origin (w_circs w c)) \<longrightarrow> queue_ok (side_queue s (w_circs w c)) \<and>
        (side_conn s (w_circs w c) = None \<longrightarrow> side_idle s (w_circs w c)))"

lemma circid_ok_side:
  assumes "circid_ok w" and "s \<or> \<not> ci_origin (w_circs w c)"
  shows "queue_ok (side_queue s (w_circs w c))"
    and "side_conn s (w_circs w c) = None \<Longrightarrow> side_idle s (w_circs w c)"
  using assms unfolding circid_ok_def by blast+

lemma forget_ent_eq:
  "forget_ent conn cid w = w\<lparr>w_last_circid_ent :=
     (if \<exists>k. conn = Some k \<and> w_last_circid_ent w = Some (k, cid) then None else w_last_circid_ent w)\<rparr>"
  by (auto simp: forget_ent_def split: option.splits)

lemma ring_on_cong:
  assumes "w_circs w' = w_circs w" and "oc_active_circuits (w_conns w' k) = oc_active_circuits (w_conns w k)"
  shows "ring_on w' k cs = ring_on w k cs"
proof -
  have "nextf w' k = nextf w k" "prevf w' k = prevf w k"
    by (simp_all add: fun_eq_iff nextf_def prevf_def linked_def assms(1))
  with assms(2) show ?thesis by (simp add: ring_on_def activef_def)
qed

lemma linked_side:
  "side_conn s (w_circs w c) = Some k \<Longrightarrow> s \<or> \<not> ci_origin (w_circs w c) \<Longrightarrow> linked w k c"
  by (auto simp: side_conn_def linked_def split: if_splits)

text \<open>The side of a circuit on a connection, under \<^const>\<open>two_sided\<close>.\<close>

lemma side_links:
  assumes "two_sided w" and "side_conn s (w_circs w c) = Some k" and "s \<or> \<not> ci_origin (w_circs w c)"
  shows "(nextf w k c = None \<and> prevf w k c = None) = side_idle s (w_circs w c)"
    and "nextf w k c = (if s then ci_next_active_on_n_conn (w_circs w c) else ci_next_active_on_p_conn (w_circs w c))"
    and "queue_on w k c = side_queue s (w_circs w c)"
  using assms linked_side [OF assms(2,3)]
  by (auto simp: side_conn_def side_idle_def side_queue_def nextf_def prevf_def queue_on_def circ_queue_def
      two_sided_def split: if_splits)

lemma ring_on_None: "ring_on w k cs \<Longrightarrow> c \<notin> set cs \<Longrightarrow> nextf w k c = None \<and> prevf w k c = None"
  by (simp add: ring_on_def is_ring_def)

text \<open>Moving an idle side of a circuit from one connection to another leaves all rings alone.\<close>

lemma ring_on_set_side:
  assumes "ring_on w k cs" and "side_idle s (w_circs w c)" and "s \<or> \<not> ci_origin (w_circs w c)"
    and "two_sided w" and "s \<and> \<not> ci_origin (w_circs w c) \<and> conn = Some k \<longrightarrow> ci_p_conn (w_circs w c) \<noteq> Some k"
  shows "ring_on (upd_circ c (set_side s conn cid) w) k cs"
proof -
  have "nextf (upd_circ c (set_side s conn cid) w) k = nextf w k"
    "prevf (upd_circ c (set_side s conn cid) w) k = prevf w k"
    using assms(2-5)
    by (auto simp: fun_eq_iff nextf_def prevf_def linked_def side_idle_def set_side_def two_sided_def split: if_splits)
  with assms(1) show ?thesis by (simp add: ring_on_def activef_def)
qed

text \<open>Leaving the ring of the old connection, and joining that of the new one.\<close>

lemma leave_ring_ok:
  assumes "ring_on w k cs" and "side_conn s (w_circs w c) = Some k" and "s \<or> \<not> ci_origin (w_circs w c)"
    and "two_sided w"
  shows "\<exists>nx pv a. make_circuit_inactive_on_conn c k w = OK (put_links k nx pv a w) \<and>
    ring_on (put_links k nx pv a w) k (remove1 c cs) \<and> side_idle s (w_circs (put_links k nx pv a w) c)"
proof -
  obtain nx pv a where 1: "make_circuit_inactive_on_conn c k w = OK (put_links k nx pv a w)"
    and r: "ring_on (put_links k nx pv a w) k (remove1 c cs)"
    using make_inactive_ok [OF assms(1) linked_side [OF assms(2,3)]] by blast
  let ?v = "put_links k nx pv a w"
  have "distinct cs" using assms(1) by (simp add: ring_on_def is_ring_def)
  then have "nextf ?v k c = None \<and> prevf ?v k c = None" using ring_on_None [OF r] by simp
  moreover have "two_sided ?v" using assms(4) by (simp add: view_simps)
  moreover have "side_conn s (w_circs ?v c) = Some k" "s \<or> \<not> ci_origin (w_circs ?v c)"
    using assms(2,3) by (auto simp: side_conn_def split: if_splits)
  ultimately have "side_idle s (w_circs ?v c)" using side_links(1) by blast
  with 1 r show ?thesis by blast
qed

text \<open>Only links of one connection changed.\<close>

definition relinked :: "'d world \<Rightarrow> 'd world \<Rightarrow> bool" where
  "relinked w w' \<longleftrightarrow> (\<exists>k. \<forall>d. \<exists>n p. w_circs w' d = put_circ k n p (w_circs w d))"

lemma put_links_ids [simp]:
  "w_circid_map (put_links k nx pv a w) = w_circid_map w"
  "w_last_circid_ent (put_links k nx pv a w) = w_last_circid_ent w"
  by (simp_all add: put_links_def)

lemma relinked_put: "w_circs w = w_circs v \<Longrightarrow> relinked v (put_links k nx pv a w)"
  by (auto simp: relinked_def)

lemma relinked_refl: "w_circs w' = w_circs w \<Longrightarrow> relinked w w'"
proof -
  assume "w_circs w' = w_circs w"
  moreover have "put_circ k (if ci_n_conn ci = Some k then ci_next_active_on_n_conn ci else ci_next_active_on_p_conn ci)
      (if ci_n_conn ci = Some k then ci_prev_active_on_n_conn ci else ci_prev_active_on_p_conn ci) ci = ci"
    for k and ci :: "'a circuit" by (simp add: put_circ_def)
  ultimately show ?thesis unfolding relinked_def by metis
qed

lemma put_circ_marked [simp]: "ci_marked_for_close (put_circ k n p ci) = ci_marked_for_close ci"
  by (simp add: put_circ_def)

lemma put_circ_sides [simp]:
  "side_conn s (put_circ k n p ci) = side_conn s ci" "side_queue s (put_circ k n p ci) = side_queue s ci"
  "side_circ_id s (put_circ k n p ci) = side_circ_id s ci"
  "attached (put_circ k n p ci) k' cid = attached ci k' cid"
  by (auto simp: side_conn_def side_queue_def side_circ_id_def attached_def put_circ_def)

lemma put_circ_idle: "side_conn s ci = None \<Longrightarrow> side_idle s ci \<Longrightarrow> side_idle s (put_circ k n p ci)"
  by (auto simp: side_conn_def side_idle_def put_circ_def split: if_splits)

lemma set_side_sides [simp]:
  "side_conn s' (set_side s conn cid ci) = (if s' = s then conn else side_conn s' ci)"
  "side_queue s' (set_side s conn cid ci) = side_queue s' ci"
  "side_idle s' (set_side s conn cid ci) = side_idle s' ci"
  "side_next s' (set_side s conn cid ci) = side_next s' ci"
  "ci_origin (set_side s conn cid ci) = ci_origin ci"
  "ci_marked_for_close (set_side s conn cid ci) = ci_marked_for_close ci"
  by (auto simp: side_conn_def side_queue_def side_idle_def side_next_def set_side_def)

lemma attached_iff:
  "attached ci k cid \<longleftrightarrow> (\<exists>s. (s \<or> \<not> ci_origin ci) \<and> side_conn s ci = Some k \<and> side_circ_id s ci = cid)"
  by (auto simp: attached_def side_conn_def side_circ_id_def)

lemma set_side_circ_id [simp]:
  "side_circ_id s' (set_side s conn cid ci) = (if s' = s then cid else side_circ_id s' ci)"
  by (simp add: side_circ_id_def set_side_def)

lemma circid_ok_relinked:
  assumes "circid_ok w" and "relinked w w'" and "w_circid_map w' = w_circid_map w"
    and "w_last_circid_ent w' = w_last_circid_ent w"
  shows "circid_ok w'"
proof -
  have "\<exists>k n p. w_circs w' d = put_circ k n p (w_circs w d)" for d
    using assms(2) unfolding relinked_def by blast
  then have "side_conn s (w_circs w' d) = side_conn s (w_circs w d)"
    "side_queue s (w_circs w' d) = side_queue s (w_circs w d)"
    "attached (w_circs w' d) k cid = attached (w_circs w d) k cid"
    "ci_origin (w_circs w' d) = ci_origin (w_circs w d)"
    "side_conn s (w_circs w d) = None \<Longrightarrow> side_idle s (w_circs w d) \<Longrightarrow> side_idle s (w_circs w' d)" for s d k cid
    by (metis put_circ_sides put_circ_sel(3) put_circ_idle)+
  with assms(1,3,4) show ?thesis by (simp add: circid_ok_def)
qed

text \<open>Putting the new ID on the side of a circuit and into the map.\<close>

lemma circid_ok_set_side:
  assumes ok: "circid_ok w" and s: "s \<or> \<not> ci_origin (w_circs w c)"
    and idle: "conn = None \<Longrightarrow> side_idle s (w_circs w c)"
    and gone: "\<And>k. side_conn s (w_circs w c) = Some k \<Longrightarrow> w_circid_map w (k, side_circ_id s (w_circs w c)) = None"
    and last: "\<And>k. conn = Some k \<Longrightarrow> w_last_circid_ent w \<noteq> Some (k, cid)"
    and w': "w_circs w' = w_circs (upd_circ c (set_side s conn cid) w)"
      "w_last_circid_ent w' = w_last_circid_ent w"
      "w_circid_map w' = (case conn of None \<Rightarrow> w_circid_map w | Some k \<Rightarrow> (w_circid_map w)((k, cid) \<mapsto> c))"
  shows "circid_ok w'"
proof -
  have "attached (w_circs w' d) k' i" if "w_circid_map w' (k', i) = Some d" for k' i d
  proof (cases "conn = Some k' \<and> i = cid \<and> d = c")
    case True
    then show ?thesis using s by (auto simp: attached_iff w'(1))
  next
    case False
    then have m: "w_circid_map w (k', i) = Some d" using that w'(3) by (auto split: option.splits if_splits)
    then have a: "attached (w_circs w d) k' i" using ok by (simp add: circid_ok_def)
    show ?thesis
    proof (cases "d = c")
      case True
      then obtain s' where s': "s' \<or> \<not> ci_origin (w_circs w c)" "side_conn s' (w_circs w c) = Some k'"
        "side_circ_id s' (w_circs w c) = i" using a by (auto simp: attached_iff)
      then have "s' \<noteq> s" using gone m by force
      with s' True show ?thesis by (auto simp: attached_iff w'(1))
    qed (use a w'(1) in simp)
  qed
  moreover have "w_circid_map w' x \<noteq> None" if "w_last_circid_ent w' = Some x" for x
    using ok that by (cases x) (auto simp: circid_ok_def w'(2,3) split: option.splits)
  moreover have "queue_ok (side_queue t (w_circs w' d)) \<and>
      (side_conn t (w_circs w' d) = None \<longrightarrow> side_idle t (w_circs w' d))"
    if "t \<or> \<not> ci_origin (w_circs w' d)" for t d
    using ok that idle by (auto simp: circid_ok_def w'(1) split: if_splits)
  ultimately show ?thesis unfolding circid_ok_def by blast
qed

definition new_circid_map ::
  "bool \<Rightarrow> circ_ref \<Rightarrow> u16 \<Rightarrow> conn_ref option \<Rightarrow> 'd world \<Rightarrow> (conn_ref \<times> u16 \<rightharpoonup> circ_ref)" where
  "new_circid_map s c cid conn w =
     (let circ = w_circs w c;
          m = (case side_conn s circ of None \<Rightarrow> w_circid_map w
               | Some k \<Rightarrow> (w_circid_map w)((k, side_circ_id s circ) := None))
      in if cid = side_circ_id s circ \<and> conn = side_conn s circ then w_circid_map w
         else case conn of None \<Rightarrow> m | Some k \<Rightarrow> m((k, cid) \<mapsto> c))"

text \<open>
  The rings of the connections when a side of circuit \<open>c\<close> moves to \<open>conn\<close>: it leaves the ring of the old
  connection, and joins that of the new one at the end if it has cells to send.
\<close>

definition left_rings :: "bool \<Rightarrow> circ_ref \<Rightarrow> conn_ref option \<Rightarrow> 'd world \<Rightarrow> (conn_ref \<Rightarrow> circ_ref list) \<Rightarrow> conn_ref \<Rightarrow> circ_ref list" where
  "left_rings s c conn w R k = (if side_conn s (w_circs w c) = Some k \<and> conn \<noteq> Some k then remove1 c (R k) else R k)"

definition moved_rings :: "bool \<Rightarrow> circ_ref \<Rightarrow> conn_ref option \<Rightarrow> 'd world \<Rightarrow> (conn_ref \<Rightarrow> circ_ref list) \<Rightarrow> conn_ref \<Rightarrow> circ_ref list" where
  "moved_rings s c conn w R k =
     (if side_conn s (w_circs w c) \<noteq> conn \<and> conn = Some k \<and> cq_n (side_queue s (w_circs w c)) > 0 then R k @ [c]
      else left_rings s c conn w R k)"

definition dir_of :: "bool \<Rightarrow> cell_direction" where
  "dir_of s = (if s then CELL_DIRECTION_OUT else CELL_DIRECTION_IN)"

lemma active_iff_queued:
  assumes "circuits_ok w R" and "side_conn s (w_circs w c) = Some k" and "s \<or> \<not> ci_origin (w_circs w c)"
  shows "(cq_n (side_queue s (w_circs w c)) \<noteq> 0) = (side_next s (w_circs w c) \<noteq> None)"
proof -
  have "c \<in> set (R k) \<longleftrightarrow> nextf w k c \<noteq> None"
    using circuits_ok_D(3) [OF assms(1), of k] by (auto simp: ring_on_def is_ring_def)
  moreover have "queue_ok (queue_on w k c)" using circuits_ok_D(5) [OF assms(1)] .
  ultimately show ?thesis
    using circuits_ok_D(4) [OF assms(1), of c k] side_links(2,3) [OF circuits_ok_D(2) [OF assms(1)] assms(2,3)]
    by (auto simp: side_next_def queue_ok_def)
qed

lemma leave_conn_ok:
  assumes ok: "circuits_ok w R" and ids: "circid_ok w" and s: "s \<or> \<not> ci_origin (w_circs w c)"
    and w2: "w_circs w2 = w_circs w" "\<And>k. oc_active_circuits (w_conns w2 k) = oc_active_circuits (w_conns w k)"
  shows "\<exists>w3. (case side_conn s (w_circs w c) of None \<Rightarrow> OK w2
      | Some k \<Rightarrow> if side_next s (w_circs w c) \<noteq> None \<and> side_conn s (w_circs w c) \<noteq> conn
                then make_circuit_inactive_on_conn c k w2 else OK w2) = OK w3 \<and>
    relinked w w3 \<and> w_circid_map w3 = w_circid_map w2 \<and> w_last_circid_ent w3 = w_last_circid_ent w2 \<and>
    (\<forall>k. ring_on w3 k (left_rings s c conn w R k)) \<and> two_sided w3 \<and>
    (if side_conn s (w_circs w c) = conn then w_circs w3 = w_circs w else side_idle s (w_circs w3 c))"
proof -
  let ?circ = "w_circs w c"
  have r2: "ring_on w2 k (R k)" for k
    using circuits_ok_D(3) [OF ok, of k] ring_on_cong [OF w2] by simp
  have t: "two_sided w" using circuits_ok_D(2) [OF ok] .
  then have t2: "two_sided w2" by (simp add: two_sided_def w2(1))
  have stay: ?thesis if "side_conn s ?circ \<noteq> None \<longrightarrow> side_next s ?circ = None \<or> side_conn s ?circ = conn"
  proof -
    have "side_idle s ?circ" if "side_conn s ?circ \<noteq> conn"
    proof (cases "side_conn s ?circ")
      case None
      with circid_ok_side(2) [OF ids s] show ?thesis .
    next
      case (Some k)
      then have "nextf w k c = None"
        using that \<open>_ \<longrightarrow> _\<close> side_links(2) [OF t Some s] by (simp add: side_next_def)
      then have "c \<notin> set (R k)" using circuits_ok_D(3) [OF ok, of k] by (simp add: ring_on_def is_ring_def)
      with ring_on_None [OF circuits_ok_D(3) [OF ok]] side_links(1) [OF t Some s] show ?thesis by blast
    qed
    moreover have "c \<notin> set (R k)" if k: "side_conn s ?circ = Some k" "conn \<noteq> Some k" for k
    proof -
      have "nextf w k c = None" using k \<open>_ \<longrightarrow> _\<close> side_links(2) [OF t k(1) s] by (simp add: side_next_def)
      then show ?thesis using circuits_ok_D(3) [OF ok, of k] by (simp add: ring_on_def is_ring_def)
    qed
    then have "left_rings s c conn w R = R" by (auto simp: fun_eq_iff left_rings_def remove1_idem)
    ultimately show ?thesis using that w2 r2 t2 relinked_refl [OF w2(1)]
      by (intro exI [of _ w2]) (auto split: option.splits)
  qed
  show ?thesis
  proof (cases "side_conn s ?circ \<noteq> None \<longrightarrow> side_next s ?circ = None \<or> side_conn s ?circ = conn")
    case False
    then obtain k where k: "side_conn s ?circ = Some k" "side_next s ?circ \<noteq> None" "side_conn s ?circ \<noteq> conn" by auto
    then obtain nx pv a where p: "make_circuit_inactive_on_conn c k w2 = OK (put_links k nx pv a w2)"
      "ring_on (put_links k nx pv a w2) k (remove1 c (R k))" "side_idle s (w_circs (put_links k nx pv a w2) c)"
      using leave_ring_ok [OF r2 _ _ t2, of s c k] s w2(1) by auto
    have "ring_on (put_links k nx pv a w2) k' (left_rings s c conn w R k')" for k'
      using p(2) r2 [of k'] ring_on_put_other [of k' k nx pv a w2] k(1,3) by (cases "k' = k") (auto simp: left_rings_def)
    with k p t2 relinked_put [OF w2(1)] show ?thesis
      by (intro exI [of _ "put_links k nx pv a w2"]) (auto simp: view_simps)
  qed (use stay in blast)
qed

lemma join_conn_ok:
  assumes "\<And>k. ring_on w k (Q k)" and "linked w k c" and "circid_ok w" and "b \<Longrightarrow> c \<notin> set (Q k)"
  shows "\<exists>w'. (if b then make_circuit_active_on_conn c k w else OK w) = OK w' \<and> relinked w w' \<and>
    w_circid_map w' = w_circid_map w \<and> w_last_circid_ent w' = w_last_circid_ent w \<and> circid_ok w' \<and>
    (if b then nextf w' k c \<noteq> None else w' = w) \<and> two_sided w' = two_sided w \<and>
    (\<forall>k'. ring_on w' k' (if b \<and> k' = k then Q k @ [c] else Q k'))"
proof (cases b)
  case True
  from make_active_ok [OF assms(1,2)] assms(4) [OF True] obtain nx pv a where
    p: "make_circuit_active_on_conn c k w = OK (put_links k nx pv a w)"
      "ring_on (put_links k nx pv a w) k (Q k @ [c])" by auto
  have rings: "ring_on (put_links k nx pv a w) k' (if b \<and> k' = k then Q k @ [c] else Q k')" for k'
    using p(2) assms(1) [of k'] ring_on_put_other [of k' k nx pv a w] True by auto
  have "c \<in> set (Q k @ [c])" by simp
  then have "nextf (put_links k nx pv a w) k c \<noteq> None"
    using p(2) next_in_iff unfolding ring_on_def is_ring_def by metis
  moreover have m: "w_circid_map (put_links k nx pv a w) = w_circid_map w"
    "w_last_circid_ent (put_links k nx pv a w) = w_last_circid_ent w" by (simp_all add: put_links_def)
  moreover have r: "relinked w (put_links k nx pv a w)" by (rule relinked_put) simp
  ultimately show ?thesis
    using True p(1) circid_ok_relinked [OF assms(3) r m] rings by (simp add: view_simps)
qed (use assms(1,3) relinked_refl in auto)

lemma ring_on_new_id:
  assumes "ring_on w k cs" and "side_conn s (w_circs w c) = conn"
  shows "ring_on (upd_circ c (set_side s conn cid) w) k cs"
proof -
  have "nextf (upd_circ c (set_side s conn cid) w) k = nextf w k"
    "prevf (upd_circ c (set_side s conn cid) w) k = prevf w k"
    using assms(2) by (auto simp: fun_eq_iff nextf_def prevf_def linked_def side_conn_def set_side_def)
  with assms(1) show ?thesis by (simp add: ring_on_def activef_def)
qed

lemma set_circid_helper_ok:
  assumes ok: "circuits_ok w R" and ids: "circid_ok w" and s: "s \<or> \<not> ci_origin (w_circs w c)"
    and other: "\<And>k. conn = Some k \<Longrightarrow> \<not> ci_origin (w_circs w c) \<Longrightarrow> side_conn (\<not> s) (w_circs w c) \<noteq> Some k"
  shows "\<exists>w'. circuit_set_circid_orconn_helper c (dir_of s) cid conn w = OK w' \<and> circid_ok w' \<and>
    w_circid_map w' = new_circid_map s c cid conn w \<and> (\<forall>k. ring_on w' k (moved_rings s c conn w R k)) \<and>
    (\<forall>d. ci_marked_for_close (w_circs w' d) = ci_marked_for_close (w_circs w d)) \<and>
    side_conn s (w_circs w' c) = conn \<and> side_circ_id s (w_circs w' c) = cid \<and>
    (conn \<noteq> None \<longrightarrow> (cq_n (side_queue s (w_circs w' c)) \<noteq> 0) = (side_next s (w_circs w' c) \<noteq> None))"
proof (cases "cid = side_circ_id s (w_circs w c) \<and> conn = side_conn s (w_circs w c)")
  case True
  moreover from this have "moved_rings s c conn w R = R" by (auto simp: fun_eq_iff moved_rings_def left_rings_def)
  ultimately show ?thesis using s ids active_iff_queued [OF ok _ s] circuits_ok_D(3) [OF ok]
    by (auto simp: circuit_set_circid_orconn_helper_def dir_of_def Let_def new_circid_map_def
        split: option.splits)
next
  case False
  let ?circ = "w_circs w c"
  let ?old = "side_conn s ?circ" and ?oid = "side_circ_id s ?circ"
  define w1 where "w1 = forget_ent conn cid (forget_ent ?old ?oid w)"
  have w1: "w_circs w1 = w_circs w" "w_conns w1 = w_conns w" "w_circid_map w1 = w_circid_map w"
    "\<And>k. ?old = Some k \<Longrightarrow> w_last_circid_ent w1 \<noteq> Some (k, ?oid)"
    "\<And>k. conn = Some k \<Longrightarrow> w_last_circid_ent w1 \<noteq> Some (k, cid)"
    "\<And>x. w_last_circid_ent w1 = Some x \<Longrightarrow> w_last_circid_ent w = Some x"
    by (auto simp: w1_def forget_ent_eq split: if_splits)
  define w2 where "w2 = (case ?old of None \<Rightarrow> w1
    | Some k \<Rightarrow> if w_circid_map w1 (k, ?oid) \<noteq> None
        then upd_conn k (\<lambda>oc. oc\<lparr>oc_n_circuits := oc_n_circuits oc - 1\<rparr>)
               (w1\<lparr>w_circid_map := (w_circid_map w1)((k, ?oid) := None)\<rparr>) else w1)"
  have w2: "w_circs w2 = w_circs w" "\<And>k. oc_active_circuits (w_conns w2 k) = oc_active_circuits (w_conns w k)"
    "w_last_circid_ent w2 = w_last_circid_ent w1"
    "w_circid_map w2 = (case ?old of None \<Rightarrow> w_circid_map w | Some k \<Rightarrow> (w_circid_map w)((k, ?oid) := None))"
    by (auto simp: w2_def w1 upd_conn_def fun_eq_iff split: option.splits)
  obtain w3 where w3: "(case ?old of None \<Rightarrow> OK w2
      | Some k \<Rightarrow> if side_next s ?circ \<noteq> None \<and> ?old \<noteq> conn then make_circuit_inactive_on_conn c k w2 else OK w2) = OK w3"
    "relinked w w3" "w_circid_map w3 = w_circid_map w2" "w_last_circid_ent w3 = w_last_circid_ent w2"
    "\<forall>k. ring_on w3 k (left_rings s c conn w R k)" "two_sided w3"
    "if ?old = conn then w_circs w3 = w_circs w else side_idle s (w_circs w3 c)"
    using leave_conn_ok [OF ok ids s w2(1,2), of conn] by blast
  have ok2: "circid_ok w2"
    using ids w1(4,6) w2(1,3,4) unfolding circid_ok_def by (auto split: option.splits)
  have r23: "relinked w2 w3" using w3(2) by (simp add: relinked_def w2(1))
  have ok3: "circid_ok w3" using circid_ok_relinked [OF ok2 r23 w3(3,4)] .
  obtain k0 n0 p0 where c3: "w_circs w3 c = put_circ k0 n0 p0 ?circ"
    using w3(2) unfolding relinked_def by blast
  have s3: "s \<or> \<not> ci_origin (w_circs w3 c)" using s by (simp add: c3)
  have id3: "side_circ_id s (w_circs w3 c) = ?oid" by (simp add: c3)
  have marked3: "ci_marked_for_close (w_circs w3 d) = ci_marked_for_close (w_circs w d)" for d
    using w3(2) put_circ_marked unfolding relinked_def by metis
  define w4 where "w4 = upd_circ c (set_side s conn cid) w3"
  define w5 where "w5 = (case conn of None \<Rightarrow> w4 | Some k \<Rightarrow> w4\<lparr>w_circid_map := (w_circid_map w4)((k, cid) \<mapsto> c)\<rparr>)"
  have w5: "w_circs w5 = w_circs w4" "w_conns w5 = w_conns w4" "w_last_circid_ent w5 = w_last_circid_ent w3"
    "w_circid_map w5 = (case conn of None \<Rightarrow> w_circid_map w3 | Some k \<Rightarrow> (w_circid_map w3)((k, cid) \<mapsto> c))"
    by (auto simp: w5_def w4_def upd_circ_def split: option.splits)
  have idle: "conn = None \<Longrightarrow> side_idle s (w_circs w3 c)"
    using w3(7) circid_ok_side(2) [OF ok3 s3] put_circ_sides(1) [of s k0 n0 p0 ?circ] c3
    by (auto split: if_splits)
  have ok5: "circid_ok w5"
  proof (rule circid_ok_set_side [OF ok3 s3 idle])
    show "w_circid_map w3 (k, side_circ_id s (w_circs w3 c)) = None" if "side_conn s (w_circs w3 c) = Some k" for k
      using that unfolding id3 by (simp add: c3 w3(3) w2(4))
    show "w_last_circid_ent w3 \<noteq> Some (k, cid)" if "conn = Some k" for k
      using w1(5) [OF that] by (simp add: w3(4) w2(3))
  qed (simp_all add: w5 w4_def)
  have new: "w_circid_map w5 = new_circid_map s c cid conn w"
    using False by (auto simp: w5(4) w3(3) w2(4) new_circid_map_def Let_def split: option.splits)
  have view4: "side_conn s (w_circs w4 c) = conn" "side_circ_id s (w_circs w4 c) = cid"
    "side_queue s (w_circs w4 c) = side_queue s ?circ" "side_next s (w_circs w4 c) = side_next s (w_circs w3 c)"
    "ci_marked_for_close (w_circs w4 d) = ci_marked_for_close (w_circs w d)" for d
    using marked3 by (auto simp: w4_def c3)
  have helper: "circuit_set_circid_orconn_helper c (dir_of s) cid conn w =
      (case conn of None \<Rightarrow> OK w4 | Some k \<Rightarrow>
        rbind (if cq_n (side_queue s ?circ) > 0 \<and> ?old \<noteq> conn then make_circuit_active_on_conn c k w5 else OK w5)
          (\<lambda>w6. OK (upd_conn k (\<lambda>oc. oc\<lparr>oc_n_circuits := oc_n_circuits oc + 1\<rparr>) w6)))"
  proof -
    have inner: "(case ?old of None \<Rightarrow> OK w1
        | Some k \<Rightarrow> (let v = (if w_circid_map w1 (k, ?oid) \<noteq> None
                             then upd_conn k (\<lambda>oc. oc\<lparr>oc_n_circuits := oc_n_circuits oc - 1\<rparr>)
                                    (w1\<lparr>w_circid_map := (w_circid_map w1)((k, ?oid) := None)\<rparr>) else w1)
            in if side_next s ?circ \<noteq> None \<and> ?old \<noteq> conn then make_circuit_inactive_on_conn c k v else OK v)) = OK w3"
      using w3(1) by (auto simp: w2_def Let_def split: option.splits if_splits)
    have dir: "(dir_of s = CELL_DIRECTION_OUT) = s" by (simp add: dir_of_def)
    have w5': "conn = Some k \<Longrightarrow> w5 = w4\<lparr>w_circid_map := (w_circid_map w4)((k, cid) \<mapsto> c)\<rparr>" for k
      by (simp add: w5_def)
    show ?thesis
      unfolding circuit_set_circid_orconn_helper_def Let_def dir w1_def [symmetric] inner [unfolded Let_def]
        tor_assert_holds [OF s] rbind.simps w4_def [symmetric] if_not_P [OF False]
      by (cases conn) (simp_all add: w5' [unfolded w4_def] w4_def)
  qed
  have rings: "ring_on w5 k' (left_rings s c conn w R k')" for k'
  proof -
    note cs = w3(5) [rule_format, of k']
    have "ring_on w4 k' (left_rings s c conn w R k')"
    proof (cases "?old = conn")
      case True
      with ring_on_new_id [OF cs, of s c conn] show ?thesis by (simp add: w4_def c3)
    next
      case False
      moreover have "s \<and> \<not> ci_origin (w_circs w3 c) \<and> conn = Some k' \<longrightarrow> ci_p_conn (w_circs w3 c) \<noteq> Some k'"
        using other by (auto simp: c3 side_conn_def)
      ultimately show ?thesis
        using ring_on_set_side [OF cs _ s3 w3(6)] w3(7) by (simp add: w4_def)
    qed
    then show ?thesis using ring_on_cong [OF w5(1)] w5(2) by metis
  qed
  show ?thesis
  proof (cases conn)
    case None
    then have "w5 = w4" by (simp add: w5_def)
    moreover have "moved_rings s c conn w R = left_rings s c conn w R" using None by (simp add: fun_eq_iff moved_rings_def)
    ultimately show ?thesis using None helper ok5 new view4 rings by simp
  next
    case (Some k)
    let ?b = "cq_n (side_queue s ?circ) > 0 \<and> ?old \<noteq> conn"
    have c5: "w_circs w5 = w_circs w4" using w5(1) .
    have s5: "s \<or> \<not> ci_origin (w_circs w5 c)" using s3 by (simp add: c5 w4_def)
    have conn5: "side_conn s (w_circs w5 c) = Some k" using view4(1) Some c5 by simp
    note linked5 = linked_side [OF conn5 s5]
    have fresh: "c \<notin> set (left_rings s c conn w R k)" if ?b
    proof -
      have "\<not> linked w k c" using that other [OF Some] Some s by (auto simp: linked_def side_conn_def split: if_splits)
      then show ?thesis using ring_on_linked [OF circuits_ok_D(3) [OF ok]] Some by (auto simp: left_rings_def)
    qed
    obtain w6 where w6: "(if ?b then make_circuit_active_on_conn c k w5 else OK w5) = OK w6"
      "relinked w5 w6" "w_circid_map w6 = w_circid_map w5" "circid_ok w6"
      "if ?b then nextf w6 k c \<noteq> None else w6 = w5" "two_sided w6 = two_sided w5"
      "\<forall>k'. ring_on w6 k' (if ?b \<and> k' = k then left_rings s c conn w R k @ [c] else left_rings s c conn w R k')"
      using join_conn_ok [OF rings linked5 ok5 fresh] by blast
    let ?w7 = "upd_conn k (\<lambda>oc. oc\<lparr>oc_n_circuits := oc_n_circuits oc + 1\<rparr>) w6"
    obtain k1 n1 p1 where c6: "w_circs w6 c = put_circ k1 n1 p1 (w_circs w5 c)"
      using w6(2) unfolding relinked_def by blast
    have marked6: "ci_marked_for_close (w_circs w6 d) = ci_marked_for_close (w_circs w d)" for d
      using w6(2) view4(5) c5 put_circ_marked unfolding relinked_def by metis
    have two5: "two_sided w5"
      using w3(6) other Some s3 by (auto simp: two_sided_def c5 w4_def set_side_def c3 side_conn_def)
    have active: "(cq_n (side_queue s ?circ) \<noteq> 0) = (side_next s (w_circs w6 c) \<noteq> None)"
    proof (cases ?b)
      case True
      have "side_conn s (w_circs w6 c) = Some k" "s \<or> \<not> ci_origin (w_circs w6 c)"
        using conn5 s5 by (simp_all add: c6)
      with True w6(5,6) two5 side_links(2) [of w6 s c k] show ?thesis by (simp add: side_next_def)
    next
      case False
      then have "w6 = w5" using w6(5) by simp
      moreover have "queue_ok (side_queue s ?circ)" using circid_ok_side(1) [OF ids s] .
      ultimately show ?thesis
        using False w3(7) active_iff_queued [OF ok _ s, of k] Some c5 view4(4)
        by (auto simp: queue_ok_def side_idle_def side_next_def split: if_splits)
    qed
    have "ring_on ?w7 k' (moved_rings s c conn w R k')" for k'
    proof -
      have "moved_rings s c conn w R k' = (if ?b \<and> k' = k then left_rings s c conn w R k @ [c] else left_rings s c conn w R k')"
        using Some by (auto simp: moved_rings_def left_rings_def)
      moreover have "ring_on ?w7 k' cs = ring_on w6 k' cs" for cs by (rule ring_on_cong) (simp_all add: upd_conn_def)
      ultimately show ?thesis using w6(7) by simp
    qed
    moreover have "circid_ok ?w7" by (rule circid_ok_relinked [OF w6(4) relinked_refl]) (simp_all add: upd_conn_def)
    moreover have "side_circ_id s (w_circs w6 c) = cid"
      using view4(2) c5 by (simp add: c6)
    ultimately show ?thesis
      using helper Some w6(1,3) new marked6 conn5 active view4(3) c5
      by (simp add: c6)
  qed
qed

lemma lookup_circid:
  assumes "circid_ok w"
  shows "\<exists>v. circuit_get_by_circid_orconn cid k w =
    OK (case w_circid_map w (k, cid) of None \<Rightarrow> None
        | Some c \<Rightarrow> if ci_marked_for_close (w_circs w c) then None else Some c, v) \<and> circid_ok v"
proof -
  have "w_last_circid_ent w = Some (k, cid) \<Longrightarrow> w_circid_map w (k, cid) \<noteq> None"
    using assms unfolding circid_ok_def by blast
  moreover have "circid_ok (w\<lparr>w_last_circid_ent := if w_circid_map w (k, cid) = None then None else Some (k, cid)\<rparr>)"
    using assms by (auto simp: circid_ok_def)
  ultimately show ?thesis
    using assms
    by (auto simp: circuit_get_by_circid_orconn_def circuit_get_by_circid_orconn_impl_def Let_def
        split: option.splits)
qed

lemma orcircuit_event_views:
  "circuits_ok (w\<lparr>w_events := ev\<rparr>) R = circuits_ok w R" "circid_ok (w\<lparr>w_events := ev\<rparr>) = circid_ok w"
  "new_circid_map s c cid conn (w\<lparr>w_events := ev\<rparr>) = new_circid_map s c cid conn w"
  using same_rings_ok(1) [of w "w\<lparr>w_events := ev\<rparr>" R]
  by (auto simp: same_rings_def circid_ok_def new_circid_map_def Let_def split: option.splits)

text \<open>
  C34: the map of circuit IDs.  Giving a circuit a new next connection and ID (or none), on a router whose
  rings and map are consistent, fails no assertion, keeps the map and its cache consistent, and
  changes exactly the old and the new entry.  When the connection changes, the circuit leaves the ring of
  active circuits of the old one and joins that of the new one at its end if it has cells queued; all
  rings stay properly linked and no other ring changes.  The lookup of any ID on any connection then
  returns the circuit of that entry unless it is marked for close, and never reads a freed entry.
\<close>

theorem circuit_ids_after_set:
  assumes "circuits_ok w R" and "circid_ok w"
    and "\<forall>k. conn = Some k \<and> \<not> ci_origin (w_circs w c) \<longrightarrow> ci_p_conn (w_circs w c) \<noteq> Some k"
  shows "\<exists>w'. circuit_set_n_circid_orconn c cid conn w = OK w' \<and> circid_ok w' \<and>
    ci_n_conn (w_circs w' c) = conn \<and> ci_n_circ_id (w_circs w' c) = cid \<and>
    (\<forall>k. ring_on w' k (moved_rings True c conn w R k)) \<and>
    (\<forall>i k. \<exists>v. circuit_get_by_circid_orconn i k w' =
      OK (case new_circid_map True c cid conn w (k, i) of None \<Rightarrow> None
          | Some d \<Rightarrow> if ci_marked_for_close (w_circs w d) then None else Some d, v) \<and> circid_ok v)"
proof -
  define w1 where "w1 = (if \<not> ci_origin (w_circs w c) \<and> ci_n_conn (w_circs w c) \<noteq> None
    then w\<lparr>w_events := w_events w @ [orcircuit_event ''STATUS'' CLOSED_text (w_circs w c) CELL_DIRECTION_OUT]\<rparr> else w)"
  have ok1: "circuits_ok w1 R" "circid_ok w1" "w_circs w1 = w_circs w"
    "new_circid_map True c cid conn w1 = new_circid_map True c cid conn w" "moved_rings True c conn w1 R = moved_rings True c conn w R"
    using assms(1,2) by (simp_all add: w1_def orcircuit_event_views fun_eq_iff moved_rings_def left_rings_def)
  obtain w' where w': "circuit_set_circid_orconn_helper c CELL_DIRECTION_OUT cid conn w1 = OK w'" "circid_ok w'"
    "w_circid_map w' = new_circid_map True c cid conn w"
    "\<forall>d. ci_marked_for_close (w_circs w' d) = ci_marked_for_close (w_circs w d)" "\<forall>k. ring_on w' k (moved_rings True c conn w R k)"
    "side_conn True (w_circs w' c) = conn" "side_circ_id True (w_circs w' c) = cid"
    "conn \<noteq> None \<longrightarrow> (cq_n (side_queue True (w_circs w' c)) \<noteq> 0) = (side_next True (w_circs w' c) \<noteq> None)"
    using set_circid_helper_ok [OF ok1(1,2), of True c conn cid] assms(3) ok1(3,4,5)
    by (auto simp: dir_of_def side_conn_def)
  have "circuit_set_n_circid_orconn c cid conn w = OK w'"
    using w'(1,8) by (auto simp: circuit_set_n_circid_orconn_def control_event_orcircuit_def w1_def
        side_queue_def side_next_def tor_assert_def)
  moreover have "ci_n_conn (w_circs w' c) = conn" "ci_n_circ_id (w_circs w' c) = cid"
    using w'(6,7) by (simp_all add: side_conn_def side_circ_id_def)
  moreover note lookup_circid [OF w'(2), unfolded w'(3) w'(4) [rule_format]]
  ultimately show ?thesis using w'(2,5) by blast
qed

lemma idle_world_circids: "circid_ok idle_world"
  by (simp add: circid_ok_def idle_world_def idle_circuit_def side_queue_def side_conn_def side_idle_def)

theorem circuit_ids_after_set_witness:
  "\<exists>w' v. circuit_set_n_circid_orconn 3 9 (Some 5) idle_world = OK w' \<and>
     circuit_get_by_circid_orconn 9 5 w' = OK (Some 3, v)"
proof -
  have "\<forall>k. Some (5::nat) = Some k \<and> \<not> ci_origin (w_circs idle_world 3) \<longrightarrow> ci_p_conn (w_circs idle_world 3) \<noteq> Some k"
    by (simp add: idle_world_def idle_circuit_def)
  from circuit_ids_after_set [OF idle_world_ok idle_world_circids this, of 9] obtain w' where
    w': "circuit_set_n_circid_orconn 3 9 (Some 5) idle_world = OK w'"
    "\<forall>i k. \<exists>v. circuit_get_by_circid_orconn i k w' =
      OK (case new_circid_map True 3 9 (Some 5) idle_world (k, i) of None \<Rightarrow> None
          | Some d \<Rightarrow> if ci_marked_for_close (w_circs idle_world d) then None else Some d, v) \<and> circid_ok v" by blast
  from w'(2) [rule_format, of 9 5] w'(1) show ?thesis
    by (auto simp: new_circid_map_def Let_def idle_world_def idle_circuit_def side_conn_def side_circ_id_def)
qed

end
