(* ===== verification/Frames.thy ===== *)
theory Frames
  imports CircuitList
begin

section \<open>What queueing and closing leave alone\<close>

text \<open>
  Relations between the world before and after an operation, stated once as interfaces: a relation that
  absorbs the elementary updates an operation is made of holds between the states before and after
  it.  Interpreted for the fields of streams and circuits that queueing cells does not touch, and
  for the links between the halves of a rendezvous, which closing does not touch.
\<close>

subsection \<open>Partial correctness of results\<close>

named_theorems after_intros \<open>rules for results that hold after an operation, if it returns\<close>

definition after :: "('a \<Rightarrow> bool) \<Rightarrow> 'a res \<Rightarrow> bool" where
  "after P r \<longleftrightarrow> (\<forall>x. r = OK x \<longrightarrow> P x)"

lemma afterD: "after P r \<Longrightarrow> r = OK x \<Longrightarrow> P x"
  by (simp add: after_def)

lemma after_OK [after_intros]: "P x \<Longrightarrow> after P (OK x)"
  by (simp add: after_def)

lemma after_Fault [after_intros]: "after P (Fault e)"
  by (simp add: after_def)

lemma after_bind: "after Q m \<Longrightarrow> (\<And>x. Q x \<Longrightarrow> after P (f x)) \<Longrightarrow> after P (rbind m f)"
  by (cases m) (simp_all add: after_def)

lemma after_bind_eq: "(\<And>x. m = OK x \<Longrightarrow> after P (f x)) \<Longrightarrow> after P (rbind m f)"
  by (cases m) (simp_all add: after_def)

lemma after_assert [after_intros]: "after P r \<Longrightarrow> after P (tor_assert b r)"
  by (simp add: after_def tor_assert_def)

lemma after_if [after_intros]: "after P r \<Longrightarrow> after P s \<Longrightarrow> after P (if b then r else s)"
  by simp

lemma after_option [after_intros]:
  "after P r \<Longrightarrow> (\<And>y. x = Some y \<Longrightarrow> after P (f y)) \<Longrightarrow> after P (case x of None \<Rightarrow> r | Some y \<Rightarrow> f y)"
  by (cases x) simp_all

lemma after_prod [after_intros]: "(\<And>a b. p = (a, b) \<Longrightarrow> after P (f a b)) \<Longrightarrow> after P (case p of (a, b) \<Rightarrow> f a b)"
  by (cases p) simp

lemma after_edge_type [after_intros]:
  "after P r \<Longrightarrow> after P s \<Longrightarrow> after P (case t of CONN_TYPE_AP \<Rightarrow> r | CONN_TYPE_EXIT \<Rightarrow> s)"
  by (cases t) simp_all

text \<open>Buffers are written and cleared with the chunk allocator of one build.\<close>

lemma chunk_free_build: "after (same_build st) (chunk_free st c)"
  by (auto simp: after_def chunk_free_def same_build_def Let_def res_simps split: option.splits)

lemma free_chunks_build: "after (same_build st) (free_chunks st cs)"
proof (induction cs arbitrary: st)
  case (Cons c cs)
  have "after (same_build st) (free_chunks st1 cs)" if "same_build st st1" for st1
    using Cons [of st1] that same_build_trans by (auto simp: after_def)
  then show ?case by (auto intro!: after_bind [OF chunk_free_build])
qed (simp add: after_def)

lemma buf_clear_build: "after (\<lambda>(st', _). same_build st st') (buf_clear st b)"
  unfolding buf_clear_def by (rule after_bind [OF free_chunks_build]) (simp add: after_def)

lemma chunk_new_build: "after (\<lambda>(st', _). same_build st st') (chunk_new_with_alloc_size st a)"
  by (auto simp: after_def chunk_new_with_alloc_size_def same_build_def Let_def res_simps split: option.splits)

lemma ensure_tail_room_build: "after (\<lambda>(st', _). same_build st st') (ensure_tail_room st b n)"
  unfolding ensure_tail_room_def buf_add_chunk_with_capacity_def Let_def
  by (intro after_intros after_bind [OF chunk_new_build]) (auto simp: after_def)

lemma write_loop_build: "after (\<lambda>(st', _). same_build st st') (write_loop st b str)"
proof (induction "length str" arbitrary: st b str rule: less_induct)
  case less
  have IH: "after (\<lambda>(st', _). same_build st st') (write_loop st1 b2 (drop n str))"
    if "same_build st st1" and "n \<noteq> 0" and "str \<noteq> []" for st1 b2 n
    using less [of "drop n str" st1 b2] that by (auto simp: after_def intro: same_build_trans)
  show ?case
  proof (cases "str = []")
    case False
    have "after (\<lambda>(st', _). same_build st st') (write_loop st1 b2 (drop (if length str < cap then length str else cap) str))"
      if "ensure_tail_room st b (length str) = OK (st1, b1)" "cap = CHUNK_REMAINING_CAPACITY (last (buf_chunks b1))"
      for st1 b1 b2 cap
      using ensure_tail_room_room(2) [OF that(1)] that False afterD [OF ensure_tail_room_build that(1)]
      by (intro IH) auto
    with False show ?thesis
      by (subst write_loop.simps) (auto intro!: after_bind_eq simp: Let_def)
  qed (simp add: write_loop.simps after_def)
qed

lemma write_to_buf_build: "after (\<lambda>(st', _). same_build st st') (write_to_buf st str b)"
  unfolding write_to_buf_def
  by (intro after_intros after_bind [OF write_loop_build]) (auto simp: after_def tor_assert_def)

subsection \<open>The interfaces\<close>

locale frame =
  fixes keeps :: "'d world \<Rightarrow> 'd world \<Rightarrow> bool"
  assumes refl: "keeps w w"
    and trans: "keeps u v \<Longrightarrow> keeps v w \<Longrightarrow> keeps u w"
    and conn: "(\<And>oc. oc_link_proto (f oc) = oc_link_proto oc) \<Longrightarrow> keeps w (upd_conn k f w)"
    and alloc: "same_build (w_alloc w) st \<Longrightarrow> keeps w (w\<lparr>w_alloc := st\<rparr>)"
    and cells: "keeps w (w\<lparr>w_total_cells_allocated := t\<rparr>)"
begin

lemma conn': "keeps u w \<Longrightarrow> (\<And>oc. oc_link_proto (f oc) = oc_link_proto oc) \<Longrightarrow> keeps u (upd_conn k f w)"
  using trans [OF _ conn] .

lemma alloc': "keeps u w \<Longrightarrow> same_build (w_alloc w) st \<Longrightarrow> keeps u (w\<lparr>w_alloc := st\<rparr>)"
  using trans [OF _ alloc] .

lemma cells': "keeps u w \<Longrightarrow> keeps u (w\<lparr>w_total_cells_allocated := t\<rparr>)"
  using trans [OF _ cells] .

lemma if_keeps: "keeps u v \<Longrightarrow> keeps u w \<Longrightarrow> keeps u (if b then v else w)"
  by simp

lemma bind: "after (keeps u) m \<Longrightarrow> (\<And>x. keeps u x \<Longrightarrow> after (keeps u) (f x)) \<Longrightarrow> after (keeps u) (rbind m f)"
  by (rule after_bind)

lemma bind_any: "(\<And>x. after P (f x)) \<Longrightarrow> after P (rbind m f)"
  by (rule after_bind [of "\<lambda>_. True"]) (simp_all add: after_def)

lemma close_immediate: "keeps u w \<Longrightarrow> after (keeps u) (connection_close_immediate k w)"
  unfolding connection_close_immediate_def
  by (intro after_intros after_bind [OF buf_clear_build] conn' alloc') simp_all

lemma write_to_buf:
  assumes hw: "\<forall>k w. keeps w (fst (hw k w))" and u: "keeps u w"
  shows "after (keeps u) (connection_write_to_buf hw string k w)"
proof -
  have socket: "keeps u w3" if "hw k v = (w3, failed)" and "keeps u v" for v w3 failed
    using that hw trans by (metis fst_conv)
  show ?thesis using u
    unfolding connection_write_to_buf_def Let_def
    by (intro after_intros after_bind [OF write_to_buf_build] close_immediate)
      (auto elim!: socket intro!: conn' alloc')
qed

lemma write_cell:
  assumes "\<forall>k w. keeps w (fst (hw k w))" and "keeps u w"
  shows "after (keeps u) (connection_or_write_cell_to_buf hw cell k w)"
  unfolding connection_or_write_cell_to_buf_def
  by (intro after_intros bind write_to_buf if_keeps assms conn') simp_all

lemma send_destroy:
  "\<forall>k w. keeps w (fst (hw k w)) \<Longrightarrow> keeps u w \<Longrightarrow> after (keeps u) (connection_or_send_destroy hw cid k reason w)"
  unfolding connection_or_send_destroy_def by (rule write_cell)

end

text \<open>Operations on the rings and queues of circuits and on the blocking of streams.\<close>

definition mask_circ :: "'d circuit \<Rightarrow> 'd circuit" where
  "mask_circ ci = ci\<lparr>ci_n_conn_cells := empty_queue, ci_p_conn_cells := empty_queue,
     ci_next_active_on_n_conn := None, ci_prev_active_on_n_conn := None,
     ci_next_active_on_p_conn := None, ci_prev_active_on_p_conn := None,
     ci_streams_blocked_on_n_conn := False, ci_streams_blocked_on_p_conn := False\<rparr>"

definition mask_edge :: "edge_conn \<Rightarrow> edge_conn" where
  "mask_edge ec = ec\<lparr>cn_reading := False, ec_edge_blocked_on_circ := False\<rparr>"

locale ring_frame = frame keeps for keeps :: "'d world \<Rightarrow> 'd world \<Rightarrow> bool" +
  assumes ring: "(\<And>ci. mask_circ (f ci) = mask_circ ci) \<Longrightarrow> keeps w (upd_circ c f w)"
    and block: "(\<And>ec. mask_edge (g ec) = mask_edge ec) \<Longrightarrow> keeps w (upd_edge e g w)"
begin

lemma ring': "keeps u w \<Longrightarrow> (\<And>ci. mask_circ (f ci) = mask_circ ci) \<Longrightarrow> keeps u (upd_circ c f w)"
  using trans [OF _ ring] .

lemma block': "keeps u w \<Longrightarrow> (\<And>ec. mask_edge (g ec) = mask_edge ec) \<Longrightarrow> keeps u (upd_edge e g w)"
  using trans [OF _ block] .

lemma set_next: "keeps u w \<Longrightarrow> after (keeps u) (set_next_circ_on_conn circ k v w)"
  unfolding set_next_circ_on_conn_def circ_side_def
  by (intro after_intros ring') (simp_all add: mask_circ_def)

lemma set_prev: "keeps u w \<Longrightarrow> after (keeps u) (set_prev_circ_on_conn circ k v w)"
  unfolding set_prev_circ_on_conn_def circ_side_def
  by (intro after_intros ring') (simp_all add: mask_circ_def)

text \<open>A result that is not a world is only passed on.\<close>

lemma bind_next: "(\<And>x. after P (f x)) \<Longrightarrow> after P (rbind (next_circ_on_conn circ k w) f)"
  by (rule bind_any)

lemma bind_prev: "(\<And>x. after P (f x)) \<Longrightarrow> after P (rbind (prev_circ_on_conn circ k w) f)"
  by (rule bind_any)

lemma make_active: "keeps u w \<Longrightarrow> after (keeps u) (make_circuit_active_on_conn c k w)"
  unfolding make_circuit_active_on_conn_def Let_def
  by (intro after_intros bind_next bind_prev bind [OF set_next] bind [OF set_prev] set_prev conn') simp_all

lemma make_inactive: "keeps u w \<Longrightarrow> after (keeps u) (make_circuit_inactive_on_conn c k w)"
  unfolding make_circuit_inactive_on_conn_def Let_def
  by (intro after_intros bind_next bind_prev bind [OF set_next] bind [OF set_prev] bind [OF after_if] set_prev
      if_keeps conn') simp_all

lemma block_one: "keeps u w \<Longrightarrow> keeps u (block_edge b w e)"
  unfolding block_edge_def Let_def
  by (intro if_keeps block') (simp_all add: mask_edge_def)

lemma block_all: "keeps u w \<Longrightarrow> keeps u (foldl (block_edge b) w es)"
  by (induction es arbitrary: w) (simp_all add: block_one)

lemma set_streams_blocked: "keeps u w \<Longrightarrow> after (keeps u) (set_streams_blocked_on_circ c k b w)"
  unfolding set_streams_blocked_on_circ_def Let_def
  by (intro after_intros block_all ring') (simp_all add: mask_circ_def)

lemma queue: "keeps u w \<Longrightarrow> keeps u (set_circ_queue n_side c q w)"
  unfolding set_circ_queue_def by (rule ring') (simp_all add: mask_circ_def)

lemma free_cell: "keeps u w \<Longrightarrow> keeps u (packed_cell_free w)"
  unfolding packed_cell_free_def by (rule cells')

lemma flush_cells:
  assumes "\<forall>k w. keeps w (fst (hw k w))"
  shows "keeps u w \<Longrightarrow> after (\<lambda>r. keeps u (fst r)) (flush_loop hw n_side c k n w)"
proof (induction n arbitrary: w)
  case (Suc n)
  have IH: "keeps u v \<Longrightarrow> after P (rbind (flush_loop hw n_side c k n v) f)"
    if "\<And>x. keeps u (fst x) \<Longrightarrow> after P (f x)" for P and f :: "_ \<Rightarrow> 'b res" and v
    using after_bind [OF Suc.IH] that by blast
  show ?case
    unfolding flush_loop.simps Let_def using Suc.prems
    by (intro after_intros bind_next bind_any after_bind [OF write_to_buf [OF assms]] IH queue free_cell)
      (auto intro!: after_intros free_cell)
qed (simp add: after_def)

lemma flush_first:
  assumes "\<forall>k w. keeps w (fst (hw k w))" and "keeps u w"
  shows "after (\<lambda>r. keeps u (fst r)) (connection_or_flush_from_first_active_circuit hw k n now w)"
  unfolding connection_or_flush_from_first_active_circuit_def Let_def
  by (intro after_intros bind_next after_bind [OF flush_cells [OF assms]] after_bind [OF after_if]
      after_bind [of "keeps u", OF after_if] after_bind [of "keeps u", OF set_streams_blocked] make_inactive)
    (auto intro!: after_intros bind_next bind set_streams_blocked make_inactive conn' simp: assms(2))

lemma append_cell:
  assumes "\<forall>k w. keeps w (fst (hw k w))" and "keeps u w"
  shows "after (keeps u) (append_cell_to_circuit_queue hw c k cell dir w)"
  unfolding append_cell_to_circuit_queue_def Let_def packed_cell_copy_def prod.case
  by (intro after_intros bind after_bind [OF flush_first [OF assms(1)]] set_streams_blocked make_active queue cells' assms(2))
    (auto intro!: after_intros)

end

subsection \<open>Queueing cells leaves the streams alone\<close>

definition same_streams :: "'d world \<Rightarrow> 'd world \<Rightarrow> bool" where
  "same_streams w w' \<longleftrightarrow> (\<forall>c. mask_circ (w_circs w' c) = mask_circ (w_circs w c)) \<and>
     (\<forall>e. mask_edge (w_edges w' e) = mask_edge (w_edges w e)) \<and>
     (\<forall>k. oc_link_proto (w_conns w' k) = oc_link_proto (w_conns w k)) \<and>
     w_now w' = w_now w \<and> w_CloseUnpaid w' = w_CloseUnpaid w \<and> w_closeable w' = w_closeable w \<and>
     w_events w' = w_events w \<and> w_circid_map w' = w_circid_map w \<and> w_last_circid_ent w' = w_last_circid_ent w \<and>
     same_build (w_alloc w) (w_alloc w')"

interpretation streams: ring_frame same_streams
  by unfold_locales
    (auto simp: same_streams_def upd_conn_def upd_circ_def upd_edge_def intro: same_build_trans)

subsection \<open>Closing streams and circuits\<close>

text \<open>
  What the calls out of the modelled code do is up to the environment; here, that those made
  while closing a circuit of a relay keep the relation: writing to a socket, and answering a SOCKS client.
  A circuit of our own is different, since \<^verbatim>\<open>circuit_build_failed\<close> may launch another one.
\<close>

definition env_keeps :: "('d world \<Rightarrow> 'd world \<Rightarrow> bool) \<Rightarrow> 'd relay_env \<Rightarrow> bool" where
  "env_keeps keeps env \<longleftrightarrow> (\<forall>k w. keeps w (fst (en_hw env k w))) \<and>
     (\<forall>e x w. after (keeps w) (en_socks_reply env e x w)) \<and>
     (\<forall>e x n y z w. after (keeps w) (en_socks_resolved env e x n y z w))"

locale close_frame = frame keeps for keeps :: "'d world \<Rightarrow> 'd world \<Rightarrow> bool" +
  assumes edge: "keeps w (upd_edge e g w)"
    and events: "keeps w (w\<lparr>w_events := ev\<rparr>)"
    and closeable: "keeps w (w\<lparr>w_closeable := cl\<rparr>)"
    and onions: "keeps w (w\<lparr>w_onion_queue := ts, w_onion_length := n\<rparr>)"
    and pending: "keeps w (w\<lparr>w_pending_or_conns := cs\<rparr>)"
    and resolving: "keeps w (upd_circ c (\<lambda>ci. ci\<lparr>ci_resolving_streams := es\<rparr>) w)"
begin

lemma edge': "keeps u w \<Longrightarrow> keeps u (upd_edge e g w)"
  using trans [OF _ edge] .

lemma events': "keeps u w \<Longrightarrow> keeps u (w\<lparr>w_events := ev\<rparr>)"
  using trans [OF _ events] .

lemma closeable': "keeps u w \<Longrightarrow> keeps u (w\<lparr>w_closeable := cl\<rparr>)"
  using trans [OF _ closeable] .

lemma onion_remove: "keeps u w \<Longrightarrow> keeps u (onion_pending_remove c w)"
  using trans [OF _ onions] by (simp add: onion_pending_remove_def split: option.split)

lemma pending_remove: "keeps u w \<Longrightarrow> keeps u (pending_or_conns_remove c w)"
  unfolding pending_or_conns_remove_def using trans [OF _ pending] .

lemma resolving': "keeps u w \<Longrightarrow> keeps u (upd_circ c (\<lambda>ci. ci\<lparr>ci_resolving_streams := es\<rparr>) w)"
  using trans [OF _ resolving] .

lemma after_step: "after (keeps w) r \<Longrightarrow> keeps u w \<Longrightarrow> after (keeps u) r"
  unfolding after_def using trans by blast

lemma env_steps:
  assumes "env_keeps keeps env" and "keeps u w"
  shows "after (keeps u) (en_socks_reply env e x w)" "after (keeps u) (en_socks_resolved env e y n bs z w)"
  using assms after_step unfolding env_keeps_def by blast+

lemma env_writer: "env_keeps keeps env \<Longrightarrow> \<forall>k w. keeps w (fst (en_hw env k w))"
  by (simp add: env_keeps_def)

lemma mark_stream: "keeps u w \<Longrightarrow> after (keeps u) (connection_mark_for_close e w)"
  unfolding connection_mark_for_close_def by (intro after_intros edge' closeable')

lemma mark_unattached:
  assumes "env_keeps keeps env" and "keeps u w"
  shows "after (keeps u) (connection_mark_unattached_ap env e r w)"
  unfolding connection_mark_unattached_ap_def Let_def
  by (intro after_intros bind mark_stream edge' env_steps assms) assumption+

lemma edge_destroy:
  assumes "env_keeps keeps env" and "keeps u w"
  shows "after (keeps u) (connection_edge_destroy env e w)"
  unfolding connection_edge_destroy_def Let_def
  by (intro after_intros bind mark_unattached mark_stream edge' events' assms) assumption+

lemma destroy_all: "env_keeps keeps env \<Longrightarrow> keeps u w \<Longrightarrow> after (keeps u) (destroy_streams env es w)"
  by (induction es arbitrary: w) (auto intro!: after_intros bind edge_destroy)

lemma end_resolving: "keeps u w \<Longrightarrow> after (keeps u) (end_resolving_stream e w)"
  unfolding end_resolving_stream_def by (intro after_intros bind mark_stream edge')

lemma end_resolving_all: "keeps u w \<Longrightarrow> after (keeps u) (end_resolving_streams c es w)"
  by (induction es arbitrary: w) (auto intro!: after_intros bind end_resolving resolving')

lemma close_circuit_keeps:
  assumes "env_keeps keeps env" and "keeps u w" and "\<not> ci_origin (w_circs w c)"
  shows "after (\<lambda>w'. \<exists>v. keeps u v \<and> w' = upd_circ c (\<lambda>ci. ci\<lparr>ci_marked_for_close := True\<rparr>) v)
    (close_circuit env c orig r w)"
proof -
  note send = send_destroy [OF env_writer [OF assms(1)]]
  note steps = env_steps [OF assms(1)] destroy_all [OF assms(1)]
  have u: "after P (rbind m f)" if "after (keeps u) m" "\<And>x. keeps u x \<Longrightarrow> after P (f x)"
    for P :: "'d world \<Rightarrow> bool" and m f using that by (rule after_bind)
  have no: "tor_assert False r = Fault Assert_Fail" for r :: "'d world res" by (simp add: tor_assert_def)
  have t: "after P (tor_assert True r)" if "after P r" for P and r :: "'d world res" using that by (rule after_assert)
  show ?thesis
    unfolding close_circuit_def Let_def
    by (simp only: assms(3) simp_thms if_False if_True no)
      (intro u after_intros t steps end_resolving_all send assms(2) if_keeps events' onion_remove pending_remove; blast)
qed

end

definition same_splices :: "'d world \<Rightarrow> 'd world \<Rightarrow> bool" where
  "same_splices w w' \<longleftrightarrow> (\<forall>d. ci_rend_splice (w_circs w' d) = ci_rend_splice (w_circs w d) \<and>
     ci_marked_for_close (w_circs w' d) = ci_marked_for_close (w_circs w d) \<and>
     ci_purpose (w_circs w' d) = ci_purpose (w_circs w d) \<and> ci_origin (w_circs w' d) = ci_origin (w_circs w d))"

interpretation splices: close_frame same_splices
  by unfold_locales (auto simp: same_splices_def upd_conn_def upd_circ_def upd_edge_def)

lemma assert_id_maps_to_circs: "assert_id_maps_to c conn cid w = OK w' \<Longrightarrow> w_circs w' = w_circs w"
  by (auto simp: assert_id_maps_to_def circuit_get_by_circid_orconn_impl_def res_simps Let_def
      split: option.splits if_splits)

lemma assert_circuit_ok_D:
  assumes "assert_circuit_ok c w = OK w'"
  shows "w_circs w' = w_circs w"
    and "ci_rend_splice (w_circs w c) = Some s \<Longrightarrow> \<not> ci_origin (w_circs w c) \<Longrightarrow>
      \<not> ci_marked_for_close (w_circs w c) \<Longrightarrow> s \<noteq> c \<and> ci_rend_splice (w_circs w s) = Some c"
  using assms unfolding assert_circuit_ok_def Let_def
  by (auto simp: res_simps split: if_splits option.splits dest!: assert_id_maps_to_circs)

text \<open>One circuit that is not marked yet: the check, the closing, the mark.\<close>

lemma mark_one:
  assumes "env_keeps same_splices env" and "\<not> ci_marked_for_close (w_circs w c)" and or: "\<not> ci_origin (w_circs w c)"
  obtains (fault) e where "mark_circuits env c reason w = Some (Fault e)"
    | (alone) w1 v where "mark_circuits env c reason w = Some (OK w1)"
        "w1 = upd_circ c (\<lambda>ci. ci\<lparr>ci_marked_for_close := True\<rparr>) v" "same_splices w v"
        "ci_rend_splice (w_circs w c) = None"
    | (spliced) w1 v s r where
        "mark_circuits env c reason w =
          Option.bind (if ci_marked_for_close (w_circs w1 s) then Some (OK w1) else mark_circuits env s r w1)
            (\<lambda>res. Some (rbind res (\<lambda>w2. OK (upd_circ c (\<lambda>ci. ci\<lparr>ci_rend_splice := None\<rparr>) w2))))"
        "w1 = upd_circ c (\<lambda>ci. ci\<lparr>ci_marked_for_close := True\<rparr>) v" "same_splices w v"
        "ci_rend_splice (w_circs w c) = Some s" "s \<noteq> c"
        "ci_rend_splice (w_circs w s) = Some c"
proof (cases "assert_circuit_ok c w")
  case (Fault e)
  then show ?thesis using fault [of e] by (simp add: mark_circuits.simps)
next
  case (OK w0)
  note D = assert_circuit_ok_D [OF OK]
  let ?r = "destroy_reason (ci_origin (w_circs w0 c)) reason"
  have u: "same_splices w w0" by (simp add: same_splices_def D(1))
  show ?thesis
  proof (cases "close_circuit env c reason ?r w0")
    case (Fault e)
    with OK assms(2) D(1) show ?thesis using fault [of e] by (simp add: mark_circuits.simps Let_def)
  next
    case 1: (OK w1)
    have or0: "\<not> ci_origin (w_circs w0 c)" using D(1) or by simp
    from afterD [OF splices.close_circuit_keeps [OF assms(1) u or0] 1] obtain v where
      v: "same_splices w v" "w1 = upd_circ c (\<lambda>ci. ci\<lparr>ci_marked_for_close := True\<rparr>) v" by blast
    have c1: "ci_origin (w_circs w1 c) = ci_origin (w_circs w c)" "ci_rend_splice (w_circs w1 c) = ci_rend_splice (w_circs w c)"
      using v by (simp_all add: same_splices_def)
    show ?thesis
    proof (cases "ci_rend_splice (w_circs w c)")
      case None
      with OK 1 assms(2) D(1) c1 have "mark_circuits env c reason w = Some (OK w1)"
        by (auto simp: mark_circuits.simps Let_def)
      from alone [OF this v(2,1) None] show ?thesis .
    next
      case s: (Some s)
      have "mark_circuits env c reason w =
          Option.bind (if ci_marked_for_close (w_circs w1 s) then Some (OK w1) else mark_circuits env s ?r w1)
            (\<lambda>res. Some (rbind res (\<lambda>w2. OK (upd_circ c (\<lambda>ci. ci\<lparr>ci_rend_splice := None\<rparr>) w2))))"
        using OK 1 assms(2) D(1) c1 s or by (subst mark_circuits.simps) (simp add: Let_def)
      from spliced [OF this v(2,1) s] D(2) [OF s or assms(2)] show ?thesis by blast
    qed
  qed
qed

text \<open>
  The circuits marked by closing \<open>c\<close> of a relay: itself and, at a rendezvous point, the other half, which
  is a circuit of the relay as well (a pointer to one in the source).
\<close>

definition or_circuits :: "'d world \<Rightarrow> circ_ref \<Rightarrow> bool" where
  "or_circuits w c \<longleftrightarrow> \<not> ci_origin (w_circs w c) \<and>
     (case ci_rend_splice (w_circs w c) of None \<Rightarrow> True | Some s \<Rightarrow> \<not> ci_origin (w_circs w s))"

definition closes_with :: "'d world \<Rightarrow> circ_ref \<Rightarrow> circ_ref set" where
  "closes_with w c = {c} \<union> (if ci_marked_for_close (w_circs w c) then {}
     else set_option (ci_rend_splice (w_circs w c)))"

lemma mark_circuits_returns:
  assumes "env_keeps same_splices env" and or: "or_circuits w c"
  shows "\<exists>r. mark_circuits env c reason w = Some r \<and> after (\<lambda>w'. \<forall>d. ci_marked_for_close (w_circs w' d) =
     (ci_marked_for_close (w_circs w d) \<or> d \<in> closes_with w c)) r"
proof (cases "ci_marked_for_close (w_circs w c)")
  case True
  show ?thesis
  proof (cases "assert_circuit_ok c w")
    case (OK w0)
    with True assert_circuit_ok_D(1) [OF OK] show ?thesis
      by (auto simp: mark_circuits.simps closes_with_def after_def)
  qed (simp add: mark_circuits.simps after_def)
next
  case c: False
  show ?thesis
  proof (cases rule: mark_one [OF assms(1) c, of reason, case_names or fault alone spliced])
    case or
    then show ?case using assms(2) by (simp add: or_circuits_def)
  next
    case (fault e)
    then show ?thesis by (simp add: after_def)
  next
    case (alone w1 v)
    have "ci_marked_for_close (w_circs w1 d) = (ci_marked_for_close (w_circs w d) \<or> d = c)" for d
      using alone(2,3) by (auto simp: same_splices_def)
    moreover have "closes_with w c = {c}" using alone(4) by (auto simp: closes_with_def)
    ultimately show ?thesis using alone(1) by (simp add: after_def)
  next
    case (spliced w1 v s r)
    have w1: "ci_marked_for_close (w_circs w1 d) = (ci_marked_for_close (w_circs w d) \<or> d = c)"
      "ci_rend_splice (w_circs w1 d) = ci_rend_splice (w_circs w d)" for d
      using spliced(2,3) by (auto simp: same_splices_def)
    have cl: "closes_with w c = {c, s}" using spliced(4) c by (auto simp: closes_with_def)
    show ?thesis
    proof (cases "ci_marked_for_close (w_circs w1 s)")
      case True
      with spliced(1) w1(1) show ?thesis by (auto simp: after_def cl)
    next
      case s: False
      show ?thesis
      proof (cases rule: mark_one [OF assms(1) s, of r, case_names or fault alone spliced])
        case or
        show ?case using assms(2) spliced(2-4) by (auto simp: or_circuits_def same_splices_def)
      next
        case (fault e)
        with spliced(1) s show ?thesis by (simp add: after_def)
      next
        case (alone w2 v2)
        have "ci_marked_for_close (w_circs w2 d) = (ci_marked_for_close (w_circs w d) \<or> d = c \<or> d = s)" for d
          using alone(2,3) w1(1) by (auto simp: same_splices_def)
        with spliced(1) s alone(1) show ?thesis by (auto simp: after_def cl)
      next
        case 2: (spliced w2 v2 s2 r2)
        have "s2 = c" using 2(4) w1(2) [of s] spliced(6) by simp
        moreover have w2: "ci_marked_for_close (w_circs w2 d) = (ci_marked_for_close (w_circs w d) \<or> d = c \<or> d = s)" for d
          using 2(2,3) w1(1) by (auto simp: same_splices_def)
        ultimately have "mark_circuits env s r w1 = Some (OK (upd_circ s (\<lambda>ci. ci\<lparr>ci_rend_splice := None\<rparr>) w2))"
          using 2(1) by simp
        with spliced(1) s w2 show ?thesis by (auto simp: after_def cl)
      qed
    qed
  qed
qed

text \<open>An environment whose calls do nothing, for the witnesses.\<close>

definition idle_env :: "unit relay_env" where
  "idle_env = \<lparr>en_ops = \<lparr>dg_new = (), dg_add = (\<lambda>d _. d), dg_get = (\<lambda>_ n. replicate n 1)\<rparr>, en_hw = (\<lambda>_ w. (w, False)),
     en_circuit_build_failed = (\<lambda>_. OK),
     en_remove_intro_point = (\<lambda>_. OK), en_socks_reply = (\<lambda>_ _. OK), en_socks_resolved = (\<lambda>_ _ _ _ _. OK),
     en_exit_begin_conn = (\<lambda>_ _ w. OK (w, 0)), en_exit_begin_resolve = (\<lambda>_ _. OK),
     en_rend_process_relay_cell = (\<lambda>_ _ _ _. OK), en_ap_process_end_not_open = (\<lambda>_ _ _ _ w. OK (w, 0)),
     en_client_dns_set_addressmap = (\<lambda>_ _ _. OK), en_bootstrap_event = (\<lambda>_. OK), en_ClientDNSRejectInternalAddresses = True, en_evp_encode = (\<lambda>_. []),
     en_process_netinfo_cell = (\<lambda>_ _. OK), en_crypto_digest = (\<lambda>_. replicate 20 1), en_crypto_rand = (\<lambda>n _. Some (replicate n 1)),
     en_onion_skin_create = (\<lambda>_ _ _. None), en_dh_compute_secret = (\<lambda>_ _ _. None), en_should_use_create_fast = (\<lambda>_ _. True),
     en_control_event_bootstrap = (\<lambda>_. OK), en_circuit_has_opened = (\<lambda>_. OK), en_server_mode = True, en_we_are_hibernating = False,
     en_MaxOnionsPending = 100, en_get_for_extend = (\<lambda>_ _ _. (None, False)), en_or_connect = (\<lambda>_ _ _ w. OK (w, None)),
     en_new_circuit = (\<lambda>_. 9), en_assign_onionskin = (\<lambda>_ _ w. OK (w, 0)), en_orport_reachable = (\<lambda>_. OK)\<rparr>"

lemma idle_env_splices: "env_keeps same_splices idle_env"
  by (simp add: env_keeps_def idle_env_def after_def splices.refl)

end
