(* ===== verification/RelaySend.thy ===== *)
theory RelaySend
  imports Frames
begin

section \<open>Sending relay cells (relay.c, connection\_edge.c)\<close>

text \<open>
  From a stream to the queue of its circuit: relay cells are built, paid for, wrapped and queued; data is
  packaged from the input buffer of a stream as far as the windows allow; and acknowledgements
  (SENDME cells) are sent when a deliver window runs low.
\<close>

definition RELAY_COMMAND_DATA :: byte where "RELAY_COMMAND_DATA = 2"
definition RELAY_COMMAND_END :: byte where "RELAY_COMMAND_END = 3"
definition RELAY_COMMAND_SENDME :: byte where "RELAY_COMMAND_SENDME = 5"
definition RELAY_COMMAND_EXTEND :: byte where "RELAY_COMMAND_EXTEND = 6"
definition RELAY_COMMAND_MESSAGE :: byte where "RELAY_COMMAND_MESSAGE = 18"

definition CIRCWINDOW_START :: int where "CIRCWINDOW_START = 1000"
definition CIRCWINDOW_INCREMENT :: int where "CIRCWINDOW_INCREMENT = 100"
definition STREAMWINDOW_START :: int where "STREAMWINDOW_START = 500"
definition STREAMWINDOW_INCREMENT :: int where "STREAMWINDOW_INCREMENT = 50"
definition MAX_RELAY_EARLY_CELLS_PER_CIRCUIT :: nat where "MAX_RELAY_EARLY_CELLS_PER_CIRCUIT = 8"

lemmas windows = CIRCWINDOW_START_def CIRCWINDOW_INCREMENT_def STREAMWINDOW_START_def STREAMWINDOW_INCREMENT_def

subsection \<open>The model\<close>

text \<open>
  \<^verbatim>\<open>circuit_package_relay_cell\<close>.  A hop of the circuit is its index on the crypt path.  On an OR circuit
  that has lost its previous connection the queueing fails on the NULL connection: in making the
  circuit active if the queue was empty, else in looking at the output buffer.
\<close>

definition circuit_package_relay_cell ::
  "'d relay_env \<Rightarrow> cell \<Rightarrow> circ_ref \<Rightarrow> cell_direction \<Rightarrow> nat option \<Rightarrow> 'd world \<Rightarrow> ('d world \<times> int) res" where
  "circuit_package_relay_cell env cell c direction layer_hint w =
     (let circ = w_circs w c; relayed = (\<lambda>v. v\<lparr>w_relay_cells_relayed := w_relay_cells_relayed v + 1\<rparr>) in
      case direction of
        CELL_DIRECTION_OUT \<Rightarrow>
          (case ci_n_conn circ of
             None \<Rightarrow> OK (w, 0)
           | Some k \<Rightarrow>
               if \<not> ci_origin circ then OK (w, 0)
               else case layer_hint of
                 None \<Rightarrow> Fault Mem_Fault
               | Some layer \<Rightarrow>
                   rbind (package_out (en_ops env) circ cell layer) (\<lambda>(circ', cell').
                   rbind (append_cell_to_circuit_queue (en_hw env) c k cell' direction
                            (relayed (upd_circ c (\<lambda>_. circ') w))) (\<lambda>w'. OK (w', 0))))
      | CELL_DIRECTION_IN \<Rightarrow>
          if ci_origin circ then rbind (assert_circuit_ok c w) (\<lambda>w'. OK (w', 0))
          else rbind (package_in (en_ops env) circ cell) (\<lambda>(circ', cell').
            case ci_p_conn circ of
              None \<Rightarrow> Fault (if cq_n (ci_p_conn_cells circ) = 0 then Assert_Fail else Mem_Fault)
            | Some k \<Rightarrow>
                rbind (append_cell_to_circuit_queue (en_hw env) c k cell' direction
                         (relayed (upd_circ c (\<lambda>_. circ') w))) (\<lambda>w'. OK (w', 0))))"

text \<open>The fee of one cell, when the router closes circuits that are not paid for.\<close>

definition pay_for_cell :: "cell_direction \<Rightarrow> circ_ref \<Rightarrow> 'd world \<Rightarrow> 'd world" where
  "pay_for_cell direction c w =
     (if w_CloseUnpaid w then
        (case direction of
           CELL_DIRECTION_IN \<Rightarrow> upd_circ c (\<lambda>ci. ci\<lparr>ci_payedReads := ci_payedReads ci - 1\<rparr>) w
         | CELL_DIRECTION_OUT \<Rightarrow> upd_circ c (\<lambda>ci. ci\<lparr>ci_payedWrites := ci_payedWrites ci - 1\<rparr>) w)
      else w)"

definition unpaid :: "circ_ref \<Rightarrow> 'd world \<Rightarrow> bool" where
  "unpaid c w \<longleftrightarrow> ci_payedReads (w_circs w c) < - CIRCWINDOW_INCREMENT \<or>
     ci_payedWrites (w_circs w c) < - CIRCWINDOW_INCREMENT"

text \<open>The header and payload of a relay cell in a cell of zeros.\<close>

definition relay_cell :: "u16 \<Rightarrow> u16 \<Rightarrow> byte \<Rightarrow> byte list \<Rightarrow> cell" where
  "relay_cell circ_id stream_id relay_command payload =
     (let rh = \<lparr>rh_command = relay_command, rh_recognized = 0, rh_stream_id = stream_id,
                rh_integrity = replicate 4 0, rh_length = of_nat (length payload)\<rparr>;
          p0 = relay_header_pack (replicate CELL_PAYLOAD_SIZE 0) rh
      in \<lparr>ce_circ_id = circ_id, ce_command = CELL_RELAY,
          ce_payload = take RELAY_HEADER_SIZE p0 @ payload @ drop (RELAY_HEADER_SIZE + length payload) p0\<rparr>)"

text \<open>
  The choice between RELAY and RELAY\_EARLY on the way out, which uses up the cells of that kind the
  circuit may send and notes the command in an array.
\<close>

definition use_relay_early ::
  "byte \<Rightarrow> nat \<Rightarrow> circ_ref \<Rightarrow> cell \<Rightarrow> 'd world \<Rightarrow> (cell \<times> 'd world) res" where
  "use_relay_early relay_command layer c cell w =
     (let circ = w_circs w c in
      tor_assert (ci_origin circ)
       (if ci_remaining_relay_early_cells circ > 0 \<and> relay_command \<noteq> RELAY_COMMAND_MESSAGE \<and>
           (relay_command = RELAY_COMMAND_EXTEND \<or> layer \<noteq> 0)
        then if length (ci_relay_early_commands circ) \<ge> MAX_RELAY_EARLY_CELLS_PER_CIRCUIT then Fault Mem_Fault
          else OK (cell\<lparr>ce_command := CELL_RELAY_EARLY\<rparr>,
            upd_circ c (\<lambda>ci. ci\<lparr>ci_remaining_relay_early_cells := ci_remaining_relay_early_cells ci - 1,
              ci_relay_early_commands := ci_relay_early_commands ci @ [relay_command]\<rparr>) w)
        else OK (cell, w)))"

definition relay_send_command_from_edge ::
  "'d relay_env \<Rightarrow> u16 \<Rightarrow> circ_ref \<Rightarrow> byte \<Rightarrow> byte list \<Rightarrow> nat option \<Rightarrow> 'd world \<Rightarrow> ('d world \<times> int) res" where
  "relay_send_command_from_edge env stream_id c relay_command payload cpath_layer w =
     tor_assert (length payload \<le> RELAY_PAYLOAD_SIZE)
      (let circ = w_circs w c in
       if cpath_layer = None \<and> ci_origin circ then OK (w, -1)
       else
         (let direction = (if cpath_layer \<noteq> None then CELL_DIRECTION_OUT else CELL_DIRECTION_IN);
              circ_id = (if cpath_layer \<noteq> None then ci_n_circ_id circ else ci_p_circ_id circ);
              w1 = pay_for_cell direction c w
          in if unpaid c w1 then
               rbind (circuit_mark_for_close env c END_CIRC_REASON_UNPAID w1) (\<lambda>w2. OK (w2, -1))
             else
               (let cell = relay_cell circ_id stream_id relay_command payload;
                    w2 = (case ci_n_conn circ of
                            Some k \<Rightarrow> if direction = CELL_DIRECTION_OUT
                              then upd_conn k (\<lambda>oc. oc\<lparr>oc_client_used := w_now w1\<rparr>) w1 else w1
                          | None \<Rightarrow> w1)
                in rbind (case cpath_layer of
                            Some layer \<Rightarrow> use_relay_early relay_command layer c cell w2
                          | None \<Rightarrow> OK (cell, w2)) (\<lambda>(cell1, w3).
                   rbind (circuit_package_relay_cell env cell1 c direction cpath_layer w3) (\<lambda>(w4, r).
                     if r < 0 then rbind (circuit_mark_for_close env c END_CIRC_REASON_INTERNAL w4) (\<lambda>w5. OK (w5, -1))
                     else OK (w4, 0))))))"

definition connection_edge_send_command ::
  "'d relay_env \<Rightarrow> edge_ref \<Rightarrow> byte \<Rightarrow> byte list \<Rightarrow> 'd world \<Rightarrow> ('d world \<times> int) res" where
  "connection_edge_send_command env e relay_command payload w =
     (if cn_marked_for_close (w_edges w e) then OK (w, 0)
      else case ec_on_circuit (w_edges w e) of
        None \<Rightarrow>
          rbind (case ec_type (w_edges w e) of
                   CONN_TYPE_AP \<Rightarrow> connection_mark_unattached_ap env e END_STREAM_REASON_INTERNAL w
                 | CONN_TYPE_EXIT \<Rightarrow> connection_mark_for_close e
                     (upd_edge e (\<lambda>ec. ec\<lparr>ec_edge_has_sent_end := True,
                        ec_end_reason := END_STREAM_REASON_INTERNAL\<rparr>) w)) (\<lambda>w1. OK (w1, -1))
      | Some c \<Rightarrow> relay_send_command_from_edge env (ec_stream_id (w_edges w e)) c relay_command payload
                    (ec_cpath_layer (w_edges w e)) w)"

text \<open>Changing one hop of the crypt path.\<close>

definition upd_hop :: "nat \<Rightarrow> ('d crypt_path \<Rightarrow> 'd crypt_path) \<Rightarrow> 'd circuit \<Rightarrow> 'd circuit" where
  "upd_hop layer f circ = circ\<lparr>ci_cpath := (ci_cpath circ)[layer := f (ci_cpath circ ! layer)]\<rparr>"

text \<open>\<^verbatim>\<open>connection_start_reading\<close> and \<^verbatim>\<open>connection_stop_reading\<close>.\<close>

definition connection_start_reading :: "edge_ref \<Rightarrow> 'd world \<Rightarrow> 'd world res" where
  "connection_start_reading e w = tor_assert (cn_read_event (w_edges w e))
     (OK (upd_edge e (\<lambda>ec. ec\<lparr>cn_reading := True\<rparr>) w))"

definition connection_stop_reading :: "edge_ref \<Rightarrow> 'd world \<Rightarrow> 'd world res" where
  "connection_stop_reading e w = tor_assert (cn_read_event (w_edges w e))
     (OK (upd_edge e (\<lambda>ec. ec\<lparr>cn_reading := False\<rparr>) w))"

fun stop_reading_all :: "edge_ref list \<Rightarrow> 'd world \<Rightarrow> 'd world res" where
  "stop_reading_all [] w = OK w"
| "stop_reading_all (e # es) w = rbind (connection_stop_reading e w) (stop_reading_all es)"

text \<open>
  \<^verbatim>\<open>circuit_consider_stop_edge_reading\<close>: the streams stop reading when the package window is empty, or when
  the circuit is not paid for enough further cells.
\<close>

definition circuit_consider_stop_edge_reading ::
  "circ_ref \<Rightarrow> nat option \<Rightarrow> 'd world \<Rightarrow> ('d world \<times> bool) res" where
  "circuit_consider_stop_edge_reading c layer_hint w =
     (let circ = w_circs w c in
      case layer_hint of
        None \<Rightarrow> tor_assert (\<not> ci_origin circ)
          (if ci_package_window circ \<le> 0 \<or> ci_payedReads circ \<le> CIRCWINDOW_INCREMENT
           then rbind (stop_reading_all (ci_n_streams circ) w) (\<lambda>w1. OK (w1, True))
           else OK (w, False))
      | Some layer \<Rightarrow>
          if layer \<ge> length (ci_cpath circ) then Fault Mem_Fault
          else if cp_package_window (ci_cpath circ ! layer) \<le> 0 \<or> ci_payedWrites circ \<le> CIRCWINDOW_INCREMENT
          then tor_assert (ci_origin circ)
            (rbind (stop_reading_all
                     (filter (\<lambda>e. ec_cpath_layer (w_edges w e) = Some layer) (ci_p_streams circ)) w)
              (\<lambda>w1. OK (w1, True)))
          else OK (w, False))"


subsection \<open>Loops\<close>

text \<open>
  A loop whose body ends with a result or goes round again.  It need not end, so it is a partial
  function; a fault of the body ends it.
\<close>

partial_function (option) iterate :: "('s \<Rightarrow> ('s \<times> 'r option) res) \<Rightarrow> 's \<Rightarrow> ('s \<times> 'r) res option" where
  "iterate body s = (case body s of
     Fault e \<Rightarrow> Some (Fault e)
   | OK (s', Some r) \<Rightarrow> Some (OK (s', r))
   | OK (s', None) \<Rightarrow> iterate body s')"

lemma after_if_eq: "(b \<Longrightarrow> after P r) \<Longrightarrow> (\<not> b \<Longrightarrow> after P s) \<Longrightarrow> after P (if b then r else s)"
  by simp

lemma iterate_returns:
  assumes pass: "\<And>s. I s \<Longrightarrow> after (\<lambda>(s', r). case r of None \<Rightarrow> I s' \<and> m s' < (m s :: nat) | Some x \<Rightarrow> Q s' x) (body s)"
    and "I s"
  shows "\<exists>r. iterate body s = Some r \<and> after (\<lambda>(s', x). Q s' x) r"
  using assms(2)
proof (induction "m s" arbitrary: s rule: less_induct)
  case less
  show ?case
  proof (cases "body s")
    case (OK p)
    moreover obtain s' r where p: "p = (s', r)" by (cases p)
    moreover have "case r of None \<Rightarrow> I s' \<and> m s' < m s | Some x \<Rightarrow> Q s' x"
      using afterD [OF pass [OF less.prems] OK] p by simp
    ultimately show ?thesis using less.hyps [of s'] by (cases r) (simp_all add: iterate.simps after_def)
  qed (simp add: iterate.simps after_def)
qed

subsection \<open>Packaging the data of a stream\<close>

text \<open>After a DATA cell: the windows of the circuit (or the hop) and of the stream shrink.\<close>

definition charge_windows :: "edge_ref \<Rightarrow> circ_ref \<Rightarrow> 'd world \<Rightarrow> ('d world \<times> int option) res" where
  "charge_windows e c w3 =
     rbind (case ec_cpath_layer (w_edges w3 e) of
              None \<Rightarrow> tor_assert (ci_package_window (w_circs w3 c) > 0)
                (OK (upd_circ c (\<lambda>ci. ci\<lparr>ci_package_window := ci_package_window ci - 1\<rparr>) w3))
            | Some layer \<Rightarrow>
                if layer \<ge> length (ci_cpath (w_circs w3 c)) then Fault Mem_Fault
                else tor_assert (cp_package_window (ci_cpath (w_circs w3 c) ! layer) > 0)
                  (OK (upd_circ c (upd_hop layer (\<lambda>h. h\<lparr>cp_package_window := cp_package_window h - 1\<rparr>)) w3))) (\<lambda>w4.
     let w5 = upd_edge e (\<lambda>ec. ec\<lparr>ec_package_window := ec_package_window ec - 1\<rparr>) w4 in
     if ec_package_window (w_edges w5 e) \<le> 0
     then rbind (connection_stop_reading e w5) (\<lambda>w6.
          rbind (circuit_consider_stop_edge_reading c (ec_cpath_layer (w_edges w6 e)) w6)
            (\<lambda>(w7, _). OK (w7, Some 0)))
     else OK (w5, None))"

text \<open>One pass of the loop of \<^verbatim>\<open>connection_edge_package_raw_inbuf\<close>, from its label to the jump back.\<close>

definition package_pass ::
  "'d relay_env \<Rightarrow> edge_ref \<Rightarrow> bool \<Rightarrow> 'd world \<Rightarrow> ('d world \<times> int option) res" where
  "package_pass env e package_partial w =
     (case circuit_get_by_edge_conn e w of
        None \<Rightarrow> OK (upd_edge e (\<lambda>ec. ec\<lparr>ec_end_reason := END_STREAM_REASON_CANT_ATTACH\<rparr>) w, Some (-1))
      | Some c \<Rightarrow>
          rbind (circuit_consider_stop_edge_reading c (ec_cpath_layer (w_edges w e)) w) (\<lambda>(w1, stopped).
          if stopped then OK (w1, Some 0)
          else if ec_package_window (w_edges w1 e) \<le> 0
          then rbind (connection_stop_reading e w1) (\<lambda>w2. OK (w2, Some 0))
          else
            (let amount_to_process = buf_datalen (cn_inbuf (w_edges w1 e)) in
             if amount_to_process = 0 then OK (w1, Some 0)
             else if \<not> package_partial \<and> amount_to_process < RELAY_PAYLOAD_SIZE then OK (w1, Some 0)
             else
               (let len = (if amount_to_process > RELAY_PAYLOAD_SIZE then RELAY_PAYLOAD_SIZE else amount_to_process)
                in rbind (fetch_from_buf (w_alloc w1) (cn_inbuf (w_edges w1 e)) len) (\<lambda>(payload, st, b).
                   let w2 = upd_edge e (\<lambda>ec. ec\<lparr>cn_inbuf := b\<rparr>)
                              (w1\<lparr>w_alloc := st, w_data_bytes_packaged := w_data_bytes_packaged w1 + len,
                                  w_data_cells_packaged := w_data_cells_packaged w1 + 1\<rparr>)
                   in rbind (connection_edge_send_command env e RELAY_COMMAND_DATA payload w2) (\<lambda>(w3, r).
                      if r < 0 then OK (w3, Some 0)
                      else charge_windows e c w3))))))"

definition connection_edge_package_raw_inbuf ::
  "'d relay_env \<Rightarrow> edge_ref \<Rightarrow> bool \<Rightarrow> 'd world \<Rightarrow> ('d world \<times> int) res" where
  "connection_edge_package_raw_inbuf env e package_partial w =
     (if cn_marked_for_close (w_edges w e) then OK (w, 0)
      else returns (iterate (package_pass env e package_partial) w))"

text \<open>
  The helper of \<^verbatim>\<open>circuit_resume_edge_reading\<close>: the streams of the circuit read and package again
  until the circuit takes no more data.
\<close>

fun circuit_resume_edge_reading_helper ::
  "'d relay_env \<Rightarrow> edge_ref list \<Rightarrow> circ_ref \<Rightarrow> nat option \<Rightarrow> 'd world \<Rightarrow> ('d world \<times> int) res" where
  "circuit_resume_edge_reading_helper env [] c layer_hint w = OK (w, 0)"
| "circuit_resume_edge_reading_helper env (e # es) c layer_hint w =
     (let conn = w_edges w e in
      if cn_marked_for_close conn then circuit_resume_edge_reading_helper env es c layer_hint w
      else if ec_package_window conn > 0 \<and> (layer_hint = None \<or> ec_cpath_layer conn = layer_hint) then
        rbind (connection_start_reading e w) (\<lambda>w1.
        rbind (connection_edge_package_raw_inbuf env e True w1) (\<lambda>(w2, r).
          if r < 0 then rbind (connection_mark_for_close e w2) (circuit_resume_edge_reading_helper env es c layer_hint)
          else rbind (circuit_consider_stop_edge_reading c layer_hint w2) (\<lambda>(w3, stopped).
            if stopped then OK (w3, -1) else circuit_resume_edge_reading_helper env es c layer_hint w3)))
      else circuit_resume_edge_reading_helper env es c layer_hint w)"

definition layer_ok :: "nat option \<Rightarrow> 'd circuit \<Rightarrow> bool" where
  "layer_ok layer_hint circ \<longleftrightarrow> (case layer_hint of None \<Rightarrow> True | Some layer \<Rightarrow> layer < length (ci_cpath circ))"

definition package_window_at :: "nat option \<Rightarrow> 'd circuit \<Rightarrow> int" where
  "package_window_at layer_hint circ = (case layer_hint of
     None \<Rightarrow> ci_package_window circ | Some layer \<Rightarrow> cp_package_window (ci_cpath circ ! layer))"

definition deliver_window_at :: "nat option \<Rightarrow> 'd circuit \<Rightarrow> int" where
  "deliver_window_at layer_hint circ = (case layer_hint of
     None \<Rightarrow> ci_deliver_window circ | Some layer \<Rightarrow> cp_deliver_window (ci_cpath circ ! layer))"

definition circuit_resume_edge_reading ::
  "'d relay_env \<Rightarrow> circ_ref \<Rightarrow> nat option \<Rightarrow> 'd world \<Rightarrow> 'd world res" where
  "circuit_resume_edge_reading env c layer_hint w =
     (let circ = w_circs w c in
      if \<not> layer_ok layer_hint circ then Fault Mem_Fault
      else if (if layer_hint \<noteq> None then ci_payedWrites circ else ci_payedReads circ) \<le> package_window_at layer_hint circ
      then OK w
      else if package_window_at layer_hint circ \<le> 0 then OK w
      else rbind (circuit_resume_edge_reading_helper env
                   (if ci_origin circ then ci_p_streams circ else ci_n_streams circ) c layer_hint w) (\<lambda>(w1, _). OK w1))"

subsection \<open>Acknowledging what was delivered\<close>

definition connection_outbuf_too_full :: "edge_conn \<Rightarrow> bool" where
  "connection_outbuf_too_full conn \<longleftrightarrow> cn_outbuf_flushlen conn > 10 * CELL_PAYLOAD_SIZE"

definition stream_sendme_pass :: "'d relay_env \<Rightarrow> edge_ref \<Rightarrow> 'd world \<Rightarrow> ('d world \<times> unit option) res" where
  "stream_sendme_pass env e w =
     (if ec_deliver_window (w_edges w e) < STREAMWINDOW_START - STREAMWINDOW_INCREMENT then
        rbind (connection_edge_send_command env e RELAY_COMMAND_SENDME []
                (upd_edge e (\<lambda>ec. ec\<lparr>ec_deliver_window := ec_deliver_window ec + STREAMWINDOW_INCREMENT\<rparr>) w))
         (\<lambda>(w1, r). OK (w1, if r < 0 then Some () else None))
      else OK (w, Some ()))"

definition connection_edge_consider_sending_sendme ::
  "'d relay_env \<Rightarrow> edge_ref \<Rightarrow> 'd world \<Rightarrow> 'd world res" where
  "connection_edge_consider_sending_sendme env e w =
     (if connection_outbuf_too_full (w_edges w e) then OK w
      else case circuit_get_by_edge_conn e w of
        None \<Rightarrow> OK w
      | Some c \<Rightarrow> rbind (returns (iterate (stream_sendme_pass env e) w)) (\<lambda>(w1, _). OK w1))"

definition add_deliver_window :: "nat option \<Rightarrow> int \<Rightarrow> 'd circuit \<Rightarrow> 'd circuit" where
  "add_deliver_window layer_hint n circ = (case layer_hint of
     None \<Rightarrow> circ\<lparr>ci_deliver_window := ci_deliver_window circ + n\<rparr>
   | Some layer \<Rightarrow> upd_hop layer (\<lambda>h. h\<lparr>cp_deliver_window := cp_deliver_window h + n\<rparr>) circ)"

definition circuit_sendme_pass ::
  "'d relay_env \<Rightarrow> circ_ref \<Rightarrow> nat option \<Rightarrow> 'd world \<Rightarrow> ('d world \<times> unit option) res" where
  "circuit_sendme_pass env c layer_hint w =
     (if deliver_window_at layer_hint (w_circs w c) < CIRCWINDOW_START - CIRCWINDOW_INCREMENT then
        rbind (relay_send_command_from_edge env 0 c RELAY_COMMAND_SENDME [] layer_hint
                (upd_circ c (add_deliver_window layer_hint CIRCWINDOW_INCREMENT) w))
         (\<lambda>(w1, r). OK (w1, if r < 0 then Some () else None))
      else OK (w, Some ()))"

definition circuit_consider_sending_sendme ::
  "'d relay_env \<Rightarrow> circ_ref \<Rightarrow> nat option \<Rightarrow> 'd world \<Rightarrow> 'd world res" where
  "circuit_consider_sending_sendme env c layer_hint w =
     (let circ = w_circs w c in
      if \<not> layer_ok layer_hint circ then Fault Mem_Fault
      else if (if layer_hint \<noteq> None then ci_payedReads circ else ci_payedWrites circ) \<le> deliver_window_at layer_hint circ
      then OK w
      else rbind (returns (iterate (circuit_sendme_pass env c layer_hint) w)) (\<lambda>(w1, _). OK w1))"

subsection \<open>Ending a stream\<close>

definition MIN_DNS_TTL :: u32 where "MIN_DNS_TTL = 60"
definition MAX_DNS_TTL :: u32 where "MAX_DNS_TTL = 3 * 60 * 60"

definition dns_clip_ttl :: "u32 \<Rightarrow> u32" where
  "dns_clip_ttl ttl = (if ttl < MIN_DNS_TTL then MIN_DNS_TTL else if ttl > MAX_DNS_TTL then MAX_DNS_TTL else ttl)"

definition relay_send_end_cell_from_edge ::
  "'d relay_env \<Rightarrow> u16 \<Rightarrow> circ_ref \<Rightarrow> byte \<Rightarrow> nat option \<Rightarrow> 'd world \<Rightarrow> ('d world \<times> int) res" where
  "relay_send_end_cell_from_edge env stream_id c reason cpath_layer w =
     relay_send_command_from_edge env stream_id c RELAY_COMMAND_END
       [if CIRCUIT_PURPOSE_IS_CLIENT (ci_purpose (w_circs w c)) then of_nat END_STREAM_REASON_MISC else reason]
       cpath_layer w"

text \<open>The payload of an END cell: the reason and, for a refusal by the exit policy, the address and its time to live.\<close>

definition end_payload :: "byte \<Rightarrow> edge_conn \<Rightarrow> byte list res" where
  "end_payload reason conn =
     (if reason = of_nat END_STREAM_REASON_EXITPOLICY \<and> \<not> ec_rendezvous conn then
        (case ec_addr conn of
           AF_INET a \<Rightarrow> OK (reason # be32 a @ be32 (dns_clip_ttl (ec_address_ttl conn)))
         | AF_INET6 bs \<Rightarrow> OK (reason # bs @ be32 (dns_clip_ttl (ec_address_ttl conn)))
         | AF_UNSPEC \<Rightarrow> Fault Mem_Fault)
      else OK [reason])"

definition connection_edge_end :: "'d relay_env \<Rightarrow> edge_ref \<Rightarrow> byte \<Rightarrow> 'd world \<Rightarrow> ('d world \<times> int) res" where
  "connection_edge_end env e reason w =
     (let conn = w_edges w e in
      if ec_edge_has_sent_end conn then OK (w, -1)
      else if cn_marked_for_close conn then OK (w, 0)
      else
        rbind
         (case circuit_get_by_edge_conn e w of
            None \<Rightarrow> rbind (end_payload reason conn) (\<lambda>_. OK w)
          | Some c \<Rightarrow>
              rbind (end_payload (if CIRCUIT_PURPOSE_IS_CLIENT (ci_purpose (w_circs w c))
                                  then of_nat END_STREAM_REASON_MISC else reason) conn) (\<lambda>payload.
                if ci_marked_for_close (w_circs w c) then OK w
                else rbind (connection_edge_send_command env e RELAY_COMMAND_END payload w) (\<lambda>(w1, _). OK w1)))
         (\<lambda>w1. OK (upd_edge e (\<lambda>ec. ec\<lparr>ec_edge_has_sent_end := True, ec_end_reason := unat reason\<rparr>) w1, 0)))"

subsection \<open>The loops end\<close>

text \<open>Sending a cell keeps the windows, and the streams except for whether they read.\<close>

definition hop_windows :: "'d crypt_path \<Rightarrow> int \<times> int" where
  "hop_windows h = (cp_package_window h, cp_deliver_window h)"

definition windows_of :: "'d circuit \<Rightarrow> int \<times> int \<times> (int \<times> int) list" where
  "windows_of ci = (ci_package_window ci, ci_deliver_window ci, map hop_windows (ci_cpath ci))"

definition same_windows :: "'d world \<Rightarrow> 'd world \<Rightarrow> bool" where
  "same_windows w w' \<longleftrightarrow> (\<forall>c. windows_of (w_circs w' c) = windows_of (w_circs w c)) \<and>
     (\<forall>e. mask_edge (w_edges w' e) = mask_edge (w_edges w e))"

lemma windows_of_mask: "mask_circ ci = mask_circ ci' \<Longrightarrow> windows_of ci = windows_of ci'"
proof -
  have "windows_of (mask_circ x) = windows_of x" for x :: "'a circuit" by (simp add: windows_of_def mask_circ_def)
  then show "mask_circ ci = mask_circ ci' \<Longrightarrow> windows_of ci = windows_of ci'" by metis
qed

interpretation windows: ring_frame same_windows
proof
  fix f :: "'a circuit \<Rightarrow> 'a circuit" and w c
  assume "\<And>ci. mask_circ (f ci) = mask_circ ci"
  then show "same_windows w (upd_circ c f w)" by (auto simp: same_windows_def intro: windows_of_mask)
qed (auto simp: same_windows_def upd_conn_def upd_edge_def)

lemma same_windows_upd_circ:
  "same_windows u w \<Longrightarrow> (\<And>ci. windows_of (f ci) = windows_of ci) \<Longrightarrow> same_windows u (upd_circ c f w)"
  by (simp add: same_windows_def)

lemma package_out_loop_windows:
  "package_out_loop hops p = OK (hops', p') \<Longrightarrow> map hop_windows hops' = map hop_windows hops"
  by (induction hops arbitrary: hops' p') (auto simp: res_simps hop_windows_def)

lemma package_out_windows:
  assumes "package_out ops circ cell layer = OK (circ', cell')"
  shows "windows_of circ' = windows_of circ"
proof -
  obtain d cell1 where d: "relay_set_digest ops (cp_f_digest (ci_cpath circ ! layer)) cell = (d, cell1)" by fastforce
  let ?cpath = "(ci_cpath circ)[layer := (ci_cpath circ ! layer)\<lparr>cp_f_digest := d\<rparr>]"
  from assms d obtain hops where h: "package_out_loop (take (layer + 1) ?cpath) (ce_payload cell1) = OK (hops, ce_payload cell')"
    and c: "circ' = circ\<lparr>ci_cpath := hops @ drop (layer + 1) ?cpath\<rparr>" and l: "layer < length (ci_cpath circ)"
    by (cases "package_out_loop (take (layer + 1) ?cpath) (ce_payload cell1)")
      (auto simp: package_out_def Let_def split: if_splits)
  have "map hop_windows ?cpath = map hop_windows (ci_cpath circ)"
    using l by (simp add: map_update hop_windows_def list_update_same_conv)
  then have "map hop_windows (hops @ drop (layer + 1) ?cpath) = map hop_windows (ci_cpath circ)"
    unfolding map_append package_out_loop_windows [OF h] by (metis append_take_drop_id map_append)
  then show ?thesis by (simp add: windows_of_def c)
qed

lemma package_in_windows: "package_in ops circ cell = OK (circ', cell') \<Longrightarrow> windows_of circ' = windows_of circ"
  by (auto simp: package_in_def Let_def res_simps windows_of_def split: prod.splits)

text \<open>The consistency check changes nothing but the cache of the map of circuit IDs.\<close>

definition recached :: "'d world \<Rightarrow> 'd world \<Rightarrow> bool" where
  "recached w w' \<longleftrightarrow> w' = w\<lparr>w_last_circid_ent := w_last_circid_ent w'\<rparr>"

lemma recached_refl: "recached w w"
  by (simp add: recached_def)

lemma recached_cache: "recached w v \<Longrightarrow> recached w (v\<lparr>w_last_circid_ent := x\<rparr>)"
  unfolding recached_def by (cases v, cases w) simp

lemma recached_same: "recached w v \<Longrightarrow> w_circs v = w_circs w \<and> w_edges v = w_edges w"
  unfolding recached_def by (cases v, cases w) simp

lemma assert_id_maps_to_recached: "recached w v \<Longrightarrow> after (recached w) (assert_id_maps_to c conn cid v)"
  by (auto simp: recached_cache after_def assert_id_maps_to_def circuit_get_by_circid_orconn_impl_def res_simps Let_def
      split: option.splits if_splits)

lemma assert_circuit_ok_recached: "after (recached w) (assert_circuit_ok c w)"
  unfolding assert_circuit_ok_def Let_def
  by (intro after_intros after_bind [where Q = "recached w"] assert_id_maps_to_recached recached_refl) assumption+

lemma package_relay_cell_windows:
  assumes hw: "\<forall>k w. same_windows w (fst (en_hw env k w))" and u: "same_windows u w"
  shows "after (\<lambda>(w', _). same_windows u w') (circuit_package_relay_cell env cell c dir layer w)"
proof -
  have queue: "after (\<lambda>(w', _). same_windows u w')
      (rbind (append_cell_to_circuit_queue (en_hw env) c k cell' dir v) (\<lambda>w'. OK (w', 0)))"
    if "same_windows u v" for k cell' dir v
    by (rule after_bind [OF windows.append_cell [OF hw that]]) (simp add: after_def)
  have circ': "same_windows u ((upd_circ c (\<lambda>_. circ') w)\<lparr>w_relay_cells_relayed := n\<rparr>)"
    if "windows_of circ' = windows_of (w_circs w c)" for circ' n
    using u that by (simp add: same_windows_def upd_circ_def)
  have "same_windows u w'" if "assert_circuit_ok c w = OK w'" for w'
    using afterD [OF assert_circuit_ok_recached that] u by (auto dest!: recached_same simp: same_windows_def)
  then show ?thesis
    unfolding circuit_package_relay_cell_def Let_def
    by (cases dir) (auto intro!: after_intros after_bind_eq [where m = "package_out _ _ _ _"]
        after_bind_eq [where m = "package_in _ _ _"] after_bind_eq [where m = "assert_circuit_ok _ _"]
        queue circ' simp: u dest: package_out_windows package_in_windows)
qed

lemma relay_send_windows:
  assumes hw: "\<forall>k w. same_windows w (fst (en_hw env k w))"
  shows "after (\<lambda>(w', r). r \<ge> 0 \<longrightarrow> same_windows w w') (relay_send_command_from_edge env sid c cmd payload layer w)"
proof -
  have pay: "same_windows w (pay_for_cell dir c w)" for dir
    by (cases dir) (simp_all add: pay_for_cell_def windows.refl same_windows_upd_circ windows_of_def)
  have used: "same_windows w (case ci_n_conn (w_circs w c) of
      Some k \<Rightarrow> if dir = CELL_DIRECTION_OUT then upd_conn k (\<lambda>oc. oc\<lparr>oc_client_used := t\<rparr>) (pay_for_cell dir c w)
        else pay_for_cell dir c w | None \<Rightarrow> pay_for_cell dir c w)" for dir t
    using pay [of dir] windows.conn' [OF pay] by (simp split: option.splits)
  have early: "after (\<lambda>(_, w'). same_windows w w') (use_relay_early cmd l c cell v)" if "same_windows w v" for l cell v
    unfolding use_relay_early_def Let_def
    by (intro after_intros) (simp_all add: that same_windows_upd_circ windows_of_def)
  have package: "after P (rbind (circuit_package_relay_cell env cell c dir layer v) f)"
    if "same_windows w v" "\<And>w' r. same_windows w w' \<Longrightarrow> after P (f (w', r))"
    for P cell dir v and f :: "'a world \<times> int \<Rightarrow> ('a world \<times> int) res"
    by (rule after_bind [OF package_relay_cell_windows [OF hw that(1)]]) (auto intro: that(2))
  have fail: "after (\<lambda>(w', r). r \<ge> 0 \<longrightarrow> same_windows w w') (rbind m (\<lambda>w'. OK (w', -1 :: int)))" for m :: "'a world res"
    by (cases m) (simp_all add: after_def)
  show ?thesis
    unfolding relay_send_command_from_edge_def Let_def
    by (intro after_intros fail after_bind [where Q = "\<lambda>(_, w'). same_windows w w'"] early used package)
      (use used [of CELL_DIRECTION_OUT] used [of CELL_DIRECTION_IN] in \<open>auto intro!: package after_intros fail\<close>)
qed

lemma edge_send_windows:
  assumes "\<forall>k w. same_windows w (fst (en_hw env k w))"
  shows "after (\<lambda>(w', r). r \<ge> 0 \<longrightarrow> same_windows w w') (connection_edge_send_command env e cmd payload w)"
proof -
  have fail: "after (\<lambda>(w', r). r \<ge> 0 \<longrightarrow> same_windows w w') (rbind m (\<lambda>w'. OK (w', -1 :: int)))" for m :: "'a world res"
    by (cases m) (simp_all add: after_def)
  show ?thesis
    unfolding connection_edge_send_command_def
    by (intro after_intros fail relay_send_windows assms) (simp add: windows.refl)
qed

lemma stop_reading_windows: "same_windows u w \<Longrightarrow> after (same_windows u) (connection_stop_reading e w)"
  unfolding connection_stop_reading_def by (intro after_intros windows.block') (simp_all add: mask_edge_def)

lemma stop_all_windows: "same_windows u w \<Longrightarrow> after (same_windows u) (stop_reading_all es w)"
  by (induction es arbitrary: w) (auto intro!: after_intros after_bind [OF stop_reading_windows])

lemma consider_stop_windows:
  "same_windows u w \<Longrightarrow> after (\<lambda>(w', _). same_windows u w') (circuit_consider_stop_edge_reading c layer w)"
  unfolding circuit_consider_stop_edge_reading_def Let_def
  by (intro after_intros after_bind [OF stop_all_windows]) (auto simp: after_def)

lemma same_windows_at:
  assumes "same_windows w w'" and l: "layer_ok layer (w_circs w c)"
  shows "layer_ok layer (w_circs w' c)" "deliver_window_at layer (w_circs w' c) = deliver_window_at layer (w_circs w c)"
    "package_window_at layer (w_circs w' c) = package_window_at layer (w_circs w c)"
proof -
  let ?ci = "w_circs w c" and ?ci' = "w_circs w' c"
  have w: "ci_package_window ?ci' = ci_package_window ?ci" "ci_deliver_window ?ci' = ci_deliver_window ?ci"
    and m: "map hop_windows (ci_cpath ?ci') = map hop_windows (ci_cpath ?ci)"
    using assms(1) by (simp_all add: same_windows_def windows_of_def)
  note len = map_eq_imp_length_eq [OF m]
  have "hop_windows (ci_cpath ?ci' ! i) = hop_windows (ci_cpath ?ci ! i)" if "i < length (ci_cpath ?ci)" for i
    using m that len nth_map [of i "ci_cpath ?ci'" hop_windows] nth_map [of i "ci_cpath ?ci" hop_windows] by simp
  then show "layer_ok layer ?ci'" "deliver_window_at layer ?ci' = deliver_window_at layer ?ci"
    "package_window_at layer ?ci' = package_window_at layer ?ci"
    using w l len by (auto simp: layer_ok_def deliver_window_at_def package_window_at_def hop_windows_def
        split: option.splits)
qed

lemma mask_edge_D:
  assumes "mask_edge ec' = mask_edge ec"
  shows "cn_inbuf ec' = cn_inbuf ec" "cn_outbuf ec' = cn_outbuf ec" "cn_outbuf_flushlen ec' = cn_outbuf_flushlen ec"
    "cn_marked_for_close ec' = cn_marked_for_close ec" "cn_read_event ec' = cn_read_event ec"
    "ec_type ec' = ec_type ec" "ec_state ec' = ec_state ec" "ec_cpath_layer ec' = ec_cpath_layer ec"
    "ec_package_window ec' = ec_package_window ec" "ec_deliver_window ec' = ec_deliver_window ec"
    "ec_on_circuit ec' = ec_on_circuit ec" "ec_stream_id ec' = ec_stream_id ec"
    "cn_hold_open_until_flushed ec' = cn_hold_open_until_flushed ec" "ec_rendezvous ec' = ec_rendezvous ec"
    "ec_edge_has_sent_end ec' = ec_edge_has_sent_end ec"
  using assms by (cases ec, cases ec', simp add: mask_edge_def)+

lemma same_windows_edge: "same_windows w w' \<Longrightarrow> mask_edge (w_edges w' e) = mask_edge (w_edges w e)"
  by (simp add: same_windows_def)

lemma stream_sendmes_return:
  assumes "\<forall>k w. same_windows w (fst (en_hw env k w))"
  shows "\<exists>r. iterate (stream_sendme_pass env e) w = Some r"
proof -
  have "after (\<lambda>(w', r). case r of None \<Rightarrow> True \<and> nat (STREAMWINDOW_START - ec_deliver_window (w_edges w' e)) <
      nat (STREAMWINDOW_START - ec_deliver_window (w_edges w e)) | Some x \<Rightarrow> True) (stream_sendme_pass env e w)" for w
    unfolding stream_sendme_pass_def
    by (intro after_if_eq after_intros after_bind [OF edge_send_windows [OF assms]])
      (auto simp: after_def windows dest!: same_windows_edge [of _ _ e] mask_edge_D(10))
  from iterate_returns [where I = "\<lambda>_. True" and Q = "\<lambda>_ _. True", OF this] show ?thesis by blast
qed

lemma circuit_sendmes_return:
  assumes hw: "\<forall>k w. same_windows w (fst (en_hw env k w))" and "layer_ok layer (w_circs w c)"
  shows "\<exists>r. iterate (circuit_sendme_pass env c layer) w = Some r"
proof -
  have add: "layer_ok layer (add_deliver_window layer n ci)"
    "deliver_window_at layer (add_deliver_window layer n ci) = deliver_window_at layer ci + n"
    if "layer_ok layer ci" for n and ci :: "'a circuit"
    using that by (auto simp: layer_ok_def deliver_window_at_def add_deliver_window_def upd_hop_def split: option.splits)
  have "after (\<lambda>(w', r). case r of None \<Rightarrow> layer_ok layer (w_circs w' c) \<and>
        nat (CIRCWINDOW_START - deliver_window_at layer (w_circs w' c)) <
        nat (CIRCWINDOW_START - deliver_window_at layer (w_circs w c)) | Some x \<Rightarrow> True) (circuit_sendme_pass env c layer w)"
    if "layer_ok layer (w_circs w c)" for w
  proof -
    have sent: "layer_ok layer (w_circs w1 c) \<and>
        deliver_window_at layer (w_circs w1 c) = deliver_window_at layer (w_circs w c) + CIRCWINDOW_INCREMENT"
      if "same_windows (upd_circ c (add_deliver_window layer CIRCWINDOW_INCREMENT) w) w1" for w1
      using same_windows_at [OF that, of layer c] add [OF \<open>layer_ok layer (w_circs w c)\<close>] by simp
    show ?thesis
      unfolding circuit_sendme_pass_def
      by (intro after_if_eq after_intros after_bind [OF relay_send_windows [OF hw]])
        (auto simp: after_def windows dest!: sent [unfolded windows])
  qed
  from iterate_returns [where I = "\<lambda>w. layer_ok layer (w_circs w c)" and Q = "\<lambda>_ _. True", OF this assms(2)]
  show ?thesis by blast
qed

lemma charge_windows_inbuf:
  "after (\<lambda>(w', r). r = None \<longrightarrow> cn_inbuf (w_edges w' e) = cn_inbuf (w_edges w e)) (charge_windows e c w)"
  by (auto simp: after_def charge_windows_def Let_def res_simps split: option.splits if_splits prod.splits)

lemma package_raw_inbuf_returns:
  assumes hw: "\<forall>k w. same_windows w (fst (en_hw env k w))"
  shows "\<exists>r. iterate (package_pass env e package_partial) w = Some r"
proof -
  let ?len = "\<lambda>w. buf_datalen (cn_inbuf (w_edges w e))"
  let ?P = "\<lambda>w (w', r :: int option). r = None \<longrightarrow> ?len w' < ?len w"
  have charge: "after (?P w) (charge_windows e c w3)" if "?len w3 < ?len w" for w w3 :: "'a world" and c
    using charge_windows_inbuf [of e w3 c] that unfolding after_def by (auto split: option.splits)
  have send: "after (?P w) (rbind (connection_edge_send_command env e cmd payload v)
      (\<lambda>(w3, r). if r < 0 then OK (w3, Some 0) else charge_windows e c w3))"
    if "?len v < ?len w" for w v :: "'a world" and c cmd payload
    by (rule after_bind [OF edge_send_windows [OF hw]])
      (auto intro!: after_if_eq after_OK charge simp: that dest!: same_windows_edge [of _ _ e] mask_edge_D(1))
  have fetch: "after P (rbind (fetch_from_buf st (cn_inbuf (w_edges w1 e)) len) f)"
    if "\<And>bs st b. buf_datalen b < ?len w1 \<Longrightarrow> after P (f (bs, st, b))" "0 < len"
    for P st len w1 and f :: "byte list \<times> chunk_alloc \<times> buf \<Rightarrow> ('a world \<times> int option) res"
    using that by (intro after_bind_eq) (auto dest!: fetch_from_buf_datalen)
  have "after (?P w) (package_pass env e package_partial w)" for w
    unfolding package_pass_def Let_def
    by (intro after_option after_prod after_if_eq after_OK fetch
        after_bind [OF consider_stop_windows [OF windows.refl [of w]]])
      (auto intro!: send after_bind [OF stop_reading_windows [OF windows.refl]] after_intros
        dest!: same_windows_edge [of _ _ e] mask_edge_D(1) simp: cell_sizes)
  then have "after (\<lambda>(w', r). case r of None \<Rightarrow> True \<and> ?len w' < ?len w | Some x \<Rightarrow> True)
      (package_pass env e package_partial w)" for w
    by (fastforce simp: after_def split: option.splits)
  from iterate_returns [where I = "\<lambda>_. True" and Q = "\<lambda>_ _. True", OF this] show ?thesis by blast
qed

subsection \<open>A command is queued as one cell\<close>

definition relay_header_for :: "u16 \<Rightarrow> byte \<Rightarrow> byte list \<Rightarrow> relay_header" where
  "relay_header_for stream_id relay_command payload =
     \<lparr>rh_command = relay_command, rh_recognized = 0, rh_stream_id = stream_id,
      rh_integrity = replicate 4 0, rh_length = of_nat (length payload)\<rparr>"

text \<open>The payload area of a relay cell, as its receiver reads it.\<close>

definition relay_body :: "byte list \<Rightarrow> byte list" where
  "relay_body p = take (unat (rh_length (relay_header_unpack p))) (drop RELAY_HEADER_SIZE p)"

lemma relay_header_unpack_take:
  assumes "RELAY_HEADER_SIZE \<le> length p"
  shows "relay_header_unpack (take RELAY_HEADER_SIZE p @ xs) = relay_header_unpack p"
proof -
  obtain a b c d e f g h i j k p' where p: "p = a # b # c # d # e # f # g # h # i # j # k # p'"
    using assms by (auto simp: RELAY_HEADER_SIZE_def eval_nat_numeral Suc_le_length_iff)
  show ?thesis by (simp add: p relay_header_unpack_def RELAY_HEADER_SIZE_def)
qed

lemma relay_cell_parts:
  assumes "length payload \<le> RELAY_PAYLOAD_SIZE"
  shows "length (ce_payload (relay_cell cid sid cmd payload)) = CELL_PAYLOAD_SIZE"
    and "relay_header_unpack (ce_payload (relay_cell cid sid cmd payload)) = relay_header_for sid cmd payload"
    and "relay_body (ce_payload (relay_cell cid sid cmd payload)) = payload"
    and "fresh_payload (ce_payload (relay_cell cid sid cmd payload))"
    and "ce_command (relay_cell cid sid cmd payload) = CELL_RELAY"
proof -
  let ?rh = "relay_header_for sid cmd payload"
  let ?p0 = "relay_header_pack (replicate CELL_PAYLOAD_SIZE 0) ?rh"
  have i: "length (rh_integrity ?rh) = 4" by (simp add: relay_header_for_def)
  have len: "length ?p0 = CELL_PAYLOAD_SIZE" using i by (simp add: length_relay_header_pack cell_sizes)
  have p: "ce_payload (relay_cell cid sid cmd payload) =
      take RELAY_HEADER_SIZE ?p0 @ payload @ drop (RELAY_HEADER_SIZE + length payload) ?p0"
    by (simp add: relay_cell_def relay_header_for_def Let_def)
  show l: "length (ce_payload (relay_cell cid sid cmd payload)) = CELL_PAYLOAD_SIZE"
    using assms len by (simp add: p cell_sizes)
  show h: "relay_header_unpack (ce_payload (relay_cell cid sid cmd payload)) = ?rh"
    unfolding p relay_header_unpack_take [OF payload_header [OF len]] using i by (rule relay_header_unpack_pack)
  have "unat (of_nat (length payload) :: u16) = length payload"
    using assms by (simp add: unat_of_nat cell_sizes)
  then show "relay_body (ce_payload (relay_cell cid sid cmd payload)) = payload"
    unfolding relay_body_def h using len by (simp add: p relay_header_for_def cell_sizes)
  show "fresh_payload (ce_payload (relay_cell cid sid cmd payload))"
    unfolding fresh_payload_def h using l by (simp add: relay_header_for_def)
  show "ce_command (relay_cell cid sid cmd payload) = CELL_RELAY" by (simp add: relay_cell_def Let_def)
qed

lemma package_in_ok:
  assumes "aes_ok (ci_p_crypto circ)" and "fresh_payload (ce_payload cell)" and "digest_lengths ops"
  shows "\<exists>d a e. package_in ops circ cell = OK (circ\<lparr>ci_p_digest := d, ci_p_crypto := a\<rparr>, cell\<lparr>ce_payload := e\<rparr>) \<and>
    aes_ok a \<and> length e = CELL_PAYLOAD_SIZE"
proof -
  obtain d cell1 where sd: "relay_set_digest ops (ci_p_digest circ) cell = (d, cell1)" by fastforce
  note rs = relay_set_digest_payload [OF sd assms(2,3)]
  obtain a e where "aes_crypt_inplace (ci_p_crypto circ) (ce_payload cell1) = OK (a, e)"
      "length e = length (ce_payload cell1)" "aes_ok a"
    using aes.crypt_total [OF assms(1)] by blast
  moreover have "cell1\<lparr>ce_payload := e\<rparr> = cell\<lparr>ce_payload := e\<rparr>" by (subst rs(4)) simp
  ultimately show ?thesis using sd rs(1) by (auto simp: package_in_def relay_crypt_one_payload_def)
qed

text \<open>Queueing the packaged cell.\<close>

lemma queue_packaged:
  assumes ok: "circuits_ok w R" and wo: "writes_on w c k dir" and len: "length (ce_payload cell) = CELL_PAYLOAD_SIZE"
    and wq: "outbuf_of w k = [] \<longrightarrow> write_is_queued k CELL_NETWORK_SIZE w"
    and hw: "\<forall>k w. same_streams w (fst (hw k w))" and same: "same_rings w v"
  shows "\<exists>w' R'. append_cell_to_circuit_queue hw c k cell dir v = OK w' \<and> circuits_ok w' R' \<and>
    abs_sched w' R' = sched_append k c (cell_pack (on_wire w k cell)) (abs_sched w R) \<and> same_streams v w'"
proof -
  note sv = same_rings_views [OF same]
  have ok': "circuits_ok v R" and abs: "abs_sched v R = abs_sched w R" using ok same_rings_ok [OF same] by simp_all
  have wo': "writes_on v c k dir" and wq': "outbuf_of v k = [] \<longrightarrow> write_is_queued k CELL_NETWORK_SIZE v"
    and wire: "on_wire v k cell = on_wire w k cell"
    using wo wq sv by simp_all
  from append_refines [OF ok' wo' len wq', of hw] obtain w' R' where
    "append_cell_to_circuit_queue hw c k cell dir v = OK w'" "circuits_ok w' R'"
    "abs_sched w' R' = sched_append k c (cell_pack (on_wire w k cell)) (abs_sched w R)"
    unfolding abs wire by blast
  moreover from this(1) have "same_streams v w'"
    using afterD [OF streams.append_cell [OF hw streams.refl]] by blast
  ultimately show ?thesis by blast
qed

text \<open>The circuit after the fee of one cell.\<close>

definition paid_circ :: "bool \<Rightarrow> cell_direction \<Rightarrow> 'd circuit \<Rightarrow> 'd circuit" where
  "paid_circ close_unpaid dir ci = (if close_unpaid then (case dir of
       CELL_DIRECTION_IN \<Rightarrow> ci\<lparr>ci_payedReads := ci_payedReads ci - 1\<rparr>
     | CELL_DIRECTION_OUT \<Rightarrow> ci\<lparr>ci_payedWrites := ci_payedWrites ci - 1\<rparr>)
   else ci)"

lemma pay_for_cell_eq: "pay_for_cell dir c w = upd_circ c (paid_circ (w_CloseUnpaid w) dir) w"
  by (cases dir) (simp_all add: pay_for_cell_def paid_circ_def upd_circ_def)

lemma paid_circ_sel [simp]:
  "ci_origin (paid_circ b dir ci) = ci_origin ci" "ci_n_conn (paid_circ b dir ci) = ci_n_conn ci"
  "ci_p_conn (paid_circ b dir ci) = ci_p_conn ci" "ci_p_crypto (paid_circ b dir ci) = ci_p_crypto ci"
  "ci_cpath (paid_circ b dir ci) = ci_cpath ci" "ring_part (paid_circ b dir ci) = ring_part ci"
  "ci_relay_early_commands (paid_circ b dir ci) = ci_relay_early_commands ci"
  "ci_remaining_relay_early_cells (paid_circ b dir ci) = ci_remaining_relay_early_cells ci"
  "ci_package_window (paid_circ b dir ci) = ci_package_window ci" "ci_n_streams (paid_circ b dir ci) = ci_n_streams ci"
  "ci_p_circ_id (paid_circ b dir ci) = ci_p_circ_id ci" "ci_p_digest (paid_circ b dir ci) = ci_p_digest ci"
  by (cases dir; simp add: paid_circ_def ring_part_def)+

definition affordable :: "bool \<Rightarrow> cell_direction \<Rightarrow> 'd circuit \<Rightarrow> bool" where
  "affordable close_unpaid dir ci \<longleftrightarrow> ci_payedReads (paid_circ close_unpaid dir ci) \<ge> - CIRCWINDOW_INCREMENT \<and>
     ci_payedWrites (paid_circ close_unpaid dir ci) \<ge> - CIRCWINDOW_INCREMENT"

lemma affordable_unpaid: "affordable (w_CloseUnpaid w) dir (w_circs w c) \<Longrightarrow> \<not> unpaid c (pay_for_cell dir c w)"
  by (simp add: affordable_def unpaid_def pay_for_cell_eq)

lemma send_in:
  assumes ok: "circuits_ok w R" and c: "\<not> ci_origin (w_circs w c)" "ci_p_conn (w_circs w c) = Some k"
    and paid: "affordable (w_CloseUnpaid w) CELL_DIRECTION_IN (w_circs w c)" and len: "length payload \<le> RELAY_PAYLOAD_SIZE"
    and aes: "aes_ok (ci_p_crypto (w_circs w c))" and dl: "digest_lengths (en_ops env)"
    and wq: "outbuf_of w k = [] \<longrightarrow> write_is_queued k CELL_NETWORK_SIZE w"
    and hw: "\<forall>k w. same_streams w (fst (en_hw env k w))"
  obtains circ' cell' w' R' v where
    "package_in (en_ops env) (paid_circ (w_CloseUnpaid w) CELL_DIRECTION_IN (w_circs w c))
       (relay_cell (ci_p_circ_id (w_circs w c)) sid cmd payload) = OK (circ', cell')"
    "relay_send_command_from_edge env sid c cmd payload None w = OK (w', 0)" "circuits_ok w' R'"
    "abs_sched w' R' = sched_append k c (cell_pack cell') (abs_sched w R)"
    "v = (upd_circ c (\<lambda>_. circ') w)\<lparr>w_relay_cells_relayed := w_relay_cells_relayed w + 1\<rparr>" "same_streams v w'"
    "\<exists>d a. aes_ok a \<and> circ' = (paid_circ (w_CloseUnpaid w) CELL_DIRECTION_IN (w_circs w c))\<lparr>ci_p_digest := d, ci_p_crypto := a\<rparr>"
    "length (ce_payload cell') = CELL_PAYLOAD_SIZE"
proof -
  let ?ci = "paid_circ (w_CloseUnpaid w) CELL_DIRECTION_IN (w_circs w c)"
  let ?cell = "relay_cell (ci_p_circ_id (w_circs w c)) sid cmd payload"
  note parts = relay_cell_parts [OF len]
  obtain d a e where p: "package_in (en_ops env) ?ci ?cell =
      OK (?ci\<lparr>ci_p_digest := d, ci_p_crypto := a\<rparr>, ?cell\<lparr>ce_payload := e\<rparr>)" "aes_ok a" "length e = CELL_PAYLOAD_SIZE"
    using package_in_ok [of ?ci ?cell "en_ops env"] parts(4) dl aes by auto
  let ?ci' = "?ci\<lparr>ci_p_digest := d, ci_p_crypto := a\<rparr>"
  let ?v = "(upd_circ c (\<lambda>_. ?ci') w)\<lparr>w_relay_cells_relayed := w_relay_cells_relayed w + 1\<rparr>"
  have same: "same_rings w ?v" by (simp add: same_rings_def upd_circ_def ring_part_def paid_circ_def)
  have wo: "writes_on w c k CELL_DIRECTION_IN" using c by (simp add: writes_on_def)
  obtain w' R' where q: "append_cell_to_circuit_queue (en_hw env) c k (?cell\<lparr>ce_payload := e\<rparr>) CELL_DIRECTION_IN ?v = OK w'"
    "circuits_ok w' R'" "same_streams ?v w'"
    "abs_sched w' R' = sched_append k c (cell_pack (on_wire w k (?cell\<lparr>ce_payload := e\<rparr>))) (abs_sched w R)"
    using queue_packaged [OF ok wo _ wq hw same, of "?cell\<lparr>ce_payload := e\<rparr>"] p(3) by auto
  have wire: "on_wire w k (?cell\<lparr>ce_payload := e\<rparr>) = ?cell\<lparr>ce_payload := e\<rparr>"
    using parts(5) by (simp add: on_wire_def CELL_RELAY_def CELL_RELAY_EARLY_def)
  have v: "(upd_circ c (\<lambda>_. ?ci') (pay_for_cell CELL_DIRECTION_IN c w))\<lparr>w_relay_cells_relayed := w_relay_cells_relayed w + 1\<rparr> = ?v"
    by (simp add: pay_for_cell_eq upd_circ_def)
  have "circuit_package_relay_cell env ?cell c CELL_DIRECTION_IN None (pay_for_cell CELL_DIRECTION_IN c w) = OK (w', 0)"
    using c p(1) q(1) v by (simp add: circuit_package_relay_cell_def pay_for_cell_eq Let_def upd_circ_def)
  moreover have "\<not> unpaid c (pay_for_cell CELL_DIRECTION_IN c w)" using paid by (rule affordable_unpaid)
  ultimately have "relay_send_command_from_edge env sid c cmd payload None w = OK (w', 0)"
    using c(1) len by (simp add: relay_send_command_from_edge_def Let_def split: option.splits)
  with p q wire show ?thesis by (intro that) auto
qed

subsection \<open>The data of an exit stream\<close>

text \<open>
  Packaging on the side of the exit, without circuits or buffers: the stamp and the encryption thread the
  running digest and the cipher through the cells.
\<close>

definition seal_cell :: "'d digest_ops \<Rightarrow> 'd \<times> aes_cnt_cipher \<Rightarrow> cell \<Rightarrow> (('d \<times> aes_cnt_cipher) \<times> cell) res" where
  "seal_cell ops da cell =
     (let (d, cell1) = relay_set_digest ops (fst da) cell in
      rbind (aes_crypt_inplace (snd da) (ce_payload cell1)) (\<lambda>(a, p). OK ((d, a), cell1\<lparr>ce_payload := p\<rparr>)))"

fun seal_cells :: "'d digest_ops \<Rightarrow> 'd \<times> aes_cnt_cipher \<Rightarrow> cell list \<Rightarrow> (('d \<times> aes_cnt_cipher) \<times> cell list) res" where
  "seal_cells ops da [] = OK (da, [])"
| "seal_cells ops da (cell # cells) = rbind (seal_cell ops da cell) (\<lambda>(da1, cell1).
     rbind (seal_cells ops da1 cells) (\<lambda>(da2, cells1). OK (da2, cell1 # cells1)))"

lemma package_in_seal:
  "package_in ops circ cell = OK (circ', cell') \<longleftrightarrow> (\<exists>d a. seal_cell ops (ci_p_digest circ, ci_p_crypto circ) cell = OK ((d, a), cell') \<and>
     circ' = circ\<lparr>ci_p_digest := d, ci_p_crypto := a\<rparr>)"
  by (auto simp: package_in_def seal_cell_def relay_crypt_one_payload_def Let_def res_simps split: prod.splits)

text \<open>How many cells are sent, and the pieces of the input they carry.\<close>

definition cells_in :: "bool \<Rightarrow> nat \<Rightarrow> nat" where
  "cells_in package_partial len = (if package_partial then (len + (RELAY_PAYLOAD_SIZE - 1)) div RELAY_PAYLOAD_SIZE
     else len div RELAY_PAYLOAD_SIZE)"

definition package_count :: "bool \<Rightarrow> nat \<Rightarrow> bool \<Rightarrow> int \<Rightarrow> int \<Rightarrow> int \<Rightarrow> nat" where
  "package_count package_partial len close_unpaid credit circ_window stream_window =
     (if credit \<le> CIRCWINDOW_INCREMENT then 0
      else if close_unpaid then Min {cells_in package_partial len, nat (credit - CIRCWINDOW_INCREMENT),
                                     nat circ_window, nat stream_window}
      else Min {cells_in package_partial len, nat circ_window, nat stream_window})"

fun pieces :: "nat \<Rightarrow> byte list \<Rightarrow> byte list list" where
  "pieces 0 bs = []"
| "pieces (Suc n) bs = take RELAY_PAYLOAD_SIZE bs # pieces n (drop RELAY_PAYLOAD_SIZE bs)"

definition exit_count :: "bool \<Rightarrow> edge_ref \<Rightarrow> circ_ref \<Rightarrow> 'd world \<Rightarrow> nat" where
  "exit_count package_partial e c w =
     package_count package_partial (length (buf_bytes (cn_inbuf (w_edges w e)))) (w_CloseUnpaid w)
       (ci_payedReads (w_circs w c)) (ci_package_window (w_circs w c)) (ec_package_window (w_edges w e))"

text \<open>An exit stream in working order.\<close>

definition exit_stream_ok ::
  "edge_ref \<Rightarrow> circ_ref \<Rightarrow> conn_ref \<Rightarrow> (conn_ref \<Rightarrow> circ_ref list) \<Rightarrow> 'd world \<Rightarrow> bool" where
  "exit_stream_ok e c k R w \<longleftrightarrow> circuits_ok w R \<and> ec_on_circuit (w_edges w e) = Some c \<and>
     ec_cpath_layer (w_edges w e) = None \<and> \<not> cn_marked_for_close (w_edges w e) \<and>
     \<not> ci_origin (w_circs w c) \<and> ci_p_conn (w_circs w c) = Some k \<and> aes_ok (ci_p_crypto (w_circs w c)) \<and>
     buf_inv (w_alloc w) (cn_inbuf (w_edges w e)) \<and> length (buf_bytes (cn_inbuf (w_edges w e))) < int_max \<and>
     list_all (\<lambda>e'. cn_read_event (w_edges w e')) (e # ci_n_streams (w_circs w c)) \<and>
     ci_payedWrites (w_circs w c) \<ge> - CIRCWINDOW_INCREMENT \<and>
     (outbuf_of w k = [] \<longrightarrow> write_is_queued k CELL_NETWORK_SIZE w)"

lemma stop_reading_all_ok:
  "list_all (\<lambda>e. cn_read_event (w_edges w e)) es \<Longrightarrow>
   \<exists>E. stop_reading_all es w = OK (w\<lparr>w_edges := E\<rparr>) \<and> (\<forall>e. mask_edge (E e) = mask_edge (w_edges w e))"
proof (induction es arbitrary: w)
  case Nil
  then show ?case by (auto intro: exI [of _ "w_edges w"])
next
  case (Cons e es)
  let ?w = "upd_edge e (\<lambda>ec. ec\<lparr>cn_reading := False\<rparr>) w"
  have m: "mask_edge (w_edges ?w e') = mask_edge (w_edges w e')" for e' by (simp add: mask_edge_def)
  have "list_all (\<lambda>e. cn_read_event (w_edges ?w e)) es"
    using Cons.prems by (auto simp: list_all_iff)
  from Cons.IH [OF this] obtain E where "stop_reading_all es ?w = OK (?w\<lparr>w_edges := E\<rparr>)"
    "\<forall>e. mask_edge (E e) = mask_edge (w_edges ?w e)" by blast
  with m Cons.prems show ?case
    by (auto intro!: exI [of _ E] simp: connection_stop_reading_def upd_edge_def)
qed

lemma circuits_ok_edges: "circuits_ok (w\<lparr>w_edges := E\<rparr>) R = circuits_ok w R" "abs_sched (w\<lparr>w_edges := E\<rparr>) R = abs_sched w R"
  by (rule same_rings_ok; simp add: same_rings_def)+

lemma circuits_ok_alloc:
  assumes "circuits_ok w R" and "same_build (w_alloc w) st" and "alloc_ok st"
  shows "circuits_ok (w\<lparr>w_alloc := st\<rparr>) R" "abs_sched (w\<lparr>w_alloc := st\<rparr>) R = abs_sched w R"
proof -
  have v: "linked (w\<lparr>w_alloc := st\<rparr>) k = linked w k" "nextf (w\<lparr>w_alloc := st\<rparr>) k = nextf w k"
    "prevf (w\<lparr>w_alloc := st\<rparr>) k = prevf w k" "activef (w\<lparr>w_alloc := st\<rparr>) k = activef w k"
    "queue_on (w\<lparr>w_alloc := st\<rparr>) k = queue_on w k" "blocked_on (w\<lparr>w_alloc := st\<rparr>) k = blocked_on w k"
    "outbuf_of (w\<lparr>w_alloc := st\<rparr>) = outbuf_of w" "two_sided (w\<lparr>w_alloc := st\<rparr>) = two_sided w" for k
    by (auto simp: linked_def nextf_def prevf_def activef_def queue_on_def circ_queue_def blocked_on_def outbuf_of_def
        two_sided_def fun_eq_iff)
  have "or_conns_wf (w\<lparr>w_alloc := st\<rparr>)"
    using circuits_ok_D(1) [OF assms(1)] buf_inv_same_build [OF _ assms(2,3)] by (simp add: or_conns_wf_def)
  then show "circuits_ok (w\<lparr>w_alloc := st\<rparr>) R" using assms(1) by (simp add: circuits_ok_def ring_on_def v)
  show "abs_sched (w\<lparr>w_alloc := st\<rparr>) R = abs_sched w R" by (simp add: abs_sched_def v)
qed

lemma mask_circ_D:
  assumes "mask_circ ci' = mask_circ ci"
  shows "ci_origin ci' = ci_origin ci" "ci_cpath ci' = ci_cpath ci" "ci_p_conn ci' = ci_p_conn ci"
    "ci_n_conn ci' = ci_n_conn ci" "ci_p_circ_id ci' = ci_p_circ_id ci" "ci_n_circ_id ci' = ci_n_circ_id ci"
    "ci_p_crypto ci' = ci_p_crypto ci" "ci_p_digest ci' = ci_p_digest ci"
    "ci_n_crypto ci' = ci_n_crypto ci" "ci_n_digest ci' = ci_n_digest ci"
    "ci_package_window ci' = ci_package_window ci" "ci_deliver_window ci' = ci_deliver_window ci"
    "ci_payedReads ci' = ci_payedReads ci" "ci_payedWrites ci' = ci_payedWrites ci"
    "ci_n_streams ci' = ci_n_streams ci" "ci_p_streams ci' = ci_p_streams ci"
    "ci_marked_for_close ci' = ci_marked_for_close ci"
    "ci_remaining_relay_early_cells ci' = ci_remaining_relay_early_cells ci"
    "ci_relay_early_commands ci' = ci_relay_early_commands ci"
  using assms by (cases ci, cases ci', simp add: mask_circ_def)+

lemma same_streams_D:
  assumes "same_streams w w'"
  shows "mask_circ (w_circs w' c) = mask_circ (w_circs w c)" "mask_edge (w_edges w' e) = mask_edge (w_edges w e)"
    "w_CloseUnpaid w' = w_CloseUnpaid w" "same_build (w_alloc w) (w_alloc w')"
  using assms by (simp_all add: same_streams_def)

lemma sched_append_nonempty:
  assumes "\<And>d q. (d, q) \<in> set (sc_ring s k) \<Longrightarrow> q \<noteq> [] \<and> [] \<notin> set q" and "cell \<noteq> []"
  shows "sc_out (sched_append k c cell s) k \<noteq> []"
proof (cases "sc_out s k = []")
  case True
  let ?s = "sched_enqueue k c cell s"
  have entries: "q \<noteq> [] \<and> [] \<notin> set q" if "(d, q) \<in> set (sc_ring ?s k)" for d q
    using that assms(2) by (auto simp: sched_enqueue_def dest: assms(1) split: if_splits)
  have "sc_ring ?s k \<noteq> []" by (auto simp: sched_enqueue_def)
  then obtain d q r where r: "sc_ring ?s k = (d, q) # r" by (metis list.exhaust surj_pair)
  with entries [of d q] obtain x xs where "q = x # xs" "x \<noteq> []" by (cases q) auto
  with r True show ?thesis by (simp add: sched_append_def sched_flush_def sched_enqueue_def Let_def)
qed (simp add: sched_append_def sched_enqueue_def Let_def)

lemma abs_sched_nonempty:
  assumes "circuits_ok w R" and "(d, q) \<in> set (sc_ring (abs_sched w R) k)"
  shows "q \<noteq> [] \<and> [] \<notin> set q"
proof -
  have "d \<in> set (R k)" "q = cq_cells (queue_on w k d)" using assms(2) by (auto simp: abs_sched_def)
  with circuits_ok_D(4) [OF assms(1), of d k] circuits_ok_D(6) [OF assms(1), of k d] show ?thesis
    by (auto simp: list_all_iff cell_sizes)
qed

text \<open>The count goes down by one with every cell.\<close>

lemma cells_in_pos: "0 < cells_in partial len \<longleftrightarrow> 0 < len \<and> (partial \<or> RELAY_PAYLOAD_SIZE \<le> len)"
proof -
  have "0 < (len + 497) div 498 \<longleftrightarrow> 0 < len" by (cases "len = 0") (auto simp: div_greater_zero_iff)
  moreover have "0 < len div 498 \<longleftrightarrow> 498 \<le> len" by (auto simp: div_greater_zero_iff)
  ultimately show ?thesis by (auto simp: cells_in_def cell_sizes)
qed

lemma cells_in_step: "0 < cells_in partial len \<Longrightarrow> cells_in partial (len - RELAY_PAYLOAD_SIZE) = cells_in partial len - 1"
proof -
  have "(len - 498 + 497) div 498 = (len + 497) div 498 - (1::nat)" if "len > 0"
    using that by (cases "len \<ge> 498") (auto simp: le_div_geq)
  moreover have "(len - 498) div 498 = len div 498 - (1::nat)" if "len \<ge> 498"
    using that by (simp add: le_div_geq)
  ultimately show "0 < cells_in partial len \<Longrightarrow> cells_in partial (len - RELAY_PAYLOAD_SIZE) = cells_in partial len - 1"
    unfolding cells_in_pos by (auto simp: cells_in_def cell_sizes)
qed

lemma package_count_step:
  assumes "0 < package_count partial len b credit cw sw"
  shows "credit > CIRCWINDOW_INCREMENT" "cw > 0" "sw > 0" "0 < cells_in partial len"
    "package_count partial (len - RELAY_PAYLOAD_SIZE) b (if b then credit - 1 else credit) (cw - 1) (sw - 1) =
     package_count partial len b credit cw sw - 1"
proof -
  show 1: "credit > CIRCWINDOW_INCREMENT" "cw > 0" "sw > 0" "0 < cells_in partial len"
    using assms by (auto simp: package_count_def split: if_splits)
  show "package_count partial (len - RELAY_PAYLOAD_SIZE) b (if b then credit - 1 else credit) (cw - 1) (sw - 1) =
     package_count partial len b credit cw sw - 1"
  proof -
    have m: "min (x - Suc 0) (y - Suc 0) = min x y - Suc 0" for x y by linarith
    have n: "nat (i - 1) = nat i - 1" for i :: int by linarith
    have credit: "nat (credit - 1 - CIRCWINDOW_INCREMENT) = nat (credit - CIRCWINDOW_INCREMENT) - 1" by linarith
    have last: "nat (credit - CIRCWINDOW_INCREMENT) = 1" if "credit - 1 \<le> CIRCWINDOW_INCREMENT" using that 1(1) by linarith
    show ?thesis
      unfolding package_count_def cells_in_step [OF 1(4)] n
      using 1(1) last by (cases b) (simp_all add: m credit)
  qed
qed

lemma package_count_end:
  assumes "package_count partial len b credit cw sw = 0" and "credit > CIRCWINDOW_INCREMENT" "cw > 0" "sw > 0"
  shows "len = 0 \<or> \<not> partial \<and> len < RELAY_PAYLOAD_SIZE"
proof -
  have "cells_in partial len = 0" using assms by (auto simp: package_count_def min_def split: if_splits)
  then show ?thesis using cells_in_pos [of partial len] by (auto simp: not_le)
qed

lemma exit_stream_ok_D:
  assumes "exit_stream_ok e c k R w"
  shows "circuits_ok w R" "ec_on_circuit (w_edges w e) = Some c" "ec_cpath_layer (w_edges w e) = None"
    "\<not> cn_marked_for_close (w_edges w e)" "\<not> ci_origin (w_circs w c)" "ci_p_conn (w_circs w c) = Some k"
    "aes_ok (ci_p_crypto (w_circs w c))" "buf_inv (w_alloc w) (cn_inbuf (w_edges w e))"
    "length (buf_bytes (cn_inbuf (w_edges w e))) < int_max" "cn_read_event (w_edges w e)"
    "list_all (\<lambda>e'. cn_read_event (w_edges w e')) (ci_n_streams (w_circs w c))"
    "ci_payedWrites (w_circs w c) \<ge> - CIRCWINDOW_INCREMENT"
    "outbuf_of w k = [] \<longrightarrow> write_is_queued k CELL_NETWORK_SIZE w"
  using assms unfolding exit_stream_ok_def by auto

text \<open>The windows shrink, and the pass stops the streams when that of the stream is used up.\<close>

lemma charge_windows_ok:
  assumes layer: "ec_cpath_layer (w_edges w e) = None" and orig: "\<not> ci_origin (w_circs w c)"
    and pw: "ci_package_window (w_circs w c) > 0" and ev: "cn_read_event (w_edges w e)"
    and evs: "list_all (\<lambda>e'. cn_read_event (w_edges w e')) (ci_n_streams (w_circs w c))"
  obtains E r where
    "charge_windows e c w = OK ((upd_circ c (\<lambda>ci. ci\<lparr>ci_package_window := ci_package_window ci - 1\<rparr>) w)\<lparr>w_edges := E\<rparr>, r)"
    "\<And>e'. mask_edge (E e') = mask_edge (if e' = e then (w_edges w e)\<lparr>ec_package_window := ec_package_window (w_edges w e) - 1\<rparr> else w_edges w e')"
    "r = (if ec_package_window (w_edges w e) \<le> 1 then Some 0 else None)"
proof -
  let ?w4 = "upd_circ c (\<lambda>ci. ci\<lparr>ci_package_window := ci_package_window ci - 1\<rparr>) w"
  let ?E5 = "(w_edges w)(e := (w_edges w e)\<lparr>ec_package_window := ec_package_window (w_edges w e) - 1\<rparr>)"
  let ?w5 = "?w4\<lparr>w_edges := ?E5\<rparr>"
  let ?E6 = "?E5(e := (?E5 e)\<lparr>cn_reading := False\<rparr>)"
  have w5: "upd_edge e (\<lambda>ec. ec\<lparr>ec_package_window := ec_package_window ec - 1\<rparr>) ?w4 = ?w5" by (simp add: upd_edge_def)
  have stop: "connection_stop_reading e ?w5 = OK (?w4\<lparr>w_edges := ?E6\<rparr>)"
    using ev by (simp add: connection_stop_reading_def upd_edge_def)
  have charge: "charge_windows e c w = (if ec_package_window (w_edges w e) \<le> 1
      then rbind (circuit_consider_stop_edge_reading c None (?w4\<lparr>w_edges := ?E6\<rparr>)) (\<lambda>(w7, _). OK (w7, Some 0)) else OK (?w5, None))"
    unfolding charge_windows_def Let_def layer option.case tor_assert_holds [OF pw] rbind.simps w5 stop using layer by simp
  have "list_all (\<lambda>e'. cn_read_event (?E6 e')) (ci_n_streams (w_circs w c))"
    using evs ev by (auto simp: list_all_iff)
  then obtain E where E: "stop_reading_all (ci_n_streams (w_circs w c)) (?w4\<lparr>w_edges := ?E6\<rparr>) = OK (?w4\<lparr>w_edges := E\<rparr>)"
    "\<forall>e. mask_edge (E e) = mask_edge (?E6 e)"
    using stop_reading_all_ok [of "?w4\<lparr>w_edges := ?E6\<rparr>" "ci_n_streams (w_circs w c)"] by auto
  have m6: "mask_edge (?E6 e') = mask_edge (?E5 e')" for e' by (simp add: mask_edge_def)
  let ?stops = "ci_package_window (w_circs w c) - 1 \<le> 0 \<or> ci_payedReads (w_circs w c) \<le> CIRCWINDOW_INCREMENT"
  have look: "circuit_consider_stop_edge_reading c None (?w4\<lparr>w_edges := ?E6\<rparr>) =
      (if ?stops then OK (?w4\<lparr>w_edges := E\<rparr>, True) else OK (?w4\<lparr>w_edges := ?E6\<rparr>, False))"
    using orig E(1) by (simp add: circuit_consider_stop_edge_reading_def Let_def)
  show thesis
  proof (cases "ec_package_window (w_edges w e) \<le> 1")
    case True
    show thesis
    proof (rule that)
      show "charge_windows e c w = OK (?w4\<lparr>w_edges := (if ?stops then E else ?E6)\<rparr>, Some 0)"
        using True by (cases ?stops) (simp_all only: charge look if_True if_False rbind.simps prod.case)
      show "mask_edge ((if ?stops then E else ?E6) e') = mask_edge (if e' = e
          then (w_edges w e)\<lparr>ec_package_window := ec_package_window (w_edges w e) - 1\<rparr> else w_edges w e')" for e'
        using trans [OF spec [OF E(2), of e'] m6 [of e']] m6 [of e']
        by (cases ?stops) (simp_all only: if_True if_False fun_upd_apply)
    qed (use True in simp)
  next
    case False
    show thesis by (rule that [of ?E5 None]) (use False in \<open>simp_all add: charge\<close>)
  qed
qed

text \<open>What one piece changes: the input buffer, the windows, the crypto state and the scheduler.\<close>

definition piece_sent ::
  "'d relay_env \<Rightarrow> edge_ref \<Rightarrow> circ_ref \<Rightarrow> conn_ref \<Rightarrow> (conn_ref \<Rightarrow> circ_ref list) \<Rightarrow> 'd world \<Rightarrow> cell \<Rightarrow>
   (conn_ref \<Rightarrow> circ_ref list) \<Rightarrow> 'd world \<Rightarrow> bool" where
  "piece_sent env e c k R w cell R' w' \<longleftrightarrow>
     seal_cell (en_ops env) (ci_p_digest (w_circs w c), ci_p_crypto (w_circs w c))
       (relay_cell (ci_p_circ_id (w_circs w c)) (ec_stream_id (w_edges w e)) RELAY_COMMAND_DATA
         (take RELAY_PAYLOAD_SIZE (buf_bytes (cn_inbuf (w_edges w e))))) =
       OK ((ci_p_digest (w_circs w' c), ci_p_crypto (w_circs w' c)), cell) \<and>
     abs_sched w' R' = sched_append k c (cell_pack cell) (abs_sched w R) \<and>
     buf_bytes (cn_inbuf (w_edges w' e)) = drop RELAY_PAYLOAD_SIZE (buf_bytes (cn_inbuf (w_edges w e))) \<and>
     ci_package_window (w_circs w' c) = ci_package_window (w_circs w c) - 1 \<and>
     ec_package_window (w_edges w' e) = ec_package_window (w_edges w e) - 1 \<and>
     ci_p_circ_id (w_circs w' c) = ci_p_circ_id (w_circs w c) \<and> ec_stream_id (w_edges w' e) = ec_stream_id (w_edges w e)"

text \<open>The world between the queueing of a piece and the charging of the windows.\<close>

definition piece_queued ::
  "'d relay_env \<Rightarrow> edge_ref \<Rightarrow> circ_ref \<Rightarrow> conn_ref \<Rightarrow> (conn_ref \<Rightarrow> circ_ref list) \<Rightarrow> 'd world \<Rightarrow> chunk_alloc \<Rightarrow> buf \<Rightarrow>
   'd \<Rightarrow> aes_cnt_cipher \<Rightarrow> cell \<Rightarrow> (conn_ref \<Rightarrow> circ_ref list) \<Rightarrow> 'd world \<Rightarrow> bool" where
  "piece_queued env e c k R w st b d a cell R' w3 \<longleftrightarrow> circuits_ok w3 R' \<and>
     seal_cell (en_ops env) (ci_p_digest (w_circs w c), ci_p_crypto (w_circs w c)) (relay_cell (ci_p_circ_id (w_circs w c))
       (ec_stream_id (w_edges w e)) RELAY_COMMAND_DATA (take RELAY_PAYLOAD_SIZE (buf_bytes (cn_inbuf (w_edges w e))))) = OK ((d, a), cell) \<and>
     aes_ok a \<and> abs_sched w3 R' = sched_append k c (cell_pack cell) (abs_sched w R) \<and>
     mask_circ (w_circs w3 c) = mask_circ ((paid_circ (w_CloseUnpaid w) CELL_DIRECTION_IN (w_circs w c))\<lparr>ci_p_digest := d, ci_p_crypto := a\<rparr>) \<and>
     (\<forall>e'. mask_edge (w_edges w3 e') = mask_edge (if e' = e then (w_edges w e)\<lparr>cn_inbuf := b\<rparr> else w_edges w e')) \<and>
     w_CloseUnpaid w3 = w_CloseUnpaid w \<and> same_build st (w_alloc w3)"

lemma piece_queued_D:
  assumes "piece_queued env e c k R w st b d a cell R' w3"
  shows "circuits_ok w3 R'" "aes_ok a" "abs_sched w3 R' = sched_append k c (cell_pack cell) (abs_sched w R)"
    "mask_circ (w_circs w3 c) = mask_circ ((paid_circ (w_CloseUnpaid w) CELL_DIRECTION_IN (w_circs w c))\<lparr>ci_p_digest := d, ci_p_crypto := a\<rparr>)"
    "mask_edge (w_edges w3 e') = mask_edge (if e' = e then (w_edges w e)\<lparr>cn_inbuf := b\<rparr> else w_edges w e')"
    "w_CloseUnpaid w3 = w_CloseUnpaid w" "same_build st (w_alloc w3)"
    "seal_cell (en_ops env) (ci_p_digest (w_circs w c), ci_p_crypto (w_circs w c)) (relay_cell (ci_p_circ_id (w_circs w c))
       (ec_stream_id (w_edges w e)) RELAY_COMMAND_DATA (take RELAY_PAYLOAD_SIZE (buf_bytes (cn_inbuf (w_edges w e))))) = OK ((d, a), cell)"
  using assms by (simp_all add: piece_queued_def)

lemma queued_read_events:
  assumes q: "piece_queued env e c k R w st b d a cell R' w3" and S: "exit_stream_ok e c k R w"
  shows "list_all (\<lambda>e'. cn_read_event (w_edges w3 e')) (e # ci_n_streams (w_circs w3 c))"
proof -
  have "cn_read_event (w_edges w3 e') = cn_read_event (w_edges w e')" for e'
    using mask_edge_D(5) [OF piece_queued_D(5) [OF q, of e']] by (auto split: if_splits)
  then show ?thesis
    using exit_stream_ok_D(10,11) [OF S] mask_circ_D(15) [OF piece_queued_D(4) [OF q]] by simp
qed

text \<open>One piece that has left the input buffer is queued as a sealed cell.\<close>

lemma send_piece:
  assumes S: "exit_stream_ok e c k R w" and n: "0 < exit_count partial e c w"
    and dl: "digest_lengths (en_ops env)" and hw: "\<forall>k w. same_streams w (fst (en_hw env k w))"
    and st: "alloc_ok st" "same_build (w_alloc w) st"
  obtains w3 R' d a cell where
    "connection_edge_send_command env e RELAY_COMMAND_DATA (take RELAY_PAYLOAD_SIZE (buf_bytes (cn_inbuf (w_edges w e))))
       (upd_edge e (\<lambda>ec. ec\<lparr>cn_inbuf := b\<rparr>) (w\<lparr>w_alloc := st, w_data_bytes_packaged := x, w_data_cells_packaged := y\<rparr>)) = OK (w3, 0)"
    "piece_queued env e c k R w st b d a cell R' w3"
proof -
  note D = exit_stream_ok_D [OF S]
  define payload where "payload = take RELAY_PAYLOAD_SIZE (buf_bytes (cn_inbuf (w_edges w e)))"
  then have len: "length payload \<le> RELAY_PAYLOAD_SIZE" by simp
  define w2 where w2: "w2 = upd_edge e (\<lambda>ec. ec\<lparr>cn_inbuf := b\<rparr>)
    (w\<lparr>w_alloc := st, w_data_bytes_packaged := x, w_data_cells_packaged := y\<rparr>)"
  let ?wa = "w\<lparr>w_alloc := st\<rparr>"
  have sr: "same_rings ?wa w2" by (simp add: w2 same_rings_def upd_edge_def)
  have ok2: "circuits_ok w2 R" and abs2: "abs_sched w2 R = abs_sched w R"
    using same_rings_ok [OF sr] circuits_ok_alloc [OF D(1) st(2,1)] by simp_all
  have circs: "w_circs w2 = w_circs w" "w_CloseUnpaid w2 = w_CloseUnpaid w" by (simp_all add: w2)
  have credit: "ci_payedReads (w_circs w c) > CIRCWINDOW_INCREMENT"
    using package_count_step(1) [OF n [unfolded exit_count_def]] .
  have paid: "affordable (w_CloseUnpaid w2) CELL_DIRECTION_IN (w_circs w2 c)"
    using credit D(12) by (simp add: affordable_def paid_circ_def circs CIRCWINDOW_INCREMENT_def)
  have wq: "outbuf_of w2 k = [] \<longrightarrow> write_is_queued k CELL_NETWORK_SIZE w2"
    using D(13) by (simp add: w2 outbuf_of_def write_is_queued_def)
  have c2: "\<not> ci_origin (w_circs w2 c)" "ci_p_conn (w_circs w2 c) = Some k" "aes_ok (ci_p_crypto (w_circs w2 c))"
    using D(5,6,7) circs by simp_all
  obtain circ' cell' w' R' v where s: "package_in (en_ops env) (paid_circ (w_CloseUnpaid w2) CELL_DIRECTION_IN (w_circs w2 c))
       (relay_cell (ci_p_circ_id (w_circs w2 c)) (ec_stream_id (w_edges w e)) RELAY_COMMAND_DATA payload) = OK (circ', cell')"
    "relay_send_command_from_edge env (ec_stream_id (w_edges w e)) c RELAY_COMMAND_DATA payload None w2 = OK (w', 0)" "circuits_ok w' R'"
    "abs_sched w' R' = sched_append k c (cell_pack cell') (abs_sched w2 R)"
    "v = (upd_circ c (\<lambda>_. circ') w2)\<lparr>w_relay_cells_relayed := w_relay_cells_relayed w2 + 1\<rparr>" "same_streams v w'"
    "\<exists>d a. aes_ok a \<and> circ' = (paid_circ (w_CloseUnpaid w2) CELL_DIRECTION_IN (w_circs w2 c))\<lparr>ci_p_digest := d, ci_p_crypto := a\<rparr>"
    "length (ce_payload cell') = CELL_PAYLOAD_SIZE"
    by (rule send_in [OF ok2 c2(1,2) paid len c2(3) dl wq hw])
  from s(1) obtain d a where da: "seal_cell (en_ops env) (ci_p_digest (w_circs w c), ci_p_crypto (w_circs w c))
      (relay_cell (ci_p_circ_id (w_circs w c)) (ec_stream_id (w_edges w e)) RELAY_COMMAND_DATA payload) = OK ((d, a), cell')"
    "circ' = (paid_circ (w_CloseUnpaid w) CELL_DIRECTION_IN (w_circs w c))\<lparr>ci_p_digest := d, ci_p_crypto := a\<rparr>"
    unfolding package_in_seal circs by auto
  note ss = same_streams_D [OF s(6)]
  have "aes_ok (ci_p_crypto circ')" using s(7) by auto
  then have "piece_queued env e c k R w st b d a cell' R' w'"
    unfolding piece_queued_def using s(3,4,5) da ss abs2 circs by (simp add: payload_def [symmetric]) (simp add: w2)
  moreover have "connection_edge_send_command env e RELAY_COMMAND_DATA payload w2 = OK (w', 0)"
    using D(2,3,4) s(2) by (simp add: connection_edge_send_command_def w2)
  ultimately show thesis using that unfolding payload_def w2 by blast
qed

text \<open>After the charge, the stream is in order again.\<close>

lemma charged_stream:
  assumes S: "exit_stream_ok e c k R w" and q: "piece_queued env e c k R w st b d a cell R' w3"
    and b: "buf_bytes b = drop RELAY_PAYLOAD_SIZE (buf_bytes (cn_inbuf (w_edges w e)))" "buf_inv st b"
    and E: "\<And>e'. mask_edge (E e') = mask_edge (if e' = e
        then (w_edges w3 e)\<lparr>ec_package_window := ec_package_window (w_edges w3 e) - 1\<rparr> else w_edges w3 e')"
    and w': "w' = (upd_circ c (\<lambda>ci. ci\<lparr>ci_package_window := ci_package_window ci - 1\<rparr>) w3)\<lparr>w_edges := E\<rparr>"
  shows "exit_stream_ok e c k R' w'" "piece_sent env e c k R w cell R' w'"
    "0 < exit_count partial e c w \<Longrightarrow> exit_count partial e c w' = exit_count partial e c w - 1"
proof -
  note D = exit_stream_ok_D [OF S]
  note Q = piece_queued_D [OF q]
  note mc = mask_circ_D [OF Q(4), simplified]
  note me = mask_edge_D [OF Q(5) [of e], simplified]
  note mE = mask_edge_D [OF E [of e], simplified]
  have "same_rings w3 w'" by (simp add: w' same_rings_def upd_circ_def ring_part_def)
  note sr = same_rings_ok [OF this] same_rings_views [OF this]
  have "cell_pack cell \<noteq> []" by (simp add: cell_pack_def be16_def)
  then have "sc_out (abs_sched w3 R') k \<noteq> []"
    unfolding Q(3) using abs_sched_nonempty [OF D(1)] by (intro sched_append_nonempty) blast+
  then have out: "outbuf_of w' k \<noteq> []" by (simp add: sr abs_sched_def)
  have inv: "buf_inv (w_alloc w3) b"
    using buf_inv_same_build [OF b(2) Q(7)] circuits_ok_D(1) [OF Q(1)] by (auto simp: or_conns_wf_def buf_inv_iff)
  have "cn_read_event (E e') = cn_read_event (w_edges w3 e')" for e'
    using mask_edge_D(5) [OF E [of e']] by (auto split: if_splits)
  then have ev': "list_all (\<lambda>e'. cn_read_event (w_edges w' e')) (e # ci_n_streams (w_circs w' c))"
    using queued_read_events [OF q S] by (simp add: w')
  show "exit_stream_ok e c k R' w'"
    unfolding exit_stream_ok_def using D mc me mE b(1) Q(1,2) sr out inv ev' by (simp add: paid_circ_def w')
  show "piece_sent env e c k R w cell R' w'"
    unfolding piece_sent_def using Q(3,8) sr mc me mE b(1) by (simp add: w')
  assume n: "0 < exit_count partial e c w"
  have "exit_count partial e c w' = package_count partial (length (buf_bytes (cn_inbuf (w_edges w e))) - RELAY_PAYLOAD_SIZE) (w_CloseUnpaid w)
      (if w_CloseUnpaid w then ci_payedReads (w_circs w c) - 1 else ci_payedReads (w_circs w c))
      (ci_package_window (w_circs w c) - 1) (ec_package_window (w_edges w e) - 1)"
    using mc me mE b(1) Q(6) by (simp add: exit_count_def paid_circ_def w')
  then show "exit_count partial e c w' = exit_count partial e c w - 1"
    unfolding package_count_step(5) [OF n [unfolded exit_count_def]] by (simp add: exit_count_def)
qed

lemma package_pass_sends:
  assumes S: "exit_stream_ok e c k R w" and n: "0 < exit_count partial e c w"
    and dl: "digest_lengths (en_ops env)" and hw: "\<forall>k w. same_streams w (fst (en_hw env k w))"
  obtains w' R' r cell where "package_pass env e partial w = OK (w', r)" "exit_stream_ok e c k R' w'"
    "exit_count partial e c w' = exit_count partial e c w - 1"
    "r = None \<or> r = Some 0 \<and> exit_count partial e c w' = 0" "piece_sent env e c k R w cell R' w'"
proof -
  note D = exit_stream_ok_D [OF S]
  let ?in = "cn_inbuf (w_edges w e)"
  let ?bs = "buf_bytes ?in"
  note step = package_count_step [OF n [unfolded exit_count_def]]
  have dlen: "buf_datalen ?in = length ?bs" using D(8) by (simp add: buf_inv_iff)
  have bs: "0 < length ?bs" "\<not> (\<not> partial \<and> length ?bs < RELAY_PAYLOAD_SIZE)" using step(4) unfolding cells_in_pos by auto
  define len where "len = (if length ?bs > RELAY_PAYLOAD_SIZE then RELAY_PAYLOAD_SIZE else length ?bs)"
  have len: "len \<le> length ?bs" "take len ?bs = take RELAY_PAYLOAD_SIZE ?bs" "drop len ?bs = drop RELAY_PAYLOAD_SIZE ?bs"
    by (auto simp: len_def)
  obtain st b where f: "fetch_from_buf (w_alloc w) ?in len = OK (take RELAY_PAYLOAD_SIZE ?bs, st, b)"
    "buf_bytes b = drop RELAY_PAYLOAD_SIZE ?bs" "buf_inv st b" "same_build (w_alloc w) st"
    using fetch_from_buf_ok [OF D(8) len(1) D(9)] unfolding len(2,3) by blast
  have st: "alloc_ok st" using f(3) by (simp add: buf_inv_iff)
  obtain w3 R' d a cell where s:
    "connection_edge_send_command env e RELAY_COMMAND_DATA (take RELAY_PAYLOAD_SIZE ?bs)
      (upd_edge e (\<lambda>ec. ec\<lparr>cn_inbuf := b\<rparr>) (w\<lparr>w_alloc := st, w_data_bytes_packaged := w_data_bytes_packaged w + len,
        w_data_cells_packaged := w_data_cells_packaged w + 1\<rparr>)) = OK (w3, 0)"
    and q: "piece_queued env e c k R w st b d a cell R' w3"
    by (rule send_piece [OF S n dl hw st f(4)])
  note mc = mask_circ_D [OF piece_queued_D(4) [OF q], simplified]
  note me = mask_edge_D [OF piece_queued_D(5) [OF q, of e], simplified]
  obtain E r where ch:
    "charge_windows e c w3 = OK ((upd_circ c (\<lambda>ci. ci\<lparr>ci_package_window := ci_package_window ci - 1\<rparr>) w3)\<lparr>w_edges := E\<rparr>, r)"
    "\<And>e'. mask_edge (E e') = mask_edge (if e' = e then (w_edges w3 e)\<lparr>ec_package_window := ec_package_window (w_edges w3 e) - 1\<rparr> else w_edges w3 e')"
    "r = (if ec_package_window (w_edges w3 e) \<le> 1 then Some 0 else None)"
    by (rule charge_windows_ok [of w3 e c]) (use D mc me step queued_read_events [OF q S] in simp_all)
  let ?w' = "(upd_circ c (\<lambda>ci. ci\<lparr>ci_package_window := ci_package_window ci - 1\<rparr>) w3)\<lparr>w_edges := E\<rparr>"
  note charged = charged_stream [OF S q f(2,3) ch(2) refl]
  have "package_pass env e partial w = OK (?w', r)"
    using D(2,3,5) step(1-3) bs f(1) s ch(1)
    by (cases partial) (simp_all add: package_pass_def circuit_get_by_edge_conn_def circuit_consider_stop_edge_reading_def
        Let_def dlen len_def [symmetric])
  moreover have "r = None \<or> r = Some 0 \<and> exit_count partial e c ?w' = 0"
    using ch(3) charged(2) me(9) by (auto simp: exit_count_def package_count_def piece_sent_def)
  ultimately show thesis using that charged(1,2) charged(3) [OF n] by blast
qed

lemma package_pass_stops:
  assumes S: "exit_stream_ok e c k R w" and n: "exit_count partial e c w = 0"
  shows "\<exists>E. package_pass env e partial w = OK (w\<lparr>w_edges := E\<rparr>, Some 0) \<and> (\<forall>e. mask_edge (E e) = mask_edge (w_edges w e))"
proof -
  note D = exit_stream_ok_D [OF S]
  have dlen: "buf_datalen (cn_inbuf (w_edges w e)) = length (buf_bytes (cn_inbuf (w_edges w e)))"
    using D(8) by (simp add: buf_inv_iff)
  consider (stop) "ci_package_window (w_circs w c) \<le> 0 \<or> ci_payedReads (w_circs w c) \<le> CIRCWINDOW_INCREMENT"
    | (stream) "\<not> (ci_package_window (w_circs w c) \<le> 0 \<or> ci_payedReads (w_circs w c) \<le> CIRCWINDOW_INCREMENT)"
        "ec_package_window (w_edges w e) \<le> 0"
    | (data) "\<not> (ci_package_window (w_circs w c) \<le> 0 \<or> ci_payedReads (w_circs w c) \<le> CIRCWINDOW_INCREMENT)"
        "\<not> ec_package_window (w_edges w e) \<le> 0" by blast
  then show ?thesis
  proof cases
    case stop
    then show ?thesis using stop_reading_all_ok [OF D(11)] D(2,3,5)
      by (auto simp: package_pass_def circuit_get_by_edge_conn_def circuit_consider_stop_edge_reading_def)
  next
    case stream
    let ?E = "(w_edges w)(e := (w_edges w e)\<lparr>cn_reading := False\<rparr>)"
    have "package_pass env e partial w = OK (w\<lparr>w_edges := ?E\<rparr>, Some 0)"
      using stream D(2,3,5,10)
      by (simp add: package_pass_def circuit_get_by_edge_conn_def circuit_consider_stop_edge_reading_def
          connection_stop_reading_def upd_edge_def)
    then show ?thesis by (auto simp: mask_edge_def intro!: exI [of _ ?E])
  next
    case data
    then have "length (buf_bytes (cn_inbuf (w_edges w e))) = 0 \<or>
        \<not> partial \<and> length (buf_bytes (cn_inbuf (w_edges w e))) < RELAY_PAYLOAD_SIZE"
      using package_count_end [OF n [unfolded exit_count_def]] by simp
    then have "package_pass env e partial w = OK (w, Some 0)"
      using data D(2,3,5)
      by (auto simp: package_pass_def circuit_get_by_edge_conn_def circuit_consider_stop_edge_reading_def Let_def dlen)
    then show ?thesis by (auto intro!: exI [of _ "w_edges w"])
  qed
qed

text \<open>What \<open>n\<close> pieces change.\<close>

definition pieces_sent ::
  "'d relay_env \<Rightarrow> edge_ref \<Rightarrow> circ_ref \<Rightarrow> conn_ref \<Rightarrow> nat \<Rightarrow> (conn_ref \<Rightarrow> circ_ref list) \<Rightarrow> 'd world \<Rightarrow> 'd world \<Rightarrow> bool" where
  "pieces_sent env e c k n R w w' \<longleftrightarrow> (\<exists>R' cells da. circuits_ok w' R' \<and>
     seal_cells (en_ops env) (ci_p_digest (w_circs w c), ci_p_crypto (w_circs w c))
       (map (relay_cell (ci_p_circ_id (w_circs w c)) (ec_stream_id (w_edges w e)) RELAY_COMMAND_DATA)
         (pieces n (buf_bytes (cn_inbuf (w_edges w e))))) = OK (da, cells) \<and>
     abs_sched w' R' = fold (\<lambda>cell. sched_append k c (cell_pack cell)) cells (abs_sched w R) \<and>
     buf_bytes (cn_inbuf (w_edges w' e)) = drop (n * RELAY_PAYLOAD_SIZE) (buf_bytes (cn_inbuf (w_edges w e))) \<and>
     ci_package_window (w_circs w' c) = ci_package_window (w_circs w c) - int n \<and>
     ec_package_window (w_edges w' e) = ec_package_window (w_edges w e) - int n)"

lemma pieces_sent_0:
  assumes "circuits_ok w R" and "mask_edge (E e) = mask_edge (w_edges w e)"
  shows "pieces_sent env e c k 0 R w (w\<lparr>w_edges := E\<rparr>)"
  unfolding pieces_sent_def using assms(1) mask_edge_D(1,9) [OF assms(2)]
  by (intro exI [of _ R]) (simp add: circuits_ok_edges)

lemma pieces_sent_Suc:
  assumes "piece_sent env e c k R w cell R1 w1" and "pieces_sent env e c k n R1 w1 w'"
  shows "pieces_sent env e c k (Suc n) R w w'"
proof -
  note s = assms(1) [unfolded piece_sent_def]
  from assms(2) obtain R' cells da where IH: "circuits_ok w' R'"
    "seal_cells (en_ops env) (ci_p_digest (w_circs w1 c), ci_p_crypto (w_circs w1 c))
      (map (relay_cell (ci_p_circ_id (w_circs w1 c)) (ec_stream_id (w_edges w1 e)) RELAY_COMMAND_DATA)
        (pieces n (buf_bytes (cn_inbuf (w_edges w1 e))))) = OK (da, cells)"
    "abs_sched w' R' = fold (\<lambda>cell. sched_append k c (cell_pack cell)) cells (abs_sched w1 R1)"
    "buf_bytes (cn_inbuf (w_edges w' e)) = drop (n * RELAY_PAYLOAD_SIZE) (buf_bytes (cn_inbuf (w_edges w1 e)))"
    "ci_package_window (w_circs w' c) = ci_package_window (w_circs w1 c) - int n"
    "ec_package_window (w_edges w' e) = ec_package_window (w_edges w1 e) - int n"
    unfolding pieces_sent_def by blast
  show ?thesis
    unfolding pieces_sent_def
    by (intro exI [of _ R'] exI [of _ "cell # cells"] exI [of _ da]) (use IH s in \<open>simp add: add.commute\<close>)
qed

lemma package_loop_sends:
  assumes dl: "digest_lengths (en_ops env)" and hw: "\<forall>k w. same_streams w (fst (en_hw env k w))"
    and "exit_stream_ok e c k R w" and "n = exit_count partial e c w"
  shows "\<exists>w'. iterate (package_pass env e partial) w = Some (OK (w', 0)) \<and> pieces_sent env e c k n R w w'"
  using assms(3,4)
proof (induction n arbitrary: w R)
  case 0
  obtain E where "package_pass env e partial w = OK (w\<lparr>w_edges := E\<rparr>, Some 0)" "mask_edge (E e) = mask_edge (w_edges w e)"
    using package_pass_stops [OF 0(1)] 0(2) by metis
  with exit_stream_ok_D(1) [OF 0(1)] show ?case by (simp add: iterate.simps pieces_sent_0)
next
  case (Suc n)
  obtain w1 R1 r cell where p: "package_pass env e partial w = OK (w1, r)" "exit_stream_ok e c k R1 w1"
    "exit_count partial e c w1 = exit_count partial e c w - 1"
    "r = None \<or> r = Some 0 \<and> exit_count partial e c w1 = 0" and sent: "piece_sent env e c k R w cell R1 w1"
    using package_pass_sends [OF Suc.prems(1) _ dl hw] Suc.prems(2) by (metis zero_less_Suc)
  have n: "n = exit_count partial e c w1" using p(3) Suc.prems(2) by simp
  show ?case
  proof (cases r)
    case None
    with p(1) have "iterate (package_pass env e partial) w = iterate (package_pass env e partial) w1"
      by (simp add: iterate.simps [of _ w])
    with Suc.IH [OF p(2) n] pieces_sent_Suc [OF sent] show ?thesis by auto
  next
    case (Some x)
    with p(1,4) n have "n = 0" "iterate (package_pass env e partial) w = Some (OK (w1, 0))"
      by (auto simp: iterate.simps)
    moreover have "pieces_sent env e c k 0 R1 w1 w1"
      using pieces_sent_0 [OF exit_stream_ok_D(1) [OF p(2)], of "w_edges w1" e] by simp
    ultimately show ?thesis using pieces_sent_Suc [OF sent] by auto
  qed
qed

subsection \<open>A command of the origin reaches its hop\<close>

lemma package_out_parts:
  assumes "package_out ops circ cell layer = OK (circ', cell')" and "fresh_payload (ce_payload cell)" and "digest_lengths ops"
    and "list_all (\<lambda>h. aes_ok (cp_f_crypto h)) (ci_cpath circ)"
  shows "circ' = circ\<lparr>ci_cpath := ci_cpath circ'\<rparr>" "ce_command cell' = ce_command cell"
    "length (ce_payload cell') = CELL_PAYLOAD_SIZE"
proof -
  obtain d cell1 where d: "relay_set_digest ops (cp_f_digest (ci_cpath circ ! layer)) cell = (d, cell1)" by fastforce
  let ?cpath = "(ci_cpath circ)[layer := (ci_cpath circ ! layer)\<lparr>cp_f_digest := d\<rparr>]"
  note rs = relay_set_digest_payload [OF d assms(2,3)]
  from assms(1) d obtain hops where h: "package_out_loop (take (layer + 1) ?cpath) (ce_payload cell1) = OK (hops, ce_payload cell')"
    and c: "circ' = circ\<lparr>ci_cpath := hops @ drop (layer + 1) ?cpath\<rparr>" and l: "layer < length (ci_cpath circ)"
    and cell': "cell' = cell1\<lparr>ce_payload := ce_payload cell'\<rparr>"
    by (cases "package_out_loop (take (layer + 1) ?cpath) (ce_payload cell1)")
      (auto simp: package_out_def Let_def split: if_splits)
  show "circ' = circ\<lparr>ci_cpath := ci_cpath circ'\<rparr>" by (simp add: c)
  show "ce_command cell' = ce_command cell" using arg_cong [OF cell', of ce_command] arg_cong [OF rs(4), of ce_command] by simp
  have "list_all (\<lambda>h. aes_ok (cp_f_crypto h)) (take (layer + 1) ?cpath)"
    using assms(4) l by (auto simp: list_all_length nth_list_update)
  from package_out_loop_ok [OF this, of "ce_payload cell1"] h rs(1) show "length (ce_payload cell') = CELL_PAYLOAD_SIZE" by auto
qed

text \<open>Whether a command is sent in a RELAY\_EARLY cell, and the circuit after that choice.\<close>

definition goes_early :: "byte \<Rightarrow> nat \<Rightarrow> 'd circuit \<Rightarrow> bool" where
  "goes_early cmd layer ci \<longleftrightarrow> ci_remaining_relay_early_cells ci > 0 \<and> cmd \<noteq> RELAY_COMMAND_MESSAGE \<and>
     (cmd = RELAY_COMMAND_EXTEND \<or> layer \<noteq> 0)"

definition early_ok :: "'d circuit \<Rightarrow> bool" where
  "early_ok ci \<longleftrightarrow> length (ci_relay_early_commands ci) + ci_remaining_relay_early_cells ci \<le> MAX_RELAY_EARLY_CELLS_PER_CIRCUIT"

lemma use_relay_early_ok:
  assumes "ci_origin (w_circs w c)" and "early_ok (w_circs w c)"
  obtains f where "use_relay_early cmd layer c cell w =
      OK (if goes_early cmd layer (w_circs w c) then cell\<lparr>ce_command := CELL_RELAY_EARLY\<rparr> else cell, upd_circ c f w)"
    "early_ok (f (w_circs w c))" "\<And>ci. ring_part (f ci) = ring_part ci" "\<And>ci. ci_cpath (f ci) = ci_cpath ci"
    "\<And>ci. ci_origin (f ci) = ci_origin ci" "\<And>ci. ci_n_conn (f ci) = ci_n_conn ci"
proof (cases "goes_early cmd layer (w_circs w c)")
  case True
  with assms show thesis
    by (intro that [of "\<lambda>ci. ci\<lparr>ci_remaining_relay_early_cells := ci_remaining_relay_early_cells ci - 1,
          ci_relay_early_commands := ci_relay_early_commands ci @ [cmd]\<rparr>"])
      (auto simp: use_relay_early_def goes_early_def early_ok_def Let_def ring_part_def)
next
  case False
  have "upd_circ c (\<lambda>ci. ci) w = w" by (simp add: upd_circ_def)
  with False assms show thesis
    by (intro that [of "\<lambda>ci. ci"]) (auto simp: use_relay_early_def goes_early_def early_ok_def Let_def)
qed

lemma send_out:
  assumes ok: "circuits_ok w R" and c: "ci_origin (w_circs w c)" "ci_n_conn (w_circs w c) = Some k"
    and paid: "affordable (w_CloseUnpaid w) CELL_DIRECTION_OUT (w_circs w c)" and len: "length payload \<le> RELAY_PAYLOAD_SIZE"
    and early: "early_ok (w_circs w c)"
    and sync: "list_all2 out_synced (ci_cpath (w_circs w c)) rs" "layer < length rs" and dl: "digest_lengths (en_ops env)"
    and wq: "outbuf_of w k = [] \<longrightarrow> write_is_queued k CELL_NETWORK_SIZE w"
    and hw: "\<forall>k w. same_streams w (fst (en_hw env k w))"
  shows "\<exists>w' R' wrapped rs' cell' j. relay_send_command_from_edge env sid c cmd payload (Some layer) w = OK (w', 0) \<and>
    circuits_ok w' R' \<and> abs_sched w' R' = sched_append k c (cell_pack (on_wire w k wrapped)) (abs_sched w R) \<and>
    ce_command wrapped = (if goes_early cmd layer (w_circs w c) then CELL_RELAY_EARLY else CELL_RELAY) \<and>
    early_ok (w_circs w' c) \<and> forward_cell (en_ops env) rs wrapped = OK (rs', cell', Some j) \<and> j \<le> layer \<and>
    lands_at (en_ops env) (forward_keys (take (Suc layer) (ci_cpath (w_circs w c))))
      (stamped (en_ops env) (cp_f_digest (ci_cpath (w_circs w c) ! layer)) (ce_payload (relay_cell 0 sid cmd payload))) j \<and>
    (j = layer \<longrightarrow> relay_header_unpack (ce_payload cell') = relay_header_for sid cmd payload \<and>
       relay_body (ce_payload cell') = payload \<and> list_all2 out_synced (ci_cpath (w_circs w' c)) rs')"
proof -
  let ?cell = "relay_cell (ci_n_circ_id (w_circs w c)) sid cmd payload"
  let ?cell1 = "if goes_early cmd layer (w_circs w c) then ?cell\<lparr>ce_command := CELL_RELAY_EARLY\<rparr> else ?cell"
  let ?w1 = "pay_for_cell CELL_DIRECTION_OUT c w"
  let ?w2 = "upd_conn k (\<lambda>oc. oc\<lparr>oc_client_used := w_now ?w1\<rparr>) ?w1"
  note parts = relay_cell_parts [OF len]
  have payload1: "ce_payload ?cell1 = ce_payload ?cell" by simp
  have w2: "w_circs ?w2 c = paid_circ (w_CloseUnpaid w) CELL_DIRECTION_OUT (w_circs w c)" by (simp add: pay_for_cell_eq)
  obtain f where f: "use_relay_early cmd layer c ?cell ?w2 = OK (?cell1, upd_circ c f ?w2)" "early_ok (f (w_circs ?w2 c))"
    "\<And>ci. ring_part (f ci) = ring_part ci" "\<And>ci. ci_cpath (f ci) = ci_cpath ci" "\<And>ci. ci_origin (f ci) = ci_origin ci"
    "\<And>ci. ci_n_conn (f ci) = ci_n_conn ci"
    using use_relay_early_ok [of ?w2 c cmd layer ?cell] c(1) early unfolding w2 by (auto simp: early_ok_def goes_early_def)
  let ?w3 = "upd_circ c f ?w2"
  have c3: "ci_cpath (w_circs ?w3 c) = ci_cpath (w_circs w c)" "ci_origin (w_circs ?w3 c)" "ci_n_conn (w_circs ?w3 c) = Some k"
    using c w2 f(4-6) by simp_all
  have fresh: "fresh_payload (ce_payload ?cell1)" using parts(4) payload1 by simp
  from forward_delivery [OF dl fresh, of "w_circs ?w3 c" rs layer] sync c3(1) obtain circ' wrapped rs' cell' j where
    p: "package_out (en_ops env) (w_circs ?w3 c) ?cell1 layer = OK (circ', wrapped)"
    and fw: "forward_cell (en_ops env) rs wrapped = OK (rs', cell', Some j)" "j \<le> layer"
    "lands_at (en_ops env) (forward_keys (take (Suc layer) (ci_cpath (w_circs ?w3 c))))
      (stamped (en_ops env) (cp_f_digest (ci_cpath (w_circs ?w3 c) ! layer)) (ce_payload ?cell1)) j"
    "j = layer \<longrightarrow> cell' = ?cell1 \<and> list_all2 out_synced (ci_cpath circ') rs'" by auto
  have "list_all (\<lambda>h. aes_ok (cp_f_crypto h)) (ci_cpath (w_circs ?w3 c))"
    unfolding c3(1) using sync(1) by (auto simp: list_all_iff list_all2_conv_all_nth in_set_conv_nth out_synced_def out_keyed_def)
  note pp = package_out_parts [OF p fresh dl this]
  let ?v = "(upd_circ c (\<lambda>_. circ') ?w3)\<lparr>w_relay_cells_relayed := w_relay_cells_relayed (upd_circ c (\<lambda>_. circ') ?w3) + 1\<rparr>"
  have "ring_part circ' = ring_part (w_circs w c)"
    by (subst pp(1)) (simp add: ring_part_def [of "_\<lparr>ci_cpath := _\<rparr>"], simp add: ring_part_def [symmetric] f(3) pay_for_cell_eq)
  then have same: "same_rings w ?v" by (simp add: same_rings_def upd_circ_def upd_conn_def pay_for_cell_eq conn_part_def)
  have wo: "writes_on w c k CELL_DIRECTION_OUT" using c by (simp add: writes_on_def)
  obtain w' R' where q: "append_cell_to_circuit_queue (en_hw env) c k wrapped CELL_DIRECTION_OUT ?v = OK w'"
    "circuits_ok w' R'" "abs_sched w' R' = sched_append k c (cell_pack (on_wire w k wrapped)) (abs_sched w R)" "same_streams ?v w'"
    using queue_packaged [OF ok wo pp(3) wq hw same] by blast
  note mc = mask_circ_D [OF same_streams_D(1) [OF q(4), of c], simplified]
  have "early_ok circ'" by (subst pp(1)) (use f(2) in \<open>simp add: early_ok_def\<close>)
  then have early': "early_ok (w_circs w' c)" using mc by (simp add: early_ok_def)
  have "circuit_package_relay_cell env ?cell1 c CELL_DIRECTION_OUT (Some layer) ?w3 = OK (w', 0)"
    using c3(2,3) p q(1) by (simp add: circuit_package_relay_cell_def Let_def)
  then have "relay_send_command_from_edge env sid c cmd payload (Some layer) w = OK (w', 0)"
    using affordable_unpaid [OF paid] len c(2) f(1) by (simp add: relay_send_command_from_edge_def Let_def)
  moreover have "ce_payload ?cell1 = ce_payload (relay_cell 0 sid cmd payload)" by (simp add: relay_cell_def Let_def)
  note fw(3) [unfolded c3(1) this]
  ultimately show ?thesis using q(2,3) early' fw(1,2,4) pp(2) mc(2) parts payload1
    by (intro exI [of _ w'] exI [of _ R'] exI [of _ wrapped] exI [of _ rs'] exI [of _ cell'] exI [of _ j]) auto
qed

subsection \<open>The properties\<close>

text \<open>
  C4: a command of the origin reaches the hop it is for.  Let an origin circuit, paid for, share keys and
  digests with the relays of its path.  \<^verbatim>\<open>relay_send_command_from_edge\<close> to hop \<open>layer\<close> succeeds and queues
  exactly one cell on the circuit's connection, in turn with the other circuits there.  That cell, sent
  through the relays, is taken by exactly the first hop that reads the command's payload, stamped with the
  digest of hop \<open>layer\<close>, as its own with the layers of the later hops still on it; hop \<open>layer\<close> always does.
  When no earlier hop does, hop \<open>layer\<close> reads the stream ID, the command and the payload that were sent, and
  all keys stay paired.  The command cell is RELAY\_EARLY exactly
  when the budget and the command allow it, and the budget of RELAY\_EARLY cells is never exceeded.
\<close>

theorem relay_command_reaches_hop:
  assumes "circuits_ok w R" and "ci_origin (w_circs w c)" and "ci_n_conn (w_circs w c) = Some k"
    and "affordable (w_CloseUnpaid w) CELL_DIRECTION_OUT (w_circs w c)" and "length payload \<le> RELAY_PAYLOAD_SIZE"
    and "early_ok (w_circs w c)" and "list_all2 out_synced (ci_cpath (w_circs w c)) rs" and "layer < length rs"
    and "digest_lengths (en_ops env)" and "outbuf_of w k = [] \<longrightarrow> write_is_queued k CELL_NETWORK_SIZE w"
    and "\<forall>k w. same_streams w (fst (en_hw env k w))"
  shows "\<exists>w' R' wrapped rs' cell' j. relay_send_command_from_edge env sid c cmd payload (Some layer) w = OK (w', 0) \<and>
    circuits_ok w' R' \<and> abs_sched w' R' = sched_append k c (cell_pack (on_wire w k wrapped)) (abs_sched w R) \<and>
    ce_command wrapped = (if goes_early cmd layer (w_circs w c) then CELL_RELAY_EARLY else CELL_RELAY) \<and>
    early_ok (w_circs w' c) \<and> forward_cell (en_ops env) rs wrapped = OK (rs', cell', Some j) \<and> j \<le> layer \<and>
    lands_at (en_ops env) (forward_keys (take (Suc layer) (ci_cpath (w_circs w c))))
      (stamped (en_ops env) (cp_f_digest (ci_cpath (w_circs w c) ! layer)) (ce_payload (relay_cell 0 sid cmd payload))) j \<and>
    (j = layer \<longrightarrow> relay_header_unpack (ce_payload cell') = relay_header_for sid cmd payload \<and>
       relay_body (ce_payload cell') = payload \<and> list_all2 out_synced (ci_cpath (w_circs w' c)) rs')"
  using send_out [OF assms] .

text \<open>
  C5: the data of an exit stream.  For an exit stream in working order, \<^verbatim>\<open>connection_edge_package_raw_inbuf\<close>
  returns 0 and sends exactly as many cells as the input buffer holds full payloads (or pieces, if a partial
  one may go), the two package windows and the paid reads allow; these cells are the
  pieces of the front of the buffer in order, stamped and encrypted one after another and queued towards the
  origin; the buffer keeps the rest, and both windows go down by the number of cells.
\<close>

theorem exit_data_packaged:
  assumes "exit_stream_ok e c k R w" and "digest_lengths (en_ops env)" and "\<forall>k w. same_streams w (fst (en_hw env k w))"
    and "n = exit_count package_partial e c w"
  shows "\<exists>w' R' cells da. connection_edge_package_raw_inbuf env e package_partial w = OK (w', 0) \<and> circuits_ok w' R' \<and>
    seal_cells (en_ops env) (ci_p_digest (w_circs w c), ci_p_crypto (w_circs w c))
      (map (relay_cell (ci_p_circ_id (w_circs w c)) (ec_stream_id (w_edges w e)) RELAY_COMMAND_DATA)
        (pieces n (buf_bytes (cn_inbuf (w_edges w e))))) = OK (da, cells) \<and>
    abs_sched w' R' = fold (\<lambda>cell. sched_append k c (cell_pack cell)) cells (abs_sched w R) \<and>
    buf_bytes (cn_inbuf (w_edges w' e)) = drop (n * RELAY_PAYLOAD_SIZE) (buf_bytes (cn_inbuf (w_edges w e))) \<and>
    ci_package_window (w_circs w' c) = ci_package_window (w_circs w c) - int n \<and>
    ec_package_window (w_edges w' e) = ec_package_window (w_edges w e) - int n"
  using package_loop_sends [OF assms(2,3,1,4)] exit_stream_ok_D(4) [OF assms(1)]
  unfolding connection_edge_package_raw_inbuf_def pieces_sent_def by auto

subsection \<open>Witnesses\<close>

text \<open>An exit with five bytes to send on every stream, and an origin with one hop.\<close>

definition hello_buf :: buf where
  "hello_buf = buf_new\<lparr>buf_datalen := 5, buf_chunks := [\<lparr>ch_memlen = 4064, ch_off = 0, ch_data = [104, 101, 108, 108, 111]\<rparr>]\<rparr>"

definition exit_world :: "aes_cnt_cipher \<Rightarrow> unit world" where
  "exit_world a = idle_world\<lparr>w_circs := (\<lambda>_. idle_circuit\<lparr>ci_n_conn := None, ci_p_conn := Some 0, ci_p_crypto := a,
       ci_payedReads := 1000\<rparr>), w_edges := (\<lambda>_. idle_edge\<lparr>cn_inbuf := hello_buf\<rparr>)\<rparr>"

definition one_hop :: "aes_cnt_cipher \<Rightarrow> unit crypt_path" where
  "one_hop a = \<lparr>cp_extend_info = no_extend_info, cp_keys_set = True, cp_dh_handshake_state = None,
     cp_fast_handshake_state = [], cp_handshake_digest = [], cp_f_crypto = a, cp_b_crypto = a, cp_f_digest = (), cp_b_digest = (), cp_state = CPATH_STATE_OPEN,
     cp_package_window = 1000, cp_deliver_window = 1000\<rparr>"

definition origin_world :: "aes_cnt_cipher \<Rightarrow> unit world" where
  "origin_world a = idle_world\<lparr>w_circs := (\<lambda>_. idle_circuit\<lparr>ci_origin := True, ci_cpath := [one_hop a], ci_payedWrites := 1000\<rparr>)\<rparr>"

lemma quiet_world_ok:
  assumes "\<And>c. ring_part (w_circs w c) = (orig, n, p, None, None, None, None, empty_queue, empty_queue, False, False)"
    and "orig \<or> n \<noteq> p \<or> n = None" and "w_conns w = w_conns idle_world" and "w_alloc w = initial_alloc"
  shows "circuits_ok w (\<lambda>_. [])"
proof -
  note r = assms(1) [unfolded ring_part_def prod.inject]
  have q: "queue_on w k c = empty_queue" "\<not> blocked_on w k c" "nextf w k = (\<lambda>_. None)" "prevf w k = (\<lambda>_. None)" for k c
    using r by (auto simp: queue_on_def circ_queue_def blocked_on_def nextf_def prevf_def fun_eq_iff)
  have "ring_on w k []" for k
    using q assms(3) by (simp add: ring_on_def activef_def idle_world_def idle_conn_def)
  moreover have "or_conns_wf w"
    using assms(3,4) by (simp add: or_conns_wf_def idle_world_def idle_conn_def buf_inv_new alloc_ok_initial)
  moreover have "two_sided w" using r assms(2) by (auto simp: two_sided_def)
  ultimately show ?thesis
    by (simp add: circuits_ok_def q empty_queue_def queue_ok_def water_ok_def CELL_QUEUE_HIGHWATER_SIZE_def)
qed

lemma idle_env_laws: "digest_lengths (en_ops idle_env)" "\<forall>k w. same_streams w (fst (en_hw idle_env k w))"
  "\<forall>k w. same_windows w (fst (en_hw idle_env k w))"
  by (simp_all add: digest_lengths_def idle_env_def streams.refl windows.refl)

lemma exit_world_ok:
  assumes "aes_ok a"
  shows "exit_stream_ok 3 1 0 (\<lambda>_. []) (exit_world a)"
proof -
  have "circuits_ok (exit_world a) (\<lambda>_. [])"
    by (rule quiet_world_ok [where orig = False and n = None and p = "Some 0"]) (simp_all add: exit_world_def ring_part_def idle_circuit_def idle_world_def)
  moreover have "buf_inv initial_alloc hello_buf" "length (buf_bytes hello_buf) < int_max"
    by (simp_all add: hello_buf_def buf_inv_iff buf_new_def buf_bytes_def chunks_inv_def chunk_inv_def alloc_ok_initial
        chunk_ok_def alloc_fits_def chunk_sizes int_max_def)
  moreover have "write_is_queued 0 CELL_NETWORK_SIZE (exit_world a)"
    using idle_world_queued [of CELL_NETWORK_SIZE] by (simp add: write_is_queued_def exit_world_def cell_sizes)
  ultimately show ?thesis using assms
    by (simp add: exit_stream_ok_def) (simp add: exit_world_def idle_world_def idle_circuit_def idle_edge_def CIRCWINDOW_INCREMENT_def)
qed

lemma origin_world_ok: "circuits_ok (origin_world a) (\<lambda>_. [])"
  by (rule quiet_world_ok [where orig = True and n = "Some 0" and p = None])
    (simp_all add: origin_world_def ring_part_def idle_circuit_def idle_world_def)

lemma a_cipher: "\<exists>a. aes_ok a"
  using aes_set_key_ok [of 128 aes_new_cipher "replicate 16 1"] by auto

theorem relay_command_reaches_hop_witness:
  "\<exists>a w' R' wrapped rs' cell'. aes_ok a \<and>
     relay_send_command_from_edge idle_env 7 1 RELAY_COMMAND_DATA [1, 2, 3] (Some 0) (origin_world a) = OK (w', 0) \<and>
     abs_sched w' R' = sched_append 0 1 (cell_pack (on_wire (origin_world a) 0 wrapped)) (abs_sched (origin_world a) (\<lambda>_. [])) \<and>
     forward_cell (en_ops idle_env) [idle_circuit\<lparr>ci_n_crypto := a\<rparr>] wrapped = OK (rs', cell', Some 0) \<and>
     relay_header_unpack (ce_payload cell') = relay_header_for 7 RELAY_COMMAND_DATA [1, 2, 3] \<and>
     relay_body (ce_payload cell') = [1, 2, 3]"
proof -
  obtain a where a: "aes_ok a" using a_cipher by blast
  have "list_all2 out_synced (ci_cpath (w_circs (origin_world a) 1)) [idle_circuit\<lparr>ci_n_crypto := a\<rparr>]"
    using a by (simp add: origin_world_def one_hop_def out_synced_def out_keyed_def idle_circuit_def)
  moreover have "write_is_queued 0 CELL_NETWORK_SIZE (origin_world a)"
    using idle_world_queued [of CELL_NETWORK_SIZE] by (simp add: write_is_queued_def origin_world_def cell_sizes)
  moreover have "ci_origin (w_circs (origin_world a) 1)" "ci_n_conn (w_circs (origin_world a) 1) = Some 0"
    "affordable (w_CloseUnpaid (origin_world a)) CELL_DIRECTION_OUT (w_circs (origin_world a) 1)"
    "early_ok (w_circs (origin_world a) 1)"
    by (simp_all add: origin_world_def idle_circuit_def affordable_def paid_circ_def CIRCWINDOW_INCREMENT_def early_ok_def
        MAX_RELAY_EARLY_CELLS_PER_CIRCUIT_def)
  moreover have "length [1 :: byte, 2, 3] \<le> RELAY_PAYLOAD_SIZE" by (simp add: cell_sizes)
  ultimately show ?thesis
    using relay_command_reaches_hop [OF origin_world_ok [of a], of 1 0 "[1, 2, 3]" "[idle_circuit\<lparr>ci_n_crypto := a\<rparr>]" 0 idle_env 7 RELAY_COMMAND_DATA]
      idle_env_laws a by fastforce
qed

theorem exit_data_packaged_witness:
  "\<exists>a w'. aes_ok a \<and> connection_edge_package_raw_inbuf idle_env 3 True (exit_world a) = OK (w', 0) \<and>
     buf_bytes (cn_inbuf (w_edges w' 3)) = [] \<and> ec_package_window (w_edges w' 3) = 499"
proof -
  obtain a where a: "aes_ok a" using a_cipher by blast
  have "1 = exit_count True 3 1 (exit_world a)" "buf_bytes (cn_inbuf (w_edges (exit_world a) 3)) = [104, 101, 108, 108, 111]"
    "ec_package_window (w_edges (exit_world a) 3) = 500"
    by (simp_all add: exit_count_def exit_world_def hello_buf_def buf_bytes_def idle_world_def idle_circuit_def idle_edge_def
        package_count_def cells_in_def cell_sizes CIRCWINDOW_INCREMENT_def)
  with exit_data_packaged [OF exit_world_ok [OF a] idle_env_laws(1,2), of 1 True] a show ?thesis
    by (auto simp: cell_sizes)
qed

end
