(* ===== verification/UtilStrings.thy ===== *)
theory UtilStrings
  imports CLib "HOL-Library.Sublist"
begin

section \<open>Numbers and strings (util.c)\<close>

text \<open>
  The helpers of util.c on integers and on NUL-terminated strings.  A string is the list of its
  bytes before the NUL, a pointer into it the rest of the list from there on.  The functions with an
  explicit end \<^verbatim>\<open>eos\<close> are given the bytes up to that end, which may hold a NUL.
\<close>

subsection \<open>Integers\<close>

definition log2_step :: "nat \<Rightarrow> u64 \<times> nat \<Rightarrow> u64 \<times> nat" where
  "log2_step k = (\<lambda>(u, r). if u \<ge> push_bit k 1 then (drop_bit k u, r + k) else (u, r))"

definition tor_log2 :: "u64 \<Rightarrow> nat" where
  "tor_log2 u = snd (log2_step 1 (log2_step 2 (log2_step 4 (log2_step 8 (log2_step 16
     (log2_step 32 (u, 0)))))))"

text \<open>For \<open>2\<^sup>6\<^sup>3\<close> and above \<^verbatim>\<open>high\<close> shifts by the full width, which C leaves undefined.\<close>

definition round_to_power_of_2 :: "u64 \<Rightarrow> u64 res" where
  "round_to_power_of_2 u =
     (let lg2 = tor_log2 u in
      if lg2 + 1 \<ge> 64 then Fault Int_Overflow
      else let low = push_bit lg2 1; high = push_bit (lg2 + 1) 1 in
        OK (if high - u < u - low then high else low))"

definition round_to_next_multiple_of :: "u32 \<Rightarrow> u32 \<Rightarrow> u32" where
  "round_to_next_multiple_of number divisor =
     (let number1 = number + (divisor - 1) in number1 - number1 mod divisor)"

definition round_uint32_to_next_multiple_of :: "u32 \<Rightarrow> u32 \<Rightarrow> u32" where
  "round_uint32_to_next_multiple_of number divisor =
     (let number1 = number + (divisor - 1) in number1 - number1 mod divisor)"

definition round_uint64_to_next_multiple_of :: "u64 \<Rightarrow> u64 \<Rightarrow> u64" where
  "round_uint64_to_next_multiple_of number divisor =
     (let number1 = number + (divisor - 1) in number1 - number1 mod divisor)"

subsection \<open>Whole strings\<close>

fun tor_strstrip :: "byte list \<Rightarrow> byte list \<Rightarrow> byte list" where
  "tor_strstrip [] strip = []"
| "tor_strstrip (c # s) strip = (if c \<in> set strip then tor_strstrip s strip else c # tor_strstrip s strip)"

fun tor_strlower :: "byte list \<Rightarrow> byte list" where
  "tor_strlower [] = []"
| "tor_strlower (c # s) = TOR_TOLOWER c # tor_strlower s"

fun tor_strupper :: "byte list \<Rightarrow> byte list" where
  "tor_strupper [] = []"
| "tor_strupper (c # s) = TOR_TOUPPER c # tor_strupper s"

fun tor_strisprint :: "byte list \<Rightarrow> bool" where
  "tor_strisprint [] = True"
| "tor_strisprint (c # s) = (if \<not> TOR_ISPRINT c then False else tor_strisprint s)"

fun tor_strisnonupper :: "byte list \<Rightarrow> bool" where
  "tor_strisnonupper [] = True"
| "tor_strisnonupper (c # s) = (if TOR_ISUPPER c then False else tor_strisnonupper s)"

definition strncmp :: "byte list \<Rightarrow> byte list \<Rightarrow> nat \<Rightarrow> int" where
  "strncmp a b n = strcmp (take n a) (take n b)"

definition strncasecmp :: "byte list \<Rightarrow> byte list \<Rightarrow> nat \<Rightarrow> int" where
  "strncasecmp a b n = strcasecmp (take n a) (take n b)"

definition strcmpstart :: "byte list \<Rightarrow> byte list \<Rightarrow> int" where
  "strcmpstart s1 s2 = strncmp s1 s2 (length s2)"

definition strcmp_len :: "byte list \<Rightarrow> byte list \<Rightarrow> nat \<Rightarrow> int" where
  "strcmp_len s1 s2 s1_len =
     (if s1_len < length s2 then -1 else if s1_len > length s2 then 1 else memcmp s1 s2 (length s2))"

definition strcasecmpstart :: "byte list \<Rightarrow> byte list \<Rightarrow> int" where
  "strcasecmpstart s1 s2 = strncasecmp s1 s2 (length s2)"

definition strcmpend :: "byte list \<Rightarrow> byte list \<Rightarrow> int" where
  "strcmpend s1 s2 =
     (let n1 = length s1; n2 = length s2 in
      if n2 > n1 then strcmp s1 s2 else strncmp (drop (n1 - n2) s1) s2 n2)"

definition strcasecmpend :: "byte list \<Rightarrow> byte list \<Rightarrow> int" where
  "strcasecmpend s1 s2 =
     (let n1 = length s1; n2 = length s2 in
      if n2 > n1 then strcasecmp s1 s2 else strncasecmp (drop (n1 - n2) s1) s2 n2)"

definition memcmpstart :: "byte list \<Rightarrow> nat \<Rightarrow> byte list \<Rightarrow> int" where
  "memcmpstart mem memlen pre =
     (if memlen < length pre then -1 else memcmp mem pre (length pre))"

function mem_is_zero_loop :: "byte list \<Rightarrow> nat \<Rightarrow> bool" where
  "mem_is_zero_loop mem len =
     (if len \<ge> 32 then
        if memcmp mem (replicate 32 0) 32 \<noteq> 0 then False else mem_is_zero_loop (drop 32 mem) (len - 32)
      else if len \<noteq> 0 then memcmp mem (replicate 32 0) len = 0
      else True)"
  by auto
termination by (relation "measure snd") auto

declare mem_is_zero_loop.simps [simp del]

definition tor_mem_is_zero :: "byte list \<Rightarrow> nat \<Rightarrow> bool" where
  "tor_mem_is_zero mem len = mem_is_zero_loop mem len"

definition tor_digest_is_zero :: "byte list \<Rightarrow> bool" where
  "tor_digest_is_zero digest = tor_mem_is_zero digest 20"

subsection \<open>White space and comments\<close>

function eat_whitespace :: "byte list \<Rightarrow> byte list" where
  "eat_whitespace [] = []"
| "eat_whitespace (c # s) =
     (if c = 0x20 \<or> c = 0x09 \<or> c = 0x0A \<or> c = 0x0D then eat_whitespace s
      else if c = 0x23 then eat_whitespace (dropWhile (\<lambda>x. x \<noteq> 0x0A) s)
      else c # s)"
  by pat_completeness auto
termination by (relation "measure length") (auto simp: less_Suc_eq_le length_dropWhile_le)

function eat_whitespace_eos :: "byte list \<Rightarrow> byte list" where
  "eat_whitespace_eos [] = []"
| "eat_whitespace_eos (c # s) =
     (if c = 0x20 \<or> c = 0x09 \<or> c = 0x0A \<or> c = 0x0D then eat_whitespace_eos s
      else if c = 0x23 then eat_whitespace_eos (dropWhile (\<lambda>x. x \<noteq> 0 \<and> x \<noteq> 0x0A) s)
      else c # s)"
  by pat_completeness auto
termination by (relation "measure length") (auto simp: less_Suc_eq_le length_dropWhile_le)

fun eat_whitespace_no_nl :: "byte list \<Rightarrow> byte list" where
  "eat_whitespace_no_nl [] = []"
| "eat_whitespace_no_nl (c # s) =
     (if c = 0x20 \<or> c = 0x09 \<or> c = 0x0D then eat_whitespace_no_nl s else c # s)"

definition eat_whitespace_eos_no_nl :: "byte list \<Rightarrow> byte list" where
  "eat_whitespace_eos_no_nl s = dropWhile (\<lambda>c. c = 0x20 \<or> c = 0x09 \<or> c = 0x0D) s"

fun find_whitespace :: "byte list \<Rightarrow> byte list" where
  "find_whitespace [] = []"
| "find_whitespace (c # s) =
     (if c = 0x23 \<or> c = 0x20 \<or> c = 0x0D \<or> c = 0x0A \<or> c = 0x09 then c # s else find_whitespace s)"

fun find_whitespace_eos :: "byte list \<Rightarrow> byte list" where
  "find_whitespace_eos [] = []"
| "find_whitespace_eos (c # s) =
     (if c = 0 \<or> c = 0x23 \<or> c = 0x20 \<or> c = 0x0D \<or> c = 0x0A \<or> c = 0x09 then c # s
      else find_whitespace_eos s)"

subsection \<open>Hexadecimal\<close>

definition hex_digits :: "byte list" where
  "hex_digits = bytes_of ''0123456789ABCDEF''"

definition SIZE_T_CEILING :: nat where "SIZE_T_CEILING = 2 ^ 63"

fun base16_loop :: "byte list \<Rightarrow> byte list" where
  "base16_loop [] = []"
| "base16_loop (b # src) =
     hex_digits ! unat (drop_bit 4 b) # hex_digits ! unat (b AND 0xf) # base16_loop src"

text \<open>What is written to \<^verbatim>\<open>dest\<close> before the terminating NUL.\<close>

definition base16_encode :: "nat \<Rightarrow> byte list \<Rightarrow> byte list res" where
  "base16_encode destlen src =
     tor_assert (destlen \<ge> length src * 2 + 1) (tor_assert (destlen < SIZE_T_CEILING)
       (OK (base16_loop src)))"

definition hex_str :: "byte list \<Rightarrow> byte list res" where
  "hex_str src = base16_encode 65 (take 32 src)"

definition hex_decode_digit :: "byte \<Rightarrow> int" where
  "hex_decode_digit c =
     (if 0x30 \<le> c \<and> c \<le> 0x39 then uint c - 0x30
      else if 0x41 \<le> c \<and> c \<le> 0x46 then uint c - 0x37
      else if 0x61 \<le> c \<and> c \<le> 0x66 then uint c - 0x57
      else -1)"

fun base16_decode_loop :: "byte list \<Rightarrow> byte list option" where
  "base16_decode_loop (a # b # src) =
     (let v1 = hex_decode_digit a; v2 = hex_decode_digit b in
      if v1 < 0 \<or> v2 < 0 then None
      else map_option ((#) (word_of_int (v1 * 16 + v2))) (base16_decode_loop src))"
| "base16_decode_loop _ = Some []"

text \<open>The bytes written to \<^verbatim>\<open>dest\<close>, or \<^term>\<open>None\<close> for the result -1.\<close>

definition base16_decode :: "nat \<Rightarrow> byte list \<Rightarrow> byte list option" where
  "base16_decode destlen src =
     (if length src mod 2 \<noteq> 0 then None
      else if destlen < length src div 2 \<or> destlen > SIZE_T_CEILING then None
      else base16_decode_loop src)"

subsection \<open>Quoted strings\<close>

definition esc_plain :: "byte \<Rightarrow> bool" where
  "esc_plain c \<longleftrightarrow> TOR_ISPRINT c \<and> unat c < 127"

definition esc_quoted :: "byte \<Rightarrow> bool" where
  "esc_quoted c \<longleftrightarrow> c = 0x5C \<or> c = 0x22 \<or> c = 0x27"

definition esc_len :: "byte \<Rightarrow> nat" where
  "esc_len c = (if esc_quoted c then 2 else if esc_plain c then 1 else 4)"

definition octal3 :: "byte \<Rightarrow> byte list" where
  "octal3 c = [of_nat (48 + unat c div 64), of_nat (48 + unat c div 8 mod 8), of_nat (48 + unat c mod 8)]"

definition esc_char :: "byte \<Rightarrow> byte list" where
  "esc_char c =
     (if esc_quoted c then [0x5C, c]
      else if c = 0x0A then [0x5C, 0x6E]
      else if c = 0x09 then [0x5C, 0x74]
      else if c = 0x0D then [0x5C, 0x72]
      else if esc_plain c then [c]
      else 0x5C # octal3 c)"

text \<open>The block has \<open>3\<close> bytes for the quotes and the NUL, and what the first loop adds up.\<close>

definition esc_for_log :: "byte list ptr \<Rightarrow> byte list res" where
  "esc_for_log sp = (case sp of
     None \<Rightarrow> OK []
   | Some s \<Rightarrow>
       (let len = 3 + sum_list (map esc_len s); out = 0x22 # concat (map esc_char s) @ [0x22] in
        if length out + 1 \<le> len then OK out else Fault Mem_Fault))"

definition TOR_ISODIGIT :: "byte \<Rightarrow> bool" where
  "TOR_ISODIGIT c \<longleftrightarrow> 0x30 \<le> c \<and> c \<le> 0x37"

fun skip_odigit :: "byte list \<Rightarrow> byte list" where
  "skip_odigit (c # s) = (if TOR_ISODIGIT c then s else c # s)"
| "skip_odigit [] = []"

lemma length_skip_odigit: "length (skip_odigit s) \<le> length s"
  by (cases s) auto

fun two_xdigits :: "byte list \<Rightarrow> bool" where
  "two_xdigits (a # b # s) \<longleftrightarrow> TOR_ISXDIGIT a \<and> TOR_ISXDIGIT b"
| "two_xdigits _ \<longleftrightarrow> False"

text \<open>The first pass looks for the closing quote: the number of bytes before it.\<close>

function find_quote :: "byte list \<Rightarrow> nat option" where
  "find_quote [] = None"
| "find_quote (c # s) =
     (if c = 0x0A then None
      else if c = 0x22 then Some 0
      else if c = 0x5C then
        (case s of
           [] \<Rightarrow> None
         | d # ds \<Rightarrow>
             if (d = 0x78 \<or> d = 0x58) \<and> two_xdigits ds then map_option ((+) 4) (find_quote (drop 2 ds))
             else if TOR_ISODIGIT d then
               (let t = skip_odigit (skip_odigit ds)
                in map_option ((+) (2 + (length ds - length t))) (find_quote t))
             else map_option ((+) 2) (find_quote ds))
      else map_option Suc (find_quote s))"
  by pat_completeness auto
termination
proof (relation "measure length", goal_cases)
  case (3 c s d ds t)
  with length_skip_odigit [of "skip_odigit ds"] length_skip_odigit [of ds] show ?case by simp
qed auto

definition octal_digit :: "byte list \<Rightarrow> int \<Rightarrow> int \<times> byte list" where
  "octal_digit s n = (case s of
     c # cs \<Rightarrow> if TOR_ISODIGIT c then (n * 8 + (uint c - 0x30), cs) else (n, s)
   | [] \<Rightarrow> (n, s))"

lemma length_octal_digit: "length (snd (octal_digit s n)) \<le> length s"
  by (cases s) (auto simp: octal_digit_def)

text \<open>
  The second pass, on the memory with its NUL, writes to a block of \<open>cap\<close> bytes.  \<open>OK None\<close> is a
  return of NULL; running off the end of the memory or of the block is a fault.
\<close>

function unescape_loop :: "nat \<Rightarrow> byte list \<Rightarrow> byte list \<Rightarrow> (byte list \<times> byte list) option res" where
  "unescape_loop cap [] out = Fault Mem_Fault"
| "unescape_loop cap (c # s) out =
     (if c = 0x22 then if length out < cap then OK (Some (out, s)) else Fault Mem_Fault
      else if c = 0 then OK None
      else if length out \<ge> cap then Fault Mem_Fault
      else if c = 0x5C then
        (case s of
           [] \<Rightarrow> Fault Mem_Fault
         | d # ds \<Rightarrow>
             if d = 0x6E then unescape_loop cap ds (out @ [0x0A])
             else if d = 0x72 then unescape_loop cap ds (out @ [0x0D])
             else if d = 0x74 then unescape_loop cap ds (out @ [0x09])
             else if d = 0x78 \<or> d = 0x58 then
               (case ds of
                  a # b # t \<Rightarrow>
                    unescape_loop cap t (out @ [word_of_int (hex_decode_digit a * 16 + hex_decode_digit b)])
                | _ \<Rightarrow> Fault Mem_Fault)
             else if TOR_ISODIGIT d then
               (let (n1, t1) = octal_digit ds (uint d - 0x30); (n2, t2) = octal_digit t1 n1
                in if n2 > 255 then OK None else unescape_loop cap t2 (out @ [word_of_int n2]))
             else if d = 0x27 \<or> d = 0x22 \<or> d = 0x5C \<or> d = 0x3F then unescape_loop cap ds (out @ [d])
             else OK None)
      else unescape_loop cap s (out @ [c]))"
  by pat_completeness auto
termination
proof (relation "measure (\<lambda>(cap, s, out). length s)", goal_cases)
  case (6 cap c s out d ds x n1 t1 y n2 t2)
  then have "t1 = snd (octal_digit ds (uint d - 0x30))" "t2 = snd (octal_digit t1 n1)"
    by (metis snd_conv)+
  then have "length t2 \<le> length ds"
    using length_octal_digit order_trans by metis
  with 6 show ?case by simp
qed auto

text \<open>The decoded bytes and the string after the closing quote.\<close>

definition unescape_string :: "byte list \<Rightarrow> (byte list \<times> byte list) option res" where
  "unescape_string s = (case s of
     c # cs \<Rightarrow>
       if c \<noteq> 0x22 then OK None
       else (case find_quote cs of
               None \<Rightarrow> OK None
             | Some k \<Rightarrow> rbind (unescape_loop (k + 2) (cs @ [0]) []) (\<lambda>r.
                 OK (map_option (\<lambda>(out, rest). (out, butlast rest)) r)))
   | [] \<Rightarrow> OK None)"

subsection \<open>Lines of a configuration file\<close>

function config_skip :: "byte list \<Rightarrow> byte list" where
  "config_skip s = (case dropWhile TOR_ISSPACE s of
     [] \<Rightarrow> []
   | c # cs \<Rightarrow> if c = 0x23 then config_skip (dropWhile (\<lambda>x. x \<noteq> 0x0A) (c # cs)) else c # cs)"
  by auto
termination
proof (relation "measure length", goal_cases)
  case (2 s c cs)
  have "length (dropWhile (\<lambda>x. x \<noteq> 0x0A) (c # cs)) \<le> length cs"
    using 2 by (simp add: length_dropWhile_le)
  also have "\<dots> < length (dropWhile TOR_ISSPACE s)" using 2 by simp
  also have "\<dots> \<le> length s" by (rule length_dropWhile_le)
  finally show ?case by simp
qed auto

declare config_skip.simps [simp del]

definition is_blank :: "byte \<Rightarrow> bool" where
  "is_blank c \<longleftrightarrow> c = 0x20 \<or> c = 0x09"

text \<open>The end of the function: a trailing comment and the space before the next line.\<close>

definition config_finish :: "byte list \<Rightarrow> byte list \<Rightarrow> byte list \<Rightarrow>
    (byte list \<times> byte list option \<times> byte list option) option res" where
  "config_finish key v line =
     (let line1 = (case line of c # cs \<Rightarrow> if c = 0x23 then dropWhile (\<lambda>x. x \<noteq> 0x0A) cs else line | [] \<Rightarrow> [])
      in OK (Some (dropWhile TOR_ISSPACE line1, Some key, Some v)))"

text \<open>The next line, the key and the value; \<open>OK None\<close> is a return of NULL.\<close>

definition parse_config_line_from_str ::
  "byte list \<Rightarrow> (byte list \<times> byte list option \<times> byte list option) option res" where
  "parse_config_line_from_str line0 =
     (let line = config_skip line0 in
      if line = [] then OK (Some ([], None, None))
      else
        let in_key = (\<lambda>c. \<not> TOR_ISSPACE c \<and> c \<noteq> 0x23);
            key = takeWhile in_key line;
            val = dropWhile is_blank (dropWhile in_key line)
        in if val \<noteq> [] \<and> hd val = 0x22 then
             rbind (unescape_string val) (\<lambda>r. case r of
               None \<Rightarrow> OK None
             | Some (v, after) \<Rightarrow>
                 (let line2 = dropWhile is_blank after in
                  if line2 \<noteq> [] \<and> hd line2 \<noteq> 0x23 \<and> hd line2 \<noteq> 0x0A then OK None
                  else config_finish key v line2))
           else
             let in_val = (\<lambda>c. c \<noteq> 0x0A \<and> c \<noteq> 0x23);
                 after = dropWhile in_val val;
                 line2 = (if after \<noteq> [] \<and> hd after = 0x0A then tl after else after);
                 v = rev (dropWhile TOR_ISSPACE (rev (takeWhile in_val val)))
             in config_finish key v line2)"

subsection \<open>Facts on integers\<close>

lemma unat_bit: "k < 64 \<Longrightarrow> unat (push_bit k (1 :: u64)) = 2 ^ k"
proof -
  assume k: "k < 64"
  then have "(2::nat) ^ k < 2 ^ 64" by (intro power_strict_increasing) auto
  with k have "take_bit 64 (push_bit k (1::nat)) = 2 ^ k" by (simp add: take_bit_nat_eq_self push_bit_eq_mult)
  then show ?thesis by (simp add: unsigned_push_bit_eq del: push_bit_of_1)
qed

lemma log2_step_inv:
  assumes "unat u < 2 ^ (2 * k)" and "0 < u" and "k < 64" and "unat u = n div 2 ^ r"
    and "log2_step k (u, r) = (u', r')"
  shows "unat u' < 2 ^ k \<and> 0 < u' \<and> unat u' = n div 2 ^ r'"
proof (cases "u \<ge> push_bit k 1")
  case True
  have k: "unat (push_bit k (1 :: u64)) = 2 ^ k"
    using assms(3) by (rule unat_bit)
  from True assms(5) have u': "u' = drop_bit k u" "r' = r + k" by (auto simp: log2_step_def)
  have "unat u div 2 ^ k < 2 ^ k"
    using assms(1) by (simp add: less_mult_imp_div_less power_add mult_2)
  moreover have "2 ^ k \<le> unat u" using True k by (simp add: word_le_nat_alt)
  then have "0 < unat u div 2 ^ k" by (simp add: div_greater_zero_iff)
  moreover have "unat u div 2 ^ k = n div 2 ^ (r + k)"
    using assms(4) by (simp add: div_mult2_eq power_add)
  moreover have "unat (drop_bit k u) = unat u div 2 ^ k"
    by (simp add: unat_drop_bit_eq drop_bit_nat_def)
  ultimately show ?thesis using u' by (simp only: word_less_nat_alt unat_0)
next
  case False
  have "unat (push_bit k (1 :: u64)) = 2 ^ k"
    using assms(3) by (rule unat_bit)
  with False assms show ?thesis by (auto simp: log2_step_def word_le_nat_alt)
qed

lemma tor_log2_bounds:
  assumes "u \<noteq> 0"
  shows "2 ^ tor_log2 u \<le> unat u \<and> unat u < 2 ^ (tor_log2 u + 1)"
proof -
  obtain u1 r1 where 1: "log2_step 32 (u, 0) = (u1, r1)" by fastforce
  obtain u2 r2 where 2: "log2_step 16 (u1, r1) = (u2, r2)" by fastforce
  obtain u3 r3 where 3: "log2_step 8 (u2, r2) = (u3, r3)" by fastforce
  obtain u4 r4 where 4: "log2_step 4 (u3, r3) = (u4, r4)" by fastforce
  obtain u5 r5 where 5: "log2_step 2 (u4, r4) = (u5, r5)" by fastforce
  obtain u6 r6 where 6: "log2_step 1 (u5, r5) = (u6, r6)" by fastforce
  have u: "unat u < 2 ^ (2 * 32)" "0 < u" "unat u = unat u div 2 ^ 0"
    using assms unsigned_less [of u] by (simp_all add: word_neq_0_conv)
  note s1 = log2_step_inv [OF u(1,2) _ u(3) 1, simplified]
  note s2 = log2_step_inv [OF _ _ _ _ 2, of "unat u"]
  note s3 = log2_step_inv [OF _ _ _ _ 3, of "unat u"]
  note s4 = log2_step_inv [OF _ _ _ _ 4, of "unat u"]
  note s5 = log2_step_inv [OF _ _ _ _ 5, of "unat u"]
  note s6 = log2_step_inv [OF _ _ _ _ 6, of "unat u"]
  have "unat u6 < 2 ^ 1 \<and> 0 < u6 \<and> unat u6 = unat u div 2 ^ r6"
    using s1 s2 s3 s4 s5 s6 by simp
  then have "unat u div 2 ^ r6 = 1" by (auto simp: word_less_nat_alt less_Suc_eq numeral_2_eq_2)
  moreover have "tor_log2 u = r6" by (simp only: tor_log2_def 1 2 3 4 5 6 snd_conv)
  ultimately have d: "unat u = 2 ^ tor_log2 u + unat u mod 2 ^ tor_log2 u"
    using mult_div_mod_eq [of "2 ^ r6" "unat u"] by simp
  moreover have "unat u mod 2 ^ tor_log2 u < 2 ^ tor_log2 u" by simp
  ultimately show ?thesis by (simp only: power_add power_one_right) linarith
qed

lemma round_up_div:
  fixes n d :: nat
  assumes "0 < d"
  shows "n \<le> (n + (d - 1)) - (n + (d - 1)) mod d" and "d dvd (n + (d - 1)) - (n + (d - 1)) mod d"
    and "n \<le> m \<Longrightarrow> d dvd m \<Longrightarrow> (n + (d - 1)) - (n + (d - 1)) mod d \<le> m"
proof -
  let ?s = "n + (d - 1)"
  have m: "?s mod d < d" using assms by simp
  with assms show "n \<le> ?s - ?s mod d" by linarith
  show "d dvd ?s - ?s mod d" by (simp add: minus_mod_eq_mult_div)
  assume "n \<le> m" "d dvd m"
  then obtain k where k: "m = d * k" by auto
  with \<open>n \<le> m\<close> assms have "?s < d * Suc k" by simp
  then have "?s div d < Suc k" using assms by (simp add: div_less_iff_less_mult mult.commute)
  then show "?s - ?s mod d \<le> m" using assms by (simp add: k minus_mod_eq_mult_div del: One_nat_def)
qed

lemma unat_round_up:
  fixes number divisor :: "'a::len word"
  assumes "0 < divisor" and "unat number + (unat divisor - 1) < 2 ^ LENGTH('a)"
  shows "unat (let number1 = number + (divisor - 1) in number1 - number1 mod divisor) =
    (unat number + (unat divisor - 1)) - (unat number + (unat divisor - 1)) mod unat divisor"
proof -
  have d: "unat (divisor - 1) = unat divisor - 1"
    using assms(1) by (simp add: unat_minus_one word_neq_0_conv)
  have s: "unat (number + (divisor - 1)) = unat number + (unat divisor - 1)"
    using assms(2) unat_add_lem [of number "divisor - 1"] unfolding d by blast
  show ?thesis unfolding Let_def
    by (subst unat_sub) (simp_all add: s unat_mod word_le_nat_alt)
qed

subsection \<open>Facts on strings\<close>

lemma strcmpstart_prefix: "strcmpstart s1 s2 = 0 \<longleftrightarrow> prefix s2 s1"
  by (auto simp: strcmpstart_def strncmp_def prefix_def) (metis append_take_drop_id)

lemma strcmpend_suffix: "strcmpend s1 s2 = 0 \<longleftrightarrow> suffix s2 s1"
  by (auto simp: strcmpend_def strncmp_def Let_def suffix_def)
    (metis append_take_drop_id)

lemma memcmp_zero: "memcmp a b n = 0 \<longleftrightarrow> take n a = take n b"
  by (simp add: memcmp_def)

lemma tor_mem_is_zero_iff:
  "len \<le> length mem \<Longrightarrow> tor_mem_is_zero mem len \<longleftrightarrow> (\<forall>b\<in>set (take len mem). b = 0)"
  unfolding tor_mem_is_zero_def
proof (induction mem len rule: mem_is_zero_loop.induct)
  case (1 mem len)
  have z: "take n mem = replicate n 0 \<longleftrightarrow> (\<forall>b\<in>set (take n mem). b = 0)" if "n \<le> length mem" for n
  proof
    assume "\<forall>b\<in>set (take n mem). b = 0"
    then have "take n mem = replicate (length (take n mem)) 0" by (intro replicate_eqI) auto
    with that show "take n mem = replicate n 0" by simp
  qed auto
  show ?case
  proof (cases "len \<ge> 32")
    case True
    then have "take len mem = take 32 mem @ take (len - 32) (drop 32 mem)"
      by (metis le_add_diff_inverse take_add)
    with 1 True z [of 32] show ?thesis
      by (auto simp: mem_is_zero_loop.simps [of mem len] memcmp_zero)
  next
    case False
    with 1(2) z [of len] show ?thesis
      by (auto simp: mem_is_zero_loop.simps [of mem len] memcmp_zero min_def)
  qed
qed

lemma eat_whitespace_suffix: "suffix (eat_whitespace s) s"
proof (induction s rule: eat_whitespace.induct)
  case (2 c s)
  have "suffix (dropWhile (\<lambda>x. x \<noteq> 0x0A) s) (c # s)"
    by (simp add: suffix_ConsI suffix_dropWhile)
  then have "suffix t (dropWhile (\<lambda>x. x \<noteq> 0x0A) s) \<Longrightarrow> suffix t (c # s)" for t
    using suffix_order.trans by blast
  with 2 show ?case
    by (cases "c = 0x20 \<or> c = 0x09 \<or> c = 0x0A \<or> c = 0x0D"; cases "c = 0x23") (simp_all add: suffix_ConsI)
qed simp

lemma eat_whitespace_stops:
  "eat_whitespace s = c # t \<Longrightarrow> c \<notin> {0x20, 0x09, 0x0A, 0x0D, 0x23}"
  by (induction s rule: eat_whitespace.induct) (auto split: if_splits)

subsection \<open>Facts on hexadecimal strings\<close>

lemma hex_digit_value: "k < 16 \<Longrightarrow> hex_decode_digit (hex_digits ! k) = int k"
proof -
  have "list_all (\<lambda>k. hex_decode_digit (hex_digits ! k) = int k) [0..<16]" by code_simp
  then show "k < 16 \<Longrightarrow> ?thesis" by (simp add: list_all_iff)
qed

lemma hex_pair:
  fixes b :: byte
  shows "hex_decode_digit (hex_digits ! unat (drop_bit 4 b)) * 16 +
      hex_decode_digit (hex_digits ! unat (b AND 0xf)) = uint b"
    and "0 \<le> hex_decode_digit (hex_digits ! unat (drop_bit 4 b))"
    and "0 \<le> hex_decode_digit (hex_digits ! unat (b AND 0xf))"
proof -
  have hi: "unat (drop_bit 4 b) = unat b div 16"
    by (simp add: unat_drop_bit_eq drop_bit_nat_def)
  have "b AND 0xf = take_bit 4 b" by (simp add: take_bit_eq_mask mask_eq_exp_minus_1)
  then have lo: "unat (b AND 0xf) = unat b mod 16"
    by (simp add: unsigned_take_bit_eq take_bit_nat_def)
  have "unat b < 256" using unsigned_less [of b] by simp
  then have "unat b div 16 < 16" "unat b mod 16 < 16" by auto
  note v = hex_digit_value [OF this(1)] hex_digit_value [OF this(2)]
  have "unat b div 16 * 16 + unat b mod 16 = unat b" by simp
  then have "int (unat b div 16) * 16 + int (unat b mod 16) = uint b"
    by (metis of_nat_add of_nat_mult of_nat_numeral uint_nat)
  with v show "hex_decode_digit (hex_digits ! unat (drop_bit 4 b)) * 16 +
      hex_decode_digit (hex_digits ! unat (b AND 0xf)) = uint b" by (simp only: hi lo)
  show "0 \<le> hex_decode_digit (hex_digits ! unat (drop_bit 4 b))"
    "0 \<le> hex_decode_digit (hex_digits ! unat (b AND 0xf))" using v by (simp_all only: hi lo)
qed

lemma length_base16_loop [simp]: "length (base16_loop xs) = 2 * length xs"
  by (induction xs) auto

lemma base16_decode_encode: "base16_decode_loop (base16_loop xs) = Some xs"
proof (induction xs)
  case (Cons b xs)
  with hex_pair [of b] show ?case by (simp add: Let_def not_less)
qed simp

lemma hex_decode_digit_neg: "hex_decode_digit c < 0 \<longleftrightarrow> \<not> TOR_ISXDIGIT c"
  by (rule all_bytes [where P = "\<lambda>c. hex_decode_digit c < 0 \<longleftrightarrow> \<not> TOR_ISXDIGIT c"]) code_simp

lemma base16_decode_loop_accepts:
  "even (length src) \<Longrightarrow> base16_decode_loop src \<noteq> None \<longleftrightarrow> list_all TOR_ISXDIGIT src"
  by (induction src rule: base16_decode_loop.induct) (auto simp: Let_def hex_decode_digit_neg)

subsection \<open>Facts on quoted strings\<close>

lemma octal_char:
  assumes "k < 8"
  shows "TOR_ISODIGIT (of_nat (48 + k))" and "uint (of_nat (48 + k) :: byte) = 48 + int k"
proof -
  have "unat (of_nat (48 + k) :: byte) = 48 + k"
    using assms by (simp only: unat_of_nat) simp
  then show "TOR_ISODIGIT (of_nat (48 + k))" "uint (of_nat (48 + k) :: byte) = 48 + int k"
    using assms by (simp_all add: TOR_ISODIGIT_def word_le_nat_alt uint_nat)
qed

lemma octal3_digits:
  "list_all TOR_ISODIGIT (octal3 c) \<and>
   (uint (octal3 c ! 0) - 0x30) * 64 + (uint (octal3 c ! 1) - 0x30) * 8 + (uint (octal3 c ! 2) - 0x30) = uint c"
proof -
  let ?n = "unat c"
  have n: "?n < 256" using unsigned_less [of c] by simp
  define x y z :: byte
    where xyz: "x = of_nat (48 + ?n div 64)" "y = of_nat (48 + ?n div 8 mod 8)" "z = of_nat (48 + ?n mod 8)"
  have "?n div 64 < 8" using n by (simp add: div_less_iff_less_mult)
  moreover have "?n div 8 mod 8 < 8" "?n mod 8 < 8" by simp_all
  ultimately have d: "TOR_ISODIGIT x" "TOR_ISODIGIT y" "TOR_ISODIGIT z"
    "uint x = 48 + int (?n div 64)" "uint y = 48 + int (?n div 8 mod 8)" "uint z = 48 + int (?n mod 8)"
    unfolding xyz by (simp_all only: octal_char)
  have "?n div 64 = ?n div 8 div 8" using div_mult2_eq [of ?n 8 8] by simp
  then have "?n div 8 = ?n div 64 * 8 + ?n div 8 mod 8"
    using div_mult_mod_eq [of "?n div 8" 8] by presburger
  then have "?n div 64 * 64 + ?n div 8 mod 8 * 8 + ?n mod 8 = ?n"
    using div_mult_mod_eq [of ?n 8] by linarith
  then have "int (?n div 64 * 64 + ?n div 8 mod 8 * 8 + ?n mod 8) = uint c" by (simp only: uint_nat)
  then have "int (?n div 64) * 64 + int (?n div 8 mod 8) * 8 + int (?n mod 8) = uint c"
    by (simp only: of_nat_add of_nat_mult of_nat_numeral)
  moreover have "octal3 c = [x, y, z]" by (simp only: octal3_def xyz)
  ultimately show ?thesis using d by simp
qed

lemma ISODIGIT_not_letter:
  "TOR_ISODIGIT d \<Longrightarrow> d \<noteq> 0x6E \<and> d \<noteq> 0x72 \<and> d \<noteq> 0x74 \<and> d \<noteq> 0x78 \<and> d \<noteq> 0x58"
  by (auto simp: TOR_ISODIGIT_def)

lemma find_quote_esc: "find_quote (esc_char c @ t) = map_option ((+) (length (esc_char c))) (find_quote t)"
proof (cases "esc_quoted c \<or> c = 0x0A \<or> c = 0x09 \<or> c = 0x0D")
  case True
  then show ?thesis
    by (cases "find_quote t") (auto simp: esc_char_def esc_quoted_def TOR_ISODIGIT_def)
next
  case False
  show ?thesis
  proof (cases "esc_plain c")
    case True
    with False show ?thesis by (cases "find_quote t") (auto simp: esc_char_def esc_quoted_def)
  next
    case np: False
    obtain x y z where o: "octal3 c = [x, y, z]" by (simp add: octal3_def)
    with octal3_digits [of c] have "TOR_ISODIGIT x" "TOR_ISODIGIT y" "TOR_ISODIGIT z" by auto
    with o False np show ?thesis
      using ISODIGIT_not_letter [of x] by (cases "find_quote t") (auto simp: esc_char_def Let_def)
  qed
qed

lemma unescape_esc:
  assumes "c \<noteq> 0" and "length out < cap"
  shows "unescape_loop cap (esc_char c @ t) out = unescape_loop cap t (out @ [c])"
proof (cases "esc_quoted c \<or> c = 0x0A \<or> c = 0x09 \<or> c = 0x0D")
  case True
  with assms show ?thesis by (auto simp: esc_char_def esc_quoted_def TOR_ISODIGIT_def)
next
  case False
  show ?thesis
  proof (cases "esc_plain c")
    case True
    with False assms show ?thesis by (auto simp: esc_char_def esc_quoted_def)
  next
    case np: False
    obtain x y z where o: "octal3 c = [x, y, z]" by (simp add: octal3_def)
    with octal3_digits [of c] have d: "TOR_ISODIGIT x" "TOR_ISODIGIT y" "TOR_ISODIGIT z"
      and v: "((uint x - 0x30) * 8 + (uint y - 0x30)) * 8 + (uint z - 0x30) = uint c" by auto
    have "uint c \<le> 255" using uint_lt2p [of c] by simp
    with o d v False np assms ISODIGIT_not_letter [OF d(1)] show ?thesis
      by (simp add: esc_char_def octal_digit_def)
  qed
qed

lemma find_quote_esc_string:
  "find_quote (concat (map esc_char s) @ 0x22 # t) = Some (length (concat (map esc_char s)))"
  by (induction s) (simp_all add: find_quote_esc)

lemma length_esc_char: "0 < length (esc_char c)" "length (esc_char c) \<le> esc_len c"
  by (auto simp: esc_char_def esc_len_def octal3_def esc_plain_def TOR_ISPRINT_iff)

lemma length_esc_string: "length s \<le> length (concat (map esc_char s))"
proof (induction s)
  case (Cons c s)
  have "1 \<le> length (esc_char c)" using length_esc_char(1) [of c] by linarith
  with Cons show ?case by simp
qed simp

lemma unescape_esc_string:
  "0 \<notin> set s \<Longrightarrow> length out + length s < cap \<Longrightarrow>
   unescape_loop cap (concat (map esc_char s) @ 0x22 # t) out = OK (Some (out @ s, t))"
  by (induction s arbitrary: out) (auto simp: unescape_esc)

lemma esc_for_log_OK: "esc_for_log (Some s) = OK (0x22 # concat (map esc_char s) @ [0x22])"
proof -
  have "length (concat (map esc_char s)) \<le> sum_list (map esc_len s)"
    by (induction s) (auto intro: add_mono length_esc_char)
  then show ?thesis by (simp add: esc_for_log_def Let_def)
qed

lemma esc_char_prints: "list_all TOR_ISPRINT (esc_char c)"
  by (rule all_bytes [where P = "\<lambda>c. list_all TOR_ISPRINT (esc_char c)"]) code_simp

lemma tor_strisprint_iff: "tor_strisprint s \<longleftrightarrow> list_all TOR_ISPRINT s"
  by (induction s) auto

lemma unescape_string_esc:
  assumes "0 \<notin> set s"
  shows "unescape_string (0x22 # concat (map esc_char s) @ 0x22 # t) = OK (Some (s, t))"
  using unescape_esc_string [OF assms, of "[]" "length (concat (map esc_char s)) + 2" "t @ [0]"]
    length_esc_string [of s]
  by (simp add: unescape_string_def find_quote_esc_string le_imp_less_Suc less_SucI)

lemma config_skip_key:
  assumes "\<not> TOR_ISSPACE c" and "c \<noteq> 0x23"
  shows "config_skip (c # s) = c # s"
  using assms by (simp add: config_skip.simps)

lemma find_quote_bad_hex:
  "find_quote (concat (map esc_char s) @ [0x5C, 0x78, 0x22]) = Some (length (concat (map esc_char s)) + 2)"
  by (induction s) (simp_all add: find_quote_esc TOR_ISODIGIT_def)

lemma unescape_bad_hex:
  "0 \<notin> set s \<Longrightarrow> length out + length s < cap \<Longrightarrow>
   unescape_loop cap (concat (map esc_char s) @ [0x5C, 0x78, 0x22, 0]) out = Fault Mem_Fault"
  by (induction s arbitrary: out) (auto simp: unescape_esc)

subsection \<open>Properties\<close>

text \<open>
  C39: \<^verbatim>\<open>esc_for_log\<close> stays within the block it allocates, its output has only printable characters, and
  \<^verbatim>\<open>unescape_string\<close> on that output followed by anything gives back the string and what follows.
\<close>

theorem quoted_string_roundtrip:
  assumes "0 \<notin> set s"
  shows "\<exists>e. esc_for_log (Some s) = OK e \<and> tor_strisprint e \<and> unescape_string (e @ t) = OK (Some (s, t))"
proof -
  have "list_all TOR_ISPRINT (concat (map esc_char s))"
    using esc_char_prints by (auto simp: list_all_iff)
  then have "tor_strisprint (0x22 # concat (map esc_char s) @ [0x22])"
    by (simp add: tor_strisprint_iff TOR_ISPRINT_iff)
  with unescape_string_esc [OF assms, of t] esc_for_log_OK [of s] show ?thesis by simp
qed

theorem quoted_string_roundtrip_witness:
  "\<exists>e. esc_for_log (Some [0x61, 0x0A, 0x80]) = OK e \<and> unescape_string (e @ [0x7A]) = OK (Some ([0x61, 0x0A, 0x80], [0x7A]))"
  using quoted_string_roundtrip [of "[0x61, 0x0A, 0x80]" "[0x7A]"] by auto

text \<open>
  A quoted string that ends in a backslash and an \<^verbatim>\<open>x\<close> before the closing quote passes the first pass of
  \<^verbatim>\<open>unescape_string\<close>, and the second pass, which takes the two characters after the \<^verbatim>\<open>x\<close> whatever
  they are, runs past the terminating NUL.
\<close>

lemma unescape_reads_past_end:
  assumes "0 \<notin> set s"
  shows "unescape_string (0x22 # concat (map esc_char s) @ [0x5C, 0x78, 0x22]) = Fault Mem_Fault"
  using unescape_bad_hex [OF assms, of "[]" "length (concat (map esc_char s)) + 4"] length_esc_string [of s]
  by (simp add: unescape_string_def find_quote_bad_hex eval_nat_numeral)

text \<open>
  A configuration line written as a key, a space and the value in \<^verbatim>\<open>esc_for_log\<close> quotes is read back by
  \<^verbatim>\<open>parse_config_line_from_str\<close> as that key and that value, and the rest of the file follows with
  its leading space skipped.
\<close>

lemma config_line_roundtrip:
  assumes "key \<noteq> []" and "\<forall>c\<in>set key. \<not> TOR_ISSPACE c \<and> c \<noteq> 0x23" and "0 \<notin> set value"
    and "esc_for_log (Some value) = OK e"
  shows "parse_config_line_from_str (key @ 0x20 # e @ 0x0A # file) =
    OK (Some (dropWhile TOR_ISSPACE file, Some key, Some value))"
proof -
  obtain k ks where k: "key = k # ks" using assms(1) by (cases key) auto
  have sp: "TOR_ISSPACE 0x20" "TOR_ISSPACE 0x0A" by (simp_all add: TOR_ISSPACE_iff)
  have e: "e = 0x22 # concat (map esc_char value) @ [0x22]" using assms(4) by (simp add: esc_for_log_OK)
  have u: "unescape_string (e @ 0x0A # file) = OK (Some (value, 0x0A # file))"
    using unescape_string_esc [OF assms(3), of "0x0A # file"] e by simp
  have skip: "config_skip (key @ 0x20 # e @ 0x0A # file) = key @ 0x20 # e @ 0x0A # file"
    using assms(2) by (simp add: k config_skip_key)
  have "takeWhile (\<lambda>c. \<not> TOR_ISSPACE c \<and> c \<noteq> 0x23) (key @ 0x20 # e @ 0x0A # file) = key"
    "dropWhile (\<lambda>c. \<not> TOR_ISSPACE c \<and> c \<noteq> 0x23) (key @ 0x20 # e @ 0x0A # file) = 0x20 # e @ 0x0A # file"
    using assms(2) sp by (simp_all add: takeWhile_append2 dropWhile_append2)
  moreover have "dropWhile is_blank (0x20 # e @ 0x0A # file) = e @ 0x0A # file"
    "dropWhile is_blank (0x0A # file) = 0x0A # file" by (simp_all add: e is_blank_def)
  moreover have "e @ 0x0A # file \<noteq> [] \<and> hd (e @ 0x0A # file) = 0x22" by (simp add: e)
  moreover have "config_finish key value (0x0A # file) = OK (Some (dropWhile TOR_ISSPACE file, Some key, Some value))"
    using sp by (simp add: config_finish_def)
  moreover have "key @ 0x20 # e @ 0x0A # file \<noteq> []" by simp
  ultimately show ?thesis
    by (simp only: parse_config_line_from_str_def Let_def skip u rbind.simps if_True if_False
        option.case prod.case list.sel simp_thms)
qed

text \<open>
  C36: into a buffer of at least twice their number plus one, \<^verbatim>\<open>base16_encode\<close> writes two digits for each byte, and
  \<^verbatim>\<open>base16_decode\<close> into a buffer that holds them gives the bytes back.  \<^verbatim>\<open>base16_decode\<close> accepts exactly
  the strings of an even number of hexadecimal digits that fit its buffer.
\<close>

theorem base16_roundtrip:
  assumes "2 * length xs + 1 \<le> destlen" and "destlen < SIZE_T_CEILING" and "length xs \<le> n" and "n \<le> SIZE_T_CEILING"
  shows "(\<exists>e. base16_encode destlen xs = OK e \<and> length e = 2 * length xs \<and> base16_decode n e = Some xs) \<and>
    (base16_decode n src \<noteq> None \<longleftrightarrow> even (length src) \<and> length src \<le> 2 * n \<and> list_all TOR_ISXDIGIT src)"
proof
  show "\<exists>e. base16_encode destlen xs = OK e \<and> length e = 2 * length xs \<and> base16_decode n e = Some xs"
    using assms by (simp add: base16_encode_def base16_decode_def base16_decode_encode mult.commute tor_assert_def)
  show "base16_decode n src \<noteq> None \<longleftrightarrow> even (length src) \<and> length src \<le> 2 * n \<and> list_all TOR_ISXDIGIT src"
    using assms(4) base16_decode_loop_accepts [of src]
    by (cases "even (length src)") (auto simp: base16_decode_def even_iff_mod_2_eq_zero)
qed

theorem base16_roundtrip_witness:
  "\<exists>e. base16_encode 5 [0x1F, 0xA0] = OK e \<and> length e = 4 \<and> base16_decode 2 e = Some [0x1F, 0xA0]"
  using base16_roundtrip [of "[0x1F, 0xA0]" 5 2 "[]"] by (auto simp: SIZE_T_CEILING_def)

text \<open>
  \<^verbatim>\<open>tor_log2\<close> returns the floor of the binary logarithm of every positive 64-bit number, and
  \<^verbatim>\<open>round_to_next_multiple_of\<close> the least multiple that is at least the number, when the sum in it does not
  wrap around.
\<close>

lemma log2_and_rounding:
  assumes "u \<noteq> 0" and "0 < divisor" and "unat number + (unat divisor - 1) < 2 ^ 32"
  shows "2 ^ tor_log2 u \<le> unat u \<and> unat u < 2 ^ (tor_log2 u + 1) \<and>
    (let m = unat (round_to_next_multiple_of number divisor) in
      unat number \<le> m \<and> unat divisor dvd m \<and>
      (\<forall>k. unat number \<le> k \<and> unat divisor dvd k \<longrightarrow> m \<le> k))"
proof -
  have d: "0 < unat divisor" using assms(2) by (simp add: word_less_nat_alt)
  have "unat (round_to_next_multiple_of number divisor) =
      (unat number + (unat divisor - 1)) - (unat number + (unat divisor - 1)) mod unat divisor"
    unfolding round_to_next_multiple_of_def using unat_round_up [OF assms(2)] assms(3) by simp
  with round_up_div [OF d, of "unat number"] tor_log2_bounds [OF assms(1)] show ?thesis
    by (simp only: Let_def) blast
qed

end
