(* ===== verification/Handshake.thy ===== *)
theory Handshake
  imports RelaySend UtilStrings
begin

section \<open>Building circuits (circuitbuild.c, onion.c, crypto.c)\<close>

text \<open>
  How the hops of a circuit come to share keys: the key material and its split into ciphers and digests, the
  two handshakes, CREATE and EXTEND cells at the origin and at relays, circuit IDs for new circuits, circuits
  that wait for a connection, and the queue of handshakes that wait for a worker.  Log messages, statistics and the
  timing of circuits are left out.
\<close>

definition CIPHER_KEY_LEN :: nat where "CIPHER_KEY_LEN = 16"
definition DH_KEY_LEN :: nat where "DH_KEY_LEN = 128"
definition PKCS1_OAEP_PADDING_OVERHEAD :: nat where "PKCS1_OAEP_PADDING_OVERHEAD = 42"

definition CPATH_KEY_MATERIAL_LEN :: nat where
  "CPATH_KEY_MATERIAL_LEN = 20 * 2 + 16 * 2"

definition ONIONSKIN_CHALLENGE_LEN :: nat where
  "ONIONSKIN_CHALLENGE_LEN = PKCS1_OAEP_PADDING_OVERHEAD + CIPHER_KEY_LEN + DH_KEY_LEN"

definition ONIONSKIN_REPLY_LEN :: nat where
  "ONIONSKIN_REPLY_LEN = DH_KEY_LEN + DIGEST_LEN"

lemmas key_sizes = DIGEST_LEN_def CIPHER_KEY_LEN_def DH_KEY_LEN_def PKCS1_OAEP_PADDING_OVERHEAD_def
  CPATH_KEY_MATERIAL_LEN_def ONIONSKIN_CHALLENGE_LEN_def ONIONSKIN_REPLY_LEN_def

definition CELL_CREATE :: byte where "CELL_CREATE = 1"
definition CELL_CREATED :: byte where "CELL_CREATED = 2"
definition CELL_CREATE_FAST :: byte where "CELL_CREATE_FAST = 5"
definition CELL_CREATED_FAST :: byte where "CELL_CREATED_FAST = 6"
definition CIRCUIT_STATE_BUILDING :: nat where "CIRCUIT_STATE_BUILDING = 0"
definition END_CIRC_REASON_HIBERNATING :: int where "END_CIRC_REASON_HIBERNATING = 4"
definition END_CIRC_REASON_RESOURCELIMIT :: int where "END_CIRC_REASON_RESOURCELIMIT = 5"
definition END_CIRC_REASON_CONNECTFAILED :: int where "END_CIRC_REASON_CONNECTFAILED = 6"
definition END_CIRC_REASON_OR_CONN_CLOSED :: int where "END_CIRC_REASON_OR_CONN_CLOSED = 8"
definition ONIONQUEUE_WAIT_CUTOFF :: int where "ONIONQUEUE_WAIT_CUTOFF = 5"

subsection \<open>Key material\<close>

text \<open>\<^verbatim>\<open>crypto_expand_key_material\<close>: the digests of the key with a counter byte, one after another.
  The digest (SHA-1 of OpenSSL) cannot fail, so that the exit of the code for a failed digest is not taken.\<close>

function expand_blocks :: "(byte list \<Rightarrow> byte list) \<Rightarrow> byte list \<Rightarrow> nat \<Rightarrow> nat \<Rightarrow> byte list" where
  "expand_blocks digest key_in i left =
     (if left = 0 then []
      else take (if DIGEST_LEN < left then DIGEST_LEN else left) (digest (key_in @ [of_nat i])) @
        expand_blocks digest key_in (i + 1) (left - DIGEST_LEN))"
  by auto
termination by (relation "measure (\<lambda>(_, _, _, left). left)") (auto simp: DIGEST_LEN_def)

declare expand_blocks.simps [simp del]

definition crypto_expand_key_material :: "'d relay_env \<Rightarrow> byte list \<Rightarrow> nat \<Rightarrow> byte list res" where
  "crypto_expand_key_material env key_in key_out_len =
     tor_assert (key_out_len \<le> DIGEST_LEN * 256) (OK (expand_blocks (en_crypto_digest env) key_in 0 key_out_len))"

text \<open>
  The handshake of CREATE\_FAST, at the server and at the client.  The server replies with fresh bytes and
  a digest that proves it knows both halves; both derive the same keys.
\<close>

definition fast_server_handshake ::
  "'d relay_env \<Rightarrow> byte list \<Rightarrow> nat \<Rightarrow> 'd world \<Rightarrow> (byte list \<times> byte list) option res" where
  "fast_server_handshake env key_in key_out_len w =
     (case en_crypto_rand env DIGEST_LEN w of
        None \<Rightarrow> OK None
      | Some y \<Rightarrow>
          rbind (crypto_expand_key_material env (take DIGEST_LEN key_in @ take DIGEST_LEN y) (key_out_len + DIGEST_LEN)) (\<lambda>out.
            OK (Some (take DIGEST_LEN y @ take DIGEST_LEN out, take key_out_len (drop DIGEST_LEN out)))))"

definition fast_client_handshake :: "'d relay_env \<Rightarrow> byte list \<Rightarrow> byte list \<Rightarrow> nat \<Rightarrow> byte list option res" where
  "fast_client_handshake env handshake_state handshake_reply_out key_out_len =
     rbind (crypto_expand_key_material env
              (take DIGEST_LEN handshake_state @ take DIGEST_LEN handshake_reply_out) (key_out_len + DIGEST_LEN)) (\<lambda>out.
       OK (if take DIGEST_LEN out \<noteq> take DIGEST_LEN (drop DIGEST_LEN handshake_reply_out) then None
           else Some (take key_out_len (drop DIGEST_LEN out))))"

definition onion_skin_client_handshake :: "'d relay_env \<Rightarrow> nat \<Rightarrow> byte list \<Rightarrow> nat \<Rightarrow> byte list option" where
  "onion_skin_client_handshake env handshake_state handshake_reply key_out_len =
     (case en_dh_compute_secret env handshake_state (take DH_KEY_LEN handshake_reply) (DIGEST_LEN + key_out_len) of
        None \<Rightarrow> None
      | Some key_material \<Rightarrow>
          if take DIGEST_LEN key_material \<noteq> take DIGEST_LEN (drop DH_KEY_LEN handshake_reply) then None
          else Some (take key_out_len (drop DIGEST_LEN key_material)))"

text \<open>
  The cipher of \<^verbatim>\<open>crypto_create_init_cipher\<close> is that of \<^theory_text>\<open>Aes\<close>; it is the same for both modes, and setting it up
  does not fail.
\<close>

definition crypto_create_init_cipher :: "byte list \<Rightarrow> aes_cnt_cipher res" where
  "crypto_create_init_cipher key = aes_set_key aes_new_cipher (take CIPHER_KEY_LEN key) (CIPHER_KEY_LEN * 8)"

definition circuit_init_cpath_crypto :: "'d relay_env \<Rightarrow> 'd crypt_path \<Rightarrow> byte list \<Rightarrow> bool \<Rightarrow> 'd crypt_path res" where
  "circuit_init_cpath_crypto env cpath key_data reverse =
     tor_assert (\<not> cp_keys_set cpath)
      (let f_digest = dg_add (en_ops env) (dg_new (en_ops env)) (take DIGEST_LEN key_data);
           b_digest = dg_add (en_ops env) (dg_new (en_ops env)) (take DIGEST_LEN (drop DIGEST_LEN key_data))
       in rbind (crypto_create_init_cipher (drop (2 * DIGEST_LEN) key_data)) (\<lambda>f_crypto.
          rbind (crypto_create_init_cipher (drop (2 * DIGEST_LEN + CIPHER_KEY_LEN) key_data)) (\<lambda>b_crypto.
            OK (if reverse
                then cpath\<lparr>cp_keys_set := True, cp_f_digest := b_digest, cp_b_digest := f_digest, cp_f_crypto := b_crypto, cp_b_crypto := f_crypto\<rparr>
                else cpath\<lparr>cp_keys_set := True, cp_f_digest := f_digest, cp_b_digest := b_digest, cp_f_crypto := f_crypto, cp_b_crypto := b_crypto\<rparr>))))"

subsection \<open>At the origin\<close>

definition onion_next_hop_in_cpath :: "'d crypt_path list \<Rightarrow> nat option" where
  "onion_next_hop_in_cpath cpath = find (\<lambda>i. cp_state (cpath ! i) \<noteq> CPATH_STATE_OPEN) [0..<length cpath]"

definition handshake_keys :: "'d relay_env \<Rightarrow> 'd crypt_path \<Rightarrow> byte \<Rightarrow> byte list \<Rightarrow> (byte list \<times> byte list) option res" where
  "handshake_keys env hop reply_type reply =
     (let len = DIGEST_LEN * 2 + CIPHER_KEY_LEN * 2 in
      case cp_dh_handshake_state hop of
        Some dh \<Rightarrow>
          if reply_type = CELL_CREATED
          then OK (map_option (\<lambda>keys. (keys, take DIGEST_LEN (drop DH_KEY_LEN reply))) (onion_skin_client_handshake env dh reply len))
          else OK None
      | None \<Rightarrow>
          if reply_type = CELL_CREATED_FAST
          then rbind (fast_client_handshake env (cp_fast_handshake_state hop) reply len) (\<lambda>r.
                 OK (map_option (\<lambda>keys. (keys, take DIGEST_LEN (drop DIGEST_LEN reply))) r))
          else OK None)"

definition circuit_finish_handshake ::
  "'d relay_env \<Rightarrow> circ_ref \<Rightarrow> byte \<Rightarrow> byte list \<Rightarrow> 'd world \<Rightarrow> ('d world \<times> int) res" where
  "circuit_finish_handshake env c reply_type reply w =
     (let cpath = ci_cpath (w_circs w c) in
      if cpath = [] then Fault Mem_Fault
      else case (if cp_state (cpath ! 0) = CPATH_STATE_AWAITING_KEYS then Some 0 else onion_next_hop_in_cpath cpath) of
        None \<Rightarrow> OK (w, - END_CIRC_REASON_TORPROTOCOL)
      | Some layer \<Rightarrow>
          tor_assert (cp_state (cpath ! layer) = CPATH_STATE_AWAITING_KEYS)
           (rbind (handshake_keys env (cpath ! layer) reply_type reply) (\<lambda>found.
              case found of
                None \<Rightarrow> OK (w, - END_CIRC_REASON_TORPROTOCOL)
              | Some (keys, handshake_digest) \<Rightarrow>
                  rbind (circuit_init_cpath_crypto env ((cpath ! layer)\<lparr>cp_handshake_digest := handshake_digest,
                           cp_dh_handshake_state := None, cp_fast_handshake_state := replicate DIGEST_LEN 0\<rparr>) keys False) (\<lambda>hop.
                    let w1 = upd_circ c (upd_hop layer (\<lambda>_. hop\<lparr>cp_state := CPATH_STATE_OPEN\<rparr>)) w
                    in OK (w1\<lparr>w_events := w_events w1 @ [Circuit_Extended c]\<rparr>, 0)))))"

definition circuit_truncated :: "'d relay_env \<Rightarrow> circ_ref \<Rightarrow> nat \<Rightarrow> 'd world \<Rightarrow> 'd world res" where
  "circuit_truncated env c layer w =
     circuit_mark_for_close env c (END_CIRC_REASON_FLAG_REMOTE OR END_CIRC_REASON_OR_CONN_CLOSED) w"

subsection \<open>Circuit IDs for new circuits\<close>

text \<open>
  \<^verbatim>\<open>get_unique_circ_id_by_conn\<close>: the IDs from 1 to \<open>2\<^sup>1\<^sup>5 - 1\<close> are tried in turn, from where the last search ended, and
  at most \<open>2\<^sup>1\<^sup>5\<close> times.
\<close>

function unique_id_loop :: "conn_ref \<Rightarrow> u16 \<Rightarrow> nat \<Rightarrow> 'd world \<Rightarrow> ('d world \<times> u16) res" where
  "unique_id_loop k high_bit attempts w =
     (let test_circ_id = oc_next_circ_id (w_conns w k);
          (test1, next_id) = (if test_circ_id = 0 \<or> test_circ_id \<ge> 0x8000 then (1, 2) else (test_circ_id, test_circ_id + 1));
          w1 = upd_conn k (\<lambda>oc. oc\<lparr>oc_next_circ_id := next_id\<rparr>) w
      in if attempts + 1 > 0x8000 then OK (w1, 0)
         else case circuit_id_in_use_on_orconn (test1 OR high_bit) k w1 of
           Fault e \<Rightarrow> Fault e
         | OK (used, w2) \<Rightarrow> if used then unique_id_loop k high_bit (attempts + 1) w2 else OK (w2, test1 OR high_bit))"
  by pat_completeness auto
termination by (relation "measure (\<lambda>(_, _, attempts, _). 0x8000 - attempts)") auto

declare unique_id_loop.simps [simp del]

definition get_unique_circ_id_by_conn :: "conn_ref \<Rightarrow> 'd world \<Rightarrow> ('d world \<times> u16) res" where
  "get_unique_circ_id_by_conn k w =
     (case oc_circ_id_type (w_conns w k) of
        CIRC_ID_TYPE_NEITHER \<Rightarrow> OK (w, 0)
      | CIRC_ID_TYPE_HIGHER \<Rightarrow> unique_id_loop k 0x8000 0 w
      | CIRC_ID_TYPE_LOWER \<Rightarrow> unique_id_loop k 0 0 w)"

definition cell_body :: "nat \<Rightarrow> byte list \<Rightarrow> byte list" where
  "cell_body n payload = take n payload @ replicate (CELL_PAYLOAD_SIZE - n) 0"

definition circuit_deliver_create_cell ::
  "'d relay_env \<Rightarrow> circ_ref \<Rightarrow> byte \<Rightarrow> byte list \<Rightarrow> 'd world \<Rightarrow> ('d world \<times> int) res" where
  "circuit_deliver_create_cell env c cell_type payload w =
     (case ci_n_conn (w_circs w c) of
        None \<Rightarrow> Fault Assert_Fail
      | Some k \<Rightarrow>
          tor_assert (cell_type = CELL_CREATE \<or> cell_type = CELL_CREATE_FAST)
           (rbind (get_unique_circ_id_by_conn k w) (\<lambda>(w1, circ_id).
              if circ_id = 0 then OK (w1, -1)
              else
                rbind (circuit_set_n_circid_orconn c circ_id (Some k) w1) (\<lambda>w2.
                rbind (append_cell_to_circuit_queue (en_hw env) c k
                         \<lparr>ce_circ_id = ci_n_circ_id (w_circs w2 c), ce_command = cell_type,
                          ce_payload = cell_body ONIONSKIN_CHALLENGE_LEN payload\<rparr> CELL_DIRECTION_OUT w2) (\<lambda>w3.
                  if ci_origin (w_circs w3 c) then
                    (case ci_n_conn (w_circs w3 c) of
                       None \<Rightarrow> Fault Mem_Fault
                     | Some k' \<Rightarrow> OK (upd_conn k' (\<lambda>oc. oc\<lparr>oc_client_used := w_now w3\<rparr>) w3, 0))
                  else OK (w3, 0))))))"

text \<open>The first CREATE cell.  The handshake state of the hop is set before the cell is sent.\<close>

definition first_onion_skin :: "'d relay_env \<Rightarrow> circ_ref \<Rightarrow> 'd world \<Rightarrow> ('d world \<times> (byte \<times> byte list) option)" where
  "first_onion_skin env c w =
     (if en_should_use_create_fast env c w then
        (let x = (case en_crypto_rand env DIGEST_LEN w of
                    None \<Rightarrow> cp_fast_handshake_state (ci_cpath (w_circs w c) ! 0)
                  | Some x \<Rightarrow> take DIGEST_LEN x)
         in (upd_circ c (upd_hop 0 (\<lambda>h. h\<lparr>cp_fast_handshake_state := x\<rparr>)) w,
             Some (CELL_CREATE_FAST, x @ replicate (2 + 4 + ONIONSKIN_CHALLENGE_LEN) 0)))
      else case en_onion_skin_create env c 0 w of
        None \<Rightarrow> (upd_circ c (upd_hop 0 (\<lambda>h. h\<lparr>cp_dh_handshake_state := None\<rparr>)) w, None)
      | Some (dh, skin) \<Rightarrow> (upd_circ c (upd_hop 0 (\<lambda>h. h\<lparr>cp_dh_handshake_state := Some dh\<rparr>)) w, Some (CELL_CREATE, skin)))"

definition set_hop_state :: "circ_ref \<Rightarrow> nat \<Rightarrow> cpath_state \<Rightarrow> 'd world \<Rightarrow> 'd world" where
  "set_hop_state c layer state w = upd_circ c (upd_hop layer (\<lambda>h. h\<lparr>cp_state := state\<rparr>)) w"

definition send_create_cell :: "'d relay_env \<Rightarrow> circ_ref \<Rightarrow> 'd world \<Rightarrow> ('d world \<times> int) res" where
  "send_create_cell env c w =
     rbind (en_control_event_bootstrap env c w) (\<lambda>w1.
     if ci_n_conn (w_circs w1 c) = None then Fault Mem_Fault
     else case first_onion_skin env c w1 of
       (w2, None) \<Rightarrow> OK (w2, - END_CIRC_REASON_INTERNAL)
     | (w2, Some (cell_type, payload)) \<Rightarrow>
         rbind (circuit_deliver_create_cell env c cell_type payload w2) (\<lambda>(w3, r).
           if r < 0 then OK (w3, - END_CIRC_REASON_RESOURCELIMIT)
           else rbind (circuit_set_state c CIRCUIT_STATE_BUILDING (set_hop_state c 0 CPATH_STATE_AWAITING_KEYS w3)) (\<lambda>w4. OK (w4, 0))))"

definition send_extend_cell :: "'d relay_env \<Rightarrow> circ_ref \<Rightarrow> nat \<Rightarrow> 'd world \<Rightarrow> ('d world \<times> int) res" where
  "send_extend_cell env c layer w =
     (let hop = ci_cpath (w_circs w c) ! layer in
      case ei_addr (cp_extend_info hop) of
        AF_UNSPEC \<Rightarrow> OK (w, - END_CIRC_REASON_INTERNAL)
      | AF_INET6 _ \<Rightarrow> OK (w, - END_CIRC_REASON_INTERNAL)
      | AF_INET addr \<Rightarrow>
          (case en_onion_skin_create env c layer w of
             None \<Rightarrow> OK (upd_circ c (upd_hop layer (\<lambda>h. h\<lparr>cp_dh_handshake_state := None\<rparr>)) w, - END_CIRC_REASON_INTERNAL)
           | Some (dh, skin) \<Rightarrow>
               rbind (relay_send_command_from_edge env 0 c RELAY_COMMAND_EXTEND
                        (be32 addr @ be16 (ei_port (cp_extend_info hop)) @ take ONIONSKIN_CHALLENGE_LEN skin @
                         take DIGEST_LEN (ei_identity_digest (cp_extend_info hop)))
                        (Some (layer - 1)) (upd_circ c (upd_hop layer (\<lambda>h. h\<lparr>cp_dh_handshake_state := Some dh\<rparr>)) w)) (\<lambda>(w1, r).
                 if r < 0 then OK (w1, 0) else OK (set_hop_state c layer CPATH_STATE_AWAITING_KEYS w1, 0))))"

definition circuit_send_next_onion_skin :: "'d relay_env \<Rightarrow> circ_ref \<Rightarrow> 'd world \<Rightarrow> ('d world \<times> int) res" where
  "circuit_send_next_onion_skin env c w =
     (let cpath = ci_cpath (w_circs w c) in
      if cpath = [] then Fault Mem_Fault
      else if cp_state (cpath ! 0) = CPATH_STATE_CLOSED then send_create_cell env c w
      else
        tor_assert (cp_state (cpath ! 0) = CPATH_STATE_OPEN)
       (tor_assert (ci_state (w_circs w c) = CIRCUIT_STATE_BUILDING)
         (case onion_next_hop_in_cpath cpath of
            None \<Rightarrow> rbind (circuit_set_state c CIRCUIT_STATE_OPEN w) (\<lambda>w1.
                    rbind (en_circuit_has_opened env c w1) (\<lambda>w2. OK (w2, 0)))
          | Some layer \<Rightarrow> send_extend_cell env c layer w)))"

subsection \<open>At a relay\<close>

definition onionskin_answer ::
  "'d relay_env \<Rightarrow> circ_ref \<Rightarrow> byte \<Rightarrow> byte list \<Rightarrow> byte list \<Rightarrow> 'd world \<Rightarrow> ('d world \<times> int) res" where
  "onionskin_answer env c cell_type payload keys w =
     rbind (circuit_set_state c CIRCUIT_STATE_OPEN w) (\<lambda>w1.
     let cell = \<lparr>ce_circ_id = ci_p_circ_id (w_circs w c), ce_command = cell_type,
                 ce_payload = cell_body (if cell_type = CELL_CREATED then ONIONSKIN_REPLY_LEN else DIGEST_LEN * 2) payload\<rparr>;
         tmp_cpath = \<lparr>cp_extend_info = no_extend_info, cp_keys_set = False, cp_dh_handshake_state = None,
                      cp_fast_handshake_state = replicate DIGEST_LEN 0, cp_handshake_digest = replicate DIGEST_LEN 0,
                      cp_f_crypto = aes_new_cipher, cp_b_crypto = aes_new_cipher, cp_f_digest = dg_new (en_ops env),
                      cp_b_digest = dg_new (en_ops env), cp_state = CPATH_STATE_CLOSED, cp_package_window = 0, cp_deliver_window = 0\<rparr>
     in rbind (circuit_init_cpath_crypto env tmp_cpath keys False) (\<lambda>cp.
        let w2 = upd_circ c (\<lambda>ci. ci\<lparr>ci_n_digest := cp_f_digest cp, ci_n_crypto := cp_f_crypto cp,
                   ci_p_digest := cp_b_digest cp, ci_p_crypto := cp_b_crypto cp, ci_keys_set := True,
                   ci_handshake_digest := take DIGEST_LEN (drop (if cell_type = CELL_CREATED then DH_KEY_LEN else DIGEST_LEN) (ce_payload cell)),
                   ci_is_first_hop := (cell_type = CELL_CREATED_FAST)\<rparr>) w1
        in case ci_p_conn (w_circs w2 c) of
             None \<Rightarrow> Fault Mem_Fault
           | Some k \<Rightarrow>
               rbind (append_cell_to_circuit_queue (en_hw env) c k cell CELL_DIRECTION_IN w2) (\<lambda>w3.
                 case ci_p_conn (w_circs w3 c) of
                   None \<Rightarrow> Fault Mem_Fault
                 | Some k' \<Rightarrow> rbind (en_orport_reachable env k' w3) (\<lambda>w4. OK (w4, 0)))))"

definition circuit_extend :: "'d relay_env \<Rightarrow> cell \<Rightarrow> circ_ref \<Rightarrow> 'd world \<Rightarrow> ('d world \<times> int) res" where
  "circuit_extend env cell c w =
     (let circ = w_circs w c; rh = relay_header_unpack (ce_payload cell); body = drop RELAY_HEADER_SIZE (ce_payload cell);
          n_addr32 = rd32 body; n_port = rd16 (drop 4 body);
          onionskin = drop (4 + 2) body; id_digest = take DIGEST_LEN (drop (4 + 2 + ONIONSKIN_CHALLENGE_LEN) body)
      in if ci_n_conn circ \<noteq> None then OK (w, -1)
         else if ci_n_hop circ \<noteq> None then OK (w, -1)
         else if \<not> en_server_mode env then OK (w, -1)
         else if unat (rh_length rh) < 4 + 2 + ONIONSKIN_CHALLENGE_LEN + DIGEST_LEN then OK (w, -1)
         else if n_port = 0 \<or> n_addr32 = 0 then OK (w, -1)
         else if tor_digest_is_zero id_digest then OK (w, -1)
         else tor_assert (\<not> ci_origin circ) (case ci_p_conn circ of
           None \<Rightarrow> Fault Mem_Fault
         | Some p \<Rightarrow>
             if id_digest = oc_identity_digest (w_conns w p) then OK (w, -1)
             else case en_get_for_extend env id_digest (AF_INET n_addr32) w of
               (None, should_launch) \<Rightarrow>
                 (let w1 = upd_circ c (\<lambda>ci. ci\<lparr>ci_n_hop := Some \<lparr>ei_identity_digest = id_digest, ei_addr = AF_INET n_addr32, ei_port = n_port\<rparr>,
                             ci_n_conn_onionskin := Some (take ONIONSKIN_CHALLENGE_LEN onionskin)\<rparr>) w
                  in rbind (circuit_set_state c CIRCUIT_STATE_OR_WAIT w1) (\<lambda>w2.
                     if should_launch then
                       rbind (en_or_connect env (AF_INET n_addr32) n_port id_digest w2) (\<lambda>(w3, n_conn).
                         if n_conn = None then rbind (circuit_mark_for_close env c END_CIRC_REASON_CONNECTFAILED w3) (\<lambda>w4. OK (w4, 0))
                         else OK (w3, 0))
                     else OK (w2, 0)))
             | (Some n_conn, _) \<Rightarrow>
                 rbind (circuit_deliver_create_cell env c CELL_CREATE onionskin
                          (upd_circ c (\<lambda>ci. ci\<lparr>ci_n_conn := Some n_conn\<rparr>) w)) (\<lambda>(w1, r).
                   if r < 0 then OK (w1, -1) else OK (w1, 0))))"

text \<open>The circuits that wait for a connection to its router, when it opens or fails.\<close>

definition n_hop_matches :: "extend_info \<Rightarrow> or_conn \<Rightarrow> bool" where
  "n_hop_matches n_hop or_conn =
     (if tor_digest_is_zero (ei_identity_digest n_hop) then ei_addr n_hop = oc_addr or_conn \<and> ei_port n_hop = oc_port or_conn
      else oc_identity_digest or_conn = ei_identity_digest n_hop)"

fun pending_on_or_conn :: "conn_ref \<Rightarrow> circ_ref list \<Rightarrow> 'd world \<Rightarrow> circ_ref list res" where
  "pending_on_or_conn k [] w = OK []"
| "pending_on_or_conn k (c # cs) w =
     (let circ = w_circs w c in
      if ci_marked_for_close circ then pending_on_or_conn k cs w
      else case ci_n_hop circ of
        None \<Rightarrow> pending_on_or_conn k cs w
      | Some n_hop \<Rightarrow>
          tor_assert (ci_state circ = CIRCUIT_STATE_OR_WAIT)
            (rbind (pending_on_or_conn k cs w) (\<lambda>out. OK (if n_hop_matches n_hop (w_conns w k) then c # out else out))))"

definition circuit_get_all_pending_on_or_conn :: "conn_ref \<Rightarrow> 'd world \<Rightarrow> circ_ref list res" where
  "circuit_get_all_pending_on_or_conn k w = pending_on_or_conn k (w_pending_or_conns w) w"

definition n_conn_done_one :: "'d relay_env \<Rightarrow> conn_ref \<Rightarrow> bool \<Rightarrow> circ_ref \<Rightarrow> 'd world \<Rightarrow> 'd world res" where
  "n_conn_done_one env k status c w =
     (let circ = w_circs w c in
      if ci_marked_for_close circ \<or> ci_n_conn circ \<noteq> None \<or> ci_n_hop circ = None \<or> ci_state circ \<noteq> CIRCUIT_STATE_OR_WAIT
      then OK w
      else if \<not> n_hop_matches (the (ci_n_hop circ)) (w_conns w k) then OK w
      else if \<not> status then circuit_mark_for_close env c END_CIRC_REASON_OR_CONN_CLOSED w
      else
        (let w1 = upd_circ c (\<lambda>ci. ci\<lparr>ci_n_conn := Some k, ci_n_hop := None\<rparr>) w in
         if ci_origin circ then
           rbind (circuit_send_next_onion_skin env c w1) (\<lambda>(w2, err_reason).
             if err_reason < 0 then circuit_mark_for_close env c (- err_reason) w2 else OK w2)
         else case ci_n_conn_onionskin circ of
           None \<Rightarrow> Fault Assert_Fail
         | Some onionskin \<Rightarrow>
             rbind (circuit_deliver_create_cell env c CELL_CREATE onionskin w1) (\<lambda>(w2, r).
               if r < 0 then circuit_mark_for_close env c END_CIRC_REASON_RESOURCELIMIT w2
               else circuit_set_state c CIRCUIT_STATE_OPEN (upd_circ c (\<lambda>ci. ci\<lparr>ci_n_conn_onionskin := None\<rparr>) w2))))"

fun n_conn_done_loop :: "'d relay_env \<Rightarrow> conn_ref \<Rightarrow> bool \<Rightarrow> circ_ref list \<Rightarrow> 'd world \<Rightarrow> 'd world res" where
  "n_conn_done_loop env k status [] w = OK w"
| "n_conn_done_loop env k status (c # cs) w = rbind (n_conn_done_one env k status c w) (n_conn_done_loop env k status cs)"

definition circuit_n_conn_done :: "'d relay_env \<Rightarrow> conn_ref \<Rightarrow> bool \<Rightarrow> 'd world \<Rightarrow> 'd world res" where
  "circuit_n_conn_done env k status w =
     rbind (circuit_get_all_pending_on_or_conn k w) (\<lambda>pending_circs. n_conn_done_loop env k status pending_circs w)"

subsection \<open>Handshakes that wait for a worker\<close>

definition cull_pass :: "'d relay_env \<Rightarrow> int \<Rightarrow> 'd world \<Rightarrow> ('d world \<times> unit option) res" where
  "cull_pass env now w = (case w_onion_queue w of
     [] \<Rightarrow> Fault Mem_Fault
   | (c, _, when_added) # _ \<Rightarrow>
       if now - when_added \<ge> ONIONQUEUE_WAIT_CUTOFF
       then rbind (circuit_mark_for_close env c END_CIRC_REASON_RESOURCELIMIT (onion_pending_remove c w)) (\<lambda>w1. OK (w1, None))
       else OK (w, Some ()))"

definition onion_pending_add :: "'d relay_env \<Rightarrow> circ_ref \<Rightarrow> byte list \<Rightarrow> 'd world \<Rightarrow> ('d world \<times> int) res" where
  "onion_pending_add env c onionskin w =
     (let now = w_now w;
          w1 = w\<lparr>w_onion_queue := w_onion_queue w @ [(c, onionskin, now)], w_onion_length := w_onion_length w + 1\<rparr>
      in if w_onion_queue w = [] then tor_assert (w_onion_length w = 0) (OK (w1, 0))
         else if w_onion_length w \<ge> en_MaxOnionsPending env then OK (w, -1)
         else rbind (returns (iterate (cull_pass env now) w1)) (\<lambda>(w2, _). OK (w2, 0)))"

definition onion_next_task :: "'d world \<Rightarrow> ('d world \<times> (circ_ref \<times> byte list) option) res" where
  "onion_next_task w = (case w_onion_queue w of
     [] \<Rightarrow> OK (w, None)
   | (c, onionskin, _) # _ \<Rightarrow>
       tor_assert (ci_p_conn (w_circs w c) \<noteq> None)
      (tor_assert (w_onion_length w > 0) (OK (onion_pending_remove c w, Some (c, onionskin)))))"

definition clear_pending_onions :: "'d world \<Rightarrow> 'd world" where
  "clear_pending_onions w = w\<lparr>w_onion_queue := [], w_onion_length := 0\<rparr>"

subsection \<open>New circuits at a relay\<close>

text \<open>The memory of a new circuit is zeroed.  The list of all circuits is not modelled.\<close>

definition zeroed_circuit :: "'d relay_env \<Rightarrow> 'd circuit" where
  "zeroed_circuit env = \<lparr>ci_origin = False, ci_cpath = [], ci_n_crypto = aes_new_cipher, ci_p_crypto = aes_new_cipher,
     ci_n_digest = dg_new (en_ops env), ci_p_digest = dg_new (en_ops env), ci_n_conn_cells = empty_queue, ci_n_conn = None, ci_n_circ_id = 0,
     ci_streams_blocked_on_n_conn = False, ci_streams_blocked_on_p_conn = False, ci_state = 0, ci_purpose = 0,
     ci_package_window = 0, ci_deliver_window = 0, ci_payedReads = 0, ci_payedWrites = 0,
     ci_payedReadsAdded = 0, ci_payedWritesAdded = 0, ci_marked_for_close = False,
     ci_next_active_on_n_conn = None, ci_prev_active_on_n_conn = None, ci_p_streams = [],
     ci_remaining_relay_early_cells = 0, ci_relay_early_commands = [], ci_next_active_on_p_conn = None,
     ci_prev_active_on_p_conn = None, ci_p_circ_id = 0, ci_p_conn_cells = empty_queue, ci_p_conn = None,
     ci_n_streams = [], ci_resolving_streams = [], ci_rend_splice = None, ci_n_hop = None, ci_n_conn_onionskin = None,
     ci_keys_set = False, ci_handshake_digest = replicate DIGEST_LEN 0, ci_is_first_hop = False, ci_onehop_tunnel = False\<rparr>"

definition init_circuit_base :: "circ_ref \<Rightarrow> 'd world \<Rightarrow> 'd world" where
  "init_circuit_base c w = upd_circ c (\<lambda>ci. ci\<lparr>ci_package_window := CIRCWINDOW_START, ci_deliver_window := CIRCWINDOW_START,
     ci_payedReads := CIRCWINDOW_START, ci_payedWrites := CIRCWINDOW_START,
     ci_payedReadsAdded := CIRCWINDOW_START, ci_payedWritesAdded := CIRCWINDOW_START\<rparr>) w"

definition or_circuit_new :: "'d relay_env \<Rightarrow> u16 \<Rightarrow> conn_ref option \<Rightarrow> 'd world \<Rightarrow> ('d world \<times> circ_ref) res" where
  "or_circuit_new env p_circ_id p_conn w =
     (let c = en_new_circuit env w; w1 = upd_circ c (\<lambda>_. zeroed_circuit env) w in
      rbind (if p_conn \<noteq> None then circuit_set_p_circid_orconn c p_circ_id p_conn w1 else OK w1) (\<lambda>w2.
        OK (init_circuit_base c (upd_circ c (\<lambda>ci. ci\<lparr>ci_remaining_relay_early_cells := MAX_RELAY_EARLY_CELLS_PER_CIRCUIT\<rparr>) w2), c)))"

text \<open>
  \<^verbatim>\<open>command_process_create_cell\<close> of \<^verbatim>\<open>command.c\<close>.
\<close>

definition unexpected_id :: "u16 \<Rightarrow> or_conn \<Rightarrow> bool" where
  "unexpected_id circ_id conn \<longleftrightarrow>
     (circ_id AND 0x8000 \<noteq> 0 \<and> oc_circ_id_type conn = CIRC_ID_TYPE_HIGHER) \<or>
     (circ_id AND 0x8000 = 0 \<and> oc_circ_id_type conn = CIRC_ID_TYPE_LOWER)"

definition command_process_create_cell :: "'d relay_env \<Rightarrow> cell \<Rightarrow> conn_ref \<Rightarrow> 'd world \<Rightarrow> 'd world res" where
  "command_process_create_cell env cell k w =
     (if en_we_are_hibernating env then connection_or_send_destroy (en_hw env) (ce_circ_id cell) k END_CIRC_REASON_HIBERNATING w
      else if \<not> en_server_mode env then connection_or_send_destroy (en_hw env) (ce_circ_id cell) k END_CIRC_REASON_TORPROTOCOL w
      else if unexpected_id (ce_circ_id cell) (w_conns w k)
      then connection_or_send_destroy (en_hw env) (ce_circ_id cell) k END_CIRC_REASON_TORPROTOCOL w
      else
        rbind (circuit_id_in_use_on_orconn (ce_circ_id cell) k w) (\<lambda>(used, w1).
        if used then OK w1
        else
          rbind (or_circuit_new env (ce_circ_id cell) (Some k) w1) (\<lambda>(w2, c).
          rbind (circuit_set_state c CIRCUIT_STATE_ONIONSKIN_PENDING (upd_circ c (\<lambda>ci. ci\<lparr>ci_purpose := CIRCUIT_PURPOSE_OR\<rparr>) w2)) (\<lambda>w3.
          if ce_command cell = CELL_CREATE then
            rbind (en_assign_onionskin env c (take ONIONSKIN_CHALLENGE_LEN (ce_payload cell)) w3) (\<lambda>(w4, r).
              if r < 0 then circuit_mark_for_close env c END_CIRC_REASON_INTERNAL w4 else OK w4)
          else
            tor_assert (ce_command cell = CELL_CREATE_FAST)
             (rbind (fast_server_handshake env (ce_payload cell) CPATH_KEY_MATERIAL_LEN w3) (\<lambda>found.
                case found of
                  None \<Rightarrow> circuit_mark_for_close env c END_CIRC_REASON_INTERNAL w3
                | Some (reply, keys) \<Rightarrow>
                    rbind (onionskin_answer env c CELL_CREATED_FAST reply keys w3) (\<lambda>(w4, r).
                      if r < 0 then circuit_mark_for_close env c END_CIRC_REASON_INTERNAL w4 else OK w4)))))))"

subsection \<open>Unused circuit IDs\<close>

text \<open>
  The search for a circuit ID changes two things only: where the next search on the connection begins, and the cache of
  the map.
\<close>

definition searched :: "conn_ref \<Rightarrow> 'd world \<Rightarrow> 'd world \<Rightarrow> bool" where
  "searched k w w' \<longleftrightarrow> (\<exists>l n. w' = upd_conn k (\<lambda>oc. oc\<lparr>oc_next_circ_id := n\<rparr>) (w\<lparr>w_last_circid_ent := l\<rparr>) \<and>
     (\<forall>x. l = Some x \<longrightarrow> w_circid_map w x \<noteq> None))"

lemma searched_trans:
  assumes "searched k u v" and "searched k v w"
  shows "searched k u w"
proof -
  from assms obtain l n l' n' where v: "v = upd_conn k (\<lambda>oc. oc\<lparr>oc_next_circ_id := n\<rparr>) (u\<lparr>w_last_circid_ent := l\<rparr>)"
    and w: "w = upd_conn k (\<lambda>oc. oc\<lparr>oc_next_circ_id := n'\<rparr>) (v\<lparr>w_last_circid_ent := l'\<rparr>)"
    and l': "\<forall>x. l' = Some x \<longrightarrow> w_circid_map v x \<noteq> None" unfolding searched_def by blast
  have "w = upd_conn k (\<lambda>oc. oc\<lparr>oc_next_circ_id := n'\<rparr>) (u\<lparr>w_last_circid_ent := l'\<rparr>)"
    by (simp add: v w upd_conn_def)
  with l' show ?thesis unfolding searched_def by (auto simp: v)
qed

lemma id_in_use:
  assumes "\<forall>x. w_last_circid_ent w = Some x \<longrightarrow> w_circid_map w x \<noteq> None"
  shows "\<exists>l. circuit_id_in_use_on_orconn i k w = OK (w_circid_map w (k, i) \<noteq> None, w\<lparr>w_last_circid_ent := l\<rparr>) \<and>
    (\<forall>x. l = Some x \<longrightarrow> w_circid_map w x \<noteq> None)"
proof (cases "w_last_circid_ent w = Some (k, i)")
  case True
  with assms show ?thesis
    by (auto simp: circuit_id_in_use_on_orconn_def circuit_get_by_circid_orconn_impl_def intro!: exI [of _ "Some (k, i)"])
next
  case False
  then show ?thesis
    by (auto simp: circuit_id_in_use_on_orconn_def circuit_get_by_circid_orconn_impl_def Let_def)
qed

text \<open>The \<open>i\<close>-th ID that is tried when the search begins at \<open>n\<close>.\<close>

definition first_try :: "u16 \<Rightarrow> nat" where
  "first_try n = (if n = 0 \<or> n \<ge> 0x8000 then 1 else unat n)"

definition try_at :: "nat \<Rightarrow> nat \<Rightarrow> nat" where
  "try_at s i = (s - 1 + i) mod 0x7fff + 1"

lemma first_try_range: "1 \<le> first_try n" "first_try n \<le> 0x7fff"
  by (auto simp: first_try_def word_le_nat_alt Suc_le_eq unat_gt_0)

lemma first_try_Suc: "s = first_try n \<Longrightarrow> first_try (of_nat s + 1) = try_at s 1"
proof -
  assume s: "s = first_try n"
  note r = first_try_range [of n, folded s]
  then have u: "unat (of_nat s + 1 :: u16) = s + 1"
    by (simp add: unat_word_ariths unat_of_nat)
  show ?thesis
  proof (cases "s = 0x7fff")
    case True
    then show ?thesis by (simp add: first_try_def try_at_def)
  next
    case False
    with r u show ?thesis by (auto simp: first_try_def try_at_def word_le_nat_alt unat_eq_0 [symmetric] simp del: unat_eq_0)
  qed
qed

lemma try_at_shift: "1 \<le> s \<Longrightarrow> try_at (try_at s 1) i = try_at s (Suc i)"
  by (simp add: try_at_def mod_simps)

lemma try_at_0: "1 \<le> s \<Longrightarrow> s \<le> 0x7fff \<Longrightarrow> try_at s 0 = s"
  by (simp add: try_at_def)

lemma try_at_onto:
  assumes "1 \<le> s" and "s \<le> 0x7fff" and "1 \<le> j" and "j \<le> 0x7fff"
  shows "\<exists>i < 0x7fff. try_at s i = j"
proof (cases "s \<le> j")
  case True
  with assms show ?thesis by (intro exI [of _ "j - s"]) (simp add: try_at_def)
next
  case False
  with assms have "s - 1 + (0x7fff - (s - j)) = (j - 1) + 0x7fff" by simp
  moreover have "(j - 1 + 0x7fff) mod 0x7fff = j - 1" unfolding mod_add_self2 using assms by simp
  ultimately have "try_at s (0x7fff - (s - j)) = j" using assms(3) by (simp only: try_at_def)
  with False assms show ?thesis by (intro exI [of _ "0x7fff - (s - j)"]) simp
qed

lemma try_at_range: "1 \<le> try_at s i \<and> try_at s i \<le> 0x7fff"
  using mod_less_divisor [of "0x7fff" "s - 1 + i"] by (simp add: try_at_def less_Suc_eq_le)

lemma unique_id_step:
  assumes "\<forall>x. w_last_circid_ent w = Some x \<longrightarrow> w_circid_map w x \<noteq> None" and "s = first_try (oc_next_circ_id (w_conns w k))"
  shows "\<exists>v. searched k w v \<and> first_try (oc_next_circ_id (w_conns v k)) = try_at s 1 \<and>
    unique_id_loop k high a w =
      (if a + 1 > 0x8000 then OK (v, 0)
       else if w_circid_map w (k, of_nat s OR high) \<noteq> None then unique_id_loop k high (a + 1) v else OK (v, of_nat s OR high))"
proof -
  let ?t = "oc_next_circ_id (w_conns w k)"
  let ?w1 = "upd_conn k (\<lambda>oc. oc\<lparr>oc_next_circ_id := of_nat s + 1\<rparr>) w"
  have t: "(if ?t = 0 \<or> ?t \<ge> 0x8000 then (1, 2) else (?t, ?t + 1)) = (of_nat s, of_nat s + 1 :: u16)"
    by (simp add: assms(2) first_try_def)
  have "\<forall>x. w_last_circid_ent ?w1 = Some x \<longrightarrow> w_circid_map ?w1 x \<noteq> None" using assms(1) by (simp add: upd_conn_def)
  from id_in_use [OF this, of "of_nat s OR high" k] obtain l where
    l: "circuit_id_in_use_on_orconn (of_nat s OR high) k ?w1 = OK (w_circid_map w (k, of_nat s OR high) \<noteq> None, ?w1\<lparr>w_last_circid_ent := l\<rparr>)"
    "\<forall>x. l = Some x \<longrightarrow> w_circid_map w x \<noteq> None"
    by auto
  let ?v = "if a + 1 > 0x8000 then ?w1 else ?w1\<lparr>w_last_circid_ent := l\<rparr>"
  have "searched k w ?v"
    using l(2) assms(1) unfolding searched_def
    by (intro exI [of _ "if a + 1 > 0x8000 then w_last_circid_ent w else l"] exI [of _ "of_nat s + 1"]) (simp add: upd_conn_def)
  moreover have "first_try (oc_next_circ_id (w_conns ?v k)) = try_at s 1" using first_try_Suc [OF assms(2)] by simp
  ultimately show ?thesis
    using l(1) by (intro exI [of _ ?v]) (simp add: unique_id_loop.simps [of k high a w] t Let_def)
qed

lemma searched_D:
  assumes "searched k w v"
  shows "w_circid_map v = w_circid_map w" "\<forall>x. w_last_circid_ent v = Some x \<longrightarrow> w_circid_map v x \<noteq> None"
  using assms by (auto simp: searched_def upd_conn_def)

lemma unique_id_search:
  assumes "\<forall>x. w_last_circid_ent w = Some x \<longrightarrow> w_circid_map w x \<noteq> None" and "s = first_try (oc_next_circ_id (w_conns w k))"
    and "a + m = 0x8000"
  shows "\<exists>v. searched k w v \<and>
    ((\<forall>i < m. w_circid_map w (k, of_nat (try_at s i) OR high) \<noteq> None) \<and> unique_id_loop k high a w = OK (v, 0) \<or>
     (\<exists>i < m. w_circid_map w (k, of_nat (try_at s i) OR high) = None \<and>
        unique_id_loop k high a w = OK (v, of_nat (try_at s i) OR high)))"
  using assms
proof (induction m arbitrary: a w s)
  case 0
  then show ?case using unique_id_step [OF 0(1,2), of high a] by auto
next
  case (Suc m)
  obtain v where v: "searched k w v" "first_try (oc_next_circ_id (w_conns v k)) = try_at s 1"
    "unique_id_loop k high a w =
      (if w_circid_map w (k, of_nat s OR high) \<noteq> None then unique_id_loop k high (a + 1) v else OK (v, of_nat s OR high))"
    using unique_id_step [OF Suc.prems(1,2), of high a] Suc.prems(3) by auto
  note s = first_try_range [of "oc_next_circ_id (w_conns w k)", folded Suc.prems(2)]
  show ?case
  proof (cases "w_circid_map w (k, of_nat s OR high) = None")
    case True
    with v show ?thesis using try_at_0 [OF s] by (metis zero_less_Suc)
  next
    case False
    obtain u where u: "searched k v u"
      "(\<forall>i < m. w_circid_map v (k, of_nat (try_at (try_at s 1) i) OR high) \<noteq> None) \<and> unique_id_loop k high (a + 1) v = OK (u, 0) \<or>
       (\<exists>i < m. w_circid_map v (k, of_nat (try_at (try_at s 1) i) OR high) = None \<and>
          unique_id_loop k high (a + 1) v = OK (u, of_nat (try_at (try_at s 1) i) OR high))"
      using Suc.IH [OF searched_D(2) [OF v(1)] v(2) [symmetric], of "a + 1"] Suc.prems(3) by auto
    have "unique_id_loop k high a w = unique_id_loop k high (a + 1) v" using v(3) False by simp
    with u False searched_trans [OF v(1) u(1)] show ?thesis
      unfolding searched_D(1) [OF v(1)] try_at_shift [OF s(1)] All_less_Suc2 Ex_less_Suc2 try_at_0 [OF s] by metis
  qed
qed

definition id_high_bit :: "circ_id_type \<Rightarrow> u16" where
  "id_high_bit t = (if t = CIRC_ID_TYPE_HIGHER then 0x8000 else 0)"

lemma low_id_bits:
  fixes j :: u16
  assumes "1 \<le> j" and "j \<le> 0x7fff"
  shows "(j OR id_high_bit t) AND 0x8000 = id_high_bit t" "(j OR id_high_bit t) AND 0x7fff = j"
proof -
  have "unat j < 2 ^ 15" using assms(2) by (simp add: word_le_nat_alt)
  then have j: "take_bit 15 j = j" by (simp add: word_unat_eq_iff unsigned_take_bit_eq take_bit_nat_eq_self)
  have "\<not> bit j 15" using bit_take_bit_iff [of 15 j 15] by (simp add: j)
  then have "j AND 2 ^ 15 = 0" by (simp only: and_exp_eq_0_iff_not_bit not_False_eq_True)
  then show "(j OR id_high_bit t) AND 0x8000 = id_high_bit t"
    by (simp add: id_high_bit_def bit.conj_disj_distrib2)
  have "x AND 0x7fff = take_bit 15 x" for x :: u16 by (simp add: take_bit_eq_mask mask_eq_exp_minus_1)
  moreover have "take_bit 15 (0x8000 :: u16) = 0" by simp
  ultimately show "(j OR id_high_bit t) AND 0x7fff = j" using j by (simp add: id_high_bit_def take_bit_or)
qed

lemma try_at_low: "1 \<le> (of_nat (try_at s n) :: u16)" "(of_nat (try_at s n) :: u16) \<le> 0x7fff"
  using try_at_range [of s n] by (auto simp: word_le_nat_alt unat_of_nat take_bit_nat_eq_self)

lemma expected_id: "i AND 0x8000 = id_high_bit t \<Longrightarrow> t \<noteq> CIRC_ID_TYPE_NEITHER \<Longrightarrow> oc_circ_id_type peer \<noteq> t \<Longrightarrow> \<not> unexpected_id i peer"
  by (cases t; cases "oc_circ_id_type peer") (simp_all add: unexpected_id_def id_high_bit_def)

lemma searched_refl: "circid_ok w \<Longrightarrow> searched k w w"
  unfolding searched_def circid_ok_def
  by (intro exI [of _ "w_last_circid_ent w"] exI [of _ "oc_next_circ_id (w_conns w k)"]) (simp add: upd_conn_def fun_upd_idem)

lemma circid_ok_searched: "circid_ok w \<Longrightarrow> searched k w v \<Longrightarrow> circid_ok v"
  by (auto simp: circid_ok_def searched_def upd_conn_def)

lemma free_circ_id:
  assumes "circid_ok w"
  shows "\<exists>w' i. get_unique_circ_id_by_conn k w = OK (w', i) \<and> searched k w w' \<and> circid_ok w' \<and>
    (let t = oc_circ_id_type (w_conns w k) in
     (i \<noteq> 0 \<longrightarrow> w_circid_map w (k, i) = None \<and> i AND 0x7fff \<noteq> 0 \<and>
        (\<forall>peer. oc_circ_id_type peer \<noteq> t \<longrightarrow> \<not> unexpected_id i peer)) \<and>
     (i = 0 \<longleftrightarrow> t = CIRC_ID_TYPE_NEITHER \<or> (\<forall>j. 1 \<le> j \<and> j \<le> 0x7fff \<longrightarrow> w_circid_map w (k, j OR id_high_bit t) \<noteq> None)))"
proof (cases "oc_circ_id_type (w_conns w k) = CIRC_ID_TYPE_NEITHER")
  case True
  with assms searched_refl show ?thesis by (simp add: get_unique_circ_id_by_conn_def)
next
  case False
  let ?t = "oc_circ_id_type (w_conns w k)" and ?s = "first_try (oc_next_circ_id (w_conns w k))"
  have loop: "get_unique_circ_id_by_conn k w = unique_id_loop k (id_high_bit ?t) 0 w"
    using False by (cases ?t) (simp_all add: get_unique_circ_id_by_conn_def id_high_bit_def)
  have cache: "\<forall>x. w_last_circid_ent w = Some x \<longrightarrow> w_circid_map w x \<noteq> None" using assms by (simp add: circid_ok_def)
  obtain v where v: "searched k w v"
    "(\<forall>i < 0x8000. w_circid_map w (k, of_nat (try_at ?s i) OR id_high_bit ?t) \<noteq> None) \<and> unique_id_loop k (id_high_bit ?t) 0 w = OK (v, 0) \<or>
     (\<exists>i < 0x8000. w_circid_map w (k, of_nat (try_at ?s i) OR id_high_bit ?t) = None \<and>
        unique_id_loop k (id_high_bit ?t) 0 w = OK (v, of_nat (try_at ?s i) OR id_high_bit ?t))"
    using unique_id_search [OF cache refl, of 0 "0x8000" k "id_high_bit ?t"] by auto
  have all: "(\<forall>j. 1 \<le> j \<and> j \<le> 0x7fff \<longrightarrow> w_circid_map w (k, j OR id_high_bit ?t) \<noteq> None) \<longleftrightarrow>
      (\<forall>i < 0x8000. w_circid_map w (k, of_nat (try_at ?s i) OR id_high_bit ?t) \<noteq> None)" (is "?A \<longleftrightarrow> ?B")
  proof
    assume ?A then show ?B using try_at_low by blast
  next
    assume b: ?B
    show ?A
    proof (intro allI impI)
      fix j :: u16 assume "1 \<le> j \<and> j \<le> 0x7fff"
      then have "1 \<le> unat j" "unat j \<le> 0x7fff" by (simp_all add: word_le_nat_alt)
      from try_at_onto [OF first_try_range this, of "oc_next_circ_id (w_conns w k)"]
      obtain n where "n < 0x7fff" "try_at ?s n = unat j" by blast
      with b [rule_format, of n] show "w_circid_map w (k, j OR id_high_bit ?t) \<noteq> None" by simp
    qed
  qed
  note same = v(1) circid_ok_searched [OF assms v(1)]
  from v(2) show ?thesis
  proof
    assume "(\<forall>i < 0x8000. w_circid_map w (k, of_nat (try_at ?s i) OR id_high_bit ?t) \<noteq> None) \<and> unique_id_loop k (id_high_bit ?t) 0 w = OK (v, 0)"
    with same all loop show ?thesis by (simp only: Let_def) blast
  next
    assume "\<exists>i < 0x8000. w_circid_map w (k, of_nat (try_at ?s i) OR id_high_bit ?t) = None \<and>
        unique_id_loop k (id_high_bit ?t) 0 w = OK (v, of_nat (try_at ?s i) OR id_high_bit ?t)"
    then obtain n where n: "n < 0x8000" "w_circid_map w (k, of_nat (try_at ?s n) OR id_high_bit ?t) = None"
      "unique_id_loop k (id_high_bit ?t) 0 w = OK (v, of_nat (try_at ?s n) OR id_high_bit ?t)" by blast
    let ?i = "of_nat (try_at ?s n) OR id_high_bit ?t :: u16"
    note bits = low_id_bits [OF try_at_low, of ?s n ?t]
    have nz: "?i AND 0x7fff \<noteq> 0" using try_at_low(1) [of ?s n] unfolding bits(2) by auto
    have "\<not> (\<forall>j. 1 \<le> j \<and> j \<le> 0x7fff \<longrightarrow> w_circid_map w (k, j OR id_high_bit ?t) \<noteq> None)"
      using n(2) try_at_low by blast
    moreover have "?i \<noteq> 0" using nz by auto
    ultimately show ?thesis
      unfolding Let_def using same loop n False nz expected_id [OF bits(1) False]
      by (intro exI [of _ v] exI [of _ ?i] conjI impI allI) simp_all
  qed
qed

text \<open>
  C22: circuit IDs for new circuits.  On a router with a consistent map of circuit IDs, the search for an ID ends, with no
  entry of the map read after it was freed.  Its answer is an ID that no circuit on the connection has, that is
  not 0 below its high bit, and whose high bit is the one this side of the connection may use, so that the other side does not
  refuse the CREATE cell for it; it is 0 exactly when this side has no range of its own or all IDs of its range are taken.
\<close>

theorem unique_circ_id:
  assumes "circid_ok w"
  shows "\<exists>w' i. get_unique_circ_id_by_conn k w = OK (w', i) \<and> searched k w w' \<and> circid_ok w' \<and>
    (let t = oc_circ_id_type (w_conns w k) in
     (i \<noteq> 0 \<longrightarrow> w_circid_map w (k, i) = None \<and> i AND 0x7fff \<noteq> 0 \<and>
        (\<forall>peer. oc_circ_id_type peer \<noteq> t \<longrightarrow> \<not> unexpected_id i peer)) \<and>
     (i = 0 \<longleftrightarrow> t = CIRC_ID_TYPE_NEITHER \<or> (\<forall>j. 1 \<le> j \<and> j \<le> 0x7fff \<longrightarrow> w_circid_map w (k, j OR id_high_bit t) \<noteq> None)))"
  using free_circ_id [OF assms] .

theorem unique_circ_id_witness:
  "\<exists>w' i. get_unique_circ_id_by_conn 3 idle_world = OK (w', i) \<and> i \<noteq> 0"
  using unique_circ_id [OF idle_world_circids, of 3] by (auto simp: Let_def idle_world_def idle_conn_def id_high_bit_def)

subsection \<open>Both ends of a handshake\<close>

lemma expand_blocks_length:
  assumes "\<And>b. length (digest b) = DIGEST_LEN"
  shows "length (expand_blocks digest key i left) = left"
proof (induction left arbitrary: i rule: less_induct)
  case (less left)
  show ?case
  proof (cases "left = 0")
    case False
    then have "length (expand_blocks digest key (i + 1) (left - DIGEST_LEN)) = left - DIGEST_LEN"
      by (intro less.IH) (simp add: DIGEST_LEN_def)
    with False assms show ?thesis by (simp add: expand_blocks.simps [of digest key i left])
  qed (simp add: expand_blocks.simps)
qed

definition key_ciphers :: "byte list \<Rightarrow> aes_cnt_cipher \<Rightarrow> aes_cnt_cipher \<Rightarrow> bool" where
  "key_ciphers keys f b \<longleftrightarrow> crypto_create_init_cipher (drop (2 * DIGEST_LEN) keys) = OK f \<and> aes_ok f \<and>
     crypto_create_init_cipher (drop (2 * DIGEST_LEN + CIPHER_KEY_LEN) keys) = OK b \<and> aes_ok b"

definition keyed :: "'d digest_ops \<Rightarrow> byte list \<Rightarrow> aes_cnt_cipher \<Rightarrow> aes_cnt_cipher \<Rightarrow> 'd crypt_path \<Rightarrow> 'd crypt_path" where
  "keyed ops keys f b hop = hop\<lparr>cp_keys_set := True, cp_f_digest := dg_add ops (dg_new ops) (take DIGEST_LEN keys),
     cp_b_digest := dg_add ops (dg_new ops) (take DIGEST_LEN (drop DIGEST_LEN keys)), cp_f_crypto := f, cp_b_crypto := b\<rparr>"

lemma key_ciphers_exist: "\<exists>f b. key_ciphers keys f b"
proof -
  have "\<exists>a. crypto_create_init_cipher key = OK a \<and> aes_ok a" for key
    using aes_set_key_ok [of "CIPHER_KEY_LEN * 8"] by (auto simp: crypto_create_init_cipher_def key_sizes)
  then show ?thesis unfolding key_ciphers_def by metis
qed

lemma init_crypto:
  "key_ciphers keys f b \<Longrightarrow> \<not> cp_keys_set hop \<Longrightarrow> circuit_init_cpath_crypto env hop keys False = OK (keyed (en_ops env) keys f b hop)"
  by (simp add: key_ciphers_def circuit_init_cpath_crypto_def keyed_def Let_def)

text \<open>What the server of a CREATE\_FAST cell answers, for its half \<open>y\<close> and the client's half \<open>x\<close>.\<close>

definition fast_material :: "'d relay_env \<Rightarrow> byte list \<Rightarrow> byte list \<Rightarrow> byte list" where
  "fast_material env x y = expand_blocks (en_crypto_digest env) (x @ y) 0 (CPATH_KEY_MATERIAL_LEN + DIGEST_LEN)"

definition fast_reply :: "'d relay_env \<Rightarrow> byte list \<Rightarrow> byte list \<Rightarrow> byte list" where
  "fast_reply env x y = y @ take DIGEST_LEN (fast_material env x y)"

definition fast_keys :: "'d relay_env \<Rightarrow> byte list \<Rightarrow> byte list \<Rightarrow> byte list" where
  "fast_keys env x y = drop DIGEST_LEN (fast_material env x y)"

lemma fast_server:
  assumes "en_crypto_rand env DIGEST_LEN w = Some y" and "length y = DIGEST_LEN" and "\<And>b. length (en_crypto_digest env b) = DIGEST_LEN"
  shows "fast_server_handshake env p CPATH_KEY_MATERIAL_LEN w = OK (Some (fast_reply env (take DIGEST_LEN p) y, fast_keys env (take DIGEST_LEN p) y))"
    "length (fast_keys env x y) = CPATH_KEY_MATERIAL_LEN" "length (fast_reply env x y) = 2 * DIGEST_LEN"
  using assms expand_blocks_length [OF assms(3), where i = 0 and left = "CPATH_KEY_MATERIAL_LEN + DIGEST_LEN"]
  by (simp_all add: fast_server_handshake_def fast_reply_def fast_keys_def fast_material_def crypto_expand_key_material_def)
    (simp add: key_sizes)

lemma fast_client:
  assumes "length y = DIGEST_LEN" and "length x = DIGEST_LEN" and "\<And>b. length (en_crypto_digest env b) = DIGEST_LEN"
    and "length h = DIGEST_LEN"
  shows "fast_client_handshake env x (y @ h @ rest) CPATH_KEY_MATERIAL_LEN =
    OK (if h = take DIGEST_LEN (fast_material env x y) then Some (fast_keys env x y) else None)"
  using assms expand_blocks_length [OF assms(3), where i = 0 and left = "CPATH_KEY_MATERIAL_LEN + DIGEST_LEN"]
  by (auto simp add: fast_client_handshake_def fast_keys_def fast_material_def crypto_expand_key_material_def key_sizes)

text \<open>The client's half: the answer is accepted if its digest is right, and changes nothing otherwise.\<close>

definition awaits_fast :: "byte list \<Rightarrow> 'd circuit \<Rightarrow> bool" where
  "awaits_fast x circ \<longleftrightarrow> ci_cpath circ \<noteq> [] \<and> cp_state (hd (ci_cpath circ)) = CPATH_STATE_AWAITING_KEYS \<and>
     \<not> cp_keys_set (hd (ci_cpath circ)) \<and> cp_dh_handshake_state (hd (ci_cpath circ)) = None \<and>
     cp_fast_handshake_state (hd (ci_cpath circ)) = x"

definition fast_hop :: "'d relay_env \<Rightarrow> byte list \<Rightarrow> byte list \<Rightarrow> aes_cnt_cipher \<Rightarrow> aes_cnt_cipher \<Rightarrow> 'd crypt_path \<Rightarrow> 'd crypt_path" where
  "fast_hop env x y f b hop = (keyed (en_ops env) (fast_keys env x y) f b
     (hop\<lparr>cp_handshake_digest := take DIGEST_LEN (fast_material env x y), cp_dh_handshake_state := None,
        cp_fast_handshake_state := replicate DIGEST_LEN 0\<rparr>))\<lparr>cp_state := CPATH_STATE_OPEN\<rparr>"

definition fast_finished :: "'d relay_env \<Rightarrow> circ_ref \<Rightarrow> byte list \<Rightarrow> byte list \<Rightarrow> aes_cnt_cipher \<Rightarrow> aes_cnt_cipher \<Rightarrow> 'd world \<Rightarrow> 'd world" where
  "fast_finished env c x y f b w = (upd_circ c (\<lambda>ci. ci\<lparr>ci_cpath := fast_hop env x y f b (hd (ci_cpath ci)) # tl (ci_cpath ci)\<rparr>) w)
     \<lparr>w_events := w_events w @ [Circuit_Extended c]\<rparr>"

lemma finish_fast:
  assumes "awaits_fast x (w_circs w c)" and "length y = DIGEST_LEN" and "length x = DIGEST_LEN"
    and "\<And>b. length (en_crypto_digest env b) = DIGEST_LEN" and "length h = DIGEST_LEN" and "key_ciphers (fast_keys env x y) f b"
  shows "circuit_finish_handshake env c CELL_CREATED_FAST (y @ h @ rest) w =
    OK (if h = take DIGEST_LEN (fast_material env x y) then (fast_finished env c x y f b w, 0) else (w, - END_CIRC_REASON_TORPROTOCOL))"
proof -
  obtain hop hops where cpath: "ci_cpath (w_circs w c) = hop # hops" using assms(1) by (cases "ci_cpath (w_circs w c)") (auto simp: awaits_fast_def)
  have hop: "cp_state hop = CPATH_STATE_AWAITING_KEYS" "\<not> cp_keys_set hop" "cp_dh_handshake_state hop = None" "cp_fast_handshake_state hop = x"
    using assms(1) cpath by (simp_all add: awaits_fast_def)
  have len: "DIGEST_LEN * 2 + CIPHER_KEY_LEN * 2 = CPATH_KEY_MATERIAL_LEN" by (simp add: key_sizes)
  have keys: "handshake_keys env hop CELL_CREATED_FAST (y @ h @ rest) =
    OK (if h = take DIGEST_LEN (fast_material env x y) then Some (fast_keys env x y, h) else None)"
    using fast_client [OF assms(2-5), of rest] assms(2,5) by (simp add: handshake_keys_def hop len)
  then show ?thesis
    using init_crypto [OF assms(6), of "hop\<lparr>cp_handshake_digest := take DIGEST_LEN (fast_material env x y), cp_dh_handshake_state := None,
      cp_fast_handshake_state := replicate DIGEST_LEN 0\<rparr>" env] hop(2)
    by (simp add: circuit_finish_handshake_def cpath hop Let_def fast_finished_def fast_hop_def upd_circ_def upd_hop_def)
qed

subsection \<open>A new circuit\<close>

text \<open>The memory of a new circuit: linked to no connection and named by no entry of the map.\<close>

definition unused_circ :: "circ_ref \<Rightarrow> 'd world \<Rightarrow> bool" where
  "unused_circ c w \<longleftrightarrow> (\<forall>k. \<not> linked w k c) \<and> (\<forall>x. w_circid_map w x \<noteq> Some c)"

definition quiet_circ :: "'d circuit \<Rightarrow> bool" where
  "quiet_circ ci \<longleftrightarrow> ci_n_conn_cells ci = empty_queue \<and> ci_p_conn_cells ci = empty_queue \<and>
     \<not> ci_streams_blocked_on_n_conn ci \<and> \<not> ci_streams_blocked_on_p_conn ci \<and>
     ci_next_active_on_n_conn ci = None \<and> ci_prev_active_on_n_conn ci = None \<and>
     ci_next_active_on_p_conn ci = None \<and> ci_prev_active_on_p_conn ci = None \<and> ci_n_conn ci = None"

lemma fresh_circuit_ok:
  assumes ok: "circuits_ok w R" and c: "\<And>k. \<not> linked w k c" and ci: "quiet_circ ci"
    and w': "w_circs w' = (w_circs w)(c := ci)" "\<And>k. conn_part (w_conns w' k) = conn_part (w_conns w k)" "w_alloc w' = w_alloc w"
  shows "circuits_ok w' R" "abs_sched w' R = abs_sched w R"
proof -
  have l: "linked w' k d = linked w k d" if "d \<noteq> c" for k d using that by (simp add: linked_def w'(1))
  have view: "nextf w' k d = nextf w k d" "prevf w' k d = prevf w k d" "queue_on w' k d = queue_on w k d" "blocked_on w' k d = blocked_on w k d"
    "activef w' k = activef w k" for k d
    using c [of k] ci w'(2) [of k] by (auto simp: nextf_def prevf_def queue_on_def circ_queue_def blocked_on_def quiet_circ_def w'(1) l conn_part_def activef_def)
  have out: "outbuf_of w' = outbuf_of w" "or_conns_wf w' = or_conns_wf w"
    using w'(2,3) by (auto simp: outbuf_of_def or_conns_wf_def conn_part_def fun_eq_iff)
  have "two_sided w'" using circuits_ok_D(2) [OF ok] ci by (auto simp: two_sided_def w'(1) quiet_circ_def)
  moreover have "nextf w' = nextf w" "prevf w' = prevf w" by (simp_all add: fun_eq_iff view)
  ultimately show "circuits_ok w' R" using ok view out by (simp add: circuits_ok_def ring_on_def)
  from view out show "abs_sched w' R = abs_sched w R" by (simp add: abs_sched_def)
qed

definition new_or_circ :: "'d relay_env \<Rightarrow> u16 \<Rightarrow> conn_ref \<Rightarrow> 'd circuit" where
  "new_or_circ env p_circ_id k = (zeroed_circuit env)\<lparr>ci_p_conn := Some k, ci_p_circ_id := p_circ_id,
     ci_remaining_relay_early_cells := MAX_RELAY_EARLY_CELLS_PER_CIRCUIT,
     ci_package_window := CIRCWINDOW_START, ci_deliver_window := CIRCWINDOW_START,
     ci_payedReads := CIRCWINDOW_START, ci_payedWrites := CIRCWINDOW_START,
     ci_payedReadsAdded := CIRCWINDOW_START, ci_payedWritesAdded := CIRCWINDOW_START\<rparr>"

lemma new_circuit:
  assumes "w_circid_map w (k, i) = None" and "\<forall>x. w_last_circid_ent w = Some x \<longrightarrow> w_circid_map w x \<noteq> None"
  shows "or_circuit_new env i (Some k) w = OK (upd_conn k (\<lambda>oc. oc\<lparr>oc_n_circuits := oc_n_circuits oc + 1\<rparr>)
    (upd_circ (en_new_circuit env w) (\<lambda>_. new_or_circ env i k) (w\<lparr>w_circid_map := (w_circid_map w)((k, i) \<mapsto> en_new_circuit env w)\<rparr>)), en_new_circuit env w)"
proof -
  have "w_last_circid_ent w \<noteq> Some (k, i)" using assms by auto
  then show ?thesis
    by (simp add: or_circuit_new_def Let_def circuit_set_p_circid_orconn_def circuit_set_circid_orconn_helper_def zeroed_circuit_def
        side_conn_def side_circ_id_def side_next_def side_queue_def empty_queue_def forget_ent_eq set_side_def upd_circ_def upd_conn_def
        init_circuit_base_def new_or_circ_def)
qed

text \<open>A circuit that has answered a handshake.\<close>

definition answered :: "'d digest_ops \<Rightarrow> byte \<Rightarrow> byte list \<Rightarrow> byte list \<Rightarrow> aes_cnt_cipher \<Rightarrow> aes_cnt_cipher \<Rightarrow> 'd circuit \<Rightarrow> 'd circuit" where
  "answered ops cell_type body keys f b ci = ci\<lparr>ci_state := CIRCUIT_STATE_OPEN,
     ci_n_digest := dg_add ops (dg_new ops) (take DIGEST_LEN keys), ci_n_crypto := f,
     ci_p_digest := dg_add ops (dg_new ops) (take DIGEST_LEN (drop DIGEST_LEN keys)), ci_p_crypto := b, ci_keys_set := True,
     ci_handshake_digest := take DIGEST_LEN (drop (if cell_type = CELL_CREATED then DH_KEY_LEN else DIGEST_LEN) body),
     ci_is_first_hop := (cell_type = CELL_CREATED_FAST)\<rparr>"

definition answer_body :: "byte \<Rightarrow> byte list \<Rightarrow> byte list" where
  "answer_body cell_type payload = cell_body (if cell_type = CELL_CREATED then ONIONSKIN_REPLY_LEN else DIGEST_LEN * 2) payload"

lemma answer_sends:
  assumes "key_ciphers keys f b" and "ci_state (w_circs w c) \<noteq> CIRCUIT_STATE_OR_WAIT" and "ci_n_conn_onionskin (w_circs w c) = None"
    and "ci_p_conn (w_circs w c) = Some k"
  shows "onionskin_answer env c t payload keys w =
    rbind (append_cell_to_circuit_queue (en_hw env) c k \<lparr>ce_circ_id = ci_p_circ_id (w_circs w c), ce_command = t, ce_payload = answer_body t payload\<rparr>
        CELL_DIRECTION_IN (upd_circ c (answered (en_ops env) t (answer_body t payload) keys f b) w))
      (\<lambda>w3. case ci_p_conn (w_circs w3 c) of
         None \<Rightarrow> Fault Mem_Fault
       | Some k' \<Rightarrow> rbind (en_orport_reachable env k' w3) (\<lambda>w4. OK (w4, 0)))"
proof -
  have st: "circuit_set_state c CIRCUIT_STATE_OPEN w = OK (upd_circ c (\<lambda>ci. ci\<lparr>ci_state := CIRCUIT_STATE_OPEN\<rparr>) w)"
  proof (cases "ci_state (w_circs w c) = CIRCUIT_STATE_OPEN")
    case True
    then have "upd_circ c (\<lambda>ci. ci\<lparr>ci_state := CIRCUIT_STATE_OPEN\<rparr>) w = w" by (simp add: upd_circ_def fun_upd_idem)
    with True show ?thesis by (simp add: circuit_set_state_def)
  next
    case False
    with assms(2,3) show ?thesis by (simp add: circuit_set_state_def Let_def CIRCUIT_STATE_OPEN_def CIRCUIT_STATE_OR_WAIT_def upd_circ_def)
  qed
  show ?thesis
    using assms(4) unfolding onionskin_answer_def Let_def st rbind.simps
    by (subst init_crypto [OF assms(1)]) (simp_all add: keyed_def upd_circ_def answered_def answer_body_def)
qed

lemma accept_create_fast:
  assumes "\<not> en_we_are_hibernating env" and "en_server_mode env" and "\<not> unexpected_id (ce_circ_id cell) (w_conns w k)"
    and "circid_ok w" and "w_circid_map w (k, ce_circ_id cell) = None" and "ce_command cell = CELL_CREATE_FAST"
    and "\<forall>l. en_new_circuit env (w\<lparr>w_last_circid_ent := l\<rparr>) = c"
  obtains v where "\<forall>f b reply keys. fast_server_handshake env (ce_payload cell) CPATH_KEY_MATERIAL_LEN v = OK (Some (reply, keys)) \<longrightarrow>
      command_process_create_cell env cell k w =
      rbind (onionskin_answer env c CELL_CREATED_FAST reply keys v)
        (\<lambda>(w4, r). if r < 0 then circuit_mark_for_close env c END_CIRC_REASON_INTERNAL w4 else OK w4)"
    and "w_circs v = (w_circs w)(c := (new_or_circ env (ce_circ_id cell) k)\<lparr>ci_purpose := CIRCUIT_PURPOSE_OR, ci_state := CIRCUIT_STATE_ONIONSKIN_PENDING\<rparr>)"
    and "\<forall>j. conn_part (w_conns v j) = conn_part (w_conns w j)" and "w_alloc v = w_alloc w"
    and "w_circid_map v = (w_circid_map w)((k, ce_circ_id cell) \<mapsto> c)"
proof -
  let ?i = "ce_circ_id cell"
  have cache: "\<forall>x. w_last_circid_ent w = Some x \<longrightarrow> w_circid_map w x \<noteq> None" using assms(4) by (simp add: circid_ok_def)
  from id_in_use [OF this, of ?i k] obtain l where
    l: "circuit_id_in_use_on_orconn ?i k w = OK (False, w\<lparr>w_last_circid_ent := l\<rparr>)" "\<forall>x. l = Some x \<longrightarrow> w_circid_map w x \<noteq> None"
    using assms(5) by auto
  let ?ci = "new_or_circ env ?i k" and ?st = "\<lambda>ci. ci\<lparr>ci_purpose := CIRCUIT_PURPOSE_OR, ci_state := CIRCUIT_STATE_ONIONSKIN_PENDING\<rparr>"
  let ?w2 = "upd_conn k (\<lambda>oc. oc\<lparr>oc_n_circuits := oc_n_circuits oc + 1\<rparr>)
    (upd_circ c (\<lambda>_. ?ci) (w\<lparr>w_last_circid_ent := l, w_circid_map := (w_circid_map w)((k, ?i) \<mapsto> c)\<rparr>))"
  have new: "or_circuit_new env ?i (Some k) (w\<lparr>w_last_circid_ent := l\<rparr>) = OK (?w2, c)"
    using new_circuit [of "w\<lparr>w_last_circid_ent := l\<rparr>" k ?i env] l(2) assms(5,7) by simp
  have st: "circuit_set_state c CIRCUIT_STATE_ONIONSKIN_PENDING (upd_circ c (\<lambda>ci. ci\<lparr>ci_purpose := CIRCUIT_PURPOSE_OR\<rparr>) ?w2) = OK (upd_circ c ?st ?w2)"
    by (simp add: circuit_set_state_def Let_def new_or_circ_def zeroed_circuit_def CIRCUIT_STATE_OPEN_def CIRCUIT_STATE_OR_WAIT_def
        CIRCUIT_STATE_ONIONSKIN_PENDING_def upd_circ_def)
  show thesis
  proof (rule that [of "upd_circ c ?st ?w2"])
    show "\<forall>f b reply keys. fast_server_handshake env (ce_payload cell) CPATH_KEY_MATERIAL_LEN (upd_circ c ?st ?w2) = OK (Some (reply, keys)) \<longrightarrow>
      command_process_create_cell env cell k w =
      rbind (onionskin_answer env c CELL_CREATED_FAST reply keys (upd_circ c ?st ?w2))
        (\<lambda>(w4, r). if r < 0 then circuit_mark_for_close env c END_CIRC_REASON_INTERNAL w4 else OK w4)"
      unfolding command_process_create_cell_def using assms(1-3,6) l(1) new st
      by (simp add: CELL_CREATE_def CELL_CREATE_FAST_def)
  qed (simp_all add: conn_part_def)
qed

text \<open>
  What the theorem below takes from outside: digests of the right length, random bytes, a socket writer
  and a reachability test that leave circuits alone.
\<close>

definition fast_env :: "'d relay_env \<Rightarrow> bool" where
  "fast_env env \<longleftrightarrow> (\<forall>b. length (en_crypto_digest env b) = DIGEST_LEN) \<and>
     (\<forall>v. \<exists>y. en_crypto_rand env DIGEST_LEN v = Some y \<and> length y = DIGEST_LEN) \<and>
     (\<forall>k v. same_streams v (fst (en_hw env k v))) \<and>
     (\<forall>k v. \<exists>v'. en_orport_reachable env k v = OK v' \<and> same_streams v v' \<and> same_rings v v')"

lemma mask_circ_state: "mask_circ a = mask_circ b \<Longrightarrow> ci_state a = ci_state b \<and> ci_keys_set a = ci_keys_set b"
  by (cases a, cases b) (simp add: mask_circ_def)

lemma fast_hop_synced:
  assumes "key_ciphers (fast_keys env x y) f b" and "mask_circ ci = mask_circ (answered (en_ops env) t body (fast_keys env x y) f b ci0)"
    and "\<not> ci_origin ci0"
  shows "out_synced (fast_hop env x y f b hop) ci" "in_synced (fast_hop env x y f b hop) ci"
  using assms(1,3) mask_circ_D [OF assms(2)]
  by (simp_all add: out_synced_def in_synced_def out_keyed_def fast_hop_def keyed_def answered_def key_ciphers_def)

lemma fast_env_cong: "en_crypto_digest env' = en_crypto_digest env \<Longrightarrow> en_ops env' = en_ops env \<Longrightarrow>
    fast_material env' = fast_material env \<and> fast_keys env' = fast_keys env \<and> fast_hop env' = fast_hop env"
  by (intro conjI ext) (simp_all add: fast_material_def fast_keys_def fast_hop_def)

lemma fast_answer:
  assumes "length y = DIGEST_LEN" and "\<And>b. length (en_crypto_digest env b) = DIGEST_LEN"
  shows "answer_body CELL_CREATED_FAST (fast_reply env x y) =
      y @ take DIGEST_LEN (fast_material env x y) @ replicate (CELL_PAYLOAD_SIZE - 2 * DIGEST_LEN) 0"
    "length (answer_body CELL_CREATED_FAST (fast_reply env x y)) = CELL_PAYLOAD_SIZE"
    "length (take DIGEST_LEN (fast_material env x y)) = DIGEST_LEN"
  using expand_blocks_length [OF assms(2), where i = 0 and left = "CPATH_KEY_MATERIAL_LEN + DIGEST_LEN"] assms(1)
  by (simp_all add: answer_body_def cell_body_def fast_reply_def fast_material_def CELL_CREATED_def CELL_CREATED_FAST_def)
    (simp_all add: key_sizes cell_sizes)

lemma answer_queued:
  assumes "circuits_ok v R" and "fast_env env" and "key_ciphers keys f b" and "ci_state (w_circs v c) \<noteq> CIRCUIT_STATE_OR_WAIT"
    and "ci_n_conn_onionskin (w_circs v c) = None" and "ci_p_conn (w_circs v c) = Some k" and "\<not> ci_origin (w_circs v c)"
    and "length (answer_body t payload) = CELL_PAYLOAD_SIZE" and "outbuf_of v k = [] \<longrightarrow> write_is_queued k CELL_NETWORK_SIZE v" and "t \<noteq> CELL_RELAY_EARLY"
  obtains w' R' where "onionskin_answer env c t payload keys v = OK (w', 0)" and "circuits_ok w' R'"
    and "abs_sched w' R' = sched_append k c (cell_pack \<lparr>ce_circ_id = ci_p_circ_id (w_circs v c), ce_command = t, ce_payload = answer_body t payload\<rparr>) (abs_sched v R)"
    and "mask_circ (w_circs w' c) = mask_circ (answered (en_ops env) t (answer_body t payload) keys f b (w_circs v c))" and "w_circid_map w' = w_circid_map v"
proof -
  let ?u = "upd_circ c (answered (en_ops env) t (answer_body t payload) keys f b) v"
  let ?cell = "\<lparr>ce_circ_id = ci_p_circ_id (w_circs v c), ce_command = t, ce_payload = answer_body t payload\<rparr>"
  have rings: "same_rings v ?u" by (rule same_rings_upd_circ) (simp add: ring_part_def answered_def)
  have "circuits_ok ?u R" "outbuf_of ?u k = [] \<longrightarrow> write_is_queued k CELL_NETWORK_SIZE ?u"
    using assms(1,9) same_rings_ok(1) [OF rings] same_rings_views(7,10) [OF rings] by simp_all
  moreover have "writes_on ?u c k CELL_DIRECTION_IN" using assms(6,7) by (simp add: writes_on_def answered_def)
  ultimately obtain w3 R3 where w3: "append_cell_to_circuit_queue (en_hw env) c k ?cell CELL_DIRECTION_IN ?u = OK w3" "circuits_ok w3 R3"
    "abs_sched w3 R3 = sched_append k c (cell_pack (on_wire ?u k ?cell)) (abs_sched ?u R)"
    using append_refines [of ?u R c k CELL_DIRECTION_IN ?cell "en_hw env"] assms(8) by auto
  have "\<forall>k w. same_streams w (fst (en_hw env k w))" using assms(2) by (simp add: fast_env_def)
  then have s3: "same_streams ?u w3" using streams.append_cell [OF _ streams.refl, THEN afterD, OF _ w3(1)] by blast
  obtain w' where w': "en_orport_reachable env k w3 = OK w'" "same_streams w3 w'" "same_rings w3 w'"
    using assms(2) unfolding fast_env_def by blast
  have s: "same_streams ?u w'" using streams.trans [OF s3 w'(2)] .
  have "ci_p_conn (w_circs w3 c) = Some k"
    using mask_circ_D(3) [OF same_streams_D(1) [OF s3], of c] assms(6) by (simp add: answered_def)
  then have "onionskin_answer env c t payload keys v = OK (w', 0)"
    unfolding answer_sends [OF assms(3,4,5,6)] w3(1) by (simp add: w'(1))
  moreover have "circuits_ok w' R3" "abs_sched w' R3 = sched_append k c (cell_pack ?cell) (abs_sched v R)"
    using w3(2,3) same_rings_ok [OF w'(3)] same_rings_ok(2) [OF rings] assms(10) by (simp_all add: on_wire_def)
  moreover have "mask_circ (w_circs w' c) = mask_circ (answered (en_ops env) t (answer_body t payload) keys f b (w_circs v c))"
    using same_streams_D(1) [OF s, of c] by simp
  moreover have "w_circid_map w' = w_circid_map v" using s by (simp add: same_streams_def)
  ultimately show thesis by (rule that)
qed

lemma client_accepts:
  assumes y: "length y = DIGEST_LEN" and dl: "\<And>b. length (en_crypto_digest env b) = DIGEST_LEN" and x: "length x = DIGEST_LEN"
    and envc: "en_crypto_digest envc = en_crypto_digest env" "en_ops envc = en_ops env" and "awaits_fast x (w_circs wc d)"
    and fb: "key_ciphers (fast_keys env x y) f b" and "\<not> ci_origin ci0"
    and "mask_circ ci = mask_circ (answered (en_ops env) t body (fast_keys env x y) f b ci0)"
  shows "\<exists>wc' hop. circuit_finish_handshake envc d CELL_CREATED_FAST (answer_body CELL_CREATED_FAST (fast_reply env x y)) wc = OK (wc', 0) \<and>
    ci_cpath (w_circs wc' d) = hop # tl (ci_cpath (w_circs wc d)) \<and> cp_state hop = CPATH_STATE_OPEN \<and> out_synced hop ci \<and> in_synced hop ci"
proof -
  note same = fast_env_cong [OF envc]
  from finish_fast [OF assms(6) y x _ fast_answer(3) [OF y dl], of envc f b] dl fb same envc(1)
  have "circuit_finish_handshake envc d CELL_CREATED_FAST (answer_body CELL_CREATED_FAST (fast_reply env x y)) wc = OK (fast_finished envc d x y f b wc, 0)"
    by (simp add: fast_answer(1) [OF y dl])
  moreover have "ci_cpath (w_circs (fast_finished envc d x y f b wc) d) = fast_hop env x y f b (hd (ci_cpath (w_circs wc d))) # tl (ci_cpath (w_circs wc d))"
    using same by (simp add: fast_finished_def)
  ultimately show ?thesis using fast_hop_synced [OF fb assms(9,8)] by (auto simp: fast_hop_def)
qed

text \<open>
  C1: a circuit is created.  A CREATE\_FAST cell that reaches a relay on an ID that is free and in the range of the
  sender is accepted: the map gains the new circuit under that ID, the circuit is open and has keys, and one
  CREATED\_FAST cell is queued for the connection.  When that cell is delivered to the client whose first hop waits for the answer to
  this CREATE\_FAST cell, the client accepts it and opens the hop, and then both ends hold the same ciphers, in the same
  state, and the same running digests, in both directions.
\<close>

theorem create_fast_establishes:
  assumes "circuits_ok w R" and "circid_ok w" and "fast_env env" and "\<not> en_we_are_hibernating env" and "en_server_mode env"
    and "ce_command cell = CELL_CREATE_FAST" and "length (ce_payload cell) = CELL_PAYLOAD_SIZE"
    and "\<not> unexpected_id (ce_circ_id cell) (w_conns w k)" and "w_circid_map w (k, ce_circ_id cell) = None"
    and "\<forall>l. en_new_circuit env (w\<lparr>w_last_circid_ent := l\<rparr>) = c" and "unused_circ c w"
    and "outbuf_of w k = [] \<longrightarrow> write_is_queued k CELL_NETWORK_SIZE w"
  shows "\<exists>w' R' answer. command_process_create_cell env cell k w = OK w' \<and> circuits_ok w' R' \<and>
    abs_sched w' R' = sched_append k c (cell_pack \<lparr>ce_circ_id = ce_circ_id cell, ce_command = CELL_CREATED_FAST, ce_payload = answer\<rparr>) (abs_sched w R) \<and>
    w_circid_map w' = (w_circid_map w)((k, ce_circ_id cell) \<mapsto> c) \<and> ci_state (w_circs w' c) = CIRCUIT_STATE_OPEN \<and> ci_keys_set (w_circs w' c) \<and>
    (\<forall>envc wc d. en_crypto_digest envc = en_crypto_digest env \<and> en_ops envc = en_ops env \<and> awaits_fast (take DIGEST_LEN (ce_payload cell)) (w_circs wc d) \<longrightarrow>
      (\<exists>wc' hop. circuit_finish_handshake envc d CELL_CREATED_FAST answer wc = OK (wc', 0) \<and>
        ci_cpath (w_circs wc' d) = hop # tl (ci_cpath (w_circs wc d)) \<and> cp_state hop = CPATH_STATE_OPEN \<and>
        out_synced hop (w_circs w' c) \<and> in_synced hop (w_circs w' c)))"
proof -
  let ?i = "ce_circ_id cell" and ?x = "take DIGEST_LEN (ce_payload cell)"
  obtain v where v: "\<forall>f b reply keys. fast_server_handshake env (ce_payload cell) CPATH_KEY_MATERIAL_LEN v = OK (Some (reply, keys)) \<longrightarrow>
      command_process_create_cell env cell k w = rbind (onionskin_answer env c CELL_CREATED_FAST reply keys v)
        (\<lambda>(w4, r). if r < 0 then circuit_mark_for_close env c END_CIRC_REASON_INTERNAL w4 else OK w4)"
    "w_circs v = (w_circs w)(c := (new_or_circ env ?i k)\<lparr>ci_purpose := CIRCUIT_PURPOSE_OR, ci_state := CIRCUIT_STATE_ONIONSKIN_PENDING\<rparr>)"
    "\<forall>j. conn_part (w_conns v j) = conn_part (w_conns w j)" "w_alloc v = w_alloc w" "w_circid_map v = (w_circid_map w)((k, ?i) \<mapsto> c)"
    by (rule accept_create_fast [OF assms(4,5,8,2,9,6,10)])
  have dl: "\<And>b. length (en_crypto_digest env b) = DIGEST_LEN" using assms(3) by (simp add: fast_env_def)
  obtain y where y: "en_crypto_rand env DIGEST_LEN v = Some y" "length y = DIGEST_LEN" using assms(3) unfolding fast_env_def by blast
  let ?keys = "fast_keys env ?x y" and ?reply = "fast_reply env ?x y"
  obtain f b where fb: "key_ciphers ?keys f b" using key_ciphers_exist by blast
  have ci: "\<not> ci_origin (w_circs v c)" "ci_p_circ_id (w_circs v c) = ?i" "ci_p_conn (w_circs v c) = Some k" "quiet_circ (w_circs v c)"
    "ci_n_conn_onionskin (w_circs v c) = None" "ci_state (w_circs v c) \<noteq> CIRCUIT_STATE_OR_WAIT"
    by (simp_all add: v(2) new_or_circ_def zeroed_circuit_def quiet_circ_def CIRCUIT_STATE_ONIONSKIN_PENDING_def CIRCUIT_STATE_OR_WAIT_def)
  have cv: "w_circs v = (w_circs w)(c := w_circs v c)" using v(2) by simp
  have unl: "\<not> linked w j c" for j using assms(11) by (simp add: unused_circ_def)
  note ok = fresh_circuit_ok [OF assms(1) unl ci(4) cv v(3) [rule_format] v(4)]
  have wq: "outbuf_of v k = [] \<longrightarrow> write_is_queued k CELL_NETWORK_SIZE v"
    using assms(12) v(3) by (simp add: outbuf_of_def write_is_queued_def conn_part_def Let_def)
  obtain w' R' where w': "onionskin_answer env c CELL_CREATED_FAST ?reply ?keys v = OK (w', 0)" "circuits_ok w' R'"
    "abs_sched w' R' = sched_append k c (cell_pack \<lparr>ce_circ_id = ?i, ce_command = CELL_CREATED_FAST, ce_payload = answer_body CELL_CREATED_FAST ?reply\<rparr>) (abs_sched w R)"
    "mask_circ (w_circs w' c) = mask_circ (answered (en_ops env) CELL_CREATED_FAST (answer_body CELL_CREATED_FAST ?reply) ?keys f b (w_circs v c))"
    "w_circid_map w' = w_circid_map v"
    by (rule answer_queued [OF ok(1) assms(3) fb ci(6,5,3,1) fast_answer(2) [OF y(2) dl] wq, unfolded ci(2) ok(2)])
      (simp_all add: CELL_CREATED_FAST_def CELL_RELAY_EARLY_def)
  have run: "command_process_create_cell env cell k w = OK w'" using v(1) fast_server(1) [OF y dl, of "ce_payload cell"] w'(1) by simp
  have "ci_state (w_circs w' c) = CIRCUIT_STATE_OPEN" "ci_keys_set (w_circs w' c)" using mask_circ_state [OF w'(4)] by (simp_all add: answered_def)
  moreover have "length ?x = DIGEST_LEN" using assms(7) by (simp add: cell_sizes DIGEST_LEN_def)
  note client_accepts [OF y(2) dl this _ _ _ fb ci(1) w'(4)]
  ultimately show ?thesis using run w'(2,3,5) v(5) by metis
qed

definition bare_world :: "unit world" where
  "bare_world = idle_world\<lparr>w_circs := (\<lambda>_. idle_circuit\<lparr>ci_n_conn := None\<rparr>)\<rparr>"

lemma bare_world_ok: "circuits_ok bare_world (\<lambda>_. [])" "circid_ok bare_world" "unused_circ c bare_world" "write_is_queued k CELL_NETWORK_SIZE bare_world"
proof -
  show "circuits_ok bare_world (\<lambda>_. [])"
    by (rule quiet_world_ok [where orig = False and n = None and p = None])
      (simp_all add: bare_world_def ring_part_def idle_circuit_def idle_world_def)
qed (simp_all add: bare_world_def circid_ok_def unused_circ_def linked_def idle_world_def idle_circuit_def side_queue_def side_conn_def side_idle_def
    write_is_queued_def idle_conn_def buf_new_def buf_bytes_def int_max_def cell_sizes)

lemma idle_env_fast: "fast_env idle_env"
  by (simp add: fast_env_def idle_env_def DIGEST_LEN_def streams.refl)

theorem create_fast_establishes_witness:
  "\<exists>w' R' answer. command_process_create_cell idle_env \<lparr>ce_circ_id = 0x8001, ce_command = CELL_CREATE_FAST, ce_payload = replicate 509 5\<rparr> 3 bare_world = OK w' \<and>
     w_circid_map w' (3, 0x8001) = Some 9 \<and> ci_state (w_circs w' 9) = CIRCUIT_STATE_OPEN \<and>
     abs_sched w' R' = sched_append 3 9 (cell_pack \<lparr>ce_circ_id = 0x8001, ce_command = CELL_CREATED_FAST, ce_payload = answer\<rparr>) (abs_sched bare_world (\<lambda>_. []))"
proof -
  let ?cell = "\<lparr>ce_circ_id = 0x8001, ce_command = CELL_CREATE_FAST, ce_payload = replicate 509 (5 :: byte)\<rparr>"
  have id: "\<not> unexpected_id (ce_circ_id ?cell) (w_conns bare_world 3)" "w_circid_map bare_world (3, ce_circ_id ?cell) = None"
    by (simp_all add: unexpected_id_def bare_world_def idle_world_def idle_conn_def)
  have env: "\<not> en_we_are_hibernating idle_env" "en_server_mode idle_env" "\<forall>l. en_new_circuit idle_env (bare_world\<lparr>w_last_circid_ent := l\<rparr>) = 9"
    by (simp_all add: idle_env_def)
  have cell: "ce_command ?cell = CELL_CREATE_FAST" "length (ce_payload ?cell) = CELL_PAYLOAD_SIZE" by (simp_all add: cell_sizes)
  from create_fast_establishes [OF bare_world_ok(1,2) idle_env_fast env(1,2) cell id env(3) bare_world_ok(3)] bare_world_ok(4) show ?thesis
    by fastforce
qed

subsection \<open>Extending a circuit\<close>

text \<open>The first ID of a circuit on a connection it has just been given, while it has no cells for it.\<close>

lemma first_n_circid:
  assumes "ci_n_conn (w_circs w c) = Some k" and "ci_n_circ_id (w_circs w c) = 0" and "i \<noteq> 0"
    and "ci_next_active_on_n_conn (w_circs w c) = None" and "ci_n_conn_cells (w_circs w c) = empty_queue"
  shows "\<exists>w'. circuit_set_n_circid_orconn c i (Some k) w = OK w' \<and> same_rings w w' \<and>
    w_circid_map w' = (w_circid_map w)((k, 0) := None, (k, i) \<mapsto> c) \<and> w_circs w' = (w_circs w)(c := (w_circs w c)\<lparr>ci_n_circ_id := i\<rparr>) \<and>
    w_now w' = w_now w"
proof -
  define w1 where "w1 = (if ci_origin (w_circs w c) then w
    else w\<lparr>w_events := w_events w @ [orcircuit_event ''STATUS'' CLOSED_text (w_circs w c) CELL_DIRECTION_OUT]\<rparr>)"
  have w1: "w_circs w1 = w_circs w" "w_conns w1 = w_conns w" "w_circid_map w1 = w_circid_map w" "w_alloc w1 = w_alloc w" "w_now w1 = w_now w"
    by (simp_all add: w1_def)
  define w2 where "w2 = forget_ent (Some k) i (forget_ent (Some k) 0 w1)"
  have w2: "w_circs w2 = w_circs w" "w_conns w2 = w_conns w" "w_circid_map w2 = w_circid_map w" "w_alloc w2 = w_alloc w" "w_now w2 = w_now w"
    by (simp_all add: w2_def forget_ent_eq w1)
  define w3 where "w3 = (if w_circid_map w (k, 0) \<noteq> None
    then upd_conn k (\<lambda>oc. oc\<lparr>oc_n_circuits := oc_n_circuits oc - 1\<rparr>) (w2\<lparr>w_circid_map := (w_circid_map w)((k, 0) := None)\<rparr>) else w2)"
  have w3: "w_circs w3 = w_circs w" "\<And>j. conn_part (w_conns w3 j) = conn_part (w_conns w j)" "w_circid_map w3 = (w_circid_map w)((k, 0) := None)"
    "w_alloc w3 = w_alloc w" "w_now w3 = w_now w"
    by (auto simp: w3_def w2 conn_part_def)
  let ?w' = "upd_conn k (\<lambda>oc. oc\<lparr>oc_n_circuits := oc_n_circuits oc + 1\<rparr>)
    ((upd_circ c (set_side True (Some k) i) w3)\<lparr>w_circid_map := (w_circid_map w3)((k, i) \<mapsto> c)\<rparr>)"
  have helper: "circuit_set_circid_orconn_helper c CELL_DIRECTION_OUT i (Some k) w1 = OK ?w'"
    using assms
    by (cases "w_circid_map w (k, 0)") (simp_all add: circuit_set_circid_orconn_helper_def Let_def side_conn_def side_circ_id_def side_next_def
        side_queue_def w1 w2_def [symmetric] w2 w3_def empty_queue_def)
  have circ: "w_circs ?w' = (w_circs w)(c := (w_circs w c)\<lparr>ci_n_circ_id := i\<rparr>)"
    using assms(1) by (cases "w_circs w c") (simp add: set_side_def w3)
  have "circuit_set_n_circid_orconn c i (Some k) w = OK ?w'"
    using helper assms circ
    by (auto simp: circuit_set_n_circid_orconn_def control_event_orcircuit_def w1_def empty_queue_def simp del: upd_conn_sel upd_circ_sel)
  moreover have "same_rings w ?w'"
    unfolding same_rings_def circ using w3(2,4) by (simp add: ring_part_def conn_part_def)
  ultimately show ?thesis using circ by (intro exI [of _ ?w']) (simp add: w3)
qed

text \<open>A free ID is left on the connection for this side.\<close>

definition id_left :: "conn_ref \<Rightarrow> 'd world \<Rightarrow> bool" where
  "id_left k w \<longleftrightarrow> oc_circ_id_type (w_conns w k) \<noteq> CIRC_ID_TYPE_NEITHER \<and>
     (\<exists>j. 1 \<le> j \<and> j \<le> 0x7fff \<and> w_circid_map w (k, j OR id_high_bit (oc_circ_id_type (w_conns w k))) = None)"

lemma searched_rings: "searched k w v \<Longrightarrow> same_rings w v \<and> w_circs v = w_circs w \<and> w_now v = w_now w"
  unfolding searched_def same_rings_def conn_part_def upd_conn_def by (elim exE conjE) simp

lemma deliver_create:
  assumes ok: "circuits_ok w R" and ids: "circid_ok w" and hw: "\<forall>k v. same_streams v (fst (en_hw env k v))"
    and n: "ci_n_conn (w_circs w c) = Some k" "ci_n_circ_id (w_circs w c) = 0" "ci_next_active_on_n_conn (w_circs w c) = None"
      "ci_n_conn_cells (w_circs w c) = empty_queue"
    and t: "t = CELL_CREATE \<or> t = CELL_CREATE_FAST" and pl: "ONIONSKIN_CHALLENGE_LEN \<le> length payload"
    and wq: "outbuf_of w k = [] \<longrightarrow> write_is_queued k CELL_NETWORK_SIZE w" and left: "id_left k w"
  obtains w' R' i where "circuit_deliver_create_cell env c t payload w = OK (w', 0)" and "circuits_ok w' R'"
    and "abs_sched w' R' = sched_append k c (cell_pack \<lparr>ce_circ_id = i, ce_command = t, ce_payload = cell_body ONIONSKIN_CHALLENGE_LEN payload\<rparr>) (abs_sched w R)"
    and "i \<noteq> 0" and "w_circid_map w (k, i) = None" and "\<forall>peer. oc_circ_id_type peer \<noteq> oc_circ_id_type (w_conns w k) \<longrightarrow> \<not> unexpected_id i peer"
    and "w_circid_map w' = (w_circid_map w)((k, 0) := None, (k, i) \<mapsto> c)" and "mask_circ (w_circs w' c) = mask_circ ((w_circs w c)\<lparr>ci_n_circ_id := i\<rparr>)"
proof -
  from free_circ_id [OF ids, of k] left obtain w1 i where w1: "get_unique_circ_id_by_conn k w = OK (w1, i)" "searched k w w1" "i \<noteq> 0"
    "w_circid_map w (k, i) = None" "\<forall>peer. oc_circ_id_type peer \<noteq> oc_circ_id_type (w_conns w k) \<longrightarrow> \<not> unexpected_id i peer"
    unfolding id_left_def Let_def by blast
  note s1 = searched_rings [OF w1(2)]
  obtain w2 where w2: "circuit_set_n_circid_orconn c i (Some k) w1 = OK w2" "same_rings w1 w2"
    "w_circid_map w2 = (w_circid_map w)((k, 0) := None, (k, i) \<mapsto> c)" "w_circs w2 = (w_circs w)(c := (w_circs w c)\<lparr>ci_n_circ_id := i\<rparr>)"
    using first_n_circid [of w1 c k i] s1 n w1(3) searched_D(1) [OF w1(2)] by auto
  have rings: "same_rings w w2" using s1 w2(2) same_rings_trans by blast
  let ?cell = "\<lparr>ce_circ_id = i, ce_command = t, ce_payload = cell_body ONIONSKIN_CHALLENGE_LEN payload\<rparr>"
  have on: "on_wire w2 k ?cell = ?cell" using t by (auto simp: on_wire_def CELL_CREATE_def CELL_CREATE_FAST_def CELL_RELAY_EARLY_def)
  have "writes_on w2 c k CELL_DIRECTION_OUT" using n(1) by (simp add: writes_on_def w2(4))
  moreover have "length (ce_payload ?cell) = CELL_PAYLOAD_SIZE" using pl by (simp add: cell_body_def key_sizes cell_sizes)
  ultimately obtain w3 R3 where w3: "append_cell_to_circuit_queue (en_hw env) c k ?cell CELL_DIRECTION_OUT w2 = OK w3" "circuits_ok w3 R3"
    "abs_sched w3 R3 = sched_append k c (cell_pack ?cell) (abs_sched w R)"
    using append_refines [of w2 R c k CELL_DIRECTION_OUT ?cell "en_hw env"] ok wq same_rings_ok [OF rings] same_rings_views(7,10) [OF rings] on by auto
  have s3: "same_streams w2 w3" using streams.append_cell [OF hw streams.refl, THEN afterD, OF w3(1)] .
  note m3 = same_streams_D(1) [OF s3, of c]
  let ?w' = "if ci_origin (w_circs w c) then upd_conn k (\<lambda>oc. oc\<lparr>oc_client_used := w_now w3\<rparr>) w3 else w3"
  have "circuit_deliver_create_cell env c t payload w = OK (?w', 0)"
    using t n(1) w1(1,3) w2(1,4) w3(1) mask_circ_D(1,4) [OF m3] by (simp add: circuit_deliver_create_cell_def)
  moreover have "same_rings w3 ?w'" by (auto simp: conn_part_def intro!: same_rings_upd_conn)
  note same_rings_ok [OF this]
  ultimately show thesis
    using w1(3-5) w2(3,4) w3(2,3) m3 s3 by (intro that [of ?w' R3 i]) (simp_all add: same_streams_def)
qed

lemma link_idle:
  assumes ok: "circuits_ok w R" and ci: "ci_n_conn (w_circs w c) = None" "ci_next_active_on_n_conn (w_circs w c) = None"
    "ci_prev_active_on_n_conn (w_circs w c) = None" "ci_n_conn_cells (w_circs w c) = empty_queue" "\<not> ci_streams_blocked_on_n_conn (w_circs w c)"
    and other: "ci_origin (w_circs w c) \<or> ci_p_conn (w_circs w c) \<noteq> Some k"
  shows "circuits_ok (upd_circ c (\<lambda>ci. ci\<lparr>ci_n_conn := Some k\<rparr>) w) R" "abs_sched (upd_circ c (\<lambda>ci. ci\<lparr>ci_n_conn := Some k\<rparr>) w) R = abs_sched w R"
proof -
  let ?w = "upd_circ c (\<lambda>ci. ci\<lparr>ci_n_conn := Some k\<rparr>) w"
  have view: "nextf ?w = nextf w" "prevf ?w = prevf w" "queue_on ?w = queue_on w" "blocked_on ?w = blocked_on w"
    using ci other by (auto simp: fun_eq_iff nextf_def prevf_def queue_on_def circ_queue_def blocked_on_def linked_def)
  have conns: "activef ?w = activef w" "outbuf_of ?w = outbuf_of w" "or_conns_wf ?w = or_conns_wf w"
    by (simp_all add: activef_def outbuf_of_def or_conns_wf_def fun_eq_iff)
  have "two_sided ?w" using circuits_ok_D(2) [OF ok] other by (auto simp: two_sided_def)
  with ok view conns show "circuits_ok ?w R" by (simp add: circuits_ok_def ring_on_def)
  from view conns show "abs_sched ?w R = abs_sched w R" by (simp add: abs_sched_def)
qed

lemma circid_ok_link:
  assumes "circid_ok w" and "ci_n_conn (w_circs w c) = None"
  shows "circid_ok (upd_circ c (\<lambda>ci. ci\<lparr>ci_n_conn := Some k\<rparr>) w)" (is "circid_ok ?w")
  unfolding circid_ok_def
proof (intro conjI allI impI)
  fix x assume "w_last_circid_ent ?w = Some x"
  then have "w_last_circid_ent w = Some x" by (simp add: upd_circ_def)
  with assms(1) show "w_circid_map ?w x \<noteq> None" unfolding circid_ok_def upd_circ_sel by blast
next
  fix j i d assume "w_circid_map ?w (j, i) = Some d"
  with assms(1) have "attached (w_circs w d) j i" by (simp add: circid_ok_def)
  with assms(2) show "attached (w_circs ?w d) j i" by (auto simp: attached_def)
next
  fix d s assume "s \<or> \<not> ci_origin (w_circs ?w d)"
  then have s: "s \<or> \<not> ci_origin (w_circs w d)" by (simp split: if_splits)
  from circid_ok_side(1) [OF assms(1) this] show "queue_ok (side_queue s (w_circs ?w d))" by (auto simp: side_queue_def split: if_splits)
  show "side_idle s (w_circs ?w d)" if "side_conn s (w_circs ?w d) = None"
    using that circid_ok_side(2) [OF assms(1) s] by (cases s) (auto simp: side_conn_def side_idle_def split: if_splits)
qed

text \<open>
  C2: a circuit is extended.  A relay at the end of a circuit that gets an EXTEND request with a complete body (an address and a
  port that are not 0, an onion skin, and the identity of a router that is not the previous hop) and that is connected to that router passes
  the onion skin on in one CREATE cell, queued on that connection under an ID that no circuit has there and that the router does not refuse;
  from then on the circuit has that connection and ID as its next hop.  As the identity is not that of the previous hop, the circuit never has one connection on
  both of its sides.  Of the map of IDs the entry of the new ID is set, and the entry of the ID 0 on the connection is
  removed whichever circuit it names.
\<close>

theorem extend_passes_on:
  assumes "circuits_ok w R" and "circid_ok w" and "\<forall>k v. same_streams v (fst (en_hw env k v))" and "en_server_mode env"
    and "\<not> ci_origin (w_circs w c)" and "ci_p_conn (w_circs w c) = Some p" and "ci_n_conn (w_circs w c) = None" and "ci_n_hop (w_circs w c) = None"
    and "ci_n_circ_id (w_circs w c) = 0" and "ci_n_conn_cells (w_circs w c) = empty_queue" and "\<not> ci_streams_blocked_on_n_conn (w_circs w c)"
    and "drop RELAY_HEADER_SIZE (ce_payload cell) = be32 addr @ be16 port @ skin @ identity @ rest"
    and "length skin = ONIONSKIN_CHALLENGE_LEN" and "length identity = DIGEST_LEN"
    and "4 + 2 + ONIONSKIN_CHALLENGE_LEN + DIGEST_LEN \<le> unat (rh_length (relay_header_unpack (ce_payload cell)))"
    and "addr \<noteq> 0" and "port \<noteq> 0" and "\<not> tor_digest_is_zero identity" and "identity \<noteq> oc_identity_digest (w_conns w p)"
    and "en_get_for_extend env identity (AF_INET addr) w = (Some k, launch)" and "oc_identity_digest (w_conns w k) = identity"
    and "id_left k w" and "outbuf_of w k = [] \<longrightarrow> write_is_queued k CELL_NETWORK_SIZE w"
  shows "\<exists>w' R' i. circuit_extend env cell c w = OK (w', 0) \<and> circuits_ok w' R' \<and>
    abs_sched w' R' = sched_append k c (cell_pack \<lparr>ce_circ_id = i, ce_command = CELL_CREATE, ce_payload = cell_body ONIONSKIN_CHALLENGE_LEN skin\<rparr>) (abs_sched w R) \<and>
    i \<noteq> 0 \<and> w_circid_map w (k, i) = None \<and> (\<forall>peer. oc_circ_id_type peer \<noteq> oc_circ_id_type (w_conns w k) \<longrightarrow> \<not> unexpected_id i peer) \<and>
    ci_n_conn (w_circs w' c) = Some k \<and> ci_n_circ_id (w_circs w' c) = i \<and> w_circid_map w' = (w_circid_map w)((k, 0) := None, (k, i) \<mapsto> c)"
proof -
  let ?w1 = "upd_circ c (\<lambda>ci. ci\<lparr>ci_n_conn := Some k\<rparr>) w" and ?body = "drop RELAY_HEADER_SIZE (ce_payload cell)"
  have kp: "ci_p_conn (w_circs w c) \<noteq> Some k" using assms(6,19,21) by auto
  have "side_idle True (w_circs w c)" using circid_ok_side(2) [OF assms(2), of True c] assms(7) by (simp add: side_conn_def)
  then have idle: "ci_next_active_on_n_conn (w_circs w c) = None" "ci_prev_active_on_n_conn (w_circs w c) = None" by (simp_all add: side_idle_def)
  note ok = link_idle [OF assms(1,7) idle assms(10,11) disjI2, OF kp]
  have ids: "circid_ok ?w1" using circid_ok_link [OF assms(2,7)] .
  have wq: "outbuf_of ?w1 k = [] \<longrightarrow> write_is_queued k CELL_NETWORK_SIZE ?w1" "id_left k ?w1"
    using assms(22,23) by (simp_all add: outbuf_of_def write_is_queued_def id_left_def)
  obtain w' R' i where w': "circuit_deliver_create_cell env c CELL_CREATE (skin @ identity @ rest) ?w1 = OK (w', 0)" "circuits_ok w' R'"
    "abs_sched w' R' = sched_append k c (cell_pack \<lparr>ce_circ_id = i, ce_command = CELL_CREATE, ce_payload = cell_body ONIONSKIN_CHALLENGE_LEN (skin @ identity @ rest)\<rparr>) (abs_sched w R)"
    "i \<noteq> 0" "w_circid_map w (k, i) = None" "\<forall>peer. oc_circ_id_type peer \<noteq> oc_circ_id_type (w_conns w k) \<longrightarrow> \<not> unexpected_id i peer"
    "w_circid_map w' = (w_circid_map w)((k, 0) := None, (k, i) \<mapsto> c)" "mask_circ (w_circs w' c) = mask_circ ((w_circs ?w1 c)\<lparr>ci_n_circ_id := i\<rparr>)"
    by (rule deliver_create [OF ok(1) ids assms(3) _ _ _ _ _ _ wq, of c CELL_CREATE "skin @ identity @ rest"])
      (use assms(9,10,13) idle(1) in \<open>simp_all add: ok(2)\<close>)
  have l: "length (be32 addr) = 4" "length (be16 port) = 2" by (simp_all add: be32_def be16_def)
  have body: "rd32 ?body = addr" "rd16 (drop 4 ?body) = port" "drop (4 + 2) ?body = skin @ identity @ rest"
    "take DIGEST_LEN (drop (4 + 2 + ONIONSKIN_CHALLENGE_LEN) ?body) = identity"
    using assms(12-14) l by (simp_all add: rd32_be32 rd16_be16)
  have "circuit_extend env cell c w = OK (w', 0)"
    using assms(4-8,15-20) body w'(1) by (simp add: circuit_extend_def Let_def)
  moreover have "cell_body ONIONSKIN_CHALLENGE_LEN (skin @ identity @ rest) = cell_body ONIONSKIN_CHALLENGE_LEN skin"
    using assms(13) by (simp add: cell_body_def)
  ultimately show ?thesis using w'(2-7) mask_circ_D(4,6) [OF w'(8)] by (intro exI [of _ w'] exI [of _ R'] exI [of _ i]) simp
qed

text \<open>A relay at the end of circuit 2, connected to the router with identity \<open>3, 3, \<dots>\<close> by connection 4.\<close>

definition end_world :: "unit world" where
  "end_world = bare_world\<lparr>w_circs := (\<lambda>_. idle_circuit\<lparr>ci_n_conn := None, ci_n_circ_id := 0, ci_p_conn := Some 3\<rparr>),
     w_conns := (w_conns idle_world)(4 := idle_conn\<lparr>oc_identity_digest := replicate 20 3\<rparr>)\<rparr>"

definition extend_cell :: cell where
  "extend_cell = \<lparr>ce_circ_id = 5, ce_command = CELL_RELAY, ce_payload = [6, 0, 0, 0, 0, 0, 0, 0, 0, 0, 212] @
     be32 0x7F000001 @ be16 9001 @ replicate 186 7 @ replicate 20 3 @ replicate 286 0\<rparr>"

lemma end_world_ok: "circuits_ok end_world (\<lambda>_. [])" "circid_ok end_world" "id_left 4 end_world"
proof -
  let ?w = "end_world\<lparr>w_conns := w_conns idle_world\<rparr>"
  have "circuits_ok ?w (\<lambda>_. [])"
    by (rule quiet_world_ok [where orig = False and n = None and p = "Some 3"])
      (simp_all add: end_world_def bare_world_def ring_part_def idle_circuit_def idle_world_def)
  moreover have "same_rings ?w end_world" by (simp add: same_rings_def end_world_def conn_part_def idle_world_def)
  ultimately show "circuits_ok end_world (\<lambda>_. [])" using same_rings_ok(1) by blast
  show "circid_ok end_world"
    by (simp add: end_world_def bare_world_def circid_ok_def idle_world_def idle_circuit_def side_queue_def side_conn_def side_idle_def)
  show "id_left 4 end_world" by (auto simp: id_left_def end_world_def bare_world_def idle_world_def idle_conn_def intro!: exI [of _ 1])
qed

theorem extend_passes_on_witness:
  "\<exists>w' R' i. circuit_extend (idle_env\<lparr>en_get_for_extend := (\<lambda>_ _ _. (Some 4, False))\<rparr>) extend_cell 2 end_world = OK (w', 0) \<and> i \<noteq> 0 \<and>
     abs_sched w' R' = sched_append 4 2 (cell_pack \<lparr>ce_circ_id = i, ce_command = CELL_CREATE, ce_payload = cell_body ONIONSKIN_CHALLENGE_LEN (replicate 186 7)\<rparr>)
       (abs_sched end_world (\<lambda>_. [])) \<and> w_circid_map w' (4, i) = Some 2"
proof -
  let ?env = "idle_env\<lparr>en_get_for_extend := (\<lambda>_ _ _. (Some 4, False))\<rparr>"
  have env: "\<forall>k v. same_streams v (fst (en_hw ?env k v))" "en_server_mode ?env" using idle_env_laws(2) by (simp_all add: idle_env_def)
  have ci: "w_circs end_world 2 = idle_circuit\<lparr>ci_n_conn := None, ci_n_circ_id := 0, ci_p_conn := Some 3\<rparr>" by (simp add: end_world_def)
  have c: "\<not> ci_origin (w_circs end_world 2)" "ci_p_conn (w_circs end_world 2) = Some 3" "ci_n_conn (w_circs end_world 2) = None"
    "ci_n_hop (w_circs end_world 2) = None" "ci_n_circ_id (w_circs end_world 2) = 0" "ci_n_conn_cells (w_circs end_world 2) = empty_queue"
    "\<not> ci_streams_blocked_on_n_conn (w_circs end_world 2)"
    unfolding ci by (simp_all add: idle_circuit_def)
  have pl: "drop RELAY_HEADER_SIZE (ce_payload extend_cell) = be32 0x7F000001 @ be16 9001 @ replicate 186 7 @ replicate 20 3 @ replicate 286 0"
    by (simp add: extend_cell_def cell_sizes)
  have rh: "4 + 2 + ONIONSKIN_CHALLENGE_LEN + DIGEST_LEN \<le> unat (rh_length (relay_header_unpack (ce_payload extend_cell)))"
    by (simp add: extend_cell_def relay_header_unpack_def key_sizes)
  have d: "\<not> tor_digest_is_zero (replicate 20 3)" "replicate 20 3 \<noteq> oc_identity_digest (w_conns end_world 3)" "oc_identity_digest (w_conns end_world 4) = replicate 20 3"
    by (simp_all add: tor_digest_is_zero_def tor_mem_is_zero_iff end_world_def idle_world_def idle_conn_def)
  have wq: "outbuf_of end_world 4 = [] \<longrightarrow> write_is_queued 4 CELL_NETWORK_SIZE end_world"
    by (simp add: end_world_def write_is_queued_def idle_conn_def buf_new_def buf_bytes_def int_max_def cell_sizes)
  have get: "en_get_for_extend ?env (replicate 20 3) (AF_INET 0x7F000001) end_world = (Some 4, False)" by simp
  have len: "length (replicate 186 (7 :: byte)) = ONIONSKIN_CHALLENGE_LEN" "length (replicate 20 (3 :: byte)) = DIGEST_LEN" by (simp_all add: key_sizes)
  from extend_passes_on [OF end_world_ok(1,2) env c pl len rh _ _ d(1,2) get d(3) end_world_ok(3) wq] show ?thesis by fastforce
qed

subsection \<open>Answers that are refused\<close>

text \<open>
  The keys an answer gives to a hop that waits for it: the answer is of the kind of the request, and carries the
  digest of the secret both sides share.
\<close>

definition answer_keys :: "'d relay_env \<Rightarrow> 'd crypt_path \<Rightarrow> byte \<Rightarrow> byte list \<Rightarrow> byte list \<Rightarrow> byte list \<Rightarrow> bool" where
  "answer_keys env hop reply_type reply proof keys \<longleftrightarrow>
     (case cp_dh_handshake_state hop of
        Some dh \<Rightarrow> reply_type = CELL_CREATED \<and> proof = take DIGEST_LEN (drop DH_KEY_LEN reply) \<and>
          en_dh_compute_secret env dh (take DH_KEY_LEN reply) (DIGEST_LEN + CPATH_KEY_MATERIAL_LEN) = Some (proof @ keys)
      | None \<Rightarrow> reply_type = CELL_CREATED_FAST \<and> proof = take DIGEST_LEN (drop DIGEST_LEN reply) \<and>
          fast_material env (cp_fast_handshake_state hop) (take DIGEST_LEN reply) = proof @ keys)"

definition handshake_env :: "'d relay_env \<Rightarrow> bool" where
  "handshake_env env \<longleftrightarrow> (\<forall>b. length (en_crypto_digest env b) = DIGEST_LEN) \<and>
     (\<forall>dh peer n secret. en_dh_compute_secret env dh peer n = Some secret \<longrightarrow> length secret = n)"

lemma handshake_keys_iff:
  assumes "handshake_env env" and "length (cp_fast_handshake_state hop) = DIGEST_LEN" and "DH_KEY_LEN + DIGEST_LEN \<le> length reply"
  shows "(\<exists>p keys. answer_keys env hop t reply p keys \<and> handshake_keys env hop t reply = OK (Some (keys, p))) \<or>
    (\<nexists>p keys. answer_keys env hop t reply p keys) \<and> handshake_keys env hop t reply = OK None"
proof -
  have len: "DIGEST_LEN * 2 + CIPHER_KEY_LEN * 2 = CPATH_KEY_MATERIAL_LEN" by (simp add: key_sizes)
  show ?thesis
  proof (cases "cp_dh_handshake_state hop")
    case None
    let ?m = "fast_material env (cp_fast_handshake_state hop) (take DIGEST_LEN reply)" and ?p = "take DIGEST_LEN (drop DIGEST_LEN reply)"
    have l: "length (take DIGEST_LEN reply) = DIGEST_LEN" "length ?p = DIGEST_LEN" using assms(3) by (simp_all add: key_sizes)
    have dl: "\<And>b. length (en_crypto_digest env b) = DIGEST_LEN" using assms(1) by (simp add: handshake_env_def)
    have m: "length ?m = DIGEST_LEN + CPATH_KEY_MATERIAL_LEN" using expand_blocks_length [OF dl] by (simp add: fast_material_def)
    have reply: "reply = take DIGEST_LEN reply @ ?p @ drop (2 * DIGEST_LEN) reply"
      by (metis append_take_drop_id drop_drop mult_2)
    have "fast_client_handshake env (cp_fast_handshake_state hop) reply CPATH_KEY_MATERIAL_LEN =
        OK (if ?p = take DIGEST_LEN ?m then Some (fast_keys env (cp_fast_handshake_state hop) (take DIGEST_LEN reply)) else None)"
      using fast_client [OF l(1) assms(2) dl l(2), of "drop (2 * DIGEST_LEN) reply"] unfolding reply [symmetric] .
    moreover have "?m = take DIGEST_LEN ?m @ fast_keys env (cp_fast_handshake_state hop) (take DIGEST_LEN reply)" by (simp add: fast_keys_def)
    ultimately show ?thesis
      using None l(2) m by (auto simp: handshake_keys_def answer_keys_def len append_eq_conv_conj)
  next
    case (Some dh)
    let ?r = "en_dh_compute_secret env dh (take DH_KEY_LEN reply) (DIGEST_LEN + CPATH_KEY_MATERIAL_LEN)" and ?p = "take DIGEST_LEN (drop DH_KEY_LEN reply)"
    have l: "length ?p = DIGEST_LEN" using assms(3) by simp
    have "length s = DIGEST_LEN + CPATH_KEY_MATERIAL_LEN" if "?r = Some s" for s using assms(1) that unfolding handshake_env_def by blast
    then show ?thesis
      using Some l
      by (cases ?r) (auto simp: handshake_keys_def onion_skin_client_handshake_def answer_keys_def len append_eq_conv_conj, metis append_take_drop_id)
  qed
qed

lemma waiting_hop:
  assumes "onion_next_hop_in_cpath cpath = Some i" and "cp_state (cpath ! i) = CPATH_STATE_AWAITING_KEYS"
  shows "i < length cpath" "(if cp_state (cpath ! 0) = CPATH_STATE_AWAITING_KEYS then Some 0 else onion_next_hop_in_cpath cpath) = Some i"
proof -
  show i: "i < length cpath" using assms(1) by (auto simp: onion_next_hop_in_cpath_def find_Some_iff)
  then have "0 < length cpath" by linarith
  then have "[0..<length cpath] = 0 # [1..<length cpath]" by (simp only: upt_conv_Cons One_nat_def)
  then show "(if cp_state (cpath ! 0) = CPATH_STATE_AWAITING_KEYS then Some 0 else onion_next_hop_in_cpath cpath) = Some i"
    using assms(1) by (auto simp: onion_next_hop_in_cpath_def)
qed

text \<open>
  C10: answers are checked.  When the first hop of a circuit that is not open waits for keys, and a CREATED, CREATED\_FAST or EXTENDED answer arrives
  at the origin: if the answer is of the kind that was asked for and its digest proves that the other side knows the shared secret, the hop gets its
  ciphers and digests from the rest of the secret and is open, and no other hop changes; every other answer changes nothing, and is reported
  as a protocol violation, for which the callers close the circuit.
\<close>

theorem handshake_answer_checked:
  assumes "handshake_env env" and "onion_next_hop_in_cpath (ci_cpath (w_circs w c)) = Some i" and "hop = ci_cpath (w_circs w c) ! i"
    and "cp_state hop = CPATH_STATE_AWAITING_KEYS" and "\<not> cp_keys_set hop" and "length (cp_fast_handshake_state hop) = DIGEST_LEN"
    and "DH_KEY_LEN + DIGEST_LEN \<le> length reply"
  shows "(\<exists>p keys f b w'. answer_keys env hop t reply p keys \<and> key_ciphers keys f b \<and> circuit_finish_handshake env c t reply w = OK (w', 0) \<and>
      (\<forall>d. d \<noteq> c \<longrightarrow> w_circs w' d = w_circs w d) \<and> ci_cpath (w_circs w' c) = (ci_cpath (w_circs w c))[i := (keyed (en_ops env) keys f b
        (hop\<lparr>cp_handshake_digest := p, cp_dh_handshake_state := None, cp_fast_handshake_state := replicate DIGEST_LEN 0\<rparr>))\<lparr>cp_state := CPATH_STATE_OPEN\<rparr>]) \<or>
    (\<nexists>p keys. answer_keys env hop t reply p keys) \<and> circuit_finish_handshake env c t reply w = OK (w, - END_CIRC_REASON_TORPROTOCOL)"
proof -
  note wait = waiting_hop [OF assms(2) assms(4) [unfolded assms(3)]]
  have ne: "ci_cpath (w_circs w c) \<noteq> []" using wait(1) by auto
  note run = ne assms(4) wait(2) circuit_finish_handshake_def [of env c t reply w, unfolded Let_def]
  from handshake_keys_iff [OF assms(1,6,7), of t] show ?thesis
  proof
    assume "\<exists>p keys. answer_keys env hop t reply p keys \<and> handshake_keys env hop t reply = OK (Some (keys, p))"
    then obtain p keys where p: "answer_keys env hop t reply p keys" "handshake_keys env hop t reply = OK (Some (keys, p))" by blast
    obtain f b where fb: "key_ciphers keys f b" using key_ciphers_exist by blast
    let ?hop = "hop\<lparr>cp_handshake_digest := p, cp_dh_handshake_state := None, cp_fast_handshake_state := replicate DIGEST_LEN 0\<rparr>"
    let ?w1 = "upd_circ c (upd_hop i (\<lambda>_. (keyed (en_ops env) keys f b ?hop)\<lparr>cp_state := CPATH_STATE_OPEN\<rparr>)) w"
    have "circuit_finish_handshake env c t reply w = OK (?w1\<lparr>w_events := w_events ?w1 @ [Circuit_Extended c]\<rparr>, 0)"
      using run p(2) init_crypto [OF fb, of ?hop env] assms(5) by (simp add: assms(3))
    with p(1) fb show ?thesis
      by (intro disjI1 exI [of _ p] exI [of _ keys] exI [of _ f] exI [of _ b] exI [of _ "?w1\<lparr>w_events := w_events ?w1 @ [Circuit_Extended c]\<rparr>"])
        (simp add: upd_hop_def)
  qed (use run assms(3) in simp)
qed

text \<open>A client whose first hop has sent a CREATE\_FAST cell with the bytes \<open>1, 1, \<dots>\<close>.\<close>

definition waiting_hop_ex :: "unit crypt_path" where
  "waiting_hop_ex = \<lparr>cp_extend_info = no_extend_info, cp_keys_set = False, cp_dh_handshake_state = None,
     cp_fast_handshake_state = replicate 20 1, cp_handshake_digest = [], cp_f_crypto = aes_new_cipher, cp_b_crypto = aes_new_cipher,
     cp_f_digest = (), cp_b_digest = (), cp_state = CPATH_STATE_AWAITING_KEYS, cp_package_window = 1000, cp_deliver_window = 1000\<rparr>"

definition client_world :: "unit world" where
  "client_world = idle_world\<lparr>w_circs := (\<lambda>_. idle_circuit\<lparr>ci_origin := True, ci_cpath := [waiting_hop_ex]\<rparr>)\<rparr>"

theorem handshake_answer_checked_witness:
  "circuit_finish_handshake idle_env 2 CELL_CREATED_FAST (replicate 509 5) client_world = OK (client_world, - END_CIRC_REASON_TORPROTOCOL)"
proof -
  have env: "handshake_env idle_env" by (simp add: handshake_env_def idle_env_def DIGEST_LEN_def)
  have cpath: "ci_cpath (w_circs client_world 2) = [waiting_hop_ex]" by (simp add: client_world_def)
  have wait: "onion_next_hop_in_cpath (ci_cpath (w_circs client_world 2)) = Some 0" "waiting_hop_ex = ci_cpath (w_circs client_world 2) ! 0"
    by (simp_all add: cpath onion_next_hop_in_cpath_def waiting_hop_ex_def)
  have hop: "cp_state waiting_hop_ex = CPATH_STATE_AWAITING_KEYS" "\<not> cp_keys_set waiting_hop_ex" "length (cp_fast_handshake_state waiting_hop_ex) = DIGEST_LEN"
    "DH_KEY_LEN + DIGEST_LEN \<le> length (replicate 509 (5 :: byte))"
    by (simp_all add: waiting_hop_ex_def key_sizes)
  have "expand_blocks (en_crypto_digest idle_env) (replicate 20 1 @ replicate 20 5) 0 92 ! 0 = 1"
    by (subst expand_blocks.simps) (simp add: idle_env_def DIGEST_LEN_def nth_append)
  then have "\<not> answer_keys idle_env waiting_hop_ex CELL_CREATED_FAST (replicate 509 5) p keys" for p keys
    by (auto simp: answer_keys_def waiting_hop_ex_def fast_material_def key_sizes nth_append)
  with handshake_answer_checked [OF env wait hop, of CELL_CREATED_FAST] show ?thesis by blast
qed

end
