(* ===== verification/RelayRecv.thy ===== *)
theory RelayRecv
  imports Handshake
begin

section \<open>Receiving relay cells (relay.c)\<close>

text \<open>
  A relay cell that arrives on a circuit is decrypted by one layer and either passed on to the next
  connection or, when it is recognized, delivered: data to a stream, acknowledgements to the windows,
  requests to the subsystems that serve them.  A function that returns a negative number asks its
  caller to close the circuit for that reason.
\<close>

definition RELAY_COMMAND_BEGIN :: byte where "RELAY_COMMAND_BEGIN = 1"
definition RELAY_COMMAND_CONNECTED :: byte where "RELAY_COMMAND_CONNECTED = 4"
definition RELAY_COMMAND_EXTENDED :: byte where "RELAY_COMMAND_EXTENDED = 7"
definition RELAY_COMMAND_TRUNCATE :: byte where "RELAY_COMMAND_TRUNCATE = 8"
definition RELAY_COMMAND_TRUNCATED :: byte where "RELAY_COMMAND_TRUNCATED = 9"
definition RELAY_COMMAND_DROP :: byte where "RELAY_COMMAND_DROP = 10"
definition RELAY_COMMAND_RESOLVE :: byte where "RELAY_COMMAND_RESOLVE = 11"
definition RELAY_COMMAND_RESOLVED :: byte where "RELAY_COMMAND_RESOLVED = 12"
definition RELAY_COMMAND_BEGIN_DIR :: byte where "RELAY_COMMAND_BEGIN_DIR = 13"
definition RELAY_COMMAND_ESTABLISH_INTRO :: byte where "RELAY_COMMAND_ESTABLISH_INTRO = 32"
definition RELAY_COMMAND_INTRODUCE_ACK :: byte where "RELAY_COMMAND_INTRODUCE_ACK = 40"

lemmas relay_commands = RELAY_COMMAND_BEGIN_def RELAY_COMMAND_DATA_def RELAY_COMMAND_END_def
  RELAY_COMMAND_CONNECTED_def RELAY_COMMAND_SENDME_def RELAY_COMMAND_EXTEND_def RELAY_COMMAND_EXTENDED_def
  RELAY_COMMAND_TRUNCATE_def RELAY_COMMAND_TRUNCATED_def RELAY_COMMAND_DROP_def RELAY_COMMAND_RESOLVE_def
  RELAY_COMMAND_RESOLVED_def RELAY_COMMAND_BEGIN_DIR_def RELAY_COMMAND_MESSAGE_def
  RELAY_COMMAND_ESTABLISH_INTRO_def RELAY_COMMAND_INTRODUCE_ACK_def

definition AP_CONN_STATE_CONNECT_WAIT :: nat where "AP_CONN_STATE_CONNECT_WAIT = 9"
definition AP_CONN_STATE_RESOLVE_WAIT :: nat where "AP_CONN_STATE_RESOLVE_WAIT = 10"
definition AP_CONN_STATE_OPEN :: nat where "AP_CONN_STATE_OPEN = 11"
definition EXIT_CONN_STATE_OPEN :: nat where "EXIT_CONN_STATE_OPEN = 3"
definition RESOLVED_TYPE_IPV4 :: byte where "RESOLVED_TYPE_IPV4 = 4"

definition rejects_address :: "'d relay_env \<Rightarrow> u32 \<Rightarrow> bool" where
  "rejects_address env addr \<longleftrightarrow> en_ClientDNSRejectInternalAddresses env \<and> is_internal_IP addr False"

subsection \<open>Finding the stream\<close>

text \<open>The first stream in a list with the ID of the cell that is not marked for close, and has a further property.\<close>

definition find_stream :: "(edge_conn \<Rightarrow> bool) \<Rightarrow> u16 \<Rightarrow> edge_ref list \<Rightarrow> 'd world \<Rightarrow> edge_ref option" where
  "find_stream P stream_id es w = List.find (\<lambda>e. ec_stream_id (w_edges w e) = stream_id \<and>
     \<not> cn_marked_for_close (w_edges w e) \<and> P (w_edges w e)) es"

definition relay_lookup_conn ::
  "circ_ref \<Rightarrow> cell \<Rightarrow> cell_direction \<Rightarrow> nat option \<Rightarrow> 'd world \<Rightarrow> edge_ref option" where
  "relay_lookup_conn c cell direction layer_hint w =
     (let circ = w_circs w c; stream_id = rh_stream_id (relay_header_unpack (ce_payload cell)) in
      if stream_id = 0 then None
      else if ci_origin circ then find_stream (\<lambda>ec. ec_cpath_layer ec = layer_hint) stream_id (ci_p_streams circ) w
      else case find_stream (\<lambda>ec. direction = CELL_DIRECTION_OUT \<or> ec_rendezvous ec) stream_id (ci_n_streams circ) w of
        Some e \<Rightarrow> Some e
      | None \<Rightarrow> find_stream (\<lambda>_. True) stream_id (ci_resolving_streams circ) w)"

definition connection_state_is_open :: "edge_conn \<Rightarrow> bool" where
  "connection_state_is_open conn \<longleftrightarrow> \<not> cn_marked_for_close conn \<and>
     (case ec_type conn of CONN_TYPE_AP \<Rightarrow> ec_state conn = AP_CONN_STATE_OPEN
      | CONN_TYPE_EXIT \<Rightarrow> ec_state conn = EXIT_CONN_STATE_OPEN)"

text \<open>
  \<^verbatim>\<open>_connection_write_to_buf_impl\<close> on a stream: the bytes are appended to the output buffer, and nothing
  is flushed at once.  Streams linked to a directory connection of the same process are not modelled.
\<close>

definition connection_write_to_edge :: "byte list \<Rightarrow> edge_ref \<Rightarrow> 'd world \<Rightarrow> 'd world res" where
  "connection_write_to_edge string e w =
     (let conn = w_edges w e in
      if string = [] then OK w
      else if cn_marked_for_close conn \<and> \<not> cn_hold_open_until_flushed conn then OK w
      else rbind (write_to_buf (w_alloc w) string (cn_outbuf conn)) (\<lambda>(st, b, _).
        OK (upd_edge e (\<lambda>ec. ec\<lparr>cn_outbuf := b, cn_writing := True,
              cn_outbuf_flushlen := cn_outbuf_flushlen ec + length string\<rparr>) (w\<lparr>w_alloc := st\<rparr>))))"

subsection \<open>Streams that are not open yet\<close>

text \<open>
  The bytes of a cell are of type \<^verbatim>\<open>char\<close>, which is signed on the platforms the program is built for.
\<close>

definition payload_at :: "cell \<Rightarrow> nat \<Rightarrow> byte" where
  "payload_at cell i = ce_payload cell ! (RELAY_HEADER_SIZE + i)"

definition payload_u32 :: "cell \<Rightarrow> int \<Rightarrow> u32 res" where
  "payload_u32 cell i = (if 0 \<le> int RELAY_HEADER_SIZE + i \<and> int RELAY_HEADER_SIZE + i + 4 \<le> int CELL_PAYLOAD_SIZE
     then OK (rd32 (drop (nat (int RELAY_HEADER_SIZE + i)) (ce_payload cell))) else Fault Mem_Fault)"

definition signed_end_reason :: "byte \<Rightarrow> nat" where
  "signed_end_reason b = nat ((sint b OR int END_STREAM_REASON_FLAG_REMOTE) mod 2 ^ 16)"

definition process_end_not_open ::
  "'d relay_env \<Rightarrow> relay_header \<Rightarrow> cell \<Rightarrow> circ_ref \<Rightarrow> edge_ref \<Rightarrow> 'd world \<Rightarrow> ('d world \<times> int) res" where
  "process_end_not_open env rh cell c e w =
     (if ci_origin (w_circs w c) \<and> ec_type (w_edges w e) = CONN_TYPE_AP
      then en_ap_process_end_not_open env rh cell c e w
      else rbind (connection_mark_for_close e
                   (upd_edge e (\<lambda>ec. ec\<lparr>ec_edge_has_sent_end := True,
                      ec_end_reason := signed_end_reason (payload_at cell 0)\<rparr>) w)) (\<lambda>w1. OK (w1, 0)))"

definition remap_event_helper :: "edge_ref \<Rightarrow> u32 \<Rightarrow> 'd world \<Rightarrow> 'd world res" where
  "remap_event_helper e new_addr w = (if ec_socks_request (w_edges w e) = None then Fault Mem_Fault
     else OK (w\<lparr>w_events := w_events w @ [Stream_Remap e new_addr]\<rparr>))"

text \<open>The address in a CONNECTED cell.  The flag tells whether the stream was refused for it.\<close>

definition connected_address ::
  "'d relay_env \<Rightarrow> relay_header \<Rightarrow> cell \<Rightarrow> edge_ref \<Rightarrow> 'd world \<Rightarrow> ('d world \<times> bool) res" where
  "connected_address env rh cell e w =
     (if rh_length rh \<ge> 4 then
        rbind (payload_u32 cell 0) (\<lambda>addr.
          if addr = 0 \<or> rejects_address env addr then
            rbind (connection_edge_end env e (of_nat END_STREAM_REASON_TORPROTOCOL) w) (\<lambda>(w1, _).
            rbind (connection_mark_unattached_ap env e END_STREAM_REASON_TORPROTOCOL w1) (\<lambda>w2. OK (w2, True)))
          else
            rbind (if rh_length rh \<ge> 8 then rbind (payload_u32 cell 4) (\<lambda>t. OK (sint t)) else OK (-1)) (\<lambda>ttl.
            rbind (en_client_dns_set_addressmap env e addr ttl w) (\<lambda>w1.
            rbind (remap_event_helper e addr w1) (\<lambda>w2. OK (w2, False)))))
      else OK (w, False))"

definition process_connected_not_open ::
  "'d relay_env \<Rightarrow> relay_header \<Rightarrow> cell \<Rightarrow> circ_ref \<Rightarrow> edge_ref \<Rightarrow> 'd world \<Rightarrow> ('d world \<times> int) res" where
  "process_connected_not_open env rh cell c e w =
     tor_assert (ci_origin (w_circs w c))
      (if ec_state (w_edges w e) \<noteq> AP_CONN_STATE_CONNECT_WAIT then OK (w, 0)
       else
         rbind (connected_address env rh cell e (upd_edge e (\<lambda>ec. ec\<lparr>ec_state := AP_CONN_STATE_OPEN\<rparr>) w)) (\<lambda>(w1, refused).
         if refused then OK (w1, 0)
         else case ec_socks_request (w_edges w1 e) of
           None \<Rightarrow> Fault Mem_Fault
         | Some (_, has_finished) \<Rightarrow>
             rbind (if has_finished then OK w1 else en_socks_reply env e 0 w1) (\<lambda>w2.
             rbind (en_bootstrap_event env e w2) (\<lambda>w3.
             rbind (connection_edge_package_raw_inbuf env e True w3) (\<lambda>(w4, r).
               if r < 0 then rbind (connection_mark_for_close e w4) (\<lambda>w5. OK (w5, 0)) else OK (w4, 0))))))"

definition process_resolved_not_open ::
  "'d relay_env \<Rightarrow> relay_header \<Rightarrow> cell \<Rightarrow> edge_ref \<Rightarrow> 'd world \<Rightarrow> ('d world \<times> int) res" where
  "process_resolved_not_open env rh cell e w =
     (if ec_state (w_edges w e) \<noteq> AP_CONN_STATE_RESOLVE_WAIT then OK (w, 0)
      else case ec_socks_request (w_edges w e) of
        None \<Rightarrow> Fault Mem_Fault
      | Some (command, _) \<Rightarrow>
          tor_assert (SOCKS_COMMAND_IS_RESOLVE command)
           (let answer_len = sint (payload_at cell 1); len = int (unat (rh_length rh)) in
            if len < 2 \<or> answer_len + 2 > len then
              rbind (connection_mark_unattached_ap env e END_STREAM_REASON_TORPROTOCOL w) (\<lambda>w1. OK (w1, 0))
            else
              (let answer_type = payload_at cell 0;
                   is_v4 = (answer_type = RESOLVED_TYPE_IPV4 \<and> answer_len = 4)
               in rbind (if len \<ge> answer_len + 6 then rbind (payload_u32 cell (2 + answer_len)) (\<lambda>t. OK (sint t)) else OK (-1)) (\<lambda>ttl.
                  rbind (payload_u32 cell 2) (\<lambda>addr.
                    if is_v4 \<and> rejects_address env addr then
                      rbind (en_socks_resolved env e RESOLVED_TYPE_ERROR_TRANSIENT 0 [] 0 w) (\<lambda>w1.
                      rbind (connection_mark_unattached_ap env e END_STREAM_REASON_TORPROTOCOL w1) (\<lambda>w2. OK (w2, 0)))
                    else
                      rbind (en_socks_resolved env e answer_type (nat (answer_len mod 2 ^ 64))
                               (drop (RELAY_HEADER_SIZE + 2) (ce_payload cell)) ttl w) (\<lambda>w1.
                      rbind (if is_v4 then remap_event_helper e addr w1 else OK w1) (\<lambda>w2.
                      rbind (connection_mark_unattached_ap env e
                               (END_STREAM_REASON_DONE OR END_STREAM_REASON_FLAG_ALREADY_SOCKS_REPLIED) w2) (\<lambda>w3.
                        OK (w3, 0)))))))))"

definition connection_edge_process_relay_cell_not_open ::
  "'d relay_env \<Rightarrow> relay_header \<Rightarrow> cell \<Rightarrow> circ_ref \<Rightarrow> edge_ref \<Rightarrow> 'd world \<Rightarrow> ('d world \<times> int) res" where
  "connection_edge_process_relay_cell_not_open env rh cell c e w =
     (if rh_command rh = RELAY_COMMAND_END then process_end_not_open env rh cell c e w
      else if ec_type (w_edges w e) = CONN_TYPE_AP \<and> rh_command rh = RELAY_COMMAND_CONNECTED
      then process_connected_not_open env rh cell c e w
      else if ec_type (w_edges w e) = CONN_TYPE_AP \<and> rh_command rh = RELAY_COMMAND_RESOLVED
      then process_resolved_not_open env rh cell e w
      else OK (w, 0))"

subsection \<open>Relay commands\<close>

definition set_deliver_window :: "nat option \<Rightarrow> int \<Rightarrow> 'd circuit \<Rightarrow> 'd circuit" where
  "set_deliver_window layer_hint n circ = add_deliver_window layer_hint (n - deliver_window_at layer_hint circ) circ"

text \<open>
  DATA.  When the deliver window of the circuit is used up, the stream is ended through its pointer,
  which is NULL for a cell of an unknown stream.
\<close>

definition process_relay_data ::
  "'d relay_env \<Rightarrow> relay_header \<Rightarrow> cell \<Rightarrow> circ_ref \<Rightarrow> edge_ref option \<Rightarrow> nat option \<Rightarrow> 'd world \<Rightarrow> ('d world \<times> int) res" where
  "process_relay_data env rh cell c conn layer_hint w =
     (if \<not> layer_ok layer_hint (w_circs w c) then Fault Mem_Fault
      else
        let w1 = upd_circ c (add_deliver_window layer_hint (-1)) (w\<lparr>w_data_cells_received := w_data_cells_received w + 1\<rparr>) in
        if deliver_window_at layer_hint (w_circs w1 c) < 0 then
          (case conn of
             None \<Rightarrow> Fault Mem_Fault
           | Some e \<Rightarrow>
               rbind (connection_edge_end env e (of_nat END_STREAM_REASON_TORPROTOCOL)
                        (upd_circ c (set_deliver_window layer_hint 0) w1)) (\<lambda>(w2, _).
               rbind (connection_mark_for_close e w2) (\<lambda>w3. OK (w3, - END_CIRC_REASON_TORPROTOCOL))))
        else
          rbind (circuit_consider_sending_sendme env c layer_hint w1) (\<lambda>w2.
            case conn of
              None \<Rightarrow> OK (w2, 0)
            | Some e \<Rightarrow>
                (let w3 = upd_edge e (\<lambda>ec. ec\<lparr>ec_deliver_window := ec_deliver_window ec - 1\<rparr>) w2 in
                 if ec_deliver_window (w_edges w3 e) < 0 then OK (w3, - END_CIRC_REASON_TORPROTOCOL)
                 else
                   rbind (connection_write_to_edge (take (unat (rh_length rh)) (drop RELAY_HEADER_SIZE (ce_payload cell))) e
                            (w3\<lparr>w_data_bytes_received := w_data_bytes_received w3 + unat (rh_length rh)\<rparr>)) (\<lambda>w4.
                   rbind (connection_edge_consider_sending_sendme env e w4) (\<lambda>w5. OK (w5, 0))))))"

definition process_relay_end ::
  "relay_header \<Rightarrow> cell \<Rightarrow> edge_ref option \<Rightarrow> 'd world \<Rightarrow> ('d world \<times> int) res" where
  "process_relay_end rh cell conn w =
     (let reason = (if rh_length rh > 0 then unat (payload_at cell 0) else END_STREAM_REASON_MISC) in
      case conn of
        None \<Rightarrow> OK (w, 0)
      | Some e \<Rightarrow>
          (let w1 = upd_edge e (\<lambda>ec. ec\<lparr>ec_edge_has_sent_end := True,
                      ec_end_reason := (if ec_end_reason ec = 0 then reason OR END_STREAM_REASON_FLAG_REMOTE else ec_end_reason ec)\<rparr>) w
           in if cn_marked_for_close (w_edges w1 e) then OK (w1, 0)
              else rbind (connection_mark_for_close e w1) (\<lambda>w2.
                OK (upd_edge e (\<lambda>ec. ec\<lparr>cn_hold_open_until_flushed := True\<rparr>) w2, 0))))"

definition process_relay_begin ::
  "'d relay_env \<Rightarrow> cell \<Rightarrow> circ_ref \<Rightarrow> edge_ref option \<Rightarrow> nat option \<Rightarrow> 'd world \<Rightarrow> ('d world \<times> int) res" where
  "process_relay_begin env cell c conn layer_hint w =
     (let circ = w_circs w c in
      if layer_hint \<noteq> None \<and> ci_purpose circ \<noteq> CIRCUIT_PURPOSE_S_REND_JOINED then OK (w, 0)
      else
        rbind (if ci_purpose circ = CIRCUIT_PURPOSE_S_REND_JOINED
               then tor_assert (ci_origin circ)
                 (if ci_cpath circ = [] then Fault Mem_Fault else OK (layer_hint \<noteq> Some (length (ci_cpath circ) - 1)))
               else OK False) (\<lambda>from_intermediary.
          if from_intermediary then OK (w, 0)
          else if conn \<noteq> None then OK (w, 0)
          else en_exit_begin_conn env cell c w))"

definition process_relay_extended ::
  "'d relay_env \<Rightarrow> cell \<Rightarrow> circ_ref \<Rightarrow> nat option \<Rightarrow> 'd world \<Rightarrow> ('d world \<times> int) res" where
  "process_relay_extended env cell c layer_hint w =
     (if layer_hint = None then OK (w, 0)
      else tor_assert (ci_origin (w_circs w c))
        (rbind (circuit_finish_handshake env c CELL_CREATED (drop RELAY_HEADER_SIZE (ce_payload cell)) w) (\<lambda>(w1, reason).
          if reason < 0 then OK (w1, reason)
          else rbind (circuit_send_next_onion_skin env c w1) (\<lambda>(w2, reason).
            if reason < 0 then OK (w2, reason) else OK (w2, 0)))))"

definition process_relay_truncate ::
  "'d relay_env \<Rightarrow> cell \<Rightarrow> circ_ref \<Rightarrow> nat option \<Rightarrow> 'd world \<Rightarrow> ('d world \<times> int) res" where
  "process_relay_truncate env cell c layer_hint w =
     (if layer_hint \<noteq> None then OK (w, 0)
      else
        rbind (case ci_n_conn (w_circs w c) of
                 None \<Rightarrow> OK w
               | Some k \<Rightarrow>
                   rbind (connection_or_send_destroy (en_hw env) (ci_n_circ_id (w_circs w c)) k
                            (int (unat (payload_at cell 0))) w) (\<lambda>w1.
                     circuit_set_n_circid_orconn c 0 None w1)) (\<lambda>w2.
        rbind (relay_send_command_from_edge env 0 c RELAY_COMMAND_TRUNCATED
                 [word_of_int END_CIRC_REASON_REQUESTED] None w2) (\<lambda>(w3, _). OK (w3, 0))))"

text \<open>
  \<^verbatim>\<open>base64_encode\<close> of \<^verbatim>\<open>crypto.c\<close>: the encoding itself is OpenSSL's.
\<close>

definition base64_encode :: "'d relay_env \<Rightarrow> nat \<Rightarrow> byte list \<Rightarrow> byte list option" where
  "base64_encode env destlen src =
     (if destlen < (length src div 48 + 1) * 66 then None else Some (en_evp_encode env src))"

definition process_relay_message ::
  "'d relay_env \<Rightarrow> cell \<Rightarrow> circ_ref \<Rightarrow> 'd world \<Rightarrow> ('d world \<times> int) res" where
  "process_relay_message env cell c w =
     (case base64_encode env 1000 (take RELAY_PAYLOAD_SIZE (drop RELAY_HEADER_SIZE (ce_payload cell))) of
        None \<Rightarrow> OK (w, 0)
      | Some base64Buffer \<Rightarrow>
          rbind (control_event_orcircuit ''PAYMENT'' (tor_strstrip base64Buffer [10]) c
                   (if \<not> ci_origin (w_circs w c) then CELL_DIRECTION_OUT else CELL_DIRECTION_IN) w) (\<lambda>w1. OK (w1, 0)))"

definition add_package_window :: "nat option \<Rightarrow> int \<Rightarrow> 'd circuit \<Rightarrow> 'd circuit" where
  "add_package_window layer_hint n circ = (case layer_hint of
     None \<Rightarrow> circ\<lparr>ci_package_window := ci_package_window circ + n\<rparr>
   | Some layer \<Rightarrow> upd_hop layer (\<lambda>h. h\<lparr>cp_package_window := cp_package_window h + n\<rparr>) circ)"

definition process_relay_sendme ::
  "'d relay_env \<Rightarrow> circ_ref \<Rightarrow> edge_ref option \<Rightarrow> nat option \<Rightarrow> 'd world \<Rightarrow> ('d world \<times> int) res" where
  "process_relay_sendme env c conn layer_hint w =
     (case conn of
        None \<Rightarrow>
          if \<not> layer_ok layer_hint (w_circs w c) then Fault Mem_Fault
          else rbind (circuit_resume_edge_reading env c layer_hint
                       (upd_circ c (add_package_window layer_hint CIRCWINDOW_INCREMENT) w)) (\<lambda>w1. OK (w1, 0))
      | Some e \<Rightarrow>
          rbind (connection_start_reading e
                  (upd_edge e (\<lambda>ec. ec\<lparr>ec_package_window := ec_package_window ec + STREAMWINDOW_INCREMENT\<rparr>) w)) (\<lambda>w1.
          rbind (connection_edge_package_raw_inbuf env e True w1) (\<lambda>(w2, r).
            if r < 0 then rbind (connection_mark_for_close e w2) (\<lambda>w3. OK (w3, 0)) else OK (w2, 0))))"

definition process_relay_resolve ::
  "'d relay_env \<Rightarrow> cell \<Rightarrow> circ_ref \<Rightarrow> edge_ref option \<Rightarrow> nat option \<Rightarrow> 'd world \<Rightarrow> ('d world \<times> int) res" where
  "process_relay_resolve env cell c conn layer_hint w =
     (if layer_hint \<noteq> None then OK (w, 0)
      else if conn \<noteq> None then OK (w, 0)
      else if ci_purpose (w_circs w c) \<noteq> CIRCUIT_PURPOSE_OR then OK (w, 0)
      else tor_assert (\<not> ci_origin (w_circs w c))
        (rbind (en_exit_begin_resolve env cell c w) (\<lambda>w1. OK (w1, 0))))"

text \<open>The commands of hidden services, numbers 32 to 40, are passed to their subsystem.\<close>

definition is_rend_command :: "byte \<Rightarrow> bool" where
  "is_rend_command command \<longleftrightarrow> RELAY_COMMAND_ESTABLISH_INTRO \<le> command \<and> command \<le> RELAY_COMMAND_INTRODUCE_ACK"

definition process_relay_command ::
  "'d relay_env \<Rightarrow> relay_header \<Rightarrow> cell \<Rightarrow> circ_ref \<Rightarrow> edge_ref option \<Rightarrow> nat option \<Rightarrow> 'd world \<Rightarrow> ('d world \<times> int) res" where
  "process_relay_command env rh cell c conn layer_hint w =
     (let command = rh_command rh in
      if command = RELAY_COMMAND_DROP then OK (w, 0)
      else if command = RELAY_COMMAND_BEGIN \<or> command = RELAY_COMMAND_BEGIN_DIR
      then process_relay_begin env cell c conn layer_hint w
      else if command = RELAY_COMMAND_DATA then process_relay_data env rh cell c conn layer_hint w
      else if command = RELAY_COMMAND_END then process_relay_end rh cell conn w
      else if command = RELAY_COMMAND_EXTEND then (if conn \<noteq> None then OK (w, 0) else circuit_extend env cell c w)
      else if command = RELAY_COMMAND_EXTENDED then process_relay_extended env cell c layer_hint w
      else if command = RELAY_COMMAND_TRUNCATE then process_relay_truncate env cell c layer_hint w
      else if command = RELAY_COMMAND_TRUNCATED then
        (case layer_hint of
           None \<Rightarrow> OK (w, 0)
         | Some layer \<Rightarrow> tor_assert (ci_origin (w_circs w c))
             (rbind (circuit_truncated env c layer w) (\<lambda>w1. OK (w1, 0))))
      else if command = RELAY_COMMAND_CONNECTED \<or> command = RELAY_COMMAND_RESOLVED
      then OK (w, if conn \<noteq> None then - END_CIRC_REASON_TORPROTOCOL else 0)
      else if command = RELAY_COMMAND_MESSAGE then process_relay_message env cell c w
      else if command = RELAY_COMMAND_SENDME then process_relay_sendme env c conn layer_hint w
      else if command = RELAY_COMMAND_RESOLVE then process_relay_resolve env cell c conn layer_hint w
      else if is_rend_command command then
        rbind (en_rend_process_relay_cell env c layer_hint command
                (take (unat (rh_length rh)) (drop RELAY_HEADER_SIZE (ce_payload cell))) w) (\<lambda>w1. OK (w1, 0))
      else OK (w, 0))"

definition connection_edge_process_relay_cell ::
  "'d relay_env \<Rightarrow> cell \<Rightarrow> circ_ref \<Rightarrow> edge_ref option \<Rightarrow> nat option \<Rightarrow> 'd world \<Rightarrow> ('d world \<times> int) res" where
  "connection_edge_process_relay_cell env cell c conn layer_hint w =
     (let rh = relay_header_unpack (ce_payload cell) in
      if unat (rh_length rh) > RELAY_PAYLOAD_SIZE then OK (w, - END_CIRC_REASON_TORPROTOCOL)
      else case conn of
        None \<Rightarrow> process_relay_command env rh cell c conn layer_hint w
      | Some e \<Rightarrow>
          if \<not> connection_state_is_open (w_edges w e)
          then connection_edge_process_relay_cell_not_open env rh cell c e w
          else process_relay_command env rh cell c conn layer_hint w)"

subsection \<open>A relay cell arrives\<close>

text \<open>
  \<^verbatim>\<open>circuit_receive_relay_cell\<close>.  At a rendezvous point, a cell that goes out of one circuit goes into the
  other; the second call does not call again.
\<close>

function circuit_receive_relay_cell ::
  "'d relay_env \<Rightarrow> cell \<Rightarrow> circ_ref \<Rightarrow> cell_direction \<Rightarrow> 'd world \<Rightarrow> ('d world \<times> int) res" where
  "circuit_receive_relay_cell env cell c direction w =
     (if ci_marked_for_close (w_circs w c) then OK (w, 0)
      else
        rbind (relay_crypt (en_ops env) (w_circs w c) cell direction) (\<lambda>(circ1, cell1, crypt).
        let w1 = upd_circ c (\<lambda>_. circ1) w in
        if crypt = Crypt_Fail then OK (w1, - END_CIRC_REASON_INTERNAL)
        else
          let w2 = pay_for_cell direction c w1; circ = w_circs w2 c in
          if unpaid c w2 then OK (w2, - END_CIRC_REASON_UNPAID)
          else case crypt of
            Recognized layer_hint \<Rightarrow>
              (let conn = relay_lookup_conn c cell1 direction layer_hint w2 in
               connection_edge_process_relay_cell env cell1 c conn
                 (if direction = CELL_DIRECTION_OUT then None else layer_hint)
                 (w2\<lparr>w_relay_cells_delivered := w_relay_cells_delivered w2 + 1\<rparr>))
          | _ \<Rightarrow>
              if direction = CELL_DIRECTION_IN \<and> ci_origin circ then OK (w2, 0)
              else
                (let cell2 = cell1\<lparr>ce_circ_id := (if direction = CELL_DIRECTION_OUT then ci_n_circ_id circ else ci_p_circ_id circ)\<rparr>
                 in case (if direction = CELL_DIRECTION_OUT then ci_n_conn circ else ci_p_conn circ) of
                   Some k \<Rightarrow>
                     rbind (append_cell_to_circuit_queue (en_hw env) c k cell2 direction
                              (w2\<lparr>w_relay_cells_relayed := w_relay_cells_relayed w2 + 1\<rparr>)) (\<lambda>w3. OK (w3, 0))
                 | None \<Rightarrow>
                     (case ci_rend_splice circ of
                        None \<Rightarrow> OK (w2, - END_CIRC_REASON_TORPROTOCOL)
                      | Some other \<Rightarrow>
                          if ci_origin circ \<or> direction = CELL_DIRECTION_IN then OK (w2, - END_CIRC_REASON_TORPROTOCOL)
                          else
                            tor_assert (ci_purpose circ = CIRCUIT_PURPOSE_REND_ESTABLISHED)
                           (tor_assert (ci_purpose (w_circs w2 other) = CIRCUIT_PURPOSE_REND_ESTABLISHED)
                             (rbind (circuit_receive_relay_cell env
                                      (cell2\<lparr>ce_circ_id := ci_p_circ_id (w_circs w2 other)\<rparr>) other CELL_DIRECTION_IN w2) (\<lambda>(w3, reason).
                               if reason < 0
                               then rbind (circuit_mark_for_close env c (- reason) w3) (\<lambda>w4. OK (w4, reason))
                               else OK (w3, 0))))))))"
  by pat_completeness auto
termination
  by (relation "measure (\<lambda>(env, cell, c, direction, w). if direction = CELL_DIRECTION_OUT then 1 else 0)")
    (auto split: if_splits, metis cell_direction.exhaust)

declare circuit_receive_relay_cell.simps [simp del]

subsection \<open>Whose the cell is\<close>

text \<open>What \<^const>\<open>relay_crypt\<close> does at a relay, by the rule on the bytes of the payload.\<close>

lemma relay_crypt_out_rule:
  fixes circ :: "('d, 'z) circuit_crypto_scheme"
  assumes "\<not> ci_origin circ" and "aes_ok (ci_n_crypto circ)" and "length (ce_payload cell) = CELL_PAYLOAD_SIZE"
    and p: "p = key_layer (ci_n_crypto circ) (ce_payload cell)"
  shows "\<exists>circ'. relay_crypt ops circ cell CELL_DIRECTION_OUT =
    OK (if meant_for ops (ci_n_digest circ) p then (circ', cell\<lparr>ce_payload := cleared_digest p\<rparr>, Recognized None)
        else (circ', cell\<lparr>ce_payload := p\<rparr>, Not_Recognized))"
proof -
  obtain c' where c': "aes_crypt_inplace (ci_n_crypto circ) (ce_payload cell) = OK (c', p)"
    using aes.crypt_total [OF assms(2), of "ce_payload cell"] aes_crypt_layer [OF assms(2)] p by blast
  then have len: "length p = CELL_PAYLOAD_SIZE" using aes_crypt_OK_D(1) [OF assms(2)] assms(3) by simp
  let ?m = "relay_digest_matches ops (ci_n_digest circ) (cell\<lparr>ce_payload := p\<rparr>)"
  note meant = matches_iff_meant [of "cell\<lparr>ce_payload := p\<rparr>" ops "ci_n_digest circ"]
  show ?thesis
  proof (cases "meant_for ops (ci_n_digest circ) p")
    case True
    have "snd (snd ?m) = cell\<lparr>ce_payload := cleared_digest p\<rparr>"
      using meant True len header_bytes(2) [OF payload_header [OF len], of "replicate 4 0"]
      by (auto simp: relay_digest_matches_def Let_def cleared_digest_def split: if_splits)
    with True meant len c' assms(1) show ?thesis
      by (cases ?m) (auto simp: relay_crypt_def relay_crypt_one_payload_def)
  next
    case False
    with relay_crypt_out_step [OF assms(1) c' len, of ops] len meant show ?thesis by auto
  qed
qed

lemma relay_crypt_in_rule:
  assumes "\<not> ci_origin circ" and "aes_ok (ci_p_crypto circ)"
  shows "\<exists>circ'. relay_crypt ops circ cell CELL_DIRECTION_IN =
    OK (circ', cell\<lparr>ce_payload := key_layer (ci_p_crypto circ) (ce_payload cell)\<rparr>, Not_Recognized)"
  using aes.crypt_total [OF assms(2), of "ce_payload cell"] aes_crypt_layer [OF assms(2), of "ce_payload cell"] assms(1)
  by (fastforce simp: relay_crypt_def relay_crypt_one_payload_def)

lemma key_layer_length: "length (key_layer c p) = length p"
  by (simp add: key_layer_def)

lemma cleared_digest_header:
  assumes "length p = CELL_PAYLOAD_SIZE"
  shows "relay_header_unpack (cleared_digest p) = relay_header_unpack p\<lparr>rh_integrity := replicate 4 0\<rparr>"
    and "relay_body (cleared_digest p) = relay_body p"
proof -
  show h: "relay_header_unpack (cleared_digest p) = relay_header_unpack p\<lparr>rh_integrity := replicate 4 0\<rparr>"
    using header_bytes(2) [OF payload_header [OF assms], of "replicate 4 0"]
      relay_header_unpack_pack [of "relay_header_unpack p\<lparr>rh_integrity := replicate 4 0\<rparr>" p]
    by (simp add: cleared_digest_def)
  have "drop RELAY_HEADER_SIZE (cleared_digest p) = drop RELAY_HEADER_SIZE p"
    using assms by (simp add: cleared_digest_def cell_sizes)
  then show "relay_body (cleared_digest p) = relay_body p" by (simp add: relay_body_def h)
qed

subsection \<open>Cells that are passed on\<close>

text \<open>Decryption changes the ciphers and digests of the circuit and the payload of the cell, nothing else.\<close>

definition same_but_crypto :: "'d circuit \<Rightarrow> 'd circuit \<Rightarrow> bool" where
  "same_but_crypto ci ci' \<longleftrightarrow> ci' = ci\<lparr>ci_cpath := ci_cpath ci', ci_n_crypto := ci_n_crypto ci', ci_p_crypto := ci_p_crypto ci',
     ci_n_digest := ci_n_digest ci', ci_p_digest := ci_p_digest ci'\<rparr>"

lemma relay_crypt_same:
  assumes "relay_crypt ops circ cell dir = OK (circ', cell', r)"
  shows "same_but_crypto circ circ'"
  using assms unfolding same_but_crypto_def relay_crypt_def
  by (cases dir) (auto simp: res_simps Let_def split: if_splits prod.splits)

lemma same_but_crypto_D:
  assumes "same_but_crypto ci ci'"
  shows "ci_origin ci' = ci_origin ci" "ci_n_conn ci' = ci_n_conn ci" "ci_p_conn ci' = ci_p_conn ci"
    "ci_n_circ_id ci' = ci_n_circ_id ci" "ci_p_circ_id ci' = ci_p_circ_id ci" "ring_part ci' = ring_part ci"
    "ci_payedReads ci' = ci_payedReads ci" "ci_payedWrites ci' = ci_payedWrites ci"
    "ci_rend_splice ci' = ci_rend_splice ci" "ci_purpose ci' = ci_purpose ci" "ci_deliver_window ci' = ci_deliver_window ci"
    "ci_n_streams ci' = ci_n_streams ci" "ci_marked_for_close ci' = ci_marked_for_close ci"
    "ci_package_window ci' = ci_package_window ci" "ci_resolving_streams ci' = ci_resolving_streams ci"
    "ci_remaining_relay_early_cells ci' = ci_remaining_relay_early_cells ci"
  by (subst assms [unfolded same_but_crypto_def], simp add: ring_part_def)+

lemma affordable_same: "same_but_crypto ci ci' \<Longrightarrow> affordable b dir ci' = affordable b dir ci"
  by (cases dir) (simp_all add: affordable_def paid_circ_def same_but_crypto_D)

text \<open>A cell that is not recognized, on a circuit that is paid for and goes on.\<close>

definition next_conn :: "cell_direction \<Rightarrow> 'd circuit \<Rightarrow> conn_ref option" where
  "next_conn dir ci = (if dir = CELL_DIRECTION_OUT then ci_n_conn ci else ci_p_conn ci)"

definition next_circ_id :: "cell_direction \<Rightarrow> 'd circuit \<Rightarrow> u16" where
  "next_circ_id dir ci = (if dir = CELL_DIRECTION_OUT then ci_n_circ_id ci else ci_p_circ_id ci)"

lemma receive_passes_on:
  assumes ok: "circuits_ok w R" and m: "\<not> ci_marked_for_close (w_circs w c)" and orig: "\<not> ci_origin (w_circs w c)"
    and crypt: "relay_crypt (en_ops env) (w_circs w c) cell dir = OK (circ1, cell1, Not_Recognized)"
    and len: "length (ce_payload cell1) = CELL_PAYLOAD_SIZE"
    and paid: "affordable (w_CloseUnpaid w) dir (w_circs w c)" and k: "next_conn dir (w_circs w c) = Some k"
    and wq: "outbuf_of w k = [] \<longrightarrow> write_is_queued k CELL_NETWORK_SIZE w" and hw: "\<forall>k w. same_streams w (fst (en_hw env k w))"
  shows "\<exists>w' R'. circuit_receive_relay_cell env cell c dir w = OK (w', 0) \<and> circuits_ok w' R' \<and>
    abs_sched w' R' = sched_append k c (cell_pack (on_wire w k (cell1\<lparr>ce_circ_id := next_circ_id dir (w_circs w c)\<rparr>))) (abs_sched w R) \<and>
    ci_remaining_relay_early_cells (w_circs w' c) = ci_remaining_relay_early_cells (w_circs w c)"
proof -
  note same = relay_crypt_same [OF crypt]
  note D = same_but_crypto_D [OF same]
  let ?w1 = "upd_circ c (\<lambda>_. circ1) w" and ?cell = "cell1\<lparr>ce_circ_id := next_circ_id dir (w_circs w c)\<rparr>"
  let ?w2 = "pay_for_cell dir c ?w1"
  let ?v = "?w2\<lparr>w_relay_cells_relayed := w_relay_cells_relayed ?w2 + 1\<rparr>"
  have np: "\<not> unpaid c ?w2"
    using affordable_unpaid [of ?w1 dir c] paid affordable_same [OF same] by simp
  have same2: "same_rings w ?v" by (simp add: same_rings_def pay_for_cell_eq upd_circ_def D(6))
  have wo: "writes_on w c k dir" using k orig by (cases dir) (simp_all add: writes_on_def next_conn_def)
  obtain w' R' where q: "append_cell_to_circuit_queue (en_hw env) c k ?cell dir ?v = OK w'" "circuits_ok w' R'"
    "abs_sched w' R' = sched_append k c (cell_pack (on_wire w k ?cell)) (abs_sched w R)" "same_streams ?v w'"
    using queue_packaged [OF ok wo _ wq hw same2, of ?cell] len by auto
  have early: "ci_remaining_relay_early_cells (w_circs w' c) = ci_remaining_relay_early_cells (w_circs w c)"
    using mask_circ_D(18) [OF same_streams_D(1) [OF q(4), of c]] D by (simp add: pay_for_cell_eq)
  have c2: "ci_origin (w_circs ?w2 c) = False" "ci_n_conn (w_circs ?w2 c) = ci_n_conn (w_circs w c)"
    "ci_p_conn (w_circs ?w2 c) = ci_p_conn (w_circs w c)" "ci_n_circ_id (w_circs ?w2 c) = ci_n_circ_id (w_circs w c)"
    "ci_p_circ_id (w_circs ?w2 c) = ci_p_circ_id (w_circs w c)"
    using orig D by (cases dir; simp add: pay_for_cell_eq paid_circ_def)+
  have "circuit_receive_relay_cell env cell c dir w = OK (w', 0)"
    using m np q(1) k crypt c2
    by (cases dir) (simp_all add: circuit_receive_relay_cell.simps [of env cell c _ w] Let_def next_conn_def next_circ_id_def)
  with q(2,3) early show ?thesis by blast
qed

text \<open>A circuit that is not paid for gets no service: the cell is neither delivered nor passed on.\<close>

lemma receive_unpaid:
  assumes m: "\<not> ci_marked_for_close (w_circs w c)"
    and crypt: "relay_crypt (en_ops env) (w_circs w c) cell dir = OK (circ1, cell1, r)" and r: "r \<noteq> Crypt_Fail"
    and paid: "\<not> affordable (w_CloseUnpaid w) dir (w_circs w c)"
  shows "circuit_receive_relay_cell env cell c dir w =
    OK (upd_circ c (\<lambda>_. paid_circ (w_CloseUnpaid w) dir circ1) w, - END_CIRC_REASON_UNPAID)"
proof -
  let ?w2 = "pay_for_cell dir c (upd_circ c (\<lambda>_. circ1) w)"
  have w2: "?w2 = upd_circ c (\<lambda>_. paid_circ (w_CloseUnpaid w) dir circ1) w" by (simp add: pay_for_cell_eq upd_circ_def)
  have "\<not> affordable (w_CloseUnpaid w) dir circ1" using paid affordable_same [OF relay_crypt_same [OF crypt]] by simp
  then have "unpaid c ?w2" unfolding w2 by (auto simp: affordable_def unpaid_def not_le)
  with m r show ?thesis unfolding circuit_receive_relay_cell.simps [of env cell c _ w]
    by (simp add: crypt Let_def w2)
qed

subsection \<open>Data delivered at an exit\<close>

text \<open>An exit stream that can deliver data and acknowledge it.\<close>

definition exit_edge_ok :: "edge_ref \<Rightarrow> circ_ref \<Rightarrow> conn_ref \<Rightarrow> (conn_ref \<Rightarrow> circ_ref list) \<Rightarrow> 'd world \<Rightarrow> bool" where
  "exit_edge_ok e c k R w \<longleftrightarrow> circuits_ok w R \<and> \<not> ci_origin (w_circs w c) \<and> ci_p_conn (w_circs w c) = Some k \<and>
     aes_ok (ci_p_crypto (w_circs w c)) \<and> ci_payedWrites (w_circs w c) \<ge> - CIRCWINDOW_INCREMENT \<and>
     (outbuf_of w k = [] \<longrightarrow> write_is_queued k CELL_NETWORK_SIZE w) \<and>
     ec_on_circuit (w_edges w e) = Some c \<and> ec_cpath_layer (w_edges w e) = None \<and> \<not> cn_marked_for_close (w_edges w e) \<and>
     buf_inv (w_alloc w) (cn_outbuf (w_edges w e))"

text \<open>Commands sealed one after another and queued towards the origin.\<close>

definition crypt_state :: "circ_ref \<Rightarrow> 'd world \<Rightarrow> 'd \<times> aes_cnt_cipher" where
  "crypt_state c w = (ci_p_digest (w_circs w c), ci_p_crypto (w_circs w c))"

definition sealed_sent ::
  "'d relay_env \<Rightarrow> circ_ref \<Rightarrow> conn_ref \<Rightarrow> (u16 \<times> byte \<times> byte list) list \<Rightarrow> (conn_ref \<Rightarrow> circ_ref list) \<Rightarrow> 'd world \<Rightarrow>
   (conn_ref \<Rightarrow> circ_ref list) \<Rightarrow> 'd world \<Rightarrow> bool" where
  "sealed_sent env c k cmds R w R' w' \<longleftrightarrow> (\<exists>cells.
     seal_cells (en_ops env) (crypt_state c w)
       (map (\<lambda>(sid, cmd, payload). relay_cell (ci_p_circ_id (w_circs w c)) sid cmd payload) cmds) = OK (crypt_state c w', cells) \<and>
     abs_sched w' R' = fold (\<lambda>cell. sched_append k c (cell_pack cell)) cells (abs_sched w R)) \<and>
     ci_p_circ_id (w_circs w' c) = ci_p_circ_id (w_circs w c)"

lemma sealed_sent_Nil: "crypt_state c w' = crypt_state c w \<Longrightarrow> abs_sched w' R' = abs_sched w R \<Longrightarrow>
    ci_p_circ_id (w_circs w' c) = ci_p_circ_id (w_circs w c) \<Longrightarrow> sealed_sent env c k [] R w R' w'"
  by (simp add: sealed_sent_def)

lemma seal_cells_append:
  "seal_cells ops da (xs @ ys) = rbind (seal_cells ops da xs) (\<lambda>(da1, xs'). rbind (seal_cells ops da1 ys) (\<lambda>(da2, ys'). OK (da2, xs' @ ys')))"
proof (induction xs arbitrary: da)
  case Nil
  then show ?case by (cases "seal_cells ops da ys") auto
next
  case (Cons x xs)
  show ?case
  proof (cases "seal_cell ops da x")
    case (OK p)
    obtain da1 x1 where p: "p = (da1, x1)" by (cases p)
    show ?thesis
    proof (cases "seal_cells ops da1 xs")
      case (OK q)
      obtain da2 xs' where q: "q = (da2, xs')" by (cases q)
      show ?thesis using OK \<open>seal_cell ops da x = OK p\<close> p q Cons [of da1]
        by (cases "seal_cells ops da2 ys") (auto simp: split_beta)
    qed (use OK p Cons [of da1] in simp)
  qed simp
qed

lemma sealed_sent_append:
  assumes "sealed_sent env c k xs R w R1 w1" and "sealed_sent env c k ys R1 w1 R' w'"
  shows "sealed_sent env c k (xs @ ys) R w R' w'"
proof -
  let ?f = "\<lambda>w (sid, cmd, payload). relay_cell (ci_p_circ_id (w_circs w c)) sid cmd payload"
  obtain xc where x: "seal_cells (en_ops env) (crypt_state c w) (map (?f w) xs) = OK (crypt_state c w1, xc)"
    "abs_sched w1 R1 = fold (\<lambda>cell. sched_append k c (cell_pack cell)) xc (abs_sched w R)"
    "ci_p_circ_id (w_circs w1 c) = ci_p_circ_id (w_circs w c)"
    using assms(1) unfolding sealed_sent_def by blast
  obtain yc where y: "seal_cells (en_ops env) (crypt_state c w1) (map (?f w1) ys) = OK (crypt_state c w', yc)"
    "abs_sched w' R' = fold (\<lambda>cell. sched_append k c (cell_pack cell)) yc (abs_sched w1 R1)"
    "ci_p_circ_id (w_circs w' c) = ci_p_circ_id (w_circs w1 c)"
    using assms(2) unfolding sealed_sent_def by blast
  have "seal_cells (en_ops env) (crypt_state c w) (map (?f w) (xs @ ys)) = OK (crypt_state c w', xc @ yc)"
    using x(1) y(1) by (simp add: seal_cells_append x(3))
  then show ?thesis unfolding sealed_sent_def using x y by (intro conjI exI [of _ "xc @ yc"]) simp_all
qed

text \<open>What one command sent towards the origin changes, and what it leaves alone.\<close>

definition deliver_state :: "edge_ref \<Rightarrow> circ_ref \<Rightarrow> 'd world \<Rightarrow> (int \<times> int) \<times> buf \<times> u16 \<times> nat \<times> int \<times> bool" where
  "deliver_state e c w = ((ci_deliver_window (w_circs w c), ec_deliver_window (w_edges w e)), cn_outbuf (w_edges w e),
     ec_stream_id (w_edges w e), cn_outbuf_flushlen (w_edges w e), ci_payedWrites (w_circs w c), w_CloseUnpaid w)"

definition fee :: "'d world \<Rightarrow> nat \<Rightarrow> int" where
  "fee w n = (if w_CloseUnpaid w then int n else 0)"

lemma exit_edge_ok_D:
  assumes "exit_edge_ok e c k R w"
  shows "circuits_ok w R" "\<not> ci_origin (w_circs w c)" "ci_p_conn (w_circs w c) = Some k" "aes_ok (ci_p_crypto (w_circs w c))"
    "ci_payedWrites (w_circs w c) \<ge> - CIRCWINDOW_INCREMENT" "outbuf_of w k = [] \<longrightarrow> write_is_queued k CELL_NETWORK_SIZE w"
    "ec_on_circuit (w_edges w e) = Some c" "ec_cpath_layer (w_edges w e) = None" "\<not> cn_marked_for_close (w_edges w e)"
    "buf_inv (w_alloc w) (cn_outbuf (w_edges w e))"
  using assms unfolding exit_edge_ok_def by auto

lemma send_to_origin:
  assumes S: "exit_edge_ok e c k R w" and paid: "- CIRCWINDOW_INCREMENT \<le> ci_payedReads (w_circs w c) - fee w 1"
    and len: "length payload \<le> RELAY_PAYLOAD_SIZE"
    and dl: "digest_lengths (en_ops env)" and hw: "\<forall>k w. same_streams w (fst (en_hw env k w))"
  obtains w' R' where "relay_send_command_from_edge env sid c cmd payload None w = OK (w', 0)" "exit_edge_ok e c k R' w'"
    "sealed_sent env c k [(sid, cmd, payload)] R w R' w'" "deliver_state e c w' = deliver_state e c w"
    "ci_payedReads (w_circs w' c) = ci_payedReads (w_circs w c) - fee w 1"
proof -
  note D = exit_edge_ok_D [OF S]
  have aff: "affordable (w_CloseUnpaid w) CELL_DIRECTION_IN (w_circs w c)"
    using paid D(5) by (auto simp: affordable_def paid_circ_def fee_def)
  obtain circ' cell' w' R' v where s: "package_in (en_ops env) (paid_circ (w_CloseUnpaid w) CELL_DIRECTION_IN (w_circs w c))
       (relay_cell (ci_p_circ_id (w_circs w c)) sid cmd payload) = OK (circ', cell')"
    "relay_send_command_from_edge env sid c cmd payload None w = OK (w', 0)" "circuits_ok w' R'"
    "abs_sched w' R' = sched_append k c (cell_pack cell') (abs_sched w R)"
    "v = (upd_circ c (\<lambda>_. circ') w)\<lparr>w_relay_cells_relayed := w_relay_cells_relayed w + 1\<rparr>" "same_streams v w'"
    "\<exists>d a. aes_ok a \<and> circ' = (paid_circ (w_CloseUnpaid w) CELL_DIRECTION_IN (w_circs w c))\<lparr>ci_p_digest := d, ci_p_crypto := a\<rparr>"
    "length (ce_payload cell') = CELL_PAYLOAD_SIZE"
    by (rule send_in [OF D(1-3) aff len D(4) dl D(6) hw])
  from s(1) obtain d a where da: "seal_cell (en_ops env) (crypt_state c w)
      (relay_cell (ci_p_circ_id (w_circs w c)) sid cmd payload) = OK ((d, a), cell')"
    "circ' = (paid_circ (w_CloseUnpaid w) CELL_DIRECTION_IN (w_circs w c))\<lparr>ci_p_digest := d, ci_p_crypto := a\<rparr>"
    unfolding package_in_seal crypt_state_def by auto
  note ss = same_streams_D [OF s(6), unfolded s(5), simplified]
  note mc = mask_circ_D [OF ss(1) [of c], simplified]
  note me = mask_edge_D [OF ss(2) [of e]]
  have aes: "aes_ok (ci_p_crypto circ')" using s(7) by auto
  have "cell_pack cell' \<noteq> []" by (simp add: cell_pack_def be16_def)
  then have "sc_out (abs_sched w' R') k \<noteq> []"
    unfolding s(4) using abs_sched_nonempty [OF D(1)] by (intro sched_append_nonempty) blast+
  then have out: "outbuf_of w' k \<noteq> []" by (simp add: abs_sched_def)
  have inv: "buf_inv (w_alloc w') (cn_outbuf (w_edges w e))"
    using buf_inv_same_build [OF D(10) ss(4)] circuits_ok_D(1) [OF s(3)] by (auto simp: or_conns_wf_def buf_inv_iff)
  have "exit_edge_ok e c k R' w'"
    unfolding exit_edge_ok_def using s(3) D mc me aes out inv by (simp add: da(2) paid_circ_def)
  moreover have "sealed_sent env c k [(sid, cmd, payload)] R w R' w'"
    unfolding sealed_sent_def using da s(4) mc by (simp add: crypt_state_def)
  moreover have "deliver_state e c w' = deliver_state e c w" "ci_payedReads (w_circs w' c) = ci_payedReads (w_circs w c) - fee w 1"
    using mc me ss(3) by (simp_all add: deliver_state_def da(2) paid_circ_def fee_def)
  ultimately show thesis using that s(2) by blast
qed

text \<open>
  Acknowledgements: \<open>n\<close> commands sent, each of which moves the window of the circuit by \<open>a\<close> and that of
  the stream by \<open>b\<close>.
\<close>

definition moved :: "int \<Rightarrow> int \<Rightarrow> (int \<times> int) \<times> 'x \<Rightarrow> (int \<times> int) \<times> 'x" where
  "moved a b s = ((fst (fst s) + a, snd (fst s) + b), snd s)"

definition acked ::
  "'d relay_env \<Rightarrow> edge_ref \<Rightarrow> circ_ref \<Rightarrow> conn_ref \<Rightarrow> u16 \<times> byte \<times> byte list \<Rightarrow> int \<Rightarrow> int \<Rightarrow> nat \<Rightarrow>
   (conn_ref \<Rightarrow> circ_ref list) \<Rightarrow> 'd world \<Rightarrow> (conn_ref \<Rightarrow> circ_ref list) \<Rightarrow> 'd world \<Rightarrow> bool" where
  "acked env e c k cmd a b n R w R' w' \<longleftrightarrow> exit_edge_ok e c k R' w' \<and> sealed_sent env c k (replicate n cmd) R w R' w' \<and>
     deliver_state e c w' = moved (int n * a) (int n * b) (deliver_state e c w) \<and>
     ci_payedReads (w_circs w' c) = ci_payedReads (w_circs w c) - fee w n"

lemma acked_0: "exit_edge_ok e c k R w \<Longrightarrow> acked env e c k cmd a b 0 R w R w"
  by (simp add: acked_def sealed_sent_Nil moved_def fee_def)

lemma acked_Suc:
  assumes "acked env e c k cmd a b 1 R w R1 w1" and "acked env e c k cmd a b n R1 w1 R' w'"
  shows "acked env e c k cmd a b (Suc n) R w R' w'"
proof -
  have "w_CloseUnpaid w1 = w_CloseUnpaid w" using assms(1) by (simp add: acked_def moved_def deliver_state_def)
  then have "fee w 1 + fee w1 n = fee w (Suc n)" by (simp add: fee_def)
  moreover have "sealed_sent env c k (replicate (Suc n) cmd) R w R' w'"
    using sealed_sent_append [of env c k "[cmd]" R w R1 w1 "replicate n cmd" R' w'] assms by (simp add: acked_def)
  ultimately show ?thesis using assms by (simp add: acked_def moved_def algebra_simps)
qed

text \<open>How often a window below the limit is raised.\<close>

definition acks_due :: "int \<Rightarrow> int \<Rightarrow> int \<Rightarrow> nat" where
  "acks_due start inc window = nat ((start - 1 - window) div inc)"

lemma acks_due_pos: "0 < inc \<Longrightarrow> 0 < acks_due start inc window \<longleftrightarrow> window < start - inc"
proof -
  assume "0 < inc"
  then have "0 < (start - 1 - window) div inc \<longleftrightarrow> inc \<le> start - 1 - window" by (rule pos_imp_zdiv_pos_iff)
  then show ?thesis by (auto simp: acks_due_def)
qed

lemma acks_due_step: "0 < inc \<Longrightarrow> acks_due start inc (window + inc) = acks_due start inc window - 1"
proof -
  assume "0 < inc"
  then have "(start - 1 - (window + inc)) div inc = (start - 1 - window) div inc - 1"
    using div_mult_self1 [of inc "start - 1 - window" "-1"] by (simp add: algebra_simps)
  then show ?thesis by (simp add: acks_due_def)
qed

lemma ack_loop:
  assumes step: "\<And>R w. exit_edge_ok e c k R w \<Longrightarrow> 0 < due (deliver_state e c w) \<Longrightarrow> snd (deliver_state e c w) = rest \<Longrightarrow>
      - CIRCWINDOW_INCREMENT \<le> ci_payedReads (w_circs w c) - fee w 1 \<Longrightarrow>
      \<exists>w' R'. body w = OK (w', None) \<and> acked env e c k cmd a b 1 R w R' w'"
    and stop: "\<And>w. due (deliver_state e c w) = 0 \<Longrightarrow> body w = OK (w, Some ())"
    and due: "\<And>s. due (moved a b s) = due s - 1"
    and "exit_edge_ok e c k R w" and "n = due (deliver_state e c w)" and "snd (deliver_state e c w) = rest"
    and "- CIRCWINDOW_INCREMENT \<le> ci_payedReads (w_circs w c) - fee w n"
  shows "\<exists>w' R'. iterate body w = Some (OK (w', ())) \<and> acked env e c k cmd a b n R w R' w'"
  using assms(4-)
proof (induction n arbitrary: w R)
  case 0
  have "body w = OK (w, Some ())" using stop 0(2) by simp
  then have "iterate body w = Some (OK (w, ()))" by (subst iterate.simps) simp
  with acked_0 [OF 0(1)] show ?case by blast
next
  case (Suc n)
  have "- CIRCWINDOW_INCREMENT \<le> ci_payedReads (w_circs w c) - fee w 1" using Suc.prems(4) by (auto simp: fee_def split: if_splits)
  with step [OF Suc.prems(1)] Suc.prems(2,3) obtain w1 R1 where
    1: "body w = OK (w1, None)" "acked env e c k cmd a b 1 R w R1 w1" by auto
  from 1(2) have same: "w_CloseUnpaid w1 = w_CloseUnpaid w" by (simp add: acked_def moved_def deliver_state_def)
  have "n = due (deliver_state e c w1)" using 1(2) due Suc.prems(2) by (simp add: acked_def)
  moreover have "- CIRCWINDOW_INCREMENT \<le> ci_payedReads (w_circs w1 c) - fee w1 n"
    using 1(2) Suc.prems(4) same by (simp add: acked_def fee_def split: if_splits)
  moreover have "snd (deliver_state e c w1) = rest" using 1(2) Suc.prems(3) by (simp add: acked_def moved_def)
  ultimately obtain w' R' where "iterate body w1 = Some (OK (w', ()))" "acked env e c k cmd a b n R1 w1 R' w'"
    using Suc.IH [of R1 w1] 1(2) by (auto simp: acked_def)
  moreover have "iterate body w = iterate body w1" by (subst iterate.simps) (simp add: 1(1))
  ultimately show ?case using acked_Suc [OF 1(2)] by metis
qed

lemma exit_edge_ok_upd:
  assumes "exit_edge_ok e c k R w"
  shows "exit_edge_ok e c k R (upd_circ c (add_deliver_window None n) w)"
    "exit_edge_ok e c k R (upd_edge e (\<lambda>ec. ec\<lparr>ec_deliver_window := ec_deliver_window ec + n\<rparr>) w)"
proof -
  have "same_rings w (upd_circ c (add_deliver_window None n) w)"
    by (simp add: same_rings_def upd_circ_def ring_part_def add_deliver_window_def)
  from same_rings_ok [OF this] same_rings_views [OF this]
  show "exit_edge_ok e c k R (upd_circ c (add_deliver_window None n) w)"
    using assms by (simp add: exit_edge_ok_def add_deliver_window_def)
  show "exit_edge_ok e c k R (upd_edge e (\<lambda>ec. ec\<lparr>ec_deliver_window := ec_deliver_window ec + n\<rparr>) w)"
    using assms by (simp add: exit_edge_ok_def upd_edge_def circuits_ok_edges outbuf_of_def write_is_queued_def)
qed

lemmas window_sizes = CIRCWINDOW_INCREMENT_def CIRCWINDOW_START_def STREAMWINDOW_INCREMENT_def STREAMWINDOW_START_def

lemma circuit_acks:
  assumes S: "exit_edge_ok e c k R w" and dl: "digest_lengths (en_ops env)" and hw: "\<forall>k w. same_streams w (fst (en_hw env k w))"
    and n: "n = acks_due CIRCWINDOW_START CIRCWINDOW_INCREMENT (ci_deliver_window (w_circs w c))"
    and paid: "- CIRCWINDOW_INCREMENT \<le> ci_payedReads (w_circs w c) - fee w n"
  shows "\<exists>w' R'. iterate (circuit_sendme_pass env c None) w = Some (OK (w', ())) \<and>
    acked env e c k (0, RELAY_COMMAND_SENDME, []) CIRCWINDOW_INCREMENT 0 n R w R' w'"
proof (rule ack_loop [where due = "\<lambda>s. acks_due CIRCWINDOW_START CIRCWINDOW_INCREMENT (fst (fst s))" and rest = "snd (deliver_state e c w)"])
  fix R and w :: "'a world"
  let ?w = "upd_circ c (add_deliver_window None CIRCWINDOW_INCREMENT) w"
  assume S: "exit_edge_ok e c k R w" and d: "0 < acks_due CIRCWINDOW_START CIRCWINDOW_INCREMENT (fst (fst (deliver_state e c w)))"
    and p: "- CIRCWINDOW_INCREMENT \<le> ci_payedReads (w_circs w c) - fee w 1"
  have same: "same_rings w ?w" by (simp add: same_rings_def upd_circ_def ring_part_def add_deliver_window_def)
  have p': "- CIRCWINDOW_INCREMENT \<le> ci_payedReads (w_circs ?w c) - fee ?w 1" using p by (simp add: add_deliver_window_def fee_def)
  have len: "length ([] :: byte list) \<le> RELAY_PAYLOAD_SIZE" by simp
  obtain w' R' where "relay_send_command_from_edge env 0 c RELAY_COMMAND_SENDME [] None ?w = OK (w', 0)" "exit_edge_ok e c k R' w'"
    "sealed_sent env c k [(0, RELAY_COMMAND_SENDME, [])] R ?w R' w'" "deliver_state e c w' = deliver_state e c ?w"
    "ci_payedReads (w_circs w' c) = ci_payedReads (w_circs ?w c) - fee ?w 1"
    by (rule send_to_origin [OF exit_edge_ok_upd(1) [OF S] p' len dl hw])
  then have "circuit_sendme_pass env c None w = OK (w', None)"
      "acked env e c k (0, RELAY_COMMAND_SENDME, []) CIRCWINDOW_INCREMENT 0 1 R w R' w'"
    using d acks_due_pos [of CIRCWINDOW_INCREMENT CIRCWINDOW_START] same_rings_ok(2) [OF same]
    by (auto simp: circuit_sendme_pass_def deliver_window_at_def deliver_state_def acked_def moved_def
        add_deliver_window_def sealed_sent_def crypt_state_def fee_def window_sizes)
  then show "\<exists>w' R'. circuit_sendme_pass env c None w = OK (w', None) \<and>
      acked env e c k (0, RELAY_COMMAND_SENDME, []) CIRCWINDOW_INCREMENT 0 1 R w R' w'" by blast
next
  fix w :: "'a world"
  assume "acks_due CIRCWINDOW_START CIRCWINDOW_INCREMENT (fst (fst (deliver_state e c w))) = 0"
  then show "circuit_sendme_pass env c None w = OK (w, Some ())"
    using acks_due_pos [of CIRCWINDOW_INCREMENT CIRCWINDOW_START "ci_deliver_window (w_circs w c)"]
    by (auto simp: circuit_sendme_pass_def deliver_window_at_def deliver_state_def window_sizes)
qed (use S n paid in \<open>simp_all add: deliver_state_def moved_def acks_due_step window_sizes\<close>)

lemma stream_acks:
  assumes S: "exit_edge_ok e c k R w" and dl: "digest_lengths (en_ops env)" and hw: "\<forall>k w. same_streams w (fst (en_hw env k w))"
    and sid: "ec_stream_id (w_edges w e) = sid"
    and n: "n = acks_due STREAMWINDOW_START STREAMWINDOW_INCREMENT (ec_deliver_window (w_edges w e))"
    and paid: "- CIRCWINDOW_INCREMENT \<le> ci_payedReads (w_circs w c) - fee w n"
  shows "\<exists>w' R'. iterate (stream_sendme_pass env e) w = Some (OK (w', ())) \<and>
    acked env e c k (sid, RELAY_COMMAND_SENDME, []) 0 STREAMWINDOW_INCREMENT n R w R' w'"
proof (rule ack_loop [where due = "\<lambda>s. acks_due STREAMWINDOW_START STREAMWINDOW_INCREMENT (snd (fst s))" and rest = "snd (deliver_state e c w)"])
  fix R and v :: "'a world"
  let ?v = "upd_edge e (\<lambda>ec. ec\<lparr>ec_deliver_window := ec_deliver_window ec + STREAMWINDOW_INCREMENT\<rparr>) v"
  assume V: "exit_edge_ok e c k R v" and d: "0 < acks_due STREAMWINDOW_START STREAMWINDOW_INCREMENT (snd (fst (deliver_state e c v)))"
    and p: "- CIRCWINDOW_INCREMENT \<le> ci_payedReads (w_circs v c) - fee v 1"
    and "snd (deliver_state e c v) = snd (deliver_state e c w)"
  then have sid': "ec_stream_id (w_edges v e) = sid" using sid by (simp add: deliver_state_def)
  note D = exit_edge_ok_D [OF V]
  have same: "same_rings v ?v" by (simp add: same_rings_def upd_edge_def)
  have p': "- CIRCWINDOW_INCREMENT \<le> ci_payedReads (w_circs ?v c) - fee ?v 1" using p by (simp add: fee_def)
  have len: "length ([] :: byte list) \<le> RELAY_PAYLOAD_SIZE" by simp
  obtain w' R' where "relay_send_command_from_edge env sid c RELAY_COMMAND_SENDME [] None ?v = OK (w', 0)" "exit_edge_ok e c k R' w'"
    "sealed_sent env c k [(sid, RELAY_COMMAND_SENDME, [])] R ?v R' w'" "deliver_state e c w' = deliver_state e c ?v"
    "ci_payedReads (w_circs w' c) = ci_payedReads (w_circs ?v c) - fee ?v 1"
    by (rule send_to_origin [OF exit_edge_ok_upd(2) [OF V] p' len dl hw])
  then have "stream_sendme_pass env e v = OK (w', None)"
      "acked env e c k (sid, RELAY_COMMAND_SENDME, []) 0 STREAMWINDOW_INCREMENT 1 R v R' w'"
    using d acks_due_pos [of STREAMWINDOW_INCREMENT STREAMWINDOW_START] same_rings_ok(2) [OF same] D(7-9) sid'
    by (auto simp: stream_sendme_pass_def connection_edge_send_command_def deliver_state_def acked_def moved_def
        sealed_sent_def crypt_state_def fee_def window_sizes)
  then show "\<exists>w' R'. stream_sendme_pass env e v = OK (w', None) \<and>
      acked env e c k (sid, RELAY_COMMAND_SENDME, []) 0 STREAMWINDOW_INCREMENT 1 R v R' w'" by blast
next
  fix v :: "'a world"
  assume "acks_due STREAMWINDOW_START STREAMWINDOW_INCREMENT (snd (fst (deliver_state e c v))) = 0"
  then show "stream_sendme_pass env e v = OK (v, Some ())"
    using acks_due_pos [of STREAMWINDOW_INCREMENT STREAMWINDOW_START "ec_deliver_window (w_edges v e)"]
    by (auto simp: stream_sendme_pass_def deliver_state_def window_sizes)
qed (use S n paid in \<open>simp_all add: deliver_state_def moved_def acks_due_step window_sizes\<close>)

text \<open>The acknowledgements that a DATA cell causes, from the state before it.\<close>

definition circuit_acks_due :: "circ_ref \<Rightarrow> 'd world \<Rightarrow> nat" where
  "circuit_acks_due c w = (let d = ci_deliver_window (w_circs w c) - 1 in
     if ci_payedWrites (w_circs w c) \<le> d then 0 else acks_due CIRCWINDOW_START CIRCWINDOW_INCREMENT d)"

definition stream_acks_due :: "edge_ref \<Rightarrow> nat \<Rightarrow> 'd world \<Rightarrow> nat" where
  "stream_acks_due e len w = (if cn_outbuf_flushlen (w_edges w e) + len > 10 * CELL_PAYLOAD_SIZE then 0
     else acks_due STREAMWINDOW_START STREAMWINDOW_INCREMENT (ec_deliver_window (w_edges w e) - 1))"

lemma circuit_consider_acks:
  assumes S: "exit_edge_ok e c k R w" and dl: "digest_lengths (en_ops env)" and hw: "\<forall>k w. same_streams w (fst (en_hw env k w))"
    and n: "n = (if ci_payedWrites (w_circs w c) \<le> ci_deliver_window (w_circs w c) then 0
       else acks_due CIRCWINDOW_START CIRCWINDOW_INCREMENT (ci_deliver_window (w_circs w c)))"
    and paid: "- CIRCWINDOW_INCREMENT \<le> ci_payedReads (w_circs w c) - fee w n"
  shows "\<exists>w' R'. circuit_consider_sending_sendme env c None w = OK w' \<and>
    acked env e c k (0, RELAY_COMMAND_SENDME, []) CIRCWINDOW_INCREMENT 0 n R w R' w'"
proof (cases "ci_payedWrites (w_circs w c) \<le> ci_deliver_window (w_circs w c)")
  case True
  with n acked_0 [OF S] show ?thesis
    by (intro exI [of _ w] exI [of _ R]) (auto simp: circuit_consider_sending_sendme_def layer_ok_def deliver_window_at_def)
next
  case False
  with n circuit_acks [OF S dl hw _ paid] show ?thesis
    by (auto simp: circuit_consider_sending_sendme_def layer_ok_def deliver_window_at_def)
qed

lemma stream_consider_acks:
  assumes S: "exit_edge_ok e c k R w" and dl: "digest_lengths (en_ops env)" and hw: "\<forall>k w. same_streams w (fst (en_hw env k w))"
    and sid: "ec_stream_id (w_edges w e) = sid"
    and n: "n = (if connection_outbuf_too_full (w_edges w e) then 0
       else acks_due STREAMWINDOW_START STREAMWINDOW_INCREMENT (ec_deliver_window (w_edges w e)))"
    and paid: "- CIRCWINDOW_INCREMENT \<le> ci_payedReads (w_circs w c) - fee w n"
  shows "\<exists>w' R'. connection_edge_consider_sending_sendme env e w = OK w' \<and>
    acked env e c k (sid, RELAY_COMMAND_SENDME, []) 0 STREAMWINDOW_INCREMENT n R w R' w'"
proof (cases "connection_outbuf_too_full (w_edges w e)")
  case True
  with n acked_0 [OF S] show ?thesis
    by (intro exI [of _ w] exI [of _ R]) (auto simp: connection_edge_consider_sending_sendme_def)
next
  case False
  with n stream_acks [OF S dl hw sid _ paid] exit_edge_ok_D(7) [OF S] show ?thesis
    by (auto simp: connection_edge_consider_sending_sendme_def circuit_get_by_edge_conn_def)
qed

text \<open>Writing to the stream.\<close>

lemma write_to_edge_ok:
  assumes S: "exit_edge_ok e c k R w" and fits: "write_fits (w_alloc w) (length bs)"
    and len: "length (buf_bytes (cn_outbuf (w_edges w e))) + length bs < int_max"
  obtains w' where "connection_write_to_edge bs e w = OK w'" "exit_edge_ok e c k R w'" "abs_sched w' R = abs_sched w R"
    "w_circs w' = w_circs w" "w_CloseUnpaid w' = w_CloseUnpaid w"
    "ec_deliver_window (w_edges w' e) = ec_deliver_window (w_edges w e)" "ec_stream_id (w_edges w' e) = ec_stream_id (w_edges w e)"
    "cn_outbuf_flushlen (w_edges w' e) = cn_outbuf_flushlen (w_edges w e) + length bs"
    "buf_bytes (cn_outbuf (w_edges w' e)) = buf_bytes (cn_outbuf (w_edges w e)) @ bs"
proof (cases "bs = []")
  case True
  then show thesis using that [of w] S by (simp add: connection_write_to_edge_def)
next
  case False
  note D = exit_edge_ok_D [OF S]
  obtain st b where b: "write_to_buf (w_alloc w) bs (cn_outbuf (w_edges w e)) = OK (st, b, length (buf_bytes b))"
    "buf_bytes b = buf_bytes (cn_outbuf (w_edges w e)) @ bs" "buf_inv st b" "same_build (w_alloc w) st"
    using write_to_buf_ok [OF D(10) fits len] by blast
  let ?w = "upd_edge e (\<lambda>ec. ec\<lparr>cn_outbuf := b, cn_writing := True, cn_outbuf_flushlen := cn_outbuf_flushlen ec + length bs\<rparr>)
    (w\<lparr>w_alloc := st\<rparr>)"
  have ok: "circuits_ok ?w R" "abs_sched ?w R = abs_sched w R"
    using circuits_ok_alloc [OF D(1) b(4)] b(3) by (simp_all add: upd_edge_def circuits_ok_edges buf_inv_iff)
  have "connection_write_to_edge bs e w = OK ?w" using False D(9) b(1) by (simp add: connection_write_to_edge_def)
  moreover have "exit_edge_ok e c k R ?w"
    unfolding exit_edge_ok_def using ok(1) D b(3) by (simp add: outbuf_of_def write_is_queued_def)
  ultimately show thesis using that [of ?w] ok(2) b(2) by simp
qed

text \<open>The whole handling of a DATA cell.\<close>

definition data_delivered ::
  "'d relay_env \<Rightarrow> edge_ref \<Rightarrow> circ_ref \<Rightarrow> conn_ref \<Rightarrow> byte list \<Rightarrow> (conn_ref \<Rightarrow> circ_ref list) \<Rightarrow> 'd world \<Rightarrow>
   (conn_ref \<Rightarrow> circ_ref list) \<Rightarrow> 'd world \<Rightarrow> bool" where
  "data_delivered env e c k bs R w R' w' \<longleftrightarrow>
     (let m = circuit_acks_due c w; n = stream_acks_due e (length bs) w in
      buf_bytes (cn_outbuf (w_edges w' e)) = buf_bytes (cn_outbuf (w_edges w e)) @ bs \<and>
      ci_deliver_window (w_circs w' c) = ci_deliver_window (w_circs w c) - 1 + int m * CIRCWINDOW_INCREMENT \<and>
      ec_deliver_window (w_edges w' e) = ec_deliver_window (w_edges w e) - 1 + int n * STREAMWINDOW_INCREMENT \<and>
      sealed_sent env c k (replicate m (0, RELAY_COMMAND_SENDME, []) @
        replicate n (ec_stream_id (w_edges w e), RELAY_COMMAND_SENDME, [])) R w R' w')"

text \<open>The part of the stream: its window, the write, its acknowledgements.\<close>

lemma stream_part_delivered:
  assumes S: "exit_edge_ok e c k R w" and dl: "digest_lengths (en_ops env)" and hw: "\<forall>k w. same_streams w (fst (en_hw env k w))"
    and len: "length bs \<le> RELAY_PAYLOAD_SIZE"
    and room: "length (buf_bytes (cn_outbuf (w_edges w e))) + length bs < int_max" and n: "n = stream_acks_due e (length bs) w"
    and paid: "- CIRCWINDOW_INCREMENT \<le> ci_payedReads (w_circs w c) - fee w n"
  obtains w4 w' R' where "connection_write_to_edge bs e
      ((upd_edge e (\<lambda>ec. ec\<lparr>ec_deliver_window := ec_deliver_window ec - 1\<rparr>) w)\<lparr>w_data_bytes_received := x\<rparr>) = OK w4"
    "connection_edge_consider_sending_sendme env e w4 = OK w'" "exit_edge_ok e c k R' w'"
    "sealed_sent env c k (replicate n (ec_stream_id (w_edges w e), RELAY_COMMAND_SENDME, [])) R w R' w'"
    "buf_bytes (cn_outbuf (w_edges w' e)) = buf_bytes (cn_outbuf (w_edges w e)) @ bs"
    "ci_deliver_window (w_circs w' c) = ci_deliver_window (w_circs w c)"
    "ec_deliver_window (w_edges w' e) = ec_deliver_window (w_edges w e) - 1 + int n * STREAMWINDOW_INCREMENT"
proof -
  let ?w3 = "(upd_edge e (\<lambda>ec. ec\<lparr>ec_deliver_window := ec_deliver_window ec - 1\<rparr>) w)\<lparr>w_data_bytes_received := x\<rparr>"
  have "same_rings w ?w3" by (simp add: same_rings_def upd_edge_def)
  note v3 = same_rings_ok [OF this] same_rings_views [OF this]
  have S3: "exit_edge_ok e c k R ?w3" using S v3 by (simp add: exit_edge_ok_def)
  have fits: "write_fits (w_alloc ?w3) (length bs)" using len by (intro write_fits_4096) (simp add: cell_sizes)
  obtain w4 where w4: "connection_write_to_edge bs e ?w3 = OK w4" "exit_edge_ok e c k R w4" "abs_sched w4 R = abs_sched ?w3 R"
    "w_circs w4 = w_circs ?w3" "w_CloseUnpaid w4 = w_CloseUnpaid ?w3"
    "ec_deliver_window (w_edges w4 e) = ec_deliver_window (w_edges ?w3 e)" "ec_stream_id (w_edges w4 e) = ec_stream_id (w_edges ?w3 e)"
    "cn_outbuf_flushlen (w_edges w4 e) = cn_outbuf_flushlen (w_edges ?w3 e) + length bs"
    "buf_bytes (cn_outbuf (w_edges w4 e)) = buf_bytes (cn_outbuf (w_edges ?w3 e)) @ bs"
    by (rule write_to_edge_ok [OF S3 fits]) (use room in simp_all)
  have n4: "n = (if connection_outbuf_too_full (w_edges w4 e) then 0
      else acks_due STREAMWINDOW_START STREAMWINDOW_INCREMENT (ec_deliver_window (w_edges w4 e)))"
    using n w4(6,8) by (simp add: stream_acks_due_def connection_outbuf_too_full_def)
  have p4: "- CIRCWINDOW_INCREMENT \<le> ci_payedReads (w_circs w4 c) - fee w4 n" using paid w4(4,5) by (simp add: fee_def)
  obtain w' R' where c5: "connection_edge_consider_sending_sendme env e w4 = OK w'"
    "acked env e c k (ec_stream_id (w_edges w e), RELAY_COMMAND_SENDME, []) 0 STREAMWINDOW_INCREMENT n R w4 R' w'"
    using stream_consider_acks [OF w4(2) dl hw _ n4 p4, of "ec_stream_id (w_edges w e)"] w4(7) by auto
  have "sealed_sent env c k (replicate n (ec_stream_id (w_edges w e), RELAY_COMMAND_SENDME, [])) R w R' w'"
    using c5(2) w4(3,4) v3(2) by (simp add: acked_def sealed_sent_def crypt_state_def)
  with c5(2) w4(4,6,9) show thesis
    by (intro that [OF w4(1) c5(1)]) (simp_all add: acked_def deliver_state_def moved_def)
qed

lemma data_cell_delivered:
  assumes S: "exit_edge_ok e c k R w" and dl: "digest_lengths (en_ops env)" and hw: "\<forall>k w. same_streams w (fst (en_hw env k w))"
    and cw: "ci_deliver_window (w_circs w c) > 0" and sw: "ec_deliver_window (w_edges w e) > 0"
    and bs: "bs = take (unat (rh_length rh)) (drop RELAY_HEADER_SIZE (ce_payload cell))" and len: "length bs \<le> RELAY_PAYLOAD_SIZE"
    and room: "length (buf_bytes (cn_outbuf (w_edges w e))) + length bs < int_max"
    and paid: "- CIRCWINDOW_INCREMENT \<le> ci_payedReads (w_circs w c) - fee w (circuit_acks_due c w + stream_acks_due e (length bs) w)"
  shows "\<exists>w' R'. process_relay_data env rh cell c (Some e) None w = OK (w', 0) \<and> exit_edge_ok e c k R' w' \<and>
    data_delivered env e c k bs R w R' w'"
proof -
  let ?m = "circuit_acks_due c w" and ?n = "stream_acks_due e (length bs) w" and ?sid = "ec_stream_id (w_edges w e)"
  define w0 where "w0 = w\<lparr>w_data_cells_received := w_data_cells_received w + 1\<rparr>"
  define w1 where "w1 = upd_circ c (add_deliver_window None (-1)) w0"
  have "same_rings w w0" by (simp add: same_rings_def w0_def)
  note v0 = same_rings_ok [OF this] same_rings_views [OF this]
  have S0: "exit_edge_ok e c k R w0" using S v0 by (simp add: exit_edge_ok_def w0_def)
  have S1: "exit_edge_ok e c k R w1" unfolding w1_def by (rule exit_edge_ok_upd(1) [OF S0])
  have f1: "w_circs w1 c = (w_circs w c)\<lparr>ci_deliver_window := ci_deliver_window (w_circs w c) - 1\<rparr>" "w_edges w1 = w_edges w"
    "w_CloseUnpaid w1 = w_CloseUnpaid w" by (simp_all add: w1_def w0_def add_deliver_window_def)
  have "same_rings w0 w1" by (simp add: same_rings_def w1_def upd_circ_def ring_part_def add_deliver_window_def)
  then have a1: "abs_sched w1 R = abs_sched w R" using same_rings_ok(2) v0 by metis
  have p1: "- CIRCWINDOW_INCREMENT \<le> ci_payedReads (w_circs w1 c) - fee w1 ?m" using paid f1 by (simp add: fee_def split: if_splits)
  have m1: "?m = (if ci_payedWrites (w_circs w1 c) \<le> ci_deliver_window (w_circs w1 c) then 0
      else acks_due CIRCWINDOW_START CIRCWINDOW_INCREMENT (ci_deliver_window (w_circs w1 c)))"
    by (simp add: f1 circuit_acks_due_def Let_def)
  obtain w2 R2 where c2: "circuit_consider_sending_sendme env c None w1 = OK w2"
    "acked env e c k (0, RELAY_COMMAND_SENDME, []) CIRCWINDOW_INCREMENT 0 ?m R w1 R2 w2"
    using circuit_consider_acks [OF S1 dl hw m1 p1] by blast
  have f2: "deliver_state e c w2 = moved (int ?m * CIRCWINDOW_INCREMENT) 0 (deliver_state e c w1)"
    "exit_edge_ok e c k R2 w2" "sealed_sent env c k (replicate ?m (0, RELAY_COMMAND_SENDME, [])) R w R2 w2"
    "ci_payedReads (w_circs w2 c) = ci_payedReads (w_circs w c) - fee w ?m"
    using c2(2) f1 a1 by (simp_all add: acked_def sealed_sent_def crypt_state_def fee_def)
  have e2: "cn_outbuf (w_edges w2 e) = cn_outbuf (w_edges w e)" "ec_stream_id (w_edges w2 e) = ?sid"
    "ec_deliver_window (w_edges w2 e) = ec_deliver_window (w_edges w e)" "cn_outbuf_flushlen (w_edges w2 e) = cn_outbuf_flushlen (w_edges w e)"
    "w_CloseUnpaid w2 = w_CloseUnpaid w"
    "ci_deliver_window (w_circs w2 c) = ci_deliver_window (w_circs w c) - 1 + int ?m * CIRCWINDOW_INCREMENT"
    using f1 f2(1) by (simp_all add: deliver_state_def moved_def)
  have n2: "?n = stream_acks_due e (length bs) w2" using e2 by (simp add: stream_acks_due_def)
  have p2: "- CIRCWINDOW_INCREMENT \<le> ci_payedReads (w_circs w2 c) - fee w2 ?n"
    using paid f2(4) e2(5) by (simp add: fee_def split: if_splits)
  have r2: "length (buf_bytes (cn_outbuf (w_edges w2 e))) + length bs < int_max" using room e2(1) by simp
  obtain w4 w' R' where s: "connection_write_to_edge bs e ((upd_edge e (\<lambda>ec. ec\<lparr>ec_deliver_window := ec_deliver_window ec - 1\<rparr>)
      w2)\<lparr>w_data_bytes_received := w_data_bytes_received w2 + unat (rh_length rh)\<rparr>) = OK w4"
    "connection_edge_consider_sending_sendme env e w4 = OK w'" "exit_edge_ok e c k R' w'"
    "sealed_sent env c k (replicate ?n (ec_stream_id (w_edges w2 e), RELAY_COMMAND_SENDME, [])) R2 w2 R' w'"
    "buf_bytes (cn_outbuf (w_edges w' e)) = buf_bytes (cn_outbuf (w_edges w2 e)) @ bs"
    "ci_deliver_window (w_circs w' c) = ci_deliver_window (w_circs w2 c)"
    "ec_deliver_window (w_edges w' e) = ec_deliver_window (w_edges w2 e) - 1 + int ?n * STREAMWINDOW_INCREMENT"
    by (rule stream_part_delivered [OF f2(2) dl hw len r2 n2 p2])
  have "process_relay_data env rh cell c (Some e) None w = OK (w', 0)"
    unfolding process_relay_data_def w0_def [symmetric] w1_def [symmetric] Let_def
    using cw sw f1(1) c2(1) e2(3) s(1,2) unfolding bs by (simp add: layer_ok_def deliver_window_at_def upd_edge_def)
  moreover have "data_delivered env e c k bs R w R' w'"
    unfolding data_delivered_def Let_def using s(4-7) e2 sealed_sent_append [OF f2(3)] by simp
  ultimately show ?thesis using s(3) by blast
qed

text \<open>From the arrival of the cell on the circuit.\<close>

lemma relay_crypt_out_keeps:
  assumes "relay_crypt ops circ cell CELL_DIRECTION_OUT = OK (circ', cell', r)"
  shows "ci_p_crypto circ' = ci_p_crypto circ" "ci_p_digest circ' = ci_p_digest circ"
  using assms by (auto simp: relay_crypt_def res_simps Let_def split: if_splits prod.splits)

lemma receive_data:
  assumes S: "exit_edge_ok e c k R w" and dl: "digest_lengths (en_ops env)" and hw: "\<forall>k w. same_streams w (fst (en_hw env k w))"
    and m: "\<not> ci_marked_for_close (w_circs w c)" and opn: "connection_state_is_open (w_edges w e)"
    and crypt: "relay_crypt (en_ops env) (w_circs w c) cell CELL_DIRECTION_OUT = OK (circ1, cell1, Recognized None)"
    and rh: "rh = relay_header_unpack (ce_payload cell1)" "rh_command rh = RELAY_COMMAND_DATA" "unat (rh_length rh) \<le> RELAY_PAYLOAD_SIZE"
    and stream: "relay_lookup_conn c cell1 CELL_DIRECTION_OUT None w = Some e"
    and cw: "ci_deliver_window (w_circs w c) > 0" and sw: "ec_deliver_window (w_edges w e) > 0"
    and room: "length (buf_bytes (cn_outbuf (w_edges w e))) + RELAY_PAYLOAD_SIZE < int_max"
    and v: "v = pay_for_cell CELL_DIRECTION_OUT c w" and bs: "bs = relay_body (ce_payload cell1)"
    and paid: "- CIRCWINDOW_INCREMENT \<le> ci_payedWrites (w_circs v c)"
      "- CIRCWINDOW_INCREMENT \<le> ci_payedReads (w_circs v c) - fee v (circuit_acks_due c v + stream_acks_due e (length bs) v)"
  shows "\<exists>w' R'. circuit_receive_relay_cell env cell c CELL_DIRECTION_OUT w = OK (w', 0) \<and> exit_edge_ok e c k R' w' \<and>
    data_delivered env e c k bs R v R' w'"
proof -
  note D = exit_edge_ok_D [OF S]
  note same = relay_crypt_same [OF crypt]
  note C = same_but_crypto_D [OF same]
  define w2 where "w2 = pay_for_cell CELL_DIRECTION_OUT c (upd_circ c (\<lambda>_. circ1) w)"
  define w3 where "w3 = w2\<lparr>w_relay_cells_delivered := Suc (w_relay_cells_delivered w2)\<rparr>"
  let ?p = "paid_circ (w_CloseUnpaid w) CELL_DIRECTION_OUT"
  have c3: "w_circs w3 c = ?p circ1" "w_circs w2 c = ?p circ1" "w_edges w3 = w_edges w" "w_alloc w3 = w_alloc w" "w_CloseUnpaid w3 = w_CloseUnpaid w"
    "w_edges w2 = w_edges w"
    by (simp_all add: w3_def w2_def pay_for_cell_eq)
  have cv: "w_circs v c = ?p (w_circs w c)" "w_edges v = w_edges w" "w_CloseUnpaid v = w_CloseUnpaid w"
    by (simp_all add: v pay_for_cell_eq)
  have pc: "ci_deliver_window (?p ci) = ci_deliver_window ci" "ci_payedReads (?p ci) = ci_payedReads ci" for ci :: "'a circuit"
    by (simp_all add: paid_circ_def)
  have pw: "ci_payedWrites (?p circ1) = ci_payedWrites (?p (w_circs w c))" by (simp add: paid_circ_def C)
  have "same_rings w w3" "same_rings w v"
    by (simp_all add: same_rings_def w3_def w2_def v pay_for_cell_eq upd_circ_def C(6))
  note v3 = this(1) [THEN same_rings_ok(1)] this(1) [THEN same_rings_ok(2)] this(2) [THEN same_rings_ok(2)]
    same_rings_views [OF this(1)]
  have S3: "exit_edge_ok e c k R w3"
    using S v3 paid(1) pw relay_crypt_out_keeps [OF crypt] C by (simp add: exit_edge_ok_def c3 cv)
  have acks: "circuit_acks_due c w3 = circuit_acks_due c v" "stream_acks_due e n w3 = stream_acks_due e n v" for n
    by (simp_all add: circuit_acks_due_def stream_acks_due_def c3 cv pc pw C)
  have bs': "bs = take (unat (rh_length rh)) (drop RELAY_HEADER_SIZE (ce_payload cell1))" by (simp add: bs rh(1) relay_body_def)
  have len: "length bs \<le> RELAY_PAYLOAD_SIZE" using rh(3) by (simp add: bs')
  obtain w' R' where d: "process_relay_data env rh cell1 c (Some e) None w3 = OK (w', 0)" "exit_edge_ok e c k R' w'"
    "data_delivered env e c k bs R w3 R' w'"
    using data_cell_delivered [OF S3 dl hw _ _ bs' len] cw sw room paid(2) len acks
    by (auto simp: c3 cv pc C fee_def)
  have np: "\<not> unpaid c w2"
    using paid by (auto simp: unpaid_def c3 cv pc pw C fee_def split: if_splits)
  have "find_stream P s es w2 = find_stream P s es w" "ci_resolving_streams (?p circ1) = ci_resolving_streams circ1" for P s es
    by (simp_all add: find_stream_def c3 paid_circ_def)
  then have "relay_lookup_conn c cell1 CELL_DIRECTION_OUT None w2 = relay_lookup_conn c cell1 CELL_DIRECTION_OUT None w"
    using D(2) by (simp add: relay_lookup_conn_def c3 C Let_def split: option.split)
  then have look: "relay_lookup_conn c cell1 CELL_DIRECTION_OUT None w2 = Some e" using stream by simp
  have "connection_edge_process_relay_cell env cell1 c (Some e) None w3 = OK (w', 0)"
    using d(1) rh opn by (simp add: connection_edge_process_relay_cell_def process_relay_command_def Let_def c3 relay_commands)
  then have "circuit_receive_relay_cell env cell c CELL_DIRECTION_OUT w = OK (w', 0)"
    using m crypt np look
    by (subst circuit_receive_relay_cell.simps) (simp add: Let_def w2_def [symmetric] w3_def [symmetric])
  moreover have "data_delivered env e c k bs R v R' w'"
    using d(3) v3 relay_crypt_out_keeps [OF crypt]
    by (simp add: data_delivered_def Let_def acks c3 cv pc C sealed_sent_def crypt_state_def)
  ultimately show ?thesis using d(2) by blast
qed

text \<open>The stream of a cell at an exit: the first of the circuit's streams with its ID that is not closed.\<close>

lemma stream_found:
  assumes "\<not> ci_origin (w_circs w c)" and "ci_n_streams (w_circs w c) = es @ e # es'"
    and "ec_stream_id (w_edges w e) = rh_stream_id (relay_header_unpack (ce_payload cell))" and "ec_stream_id (w_edges w e) \<noteq> 0"
    and "list_all (\<lambda>d. ec_stream_id (w_edges w d) \<noteq> ec_stream_id (w_edges w e) \<or> cn_marked_for_close (w_edges w d)) es"
    and "\<not> cn_marked_for_close (w_edges w e)"
  shows "relay_lookup_conn c cell CELL_DIRECTION_OUT None w = Some e"
proof -
  have "List.find P (es @ e # es') = Some e" if "list_all (\<lambda>d. \<not> P d) es" "P e" for P
    using that by (induction es) auto
  from this [of "\<lambda>d. ec_stream_id (w_edges w d) = ec_stream_id (w_edges w e) \<and> \<not> cn_marked_for_close (w_edges w d)"] assms
  show ?thesis by (simp add: relay_lookup_conn_def find_stream_def Let_def)
qed

subsection \<open>The properties\<close>

text \<open>
  C6: data for an exit stream.  Let a relay cell arrive at the last relay of its circuit that, with the relay's
  layer of encryption removed, is meant for this relay by its recognized field and digest and is DATA
  for an open stream of the circuit: the first stream with the cell's stream ID that is not closed.  Let both
  deliver windows last and the fees be payable.  \<^verbatim>\<open>circuit_receive_relay_cell\<close>
  returns 0 and appends exactly the data of the cell to the output of that stream.  Both
  windows go down by one, and are raised again by SENDME cells as often as they have fallen below the limit:
  first those of the circuit (unless the rest of its credit is covered by the window), then those of
  the stream (unless too much output waits); these cells are stamped and encrypted one after
  another and queued towards the origin.
\<close>

theorem exit_data_delivered:
  assumes "exit_edge_ok e c k R w" and "digest_lengths (en_ops env)" and "\<forall>k w. same_streams w (fst (en_hw env k w))"
    and "\<not> ci_marked_for_close (w_circs w c)" and "connection_state_is_open (w_edges w e)"
    and "aes_ok (ci_n_crypto (w_circs w c))" and "length (ce_payload cell) = CELL_PAYLOAD_SIZE"
    and "p = key_layer (ci_n_crypto (w_circs w c)) (ce_payload cell)" and "meant_for (en_ops env) (ci_n_digest (w_circs w c)) p"
    and "rh = relay_header_unpack p" and "rh_command rh = RELAY_COMMAND_DATA" and "unat (rh_length rh) \<le> RELAY_PAYLOAD_SIZE"
    and "ci_n_streams (w_circs w c) = es @ e # es'" and "ec_stream_id (w_edges w e) = rh_stream_id rh" and "rh_stream_id rh \<noteq> 0"
    and "list_all (\<lambda>d. ec_stream_id (w_edges w d) \<noteq> rh_stream_id rh \<or> cn_marked_for_close (w_edges w d)) es"
    and "ci_deliver_window (w_circs w c) > 0" and "ec_deliver_window (w_edges w e) > 0"
    and "length (buf_bytes (cn_outbuf (w_edges w e))) + RELAY_PAYLOAD_SIZE < int_max"
    and "v = pay_for_cell CELL_DIRECTION_OUT c w" and "bs = relay_body p"
    and "- CIRCWINDOW_INCREMENT \<le> ci_payedWrites (w_circs v c)"
    and "- CIRCWINDOW_INCREMENT \<le> ci_payedReads (w_circs v c) - fee v (circuit_acks_due c v + stream_acks_due e (length bs) v)"
  shows "\<exists>w' R'. circuit_receive_relay_cell env cell c CELL_DIRECTION_OUT w = OK (w', 0) \<and> exit_edge_ok e c k R' w' \<and>
    buf_bytes (cn_outbuf (w_edges w' e)) = buf_bytes (cn_outbuf (w_edges w e)) @ bs \<and>
    ci_deliver_window (w_circs w' c) = ci_deliver_window (w_circs w c) - 1 + int (circuit_acks_due c v) * CIRCWINDOW_INCREMENT \<and>
    ec_deliver_window (w_edges w' e) = ec_deliver_window (w_edges w e) - 1 + int (stream_acks_due e (length bs) v) * STREAMWINDOW_INCREMENT \<and>
    sealed_sent env c k (replicate (circuit_acks_due c v) (0, RELAY_COMMAND_SENDME, []) @
      replicate (stream_acks_due e (length bs) v) (ec_stream_id (w_edges w e), RELAY_COMMAND_SENDME, [])) R v R' w'"
proof -
  note D = exit_edge_ok_D [OF assms(1)]
  let ?cell1 = "cell\<lparr>ce_payload := cleared_digest p\<rparr>"
  have len: "length p = CELL_PAYLOAD_SIZE" using assms(7,8) by (simp add: key_layer_length)
  note cl = cleared_digest_header [OF len]
  obtain circ1 where crypt: "relay_crypt (en_ops env) (w_circs w c) cell CELL_DIRECTION_OUT = OK (circ1, ?cell1, Recognized None)"
    using relay_crypt_out_rule [OF D(2) assms(6-8), of "en_ops env"] assms(9) by auto
  have look: "relay_lookup_conn c ?cell1 CELL_DIRECTION_OUT None w = Some e"
    by (rule stream_found [OF D(2) assms(13)]) (use assms(10,14-16) D(9) cl(1) in simp_all)
  have "w_edges v = w_edges w" "ci_deliver_window (w_circs v c) = ci_deliver_window (w_circs w c)"
    unfolding assms(20) by (simp_all add: pay_for_cell_eq paid_circ_def)
  moreover have "rh_command (relay_header_unpack (ce_payload ?cell1)) = RELAY_COMMAND_DATA"
    "unat (rh_length (relay_header_unpack (ce_payload ?cell1))) \<le> RELAY_PAYLOAD_SIZE" "bs = relay_body (ce_payload ?cell1)"
    using assms(10-12,21) cl by simp_all
  note receive_data [OF assms(1-5) crypt refl this(1,2) look assms(17-20) this(3) assms(22,23)]
  ultimately show ?thesis unfolding data_delivered_def Let_def by metis
qed

text \<open>How far the acknowledgements raise a window: to the limit, and by no more than needed.\<close>

lemma acks_due_least:
  assumes "0 < inc"
  shows "start - inc \<le> window + int (acks_due start inc window) * inc"
    and "0 < acks_due start inc window \<Longrightarrow> window + int (acks_due start inc window) * inc < start"
proof -
  define x q where "x = start - 1 - window" and "q = x div inc"
  have x: "x = q * inc + x mod inc" "0 \<le> x mod inc" "x mod inc < inc" using assms by (simp_all add: q_def)
  have q: "int (acks_due start inc window) = (if 0 \<le> q then q else 0)" by (simp add: acks_due_def x_def q_def)
  have neg: "x < 0" if "\<not> 0 \<le> q" using that assms by (simp add: q_def pos_imp_zdiv_nonneg_iff)
  show "start - inc \<le> window + int (acks_due start inc window) * inc"
  proof (cases "0 \<le> q")
    case True
    then have "window + int (acks_due start inc window) * inc = window + x - x mod inc" using x(1) q by simp
    then show ?thesis using x(3) by (simp add: x_def)
  next
    case False
    then show ?thesis using neg q assms by (simp add: x_def)
  qed
  show "window + int (acks_due start inc window) * inc < start" if "0 < acks_due start inc window"
  proof -
    have "0 \<le> q" using that q by (auto split: if_splits)
    then have "window + int (acks_due start inc window) * inc = window + x - x mod inc" using x(1) q by simp
    then show ?thesis using x(2) by (simp add: x_def)
  qed
qed

text \<open>
  C35: acknowledgements.  On a relay's circuit in working order whose fees can be paid,
  \<^verbatim>\<open>circuit_consider_sending_sendme\<close> returns and sends no SENDME while the credit left is covered by the
  window; otherwise exactly as many as it takes to bring the circuit's deliver window to
  the limit of 900 or above, each raising it by 100.  \<^verbatim>\<open>connection_edge_consider_sending_sendme\<close> returns and sends
  none while too much output waits on the stream, otherwise exactly as many under the
  stream's ID as it takes to bring the stream's window to 450 or above, each raising it by 50.  The cells are
  stamped and encrypted one after another and queued towards the origin.
\<close>

theorem sendmes_restore_windows:
  assumes "exit_edge_ok e c k R w" and "digest_lengths (en_ops env)" and "\<forall>k w. same_streams w (fst (en_hw env k w))"
    and "m = (if ci_payedWrites (w_circs w c) \<le> ci_deliver_window (w_circs w c) then 0
       else acks_due CIRCWINDOW_START CIRCWINDOW_INCREMENT (ci_deliver_window (w_circs w c)))"
    and "n = (if connection_outbuf_too_full (w_edges w e) then 0
       else acks_due STREAMWINDOW_START STREAMWINDOW_INCREMENT (ec_deliver_window (w_edges w e)))"
    and "- CIRCWINDOW_INCREMENT \<le> ci_payedReads (w_circs w c) - fee w (m + n)"
  shows "(\<exists>w' R'. circuit_consider_sending_sendme env c None w = OK w' \<and> exit_edge_ok e c k R' w' \<and>
      sealed_sent env c k (replicate m (0, RELAY_COMMAND_SENDME, [])) R w R' w' \<and>
      ci_deliver_window (w_circs w' c) = ci_deliver_window (w_circs w c) + 100 * int m \<and>
      (ci_payedWrites (w_circs w c) \<le> ci_deliver_window (w_circs w c) \<or> 900 \<le> ci_deliver_window (w_circs w' c)) \<and>
      (m = 0 \<or> ci_deliver_window (w_circs w' c) < 1000)) \<and>
    (\<exists>w' R'. connection_edge_consider_sending_sendme env e w = OK w' \<and> exit_edge_ok e c k R' w' \<and>
      sealed_sent env c k (replicate n (ec_stream_id (w_edges w e), RELAY_COMMAND_SENDME, [])) R w R' w' \<and>
      ec_deliver_window (w_edges w' e) = ec_deliver_window (w_edges w e) + 50 * int n \<and>
      (connection_outbuf_too_full (w_edges w e) \<or> 450 \<le> ec_deliver_window (w_edges w' e)) \<and>
      (n = 0 \<or> ec_deliver_window (w_edges w' e) < 500))"
proof (intro conjI)
  have paid: "- CIRCWINDOW_INCREMENT \<le> ci_payedReads (w_circs w c) - fee w m" "- CIRCWINDOW_INCREMENT \<le> ci_payedReads (w_circs w c) - fee w n"
    using assms(6) by (auto simp: fee_def split: if_splits)
  obtain w1 R1 where 1: "circuit_consider_sending_sendme env c None w = OK w1"
    "acked env e c k (0, RELAY_COMMAND_SENDME, []) CIRCWINDOW_INCREMENT 0 m R w R1 w1"
    using circuit_consider_acks [OF assms(1-4) paid(1)] by blast
  then show "\<exists>w' R'. circuit_consider_sending_sendme env c None w = OK w' \<and> exit_edge_ok e c k R' w' \<and>
      sealed_sent env c k (replicate m (0, RELAY_COMMAND_SENDME, [])) R w R' w' \<and>
      ci_deliver_window (w_circs w' c) = ci_deliver_window (w_circs w c) + 100 * int m \<and>
      (ci_payedWrites (w_circs w c) \<le> ci_deliver_window (w_circs w c) \<or> 900 \<le> ci_deliver_window (w_circs w' c)) \<and>
      (m = 0 \<or> ci_deliver_window (w_circs w' c) < 1000)"
    using acks_due_least [of CIRCWINDOW_INCREMENT CIRCWINDOW_START "ci_deliver_window (w_circs w c)"] assms(4)
    by (intro exI [of _ w1] exI [of _ R1]) (auto simp: acked_def deliver_state_def moved_def window_sizes mult.commute split: if_splits)
  obtain w2 R2 where 2: "connection_edge_consider_sending_sendme env e w = OK w2"
    "acked env e c k (ec_stream_id (w_edges w e), RELAY_COMMAND_SENDME, []) 0 STREAMWINDOW_INCREMENT n R w R2 w2"
    using stream_consider_acks [OF assms(1-3) refl assms(5) paid(2)] by blast
  then show "\<exists>w' R'. connection_edge_consider_sending_sendme env e w = OK w' \<and> exit_edge_ok e c k R' w' \<and>
      sealed_sent env c k (replicate n (ec_stream_id (w_edges w e), RELAY_COMMAND_SENDME, [])) R w R' w' \<and>
      ec_deliver_window (w_edges w' e) = ec_deliver_window (w_edges w e) + 50 * int n \<and>
      (connection_outbuf_too_full (w_edges w e) \<or> 450 \<le> ec_deliver_window (w_edges w' e)) \<and>
      (n = 0 \<or> ec_deliver_window (w_edges w' e) < 500)"
    using acks_due_least [of STREAMWINDOW_INCREMENT STREAMWINDOW_START "ec_deliver_window (w_edges w e)"] assms(5)
    by (intro exI [of _ w2] exI [of _ R2]) (auto simp: acked_def deliver_state_def moved_def window_sizes mult.commute split: if_splits)
qed

text \<open>
  Data without a stream.  A DATA cell whose stream ID no stream has is counted against the window of the circuit and
  dropped; but when that window is used up, the code ends and closes the stream all the same, through a
  pointer that is NULL.
\<close>

lemma data_cell_without_stream:
  assumes "layer_ok layer (w_circs w c)" and "rh = relay_header_unpack (ce_payload cell)"
    and "rh_command rh = RELAY_COMMAND_DATA" and "unat (rh_length rh) \<le> RELAY_PAYLOAD_SIZE"
  shows "connection_edge_process_relay_cell env cell c None layer w =
    (if deliver_window_at layer (w_circs w c) \<le> 0 then Fault Mem_Fault
     else rbind (circuit_consider_sending_sendme env c layer
       (upd_circ c (add_deliver_window layer (-1)) (w\<lparr>w_data_cells_received := w_data_cells_received w + 1\<rparr>))) (\<lambda>w'. OK (w', 0)))"
proof -
  have "deliver_window_at layer (add_deliver_window layer (-1) (w_circs w c)) = deliver_window_at layer (w_circs w c) - 1"
    using assms(1) by (auto simp: layer_ok_def deliver_window_at_def add_deliver_window_def upd_hop_def split: option.splits)
  with assms show ?thesis
    by (simp add: connection_edge_process_relay_cell_def process_relay_command_def process_relay_data_def relay_commands Let_def)
qed

text \<open>
  The answer of a RESOLVED cell.  The length of the answer is read as a signed character and only compared
  with the length of the cell from above.  A length byte of 128 to 242 is a negative number, passes the test
  and moves the read of the time to live in front of the payload, outside of the cell.
\<close>

lemma resolved_answer_out_of_bounds:
  assumes "ec_type (w_edges w e) = CONN_TYPE_AP" and "ec_state (w_edges w e) = AP_CONN_STATE_RESOLVE_WAIT"
    and "ec_socks_request (w_edges w e) = Some (command, finished)" and "SOCKS_COMMAND_IS_RESOLVE command"
    and "rh_command rh = RELAY_COMMAND_RESOLVED" and "2 \<le> unat (rh_length rh)" and "sint (payload_at cell 1) < - 13"
  shows "connection_edge_process_relay_cell_not_open env rh cell c e w = Fault Mem_Fault"
proof -
  have len: "2 \<le> uint (rh_length rh)" using zle_int [THEN iffD2, OF assms(6)] by simp
  then have "\<not> uint (rh_length rh) < sint (payload_at cell 1) + 2" "sint (payload_at cell 1) + 6 \<le> uint (rh_length rh)"
    using assms(7) by linarith+
  with len assms show ?thesis
    by (simp add: connection_edge_process_relay_cell_not_open_def process_resolved_not_open_def payload_u32_def
        relay_commands cell_sizes Let_def)
qed

subsection \<open>Examples\<close>

text \<open>Two streams on a circuit, number 4 with ID 9 and number 3 with ID 1.\<close>

definition data_world :: "aes_cnt_cipher \<Rightarrow> unit world" where
  "data_world a = idle_world\<lparr>w_circs := (\<lambda>_. idle_circuit\<lparr>ci_n_conn := None, ci_p_conn := Some 0, ci_p_crypto := a, ci_n_crypto := a,
       ci_deliver_window := 900, ci_payedReads := 1000, ci_payedWrites := 1000, ci_n_streams := [4, 3]\<rparr>),
     w_edges := (\<lambda>e. idle_edge\<lparr>ec_stream_id := (if e = 3 then 1 else 9), ec_deliver_window := 450, ec_on_circuit := Some 2\<rparr>)\<rparr>"

lemma data_world_ok:
  assumes "aes_ok a"
  shows "exit_edge_ok 3 2 0 (\<lambda>_. []) (data_world a)"
proof -
  have "circuits_ok (data_world a) (\<lambda>_. [])"
    by (rule quiet_world_ok [where orig = False and n = None and p = "Some 0"])
      (simp_all add: data_world_def ring_part_def idle_circuit_def idle_world_def)
  moreover have "write_is_queued 0 CELL_NETWORK_SIZE (data_world a)"
    using idle_world_queued [of CELL_NETWORK_SIZE] by (simp add: write_is_queued_def data_world_def cell_sizes)
  ultimately show ?thesis using assms
    by (simp add: exit_edge_ok_def)
      (simp add: data_world_def idle_world_def idle_circuit_def idle_edge_def CIRCWINDOW_INCREMENT_def buf_inv_new alloc_ok_initial)
qed

lemma data_world_sel:
  "w_circs (data_world a) c = idle_circuit\<lparr>ci_n_conn := None, ci_p_conn := Some 0, ci_p_crypto := a, ci_n_crypto := a,
     ci_deliver_window := 900, ci_payedReads := 1000, ci_payedWrites := 1000, ci_n_streams := [4, 3]\<rparr>"
  "w_edges (data_world a) e = idle_edge\<lparr>ec_stream_id := (if e = 3 then 1 else 9), ec_deliver_window := 450, ec_on_circuit := Some 2\<rparr>"
  "w_CloseUnpaid (data_world a)"
  by (simp_all add: data_world_def idle_world_def)

text \<open>A DATA cell for stream 1 with three bytes, stamped for a digest of ones.\<close>

definition data_payload :: "byte list" where
  "data_payload = [2, 0, 0, 0, 1, 1, 1, 1, 1, 0, 3, 104, 105, 33] @ replicate 495 0"

lemma data_payload_parts:
  "relay_header_unpack data_payload = \<lparr>rh_command = 2, rh_recognized = 0, rh_stream_id = 1, rh_integrity = [1, 1, 1, 1], rh_length = 3\<rparr>"
  "relay_body data_payload = [104, 105, 33]" "length data_payload = CELL_PAYLOAD_SIZE" "meant_for (en_ops idle_env) () data_payload"
proof -
  show h: "relay_header_unpack data_payload = \<lparr>rh_command = 2, rh_recognized = 0, rh_stream_id = 1, rh_integrity = [1, 1, 1, 1], rh_length = 3\<rparr>"
    by (simp add: data_payload_def relay_header_unpack_def)
  show "relay_body data_payload = [104, 105, 33]" by (simp add: relay_body_def h) (simp add: data_payload_def cell_sizes)
  show "length data_payload = CELL_PAYLOAD_SIZE" by (simp add: data_payload_def cell_sizes)
  have "replicate 4 (1 :: byte) = [1, 1, 1, 1]" by (simp add: eval_nat_numeral)
  then show "meant_for (en_ops idle_env) () data_payload" by (simp add: meant_for_def idle_env_def data_payload_def)
qed

theorem exit_data_delivered_witness:
  "\<exists>a cell w'. circuit_receive_relay_cell idle_env cell 2 CELL_DIRECTION_OUT (data_world a) = OK (w', 0) \<and>
     buf_bytes (cn_outbuf (w_edges w' 3)) = [104, 105, 33] \<and> ci_deliver_window (w_circs w' 2) = 999 \<and>
     ec_deliver_window (w_edges w' 3) = 499"
proof -
  obtain a where a: "aes_ok a" using a_cipher by blast
  obtain a' e where e: "aes_crypt_inplace a data_payload = OK (a', e)" using aes.crypt_total [OF a] by blast
  define cell where "cell = \<lparr>ce_circ_id = 0, ce_command = CELL_RELAY, ce_payload = e\<rparr>"
  let ?w = "data_world a" and ?v = "pay_for_cell CELL_DIRECTION_OUT 2 (data_world a)"
  have len: "length (ce_payload cell) = CELL_PAYLOAD_SIZE"
    using aes_crypt_OK_D(1) [OF a e] by (simp add: cell_def data_payload_parts(3))
  have p: "data_payload = key_layer (ci_n_crypto (w_circs ?w 2)) (ce_payload cell)"
    using aes_crypt_layer [OF a aes_crypt_OK_D(3) [OF a e]] by (simp add: cell_def data_world_sel)
  have m: "meant_for (en_ops idle_env) (ci_n_digest (w_circs ?w 2)) data_payload" using data_payload_parts(4) by simp
  have v: "w_circs ?v 2 = (w_circs ?w 2)\<lparr>ci_payedWrites := 999\<rparr>" "w_edges ?v = w_edges ?w" "w_CloseUnpaid ?v"
    by (simp_all add: pay_for_cell_eq paid_circ_def data_world_sel)
  have acks: "circuit_acks_due 2 ?v = 1" "stream_acks_due 3 (length [104 :: byte, 105, 33]) ?v = 1"
    by (simp_all add: circuit_acks_due_def stream_acks_due_def acks_due_def v data_world_sel idle_edge_def idle_circuit_def window_sizes cell_sizes Let_def)
  have streams: "ci_n_streams (w_circs ?w 2) = [4] @ 3 # []" by (simp add: data_world_sel)
  have ok: "aes_ok (ci_n_crypto (w_circs ?w 2))" using a by (simp add: data_world_sel)
  show ?thesis
    using exit_data_delivered [OF data_world_ok [OF a] idle_env_laws(1,2) _ _ ok len p m refl _ _ streams _ _ _ _ _ _ refl refl]
      data_payload_parts acks v
    by (auto simp: data_world_sel idle_circuit_def idle_edge_def connection_state_is_open_def fee_def window_sizes
        relay_commands cell_sizes EXIT_CONN_STATE_OPEN_def int_max_def buf_bytes_def buf_new_def)
qed

theorem sendmes_restore_windows_witness:
  "\<exists>a w'. aes_ok a \<and> circuit_consider_sending_sendme idle_env 2 None
      (upd_circ 2 (\<lambda>ci. ci\<lparr>ci_deliver_window := 650\<rparr>) (data_world a)) = OK w' \<and> ci_deliver_window (w_circs w' 2) = 950"
proof -
  obtain a where a: "aes_ok a" using a_cipher by blast
  let ?w = "upd_circ 2 (\<lambda>ci. ci\<lparr>ci_deliver_window := 650\<rparr>) (data_world a)"
  have "?w = upd_circ 2 (add_deliver_window None (- 250)) (data_world a)"
    by (simp add: upd_circ_def data_world_sel add_deliver_window_def fun_eq_iff)
  then have ok: "exit_edge_ok 3 2 0 (\<lambda>_. []) ?w" using exit_edge_ok_upd(1) [OF data_world_ok [OF a]] by simp
  have 3: "3 = (if ci_payedWrites (w_circs ?w 2) \<le> ci_deliver_window (w_circs ?w 2) then 0
       else acks_due CIRCWINDOW_START CIRCWINDOW_INCREMENT (ci_deliver_window (w_circs ?w 2)))"
    by (simp add: data_world_sel acks_due_def window_sizes)
  have 0: "0 = (if connection_outbuf_too_full (w_edges ?w 3) then 0
       else acks_due STREAMWINDOW_START STREAMWINDOW_INCREMENT (ec_deliver_window (w_edges ?w 3)))"
    by (simp add: data_world_sel acks_due_def window_sizes)
  show ?thesis
    using sendmes_restore_windows [OF ok idle_env_laws(1,2) 3 0] a
    by (auto simp: data_world_sel fee_def window_sizes)
qed

definition wait_edge :: edge_conn where
  "wait_edge = idle_edge\<lparr>ec_type := CONN_TYPE_AP, ec_state := 10, ec_socks_request := Some (0xF0, False)\<rparr>"

end
