(* ===== verification/Commands.thy ===== *)
theory Commands
  imports RelayRecv
begin

section \<open>Dispatching cells (command.c)\<close>

text \<open>
  The handlers of the cells that arrive on an OR connection.  The circuit is found by the ID of the cell on
  the connection; the direction of the cell is told by the ID alone.  The counters of processed cells
  are left out.
\<close>

definition CELL_NETINFO :: byte where "CELL_NETINFO = 8"
definition CELL_PAYMENT :: byte where "CELL_PAYMENT = 11"
definition OR_CONN_STATE_OR_HANDSHAKING :: nat where "OR_CONN_STATE_OR_HANDSHAKING = 7"

lemmas cell_commands = CELL_PADDING_def CELL_CREATE_def CELL_CREATED_def CELL_RELAY_def CELL_DESTROY_def
  CELL_CREATE_FAST_def CELL_CREATED_FAST_def CELL_VERSIONS_def CELL_NETINFO_def CELL_RELAY_EARLY_def CELL_PAYMENT_def

definition cell_comes_out :: "cell \<Rightarrow> 'd circuit \<Rightarrow> cell_direction" where
  "cell_comes_out cell circ = (if \<not> ci_origin circ \<and> ce_circ_id cell = ci_p_circ_id circ then CELL_DIRECTION_OUT
     else CELL_DIRECTION_IN)"

text \<open>A payment message: passed on while its hop count lasts, else given to the controller.\<close>

definition command_process_payment_cell :: "'d relay_env \<Rightarrow> cell \<Rightarrow> conn_ref \<Rightarrow> 'd world \<Rightarrow> 'd world res" where
  "command_process_payment_cell env cell k w =
     rbind (circuit_get_by_circid_orconn (ce_circ_id cell) k w) (\<lambda>(found, w1).
     case found of
       None \<Rightarrow> OK w1
     | Some c \<Rightarrow>
         (let circ = w_circs w1 c;
              direction = cell_comes_out cell circ;
              (nextCircId, nextConn) =
                (case direction of
                   CELL_DIRECTION_OUT \<Rightarrow> (if ci_n_conn circ \<noteq> None then (ci_n_circ_id circ, ci_n_conn circ) else (0, None))
                 | CELL_DIRECTION_IN \<Rightarrow>
                     if \<not> ci_origin circ \<and> ci_p_conn circ \<noteq> None then (ci_p_circ_id circ, ci_p_conn circ) else (0, None));
              hopNum = rd16 (ce_payload cell) - 1
          in case (if hopNum \<ge> 1 then nextConn else None) of
               Some next \<Rightarrow>
                 connection_or_write_cell_to_buf (en_hw env)
                   \<lparr>ce_circ_id = nextCircId, ce_command = CELL_PAYMENT, ce_payload = be16 hopNum @ drop 2 (ce_payload cell)\<rparr>
                   next w1
             | None \<Rightarrow>
               (case base64_encode env 1000 (take (CELL_PAYLOAD_SIZE - 2) (drop 2 (ce_payload cell))) of
                  None \<Rightarrow> OK w1
                | Some base64Buffer \<Rightarrow>
                    control_event_orcircuit ''PAYMENT'' (tor_strstrip base64Buffer [10]) c direction w1)))"

definition command_process_created_cell :: "'d relay_env \<Rightarrow> cell \<Rightarrow> conn_ref \<Rightarrow> 'd world \<Rightarrow> 'd world res" where
  "command_process_created_cell env cell k w =
     rbind (circuit_get_by_circid_orconn (ce_circ_id cell) k w) (\<lambda>(found, w1).
     case found of
       None \<Rightarrow> OK w1
     | Some c \<Rightarrow>
         if ci_n_circ_id (w_circs w1 c) \<noteq> ce_circ_id cell
         then circuit_mark_for_close env c END_CIRC_REASON_TORPROTOCOL w1
         else if ci_origin (w_circs w1 c) then
           rbind (circuit_finish_handshake env c (ce_command cell) (ce_payload cell) w1) (\<lambda>(w2, err_reason).
             if err_reason < 0 then circuit_mark_for_close env c (- err_reason) w2
             else rbind (circuit_send_next_onion_skin env c w2) (\<lambda>(w3, err_reason).
               if err_reason < 0 then circuit_mark_for_close env c (- err_reason) w3 else OK w3))
         else
           rbind (relay_send_command_from_edge env 0 c RELAY_COMMAND_EXTENDED
                    (take ONIONSKIN_REPLY_LEN (ce_payload cell)) None w1) (\<lambda>(w2, _). OK w2))"

definition command_process_relay_cell :: "'d relay_env \<Rightarrow> cell \<Rightarrow> conn_ref \<Rightarrow> 'd world \<Rightarrow> 'd world res" where
  "command_process_relay_cell env cell k w =
     rbind (circuit_get_by_circid_orconn (ce_circ_id cell) k w) (\<lambda>(found, w1).
     case found of
       None \<Rightarrow> OK w1
     | Some c \<Rightarrow>
         if ci_state (w_circs w1 c) = CIRCUIT_STATE_ONIONSKIN_PENDING
         then circuit_mark_for_close env c END_CIRC_REASON_TORPROTOCOL w1
         else
           let w2 = (if ci_origin (w_circs w1 c) then upd_conn k (\<lambda>oc. oc\<lparr>oc_client_used := w_now w1\<rparr>) w1 else w1);
               direction = cell_comes_out cell (w_circs w2 c)
           in if ce_command cell = CELL_RELAY_EARLY \<and>
                 (direction = CELL_DIRECTION_IN \<or> ci_remaining_relay_early_cells (w_circs w2 c) = 0)
              then circuit_mark_for_close env c END_CIRC_REASON_TORPROTOCOL w2
              else
                let w3 = (if ce_command cell = CELL_RELAY_EARLY
                          then upd_circ c (\<lambda>ci. ci\<lparr>ci_remaining_relay_early_cells := ci_remaining_relay_early_cells ci - 1\<rparr>) w2
                          else w2)
                in rbind (circuit_receive_relay_cell env cell c direction w3) (\<lambda>(w4, reason).
                     if reason < 0 then circuit_mark_for_close env c (- reason) w4 else OK w4))"

definition command_process_destroy_cell :: "'d relay_env \<Rightarrow> cell \<Rightarrow> conn_ref \<Rightarrow> 'd world \<Rightarrow> 'd world res" where
  "command_process_destroy_cell env cell k w =
     rbind (circuit_get_by_circid_orconn (ce_circ_id cell) k w) (\<lambda>(found, w1).
     let reason = int (unat (ce_payload cell ! 0)) in
     case found of
       None \<Rightarrow> OK w1
     | Some c \<Rightarrow>
         (case cell_comes_out cell (w_circs w1 c) of
            CELL_DIRECTION_OUT \<Rightarrow>
              rbind (circuit_set_p_circid_orconn c 0 None w1) (\<lambda>w2.
                circuit_mark_for_close env c (reason OR END_CIRC_REASON_FLAG_REMOTE) w2)
          | CELL_DIRECTION_IN \<Rightarrow>
              rbind (circuit_set_n_circid_orconn c 0 None w1) (\<lambda>w2.
                if ci_origin (w_circs w2 c) then circuit_mark_for_close env c (reason OR END_CIRC_REASON_FLAG_REMOTE) w2
                else rbind (relay_send_command_from_edge env 0 c RELAY_COMMAND_TRUNCATED [word_of_int reason] None w2)
                       (\<lambda>(w3, _). OK w3))))"

definition command_process_cell :: "'d relay_env \<Rightarrow> cell \<Rightarrow> conn_ref \<Rightarrow> 'd world \<Rightarrow> 'd world res" where
  "command_process_cell env cell k w =
     (let command = ce_command cell in
      if oc_state (w_conns w k) = OR_CONN_STATE_OR_HANDSHAKING \<and> command \<noteq> CELL_VERSIONS \<and> command \<noteq> CELL_NETINFO
      then OK w
      else if command = CELL_PAYMENT then command_process_payment_cell env cell k w
      else if command = CELL_CREATE \<or> command = CELL_CREATE_FAST then command_process_create_cell env cell k w
      else if command = CELL_CREATED \<or> command = CELL_CREATED_FAST then command_process_created_cell env cell k w
      else if command = CELL_RELAY \<or> command = CELL_RELAY_EARLY then command_process_relay_cell env cell k w
      else if command = CELL_DESTROY then command_process_destroy_cell env cell k w
      else if command = CELL_NETINFO then en_process_netinfo_cell env cell k w
      else OK w)"

subsection \<open>What the dispatch does\<close>

lemma found_circuit:
  assumes "circid_ok w" and "w_circid_map w (k, cid) = Some c" and "\<not> ci_marked_for_close (w_circs w c)"
  obtains l where "circuit_get_by_circid_orconn cid k w = OK (Some c, w\<lparr>w_last_circid_ent := l\<rparr>)"
proof (cases "w_last_circid_ent w = Some (k, cid)")
  case True
  with assms have "circuit_get_by_circid_orconn cid k w = OK (Some c, w\<lparr>w_last_circid_ent := w_last_circid_ent w\<rparr>)"
    by (simp add: circuit_get_by_circid_orconn_def circuit_get_by_circid_orconn_impl_def)
  then show thesis by (rule that)
next
  case False
  with assms show thesis
    by (intro that) (simp add: circuit_get_by_circid_orconn_def circuit_get_by_circid_orconn_impl_def Let_def)
qed

text \<open>Relay cells that are let through to the circuit: of the early kind, only outward and within the budget.\<close>

definition spends_early :: "cell \<Rightarrow> 'd circuit \<Rightarrow> 'd circuit" where
  "spends_early cell ci = (if ce_command cell = CELL_RELAY_EARLY
     then ci\<lparr>ci_remaining_relay_early_cells := ci_remaining_relay_early_cells ci - 1\<rparr> else ci)"

definition relay_admitted :: "cell \<Rightarrow> 'd circuit \<Rightarrow> bool" where
  "relay_admitted cell ci \<longleftrightarrow> ce_command cell = CELL_RELAY \<or>
     ce_command cell = CELL_RELAY_EARLY \<and> cell_comes_out cell ci = CELL_DIRECTION_OUT \<and> ci_remaining_relay_early_cells ci > 0"

lemma relay_dispatch:
  assumes "circid_ok w" and "w_circid_map w (k, ce_circ_id cell) = Some c" and "\<not> ci_marked_for_close (w_circs w c)"
    and "oc_state (w_conns w k) \<noteq> OR_CONN_STATE_OR_HANDSHAKING" and "relay_admitted cell (w_circs w c)"
    and "ci_state (w_circs w c) \<noteq> CIRCUIT_STATE_ONIONSKIN_PENDING" and "\<not> ci_origin (w_circs w c)"
  obtains l where "command_process_cell env cell k w =
    rbind (circuit_receive_relay_cell env cell c (cell_comes_out cell (w_circs w c))
            (upd_circ c (spends_early cell) (w\<lparr>w_last_circid_ent := l\<rparr>)))
      (\<lambda>(w1, reason). if reason < 0 then circuit_mark_for_close env c (- reason) w1 else OK w1)"
proof -
  obtain l where "circuit_get_by_circid_orconn (ce_circ_id cell) k w = OK (Some c, w\<lparr>w_last_circid_ent := l\<rparr>)"
    by (rule found_circuit [OF assms(1-3)])
  moreover have "upd_circ c (\<lambda>ci. ci) v = v" for v :: "'a world" by (simp add: upd_circ_def)
  ultimately have "command_process_cell env cell k w =
    rbind (circuit_receive_relay_cell env cell c (cell_comes_out cell (w_circs w c))
            (upd_circ c (spends_early cell) (w\<lparr>w_last_circid_ent := l\<rparr>)))
      (\<lambda>(w1, reason). if reason < 0 then circuit_mark_for_close env c (- reason) w1 else OK w1)"
    using assms(4-7) unfolding relay_admitted_def spends_early_def [abs_def]
    by (auto simp: command_process_cell_def command_process_relay_cell_def cell_commands Let_def)
  then show thesis by (rule that)
qed

lemma relay_crypt_spends:
  assumes "relay_crypt ops ci cell dir = OK (ci', cell', r)"
  shows "relay_crypt ops (spends_early x ci) cell dir = OK (spends_early x ci', cell', r)"
proof -
  have "relay_crypt ops (ci\<lparr>ci_remaining_relay_early_cells := n\<rparr>) cell dir =
      rbind (relay_crypt ops ci cell dir) (\<lambda>(ci', cell', r). OK (ci'\<lparr>ci_remaining_relay_early_cells := n\<rparr>, cell', r))" for n
  proof (cases dir)
    case CELL_DIRECTION_IN
    then show ?thesis
      by (cases "relay_crypt_origin_loop ops (ci_cpath ci) cell 0"; cases "relay_crypt_one_payload (ci_p_crypto ci) (ce_payload cell)")
        (auto simp: relay_crypt_def split_beta)
  next
    case CELL_DIRECTION_OUT
    then show ?thesis
      by (cases "relay_crypt_one_payload (ci_n_crypto ci) (ce_payload cell)") (auto simp: relay_crypt_def split_beta Let_def)
  qed
  moreover have "ci_remaining_relay_early_cells ci' = ci_remaining_relay_early_cells ci"
    using same_but_crypto_D [OF relay_crypt_same [OF assms]] by simp
  ultimately show ?thesis using assms by (simp add: spends_early_def)
qed

lemma spends_early_sel [simp]:
  "ci_origin (spends_early x ci) = ci_origin ci" "ci_marked_for_close (spends_early x ci) = ci_marked_for_close ci"
  "ring_part (spends_early x ci) = ring_part ci" "next_conn dir (spends_early x ci) = next_conn dir ci"
  "next_circ_id dir (spends_early x ci) = next_circ_id dir ci" "affordable b dir (spends_early x ci) = affordable b dir ci"
  by (cases dir; simp add: spends_early_def ring_part_def next_conn_def next_circ_id_def affordable_def paid_circ_def)+

lemma relay_cell_goes_on:
  assumes ok: "circuits_ok w R" "circid_ok w" and found: "w_circid_map w (k, ce_circ_id cell) = Some c"
    and circ: "\<not> ci_marked_for_close (w_circs w c)" "\<not> ci_origin (w_circs w c)" "ci_state (w_circs w c) \<noteq> CIRCUIT_STATE_ONIONSKIN_PENDING"
    and st: "oc_state (w_conns w k) \<noteq> OR_CONN_STATE_OR_HANDSHAKING" and adm: "relay_admitted cell (w_circs w c)"
    and dir: "dir = cell_comes_out cell (w_circs w c)"
    and crypt: "relay_crypt (en_ops env) (w_circs w c) cell dir = OK (circ1, cell1, Not_Recognized)"
    and len: "length (ce_payload cell1) = CELL_PAYLOAD_SIZE"
    and paid: "affordable (w_CloseUnpaid w) dir (w_circs w c)" and nx: "next_conn dir (w_circs w c) = Some k'"
    and wq: "outbuf_of w k' = [] \<longrightarrow> write_is_queued k' CELL_NETWORK_SIZE w" and hw: "\<forall>k w. same_streams w (fst (en_hw env k w))"
  shows "\<exists>w' R'. command_process_cell env cell k w = OK w' \<and> circuits_ok w' R' \<and>
    abs_sched w' R' = sched_append k' c (cell_pack (on_wire w k' (cell1\<lparr>ce_circ_id := next_circ_id dir (w_circs w c)\<rparr>))) (abs_sched w R) \<and>
    ci_remaining_relay_early_cells (w_circs w' c) = ci_remaining_relay_early_cells (w_circs w c) -
      (if ce_command cell = CELL_RELAY_EARLY then 1 else 0)"
proof -
  obtain l where d: "command_process_cell env cell k w =
    rbind (circuit_receive_relay_cell env cell c dir (upd_circ c (spends_early cell) (w\<lparr>w_last_circid_ent := l\<rparr>)))
      (\<lambda>(w1, reason). if reason < 0 then circuit_mark_for_close env c (- reason) w1 else OK w1)"
    unfolding dir by (rule relay_dispatch [OF ok(2) found circ(1) st adm circ(3,2)])
  let ?v = "upd_circ c (spends_early cell) (w\<lparr>w_last_circid_ent := l\<rparr>)"
  have "same_rings w ?v" by (simp add: same_rings_def upd_circ_def)
  note v = same_rings_ok [OF this] same_rings_views [OF this]
  have "\<exists>w' R'. circuit_receive_relay_cell env cell c dir ?v = OK (w', 0) \<and> circuits_ok w' R' \<and>
      abs_sched w' R' = sched_append k' c (cell_pack (on_wire ?v k' (cell1\<lparr>ce_circ_id := next_circ_id dir (w_circs ?v c)\<rparr>))) (abs_sched ?v R) \<and>
      ci_remaining_relay_early_cells (w_circs w' c) = ci_remaining_relay_early_cells (w_circs ?v c)"
    by (rule receive_passes_on [OF _ _ _ _ len _ _ _ hw, where ?circ1.0 = "spends_early cell circ1"])
      (use ok(1) circ paid nx wq relay_crypt_spends [OF crypt] v in simp_all)
  then obtain w' R' where "circuit_receive_relay_cell env cell c dir ?v = OK (w', 0)" "circuits_ok w' R'"
    "abs_sched w' R' = sched_append k' c (cell_pack (on_wire w k' (cell1\<lparr>ce_circ_id := next_circ_id dir (w_circs w c)\<rparr>))) (abs_sched w R)"
    "ci_remaining_relay_early_cells (w_circs w' c) = ci_remaining_relay_early_cells (spends_early cell (w_circs w c))"
    unfolding v by auto
  then show ?thesis by (intro exI [of _ w'] exI [of _ R']) (simp add: d spends_early_def)
qed

text \<open>Writing a cell at once to a connection.\<close>

lemma write_cell_ok:
  assumes "or_conns_wf w" and "write_is_queued k CELL_NETWORK_SIZE w" and "length (ce_payload cell) = CELL_PAYLOAD_SIZE"
  shows "\<exists>w'. connection_or_write_cell_to_buf hw cell k w = OK w' \<and> w_events w' = w_events w \<and> w_circs w' = w_circs w \<and>
    (\<forall>j. outbuf_of w' j = outbuf_of w j @ (if j = k then cell_pack cell else []))"
proof -
  have len: "length (cell_pack cell) = CELL_NETWORK_SIZE"
    using assms(3) by (simp add: cell_pack_def cell_sizes be16_def)
  then have "cell_pack cell \<noteq> []" "length (cell_pack cell) \<le> 4096" by (auto simp: cell_sizes)
  from connection_write_to_buf_queued [OF assms(1) this(1) _ this(2), of k hw] assms(2) len obtain st b where
    1: "connection_write_to_buf hw (cell_pack cell) k w = OK (upd_conn k (\<lambda>c. c\<lparr>cn_outbuf := b, cn_writing := True,
       cn_outbuf_flushlen := cn_outbuf_flushlen c + length (cell_pack cell)\<rparr>) (w\<lparr>w_alloc := st\<rparr>))"
    and 2: "buf_bytes b = buf_bytes (cn_outbuf (w_conns w k)) @ cell_pack cell"
    by auto
  show ?thesis
    unfolding connection_or_write_cell_to_buf_def 1 by (simp add: outbuf_of_def) (simp add: upd_conn_def 2)
qed

text \<open>
  Where a cell of a circuit comes from and where it is to go, by the connections of the circuit: outward
  from the previous connection to the next, inward the other way.  The IDs of the two sides differ.
\<close>

definition arrives_on :: "'d circuit \<Rightarrow> conn_ref \<Rightarrow> u16 \<Rightarrow> cell_direction \<Rightarrow> bool" where
  "arrives_on ci k cid dir \<longleftrightarrow> ci_n_circ_id ci \<noteq> ci_p_circ_id ci \<and> (case dir of
     CELL_DIRECTION_OUT \<Rightarrow> ci_p_conn ci = Some k \<and> ci_p_circ_id ci = cid
   | CELL_DIRECTION_IN \<Rightarrow> ci_n_conn ci = Some k \<and> ci_n_circ_id ci = cid)"

definition leaves_on :: "'d circuit \<Rightarrow> cell_direction \<Rightarrow> conn_ref \<Rightarrow> u16 \<Rightarrow> bool" where
  "leaves_on ci dir k cid \<longleftrightarrow> (case dir of
     CELL_DIRECTION_OUT \<Rightarrow> ci_n_conn ci = Some k \<and> ci_n_circ_id ci = cid
   | CELL_DIRECTION_IN \<Rightarrow> ci_p_conn ci = Some k \<and> ci_p_circ_id ci = cid)"

definition layer_key :: "cell_direction \<Rightarrow> 'd circuit \<Rightarrow> aes_cnt_cipher" where
  "layer_key dir ci = (case dir of CELL_DIRECTION_OUT \<Rightarrow> ci_n_crypto ci | CELL_DIRECTION_IN \<Rightarrow> ci_p_crypto ci)"

definition early_allowed :: "cell \<Rightarrow> cell_direction \<Rightarrow> 'd circuit \<Rightarrow> bool" where
  "early_allowed cell dir ci \<longleftrightarrow> ce_command cell = CELL_RELAY \<or>
     ce_command cell = CELL_RELAY_EARLY \<and> dir = CELL_DIRECTION_OUT \<and> ci_remaining_relay_early_cells ci > 0"

lemma arrives_direction: "arrives_on ci k (ce_circ_id cell) dir \<Longrightarrow> \<not> ci_origin ci \<Longrightarrow> cell_comes_out cell ci = dir"
  by (cases dir) (auto simp: arrives_on_def cell_comes_out_def)

lemma leaves_next:
  "leaves_on ci dir k cid \<Longrightarrow> next_conn dir ci = Some k" "leaves_on ci dir k cid \<Longrightarrow> next_circ_id dir ci = cid"
  by (cases dir; simp add: leaves_on_def next_conn_def next_circ_id_def)+

lemma early_admitted: "early_allowed cell dir ci \<Longrightarrow> cell_comes_out cell ci = dir \<Longrightarrow> relay_admitted cell ci"
  by (auto simp: early_allowed_def relay_admitted_def)

text \<open>A relay that takes its layer off or puts it on, and does not keep the cell.\<close>

lemma relay_crypt_layer:
  assumes "\<not> ci_origin circ" and "aes_ok (layer_key dir circ)" and "length (ce_payload cell) = CELL_PAYLOAD_SIZE"
  shows "\<exists>circ' cell' r. relay_crypt ops circ cell dir = OK (circ', cell', r) \<and> r \<noteq> Crypt_Fail \<and>
    (dir = CELL_DIRECTION_OUT \<and> meant_for ops (ci_n_digest circ) (key_layer (layer_key dir circ) (ce_payload cell)) \<or>
     cell' = cell\<lparr>ce_payload := key_layer (layer_key dir circ) (ce_payload cell)\<rparr> \<and> r = Not_Recognized)"
proof (cases dir)
  case CELL_DIRECTION_IN
  then show ?thesis using relay_crypt_in_rule [of circ ops cell] assms by (auto simp: layer_key_def)
next
  case CELL_DIRECTION_OUT
  then show ?thesis using relay_crypt_out_rule [OF assms(1) _ assms(3) refl, of ops] assms(2)
    by (auto simp: layer_key_def split: if_splits)
qed

subsection \<open>The properties\<close>

text \<open>
  C7: a relay cell in transit.  Let a relay cell arrive on one of the two connections of a circuit of a relay,
  under the ID the circuit has there; let the circuit have different IDs on its two connections, be
  established and paid for, and let the cell, if it comes from the side of the origin, not be meant for this
  relay.  The dispatch of the cell returns and queues exactly one cell, on the other connection of the
  circuit and under the ID the circuit has there, in turn with the other circuits of that connection: its
  payload with the key stream of that direction applied.  A RELAY\_EARLY cell, allowed outward only and while
  the budget lasts, is charged to the budget; every other cell leaves it alone.
\<close>

theorem relay_cell_passed_on:
  assumes "circuits_ok w R" and "circid_ok w" and "w_circid_map w (k, ce_circ_id cell) = Some c"
    and "\<not> ci_marked_for_close (w_circs w c)" and "\<not> ci_origin (w_circs w c)" and "ci_state (w_circs w c) \<noteq> CIRCUIT_STATE_ONIONSKIN_PENDING"
    and "oc_state (w_conns w k) \<noteq> OR_CONN_STATE_OR_HANDSHAKING"
    and "arrives_on (w_circs w c) k (ce_circ_id cell) dir" and "leaves_on (w_circs w c) dir k' cid'"
    and "early_allowed cell dir (w_circs w c)"
    and "aes_ok (layer_key dir (w_circs w c))" and "length (ce_payload cell) = CELL_PAYLOAD_SIZE"
    and "p = key_layer (layer_key dir (w_circs w c)) (ce_payload cell)"
    and "dir = CELL_DIRECTION_OUT \<longrightarrow> \<not> meant_for (en_ops env) (ci_n_digest (w_circs w c)) p"
    and "affordable (w_CloseUnpaid w) dir (w_circs w c)"
    and "outbuf_of w k' = [] \<longrightarrow> write_is_queued k' CELL_NETWORK_SIZE w" and "\<forall>k w. same_streams w (fst (en_hw env k w))"
  shows "\<exists>w' R'. command_process_cell env cell k w = OK w' \<and> circuits_ok w' R' \<and>
    abs_sched w' R' = sched_append k' c (cell_pack (on_wire w k' (cell\<lparr>ce_payload := p, ce_circ_id := cid'\<rparr>))) (abs_sched w R) \<and>
    ci_remaining_relay_early_cells (w_circs w' c) = ci_remaining_relay_early_cells (w_circs w c) -
      (if ce_command cell = CELL_RELAY_EARLY then 1 else 0)"
proof -
  have dir: "dir = cell_comes_out cell (w_circs w c)" using arrives_direction [OF assms(8,5)] by simp
  have adm: "relay_admitted cell (w_circs w c)" using early_admitted [OF assms(10)] dir by simp
  obtain circ1 where crypt: "relay_crypt (en_ops env) (w_circs w c) cell dir = OK (circ1, cell\<lparr>ce_payload := p\<rparr>, Not_Recognized)"
    using relay_crypt_layer [OF assms(5,11,12), of "en_ops env"] assms(13,14) by auto
  have len: "length (ce_payload (cell\<lparr>ce_payload := p\<rparr>)) = CELL_PAYLOAD_SIZE" using assms(12,13) by (simp add: key_layer_length)
  show ?thesis
    using relay_cell_goes_on [OF assms(1-7) adm dir crypt len assms(15) leaves_next(1) [OF assms(9)] assms(16,17)]
    unfolding leaves_next(2) [OF assms(9)] .
qed

text \<open>
  A cell sent back to where it came from.  The direction of a cell is told by its circuit ID alone, although IDs
  are chosen per connection.  When the two neighbours of a relay happen to use one ID for a circuit, a
  cell that the next hop sends towards the origin is taken for one that goes out: the relay encrypts it
  with the key of the other direction and queues it on the connection it arrived on.
\<close>

lemma inward_cell_returned:
  assumes "circuits_ok w R" and "circid_ok w" and "w_circid_map w (k, ce_circ_id cell) = Some c"
    and "ci_n_conn (w_circs w c) = Some k" and "ci_n_circ_id (w_circs w c) = ce_circ_id cell"
    and "ci_p_conn (w_circs w c) = Some j" and "j \<noteq> k" and "ci_p_circ_id (w_circs w c) = ce_circ_id cell"
    and "\<not> ci_marked_for_close (w_circs w c)" and "\<not> ci_origin (w_circs w c)" and "ci_state (w_circs w c) \<noteq> CIRCUIT_STATE_ONIONSKIN_PENDING"
    and "oc_state (w_conns w k) \<noteq> OR_CONN_STATE_OR_HANDSHAKING" and "ce_command cell = CELL_RELAY"
    and "relay_crypt (en_ops env) (w_circs w c) cell CELL_DIRECTION_OUT = OK (circ1, cell1, Not_Recognized)"
    and "length (ce_payload cell1) = CELL_PAYLOAD_SIZE"
    and "affordable (w_CloseUnpaid w) CELL_DIRECTION_OUT (w_circs w c)"
    and "outbuf_of w k = [] \<longrightarrow> write_is_queued k CELL_NETWORK_SIZE w" and "\<forall>k w. same_streams w (fst (en_hw env k w))"
  shows "\<exists>w' R'. command_process_cell env cell k w = OK w' \<and> circuits_ok w' R' \<and>
    abs_sched w' R' = sched_append k c (cell_pack (on_wire w k (cell1\<lparr>ce_circ_id := ce_circ_id cell\<rparr>))) (abs_sched w R)"
proof -
  have "relay_admitted cell (w_circs w c)" "CELL_DIRECTION_OUT = cell_comes_out cell (w_circs w c)"
    "next_conn CELL_DIRECTION_OUT (w_circs w c) = Some k" "next_circ_id CELL_DIRECTION_OUT (w_circs w c) = ce_circ_id cell"
    using assms by (simp_all add: relay_admitted_def cell_comes_out_def next_conn_def next_circ_id_def)
  with relay_cell_goes_on [OF assms(1-3,9-12) this(1,2) assms(14-16) this(3) assms(17,18)] show ?thesis by auto
qed

text \<open>The changes that decrypting a cell and charging for it make to a circuit: ciphers, digests, credit and budget.\<close>

definition charged_only :: "'d circuit \<Rightarrow> 'd circuit \<Rightarrow> bool" where
  "charged_only ci ci' \<longleftrightarrow> ci' = ci\<lparr>ci_cpath := ci_cpath ci', ci_n_crypto := ci_n_crypto ci', ci_p_crypto := ci_p_crypto ci',
     ci_n_digest := ci_n_digest ci', ci_p_digest := ci_p_digest ci', ci_payedReads := ci_payedReads ci',
     ci_payedWrites := ci_payedWrites ci', ci_remaining_relay_early_cells := ci_remaining_relay_early_cells ci'\<rparr>"

lemma charged_only_paid:
  assumes "same_but_crypto ci ci'"
  shows "charged_only ci (paid_circ b dir (spends_early cell ci'))"
proof -
  have "ci' = ci\<lparr>ci_cpath := ci_cpath ci', ci_n_crypto := ci_n_crypto ci', ci_p_crypto := ci_p_crypto ci',
     ci_n_digest := ci_n_digest ci', ci_p_digest := ci_p_digest ci'\<rparr>" using assms unfolding same_but_crypto_def .
  then obtain h a1 a2 d1 d2 where "ci' = ci\<lparr>ci_cpath := h, ci_n_crypto := a1, ci_p_crypto := a2, ci_n_digest := d1, ci_p_digest := d2\<rparr>" by blast
  then show ?thesis unfolding charged_only_def by (cases ci; cases dir) (simp add: paid_circ_def spends_early_def)+
qed

text \<open>
  C8: a circuit without credit.  When the relay counts payments and the credit of a circuit is used up beyond
  what it grants in advance, the next relay cell, from either side, is neither delivered nor passed on.  Before the
  circuit is closed, nothing but its ciphers, digests, credit and budget of RELAY\_EARLY cells and the cache
  of the ID map has changed: no stream, window, queue, ring, buffer or event.  The circuit is then marked for close
  with the reason UNPAID and, if that returns, exactly it and the other half of its rendezvous
  are newly marked.
\<close>

theorem unpaid_circuit_closed:
  assumes "circid_ok w" and "w_circid_map w (k, ce_circ_id cell) = Some c"
    and "\<not> ci_marked_for_close (w_circs w c)" and "or_circuits w c" and "ci_state (w_circs w c) \<noteq> CIRCUIT_STATE_ONIONSKIN_PENDING"
    and "oc_state (w_conns w k) \<noteq> OR_CONN_STATE_OR_HANDSHAKING"
    and "arrives_on (w_circs w c) k (ce_circ_id cell) dir" and "early_allowed cell dir (w_circs w c)"
    and "aes_ok (layer_key dir (w_circs w c))" and "length (ce_payload cell) = CELL_PAYLOAD_SIZE"
    and "\<not> affordable (w_CloseUnpaid w) dir (w_circs w c)" and "env_keeps same_splices env"
  shows "\<exists>ci l. charged_only (w_circs w c) ci \<and> command_process_cell env cell k w =
      circuit_mark_for_close env c END_CIRC_REASON_UNPAID (upd_circ c (\<lambda>_. ci) (w\<lparr>w_last_circid_ent := l\<rparr>)) \<and>
    (\<forall>w'. command_process_cell env cell k w = OK w' \<longrightarrow>
      (\<forall>d. ci_marked_for_close (w_circs w' d) = (ci_marked_for_close (w_circs w d) \<or> d \<in> closes_with w c)))"
proof -
  have orig: "\<not> ci_origin (w_circs w c)" using assms(4) by (simp add: or_circuits_def)
  have dir: "cell_comes_out cell (w_circs w c) = dir" by (rule arrives_direction [OF assms(7) orig])
  obtain circ1 cell1 r where crypt: "relay_crypt (en_ops env) (w_circs w c) cell dir = OK (circ1, cell1, r)" "r \<noteq> Crypt_Fail"
    using relay_crypt_layer [OF orig assms(9,10), of "en_ops env"] by blast
  obtain l where d: "command_process_cell env cell k w =
    rbind (circuit_receive_relay_cell env cell c dir (upd_circ c (spends_early cell) (w\<lparr>w_last_circid_ent := l\<rparr>)))
      (\<lambda>(w1, reason). if reason < 0 then circuit_mark_for_close env c (- reason) w1 else OK w1)"
    by (rule relay_dispatch [OF assms(1-3,6) early_admitted [OF assms(8) dir] assms(5) orig, of env, unfolded dir])
  let ?v = "upd_circ c (spends_early cell) (w\<lparr>w_last_circid_ent := l\<rparr>)" and ?ci = "paid_circ (w_CloseUnpaid w) dir (spends_early cell circ1)"
  note same = relay_crypt_same [OF crypt(1)]
  have "circuit_receive_relay_cell env cell c dir ?v = OK (upd_circ c (\<lambda>_. ?ci) ?v, - END_CIRC_REASON_UNPAID)"
    using receive_unpaid [of ?v c env cell dir "spends_early cell circ1" cell1 r] relay_crypt_spends [OF crypt(1)] assms(3,11) crypt(2)
    by simp
  then have r: "command_process_cell env cell k w = circuit_mark_for_close env c END_CIRC_REASON_UNPAID (upd_circ c (\<lambda>_. ?ci) ?v)"
    using d by (simp add: end_circ_reasons)
  let ?u = "upd_circ c (\<lambda>_. ?ci) ?v"
  have marks: "ci_marked_for_close (w_circs ?u d) = ci_marked_for_close (w_circs w d)" "ci_origin (w_circs ?u d) = ci_origin (w_circs w d)"
    "ci_rend_splice (w_circs ?u c) = ci_rend_splice (w_circs w c)" for d
    using same_but_crypto_D [OF same] by (cases dir; simp add: paid_circ_def spends_early_def)+
  have or: "or_circuits ?u c" using assms(4) unfolding or_circuits_def marks .
  have "after (\<lambda>w'. \<forall>d. ci_marked_for_close (w_circs w' d) = (ci_marked_for_close (w_circs w d) \<or> d \<in> closes_with w c))
      (circuit_mark_for_close env c END_CIRC_REASON_UNPAID ?u)"
    using mark_circuits_returns [OF assms(12) or, of END_CIRC_REASON_UNPAID]
    unfolding marks closes_with_def circuit_mark_for_close_def by auto
  moreover have "?u = upd_circ c (\<lambda>_. ?ci) (w\<lparr>w_last_circid_ent := l\<rparr>)" by (simp add: upd_circ_def)
  note eq = this
  ultimately have marked: "\<forall>w'. command_process_cell env cell k w = OK w' \<longrightarrow>
      (\<forall>d. ci_marked_for_close (w_circs w' d) = (ci_marked_for_close (w_circs w d) \<or> d \<in> closes_with w c))"
    unfolding r by (simp add: after_def)
  show ?thesis
    by (intro exI [of _ ?ci] exI [of _ l] conjI charged_only_paid [OF same] marked) (simp only: r eq)
qed

text \<open>
  C9: payment messages.  A PAYMENT cell with hop count \<open>h\<close> that arrives on one of the two connections of a
  circuit of a relay, under the ID the circuit has there, the IDs of the two sides being different: at 1 the
  message ends here and its body, in base64 without line breaks, is handed to the
  controller as one event; at every other count it is written to the other connection of the circuit, under
  the ID the circuit has there, with the count one lower and the body unchanged.  The count is decremented before it is tested, so that a
  count of 0 becomes 65535 and the message travels on to the end of the circuit.
\<close>

theorem payment_cell_hops:
  assumes "circid_ok w" and "or_conns_wf w" and "w_circid_map w (k, ce_circ_id cell) = Some c"
    and "\<not> ci_marked_for_close (w_circs w c)" and "\<not> ci_origin (w_circs w c)"
    and "oc_state (w_conns w k) \<noteq> OR_CONN_STATE_OR_HANDSHAKING" and "ce_command cell = CELL_PAYMENT"
    and "ce_payload cell = be16 h @ body" and "length body = CELL_PAYLOAD_SIZE - 2"
    and "arrives_on (w_circs w c) k (ce_circ_id cell) dir" and "leaves_on (w_circs w c) dir k' cid'"
    and "write_is_queued k' CELL_NETWORK_SIZE w"
  shows "\<exists>w'. command_process_cell env cell k w = OK w' \<and>
    (if h = 1 then outbuf_of w' = outbuf_of w \<and>
       w_events w' = w_events w @ [orcircuit_event ''PAYMENT'' (tor_strstrip (en_evp_encode env body) [10]) (w_circs w c) dir]
     else w_events w' = w_events w \<and> (\<forall>j. outbuf_of w' j = outbuf_of w j @ (if j = k' then cell_pack
       \<lparr>ce_circ_id = cid', ce_command = CELL_PAYMENT, ce_payload = be16 (h - 1) @ body\<rparr> else [])))"
proof -
  have dir: "cell_comes_out cell (w_circs w c) = dir" by (rule arrives_direction [OF assms(10,5)])
  note nx = leaves_next [OF assms(11)]
  obtain l where l: "circuit_get_by_circid_orconn (ce_circ_id cell) k w = OK (Some c, w\<lparr>w_last_circid_ent := l\<rparr>)"
    by (rule found_circuit [OF assms(1,3,4)])
  let ?v = "w\<lparr>w_last_circid_ent := l\<rparr>"
  let ?cell = "\<lparr>ce_circ_id = cid', ce_command = CELL_PAYMENT, ce_payload = be16 (h - 1) @ body\<rparr>"
  have pl: "rd16 (ce_payload cell) = h" "drop 2 (ce_payload cell) = body" "take (CELL_PAYLOAD_SIZE - 2) body = body"
    using assms(8,9) rd16_be16 [of h body] by (simp_all add: be16_def)
  have h: "(1 \<le> h - 1) = (h \<noteq> 1)"
    by (metis eq_iff_diff_eq_0 linorder_not_less word_less_1)
  have b64: "base64_encode env 1000 body = Some (en_evp_encode env body)"
    using assms(9) by (simp add: base64_encode_def cell_sizes)
  have d: "command_process_cell env cell k w = (if h \<noteq> 1 then connection_or_write_cell_to_buf (en_hw env) ?cell k' ?v
      else control_event_orcircuit ''PAYMENT'' (tor_strstrip (en_evp_encode env body) [10]) c dir ?v)"
    using assms(5-7) l pl b64 h nx dir
    by (cases dir) (simp_all add: command_process_cell_def command_process_payment_cell_def cell_commands Let_def next_conn_def next_circ_id_def)
  have "or_conns_wf ?v" "write_is_queued k' CELL_NETWORK_SIZE ?v" "outbuf_of ?v = outbuf_of w" "length (ce_payload ?cell) = CELL_PAYLOAD_SIZE"
    using assms(2,9,12) by (simp_all add: or_conns_wf_def write_is_queued_def outbuf_of_def fun_eq_iff be16_def cell_sizes)
  from write_cell_ok [OF this(1,2,4), of "en_hw env"] this(3) d show ?thesis
    using assms(5) by (auto simp: control_event_orcircuit_def outbuf_of_def fun_eq_iff)
qed

subsection \<open>Examples\<close>

text \<open>
  A relay with one circuit between connections 3 and 4, under ID \<open>pid\<close> on the first and 7 on the second, and
  with credit \<open>m\<close>.
\<close>

definition relay_circ :: "u16 \<Rightarrow> int \<Rightarrow> aes_cnt_cipher \<Rightarrow> unit circuit" where
  "relay_circ pid m a = idle_circuit\<lparr>ci_n_conn := Some 4, ci_p_conn := Some 3, ci_p_circ_id := pid, ci_p_crypto := a, ci_n_crypto := a,
     ci_payedReads := m, ci_payedWrites := m\<rparr>"

definition relay_world :: "u16 \<Rightarrow> int \<Rightarrow> aes_cnt_cipher \<Rightarrow> unit world" where
  "relay_world pid m a = idle_world\<lparr>w_circs := (\<lambda>_. relay_circ pid m a), w_circid_map := [(4, 7) \<mapsto> 2, (3, pid) \<mapsto> 2]\<rparr>"

lemma relay_world_sel:
  "w_circs (relay_world pid m a) c = relay_circ pid m a" "w_CloseUnpaid (relay_world pid m a)"
  "w_circid_map (relay_world pid m a) (4, 7) = Some 2" "oc_state (w_conns (relay_world pid m a) k) \<noteq> OR_CONN_STATE_OR_HANDSHAKING"
  "w_events (relay_world pid m a) = []" "outbuf_of (relay_world pid m a) k = []"
  by (simp_all add: relay_world_def idle_world_def idle_conn_def OR_CONN_STATE_OR_HANDSHAKING_def outbuf_of_def buf_bytes_def buf_new_def)

lemma relay_circ_sel:
  "\<not> ci_marked_for_close (relay_circ pid m a)" "\<not> ci_origin (relay_circ pid m a)" "ci_state (relay_circ pid m a) \<noteq> CIRCUIT_STATE_ONIONSKIN_PENDING"
  "ci_n_conn (relay_circ pid m a) = Some 4" "ci_p_conn (relay_circ pid m a) = Some 3" "ci_p_circ_id (relay_circ pid m a) = pid"
  "ci_n_circ_id (relay_circ pid m a) = 7" "ci_p_crypto (relay_circ pid m a) = a" "ci_n_crypto (relay_circ pid m a) = a"
  "ci_payedReads (relay_circ pid m a) = m" "ci_payedWrites (relay_circ pid m a) = m"
  by (simp_all add: relay_circ_def idle_circuit_def CIRCUIT_STATE_ONIONSKIN_PENDING_def)

lemma relay_world_ok: "circuits_ok (relay_world pid m a) (\<lambda>_. [])" "circid_ok (relay_world pid m a)"
  "write_is_queued k CELL_NETWORK_SIZE (relay_world pid m a)"
proof -
  show "circuits_ok (relay_world pid m a) (\<lambda>_. [])"
    by (rule quiet_world_ok [where orig = False and n = "Some 4" and p = "Some 3"])
      (simp_all add: relay_world_def relay_circ_def ring_part_def idle_circuit_def idle_world_def)
  show "circid_ok (relay_world pid m a)"
    by (auto simp: circid_ok_def relay_world_def idle_world_def relay_circ_def idle_circuit_def side_queue_def side_conn_def side_idle_def
        attached_def split: if_splits)
  show "write_is_queued k CELL_NETWORK_SIZE (relay_world pid m a)"
    by (simp add: relay_world_def write_is_queued_def idle_world_def idle_conn_def buf_new_def buf_bytes_def int_max_def cell_sizes)
qed

lemma relay_world_sides:
  "pid \<noteq> 7 \<Longrightarrow> arrives_on (w_circs (relay_world pid m a) 2) 4 7 CELL_DIRECTION_IN"
  "leaves_on (w_circs (relay_world pid m a) 2) CELL_DIRECTION_IN 3 pid"
  by (simp_all add: arrives_on_def leaves_on_def relay_world_sel relay_circ_sel)

definition zero_relay_cell :: cell where
  "zero_relay_cell = \<lparr>ce_circ_id = 7, ce_command = CELL_RELAY, ce_payload = replicate 509 0\<rparr>"

theorem relay_cell_passed_on_witness:
  "\<exists>a w' R'. aes_ok a \<and> command_process_cell idle_env zero_relay_cell 4 (relay_world 5 100 a) = OK w' \<and>
     abs_sched w' R' = sched_append 3 2 (cell_pack \<lparr>ce_circ_id = 5, ce_command = CELL_RELAY, ce_payload = key_layer a (replicate 509 0)\<rparr>)
       (abs_sched (relay_world 5 100 a) (\<lambda>_. []))"
proof -
  obtain a where a: "aes_ok a" using a_cipher by blast
  let ?w = "relay_world 5 100 a"
  have k: "layer_key CELL_DIRECTION_IN (w_circs ?w 2) = a" by (simp add: layer_key_def relay_world_sel relay_circ_sel)
  have ar: "arrives_on (w_circs ?w 2) 4 (ce_circ_id zero_relay_cell) CELL_DIRECTION_IN"
    using relay_world_sides(1) [of 5] by (simp add: zero_relay_cell_def)
  have ok: "aes_ok (layer_key CELL_DIRECTION_IN (w_circs ?w 2))" "length (ce_payload zero_relay_cell) = CELL_PAYLOAD_SIZE"
    "w_circid_map ?w (4, ce_circ_id zero_relay_cell) = Some 2" "early_allowed zero_relay_cell CELL_DIRECTION_IN (w_circs ?w 2)"
    "affordable (w_CloseUnpaid ?w) CELL_DIRECTION_IN (w_circs ?w 2)"
    using a by (simp_all add: layer_key_def zero_relay_cell_def cell_sizes relay_world_sel relay_circ_sel early_allowed_def affordable_def paid_circ_def CIRCWINDOW_INCREMENT_def)
  obtain w' R' where "command_process_cell idle_env zero_relay_cell 4 ?w = OK w'"
    "abs_sched w' R' = sched_append 3 2 (cell_pack (on_wire ?w 3 (zero_relay_cell\<lparr>ce_payload := key_layer a (ce_payload zero_relay_cell), ce_circ_id := 5\<rparr>)))
       (abs_sched ?w (\<lambda>_. []))"
    using relay_cell_passed_on [OF relay_world_ok(1,2) ok(3) _ _ _ relay_world_sel(4) ar relay_world_sides(2) ok(4,1,2) refl _ ok(5) _ idle_env_laws(2)]
      relay_world_ok(3) k by (auto simp: relay_world_sel(1) relay_circ_sel)
  moreover have "on_wire ?w 3 (zero_relay_cell\<lparr>ce_payload := key_layer a (ce_payload zero_relay_cell), ce_circ_id := 5\<rparr>) =
      \<lparr>ce_circ_id = 5, ce_command = CELL_RELAY, ce_payload = key_layer a (replicate 509 0)\<rparr>"
    by (simp add: zero_relay_cell_def on_wire_def cell_commands)
  ultimately show ?thesis using a by metis
qed

theorem unpaid_circuit_closed_witness:
  "\<exists>a ci l. aes_ok a \<and> charged_only (relay_circ 5 (- 100) a) ci \<and>
     command_process_cell idle_env zero_relay_cell 4 (relay_world 5 (- 100) a) =
       circuit_mark_for_close idle_env 2 END_CIRC_REASON_UNPAID (upd_circ 2 (\<lambda>_. ci) ((relay_world 5 (- 100) a)\<lparr>w_last_circid_ent := l\<rparr>))"
proof -
  obtain a where a: "aes_ok a" using a_cipher by blast
  let ?w = "relay_world 5 (- 100) a"
  have ar: "arrives_on (w_circs ?w 2) 4 (ce_circ_id zero_relay_cell) CELL_DIRECTION_IN"
    using relay_world_sides(1) [of 5] by (simp add: zero_relay_cell_def)
  have ok: "aes_ok (layer_key CELL_DIRECTION_IN (w_circs ?w 2))" "length (ce_payload zero_relay_cell) = CELL_PAYLOAD_SIZE"
    "w_circid_map ?w (4, ce_circ_id zero_relay_cell) = Some 2" "early_allowed zero_relay_cell CELL_DIRECTION_IN (w_circs ?w 2)"
    "\<not> affordable (w_CloseUnpaid ?w) CELL_DIRECTION_IN (w_circs ?w 2)" "\<not> ci_marked_for_close (w_circs ?w 2)"
    "ci_state (w_circs ?w 2) \<noteq> CIRCUIT_STATE_ONIONSKIN_PENDING"
    using a by (simp_all add: layer_key_def zero_relay_cell_def cell_sizes relay_world_sel relay_circ_sel early_allowed_def affordable_def
        paid_circ_def CIRCWINDOW_INCREMENT_def)
  have "or_circuits ?w 2" by (auto simp: or_circuits_def relay_world_sel relay_circ_sel split: option.split)
  from unpaid_circuit_closed [OF relay_world_ok(2) ok(3,6) this ok(7) relay_world_sel(4) ar ok(4,1,2,5) idle_env_splices] a
  show ?thesis unfolding relay_world_sel(1) by blast
qed

theorem payment_cell_hops_witness:
  "\<exists>w'. command_process_cell idle_env \<lparr>ce_circ_id = 7, ce_command = CELL_PAYMENT, ce_payload = be16 0 @ replicate 507 9\<rparr> 4
      (relay_world 5 100 aes_new_cipher) = OK w' \<and>
     outbuf_of w' 3 = cell_pack \<lparr>ce_circ_id = 5, ce_command = CELL_PAYMENT, ce_payload = be16 65535 @ replicate 507 9\<rparr>"
proof -
  let ?cell = "\<lparr>ce_circ_id = 7, ce_command = CELL_PAYMENT, ce_payload = be16 0 @ replicate 507 9\<rparr>" and ?w = "relay_world 5 100 aes_new_cipher"
  have ar: "arrives_on (w_circs ?w 2) 4 (ce_circ_id ?cell) CELL_DIRECTION_IN" using relay_world_sides(1) [of 5] by simp
  have len: "length (replicate 507 (9 :: byte)) = CELL_PAYLOAD_SIZE - 2" by (simp add: cell_sizes)
  have "w_circid_map ?w (4, ce_circ_id ?cell) = Some 2" by (simp add: relay_world_sel)
  from payment_cell_hops [OF relay_world_ok(2) circuits_ok_D(1) [OF relay_world_ok(1)] this _ _ relay_world_sel(4) _ _ len ar relay_world_sides(2)
      relay_world_ok(3), of 0 idle_env]
  obtain w' where "command_process_cell idle_env ?cell 4 ?w = OK w'"
    "\<forall>j. outbuf_of w' j = outbuf_of ?w j @ (if j = 3 then cell_pack
       \<lparr>ce_circ_id = 5, ce_command = CELL_PAYMENT, ce_payload = be16 (0 - 1) @ replicate 507 9\<rparr> else [])"
    by (auto simp: relay_world_sel(1) relay_circ_sel)
  moreover have "(0 - 1 :: u16) = 65535" by simp
  ultimately show ?thesis by (simp only: relay_world_sel(6)) simp
qed

end
