(* ===== verification/PQueue.thy ===== *)
theory PQueue
  imports Smartlist
begin

section \<open>Priority queues in resizable arrays (container.c)\<close>

text \<open>
  \<^verbatim>\<open>smartlist_pqueue_add\<close>, \<^verbatim>\<open>smartlist_pqueue_pop\<close>, \<^verbatim>\<open>smartlist_heapify\<close> and the consistency check.
  Indices are below \<open>2\<^sup>3\<^sup>0\<close>, the largest length of a list, so the index computations do not overflow.
  The interface of a priority queue is the locale \<open>priority_queue\<close>; every comparison function gives
  an instance of it.
\<close>

definition LEFT_CHILD :: "nat \<Rightarrow> nat" where "LEFT_CHILD i = 2 * i + 1"
definition PARENT :: "nat \<Rightarrow> nat" where "PARENT i = (i - 1) div 2"

definition heapify_best :: "('a \<Rightarrow> 'a \<Rightarrow> int) \<Rightarrow> nat \<Rightarrow> 'a list \<Rightarrow> nat" where
  "heapify_best compare idx xs =
     (let left_idx = LEFT_CHILD idx;
          best_idx = (if compare (xs ! idx) (xs ! left_idx) < 0 then idx else left_idx)
      in if left_idx + 1 < length xs \<and> compare (xs ! (left_idx + 1)) (xs ! best_idx) < 0
         then left_idx + 1 else best_idx)"

function heapify_loop :: "('a \<Rightarrow> 'a \<Rightarrow> int) \<Rightarrow> nat \<Rightarrow> 'a list \<Rightarrow> 'a list" where
  "heapify_loop compare idx xs =
     (if LEFT_CHILD idx \<ge> length xs then xs
      else let best_idx = heapify_best compare idx xs in
        if best_idx = idx then xs
        else heapify_loop compare best_idx (swap_at xs idx best_idx))"
  by auto
termination
  by (relation "measure (\<lambda>(c, i, xs). length xs - i)")
    (auto simp: heapify_best_def LEFT_CHILD_def Let_def split: if_splits)

declare heapify_loop.simps [simp del]

definition smartlist_heapify :: "'a smartlist \<Rightarrow> ('a \<Rightarrow> 'a \<Rightarrow> int) \<Rightarrow> nat \<Rightarrow> 'a smartlist" where
  "smartlist_heapify sl compare idx = sl\<lparr>sl_list := heapify_loop compare idx (sl_list sl)\<rparr>"

function sift_up :: "('a \<Rightarrow> 'a \<Rightarrow> int) \<Rightarrow> nat \<Rightarrow> 'a list \<Rightarrow> 'a list" where
  "sift_up compare idx xs =
     (if idx = 0 then xs
      else let parent = PARENT idx in
        if compare (xs ! idx) (xs ! parent) < 0 then sift_up compare parent (swap_at xs parent idx)
        else xs)"
  by auto
termination by (relation "measure (\<lambda>(c, i, xs). i)") (auto simp: PARENT_def)

declare sift_up.simps [simp del]

definition smartlist_pqueue_add :: "'a smartlist \<Rightarrow> ('a \<Rightarrow> 'a \<Rightarrow> int) \<Rightarrow> 'a \<Rightarrow> 'a smartlist res" where
  "smartlist_pqueue_add sl compare item =
     rbind (smartlist_add sl item) (\<lambda>sl1.
       OK (sl1\<lparr>sl_list := sift_up compare (smartlist_len sl1 - 1) (sl_list sl1)\<rparr>))"

definition smartlist_pqueue_pop :: "'a smartlist \<Rightarrow> ('a \<Rightarrow> 'a \<Rightarrow> int) \<Rightarrow> ('a \<times> 'a smartlist) res" where
  "smartlist_pqueue_pop sl compare =
     tor_assert (smartlist_len sl \<noteq> 0)
      (let top = sl_list sl ! 0 in
       if smartlist_len sl - 1 \<noteq> 0 then
         OK (top, smartlist_heapify (sl\<lparr>sl_list := swap_out 0 (sl_list sl)\<rparr>) compare 0)
       else OK (top, sl\<lparr>sl_list := []\<rparr>))"

fun pqueue_assert_loop :: "('a \<Rightarrow> 'a \<Rightarrow> int) \<Rightarrow> nat \<Rightarrow> 'a list \<Rightarrow> unit res" where
  "pqueue_assert_loop compare 0 xs = OK ()"
| "pqueue_assert_loop compare (Suc i) xs =
     tor_assert (compare (xs ! PARENT (Suc i)) (xs ! Suc i) \<le> 0) (pqueue_assert_loop compare i xs)"

definition smartlist_pqueue_assert_ok :: "'a smartlist \<Rightarrow> ('a \<Rightarrow> 'a \<Rightarrow> int) \<Rightarrow> unit res" where
  "smartlist_pqueue_assert_ok sl compare =
     pqueue_assert_loop compare (smartlist_len sl - 1) (sl_list sl)"

subsection \<open>The interface\<close>

text \<open>A comparison function: a total preorder, read off the sign of its result.\<close>

locale comparator =
  fixes cmp :: "'a \<Rightarrow> 'a \<Rightarrow> int"
  assumes flip: "cmp y x < 0 \<longleftrightarrow> cmp x y > 0"
    and trans: "cmp x y \<le> 0 \<Longrightarrow> cmp y z \<le> 0 \<Longrightarrow> cmp x z \<le> 0"
begin

lemma refl: "cmp x x \<le> 0"
  using flip [of x x] by linarith

lemma not_less: "\<not> cmp x y < 0 \<Longrightarrow> cmp y x \<le> 0"
  using flip [of x y] by linarith

end

text \<open>Adding a list of items and taking a number of them out again, with the operations as arguments.\<close>

fun add_items :: "('q \<Rightarrow> 'a \<Rightarrow> 'q res) \<Rightarrow> 'q \<Rightarrow> 'a list \<Rightarrow> 'q res" where
  "add_items add q [] = OK q"
| "add_items add q (x # xs) = rbind (add q x) (\<lambda>q'. add_items add q' xs)"

fun pop_items :: "('q \<Rightarrow> ('a \<times> 'q) res) \<Rightarrow> nat \<Rightarrow> 'q \<Rightarrow> ('a list \<times> 'q) res" where
  "pop_items pop 0 q = OK ([], q)"
| "pop_items pop (Suc n) q =
     rbind (pop q) (\<lambda>(x, q'). rbind (pop_items pop n q') (\<lambda>(xs, q''). OK (x # xs, q'')))"

text \<open>
  A priority queue over the multiset of its items: \<open>add\<close> succeeds while there is \<open>room\<close>, and \<open>pop\<close>
  on a queue with items takes out a least one.
\<close>

locale priority_queue = comparator cmp for cmp :: "'a \<Rightarrow> 'a \<Rightarrow> int" +
  fixes inv :: "'q \<Rightarrow> bool" and items :: "'q \<Rightarrow> 'a multiset" and room :: "'q \<Rightarrow> nat"
    and add :: "'q \<Rightarrow> 'a \<Rightarrow> 'q res" and pop :: "'q \<Rightarrow> ('a \<times> 'q) res"
  assumes add_ok: "inv q \<Longrightarrow> 0 < room q \<Longrightarrow>
      \<exists>q'. add q x = OK q' \<and> inv q' \<and> items q' = add_mset x (items q) \<and> room q' = room q - 1"
    and pop_ok: "inv q \<Longrightarrow> items q \<noteq> {#} \<Longrightarrow>
      \<exists>x q'. pop q = OK (x, q') \<and> inv q' \<and> items q = add_mset x (items q') \<and>
        (\<forall>y\<in>#items q'. cmp x y \<le> 0)"
begin

lemma add_items_ok:
  "inv q \<Longrightarrow> length xs \<le> room q \<Longrightarrow>
   \<exists>q'. add_items add q xs = OK q' \<and> inv q' \<and> items q' = mset xs + items q"
proof (induction xs arbitrary: q)
  case (Cons x xs)
  from Cons.prems add_ok [of q x] obtain q1 where
    "add q x = OK q1" "inv q1" "items q1 = add_mset x (items q)" "room q1 = room q - 1" by auto
  with Cons.IH [of q1] Cons.prems show ?case by auto
qed simp

lemma pop_items_ok:
  "inv q \<Longrightarrow> n = size (items q) \<Longrightarrow>
   \<exists>xs q'. pop_items pop n q = OK (xs, q') \<and> inv q' \<and> items q' = {#} \<and> mset xs = items q \<and>
     sorted_wrt (\<lambda>x y. cmp x y \<le> 0) xs"
proof (induction n arbitrary: q)
  case (Suc n)
  then have "items q \<noteq> {#}" by auto
  with pop_ok Suc.prems obtain x q1 where x: "pop q = OK (x, q1)" "inv q1"
    "items q = add_mset x (items q1)" "\<forall>y\<in>#items q1. cmp x y \<le> 0" by blast
  with Suc obtain xs q2 where xs: "pop_items pop n q1 = OK (xs, q2)" "inv q2" "items q2 = {#}"
    "mset xs = items q1" "sorted_wrt (\<lambda>x y. cmp x y \<le> 0) xs" by fastforce
  then have "set xs = set_mset (items q1)" by (metis set_mset_mset)
  with x xs show ?case by auto
qed simp

end

subsection \<open>Heaps\<close>

definition heap_upto :: "('a \<Rightarrow> 'a \<Rightarrow> int) \<Rightarrow> 'a list \<Rightarrow> bool" where
  "heap_upto cmp xs \<longleftrightarrow> (\<forall>i<length xs. 0 < i \<longrightarrow> cmp (xs ! PARENT i) (xs ! i) \<le> 0)"

text \<open>One position may be too small for its parent, or too large for its children.\<close>

definition heap_up :: "('a \<Rightarrow> 'a \<Rightarrow> int) \<Rightarrow> nat \<Rightarrow> 'a list \<Rightarrow> bool" where
  "heap_up cmp k xs \<longleftrightarrow> (\<forall>i<length xs. 0 < i \<longrightarrow>
     (i \<noteq> k \<longrightarrow> cmp (xs ! PARENT i) (xs ! i) \<le> 0) \<and>
     (PARENT i = k \<and> 0 < k \<longrightarrow> cmp (xs ! PARENT k) (xs ! i) \<le> 0))"

definition heap_down :: "('a \<Rightarrow> 'a \<Rightarrow> int) \<Rightarrow> nat \<Rightarrow> 'a list \<Rightarrow> bool" where
  "heap_down cmp k xs \<longleftrightarrow> (\<forall>i<length xs. 0 < i \<longrightarrow>
     (PARENT i \<noteq> k \<longrightarrow> cmp (xs ! PARENT i) (xs ! i) \<le> 0) \<and>
     (PARENT i = k \<and> 0 < k \<longrightarrow> cmp (xs ! PARENT k) (xs ! i) \<le> 0))"

lemma PARENT_less [simp]: "0 < i \<Longrightarrow> PARENT i < i"
  by (simp add: PARENT_def)

lemma PARENT_child: "0 < i \<Longrightarrow> PARENT i = k \<longleftrightarrow> i = LEFT_CHILD k \<or> i = LEFT_CHILD k + 1"
  by (auto simp: PARENT_def LEFT_CHILD_def)

lemma pqueue_assert_loop_iff:
  "pqueue_assert_loop cmp n xs = OK () \<longleftrightarrow> (\<forall>i\<le>n. 0 < i \<longrightarrow> cmp (xs ! PARENT i) (xs ! i) \<le> 0)"
  by (induction n) (auto simp: res_simps le_Suc_eq)

lemma smartlist_pqueue_assert_ok_iff:
  "smartlist_pqueue_assert_ok sl cmp = OK () \<longleftrightarrow> heap_upto cmp (sl_list sl)"
  by (cases "sl_list sl")
    (auto simp: smartlist_pqueue_assert_ok_def pqueue_assert_loop_iff heap_upto_def smartlist_len_def less_Suc_eq_le)

context comparator
begin

lemma heap_root: "heap_upto cmp xs \<Longrightarrow> i < length xs \<Longrightarrow> cmp (xs ! 0) (xs ! i) \<le> 0"
proof (induction i rule: less_induct)
  case (less i)
  show ?case
  proof (cases "i = 0")
    case False
    then have p: "PARENT i < i" by simp
    with less have "cmp (xs ! 0) (xs ! PARENT i) \<le> 0" by auto
    moreover have "cmp (xs ! PARENT i) (xs ! i) \<le> 0" using less.prems False by (auto simp: heap_upto_def)
    ultimately show ?thesis by (rule trans)
  qed (simp add: refl)
qed

lemma heap_up_step:
  assumes "heap_up cmp k xs" and "k < length xs" and "0 < k" and "cmp (xs ! k) (xs ! PARENT k) < 0"
  shows "heap_up cmp (PARENT k) (swap_at xs (PARENT k) k)"
  unfolding heap_up_def
proof (intro allI impI)
  fix i assume i: "i < length (swap_at xs (PARENT k) k)" "0 < i"
  let ?p = "PARENT k"
  have p: "?p < k" "?p < length xs" using assms(2,3) less_trans [of ?p k "length xs"] by simp_all
  have h: "j < length xs \<Longrightarrow> 0 < j \<Longrightarrow> j \<noteq> k \<Longrightarrow> cmp (xs ! PARENT j) (xs ! j) \<le> 0"
    "j < length xs \<Longrightarrow> 0 < j \<Longrightarrow> PARENT j = k \<Longrightarrow> cmp (xs ! ?p) (xs ! j) \<le> 0" for j
    using assms(1,3) by (auto simp: heap_up_def)
  have sw: "swap_at xs ?p k ! j = (if j = ?p then xs ! k else if j = k then xs ! ?p else xs ! j)"
    if "j < length xs" for j using nth_swap_at [OF p(2) assms(2) that] .
  have pi: "PARENT i < i" "0 < ?p \<Longrightarrow> PARENT ?p < ?p" using i by simp_all
  have pp: "swap_at xs ?p k ! PARENT ?p = xs ! PARENT ?p" if "0 < ?p"
    using sw [of "PARENT ?p"] pi(2) [OF that] p by simp
  have le: "cmp (xs ! k) (xs ! ?p) \<le> 0" using assms(4) by simp
  have "cmp (xs ! k) (xs ! i) \<le> 0" if "PARENT i = ?p" "i \<noteq> k"
    using trans [OF le] h(1) [of i] i that by auto
  moreover have "cmp (xs ! PARENT ?p) (xs ! i) \<le> 0" if "PARENT i = ?p" "0 < ?p" "i \<noteq> k"
    using trans [OF h(1) [of ?p] h(1) [of i, unfolded that(1)]] i that p by simp
  ultimately show "(i \<noteq> ?p \<longrightarrow> cmp (swap_at xs ?p k ! PARENT i) (swap_at xs ?p k ! i) \<le> 0) \<and>
      (PARENT i = ?p \<and> 0 < ?p \<longrightarrow> cmp (swap_at xs ?p k ! PARENT ?p) (swap_at xs ?p k ! i) \<le> 0)"
    using i pi p le h(1) [of i] h(2) [of i] h(1) [of ?p] by (auto simp: sw pp)
qed

lemma sift_up_heap:
  "heap_up cmp k xs \<Longrightarrow> k < length xs \<Longrightarrow>
   heap_upto cmp (sift_up cmp k xs) \<and> mset (sift_up cmp k xs) = mset xs"
proof (induction k arbitrary: xs rule: less_induct)
  case (less k)
  show ?case
  proof (cases "0 < k \<and> cmp (xs ! k) (xs ! PARENT k) < 0")
    case True
    then have p: "PARENT k < k" by simp
    with True less.prems have "sift_up cmp k xs = sift_up cmp (PARENT k) (swap_at xs (PARENT k) k)"
      by (subst sift_up.simps) (simp add: Let_def)
    with less.IH [OF p heap_up_step] less.prems p True show ?thesis by (simp add: mset_swap_at)
  next
    case False
    then have "sift_up cmp k xs = xs" by (subst sift_up.simps) (auto simp: Let_def)
    moreover have "0 < k \<Longrightarrow> cmp (xs ! PARENT k) (xs ! k) \<le> 0" using False not_less by blast
    ultimately show ?thesis using less.prems by (auto simp: heap_up_def heap_upto_def)
  qed
qed

lemma heapify_best_cases:
  assumes "LEFT_CHILD k < length xs"
  obtains (stay) "heapify_best cmp k xs = k"
      "\<And>i. i < length xs \<Longrightarrow> 0 < i \<Longrightarrow> PARENT i = k \<Longrightarrow> cmp (xs ! k) (xs ! i) \<le> 0"
  | (down) b where "heapify_best cmp k xs = b" "b < length xs" "0 < b" "PARENT b = k" "k < b"
      "cmp (xs ! b) (xs ! k) \<le> 0"
      "\<And>i. i < length xs \<Longrightarrow> 0 < i \<Longrightarrow> PARENT i = k \<Longrightarrow> cmp (xs ! b) (xs ! i) \<le> 0"
proof -
  let ?l = "LEFT_CHILD k" and ?r = "LEFT_CHILD k + 1"
  define b0 where "b0 = (if cmp (xs ! k) (xs ! ?l) < 0 then k else ?l)"
  have b0: "cmp (xs ! b0) (xs ! k) \<le> 0" "cmp (xs ! b0) (xs ! ?l) \<le> 0"
    using refl not_less by (auto simp: b0_def)
  define b where "b = (if ?r < length xs \<and> cmp (xs ! ?r) (xs ! b0) < 0 then ?r else b0)"
  have hb: "heapify_best cmp k xs = b" by (simp add: heapify_best_def b_def b0_def Let_def)
  have lek: "cmp (xs ! b) (xs ! k) \<le> 0" and lel: "cmp (xs ! b) (xs ! ?l) \<le> 0"
    using b0 trans [of "xs ! ?r" "xs ! b0"] by (auto simp: b_def)
  have ler: "?r < length xs \<Longrightarrow> cmp (xs ! b) (xs ! ?r) \<le> 0"
    using refl not_less by (auto simp: b_def)
  have ch: "cmp (xs ! b) (xs ! i) \<le> 0" if "i < length xs" "0 < i" "PARENT i = k" for i
    using lel ler that PARENT_child [of i k] by auto
  show ?thesis
  proof (cases "b = k")
    case True
    with hb ch stay show ?thesis by simp
  next
    case False
    then have "b = ?l \<or> b = ?r \<and> ?r < length xs" by (auto simp: b_def b0_def split: if_splits)
    with assms have "b < length xs" "0 < b" "PARENT b = k" "k < b"
      using PARENT_child [of b k] by (auto simp: LEFT_CHILD_def)
    with down [OF hb] lek ch show ?thesis by blast
  qed
qed

lemma heap_down_step:
  assumes "heap_down cmp k xs" and "b < length xs" and "0 < b" and "PARENT b = k" and "k < b"
    and "cmp (xs ! b) (xs ! k) \<le> 0"
    and "\<And>i. i < length xs \<Longrightarrow> 0 < i \<Longrightarrow> PARENT i = k \<Longrightarrow> cmp (xs ! b) (xs ! i) \<le> 0"
  shows "heap_down cmp b (swap_at xs k b)"
  unfolding heap_down_def
proof (intro allI impI)
  fix i assume i: "i < length (swap_at xs k b)" "0 < i"
  have k: "k < length xs" using assms by simp
  have h: "j < length xs \<Longrightarrow> 0 < j \<Longrightarrow> PARENT j \<noteq> k \<Longrightarrow> cmp (xs ! PARENT j) (xs ! j) \<le> 0"
    "0 < k \<Longrightarrow> cmp (xs ! PARENT k) (xs ! b) \<le> 0" for j
    using assms(1-4) by (auto simp: heap_down_def)
  have sw: "swap_at xs k b ! j = (if j = k then xs ! b else if j = b then xs ! k else xs ! j)"
    if "j < length xs" for j using nth_swap_at [OF k assms(2) that] .
  have pi: "PARENT i < i" "0 < k \<Longrightarrow> PARENT k < k" using i by simp_all
  show "(PARENT i \<noteq> b \<longrightarrow> cmp (swap_at xs k b ! PARENT i) (swap_at xs k b ! i) \<le> 0) \<and>
      (PARENT i = b \<and> 0 < b \<longrightarrow> cmp (swap_at xs k b ! PARENT b) (swap_at xs k b ! i) \<le> 0)"
    using i pi k assms(2-6) assms(7) [of i] h(1) [of i] h(2) by (auto simp: sw)
qed

lemma heapify_loop_heap:
  "heap_down cmp k xs \<Longrightarrow> heap_upto cmp (heapify_loop cmp k xs) \<and> mset (heapify_loop cmp k xs) = mset xs"
proof (induction "length xs - k" arbitrary: k xs rule: less_induct)
  case less
  show ?case
  proof (cases "LEFT_CHILD k < length xs")
    case False
    then have "heapify_loop cmp k xs = xs" by (subst heapify_loop.simps) simp
    moreover have "PARENT i \<noteq> k" if "i < length xs" "0 < i" for i
      using that False PARENT_child [of i k] by auto
    ultimately show ?thesis using less.prems by (auto simp: heap_down_def heap_upto_def)
  next
    case True
    from True show ?thesis
    proof (cases rule: heapify_best_cases)
      case stay
      then have "heapify_loop cmp k xs = xs" by (subst heapify_loop.simps) (simp add: Let_def)
      with stay less.prems show ?thesis by (auto simp: heap_down_def heap_upto_def)
    next
      case (down b)
      then have "heapify_loop cmp k xs = heapify_loop cmp b (swap_at xs k b)"
        using True by (subst heapify_loop.simps) (simp add: Let_def)
      moreover have "heap_down cmp b (swap_at xs k b)"
        using heap_down_step [OF less.prems down(2-6)] down(7) by blast
      ultimately show ?thesis using less.hyps [of "swap_at xs k b" b] down by (simp add: mset_swap_at)
    qed
  qed
qed

text \<open>The queue in a resizable array.\<close>

lemma pqueue_add_ok:
  assumes "sl_ok sl" and "heap_upto cmp (sl_list sl)" and "smartlist_len sl < 2 ^ 30"
  shows "\<exists>sl'. smartlist_pqueue_add sl cmp x = OK sl' \<and> sl_ok sl' \<and> heap_upto cmp (sl_list sl') \<and>
    mset (sl_list sl') = add_mset x (mset (sl_list sl))"
proof -
  from smartlist_add_ok [OF assms(1,3), of x] obtain sl1 where
    sl1: "smartlist_add sl x = OK sl1" "sl_ok sl1" "sl_list sl1 = sl_list sl @ [x]" by blast
  let ?k = "length (sl_list sl)"
  have "cmp ((sl_list sl @ [x]) ! PARENT i) ((sl_list sl @ [x]) ! i) \<le> 0"
    if "i < ?k" "0 < i" for i
    using assms(2) that less_trans [OF PARENT_less that(1)] by (simp add: heap_upto_def nth_append)
  moreover have "PARENT i \<noteq> ?k" if "i \<le> ?k" "0 < i" for i
    using that PARENT_less [of i] by linarith
  ultimately have "heap_up cmp ?k (sl_list sl @ [x])"
    by (auto simp: heap_up_def less_Suc_eq_le)
  from sift_up_heap [OF this] have h: "heap_upto cmp (sift_up cmp ?k (sl_list sl @ [x]))"
    "mset (sift_up cmp ?k (sl_list sl @ [x])) = mset (sl_list sl @ [x])" by auto
  from mset_eq_length [OF h(2)] sl1 h show ?thesis
    by (auto simp: smartlist_pqueue_add_def smartlist_len_def sl_ok_def)
qed

lemma pqueue_pop_ok:
  assumes "sl_ok sl" and "heap_upto cmp (sl_list sl)" and "sl_list sl \<noteq> []"
  shows "\<exists>x sl'. smartlist_pqueue_pop sl cmp = OK (x, sl') \<and> sl_ok sl' \<and> heap_upto cmp (sl_list sl') \<and>
    mset (sl_list sl) = add_mset x (mset (sl_list sl')) \<and> (\<forall>y\<in>#mset (sl_list sl'). cmp x y \<le> 0)"
proof -
  let ?xs = "sl_list sl" and ?x = "sl_list sl ! 0"
  have min: "cmp ?x y \<le> 0" if "y \<in> set ?xs" for y
    using heap_root [OF assms(2)] that by (auto simp: in_set_conv_nth)
  show ?thesis
  proof (cases "length ?xs = 1")
    case True
    then obtain a where "?xs = [a]" by (auto simp: length_Suc_conv)
    with assms(1) show ?thesis by (simp add: smartlist_pqueue_pop_def smartlist_len_def heap_upto_def sl_ok_def)
  next
    case False
    with assms(3) have n: "2 \<le> length ?xs" by (cases ?xs) (auto simp: Suc_le_eq)
    have "cmp (swap_out 0 ?xs ! PARENT i) (swap_out 0 ?xs ! i) \<le> 0"
      if "i < length ?xs - 1" "0 < i" "PARENT i \<noteq> 0" for i
      using assms(2) that PARENT_less [OF that(2)]
      by (simp add: swap_out_def nth_butlast heap_upto_def)
    then have "heap_down cmp 0 (swap_out 0 ?xs)" by (simp add: heap_down_def)
    from heapify_loop_heap [OF this] have h: "heap_upto cmp (heapify_loop cmp 0 (swap_out 0 ?xs))"
      "mset (heapify_loop cmp 0 (swap_out 0 ?xs)) = mset (swap_out 0 ?xs)" by auto
    have m: "mset ?xs = add_mset ?x (mset (swap_out 0 ?xs))" using mset_swap_out [of 0 ?xs] assms(3) by simp
    then have "set (swap_out 0 ?xs) \<subseteq> set ?xs" by (metis set_mset_mset subset_insertI set_mset_add_mset_insert)
    moreover have "set (heapify_loop cmp 0 (swap_out 0 ?xs)) = set (swap_out 0 ?xs)"
      using h(2) by (metis set_mset_mset)
    moreover have "smartlist_pqueue_pop sl cmp = OK (?x, sl\<lparr>sl_list := heapify_loop cmp 0 (swap_out 0 ?xs)\<rparr>)"
      using n assms(3) by (auto simp: smartlist_pqueue_pop_def smartlist_len_def smartlist_heapify_def)
    ultimately show ?thesis using h m mset_eq_length [OF h(2)] min assms(1)
      by (auto simp: smartlist_len_def sl_ok_def)
  qed
qed

end

definition pq_inv :: "('a \<Rightarrow> 'a \<Rightarrow> int) \<Rightarrow> 'a smartlist \<Rightarrow> bool" where
  "pq_inv cmp sl \<longleftrightarrow> sl_ok sl \<and> heap_upto cmp (sl_list sl)"

definition pq_items :: "'a smartlist \<Rightarrow> 'a multiset" where
  "pq_items sl = mset (sl_list sl)"

definition pq_room :: "'a smartlist \<Rightarrow> nat" where
  "pq_room sl = 2 ^ 30 - smartlist_len sl"

sublocale comparator \<subseteq> pq: priority_queue cmp "pq_inv cmp" pq_items pq_room
    "\<lambda>sl. smartlist_pqueue_add sl cmp" "\<lambda>sl. smartlist_pqueue_pop sl cmp"
proof
  fix q x assume q: "pq_inv cmp q" "0 < pq_room q"
  then obtain q' where q': "smartlist_pqueue_add q cmp x = OK q'" "sl_ok q'" "heap_upto cmp (sl_list q')"
    "mset (sl_list q') = add_mset x (mset (sl_list q))"
    using pqueue_add_ok [of q x] by (auto simp: pq_inv_def pq_room_def)
  from mset_eq_length [of "sl_list q'" "x # sl_list q"] q'(4)
  have "length (sl_list q') = Suc (length (sl_list q))" by simp
  with q' show "\<exists>q'. smartlist_pqueue_add q cmp x = OK q' \<and> pq_inv cmp q' \<and>
      pq_items q' = add_mset x (pq_items q) \<and> pq_room q' = pq_room q - 1"
    by (auto simp: pq_inv_def pq_items_def pq_room_def smartlist_len_def)
next
  fix q assume "pq_inv cmp q" "pq_items q \<noteq> {#}"
  then show "\<exists>x q'. smartlist_pqueue_pop q cmp = OK (x, q') \<and> pq_inv cmp q' \<and>
      pq_items q = add_mset x (pq_items q') \<and> (\<forall>y\<in>#pq_items q'. cmp x y \<le> 0)"
    using pqueue_pop_ok [of q] by (auto simp: pq_inv_def pq_items_def)
qed

context comparator
begin

lemma pq_operations:
  assumes "pq_inv cmp sl"
  shows "smartlist_len sl < 2 ^ 30 \<Longrightarrow>
      \<exists>sl'. smartlist_pqueue_add sl cmp x = OK sl' \<and> pq_inv cmp sl' \<and>
         pq_items sl' = add_mset x (pq_items sl)"
    and "pq_items sl \<noteq> {#} \<Longrightarrow>
      \<exists>y sl'. smartlist_pqueue_pop sl cmp = OK (y, sl') \<and> pq_inv cmp sl' \<and>
         pq_items sl = add_mset y (pq_items sl') \<and> (\<forall>z\<in>#pq_items sl'. cmp y z \<le> 0)"
  using pq.add_ok [OF assms, of x] pq.pop_ok [OF assms] by (auto simp: pq_room_def)

lemma pq_sorts:
  assumes "length xs \<le> 2 ^ 30"
  shows "\<exists>q ys q'. add_items (\<lambda>sl. smartlist_pqueue_add sl cmp) smartlist_create xs = OK q \<and>
    pop_items (\<lambda>sl. smartlist_pqueue_pop sl cmp) (length xs) q = OK (ys, q') \<and>
    mset ys = mset xs \<and> sorted_wrt (\<lambda>x y. cmp x y \<le> 0) ys \<and> sl_list q' = []"
proof -
  have "pq_inv cmp smartlist_create" "pq_items (smartlist_create :: 'a smartlist) = {#}"
    "pq_room (smartlist_create :: 'a smartlist) = 2 ^ 30"
    by (auto simp: pq_inv_def pq_items_def pq_room_def smartlist_create_def smartlist_len_def sl_ok_def
        heap_upto_def SMARTLIST_DEFAULT_CAPACITY_def intro!: bexI [of _ 0])
  with pq.add_items_ok [of smartlist_create xs] assms have "\<exists>q.
      add_items (\<lambda>sl. smartlist_pqueue_add sl cmp) smartlist_create xs = OK q \<and> pq_inv cmp q \<and>
      pq_items q = mset xs" by simp
  then obtain q where
    q: "add_items (\<lambda>sl. smartlist_pqueue_add sl cmp) smartlist_create xs = OK q" "pq_inv cmp q"
    "pq_items q = mset xs" by blast
  have "length xs = size (pq_items q)" using q(3) by simp
  from pq.pop_items_ok [OF q(2) this] q(1,3) show ?thesis by (auto simp: pq_items_def)
qed

end

interpretation strings: comparator strcmp
proof
  fix x y z :: "byte list"
  show "strcmp y x < 0 \<longleftrightarrow> strcmp x y > 0" using strcmp_antisym [of y x] by linarith
  show "strcmp x y \<le> 0 \<Longrightarrow> strcmp y z \<le> 0 \<Longrightarrow> strcmp x z \<le> 0" by (rule strcmp_trans)
qed

subsection \<open>Properties\<close>

text \<open>
  C38: on a heap with a comparison function, \<^verbatim>\<open>smartlist_pqueue_add\<close> succeeds below \<open>2\<^sup>3\<^sup>0\<close> items and adds
  the item, \<^verbatim>\<open>smartlist_pqueue_pop\<close> takes out a least item and nothing else, both leave a heap, and
  \<^verbatim>\<open>smartlist_pqueue_assert_ok\<close> passes exactly on heaps.
\<close>

theorem pqueue_operations:
  assumes "comparator cmp" and "pq_inv cmp sl"
  shows "(smartlist_len sl < 2 ^ 30 \<longrightarrow>
      (\<exists>sl'. smartlist_pqueue_add sl cmp x = OK sl' \<and> pq_inv cmp sl' \<and>
         pq_items sl' = add_mset x (pq_items sl))) \<and>
    (pq_items sl \<noteq> {#} \<longrightarrow>
      (\<exists>y sl'. smartlist_pqueue_pop sl cmp = OK (y, sl') \<and> pq_inv cmp sl' \<and>
         pq_items sl = add_mset y (pq_items sl') \<and> (\<forall>z\<in>#pq_items sl'. cmp y z \<le> 0))) \<and>
    (smartlist_pqueue_assert_ok sl' cmp = OK () \<longleftrightarrow> heap_upto cmp (sl_list sl'))"
  using comparator.pq_operations [OF assms] smartlist_pqueue_assert_ok_iff by blast

theorem pqueue_operations_witness:
  "\<exists>y sl'. smartlist_pqueue_pop \<lparr>sl_list = [[1], [3], [2 :: byte]], sl_capacity = 16\<rparr> strcmp = OK (y, sl') \<and>
     {#[1], [3], [2]#} = add_mset y (pq_items sl')"
proof -
  have "pq_inv strcmp \<lparr>sl_list = [[1], [3], [2 :: byte]], sl_capacity = 16\<rparr>"
    by (auto simp: pq_inv_def sl_ok_def smartlist_len_def heap_upto_def PARENT_def less_Suc_eq
        numeral_3_eq_3 intro!: bexI [of _ 0])
  from pqueue_operations [OF strings.comparator_axioms this, of "[]" smartlist_create] show ?thesis
    by (simp add: pq_items_def) blast
qed

text \<open>
  Adding any list of at most \<open>2\<^sup>3\<^sup>0\<close> items to a new queue and popping as many gives the same items in
  ascending order and leaves the queue empty.
\<close>

lemma pqueue_sorts:
  assumes "comparator cmp" and "length xs \<le> 2 ^ 30"
  shows "\<exists>q ys q'. add_items (\<lambda>sl. smartlist_pqueue_add sl cmp) smartlist_create xs = OK q \<and>
    pop_items (\<lambda>sl. smartlist_pqueue_pop sl cmp) (length xs) q = OK (ys, q') \<and>
    mset ys = mset xs \<and> sorted_wrt (\<lambda>x y. cmp x y \<le> 0) ys \<and> sl_list q' = []"
  using comparator.pq_sorts [OF assms] .

end
