(* ===== verification/SmartStrings.thy ===== *)
theory SmartStrings
  imports Smartlist UtilStrings
begin

section \<open>Splitting and joining strings (container.c)\<close>

text \<open>
  \<^verbatim>\<open>smartlist_split_string\<close> and \<^verbatim>\<open>smartlist_join_strings\<close>.  Splitting at an empty separator does not
  advance, so the loop of the split is a partial function; that it returns is a theorem.
\<close>

record split_flags =
  SPLIT_SKIP_SPACE :: bool
  SPLIT_IGNORE_BLANK :: bool
  SPLIT_STRIP_SPACE :: bool

text \<open>
  One round: where the piece at \<open>cp0\<close> ends, and where the next one starts.  \<open>sep\<close> is
  \<^term>\<open>None\<close> for splitting at runs of blanks.
\<close>

definition split_end :: "byte list option \<Rightarrow> int \<Rightarrow> int \<Rightarrow> byte list \<Rightarrow> nat" where
  "split_end sep max_pieces n cp =
     (if max_pieces > 0 \<and> n = max_pieces - 1 then length cp
      else case sep of
        Some s \<Rightarrow> (case find_sub s cp of Some k \<Rightarrow> k | None \<Rightarrow> length cp)
      | None \<Rightarrow> length (takeWhile (\<lambda>c. c \<noteq> 0x09 \<and> c \<noteq> 0x20) cp))"

definition split_next :: "byte list option \<Rightarrow> byte list \<Rightarrow> nat \<Rightarrow> byte list option" where
  "split_next sep cp e =
     (if drop e cp = [] then None
      else case sep of
        Some s \<Rightarrow> Some (drop (e + length s) cp)
      | None \<Rightarrow> Some (dropWhile (\<lambda>c. c = 0x09 \<or> c = 0x20) (drop (e + 1) cp)))"

definition split_field :: "split_flags \<Rightarrow> byte list \<Rightarrow> byte list" where
  "split_field flags s =
     (if SPLIT_SKIP_SPACE flags then rev (dropWhile TOR_ISSPACE (rev s)) else s)"

definition split_skip :: "split_flags \<Rightarrow> byte list \<Rightarrow> byte list" where
  "split_skip flags cp = (if SPLIT_SKIP_SPACE flags then dropWhile TOR_ISSPACE cp else cp)"

definition split_add :: "split_flags \<Rightarrow> byte list \<Rightarrow> int \<Rightarrow> byte list smartlist \<Rightarrow> (byte list smartlist \<times> int) res" where
  "split_add flags field n sl =
     (if field \<noteq> [] \<or> \<not> SPLIT_IGNORE_BLANK flags then
        rbind (smartlist_add sl (if SPLIT_STRIP_SPACE flags then tor_strstrip field [0x20] else field)) (\<lambda>sl1.
          OK (sl1, n + 1))
      else OK (sl, n))"

partial_function (option) split_loop ::
  "byte list option \<Rightarrow> split_flags \<Rightarrow> int \<Rightarrow> int \<Rightarrow> byte list \<Rightarrow> byte list smartlist \<Rightarrow>
   (byte list smartlist \<times> int) res option" where
  "split_loop sep flags max_pieces n cp0 sl =
     (let cp = split_skip flags cp0; e = split_end sep max_pieces n cp in
      case split_add flags (split_field flags (take e cp)) n sl of
        Fault f \<Rightarrow> Some (Fault f)
      | OK r \<Rightarrow>
          (case split_next sep cp e of
             None \<Rightarrow> Some (OK r)
           | Some cp' \<Rightarrow> split_loop sep flags max_pieces (snd r) cp' (fst r)))"

definition smartlist_split_string ::
  "byte list smartlist \<Rightarrow> byte list \<Rightarrow> byte list option \<Rightarrow> split_flags \<Rightarrow> int \<Rightarrow>
   (byte list smartlist \<times> int) res option" where
  "smartlist_split_string sl str sep flags max_pieces = split_loop sep flags max_pieces 0 str sl"

subsection \<open>Joining\<close>

fun join_size :: "nat \<Rightarrow> byte list list \<Rightarrow> nat" where
  "join_size join_len [] = 0"
| "join_size join_len [s] = length s"
| "join_size join_len (s # t # ss) = length s + join_len + join_size join_len (t # ss)"

fun join_copy :: "byte list \<Rightarrow> byte list list \<Rightarrow> byte list" where
  "join_copy join [] = []"
| "join_copy join [s] = s"
| "join_copy join (s # t # ss) = s @ join @ join_copy join (t # ss)"

text \<open>A block of \<open>n + 1\<close> bytes is filled and terminated; the result and its length.\<close>

definition smartlist_join_strings2 ::
  "byte list smartlist \<Rightarrow> byte list \<Rightarrow> nat \<Rightarrow> bool \<Rightarrow> (byte list \<times> nat) res" where
  "smartlist_join_strings2 sl join join_len terminate =
     (let n = (if terminate then join_len else 0) + join_size join_len (sl_list sl);
          r = join_copy (take join_len join) (sl_list sl) @ (if terminate then take join_len join else [])
      in if join_len \<le> length join \<and> length r \<le> n then OK (r, length r) else Fault Mem_Fault)"

definition smartlist_join_strings ::
  "byte list smartlist \<Rightarrow> byte list \<Rightarrow> bool \<Rightarrow> (byte list \<times> nat) res" where
  "smartlist_join_strings sl join terminate = smartlist_join_strings2 sl join (length join) terminate"

subsection \<open>Lemmas\<close>

lemma length_join_copy: "length (join_copy join ss) = join_size (length join) ss"
  by (induction join ss rule: join_copy.induct) auto

lemma join_strings_ok:
  "smartlist_join_strings sl join t =
     OK (let r = join_copy join (sl_list sl) @ (if t then join else []) in (r, length r))"
  by (simp add: smartlist_join_strings_def smartlist_join_strings2_def length_join_copy Let_def)

text \<open>The pieces a split adds, as a total function when the separator is not empty.\<close>

definition split_piece :: "split_flags \<Rightarrow> byte list \<Rightarrow> byte list list" where
  "split_piece flags field =
     (if field \<noteq> [] \<or> \<not> SPLIT_IGNORE_BLANK flags
      then [if SPLIT_STRIP_SPACE flags then tor_strstrip field [0x20] else field] else [])"

lemma split_next_shorter:
  assumes "sep \<noteq> Some []" and "split_next sep cp e = Some cp'"
  shows "length cp' < length cp"
proof -
  have e: "e < length cp" using assms(2) by (auto simp: split_next_def split: if_splits)
  show ?thesis
  proof (cases sep)
    case None
    with assms(2) have "cp' = dropWhile (\<lambda>c. c = 0x09 \<or> c = 0x20) (drop (e + 1) cp)"
      by (auto simp: split_next_def split: if_splits)
    then have "length cp' \<le> length (drop (e + 1) cp)" by (simp only: length_dropWhile_le)
    with e show ?thesis by simp
  next
    case (Some s)
    with assms(1) have "0 < length s" by simp
    moreover from assms(2) Some have "cp' = drop (e + length s) cp"
      by (auto simp: split_next_def split: if_splits)
    ultimately show ?thesis using e by (simp only: length_drop)
  qed
qed

lemma length_split_skip: "length (split_skip flags cp) \<le> length cp"
  by (simp add: split_skip_def length_dropWhile_le)

lemma split_add_ok:
  assumes "sl_ok sl" and "smartlist_len sl < 2 ^ 30"
  shows "\<exists>sl'. split_add flags field n sl = OK (sl', n + int (length (split_piece flags field))) \<and>
    sl_ok sl' \<and> sl_list sl' = sl_list sl @ split_piece flags field"
proof (cases "field \<noteq> [] \<or> \<not> SPLIT_IGNORE_BLANK flags")
  case True
  let ?x = "if SPLIT_STRIP_SPACE flags then tor_strstrip field [0x20] else field"
  from smartlist_add_ok [OF assms, of ?x] obtain sl' where
    "smartlist_add sl ?x = OK sl'" "sl_ok sl'" "sl_list sl' = sl_list sl @ [?x]" by blast
  with True show ?thesis by (simp add: split_add_def split_piece_def)
next
  case False
  with assms show ?thesis by (simp add: split_add_def split_piece_def)
qed

text \<open>The loop returns when there is room for a piece per byte, and one more.\<close>

lemma split_loop_returns:
  assumes "sep \<noteq> Some []" and "sl_ok sl" and "smartlist_len sl + length cp < 2 ^ 30"
    and "max_pieces > 0 \<longrightarrow> n < max_pieces"
  shows "\<exists>sl' strs. split_loop sep flags max_pieces n cp sl = Some (OK (sl', n + int (length strs))) \<and>
    sl_ok sl' \<and> sl_list sl' = sl_list sl @ strs \<and> length strs \<le> Suc (length cp) \<and>
    (max_pieces > 0 \<longrightarrow> n + int (length strs) \<le> max_pieces)"
  using assms(2-4)
proof (induction "length cp" arbitrary: cp n sl rule: less_induct)
  case less
  let ?cp = "split_skip flags cp" and ?e = "split_end sep max_pieces n (split_skip flags cp)"
  let ?p = "split_piece flags (split_field flags (take ?e ?cp))"
  have len: "smartlist_len sl < 2 ^ 30" using less.prems(2) by simp
  from split_add_ok [OF less.prems(1) len] obtain sl1 where
    sl1: "split_add flags (split_field flags (take ?e ?cp)) n sl = OK (sl1, n + int (length ?p))"
    "sl_ok sl1" "sl_list sl1 = sl_list sl @ ?p" by blast
  have p1: "length ?p \<le> 1" by (simp add: split_piece_def)
  show ?case
  proof (cases "split_next sep ?cp ?e")
    case None
    with sl1 p1 less.prems(3) show ?thesis
      by (intro exI [of _ sl1] exI [of _ ?p]) (auto simp: split_loop.simps [of sep flags max_pieces n cp] Let_def)
  next
    case (Some cp')
    then have "length cp' < length ?cp" by (rule split_next_shorter [OF assms(1)])
    with length_split_skip [of flags cp] have short: "length cp' < length cp" by linarith
    have "\<not> (max_pieces > 0 \<and> n = max_pieces - 1)"
      using Some by (auto simp: split_next_def split_end_def)
    with p1 less.prems(3) have mx: "max_pieces > 0 \<longrightarrow> n + int (length ?p) < max_pieces" by linarith
    from sl1 p1 short less.prems(2) have "smartlist_len sl1 + length cp' < 2 ^ 30"
      by (simp add: smartlist_len_def)
    from less.hyps [OF short sl1(2) this mx] obtain sl' strs where
      r: "split_loop sep flags max_pieces (n + int (length ?p)) cp' sl1 =
          Some (OK (sl', n + int (length ?p) + int (length strs)))"
        "sl_ok sl'" "sl_list sl' = sl_list sl1 @ strs" "length strs \<le> Suc (length cp')"
        "max_pieces > 0 \<longrightarrow> n + int (length ?p) + int (length strs) \<le> max_pieces" by blast
    with sl1 Some p1 short show ?thesis
      by (intro exI [of _ sl'] exI [of _ "?p @ strs"])
        (auto simp: split_loop.simps [of sep flags max_pieces n cp] Let_def)
  qed
qed

text \<open>Splitting at a separator with no flags and no limit.\<close>

definition plain_split :: split_flags where
  "plain_split = \<lparr>SPLIT_SKIP_SPACE = False, SPLIT_IGNORE_BLANK = False, SPLIT_STRIP_SPACE = False\<rparr>"

lemma plain_split_simps [simp]:
  "split_skip plain_split cp = cp" "split_field plain_split f = f" "split_piece plain_split f = [f]"
  by (simp_all add: split_skip_def split_field_def split_piece_def plain_split_def)

lemma find_sub_take:
  assumes "find_sub s xs = Some k" and "s \<noteq> []"
  shows "find_sub s (take k xs) = None"
proof -
  have "take (length s) (drop j (take k xs)) \<noteq> s" for j
  proof
    assume h: "take (length s) (drop j (take k xs)) = s"
    then have "length s \<le> length (drop j (take k xs))" by (metis length_take min.cobounded2 min.commute)
    then have j: "j + length s \<le> k" "j < k" using assms(2) by (cases s; auto)+
    with h have "take (length s) (drop j xs) = s" by (simp add: drop_take min_absorb1)
    with find_sub_Some [OF assms(1)] j(2) show False by blast
  qed
  then show ?thesis by (simp add: find_sub_eq_None_iff)
qed

lemma split_loop_plain:
  assumes "s \<noteq> []" and "sl_ok sl" and "smartlist_len sl + length cp < 2 ^ 30"
  shows "\<exists>sl' strs. split_loop (Some s) plain_split 0 n cp sl = Some (OK (sl', n + int (length strs))) \<and>
    sl_ok sl' \<and> sl_list sl' = sl_list sl @ strs \<and> strs \<noteq> [] \<and> join_copy s strs = cp \<and>
    (\<forall>p\<in>set strs. find_sub s p = None)"
  using assms(2,3)
proof (induction "length cp" arbitrary: cp n sl rule: less_induct)
  case less
  have len: "smartlist_len sl < 2 ^ 30" using less.prems(2) by simp
  show ?case
  proof (cases "find_sub s cp")
    case None
    then have e: "split_end (Some s) 0 n cp = length cp" by (simp add: split_end_def)
    from split_add_ok [OF less.prems(1) len, of plain_split cp n] obtain sl1 where
      "split_add plain_split cp n sl = OK (sl1, n + 1)" "sl_ok sl1" "sl_list sl1 = sl_list sl @ [cp]" by auto
    with e None show ?thesis
      by (intro exI [of _ sl1] exI [of _ "[cp]"])
        (simp add: split_loop.simps [of _ _ _ _ cp] Let_def split_next_def)
  next
    case (Some k)
    from find_sub_Some [OF Some] have k: "take (length s) (drop k cp) = s" "k + length s \<le> length cp" by auto
    then have cp: "cp = take k cp @ s @ drop (k + length s) cp"
      by (metis append_take_drop_id drop_drop add.commute)
    have nx: "split_next (Some s) cp k = Some (drop (k + length s) cp)"
      using k assms(1) by (cases s) (auto simp: split_next_def)
    have e: "split_end (Some s) 0 n cp = k" using Some by (simp add: split_end_def)
    from split_add_ok [OF less.prems(1) len, of plain_split "take k cp" n] obtain sl1 where
      sl1: "split_add plain_split (take k cp) n sl = OK (sl1, n + 1)" "sl_ok sl1"
        "sl_list sl1 = sl_list sl @ [take k cp]" by auto
    have sh: "length (drop (k + length s) cp) < length cp" using k assms(1) by (cases s) auto
    with sl1(3) less.prems(2) k have "smartlist_len sl1 + length (drop (k + length s) cp) < 2 ^ 30"
      by (simp add: smartlist_len_def)
    from less.hyps [OF sh sl1(2) this, of "n + 1"] obtain sl' strs where
      r: "split_loop (Some s) plain_split 0 (n + 1) (drop (k + length s) cp) sl1 =
          Some (OK (sl', n + 1 + int (length strs)))" "sl_ok sl'" "sl_list sl' = sl_list sl1 @ strs"
        "strs \<noteq> []" "join_copy s strs = drop (k + length s) cp" "\<forall>p\<in>set strs. find_sub s p = None" by blast
    then have "join_copy s (take k cp # strs) = cp" using cp by (cases strs) auto
    with r sl1 e nx find_sub_take [OF Some assms(1)] show ?thesis
      by (intro exI [of _ sl'] exI [of _ "take k cp # strs"])
        (simp add: split_loop.simps [of _ _ _ _ cp] Let_def)
  qed
qed

text \<open>Pieces without the separator, a single character, are determined by what they join to.\<close>

lemma append_sep_eq:
  "c \<notin> set s \<Longrightarrow> c \<notin> set u \<Longrightarrow> s @ c # t = u @ c # v \<longleftrightarrow> s = u \<and> t = v"
proof (induction s arbitrary: u)
  case (Cons a s)
  then show ?case by (cases u) auto
qed (case_tac u, auto)

lemma join_copy_unique:
  "xs \<noteq> [] \<Longrightarrow> ys \<noteq> [] \<Longrightarrow> \<forall>p\<in>set xs. c \<notin> set p \<Longrightarrow> \<forall>p\<in>set ys. c \<notin> set p \<Longrightarrow>
   join_copy [c] xs = join_copy [c] ys \<Longrightarrow> xs = ys"
proof (induction "[c]" xs arbitrary: ys rule: join_copy.induct)
  case (2 s)
  then obtain u us where ys: "ys = u # us" by (cases ys) auto
  with 2 show ?case by (cases us) auto
next
  case (3 s t ss)
  from 3(3) obtain u us where ys: "ys = u # us" by (cases ys) auto
  show ?case
  proof (cases us)
    case Nil
    with 3 ys show ?thesis by auto
  next
    case (Cons v vs)
    with 3 ys have "s @ c # join_copy [c] (t # ss) = u @ c # join_copy [c] (v # vs)" "c \<notin> set s" "c \<notin> set u"
      by auto
    then have "s = u \<and> join_copy [c] (t # ss) = join_copy [c] (v # vs)"
      using append_sep_eq [of c s u] by blast
    with 3(1) [of us] 3(4,5) ys Cons show ?thesis by auto
  qed
qed simp

lemma find_sub_single: "find_sub [c] p = None \<longleftrightarrow> c \<notin> set p"
  by (induction p) auto

subsection \<open>Properties\<close>

text \<open>
  With any flags and any limit, a split at blanks or at a separator that is not empty returns, appends
  to the list at most one string more than the input has bytes, reports how many, and never more than a
  positive limit.
\<close>

lemma split_string_returns:
  assumes "sep \<noteq> Some []" and "sl_ok sl" and "smartlist_len sl + length str < 2 ^ 30"
  shows "\<exists>sl' strs. smartlist_split_string sl str sep flags limit = Some (OK (sl', int (length strs))) \<and>
    sl_ok sl' \<and> sl_list sl' = sl_list sl @ strs \<and> length strs \<le> Suc (length str) \<and>
    (limit > 0 \<longrightarrow> int (length strs) \<le> limit)"
  using split_loop_returns [OF assms, of limit 0 flags] by (simp add: smartlist_split_string_def)

text \<open>
  C40: with no flags and no limit, splitting a string of fewer than \<open>2\<^sup>3\<^sup>0\<close> bytes at a non-empty separator
  and joining the pieces with it gives the string back, and no piece contains the separator; for a separator of
  one character, joining strings without it and splitting the result gives these strings back.  (For longer
  separators the latter fails: the pieces \<^verbatim>\<open>a\<close> and the empty string joined at \<^verbatim>\<open>aa\<close> are split differently.)
\<close>

theorem split_join_roundtrip:
  assumes "s \<noteq> []" and "length str < 2 ^ 30"
  shows "\<exists>sl n. smartlist_split_string smartlist_create str (Some s) plain_split 0 = Some (OK (sl, n)) \<and>
    n = int (smartlist_len sl) \<and> smartlist_join_strings sl s False = OK (str, length str) \<and>
    (\<forall>p\<in>set (sl_list sl). find_sub s p = None) \<and>
    (\<forall>c pieces. s = [c] \<and> pieces \<noteq> [] \<and> (\<forall>p\<in>set pieces. c \<notin> set p) \<and> str = join_copy [c] pieces
       \<longrightarrow> sl_list sl = pieces)"
proof -
  have "sl_ok (smartlist_create :: byte list smartlist)" "smartlist_len (smartlist_create :: byte list smartlist) = 0"
    by (auto simp: sl_ok_def smartlist_create_def SMARTLIST_DEFAULT_CAPACITY_def smartlist_len_def intro!: bexI [of _ 0])
  with split_loop_plain [OF assms(1), of smartlist_create str 0] assms(2) obtain sl strs where
    r: "split_loop (Some s) plain_split 0 0 str smartlist_create = Some (OK (sl, int (length strs)))"
      "sl_list sl = sl_list smartlist_create @ strs" "strs \<noteq> []" "join_copy s strs = str"
      "\<forall>p\<in>set strs. find_sub s p = None" by auto
  then have l: "sl_list sl = strs" by (simp add: smartlist_create_def)
  have "strs = pieces" if "s = [c]" "pieces \<noteq> []" "\<forall>p\<in>set pieces. c \<notin> set p" "str = join_copy [c] pieces"
    for c pieces
    using join_copy_unique [of strs pieces c] r that by (simp add: find_sub_single)
  moreover have "smartlist_split_string smartlist_create str (Some s) plain_split 0 = Some (OK (sl, int (length strs)))"
    by (simp add: smartlist_split_string_def r(1))
  moreover have "smartlist_join_strings sl s False = OK (str, length str)"
    by (simp add: join_strings_ok l r(4) Let_def)
  ultimately show ?thesis using r(5) unfolding smartlist_len_def l
    by (intro exI [of _ sl] exI [of _ "int (length strs)"] conjI) (simp_all add: l)
qed

theorem split_join_roundtrip_witness:
  "\<exists>sl n. smartlist_split_string smartlist_create (bytes_of ''ab,,c'') (Some [0x2C]) plain_split 0 = Some (OK (sl, n)) \<and>
    smartlist_join_strings sl [0x2C] False = OK (bytes_of ''ab,,c'', 5) \<and>
    sl_list sl = [bytes_of ''ab'', [], bytes_of ''c'']"
proof -
  have j: "bytes_of ''ab,,c'' = join_copy [0x2C] [bytes_of ''ab'', [], bytes_of ''c'']"
    "\<forall>p\<in>set [bytes_of ''ab'', [], bytes_of ''c'']. 0x2C \<notin> set p" "length (bytes_of ''ab,,c'') = 5"
    by (simp_all add: bytes_of_def)
  then have "length (bytes_of ''ab,,c'') < 2 ^ 30" by simp
  from split_join_roundtrip [OF _ this, of "[0x2C]"] j show ?thesis
    by (metis list.distinct(1))
qed

end
