(* ===== verification/HashTable.thy ===== *)
theory HashTable
  imports Smartlist
begin

section \<open>Hash tables (ht.h)\<close>

text \<open>
  The chained hash table that the macros of ht.h generate.  A bucket is the chain from
  \<^verbatim>\<open>hth_table[b]\<close> through \<^verbatim>\<open>hte_next\<close>, a list of entries with their cached \<^verbatim>\<open>hte_hash\<close>.  An entry is a key
  and a value; the function \<open>hash\<close> is \<^verbatim>\<open>hashfn\<close> on keys, and \<^verbatim>\<open>eqfn\<close> compares the keys.  The table is
  the empty list while \<^verbatim>\<open>hth_table\<close> is NULL, and \<^verbatim>\<open>hth_table_length\<close> is its length.  The load
  factor is 0.6, and allocations succeed.
\<close>

type_synonym ('k, 'v) ht_entry = "u32 \<times> 'k \<times> 'v"

record ('k, 'v) ht_head =
  hth_table :: "('k, 'v) ht_entry list list"
  hth_n_entries :: nat
  hth_load_limit :: nat
  hth_prime_idx :: int

definition HT_INIT :: "('k, 'v) ht_head" where
  "HT_INIT = \<lparr>hth_table = [], hth_n_entries = 0, hth_load_limit = 0, hth_prime_idx = -1\<rparr>"

definition HT_EMPTY :: "('k, 'v) ht_head \<Rightarrow> bool" where
  "HT_EMPTY head \<longleftrightarrow> hth_n_entries head = 0"

definition HT_SIZE :: "('k, 'v) ht_head \<Rightarrow> nat" where
  "HT_SIZE head = hth_n_entries head"

definition ht_improve_hash :: "u32 \<Rightarrow> u32" where
  "ht_improve_hash h0 =
     (let h1 = h0 + NOT (push_bit 9 h0);
          h2 = h1 XOR (drop_bit 14 h1 OR push_bit 18 h1);
          h3 = h2 + push_bit 4 h2
      in h3 XOR (drop_bit 10 h3 OR push_bit 22 h3))"

definition ht_string_hash :: "byte list \<Rightarrow> u32" where
  "ht_string_hash s =
     (let h0 = push_bit 7 (ucast (case s of c # _ \<Rightarrow> c | [] \<Rightarrow> 0));
          h1 = foldl (\<lambda>h c. (1000003 * h) XOR ucast c) h0 s
      in h1 XOR of_nat (length s))"

definition PRIMES :: "nat list" where
  "PRIMES = [53, 97, 193, 389,
    769, 1543, 3079, 6151,
    12289, 24593, 49157, 98317,
    196613, 393241, 786433, 1572869,
    3145739, 6291469, 12582917, 25165843,
    50331653, 100663319, 201326611, 402653189,
    805306457, 1610612741]"

definition N_PRIMES :: nat where "N_PRIMES = length PRIMES"

text \<open>\<^verbatim>\<open>(unsigned)(0.6*new_len)\<close>: three fifths of a prime are at least a fifth away from an integer.\<close>

definition load_limit_of :: "nat \<Rightarrow> nat" where
  "load_limit_of len = 3 * len div 5"

text \<open>The \<^verbatim>\<open>do\<close> loop of the growth: its bound lets it read one entry past the table of primes.\<close>

function next_prime_idx :: "nat \<Rightarrow> nat \<Rightarrow> nat res" where
  "next_prime_idx i n =
     (if i \<ge> N_PRIMES then Fault Mem_Fault
      else if load_limit_of (PRIMES ! i) \<le> n \<and> i < N_PRIMES then next_prime_idx (i + 1) n
      else OK i)"
  by auto
termination by (relation "measure (\<lambda>(i, n). N_PRIMES - i)") auto

declare next_prime_idx.simps [simp del]

definition bucket_of :: "u32 \<Rightarrow> 'a list list \<Rightarrow> nat" where
  "bucket_of h table = unat h mod length table"

definition push_entry :: "('k, 'v) ht_entry list list \<Rightarrow> ('k, 'v) ht_entry \<Rightarrow> ('k, 'v) ht_entry list list" where
  "push_entry table e = (let b = bucket_of (fst e) table in table[b := e # table ! b])"

definition HT_GROW :: "('k, 'v) ht_head \<Rightarrow> nat \<Rightarrow> ('k, 'v) ht_head res" where
  "HT_GROW head n =
     (if hth_prime_idx head = int N_PRIMES - 1 then OK head
      else if hth_load_limit head > n then OK head
      else rbind (next_prime_idx (nat (hth_prime_idx head + 1)) n) (\<lambda>prime_idx.
        let new_len = PRIMES ! prime_idx
        in OK (head\<lparr>hth_table := foldl push_entry (replicate new_len []) (concat (hth_table head)),
                 hth_prime_idx := int prime_idx, hth_load_limit := load_limit_of new_len\<rparr>)))"

text \<open>The chain of a key, and the position of the key in it if it is there.\<close>

definition HT_BUCKET :: "('k \<Rightarrow> u32) \<Rightarrow> ('k, 'v) ht_head \<Rightarrow> 'k \<Rightarrow> ('k, 'v) ht_entry list" where
  "HT_BUCKET hash head k = hth_table head ! bucket_of (hash k) (hth_table head)"

fun chain_find :: "'k \<Rightarrow> ('k, 'v) ht_entry list \<Rightarrow> nat option" where
  "chain_find k [] = None"
| "chain_find k (e # es) = (if fst (snd e) = k then Some 0 else map_option Suc (chain_find k es))"

definition HT_FIND :: "('k \<Rightarrow> u32) \<Rightarrow> ('k, 'v) ht_head \<Rightarrow> 'k \<Rightarrow> 'v option" where
  "HT_FIND hash head k =
     (if hth_table head = [] then None
      else case chain_find k (HT_BUCKET hash head k) of
        None \<Rightarrow> None
      | Some i \<Rightarrow> Some (snd (snd (HT_BUCKET hash head k ! i))))"

definition grow_if_full :: "('k, 'v) ht_head \<Rightarrow> ('k, 'v) ht_head res" where
  "grow_if_full head =
     (if hth_table head = [] \<or> hth_n_entries head \<ge> hth_load_limit head
      then HT_GROW head (hth_n_entries head + 1) else OK head)"

definition set_bucket :: "('k \<Rightarrow> u32) \<Rightarrow> 'k \<Rightarrow> ('k, 'v) ht_entry list \<Rightarrow> ('k, 'v) ht_head \<Rightarrow> ('k, 'v) ht_head" where
  "set_bucket hash k es head =
     head\<lparr>hth_table := (hth_table head)[bucket_of (hash k) (hth_table head) := es]\<rparr>"

definition HT_INSERT :: "('k \<Rightarrow> u32) \<Rightarrow> ('k, 'v) ht_head \<Rightarrow> 'k \<Rightarrow> 'v \<Rightarrow> ('k, 'v) ht_head res" where
  "HT_INSERT hash head k v =
     rbind (grow_if_full head) (\<lambda>head1.
       OK (set_bucket hash k ((hash k, k, v) # HT_BUCKET hash head1 k)
             (head1\<lparr>hth_n_entries := hth_n_entries head1 + 1\<rparr>)))"

definition HT_REPLACE :: "('k \<Rightarrow> u32) \<Rightarrow> ('k, 'v) ht_head \<Rightarrow> 'k \<Rightarrow> 'v \<Rightarrow> (('k, 'v) ht_head \<times> 'v option) res" where
  "HT_REPLACE hash head k v =
     rbind (grow_if_full head) (\<lambda>head1.
       let es = HT_BUCKET hash head1 k in
       case chain_find k es of
         Some i \<Rightarrow> OK (set_bucket hash k (es[i := (hash k, k, v)]) head1, Some (snd (snd (es ! i))))
       | None \<Rightarrow> OK (set_bucket hash k (es @ [(hash k, k, v)])
                       (head1\<lparr>hth_n_entries := hth_n_entries head1 + 1\<rparr>), None))"

definition HT_REMOVE :: "('k \<Rightarrow> u32) \<Rightarrow> ('k, 'v) ht_head \<Rightarrow> 'k \<Rightarrow> ('k, 'v) ht_head \<times> 'v option" where
  "HT_REMOVE hash head k =
     (if hth_table head = [] then (head, None)
      else let es = HT_BUCKET hash head k in
        case chain_find k es of
          None \<Rightarrow> (head, None)
        | Some i \<Rightarrow>
            (set_bucket hash k (del_keeporder i es) (head\<lparr>hth_n_entries := hth_n_entries head - 1\<rparr>),
             Some (snd (snd (es ! i)))))"

text \<open>
  An iterator is the address of a pointer to an entry: a bucket and a position in its chain.
\<close>

fun scan_buckets :: "('k, 'v) ht_entry list list \<Rightarrow> nat \<Rightarrow> (nat \<times> nat) option" where
  "scan_buckets [] b = None"
| "scan_buckets (es # table) b = (if es \<noteq> [] then Some (b, 0) else scan_buckets table (b + 1))"

definition HT_START :: "('k, 'v) ht_head \<Rightarrow> (nat \<times> nat) option" where
  "HT_START head = scan_buckets (hth_table head) 0"

definition HT_NEXT :: "('k, 'v) ht_head \<Rightarrow> nat \<times> nat \<Rightarrow> (nat \<times> nat) option" where
  "HT_NEXT head elm =
     (let (b, i) = elm; e = hth_table head ! b ! i in
      if i + 1 < length (hth_table head ! b) then Some (b, i + 1)
      else let b' = bucket_of (fst e) (hth_table head) + 1
        in scan_buckets (drop b' (hth_table head)) b')"

definition HT_NEXT_RMV :: "('k, 'v) ht_head \<Rightarrow> nat \<times> nat \<Rightarrow> ('k, 'v) ht_head \<times> (nat \<times> nat) option" where
  "HT_NEXT_RMV head elm =
     (let (b, i) = elm; h = fst (hth_table head ! b ! i);
          head1 = head\<lparr>hth_table := (hth_table head)[b := del_keeporder i (hth_table head ! b)],
                       hth_n_entries := hth_n_entries head - 1\<rparr>
      in if i < length (hth_table head1 ! b) then (head1, Some (b, i))
         else let b' = bucket_of h (hth_table head1) + 1
           in (head1, scan_buckets (drop b' (hth_table head1)) b'))"

text \<open>\<^verbatim>\<open>HT_REP_IS_BAD\<close>: the two nested loops count the entries or return a code above 1000.\<close>

fun rep_chain :: "('k \<Rightarrow> u32) \<Rightarrow> nat \<Rightarrow> nat \<Rightarrow> ('k, 'v) ht_entry list \<Rightarrow> nat \<Rightarrow> nat + nat" where
  "rep_chain hash len i [] n = Inr n"
| "rep_chain hash len i (e # es) n =
     (if fst e \<noteq> hash (fst (snd e)) then Inl (1000 + i)
      else if unat (fst e) mod len \<noteq> i then Inl (10000 + i)
      else rep_chain hash len i es (n + 1))"

fun rep_table :: "('k \<Rightarrow> u32) \<Rightarrow> nat \<Rightarrow> nat \<Rightarrow> ('k, 'v) ht_entry list list \<Rightarrow> nat \<Rightarrow> nat + nat" where
  "rep_table hash len i [] n = Inr n"
| "rep_table hash len i (es # ess) n = (case rep_chain hash len i es n of
     Inl c \<Rightarrow> Inl c
   | Inr n1 \<Rightarrow> rep_table hash len (i + 1) ess n1)"

definition HT_REP_IS_BAD :: "('k \<Rightarrow> u32) \<Rightarrow> ('k, 'v) ht_head \<Rightarrow> nat" where
  "HT_REP_IS_BAD hash head =
     (let len = length (hth_table head) in
      if len = 0 then
        (if hth_n_entries head = 0 \<and> hth_load_limit head = 0 \<and> hth_prime_idx head = -1 then 0 else 1)
      else if hth_prime_idx head < 0 \<or> hth_load_limit head = 0 then 2
      else if hth_n_entries head > hth_load_limit head then 3
      else if len \<noteq> PRIMES ! nat (hth_prime_idx head) then 4
      else if hth_load_limit head \<noteq> load_limit_of len then 5
      else case rep_table hash len 0 (hth_table head) 0 of
        Inl c \<Rightarrow> c
      | Inr n \<Rightarrow> if n \<noteq> hth_n_entries head then 6 else 0)"

subsection \<open>The invariant\<close>

definition entries :: "('k, 'v) ht_head \<Rightarrow> ('k, 'v) ht_entry list" where
  "entries head = concat (hth_table head)"

definition placed :: "('k \<Rightarrow> u32) \<Rightarrow> ('k, 'v) ht_entry list list \<Rightarrow> bool" where
  "placed hash table \<longleftrightarrow> (\<forall>b<length table. \<forall>e\<in>set (table ! b).
     fst e = hash (fst (snd e)) \<and> unat (fst e) mod length table = b)"

definition keys_of :: "('k, 'v) ht_entry list \<Rightarrow> 'k list" where
  "keys_of es = map (fst \<circ> snd) es"

definition ht_ok :: "('k \<Rightarrow> u32) \<Rightarrow> ('k, 'v) ht_head \<Rightarrow> bool" where
  "ht_ok hash head \<longleftrightarrow>
     (hth_table head = [] \<and> hth_n_entries head = 0 \<and> hth_load_limit head = 0 \<and> hth_prime_idx head = -1 \<or>
      (\<exists>i<N_PRIMES. hth_prime_idx head = int i \<and> length (hth_table head) = PRIMES ! i \<and>
         hth_load_limit head = load_limit_of (PRIMES ! i) \<and> hth_n_entries head \<le> hth_load_limit head)) \<and>
     placed hash (hth_table head) \<and> hth_n_entries head = length (entries head) \<and>
     distinct (keys_of (entries head))"

definition ht_map :: "('k, 'v) ht_head \<Rightarrow> 'k \<rightharpoonup> 'v" where
  "ht_map head = map_of (map snd (entries head))"

text \<open>The largest number of entries for which the table still grows.\<close>

definition HT_MAX :: nat where "HT_MAX = 966367644"

lemma PRIMES_pos: "i < N_PRIMES \<Longrightarrow> 0 < PRIMES ! i"
proof -
  have "list_all (\<lambda>p. 0 < p) PRIMES" by (simp add: PRIMES_def)
  then show "i < N_PRIMES \<Longrightarrow> 0 < PRIMES ! i" by (simp add: N_PRIMES_def list_all_length)
qed

lemma load_limit_mono: "i < N_PRIMES \<Longrightarrow> 31 \<le> load_limit_of (PRIMES ! i)"
proof -
  have "list_all (\<lambda>p. 31 \<le> load_limit_of p) PRIMES" by (simp add: PRIMES_def load_limit_of_def)
  then show "i < N_PRIMES \<Longrightarrow> 31 \<le> load_limit_of (PRIMES ! i)" by (simp add: N_PRIMES_def list_all_length)
qed

lemma last_load_limit: "load_limit_of (PRIMES ! 25) = HT_MAX" "N_PRIMES = 26"
  by (simp_all add: PRIMES_def load_limit_of_def HT_MAX_def N_PRIMES_def)

lemma next_prime_idx_ok:
  assumes "i < N_PRIMES" and "n < HT_MAX"
  shows "\<exists>j. next_prime_idx i n = OK j \<and> j < N_PRIMES \<and> n < load_limit_of (PRIMES ! j)"
  using assms(1)
proof (induction "N_PRIMES - i" arbitrary: i)
  case (Suc d)
  show ?case
  proof (cases "load_limit_of (PRIMES ! i) \<le> n")
    case True
    have "i \<noteq> 25" using True assms(2) last_load_limit by auto
    then have "i + 1 < N_PRIMES" using Suc.prems last_load_limit by simp
    with Suc.hyps(1) [of "i + 1"] Suc.hyps(2) True Suc.prems show ?thesis
      by (subst next_prime_idx.simps) auto
  next
    case False
    with Suc.prems show ?thesis by (subst next_prime_idx.simps) auto
  qed
qed simp

subsection \<open>Chains and buckets\<close>

lemma mset_concat_update:
  "b < length t \<Longrightarrow> mset (concat (t[b := ys])) + mset (t ! b) = mset ys + mset (concat t)"
proof (induction t arbitrary: b)
  case (Cons x t)
  then show ?case by (cases b) auto
qed simp

text \<open>Where an entry of a table belongs.\<close>

definition belongs :: "('k \<Rightarrow> u32) \<Rightarrow> nat \<Rightarrow> nat \<Rightarrow> ('k, 'v) ht_entry \<Rightarrow> bool" where
  "belongs hash len b e \<longleftrightarrow> fst e = hash (fst (snd e)) \<and> unat (fst e) mod len = b"

lemma placed_iff: "placed hash t \<longleftrightarrow> (\<forall>b<length t. \<forall>e\<in>set (t ! b). belongs hash (length t) b e)"
  by (simp only: placed_def belongs_def)

lemma belongs_hash: "belongs hash len b e \<Longrightarrow> fst e = hash (fst (snd e))"
  "belongs hash len b e \<Longrightarrow> unat (hash (fst (snd e))) mod len = b"
  by (auto simp: belongs_def)

lemma placed_update:
  assumes "placed hash t" and "\<forall>e\<in>set ys. belongs hash (length t) b e"
  shows "placed hash (t[b := ys])"
  unfolding placed_iff length_list_update
proof (intro allI impI ballI)
  fix b' e assume "b' < length t" "e \<in> set (t[b := ys] ! b')"
  then show "belongs hash (length t) b' e"
    using assms by (cases "b' = b") (simp_all add: placed_iff)
qed

lemma placed_nth: "placed hash t \<Longrightarrow> b < length t \<Longrightarrow> e \<in> set (t ! b) \<Longrightarrow> belongs hash (length t) b e"
  by (simp add: placed_iff)

lemma push_entry_facts:
  assumes "table \<noteq> []"
  shows "length (push_entry table e) = length table"
    and "mset (concat (push_entry table e)) = add_mset e (mset (concat table))"
    and "placed hash table \<Longrightarrow> fst e = hash (fst (snd e)) \<Longrightarrow> placed hash (push_entry table e)"
proof -
  let ?b = "bucket_of (fst e) table"
  have b: "?b < length table" using assms by (simp add: bucket_of_def)
  show "length (push_entry table e) = length table" by (simp add: push_entry_def Let_def)
  show "mset (concat (push_entry table e)) = add_mset e (mset (concat table))"
    using mset_concat_update [OF b, of "e # table ! ?b"] by (simp add: push_entry_def Let_def)
  assume p: "placed hash table" and "fst e = hash (fst (snd e))"
  then have "belongs hash (length table) ?b e" by (simp add: belongs_def bucket_of_def)
  with placed_nth [OF p b] have "\<forall>x\<in>set (e # table ! ?b). belongs hash (length table) ?b x" by simp
  with p show "placed hash (push_entry table e)" by (simp add: push_entry_def Let_def placed_update)
qed

lemma rehash_facts:
  assumes "table \<noteq> []" and "placed hash table" and "\<forall>e\<in>set es. fst e = hash (fst (snd e))"
  shows "length (foldl push_entry table es) = length table \<and> placed hash (foldl push_entry table es) \<and>
    mset (concat (foldl push_entry table es)) = mset es + mset (concat table)"
  using assms
proof (induction es arbitrary: table)
  case (Cons e es)
  have "push_entry table e \<noteq> []" using Cons.prems(1) push_entry_facts(1) [of table e] by auto
  with Cons push_entry_facts(1,2) [OF Cons.prems(1), of e] push_entry_facts(3) [OF Cons.prems(1), of hash e]
  show ?case by auto
qed simp

lemma placed_hash: "placed hash table \<Longrightarrow> e \<in> set (concat table) \<Longrightarrow> fst e = hash (fst (snd e))"
proof -
  assume p: "placed hash table" and "e \<in> set (concat table)"
  then obtain es where "es \<in> set table" "e \<in> set es" by auto
  then obtain b where "b < length table" "e \<in> set (table ! b)" by (auto simp: in_set_conv_nth [of es])
  with p show ?thesis using placed_nth belongs_hash(1) by blast
qed

lemma ht_ok_grow:
  assumes "ht_ok hash head" and "n < HT_MAX" and "hth_n_entries head \<le> n"
  shows "\<exists>head'. HT_GROW head n = OK head' \<and> ht_ok hash head' \<and> hth_table head' \<noteq> [] \<and>
    mset (entries head') = mset (entries head) \<and> hth_n_entries head' = hth_n_entries head \<and>
    n < hth_load_limit head'"
proof -
  have idx: "hth_prime_idx head = int i \<Longrightarrow> i < N_PRIMES" if "hth_table head \<noteq> []" for i
    using assms(1) that by (auto simp: ht_ok_def)
  have last: "hth_prime_idx head = int N_PRIMES - 1 \<Longrightarrow> n < hth_load_limit head"
  proof -
    assume "hth_prime_idx head = int N_PRIMES - 1"
    then have "hth_prime_idx head = 25" by (simp add: last_load_limit(2))
    with assms(1) have "hth_load_limit head = load_limit_of (PRIMES ! 25)" by (auto simp: ht_ok_def)
    with assms(2) last_load_limit show ?thesis by simp
  qed
  show ?thesis
  proof (cases "hth_load_limit head > n")
    case True
    then have "hth_table head \<noteq> []" using assms(1) by (auto simp: ht_ok_def load_limit_of_def)
    with True assms(1) show ?thesis by (auto simp: HT_GROW_def)
  next
    case False
    with last have nl: "hth_prime_idx head \<noteq> int N_PRIMES - 1" by auto
    with assms(1) have "nat (hth_prime_idx head + 1) < N_PRIMES"
      using last_load_limit by (auto simp: ht_ok_def)
    from next_prime_idx_ok [OF this assms(2)] obtain j where
      j: "next_prime_idx (nat (hth_prime_idx head + 1)) n = OK j" "j < N_PRIMES" "n < load_limit_of (PRIMES ! j)"
      by blast
    let ?t = "replicate (PRIMES ! j) [] :: ('a, 'b) ht_entry list list"
    have "?t \<noteq> []" "placed hash ?t" "concat ?t = []"
      using PRIMES_pos [OF j(2)] by (auto simp: placed_def)
    moreover have "placed hash (hth_table head)" using assms(1) by (simp add: ht_ok_def)
    then have "\<forall>e\<in>set (entries head). fst e = hash (fst (snd e))"
      using placed_hash [of hash "hth_table head"] unfolding entries_def by blast
    ultimately have r: "length (foldl push_entry ?t (entries head)) = PRIMES ! j"
      "placed hash (foldl push_entry ?t (entries head))"
      "mset (concat (foldl push_entry ?t (entries head))) = mset (entries head)"
      using rehash_facts [of ?t hash "entries head"] by auto
    define head' where "head' = head\<lparr>hth_table := foldl push_entry ?t (entries head),
      hth_prime_idx := int j, hth_load_limit := load_limit_of (PRIMES ! j)\<rparr>"
    have sel: "hth_table head' = foldl push_entry ?t (entries head)" "hth_prime_idx head' = int j"
      "hth_load_limit head' = load_limit_of (PRIMES ! j)" "hth_n_entries head' = hth_n_entries head"
      "entries head' = concat (foldl push_entry ?t (entries head))"
      by (simp_all add: head'_def entries_def)
    have me: "mset (entries head') = mset (entries head)" using r(3) sel(5) by simp
    have "mset (keys_of (entries head')) = mset (keys_of (entries head))" using me by (simp add: keys_of_def)
    then have di: "distinct (keys_of (entries head'))"
      using assms(1) mset_eq_imp_distinct_iff unfolding ht_ok_def by blast
    have ne: "hth_n_entries head' = length (entries head')"
      using assms(1) mset_eq_length [OF me] sel(4) by (simp add: ht_ok_def)
    have le: "hth_n_entries head' \<le> load_limit_of (PRIMES ! j)" using assms(3) j(3) sel(4) by simp
    have "ht_ok hash head'" unfolding ht_ok_def using sel(1-3) r(1,2) di ne le j(2) by simp
    moreover have "HT_GROW head n = OK head'"
      using nl False j(1) by (simp add: HT_GROW_def Let_def head'_def entries_def)
    moreover have "hth_table head' \<noteq> []" using sel(1) r(1) PRIMES_pos [OF j(2)] by auto
    ultimately show ?thesis using me sel(3,4) j(3) by auto
  qed
qed

subsection \<open>Looking up and changing a chain\<close>

lemma chain_find_Some: "chain_find k es = Some i \<Longrightarrow> i < length es \<and> fst (snd (es ! i)) = k"
  by (induction es arbitrary: i) (auto split: if_splits)

lemma chain_find_None: "chain_find k es = None \<longleftrightarrow> k \<notin> set (keys_of es)"
  by (induction es) (auto simp: keys_of_def)

lemma map_fst_snd_entries: "map fst (map snd es) = keys_of es"
  by (simp add: keys_of_def)

lemma ht_map_cong:
  assumes "mset (entries h1) = mset es" and "distinct (keys_of es)"
  shows "ht_map h1 = map_of (map snd es)"
proof -
  have "mset (keys_of (entries h1)) = mset (keys_of es)" using assms(1) by (simp add: keys_of_def)
  then have "distinct (keys_of (entries h1))" using assms(2) mset_eq_imp_distinct_iff by blast
  moreover have "set (map snd (entries h1)) = set (map snd es)"
    using assms(1) by (metis list.set_map set_mset_mset)
  ultimately show ?thesis
    using assms(2) map_of_inject_set [of "map snd (entries h1)" "map snd es"]
    by (simp add: ht_map_def map_fst_snd_entries [symmetric])
qed

lemma bucket_lt: "hth_table head \<noteq> [] \<Longrightarrow> bucket_of h (hth_table head) < length (hth_table head)"
  by (simp add: bucket_of_def)

lemma HT_FIND_map:
  assumes "ht_ok hash head"
  shows "HT_FIND hash head k = ht_map head k"
proof (cases "hth_table head = []")
  case True
  then show ?thesis by (simp add: HT_FIND_def ht_map_def entries_def)
next
  case False
  let ?b = "bucket_of (hash k) (hth_table head)"
  note b = bucket_lt [OF False, of "hash k"]
  have d: "distinct (map fst (map snd (entries head)))" and p: "placed hash (hth_table head)"
    using assms by (simp_all only: ht_ok_def map_fst_snd_entries)
  show ?thesis
  proof (cases "chain_find k (HT_BUCKET hash head k)")
    case (Some i)
    note i = chain_find_Some [OF Some]
    let ?e = "HT_BUCKET hash head k ! i"
    have "?e \<in> set (entries head)"
      using i b by (auto simp: HT_BUCKET_def entries_def intro!: bexI [of _ "hth_table head ! ?b"])
    then have "snd ?e \<in> set (map snd (entries head))" by simp
    moreover have "snd ?e = (k, snd (snd ?e))" using i by (metis prod.collapse)
    ultimately have "map_of (map snd (entries head)) k = Some (snd (snd ?e))"
      using d by (metis map_of_is_SomeI)
    with Some False show ?thesis by (simp add: HT_FIND_def ht_map_def)
  next
    case None
    have "k \<notin> set (map fst (map snd (entries head)))"
    proof
      assume "k \<in> set (map fst (map snd (entries head)))"
      then obtain e where e: "e \<in> set (entries head)" "fst (snd e) = k" by auto
      then obtain es where es: "es \<in> set (hth_table head)" "e \<in> set es" by (auto simp: entries_def)
      then obtain b' where b': "b' < length (hth_table head)" "e \<in> set (hth_table head ! b')"
        by (auto simp: in_set_conv_nth [of es])
      from belongs_hash(2) [OF placed_nth [OF p b']] e(2) have "b' = ?b" by (simp add: bucket_of_def)
      with None e b' show False by (auto simp: chain_find_None keys_of_def HT_BUCKET_def)
    qed
    then have "map_of (map snd (entries head)) k = None"
      by (simp only: map_of_eq_None_iff list.set_map not_False_eq_True)
    with None False show ?thesis by (simp add: HT_FIND_def ht_map_def)
  qed
qed

lemma mset_entries_set_bucket:
  "hth_table head \<noteq> [] \<Longrightarrow>
   mset (entries (set_bucket hash k es head)) + mset (HT_BUCKET hash head k) = mset es + mset (entries head)"
  unfolding entries_def set_bucket_def HT_BUCKET_def
  using mset_concat_update [OF bucket_lt [of head "hash k"], of es] by simp

definition in_bucket :: "('k \<Rightarrow> u32) \<Rightarrow> ('k, 'v) ht_head \<Rightarrow> 'k \<Rightarrow> ('k, 'v) ht_entry \<Rightarrow> bool" where
  "in_bucket hash head k = belongs hash (length (hth_table head)) (bucket_of (hash k) (hth_table head))"

lemma in_bucket_new: "in_bucket hash head k (hash k, k, v)"
  by (simp add: in_bucket_def belongs_def bucket_of_def)

lemma in_bucket_old:
  "ht_ok hash head \<Longrightarrow> hth_table head \<noteq> [] \<Longrightarrow> \<forall>e\<in>set (HT_BUCKET hash head k). in_bucket hash head k e"
proof -
  assume "ht_ok hash head" and t: "hth_table head \<noteq> []"
  then have "placed hash (hth_table head)" by (simp add: ht_ok_def)
  from placed_nth [OF this bucket_lt [OF t]] show ?thesis unfolding in_bucket_def HT_BUCKET_def by blast
qed

lemma placed_set_bucket:
  "placed hash (hth_table head) \<Longrightarrow> \<forall>e\<in>set es. in_bucket hash head k e \<Longrightarrow>
   placed hash (hth_table (set_bucket hash k es head))"
  by (simp add: set_bucket_def placed_update in_bucket_def)

text \<open>Replacing a chain and the counter, with the entries of the result up to their order.\<close>

lemma set_bucket_ok:
  assumes "ht_ok hash head" and "hth_table head \<noteq> []" and "n \<le> hth_load_limit head"
    and "\<forall>e\<in>set es. in_bucket hash head k e"
    and "mset es + mset (entries head) = mset new + mset (HT_BUCKET hash head k)"
    and "distinct (keys_of new)" and "n = length new"
  shows "ht_ok hash (set_bucket hash k es (head\<lparr>hth_n_entries := n\<rparr>))"
    and "ht_map (set_bucket hash k es (head\<lparr>hth_n_entries := n\<rparr>)) = map_of (map snd new)"
proof -
  let ?h = "set_bucket hash k es (head\<lparr>hth_n_entries := n\<rparr>)"
  have e: "entries ?h = entries (set_bucket hash k es head)" by (simp add: entries_def set_bucket_def)
  have "mset (entries ?h) + mset (HT_BUCKET hash head k) = mset new + mset (HT_BUCKET hash head k)"
    using mset_entries_set_bucket [OF assms(2), of hash k es] assms(5) by (simp add: e)
  then have m: "mset (entries ?h) = mset new" by simp
  show "ht_map ?h = map_of (map snd new)" by (rule ht_map_cong [OF m assms(6)])
  have "mset (keys_of (entries ?h)) = mset (keys_of new)" using m by (simp add: keys_of_def)
  then have d: "distinct (keys_of (entries ?h))" using assms(6) mset_eq_imp_distinct_iff by blast
  have "placed hash (hth_table head)" using assms(1) by (simp add: ht_ok_def)
  from placed_set_bucket [OF this assms(4)] have p: "placed hash (hth_table ?h)" by (simp add: set_bucket_def)
  have l: "hth_n_entries ?h = length (entries ?h)" using mset_eq_length [OF m] assms(7) by (simp add: set_bucket_def)
  have "\<exists>i<N_PRIMES. hth_prime_idx ?h = int i \<and> length (hth_table ?h) = PRIMES ! i \<and>
      hth_load_limit ?h = load_limit_of (PRIMES ! i) \<and> hth_n_entries ?h \<le> hth_load_limit ?h"
    using assms(1,2,3) by (auto simp: ht_ok_def set_bucket_def)
  with p l d show "ht_ok hash ?h" unfolding ht_ok_def by blast
qed

lemma ht_ok_nonempty: "ht_ok hash head \<Longrightarrow> hth_table head \<noteq> [] \<Longrightarrow> hth_n_entries head \<le> hth_load_limit head"
  by (auto simp: ht_ok_def)

lemma ht_ok_count: "ht_ok hash head \<Longrightarrow> hth_n_entries head = length (entries head) \<and> distinct (keys_of (entries head))"
  by (simp add: ht_ok_def)

lemma grow_if_full_ok:
  assumes "ht_ok hash head" and "hth_n_entries head + 1 < HT_MAX"
  shows "\<exists>head'. grow_if_full head = OK head' \<and> ht_ok hash head' \<and> hth_table head' \<noteq> [] \<and>
    ht_map head' = ht_map head \<and> hth_n_entries head' = hth_n_entries head \<and>
    hth_n_entries head' + 1 \<le> hth_load_limit head'"
proof (cases "hth_table head = [] \<or> hth_n_entries head \<ge> hth_load_limit head")
  case True
  from ht_ok_grow [OF assms, simplified] obtain head' where
    h: "HT_GROW head (hth_n_entries head + 1) = OK head'" "ht_ok hash head'" "hth_table head' \<noteq> []"
    "mset (entries head') = mset (entries head)" "hth_n_entries head' = hth_n_entries head"
    "hth_n_entries head + 1 < hth_load_limit head'" by auto
  have "ht_map head' = ht_map head"
    using ht_map_cong [OF h(4)] ht_ok_count [OF assms(1)] by (simp add: ht_map_def)
  with h True show ?thesis by (simp add: grow_if_full_def)
next
  case False
  with assms(1) show ?thesis by (simp add: grow_if_full_def)
qed

lemma ht_map_dom: "k \<notin> set (keys_of (entries head)) \<longleftrightarrow> ht_map head k = None"
  by (simp add: ht_map_def keys_of_def map_of_eq_None_iff image_comp)

lemma add_entry_ok:
  assumes "ht_ok hash head" and "hth_table head \<noteq> []" and "hth_n_entries head + 1 \<le> hth_load_limit head"
    and "ht_map head k = None" and "mset es = add_mset (hash k, k, v) (mset (HT_BUCKET hash head k))"
  shows "ht_ok hash (set_bucket hash k es (head\<lparr>hth_n_entries := hth_n_entries head + 1\<rparr>))"
    and "ht_map (set_bucket hash k es (head\<lparr>hth_n_entries := hth_n_entries head + 1\<rparr>)) = (ht_map head)(k \<mapsto> v)"
proof -
  let ?new = "(hash k, k, v) # entries head"
  have "set es = insert (hash k, k, v) (set (HT_BUCKET hash head k))"
    using assms(5) by (metis set_mset_add_mset_insert set_mset_mset)
  then have es: "\<forall>e\<in>set es. in_bucket hash head k e"
    using in_bucket_old [OF assms(1,2), of k] in_bucket_new [of hash head k v] by simp
  have m: "mset es + mset (entries head) = mset ?new + mset (HT_BUCKET hash head k)" using assms(5) by simp
  have d: "distinct (keys_of ?new)"
    using ht_ok_count [OF assms(1)] assms(4) ht_map_dom [of k head] by (simp add: keys_of_def)
  have n: "hth_n_entries head + 1 = length ?new" using ht_ok_count [OF assms(1)] by simp
  note r = set_bucket_ok [OF assms(1,2,3) es m d n]
  from r(1) show "ht_ok hash (set_bucket hash k es (head\<lparr>hth_n_entries := hth_n_entries head + 1\<rparr>))" .
  from r(2) show "ht_map (set_bucket hash k es (head\<lparr>hth_n_entries := hth_n_entries head + 1\<rparr>)) = (ht_map head)(k \<mapsto> v)"
    by (simp add: ht_map_def)
qed

lemma found_entry:
  assumes "ht_ok hash head" and "hth_table head \<noteq> []" and "chain_find k (HT_BUCKET hash head k) = Some i"
  obtains old R where "HT_BUCKET hash head k ! i = (hash k, k, old)" and "ht_map head k = Some old"
    and "mset (entries head) = add_mset (hash k, k, old) (mset R)" and "distinct (k # keys_of R)"
    and "ht_map head = (map_of (map snd R))(k \<mapsto> old)" and "length (entries head) = Suc (length R)"
    and "i < length (HT_BUCKET hash head k)"
proof -
  let ?es = "HT_BUCKET hash head k" and ?old = "snd (snd (HT_BUCKET hash head k ! i))"
  note i = chain_find_Some [OF assms(3)]
  then have "in_bucket hash head k (?es ! i)" using in_bucket_old [OF assms(1,2), of k] by (meson nth_mem)
  then have e: "?es ! i = (hash k, k, ?old)"
    using i belongs_hash(1) unfolding in_bucket_def by (metis prod.collapse)
  have "?es ! i \<in> set (entries head)" using i bucket_lt [OF assms(2), of "hash k"]
    unfolding entries_def HT_BUCKET_def set_concat by (meson UN_I nth_mem)
  then obtain R where m: "mset (entries head) = add_mset (hash k, k, ?old) (mset R)"
    using e by (metis ex_mset mset_add set_mset_mset)
  have "mset (keys_of (entries head)) = image_mset (fst \<circ> snd) (mset (entries head))" by (simp add: keys_of_def)
  also have "\<dots> = mset (k # keys_of R)" by (simp add: m keys_of_def)
  finally have d: "distinct (k # keys_of R)"
    using ht_ok_count [OF assms(1)] mset_eq_imp_distinct_iff by blast
  have "ht_map head = map_of (map snd ((hash k, k, ?old) # R))"
    using d by (intro ht_map_cong) (simp_all add: m keys_of_def)
  then have mp: "ht_map head = (map_of (map snd R))(k \<mapsto> ?old)" by simp
  have "length (entries head) = Suc (length R)"
    using mset_eq_length [of "entries head" "(hash k, k, ?old) # R"] m by simp
  with that [OF e _ m d mp] i mp show ?thesis by simp
qed

lemma remove_entry_ok:
  assumes "ht_ok hash head" and "hth_table head \<noteq> []" and "chain_find k (HT_BUCKET hash head k) = Some i"
  shows "ht_ok hash (set_bucket hash k (del_keeporder i (HT_BUCKET hash head k))
      (head\<lparr>hth_n_entries := hth_n_entries head - 1\<rparr>))"
    and "ht_map (set_bucket hash k (del_keeporder i (HT_BUCKET hash head k))
      (head\<lparr>hth_n_entries := hth_n_entries head - 1\<rparr>)) = (ht_map head)(k := None)"
proof -
  let ?es = "HT_BUCKET hash head k"
  from found_entry [OF assms] obtain old R where
    f: "?es ! i = (hash k, k, old)" "mset (entries head) = add_mset (hash k, k, old) (mset R)"
      "distinct (k # keys_of R)" "ht_map head = (map_of (map snd R))(k \<mapsto> old)"
      "length (entries head) = Suc (length R)" "i < length ?es" by metis
  have dm: "mset ?es = add_mset (hash k, k, old) (mset (del_keeporder i ?es))"
    using mset_del_keeporder [OF f(6)] f(1) by simp
  then have m: "mset (del_keeporder i ?es) + mset (entries head) = mset R + mset ?es"
    using f(2) by simp
  have es: "\<forall>e\<in>set (del_keeporder i ?es). in_bucket hash head k e"
    using in_bucket_old [OF assms(1,2), of k] by (auto simp: del_keeporder_def dest: in_set_takeD in_set_dropD)
  have n: "hth_n_entries head - 1 \<le> hth_load_limit head" "hth_n_entries head - 1 = length R" "distinct (keys_of R)"
    using ht_ok_nonempty [OF assms(1,2)] ht_ok_count [OF assms(1)] f(3,5) by simp_all
  note r = set_bucket_ok [OF assms(1,2) n(1) es m n(3,2)]
  from r(1) show "ht_ok hash (set_bucket hash k (del_keeporder i ?es) (head\<lparr>hth_n_entries := hth_n_entries head - 1\<rparr>))" .
  have "map_of (map snd R) k = None"
    using f(3) by (simp add: keys_of_def map_of_eq_None_iff image_comp)
  with r(2) f(4) show "ht_map (set_bucket hash k (del_keeporder i ?es) (head\<lparr>hth_n_entries := hth_n_entries head - 1\<rparr>)) =
      (ht_map head)(k := None)"
    by (simp add: fun_upd_idem)
qed

lemma replace_entry_ok:
  assumes "ht_ok hash head" and "hth_table head \<noteq> []" and "chain_find k (HT_BUCKET hash head k) = Some i"
  shows "ht_ok hash (set_bucket hash k ((HT_BUCKET hash head k)[i := (hash k, k, v)]) head)"
    and "ht_map (set_bucket hash k ((HT_BUCKET hash head k)[i := (hash k, k, v)]) head) = (ht_map head)(k \<mapsto> v)"
    and "ht_map head k = Some (snd (snd (HT_BUCKET hash head k ! i)))"
proof -
  let ?es = "HT_BUCKET hash head k"
  let ?new = "?es[i := (hash k, k, v)]"
  from found_entry [OF assms] obtain old R where
    f: "?es ! i = (hash k, k, old)" "mset (entries head) = add_mset (hash k, k, old) (mset R)"
      "distinct (k # keys_of R)" "ht_map head = (map_of (map snd R))(k \<mapsto> old)"
      "length (entries head) = Suc (length R)" "i < length ?es" "ht_map head k = Some old" by metis
  show "ht_map head k = Some (snd (snd (?es ! i)))" using f(1,7) by simp
  have "mset ?es = add_mset (hash k, k, old) (mset (del_keeporder i ?es))"
    using mset_del_keeporder [OF f(6)] f(1) by simp
  moreover have "mset ?new = add_mset (hash k, k, v) (mset (del_keeporder i ?es))"
    using mset_del_keeporder [of i ?new] f(6) by (simp add: del_keeporder_def)
  ultimately have m: "mset ?new + mset (entries head) = mset ((hash k, k, v) # R) + mset ?es"
    using f(2) by simp
  have es: "\<forall>e\<in>set ?new. in_bucket hash head k e"
    using in_bucket_old [OF assms(1,2), of k] in_bucket_new [of hash head k v] set_update_subset_insert [of ?es i]
    by fastforce
  have n: "hth_n_entries head \<le> hth_load_limit head" "hth_n_entries head = length ((hash k, k, v) # R)"
    "distinct (keys_of ((hash k, k, v) # R))"
    using ht_ok_nonempty [OF assms(1,2)] ht_ok_count [OF assms(1)] f(3,5) by (simp_all add: keys_of_def)
  note r = set_bucket_ok [OF assms(1,2) n(1) es m n(3,2)]
  have "head\<lparr>hth_n_entries := hth_n_entries head\<rparr> = head" by simp
  with r f(4) show "ht_ok hash (set_bucket hash k ?new head)"
    "ht_map (set_bucket hash k ?new head) = (ht_map head)(k \<mapsto> v)" by simp_all
qed

lemma ht_find_chain:
  assumes "ht_ok hash head" and "hth_table head \<noteq> []"
  shows "ht_map head k = None \<longleftrightarrow> chain_find k (HT_BUCKET hash head k) = None"
  unfolding HT_FIND_map [OF assms(1), symmetric] using assms(2) by (simp add: HT_FIND_def split: option.splits)

lemma ht_map_empty_table: "hth_table head = [] \<Longrightarrow> ht_map head = (\<lambda>_. None)"
  by (simp add: ht_map_def entries_def)

lemma HT_INSERT_ok:
  assumes "ht_ok hash head" and "hth_n_entries head + 1 < HT_MAX" and "ht_map head k = None"
  shows "\<exists>head'. HT_INSERT hash head k v = OK head' \<and> ht_ok hash head' \<and> ht_map head' = (ht_map head)(k \<mapsto> v) \<and>
    hth_n_entries head' = hth_n_entries head + 1"
proof -
  from grow_if_full_ok [OF assms(1,2)] obtain h1 where
    h1: "grow_if_full head = OK h1" "ht_ok hash h1" "hth_table h1 \<noteq> []" "ht_map h1 = ht_map head"
      "hth_n_entries h1 = hth_n_entries head" "hth_n_entries h1 + 1 \<le> hth_load_limit h1" by blast
  have b: "HT_BUCKET hash (h1\<lparr>hth_n_entries := m\<rparr>) k = HT_BUCKET hash h1 k" for m by (simp add: HT_BUCKET_def)
  have "ht_map h1 k = None" using h1(4) assms(3) by simp
  from add_entry_ok [OF h1(2,3,6) this, where es = "(hash k, k, v) # HT_BUCKET hash h1 k" and v = v] h1 assms(3)
  show ?thesis by (simp add: HT_INSERT_def) (simp add: set_bucket_def)
qed

lemma HT_REPLACE_ok:
  assumes "ht_ok hash head" and "hth_n_entries head + 1 < HT_MAX"
  shows "\<exists>head'. HT_REPLACE hash head k v = OK (head', ht_map head k) \<and> ht_ok hash head' \<and>
    ht_map head' = (ht_map head)(k \<mapsto> v)"
proof -
  from grow_if_full_ok [OF assms(1,2)] obtain h1 where
    h1: "grow_if_full head = OK h1" "ht_ok hash h1" "hth_table h1 \<noteq> []" "ht_map h1 = ht_map head"
      "hth_n_entries h1 + 1 \<le> hth_load_limit h1" by blast
  show ?thesis
  proof (cases "chain_find k (HT_BUCKET hash h1 k)")
    case None
    then have "ht_map h1 k = None" using ht_find_chain [OF h1(2,3)] by simp
    with add_entry_ok [OF h1(2,3,5) this, where es = "HT_BUCKET hash h1 k @ [(hash k, k, v)]" and v = v] h1 None show ?thesis
      by (simp add: HT_REPLACE_def Let_def)
  next
    case (Some i)
    with replace_entry_ok(1,2) [OF h1(2,3) Some, of v] replace_entry_ok(3) [OF h1(2,3) Some] h1 show ?thesis by (simp add: HT_REPLACE_def Let_def)
  qed
qed

lemma HT_REMOVE_ok:
  assumes "ht_ok hash head"
  shows "\<exists>head'. HT_REMOVE hash head k = (head', ht_map head k) \<and> ht_ok hash head' \<and>
    ht_map head' = (ht_map head)(k := None) \<and> hth_n_entries head' \<le> hth_n_entries head"
proof (cases "hth_table head = [] \<or> ht_map head k = None")
  case True
  then have "HT_REMOVE hash head k = (head, None)" "ht_map head k = None"
    using ht_find_chain [OF assms, of k] ht_map_empty_table [of head] by (auto simp: HT_REMOVE_def Let_def)
  with assms show ?thesis by (simp add: fun_upd_idem)
next
  case False
  with ht_find_chain [OF assms, of k] obtain i where i: "chain_find k (HT_BUCKET hash head k) = Some i" by auto
  with False remove_entry_ok [OF assms _ i] replace_entry_ok(3) [OF assms _ i] show ?thesis
    by (auto simp: HT_REMOVE_def Let_def set_bucket_def)
qed

end
