(* ===== verification/Maps.thy ===== *)
theory Maps
  imports HashTable UtilStrings
begin

section \<open>Maps from strings and from digests (container.c)\<close>

text \<open>
  \<^verbatim>\<open>strmap_t\<close> and \<^verbatim>\<open>digestmap_t\<close>: hash tables whose entries are a key and a pointer that is not NULL.
  An operation returns the changed map and the old value, NULL when there was none.
\<close>

type_synonym 'v strmap = "(byte list, 'v) ht_head"
type_synonym 'v digestmap = "(byte list, 'v) ht_head"

definition strmap_entry_hash :: "byte list \<Rightarrow> u32" where
  "strmap_entry_hash k = ht_string_hash k"

text \<open>The key read as five 32-bit words in the byte order of the host, little-endian.\<close>

definition le32 :: "byte list \<Rightarrow> u32" where
  "le32 bs = rd32 (rev (take 4 bs))"

definition digestmap_entry_hash :: "byte list \<Rightarrow> u32" where
  "digestmap_entry_hash k =
     le32 k XOR le32 (drop 4 k) XOR le32 (drop 8 k) XOR le32 (drop 12 k) XOR le32 (drop 16 k)"

definition strmap_new :: "'v strmap" where "strmap_new = HT_INIT"
definition digestmap_new :: "'v digestmap" where "digestmap_new = HT_INIT"

text \<open>The store \<^verbatim>\<open>resolve->val = val\<close> through the pointer to a found entry.\<close>

definition set_val :: "('k \<Rightarrow> u32) \<Rightarrow> ('k, 'v) ht_head \<Rightarrow> 'k \<Rightarrow> nat \<Rightarrow> 'v \<Rightarrow> ('k, 'v) ht_head" where
  "set_val hash head k i v =
     (let es = HT_BUCKET hash head k in set_bucket hash k (es[i := (fst (es ! i), fst (snd (es ! i)), v)]) head)"

definition strmap_set :: "'v strmap \<Rightarrow> byte list \<Rightarrow> 'v ptr \<Rightarrow> ('v strmap \<times> 'v ptr) res" where
  "strmap_set m key val = (case val of
     None \<Rightarrow> Fault Assert_Fail
   | Some v \<Rightarrow>
       (case HT_FIND strmap_entry_hash m key of
          Some oldval \<Rightarrow>
            OK (set_val strmap_entry_hash m key
                  (the (chain_find key (HT_BUCKET strmap_entry_hash m key))) v, Some oldval)
        | None \<Rightarrow>
            tor_assert (HT_FIND strmap_entry_hash m key = None)
             (rbind (HT_INSERT strmap_entry_hash m key v) (\<lambda>m1. OK (m1, None)))))"

definition digestmap_set :: "'v digestmap \<Rightarrow> byte list \<Rightarrow> 'v ptr \<Rightarrow> ('v digestmap \<times> 'v ptr) res" where
  "digestmap_set m key0 val = (case val of
     None \<Rightarrow> Fault Assert_Fail
   | Some v \<Rightarrow>
       (let key = take DIGEST_LEN key0; hash = digestmap_entry_hash in
        rbind (grow_if_full m) (\<lambda>m1.
          let es = HT_BUCKET hash m1 key in
          case chain_find key es of
            Some i \<Rightarrow> OK (set_val hash m1 key i v, Some (snd (snd (es ! i))))
          | None \<Rightarrow> OK (set_bucket hash key (es @ [(hash key, key, v)])
                          (m1\<lparr>hth_n_entries := hth_n_entries m1 + 1\<rparr>), None))))"

definition strmap_get :: "'v strmap \<Rightarrow> byte list \<Rightarrow> 'v ptr" where
  "strmap_get m key = HT_FIND strmap_entry_hash m key"

definition digestmap_get :: "'v digestmap \<Rightarrow> byte list \<Rightarrow> 'v ptr" where
  "digestmap_get m key = HT_FIND digestmap_entry_hash m (take DIGEST_LEN key)"

definition strmap_remove :: "'v strmap \<Rightarrow> byte list \<Rightarrow> 'v strmap \<times> 'v ptr" where
  "strmap_remove m key = HT_REMOVE strmap_entry_hash m key"

definition digestmap_remove :: "'v digestmap \<Rightarrow> byte list \<Rightarrow> 'v digestmap \<times> 'v ptr" where
  "digestmap_remove m key = HT_REMOVE digestmap_entry_hash m (take DIGEST_LEN key)"

definition strmap_set_lc :: "'v strmap \<Rightarrow> byte list \<Rightarrow> 'v ptr \<Rightarrow> ('v strmap \<times> 'v ptr) res" where
  "strmap_set_lc m key val = strmap_set m (tor_strlower key) val"

definition strmap_get_lc :: "'v strmap \<Rightarrow> byte list \<Rightarrow> 'v ptr" where
  "strmap_get_lc m key = strmap_get m (tor_strlower key)"

definition strmap_remove_lc :: "'v strmap \<Rightarrow> byte list \<Rightarrow> 'v strmap \<times> 'v ptr" where
  "strmap_remove_lc m key = strmap_remove m (tor_strlower key)"

text \<open>Iterators; NULL stands for the end.  The two kinds of map have the same code.\<close>

definition map_iter_init :: "('k, 'v) ht_head \<Rightarrow> (nat \<times> nat) ptr" where
  "map_iter_init m = HT_START m"

definition map_iter_next :: "('k, 'v) ht_head \<Rightarrow> (nat \<times> nat) ptr \<Rightarrow> (nat \<times> nat) ptr res" where
  "map_iter_next m iter = (case iter of None \<Rightarrow> Fault Assert_Fail | Some it \<Rightarrow> OK (HT_NEXT m it))"

definition map_iter_next_rmv ::
  "('k, 'v) ht_head \<Rightarrow> (nat \<times> nat) ptr \<Rightarrow> (('k, 'v) ht_head \<times> (nat \<times> nat) ptr) res" where
  "map_iter_next_rmv m iter = (case iter of None \<Rightarrow> Fault Assert_Fail | Some it \<Rightarrow> OK (HT_NEXT_RMV m it))"

definition map_iter_get :: "('k, 'v) ht_head \<Rightarrow> (nat \<times> nat) ptr \<Rightarrow> ('k \<times> 'v) res" where
  "map_iter_get m iter = (case iter of
     None \<Rightarrow> Fault Assert_Fail
   | Some (b, i) \<Rightarrow>
       if b < length (hth_table m) \<and> i < length (hth_table m ! b) then OK (snd (hth_table m ! b ! i))
       else Fault Mem_Fault)"

definition map_iter_done :: "(nat \<times> nat) ptr \<Rightarrow> bool" where
  "map_iter_done iter \<longleftrightarrow> iter = None"

text \<open>The loop of \<^verbatim>\<open>MAP_FOREACH\<close>, collecting what it visits, and the loop of \<^verbatim>\<open>strmap_free\<close>.\<close>

partial_function (option) map_foreach ::
  "('k, 'v) ht_head \<Rightarrow> (nat \<times> nat) ptr \<Rightarrow> ('k \<times> 'v) list \<Rightarrow> ('k \<times> 'v) list res option" where
  "map_foreach m iter acc =
     (if map_iter_done iter then Some (OK acc)
      else case rbind (map_iter_get m iter) (\<lambda>kv. rbind (map_iter_next m iter) (\<lambda>iter'. OK (kv, iter'))) of
        Fault f \<Rightarrow> Some (Fault f)
      | OK p \<Rightarrow> map_foreach m (snd p) (acc @ [fst p]))"

partial_function (option) map_free_loop ::
  "('k, 'v) ht_head \<Rightarrow> (nat \<times> nat) ptr \<Rightarrow> ('k, 'v) ht_head option" where
  "map_free_loop m ent = (case ent of
     None \<Rightarrow> Some m
   | Some it \<Rightarrow> map_free_loop (fst (HT_NEXT_RMV m it)) (snd (HT_NEXT_RMV m it)))"

definition map_free :: "('k, 'v) ht_head \<Rightarrow> unit res option" where
  "map_free m = map_option (\<lambda>m1. tor_assert (HT_EMPTY m1) (OK ())) (map_free_loop m (HT_START m))"

definition strmap_assert_ok :: "'v strmap \<Rightarrow> unit res" where
  "strmap_assert_ok m = tor_assert (HT_REP_IS_BAD strmap_entry_hash m = 0) (OK ())"

definition digestmap_assert_ok :: "'v digestmap \<Rightarrow> unit res" where
  "digestmap_assert_ok m = tor_assert (HT_REP_IS_BAD digestmap_entry_hash m = 0) (OK ())"

definition strmap_isempty :: "'v strmap \<Rightarrow> bool" where "strmap_isempty m = HT_EMPTY m"
definition digestmap_isempty :: "'v digestmap \<Rightarrow> bool" where "digestmap_isempty m = HT_EMPTY m"
definition strmap_size :: "'v strmap \<Rightarrow> nat" where "strmap_size m = HT_SIZE m"
definition digestmap_size :: "'v digestmap \<Rightarrow> nat" where "digestmap_size m = HT_SIZE m"

subsection \<open>The interface of a map\<close>

datatype ('k, 'v) map_op = MSet 'k 'v | MGet 'k | MRemove 'k

fun op_key :: "('k, 'v) map_op \<Rightarrow> 'k" where
  "op_key (MSet k v) = k" | "op_key (MGet k) = k" | "op_key (MRemove k) = k"

text \<open>A run of operations on a map, with the pointers they return, and on a function.\<close>

fun run_map ::
  "('m \<Rightarrow> 'k \<Rightarrow> 'v ptr \<Rightarrow> ('m \<times> 'v ptr) res) \<Rightarrow> ('m \<Rightarrow> 'k \<Rightarrow> 'v ptr) \<Rightarrow> ('m \<Rightarrow> 'k \<Rightarrow> 'm \<times> 'v ptr) \<Rightarrow>
   'm \<Rightarrow> ('k, 'v) map_op list \<Rightarrow> ('m \<times> 'v ptr list) res" where
  "run_map st get rm m [] = OK (m, [])"
| "run_map st get rm m (MSet k v # ops) =
     rbind (st m k (Some v)) (\<lambda>(m1, r). rbind (run_map st get rm m1 ops) (\<lambda>(m2, rs). OK (m2, r # rs)))"
| "run_map st get rm m (MGet k # ops) =
     rbind (run_map st get rm m ops) (\<lambda>(m2, rs). OK (m2, get m k # rs))"
| "run_map st get rm m (MRemove k # ops) =
     rbind (run_map st get rm (fst (rm m k)) ops) (\<lambda>(m2, rs). OK (m2, snd (rm m k) # rs))"

fun run_fun :: "('k \<rightharpoonup> 'v) \<Rightarrow> ('k, 'v) map_op list \<Rightarrow> ('k \<rightharpoonup> 'v) \<times> 'v ptr list" where
  "run_fun f [] = (f, [])"
| "run_fun f (MSet k v # ops) = (let (g, rs) = run_fun (f(k \<mapsto> v)) ops in (g, f k # rs))"
| "run_fun f (MGet k # ops) = (let (g, rs) = run_fun f ops in (g, f k # rs))"
| "run_fun f (MRemove k # ops) = (let (g, rs) = run_fun (f(k := None)) ops in (g, f k # rs))"

locale finite_map =
  fixes inv :: "'m \<Rightarrow> bool" and abs :: "'m \<Rightarrow> 'k \<rightharpoonup> 'v" and used :: "'m \<Rightarrow> nat" and bound :: nat
    and ok_key :: "'k \<Rightarrow> bool"
    and st :: "'m \<Rightarrow> 'k \<Rightarrow> 'v ptr \<Rightarrow> ('m \<times> 'v ptr) res" and get :: "'m \<Rightarrow> 'k \<Rightarrow> 'v ptr"
    and rm :: "'m \<Rightarrow> 'k \<Rightarrow> 'm \<times> 'v ptr"
  assumes set_ok: "inv m \<Longrightarrow> ok_key k \<Longrightarrow> used m + 1 < bound \<Longrightarrow>
      \<exists>m'. st m k (Some v) = OK (m', abs m k) \<and> inv m' \<and> abs m' = (abs m)(k \<mapsto> v) \<and> used m' \<le> used m + 1"
    and get_ok: "inv m \<Longrightarrow> ok_key k \<Longrightarrow> get m k = abs m k"
    and remove_ok: "inv m \<Longrightarrow> ok_key k \<Longrightarrow>
      \<exists>m'. rm m k = (m', abs m k) \<and> inv m' \<and> abs m' = (abs m)(k := None) \<and> used m' \<le> used m"
begin

lemma run_map_simulates:
  "inv m \<Longrightarrow> \<forall>op\<in>set ops. ok_key (op_key op) \<Longrightarrow> used m + length ops < bound \<Longrightarrow>
   \<exists>m'. run_map st get rm m ops = OK (m', snd (run_fun (abs m) ops)) \<and> inv m' \<and> abs m' = fst (run_fun (abs m) ops)"
proof (induction ops arbitrary: m)
  case (Cons op ops)
  show ?case
  proof (cases op)
    case (MSet k v)
    with set_ok [of m k v] Cons.prems obtain m1 where
      m1: "st m k (Some v) = OK (m1, abs m k)" "inv m1" "abs m1 = (abs m)(k \<mapsto> v)" "used m1 \<le> used m + 1" by auto
    from Cons.prems m1 have "used m1 + length ops < bound" "\<forall>op\<in>set ops. ok_key (op_key op)" by auto
    from Cons.IH [OF m1(2) this(2,1)] m1(1,3) MSet show ?thesis by (auto simp: case_prod_beta Let_def simp del: fun_upd_apply)
  next
    case (MGet k)
    with Cons.IH [of m] Cons.prems get_ok [of m k] show ?thesis by (auto simp: Let_def split_beta)
  next
    case (MRemove k)
    with remove_ok [of m k] Cons.prems obtain m1 where
      m1: "rm m k = (m1, abs m k)" "inv m1" "abs m1 = (abs m)(k := None)" "used m1 \<le> used m" by auto
    from Cons.prems m1 have "used m1 + length ops < bound" "\<forall>op\<in>set ops. ok_key (op_key op)" by auto
    from Cons.IH [OF m1(2) this(2,1)] m1(1,3) MRemove show ?thesis
      by (auto simp: case_prod_beta Let_def simp del: fun_upd_apply)
  qed
qed simp

end

subsection \<open>The two maps\<close>

lemma set_val_ok:
  assumes "ht_ok hash head" and "hth_table head \<noteq> []" and "chain_find k (HT_BUCKET hash head k) = Some i"
  shows "ht_ok hash (set_val hash head k i v)" and "ht_map (set_val hash head k i v) = (ht_map head)(k \<mapsto> v)"
    and "hth_n_entries (set_val hash head k i v) = hth_n_entries head"
proof -
  from found_entry [OF assms] obtain old where "HT_BUCKET hash head k ! i = (hash k, k, old)" by metis
  then have "set_val hash head k i v = set_bucket hash k ((HT_BUCKET hash head k)[i := (hash k, k, v)]) head"
    by (simp add: set_val_def Let_def)
  with replace_entry_ok(1,2) [OF assms, of v]
  show "ht_ok hash (set_val hash head k i v)" "ht_map (set_val hash head k i v) = (ht_map head)(k \<mapsto> v)"
    "hth_n_entries (set_val hash head k i v) = hth_n_entries head"
    by (simp_all add: set_bucket_def)
qed

lemma strmap_set_ok:
  assumes "ht_ok strmap_entry_hash m" and "hth_n_entries m + 1 < HT_MAX"
  shows "\<exists>m'. strmap_set m k (Some v) = OK (m', ht_map m k) \<and> ht_ok strmap_entry_hash m' \<and>
    ht_map m' = (ht_map m)(k \<mapsto> v) \<and> hth_n_entries m' \<le> hth_n_entries m + 1"
proof (cases "ht_map m k")
  case None
  from HT_INSERT_ok [OF assms None, of v] None HT_FIND_map [OF assms(1), of k] show ?thesis
    by (auto simp: strmap_set_def)
next
  case (Some old)
  then have t: "hth_table m \<noteq> []" using ht_map_empty_table [of m] by auto
  with Some ht_find_chain [OF assms(1), of k] obtain i where
    i: "chain_find k (HT_BUCKET strmap_entry_hash m k) = Some i" by auto
  with Some set_val_ok [OF assms(1) t i, of v] HT_FIND_map [OF assms(1), of k] show ?thesis
    by (simp add: strmap_set_def)
qed

lemma digestmap_set_ok:
  assumes "ht_ok digestmap_entry_hash m" and "hth_n_entries m + 1 < HT_MAX" and "length k = DIGEST_LEN"
  shows "\<exists>m'. digestmap_set m k (Some v) = OK (m', ht_map m k) \<and> ht_ok digestmap_entry_hash m' \<and>
    ht_map m' = (ht_map m)(k \<mapsto> v) \<and> hth_n_entries m' \<le> hth_n_entries m + 1"
proof -
  let ?h = digestmap_entry_hash
  from grow_if_full_ok [OF assms(1,2)] obtain m1 where
    m1: "grow_if_full m = OK m1" "ht_ok ?h m1" "hth_table m1 \<noteq> []" "ht_map m1 = ht_map m"
      "hth_n_entries m1 = hth_n_entries m" "hth_n_entries m1 + 1 \<le> hth_load_limit m1" by blast
  have k: "take DIGEST_LEN k = k" using assms(3) by simp
  show ?thesis
  proof (cases "chain_find k (HT_BUCKET ?h m1 k)")
    case None
    then have "ht_map m1 k = None" using ht_find_chain [OF m1(2,3)] by simp
    with add_entry_ok [OF m1(2,3,6) this, where es = "HT_BUCKET ?h m1 k @ [(?h k, k, v)]" and v = v] m1 None k
    show ?thesis by (simp add: digestmap_set_def Let_def) (simp add: set_bucket_def)
  next
    case (Some i)
    with set_val_ok [OF m1(2,3) Some, of v] replace_entry_ok(3) [OF m1(2,3) Some] m1 k show ?thesis
      by (simp add: digestmap_set_def Let_def)
  qed
qed

interpretation strm: finite_map "ht_ok strmap_entry_hash" ht_map hth_n_entries HT_MAX "\<lambda>k. True"
    strmap_set strmap_get strmap_remove
proof
  fix m :: "'a strmap" and k v assume "ht_ok strmap_entry_hash m" "hth_n_entries m + 1 < HT_MAX"
  then show "\<exists>m'. strmap_set m k (Some v) = OK (m', ht_map m k) \<and> ht_ok strmap_entry_hash m' \<and>
      ht_map m' = (ht_map m)(k \<mapsto> v) \<and> hth_n_entries m' \<le> hth_n_entries m + 1" by (rule strmap_set_ok)
qed (simp_all add: strmap_get_def HT_FIND_map strmap_remove_def HT_REMOVE_ok)

interpretation digm: finite_map "ht_ok digestmap_entry_hash" ht_map hth_n_entries HT_MAX "\<lambda>k. length k = DIGEST_LEN"
    digestmap_set digestmap_get digestmap_remove
proof
  fix m :: "'a digestmap" and k :: "byte list" and v
  assume "ht_ok digestmap_entry_hash m" "length k = DIGEST_LEN" "hth_n_entries m + 1 < HT_MAX"
  then show "\<exists>m'. digestmap_set m k (Some v) = OK (m', ht_map m k) \<and> ht_ok digestmap_entry_hash m' \<and>
      ht_map m' = (ht_map m)(k \<mapsto> v) \<and> hth_n_entries m' \<le> hth_n_entries m + 1"
    by (intro digestmap_set_ok)
qed (simp_all add: digestmap_get_def HT_FIND_map digestmap_remove_def HT_REMOVE_ok)

lemma HT_INIT_ok: "ht_ok hash HT_INIT" "ht_map HT_INIT = (\<lambda>_. None)" "hth_n_entries HT_INIT = 0"
  by (simp_all add: HT_INIT_def ht_ok_def ht_map_def entries_def placed_def keys_of_def)

subsection \<open>The consistency check\<close>

lemma rep_chain_ok:
  "\<forall>e\<in>set es. belongs hash len i e \<Longrightarrow> rep_chain hash len i es n = Inr (n + length es)"
proof (induction es arbitrary: n)
  case (Cons e es)
  then have "fst e = hash (fst (snd e))" "unat (hash (fst (snd e))) mod len = i"
    using belongs_hash [of hash len i e] by simp_all
  with Cons show ?case by simp
qed simp

lemma rep_table_ok:
  "\<forall>b<length ess. \<forall>e\<in>set (ess ! b). belongs hash len (i + b) e \<Longrightarrow>
   rep_table hash len i ess n = Inr (n + length (concat ess))"
proof (induction ess arbitrary: i n)
  case (Cons es ess)
  from Cons.prems have "\<forall>e\<in>set es. belongs hash len i e" by force
  moreover have "\<forall>b<length ess. \<forall>e\<in>set (ess ! b). belongs hash len (i + 1 + b) e"
  proof (intro allI impI)
    fix b assume "b < length ess"
    with Cons.prems [rule_format, of "Suc b"] show "\<forall>e\<in>set (ess ! b). belongs hash len (i + 1 + b) e" by simp
  qed
  ultimately show ?case using Cons.IH [of "i + 1" "n + length es"] by (simp add: rep_chain_ok)
qed simp

lemma HT_REP_ok: "ht_ok hash head \<Longrightarrow> HT_REP_IS_BAD hash head = 0"
proof (cases "hth_table head = []")
  case False
  assume ok: "ht_ok hash head"
  then obtain i where i: "i < N_PRIMES" "hth_prime_idx head = int i" "length (hth_table head) = PRIMES ! i"
    "hth_load_limit head = load_limit_of (PRIMES ! i)" "hth_n_entries head \<le> hth_load_limit head"
    using False by (auto simp: ht_ok_def)
  have "placed hash (hth_table head)" using ok by (simp add: ht_ok_def)
  then have "rep_table hash (length (hth_table head)) 0 (hth_table head) 0 = Inr (length (entries head))"
    using rep_table_ok [of "hth_table head" hash "length (hth_table head)" 0 0] by (simp add: placed_iff entries_def)
  moreover have "hth_load_limit head \<noteq> 0" using load_limit_mono [OF i(1)] i(4) by linarith
  ultimately show ?thesis using i False ht_ok_count [OF ok] PRIMES_pos [OF i(1)]
    by (simp add: HT_REP_IS_BAD_def Let_def)
qed (auto simp: HT_REP_IS_BAD_def ht_ok_def dest: PRIMES_pos)

subsection \<open>Iteration\<close>

text \<open>What an iterator still has before it.\<close>

definition iter_rest :: "('k, 'v) ht_entry list list \<Rightarrow> (nat \<times> nat) option \<Rightarrow> ('k, 'v) ht_entry list" where
  "iter_rest t iter = (case iter of None \<Rightarrow> [] | Some (b, i) \<Rightarrow> drop i (t ! b) @ concat (drop (Suc b) t))"

lemma scan_buckets_rest:
  "iter_rest t (scan_buckets (drop b t) b) = concat (drop b t) \<and>
   (case scan_buckets (drop b t) b of
      None \<Rightarrow> True | Some (b', i) \<Rightarrow> b' < length t \<and> i = 0 \<and> t ! b' \<noteq> [] \<and> concat (take b' t) = concat (take b t))"
proof (induction "length t - b" arbitrary: b)
  case 0
  then show ?case by (simp add: iter_rest_def)
next
  case (Suc d)
  then have b: "b < length t" by simp
  then have d: "drop b t = t ! b # drop (Suc b) t" "take (Suc b) t = take b t @ [t ! b]"
    by (simp_all add: Cons_nth_drop_Suc take_Suc_conv_app_nth)
  have "d = length t - Suc b" using Suc.hyps(2) by simp
  from Suc.hyps(1) [OF this] d b show ?case
    by (cases "t ! b = []") (auto simp: iter_rest_def split: option.splits)
qed

lemma placed_bucket: "placed hash t \<Longrightarrow> b < length t \<Longrightarrow> i < length (t ! b) \<Longrightarrow> bucket_of (fst (t ! b ! i)) t = b"
  using placed_nth [of hash t b "t ! b ! i"] unfolding belongs_def bucket_of_def by (meson nth_mem)

lemma HT_NEXT_rest:
  assumes "placed hash (hth_table m)" and "b < length (hth_table m)" and "i < length (hth_table m ! b)"
  shows "iter_rest (hth_table m) (Some (b, i)) = hth_table m ! b ! i # iter_rest (hth_table m) (HT_NEXT m (b, i))"
    and "HT_NEXT m (b, i) = Some (b', i') \<Longrightarrow> b' < length (hth_table m) \<and> i' < length (hth_table m ! b')"
proof -
  have d: "drop i (hth_table m ! b) = hth_table m ! b ! i # drop (Suc i) (hth_table m ! b)"
    using assms(3) by (simp add: Cons_nth_drop_Suc)
  note s = scan_buckets_rest [of "hth_table m" "Suc b"] placed_bucket [OF assms]
  show "iter_rest (hth_table m) (Some (b, i)) = hth_table m ! b ! i # iter_rest (hth_table m) (HT_NEXT m (b, i))"
  proof (cases "i + 1 < length (hth_table m ! b)")
    case True
    then show ?thesis using d by (simp add: HT_NEXT_def iter_rest_def)
  next
    case False
    then have "drop (Suc i) (hth_table m ! b) = []" by simp
    with s d False show ?thesis by (simp add: HT_NEXT_def) (simp add: iter_rest_def)
  qed
  show "HT_NEXT m (b, i) = Some (b', i') \<Longrightarrow> b' < length (hth_table m) \<and> i' < length (hth_table m ! b')"
    using s assms(2) by (auto simp: HT_NEXT_def split: if_splits)
qed

lemma map_foreach_rest:
  assumes "placed hash (hth_table m)"
    and "\<And>b i. iter = Some (b, i) \<Longrightarrow> b < length (hth_table m) \<and> i < length (hth_table m ! b)"
  shows "map_foreach m iter acc = Some (OK (acc @ map snd (iter_rest (hth_table m) iter)))"
  using assms(2)
proof (induction "iter_rest (hth_table m) iter" arbitrary: iter acc)
  case Nil
  show ?case
  proof (cases iter)
    case None
    then show ?thesis by (subst map_foreach.simps) (simp add: map_iter_done_def iter_rest_def)
  next
    case (Some it)
    with Nil.prems Nil.hyps show ?thesis by (cases it) (auto simp: iter_rest_def)
  qed
next
  case (Cons e es)
  then obtain b i where it: "iter = Some (b, i)" by (cases iter) (auto simp: iter_rest_def)
  with Cons.prems have bi: "b < length (hth_table m)" "i < length (hth_table m ! b)" by auto
  note n = HT_NEXT_rest [OF assms(1) bi]
  from n(1) Cons.hyps(2) it have "es = iter_rest (hth_table m) (HT_NEXT m (b, i))" by simp
  from Cons.hyps(1) [OF this n(2), where acc = "acc @ [snd (hth_table m ! b ! i)]"]
  have "map_foreach m (HT_NEXT m (b, i)) (acc @ [snd (hth_table m ! b ! i)]) =
      Some (OK ((acc @ [snd (hth_table m ! b ! i)]) @ map snd (iter_rest (hth_table m) (HT_NEXT m (b, i)))))" .
  with it bi n(1) show ?case
    by (subst map_foreach.simps) (simp add: map_iter_done_def map_iter_get_def map_iter_next_def)
qed

lemma del_keeporder_0 [simp]: "del_keeporder 0 xs = tl xs"
  by (cases xs) (simp_all add: del_keeporder_def)

text \<open>Freeing takes the first entry out until none is left.\<close>

definition free_state :: "('k \<Rightarrow> u32) \<Rightarrow> ('k, 'v) ht_head \<Rightarrow> (nat \<times> nat) option \<Rightarrow> bool" where
  "free_state hash m ent \<longleftrightarrow> placed hash (hth_table m) \<and> hth_n_entries m = length (concat (hth_table m)) \<and>
     (case ent of
        None \<Rightarrow> concat (hth_table m) = []
      | Some (b, i) \<Rightarrow> i = 0 \<and> b < length (hth_table m) \<and> hth_table m ! b \<noteq> [] \<and> concat (take b (hth_table m)) = [])"

lemma free_state_scan:
  assumes "placed hash (hth_table m)" and "hth_n_entries m = length (concat (hth_table m))"
    and "concat (take b (hth_table m)) = []"
  shows "free_state hash m (scan_buckets (drop b (hth_table m)) b)"
proof (cases "scan_buckets (drop b (hth_table m)) b")
  case None
  with scan_buckets_rest [of "hth_table m" b] have "concat (drop b (hth_table m)) = []" by (simp add: iter_rest_def)
  then have "concat (hth_table m) = []"
    using assms(3) by (metis append_Nil append_take_drop_id concat_append)
  with assms None show ?thesis by (simp add: free_state_def)
next
  case (Some p)
  with scan_buckets_rest [of "hth_table m" b] assms show ?thesis by (cases p) (simp add: free_state_def)
qed

lemma free_state_step:
  assumes "free_state hash m (Some it)"
  shows "free_state hash (fst (HT_NEXT_RMV m it)) (snd (HT_NEXT_RMV m it))"
    and "hth_n_entries (fst (HT_NEXT_RMV m it)) < hth_n_entries m"
proof -
  let ?t = "hth_table m"
  obtain b where it: "it = (b, 0)" and b: "b < length ?t" "?t ! b \<noteq> []" and before: "concat (take b ?t) = []"
    and p: "placed hash ?t" and n: "hth_n_entries m = length (concat ?t)"
    using assms by (cases it) (auto simp: free_state_def)
  define m1 where "m1 = m\<lparr>hth_table := ?t[b := tl (?t ! b)], hth_n_entries := hth_n_entries m - 1\<rparr>"
  have "mset (?t ! b) = add_mset (hd (?t ! b)) (mset (tl (?t ! b)))" using b(2) by (cases "?t ! b") auto
  with mset_concat_update [OF b(1), of "tl (?t ! b)"]
  have "mset (concat ?t) = add_mset (hd (?t ! b)) (mset (concat (hth_table m1)))" by (simp add: m1_def)
  then have len: "length (concat ?t) = Suc (length (concat (hth_table m1)))"
    by (metis size_add_mset size_mset)
  with n have n1: "hth_n_entries m1 = length (concat (hth_table m1))" "hth_n_entries m1 < hth_n_entries m"
    by (simp_all add: m1_def)
  have "\<forall>e\<in>set (tl (?t ! b)). belongs hash (length ?t) b e"
    using placed_nth [OF p b(1)] list.set_sel(2) [OF b(2)] by blast
  with p have p1: "placed hash (hth_table m1)" by (simp add: m1_def placed_update)
  have tk: "take b (hth_table m1) = take b ?t" by (simp add: m1_def)
  have bk: "bucket_of (fst (?t ! b ! 0)) (hth_table m1) = b"
    using placed_bucket [OF p b(1), of 0] b(2) by (simp add: m1_def bucket_of_def)
  show "hth_n_entries (fst (HT_NEXT_RMV m it)) < hth_n_entries m"
    using n1(2) b by (auto simp: HT_NEXT_RMV_def it m1_def Let_def)
  show "free_state hash (fst (HT_NEXT_RMV m it)) (snd (HT_NEXT_RMV m it))"
  proof (cases "tl (?t ! b) = []")
    case False
    then have tl_length: "Suc 0 < length (?t ! b)" by (cases "?t ! b") auto
    then have "HT_NEXT_RMV m it = (m1, Some (b, 0))"
      using b tl_length by (simp add: HT_NEXT_RMV_def it m1_def Let_def)
    with False p1 n1 tk before b show ?thesis by (simp add: free_state_def) (simp add: m1_def)
  next
    case True
    then have "HT_NEXT_RMV m it = (m1, scan_buckets (drop (b + 1) (hth_table m1)) (b + 1))"
      using b bk by (simp add: HT_NEXT_RMV_def it Let_def) (simp add: m1_def)
    moreover have "concat (take (b + 1) (hth_table m1)) = []"
      using True b before tk by (simp add: m1_def take_Suc_conv_app_nth)
    ultimately show ?thesis using free_state_scan [OF p1 n1(1)] by simp
  qed
qed

lemma map_free_loop_returns:
  "free_state hash m ent \<Longrightarrow> \<exists>m'. map_free_loop m ent = Some m' \<and> hth_n_entries m' = 0"
proof (induction "hth_n_entries m" arbitrary: m ent rule: less_induct)
  case less
  show ?case
  proof (cases ent)
    case None
    with less.prems show ?thesis by (subst map_free_loop.simps) (simp add: free_state_def)
  next
    case (Some it)
    with less.hyps [OF free_state_step(2) free_state_step(1)] less.prems show ?thesis
      by (subst map_free_loop.simps) simp
  qed
qed

subsection \<open>Properties\<close>

text \<open>
  C37: any sequence of fewer than \<open>HT_MAX\<close> sets, gets and removals on a new string map returns the pointers that the same
  sequence on a mathematical function returns, keeps the invariant, and passes the consistency check;
  the same holds of digest maps with keys of twenty bytes.
\<close>

theorem maps_refine_functions:
  assumes "length ops < HT_MAX" and "length dops < HT_MAX" and "\<forall>op\<in>set dops. length (op_key op) = DIGEST_LEN"
  shows "(\<exists>m. run_map strmap_set strmap_get strmap_remove strmap_new ops = OK (m, snd (run_fun (\<lambda>_. None) ops)) \<and>
      ht_map m = fst (run_fun (\<lambda>_. None) ops) \<and> strmap_assert_ok m = OK ()) \<and>
    (\<exists>m. run_map digestmap_set digestmap_get digestmap_remove digestmap_new dops =
        OK (m, snd (run_fun (\<lambda>_. None) dops)) \<and>
      ht_map m = fst (run_fun (\<lambda>_. None) dops) \<and> digestmap_assert_ok m = OK ())"
  using strm.run_map_simulates [of HT_INIT ops] digm.run_map_simulates [of HT_INIT dops] assms
  by (auto simp: HT_INIT_ok strmap_new_def digestmap_new_def strmap_assert_ok_def digestmap_assert_ok_def
      HT_REP_ok)

theorem maps_refine_functions_witness:
  "\<exists>m. run_map strmap_set strmap_get strmap_remove strmap_new
      [MSet [0x61] (1::nat), MSet [0x62] 2, MSet [0x61] 3, MRemove [0x62], MGet [0x61], MGet [0x62]] =
      OK (m, [None, None, Some 1, Some 2, Some 3, None])"
  using maps_refine_functions [of "[MSet [0x61] (1::nat), MSet [0x62] 2, MSet [0x61] 3, MRemove [0x62], MGet [0x61], MGet [0x62]]"
      "[] :: (byte list, nat) map_op list"]
  by (auto simp: HT_MAX_def Let_def)

text \<open>
  Iterating over a well-formed map visits every entry exactly once and ends, and freeing a map takes all
  entries out, ends, and does not fail its final assertion.
\<close>

lemma map_iteration:
  assumes "ht_ok hash m"
  shows "(\<exists>kvs. map_foreach m (map_iter_init m) [] = Some (OK kvs) \<and> distinct (map fst kvs) \<and>
      length kvs = HT_SIZE m \<and> map_of kvs = ht_map m) \<and>
    map_free m = Some (OK ())"
proof
  have p: "placed hash (hth_table m)" using assms by (simp add: ht_ok_def)
  have "b < length (hth_table m) \<and> i < length (hth_table m ! b)" if "HT_START m = Some (b, i)" for b i
    using scan_buckets_rest [of "hth_table m" 0] that by (simp add: HT_START_def)
  from map_foreach_rest [OF p this, where acc = "[]"]
  have "map_foreach m (map_iter_init m) [] = Some (OK (map snd (entries m)))"
    using scan_buckets_rest [of "hth_table m" 0] by (simp add: HT_START_def map_iter_init_def entries_def)
  with ht_ok_count [OF assms]
  show "\<exists>kvs. map_foreach m (map_iter_init m) [] = Some (OK kvs) \<and> distinct (map fst kvs) \<and>
      length kvs = HT_SIZE m \<and> map_of kvs = ht_map m"
    by (simp add: HT_SIZE_def ht_map_def keys_of_def)
  have "free_state hash m (HT_START m)"
    using free_state_scan [OF p, of 0] ht_ok_count [OF assms] by (simp add: HT_START_def entries_def)
  from map_free_loop_returns [OF this] show "map_free m = Some (OK ())"
    by (auto simp: map_free_def HT_EMPTY_def)
qed

end
