(* ===== verification/Policies.thy ===== *)
theory Policies
  imports Address
begin

section \<open>Exit policies (policies.c)\<close>

text \<open>
  A policy is a list of rules; the first rule that matches an address and a port decides.  Here: the
  decision when address or port may be unknown, the removal of rules that can never decide, and the tests on whole policies.
  Policies are lists of rules; the sharing of
  equal rules by reference counts is not modelled.
\<close>

datatype addr_policy_action = ADDR_POLICY_ACCEPT | ADDR_POLICY_REJECT

record addr_policy =
  ap_policy_type :: addr_policy_action
  ap_is_private :: bool
  ap_maskbits :: byte
  ap_addr :: tor_addr
  ap_prt_min :: u16
  ap_prt_max :: u16

datatype addr_policy_result = ADDR_POLICY_ACCEPTED | ADDR_POLICY_REJECTED
  | ADDR_POLICY_PROBABLY_ACCEPTED | ADDR_POLICY_PROBABLY_REJECTED

subsection \<open>Decisions\<close>

definition addr_hits :: "tor_addr \<Rightarrow> addr_policy \<Rightarrow> bool res" where
  "addr_hits addr p = rbind (tor_addr_compare_masked addr (ap_addr p) (ap_maskbits p) CMP_EXACT) (\<lambda>r. OK (r = 0))"

definition port_hits :: "u16 \<Rightarrow> addr_policy \<Rightarrow> bool" where
  "port_hits port p \<longleftrightarrow> ap_prt_min p \<le> port \<and> port \<le> ap_prt_max p"

definition all_ports :: "addr_policy \<Rightarrow> bool" where
  "all_ports p \<longleftrightarrow> ap_prt_min p \<le> 1 \<and> ap_prt_max p \<ge> 65535"

fun compare_known_tor_addr_to_addr_policy :: "tor_addr \<Rightarrow> u16 \<Rightarrow> addr_policy list \<Rightarrow> addr_policy_result res" where
  "compare_known_tor_addr_to_addr_policy addr port [] = OK ADDR_POLICY_ACCEPTED"
| "compare_known_tor_addr_to_addr_policy addr port (tmpe # ps) =
     rbind (addr_hits addr tmpe) (\<lambda>hit.
       if hit \<and> port_hits port tmpe
       then OK (if ap_policy_type tmpe = ADDR_POLICY_ACCEPT then ADDR_POLICY_ACCEPTED else ADDR_POLICY_REJECTED)
       else compare_known_tor_addr_to_addr_policy addr port ps)"

text \<open>The answer of a rule that matches for certain, after rules that might have matched.\<close>

definition certain_answer :: "bool \<Rightarrow> bool \<Rightarrow> addr_policy_action \<Rightarrow> addr_policy_result" where
  "certain_answer maybe_accept maybe_reject act =
     (if act = ADDR_POLICY_ACCEPT
      then (if maybe_reject then ADDR_POLICY_PROBABLY_ACCEPTED else ADDR_POLICY_ACCEPTED)
      else (if maybe_accept then ADDR_POLICY_PROBABLY_REJECTED else ADDR_POLICY_REJECTED))"

fun noport_loop :: "bool \<Rightarrow> bool \<Rightarrow> tor_addr \<Rightarrow> addr_policy list \<Rightarrow> addr_policy_result res" where
  "noport_loop maybe_accept maybe_reject addr [] =
     OK (if maybe_reject then ADDR_POLICY_PROBABLY_ACCEPTED else ADDR_POLICY_ACCEPTED)"
| "noport_loop maybe_accept maybe_reject addr (tmpe # ps) =
     rbind (addr_hits addr tmpe) (\<lambda>hit.
       if hit then
         (if all_ports tmpe then OK (certain_answer maybe_accept maybe_reject (ap_policy_type tmpe))
          else if ap_policy_type tmpe = ADDR_POLICY_REJECT then noport_loop maybe_accept True addr ps
          else noport_loop True maybe_reject addr ps)
       else noport_loop maybe_accept maybe_reject addr ps)"

definition compare_known_tor_addr_to_addr_policy_noport :: "tor_addr \<Rightarrow> addr_policy list \<Rightarrow> addr_policy_result res" where
  "compare_known_tor_addr_to_addr_policy_noport addr policy = noport_loop False False addr policy"

fun unknown_loop :: "bool \<Rightarrow> bool \<Rightarrow> u16 \<Rightarrow> addr_policy list \<Rightarrow> addr_policy_result" where
  "unknown_loop maybe_accept maybe_reject port [] =
     (if maybe_reject then ADDR_POLICY_PROBABLY_ACCEPTED else ADDR_POLICY_ACCEPTED)"
| "unknown_loop maybe_accept maybe_reject port (tmpe # ps) =
     (if port_hits port tmpe then
        (if ap_maskbits tmpe = 0 then certain_answer maybe_accept maybe_reject (ap_policy_type tmpe)
         else if ap_policy_type tmpe = ADDR_POLICY_REJECT then unknown_loop maybe_accept True port ps
         else unknown_loop True maybe_reject port ps)
      else unknown_loop maybe_accept maybe_reject port ps)"

definition compare_unknown_tor_addr_to_addr_policy :: "u16 \<Rightarrow> addr_policy list \<Rightarrow> addr_policy_result" where
  "compare_unknown_tor_addr_to_addr_policy port policy = unknown_loop False False port policy"

definition compare_tor_addr_to_addr_policy :: "tor_addr \<Rightarrow> u16 \<Rightarrow> addr_policy list option \<Rightarrow> addr_policy_result res" where
  "compare_tor_addr_to_addr_policy addr port policy = (case policy of
     None \<Rightarrow> OK ADDR_POLICY_ACCEPTED
   | Some ps \<Rightarrow>
       if tor_addr_is_null addr then tor_assert (port \<noteq> 0) (OK (compare_unknown_tor_addr_to_addr_policy port ps))
       else if port = 0 then compare_known_tor_addr_to_addr_policy_noport addr ps
       else compare_known_tor_addr_to_addr_policy addr port ps)"

definition compare_addr_to_addr_policy :: "u32 \<Rightarrow> u16 \<Rightarrow> addr_policy list option \<Rightarrow> addr_policy_result res" where
  "compare_addr_to_addr_policy addr port policy = compare_tor_addr_to_addr_policy (AF_INET addr) port policy"

definition addr_policy_permits_tor_addr :: "tor_addr \<Rightarrow> u16 \<Rightarrow> addr_policy list option \<Rightarrow> bool res" where
  "addr_policy_permits_tor_addr addr port policy =
     rbind (compare_tor_addr_to_addr_policy addr port policy) (\<lambda>p.
       OK (p = ADDR_POLICY_PROBABLY_ACCEPTED \<or> p = ADDR_POLICY_ACCEPTED))"

definition addr_policy_permits_address :: "u32 \<Rightarrow> u16 \<Rightarrow> addr_policy list option \<Rightarrow> bool res" where
  "addr_policy_permits_address addr port policy = addr_policy_permits_tor_addr (AF_INET addr) port policy"

text \<open>The policies of a router other than its exit policy, NULL if they are not set, and what they are asked.\<close>

record router_policies =
  socks_policy :: "addr_policy list option"
  dir_policy :: "addr_policy list option"
  authdir_reject_policy :: "addr_policy list option"
  authdir_invalid_policy :: "addr_policy list option"
  authdir_baddir_policy :: "addr_policy list option"
  authdir_badexit_policy :: "addr_policy list option"
  reachable_or_addr_policy :: "addr_policy list option"
  reachable_dir_addr_policy :: "addr_policy list option"

definition firewall_is_fascist_or :: "router_policies \<Rightarrow> bool" where
  "firewall_is_fascist_or st \<longleftrightarrow> reachable_or_addr_policy st \<noteq> None"

definition fascist_firewall_allows_address_or :: "router_policies \<Rightarrow> tor_addr \<Rightarrow> u16 \<Rightarrow> bool res" where
  "fascist_firewall_allows_address_or st addr port = addr_policy_permits_tor_addr addr port (reachable_or_addr_policy st)"

definition fascist_firewall_allows_or :: "router_policies \<Rightarrow> u32 \<Rightarrow> u16 \<Rightarrow> bool res" where
  "fascist_firewall_allows_or st ri_addr ri_or_port = fascist_firewall_allows_address_or st (AF_INET ri_addr) ri_or_port"

definition fascist_firewall_allows_address_dir :: "router_policies \<Rightarrow> tor_addr \<Rightarrow> u16 \<Rightarrow> bool res" where
  "fascist_firewall_allows_address_dir st addr port = addr_policy_permits_tor_addr addr port (reachable_dir_addr_policy st)"

definition dir_policy_permits_address :: "router_policies \<Rightarrow> tor_addr \<Rightarrow> bool res" where
  "dir_policy_permits_address st addr = addr_policy_permits_tor_addr addr 1 (dir_policy st)"

definition socks_policy_permits_address :: "router_policies \<Rightarrow> tor_addr \<Rightarrow> bool res" where
  "socks_policy_permits_address st addr = addr_policy_permits_tor_addr addr 1 (socks_policy st)"

definition authdir_policy_permits_address :: "router_policies \<Rightarrow> u32 \<Rightarrow> u16 \<Rightarrow> bool res" where
  "authdir_policy_permits_address st addr port = addr_policy_permits_address addr port (authdir_reject_policy st)"

definition authdir_policy_valid_address :: "router_policies \<Rightarrow> u32 \<Rightarrow> u16 \<Rightarrow> bool res" where
  "authdir_policy_valid_address st addr port = addr_policy_permits_address addr port (authdir_invalid_policy st)"

definition authdir_policy_baddir_address :: "router_policies \<Rightarrow> u32 \<Rightarrow> u16 \<Rightarrow> bool res" where
  "authdir_policy_baddir_address st addr port =
     rbind (addr_policy_permits_address addr port (authdir_baddir_policy st)) (\<lambda>b. OK (\<not> b))"

definition authdir_policy_badexit_address :: "router_policies \<Rightarrow> u32 \<Rightarrow> u16 \<Rightarrow> bool res" where
  "authdir_policy_badexit_address st addr port =
     rbind (addr_policy_permits_address addr port (authdir_badexit_policy st)) (\<lambda>b. OK (\<not> b))"

subsection \<open>Comparing rules\<close>

text \<open>Differences as \<^verbatim>\<open>cmp_single_addr_policy\<close> returns them, the first that is not 0.\<close>

definition action_num :: "addr_policy_action \<Rightarrow> int" where
  "action_num a = (case a of ADDR_POLICY_ACCEPT \<Rightarrow> 1 | ADDR_POLICY_REJECT \<Rightarrow> 2)"

definition cmp_single_addr_policy :: "addr_policy \<Rightarrow> addr_policy \<Rightarrow> int res" where
  "cmp_single_addr_policy a b =
     (let r1 = action_num (ap_policy_type a) - action_num (ap_policy_type b) in if r1 \<noteq> 0 then OK r1
      else let r2 = of_bool (ap_is_private a) - of_bool (ap_is_private b) in if r2 \<noteq> 0 then OK r2
      else rbind (tor_addr_compare (ap_addr a) (ap_addr b) CMP_EXACT) (\<lambda>r3. if r3 \<noteq> 0 then OK r3
      else let r4 = uint (ap_maskbits a) - uint (ap_maskbits b) in if r4 \<noteq> 0 then OK r4
      else let r5 = uint (ap_prt_min a) - uint (ap_prt_min b) in if r5 \<noteq> 0 then OK r5
      else OK (uint (ap_prt_max a) - uint (ap_prt_max b))))"

fun cmp_policy_lists :: "addr_policy list \<Rightarrow> addr_policy list \<Rightarrow> int res" where
  "cmp_policy_lists [] [] = OK 0"
| "cmp_policy_lists (a # as) [] = OK (-1)"
| "cmp_policy_lists [] (b # bs) = OK 1"
| "cmp_policy_lists (a # as) (b # bs) =
     rbind (cmp_single_addr_policy a b) (\<lambda>r. if r \<noteq> 0 then OK r else cmp_policy_lists as bs)"

definition cmp_addr_policies :: "addr_policy list option \<Rightarrow> addr_policy list option \<Rightarrow> int res" where
  "cmp_addr_policies a b = cmp_policy_lists (case a of None \<Rightarrow> [] | Some x \<Rightarrow> x) (case b of None \<Rightarrow> [] | Some x \<Rightarrow> x)"

definition policy_hash :: "addr_policy \<Rightarrow> u32" where
  "policy_hash a =
     (let r = (if ap_is_private a then 0x1234abcd else tor_addr_hash (ap_addr a)) + push_bit 8 (ucast (ap_prt_min a)) +
            push_bit 16 (ucast (ap_prt_max a)) + ucast (ap_maskbits a)
      in if ap_policy_type a = ADDR_POLICY_REJECT then r XOR 0xffffffff else r)"

definition addr_policy_covers :: "addr_policy \<Rightarrow> addr_policy \<Rightarrow> bool res" where
  "addr_policy_covers a b =
     (if ap_maskbits a > ap_maskbits b then OK False
      else rbind (tor_addr_compare_masked (ap_addr a) (ap_addr b) (ap_maskbits a) CMP_EXACT) (\<lambda>r.
        OK (r = 0 \<and> ap_prt_min a \<le> ap_prt_min b \<and> ap_prt_max a \<ge> ap_prt_max b)))"

definition addr_policy_intersects :: "addr_policy \<Rightarrow> addr_policy \<Rightarrow> bool res" where
  "addr_policy_intersects a b =
     (let minbits = (if ap_maskbits a < ap_maskbits b then ap_maskbits a else ap_maskbits b) in
      rbind (tor_addr_compare_masked (ap_addr a) (ap_addr b) minbits CMP_EXACT) (\<lambda>r.
        OK (r = 0 \<and> \<not> (ap_prt_max a < ap_prt_min b \<or> ap_prt_max b < ap_prt_min a))))"

subsection \<open>Removing rules that never decide\<close>

text \<open>
  The three steps of \<^verbatim>\<open>exit_policy_remove_redundancies\<close>: everything after a rule for all addresses and ports goes; then
  every rule that an earlier one covers; then every rule that a later rule of the same kind covers, if no
  rule of the other kind between them intersects it.
\<close>

fun cut_after_catch_all :: "addr_policy list \<Rightarrow> addr_policy list" where
  "cut_after_catch_all [] = []"
| "cut_after_catch_all (ap # ps) = (if ap_maskbits ap = 0 \<and> all_ports ap then [ap] else ap # cut_after_catch_all ps)"

fun drop_covered :: "addr_policy \<Rightarrow> addr_policy list \<Rightarrow> addr_policy list res" where
  "drop_covered ap [] = OK []"
| "drop_covered ap (tmp # ps) =
     rbind (addr_policy_covers ap tmp) (\<lambda>c. rbind (drop_covered ap ps) (\<lambda>r. OK (if c then r else tmp # r)))"

lemma drop_covered_length: "drop_covered ap ps = OK r \<Longrightarrow> length r \<le> length ps"
  by (induction ps arbitrary: r) (auto simp: res_simps le_SucI)

function remove_covered :: "addr_policy list \<Rightarrow> addr_policy list res" where
  "remove_covered [] = OK []"
| "remove_covered (ap # ps) = rbind (drop_covered ap ps) (\<lambda>r. rbind (remove_covered r) (\<lambda>r'. OK (ap # r')))"
  by pat_completeness auto
termination by (relation "measure length") (auto dest: drop_covered_length)

fun later_covers :: "addr_policy \<Rightarrow> addr_policy list \<Rightarrow> bool res" where
  "later_covers ap [] = OK False"
| "later_covers ap (tmp # ps) =
     (if ap_policy_type ap \<noteq> ap_policy_type tmp
      then rbind (addr_policy_intersects ap tmp) (\<lambda>x. if x then OK False else later_covers ap ps)
      else rbind (addr_policy_covers tmp ap) (\<lambda>c. if c then OK True else later_covers ap ps))"

fun remove_shadowed :: "addr_policy list \<Rightarrow> addr_policy list res" where
  "remove_shadowed [] = OK []"
| "remove_shadowed (ap # ps) =
     rbind (later_covers ap ps) (\<lambda>d. rbind (remove_shadowed ps) (\<lambda>r. OK (if d then r else ap # r)))"

definition exit_policy_remove_redundancies :: "addr_policy list \<Rightarrow> addr_policy list res" where
  "exit_policy_remove_redundancies dest =
     rbind (remove_covered (cut_after_catch_all dest)) remove_shadowed"

subsection \<open>Tests on whole policies\<close>

definition opens_port :: "u16 \<Rightarrow> addr_policy \<Rightarrow> bool" where
  "opens_port port p \<longleftrightarrow> \<not> (ap_prt_min p > port \<or> ap_prt_max p < port) \<and> \<not> ap_maskbits p > 8 \<and>
     \<not> tor_addr_is_loopback (ap_addr p) \<and> ap_policy_type p = ADDR_POLICY_ACCEPT"

definition exit_policy_is_general_exit :: "addr_policy list option \<Rightarrow> bool" where
  "exit_policy_is_general_exit policy = (case policy of
     None \<Rightarrow> False
   | Some ps \<Rightarrow> 2 \<le> length (filter (\<lambda>port. list_ex (opens_port port) ps) [80, 443, 6667]))"

fun reject_star_loop :: "addr_policy list \<Rightarrow> bool" where
  "reject_star_loop [] \<longleftrightarrow> True"
| "reject_star_loop (p # ps) \<longleftrightarrow>
     (if ap_policy_type p = ADDR_POLICY_ACCEPT then False
      else if ap_prt_min p \<le> 1 \<and> ap_prt_max p = 65535 \<and> ap_maskbits p = 0 then True
      else reject_star_loop ps)"

definition policy_is_reject_star :: "addr_policy list option \<Rightarrow> bool" where
  "policy_is_reject_star policy = (case policy of None \<Rightarrow> True | Some ps \<Rightarrow> reject_star_loop ps)"

text \<open>The networks of \<^verbatim>\<open>private_nets\<close>, as address and prefix length.\<close>

definition private_nets :: "(tor_addr \<times> byte) list" where
  "private_nets = [(AF_INET 0x00000000, 8), (AF_INET 0xA9FE0000, 16), (AF_INET 0x7F000000, 8), (AF_INET 0xC0A80000, 16),
     (AF_INET 0x0A000000, 8), (AF_INET 0xAC100000, 12)]"

definition policy_expand_private :: "addr_policy list \<Rightarrow> addr_policy list" where
  "policy_expand_private policy = concat (map (\<lambda>p. if \<not> ap_is_private p then [p]
     else map (\<lambda>(addr, bits). p\<lparr>ap_is_private := False, ap_addr := addr, ap_maskbits := bits\<rparr>) private_nets) policy)"

subsection \<open>What a rule matches\<close>

text \<open>
  The reference for the decisions: a rule matches an address whose first bits are those of the rule and a port in its range; the
  first rule that matches decides.
\<close>

definition rule_ok :: "addr_policy \<Rightarrow> bool" where
  "rule_ok p \<longleftrightarrow> addr_ok (ap_addr p) \<and> unat (ap_maskbits p) \<le> 128"

definition addr_matches :: "tor_addr \<Rightarrow> addr_policy \<Rightarrow> bool" where
  "addr_matches addr p \<longleftrightarrow> same_prefix (unat (ap_maskbits p)) addr (ap_addr p)"

definition rule_matches :: "tor_addr \<Rightarrow> u16 \<Rightarrow> addr_policy \<Rightarrow> bool" where
  "rule_matches addr port p \<longleftrightarrow> addr_matches addr p \<and> port_hits port p"

definition answer :: "addr_policy_action \<Rightarrow> addr_policy_result" where
  "answer act = (if act = ADDR_POLICY_ACCEPT then ADDR_POLICY_ACCEPTED else ADDR_POLICY_REJECTED)"

fun first_match :: "(addr_policy \<Rightarrow> bool) \<Rightarrow> addr_policy list \<Rightarrow> addr_policy_result" where
  "first_match matches [] = ADDR_POLICY_ACCEPTED"
| "first_match matches (p # ps) = (if matches p then answer (ap_policy_type p) else first_match matches ps)"

lemma addr_hits_ok [simp]: "addr_ok addr \<Longrightarrow> rule_ok p \<Longrightarrow> addr_hits addr p = OK (addr_matches addr p)"
  using compare_masked_prefix [of addr "ap_addr p" "ap_maskbits p"]
  by (auto simp: addr_hits_def addr_matches_def rule_ok_def)

lemma compare_known_first_match:
  "addr_ok addr \<Longrightarrow> list_all rule_ok ps \<Longrightarrow>
    compare_known_tor_addr_to_addr_policy addr port ps = OK (first_match (rule_matches addr port) ps)"
  by (induction ps) (auto simp: rule_matches_def answer_def)

lemma compare_first_match:
  "addr_ok addr \<Longrightarrow> list_all rule_ok ps \<Longrightarrow> \<not> tor_addr_is_null addr \<Longrightarrow> port \<noteq> 0 \<Longrightarrow>
    compare_tor_addr_to_addr_policy addr port (Some ps) = OK (first_match (rule_matches addr port) ps)"
  by (simp add: compare_tor_addr_to_addr_policy_def compare_known_first_match)

text \<open>A rule that covers another matches what the other matches; rules that match a common address and port intersect.\<close>

definition covers :: "addr_policy \<Rightarrow> addr_policy \<Rightarrow> bool" where
  "covers a b \<longleftrightarrow> ap_maskbits a \<le> ap_maskbits b \<and> same_prefix (unat (ap_maskbits a)) (ap_addr a) (ap_addr b) \<and>
     ap_prt_min a \<le> ap_prt_min b \<and> ap_prt_max a \<ge> ap_prt_max b"

definition intersects :: "addr_policy \<Rightarrow> addr_policy \<Rightarrow> bool" where
  "intersects a b \<longleftrightarrow> same_prefix (min (unat (ap_maskbits a)) (unat (ap_maskbits b))) (ap_addr a) (ap_addr b) \<and>
     \<not> (ap_prt_max a < ap_prt_min b \<or> ap_prt_max b < ap_prt_min a)"

lemma compare_rules:
  assumes "rule_ok a" and "rule_ok b" and "m = ap_maskbits a \<or> m = ap_maskbits b"
  shows "rbind (tor_addr_compare_masked (ap_addr a) (ap_addr b) m CMP_EXACT) (\<lambda>r. OK (r = 0 \<and> P)) =
    OK (same_prefix (unat m) (ap_addr a) (ap_addr b) \<and> P)"
  using assms compare_masked_prefix [of "ap_addr a" "ap_addr b" m] by (auto simp: rule_ok_def)

lemma addr_policy_covers_ok [simp]: "rule_ok a \<Longrightarrow> rule_ok b \<Longrightarrow> addr_policy_covers a b = OK (covers a b)"
  unfolding addr_policy_covers_def covers_def by (auto simp: compare_rules)

lemma addr_policy_intersects_ok [simp]: "rule_ok a \<Longrightarrow> rule_ok b \<Longrightarrow> addr_policy_intersects a b = OK (intersects a b)"
  unfolding addr_policy_intersects_def intersects_def Let_def
  by (subst compare_rules) (auto simp: word_less_nat_alt min_def)

lemma covers_matches: "covers a b \<Longrightarrow> rule_matches addr port b \<Longrightarrow> rule_matches addr port a"
  unfolding covers_def rule_matches_def addr_matches_def port_hits_def
  by (meson order_trans prefixes.inside word_le_nat_alt)

lemma intersects_matches: "rule_matches addr port a \<Longrightarrow> rule_matches addr port b \<Longrightarrow> intersects a b"
  unfolding intersects_def rule_matches_def addr_matches_def port_hits_def
  by (meson not_less order_trans prefixes.shared_prefix)

subsection \<open>Removing redundant rules keeps every decision\<close>

definition catch_all :: "addr_policy \<Rightarrow> bool" where
  "catch_all p \<longleftrightarrow> ap_maskbits p = 0 \<and> all_ports p"

lemma port_le_max [simp]: "(p :: u16) \<le> 65535"
proof -
  have "unat p < 2 ^ 16" using unsigned_less [of p] by simp
  then show ?thesis by (simp add: word_le_nat_alt)
qed

lemma port_pos: "(p :: u16) \<noteq> 0 \<longleftrightarrow> 1 \<le> p"
  by (simp add: word_le_nat_alt unat_eq_0 [symmetric] Suc_le_eq del: unat_eq_0)

lemma all_ports_hits: "all_ports p \<Longrightarrow> port \<noteq> 0 \<Longrightarrow> port_hits port p"
  unfolding all_ports_def port_hits_def port_pos by (meson order_trans port_le_max)

lemma catch_all_matches:
  "catch_all p \<Longrightarrow> tor_addr_family addr = tor_addr_family (ap_addr p) \<Longrightarrow> port \<noteq> 0 \<Longrightarrow> rule_matches addr port p"
  by (simp add: catch_all_def all_ports_hits rule_matches_def addr_matches_def same_prefix_def)

lemma cut_after_catch_all_keeps:
  assumes "port \<noteq> 0"
  shows "(\<And>p. p \<in> set ps \<Longrightarrow> catch_all p \<Longrightarrow> tor_addr_family addr = tor_addr_family (ap_addr p)) \<Longrightarrow>
    first_match (rule_matches addr port) (cut_after_catch_all ps) = first_match (rule_matches addr port) ps"
proof (induction ps)
  case (Cons p ps)
  then show ?case using catch_all_matches [of p addr port] assms by (simp add: catch_all_def [symmetric])
qed simp

lemma cut_after_catch_all_set: "set (cut_after_catch_all ps) \<subseteq> set ps"
  by (induction ps) auto

lemma drop_covered_ok:
  "rule_ok ap \<Longrightarrow> list_all rule_ok ps \<Longrightarrow> drop_covered ap ps = OK (filter (\<lambda>p. \<not> covers ap p) ps)"
  by (induction ps) auto

lemma first_match_filter: "(\<And>p. p \<in> set ps \<Longrightarrow> m p \<Longrightarrow> keep p) \<Longrightarrow> first_match m (filter keep ps) = first_match m ps"
  by (induction ps) auto

lemma remove_covered_ok:
  "list_all rule_ok ps \<Longrightarrow> \<exists>r. remove_covered ps = OK r \<and> set r \<subseteq> set ps \<and> sorted_wrt (\<lambda>a b. \<not> covers a b) r \<and>
    (\<forall>addr port. first_match (rule_matches addr port) r = first_match (rule_matches addr port) ps)"
proof (induction "length ps" arbitrary: ps rule: less_induct)
  case less
  show ?case
  proof (cases ps)
    case (Cons ap ps')
    let ?r = "filter (\<lambda>p. \<not> covers ap p) ps'"
    have ok: "rule_ok ap" "list_all rule_ok ps'" "list_all rule_ok ?r" using less.prems Cons by (auto simp: list_all_iff)
    have "length ?r < length ps" using Cons by (simp add: le_imp_less_Suc)
    from less.hyps [OF this ok(3)] obtain r where r: "remove_covered ?r = OK r" "set r \<subseteq> set ?r"
        "sorted_wrt (\<lambda>a b. \<not> covers a b) r" "\<And>addr port. first_match (rule_matches addr port) r = first_match (rule_matches addr port) ?r"
      by auto
    have "first_match (rule_matches addr port) (ap # r) = first_match (rule_matches addr port) ps" for addr port
      using r(4) covers_matches [of ap _ addr port] by (auto simp: Cons intro!: first_match_filter)
    with r(1-3) ok show ?thesis by (auto simp: Cons drop_covered_ok)
  qed simp
qed

lemma later_covers_ok:
  "rule_ok ap \<Longrightarrow> list_all rule_ok ps \<Longrightarrow> \<exists>d. later_covers ap ps = OK d \<and>
    (d \<longrightarrow> (\<forall>addr port. rule_matches addr port ap \<longrightarrow> first_match (rule_matches addr port) ps = answer (ap_policy_type ap)))"
proof (induction ps)
  case (Cons tmp ps)
  then show ?case
    using covers_matches [of tmp ap] intersects_matches [of _ _ ap tmp]
    by (cases "ap_policy_type ap = ap_policy_type tmp") (simp_all, blast+)
qed auto

lemma remove_shadowed_ok:
  "list_all rule_ok ps \<Longrightarrow> sorted_wrt R ps \<Longrightarrow> \<exists>r. remove_shadowed ps = OK r \<and> set r \<subseteq> set ps \<and> sorted_wrt R r \<and>
    (\<forall>addr port. first_match (rule_matches addr port) r = first_match (rule_matches addr port) ps)"
proof (induction ps)
  case (Cons ap ps)
  then obtain r where "remove_shadowed ps = OK r" "set r \<subseteq> set ps" "sorted_wrt R r"
      "\<forall>addr port. first_match (rule_matches addr port) r = first_match (rule_matches addr port) ps" by auto
  moreover obtain d where "later_covers ap ps = OK d"
      "d \<Longrightarrow> \<forall>addr port. rule_matches addr port ap \<longrightarrow> first_match (rule_matches addr port) ps = answer (ap_policy_type ap)"
    using later_covers_ok [of ap ps] Cons.prems by auto
  ultimately show ?case using Cons.prems by (cases d) auto
qed simp

lemma remove_redundancies_ok:
  assumes "list_all rule_ok policy"
  obtains policy' where "exit_policy_remove_redundancies policy = OK policy'" and "set policy' \<subseteq> set policy"
    and "sorted_wrt (\<lambda>a b. \<not> covers a b) policy'"
    and "\<forall>addr port. first_match (rule_matches addr port) policy' = first_match (rule_matches addr port) (cut_after_catch_all policy)"
proof -
  have "list_all rule_ok (cut_after_catch_all policy)"
    using assms cut_after_catch_all_set by (fastforce simp: list_all_iff)
  then obtain r where r: "remove_covered (cut_after_catch_all policy) = OK r" "set r \<subseteq> set (cut_after_catch_all policy)"
      "sorted_wrt (\<lambda>a b. \<not> covers a b) r"
      "\<forall>addr port. first_match (rule_matches addr port) r = first_match (rule_matches addr port) (cut_after_catch_all policy)"
    using remove_covered_ok by blast
  then have "list_all rule_ok r" using assms cut_after_catch_all_set by (fastforce simp: list_all_iff)
  with r(3) obtain r' where r': "remove_shadowed r = OK r'" "set r' \<subseteq> set r" "sorted_wrt (\<lambda>a b. \<not> covers a b) r'"
      "\<forall>addr port. first_match (rule_matches addr port) r' = first_match (rule_matches addr port) r"
    using remove_shadowed_ok by blast
  show thesis
  proof
    show "exit_policy_remove_redundancies policy = OK r'" using r(1) r'(1) by (simp add: exit_policy_remove_redundancies_def)
    show "set r' \<subseteq> set policy" using r(2) r'(2) cut_after_catch_all_set by blast
  qed (use r r' in simp_all)
qed

text \<open>
  A rule for all IPv4 addresses removes the rules for IPv6 behind it, and decisions for IPv6 addresses change.
\<close>

definition v6_policy :: "addr_policy list" where
  "v6_policy =
    [\<lparr>ap_policy_type = ADDR_POLICY_ACCEPT, ap_is_private = False, ap_maskbits = 0, ap_addr = AF_INET 0, ap_prt_min = 1, ap_prt_max = 65535\<rparr>,
     \<lparr>ap_policy_type = ADDR_POLICY_REJECT, ap_is_private = False, ap_maskbits = 0, ap_addr = AF_INET6 (replicate 16 0), ap_prt_min = 1, ap_prt_max = 65535\<rparr>]"

lemma catch_all_removes_v6:
  "exit_policy_remove_redundancies v6_policy = OK (take 1 v6_policy)"
  "compare_known_tor_addr_to_addr_policy (AF_INET6 (replicate 16 1)) 80 v6_policy = OK ADDR_POLICY_REJECTED"
  "compare_known_tor_addr_to_addr_policy (AF_INET6 (replicate 16 1)) 80 (take 1 v6_policy) = OK ADDR_POLICY_ACCEPTED"
  by (simp_all add: v6_policy_def exit_policy_remove_redundancies_def all_ports_def addr_hits_def tor_addr_compare_masked_def
      compare_v6_def tristate_def port_hits_def Let_def memcmp_def)

subsection \<open>Equality of rules\<close>

lemma compare_eq: "addr_ok a \<Longrightarrow> addr_ok b \<Longrightarrow> \<exists>r. tor_addr_compare a b CMP_EXACT = OK r \<and> (r = 0 \<longleftrightarrow> a = b)"
proof -
  assume ok: "addr_ok a" "addr_ok b"
  have "same_prefix 128 a b \<longleftrightarrow> a = b"
  proof (cases a; cases b)
    fix xs ys assume eq: "a = AF_INET6 xs" "b = AF_INET6 ys"
    with ok have l: "length xs = 16" "length ys = 16" by simp_all
    then have "length (concat (map word_bits xs)) = 128" "length (concat (map word_bits ys)) = 128"
      by (simp_all add: length_concat comp_def sum_list_triv)
    with l eq v6_bits_inj [of xs ys] show ?thesis by (simp add: same_prefix_def)
  qed (auto simp: same_prefix_def word_bits_inj)
  with compare_masked_prefix [OF ok, of 128] show ?thesis by (simp add: tor_addr_compare_def)
qed

text \<open>\<^verbatim>\<open>cmp_single_addr_policy\<close> returns 0 for equal rules only: the hash table that shares rules identifies no two different ones.\<close>

lemma cmp_single_eq:
  assumes "rule_ok a" and "rule_ok b"
  shows "\<exists>r. cmp_single_addr_policy a b = OK r \<and> (r = 0 \<longleftrightarrow> a = b)"
proof -
  obtain r where r: "tor_addr_compare (ap_addr a) (ap_addr b) CMP_EXACT = OK r" "r = 0 \<longleftrightarrow> ap_addr a = ap_addr b"
    using compare_eq assms unfolding rule_ok_def by meson
  have act: "action_num x = action_num y \<longleftrightarrow> x = y" for x y by (cases x; cases y; simp add: action_num_def)
  have eq: "a = b \<longleftrightarrow> ap_policy_type a = ap_policy_type b \<and> ap_is_private a = ap_is_private b \<and> ap_addr a = ap_addr b \<and>
      ap_maskbits a = ap_maskbits b \<and> ap_prt_min a = ap_prt_min b \<and> ap_prt_max a = ap_prt_max b"
    by (cases a; cases b) auto
  show ?thesis unfolding eq cmp_single_addr_policy_def Let_def using r act by (auto simp: word_uint_eq_iff)
qed

lemma cmp_policies_eq:
  "list_all rule_ok as \<Longrightarrow> list_all rule_ok bs \<Longrightarrow> \<exists>r. cmp_policy_lists as bs = OK r \<and> (r = 0 \<longleftrightarrow> as = bs)"
proof (induction as bs rule: cmp_policy_lists.induct)
  case (4 a as b bs)
  then obtain r where "cmp_single_addr_policy a b = OK r" "r = 0 \<longleftrightarrow> a = b" using cmp_single_eq [of a b] by auto
  with 4 show ?case by auto
qed auto

subsection \<open>Definite answers without a port or an address\<close>

text \<open>A matching rule that decides for certain gives a definite answer only if no rule of the other kind may have matched before.\<close>

lemma certain_answer_definite:
  "certain_answer ma mr act = ADDR_POLICY_ACCEPTED \<longleftrightarrow> act = ADDR_POLICY_ACCEPT \<and> \<not> mr"
  "certain_answer ma mr act = ADDR_POLICY_REJECTED \<longleftrightarrow> act = ADDR_POLICY_REJECT \<and> \<not> ma"
  by (cases act; simp add: certain_answer_def)+

lemma noport_loop_sound:
  assumes "addr_ok addr" and "port \<noteq> 0" and "list_all rule_ok ps"
  shows "(noport_loop ma mr addr ps = OK ADDR_POLICY_ACCEPTED \<longrightarrow>
      \<not> mr \<and> first_match (rule_matches addr port) ps = ADDR_POLICY_ACCEPTED) \<and>
    (noport_loop ma mr addr ps = OK ADDR_POLICY_REJECTED \<longrightarrow>
      \<not> ma \<and> first_match (rule_matches addr port) ps = ADDR_POLICY_REJECTED)"
  using assms(3)
proof (induction ps arbitrary: ma mr)
  case (Cons p ps)
  show ?case
  proof (cases "addr_matches addr p")
    case True
    show ?thesis
    proof (cases "all_ports p")
      case all: True
      with True all_ports_hits assms(2) have "rule_matches addr port p" by (simp add: rule_matches_def)
      with True all Cons.prems assms(1) show ?thesis by (auto simp: certain_answer_definite answer_def)
    next
      case False
      with True Cons assms(1) show ?thesis by (cases "ap_policy_type p") (auto simp: answer_def)
    qed
  qed (use Cons assms(1) in \<open>auto simp: rule_matches_def\<close>)
qed simp

lemma unknown_loop_sound:
  assumes "\<And>p. p \<in> set ps \<Longrightarrow> ap_maskbits p = 0 \<Longrightarrow> tor_addr_family addr = tor_addr_family (ap_addr p)"
  shows "(unknown_loop ma mr port ps = ADDR_POLICY_ACCEPTED \<longrightarrow>
      \<not> mr \<and> first_match (rule_matches addr port) ps = ADDR_POLICY_ACCEPTED) \<and>
    (unknown_loop ma mr port ps = ADDR_POLICY_REJECTED \<longrightarrow>
      \<not> ma \<and> first_match (rule_matches addr port) ps = ADDR_POLICY_REJECTED)"
  using assms
proof (induction ps arbitrary: ma mr)
  case (Cons p ps)
  show ?case
  proof (cases "port_hits port p")
    case True
    show ?thesis
    proof (cases "ap_maskbits p = 0")
      case all: True
      with True Cons.prems [of p] have "rule_matches addr port p"
        by (simp add: rule_matches_def addr_matches_def same_prefix_def)
      with True all show ?thesis by (auto simp: certain_answer_definite answer_def)
    next
      case False
      with True Cons show ?thesis by (cases "ap_policy_type p") (auto simp: answer_def)
    qed
  qed (use Cons in \<open>auto simp: rule_matches_def\<close>)
qed simp

subsection \<open>Policies that reject everything\<close>

text \<open>
  \<^verbatim>\<open>policy_is_reject_star\<close> looks for an accepting rule before the first rule that rejects everything.  It
  takes a policy for one that rejects everything even if it ends without such a rule, in which case the decision is to accept.
\<close>

lemma reject_star_rejects:
  assumes "reject_star_loop ps" and "addr_ok addr" and "port \<noteq> 0"
    and "\<exists>p \<in> set ps. catch_all p"
    and "\<And>p. p \<in> set ps \<Longrightarrow> catch_all p \<Longrightarrow> tor_addr_family addr = tor_addr_family (ap_addr p)"
  shows "first_match (rule_matches addr port) ps = ADDR_POLICY_REJECTED"
  using assms(1,4,5)
proof (induction ps)
  case (Cons p ps)
  show ?case
  proof (cases "catch_all p")
    case True
    with Cons.prems(1,3) catch_all_matches [OF True] assms(3) show ?thesis by (auto simp: answer_def split: if_splits)
  next
    case False
    then have "\<not> (ap_prt_min p \<le> 1 \<and> ap_prt_max p = 65535 \<and> ap_maskbits p = 0)"
      by (auto simp: catch_all_def all_ports_def)
    with Cons False show ?thesis by (auto simp: answer_def split: if_splits)
  qed
qed simp

lemma reject_star_may_accept:
  "policy_is_reject_star (Some [])" "compare_known_tor_addr_to_addr_policy addr port [] = OK ADDR_POLICY_ACCEPTED"
  by (simp_all add: policy_is_reject_star_def)

text \<open>\<^verbatim>\<open>exit_policy_is_general_exit\<close> counts accepting rules behind one that rejects everything.\<close>

definition closed_policy :: "addr_policy list" where
  "closed_policy =
    [\<lparr>ap_policy_type = ADDR_POLICY_REJECT, ap_is_private = False, ap_maskbits = 0, ap_addr = AF_INET 0, ap_prt_min = 1, ap_prt_max = 65535\<rparr>,
     \<lparr>ap_policy_type = ADDR_POLICY_ACCEPT, ap_is_private = False, ap_maskbits = 0, ap_addr = AF_INET 0, ap_prt_min = 80, ap_prt_max = 443\<rparr>]"

lemma general_exit_ignores_rejects:
  "exit_policy_is_general_exit (Some closed_policy)" "policy_is_reject_star (Some closed_policy)"
  by (simp_all add: closed_policy_def exit_policy_is_general_exit_def opens_port_def policy_is_reject_star_def)

subsection \<open>Networks of private addresses\<close>

text \<open>The networks that \<^verbatim>\<open>private\<close> stands for in a policy are the internal addresses of IPv4, up to the link-local range.\<close>

lemma net_bits:
  fixes a c :: u32
  assumes "n \<le> 32" and "take_bit (32 - n) c = 0"
  shows "a AND NOT (mask (32 - n)) = c \<longleftrightarrow> drop_bit (32 - n) a = drop_bit (32 - n) c"
proof
  assume "a AND NOT (mask (32 - n)) = c"
  then have "drop_bit (32 - n) c = drop_bit (32 - n) (a AND NOT (mask (32 - n)))" by simp
  also have "\<dots> = drop_bit (32 - n) a" by (rule bit_eqI) (auto simp: bit_simps dest: bit_imp_le_length)
  finally show "drop_bit (32 - n) a = drop_bit (32 - n) c" by simp
next
  assume eq: "drop_bit (32 - n) a = drop_bit (32 - n) c"
  have split: "x AND NOT (mask (32 - n)) = push_bit (32 - n) (drop_bit (32 - n) x)" for x :: u32
    by (rule bit_eqI) (auto simp: bit_simps)
  have "c = push_bit (32 - n) (drop_bit (32 - n) c) OR take_bit (32 - n) c" by (rule bit_eqI) (auto simp: bit_simps)
  with assms(2) eq split [of a] show "a AND NOT (mask (32 - n)) = c" by simp
qed

lemma in_private_net:
  "same_prefix 8 (AF_INET a) (AF_INET c) \<longleftrightarrow> drop_bit 24 a = drop_bit 24 c"
  "same_prefix 12 (AF_INET a) (AF_INET c) \<longleftrightarrow> drop_bit 20 a = drop_bit 20 c"
  "same_prefix 16 (AF_INET a) (AF_INET c) \<longleftrightarrow> drop_bit 16 a = drop_bit 16 c"
  using take_word_bits [of 8 a c] take_word_bits [of 12 a c] take_word_bits [of 16 a c] by (simp_all add: same_prefix_def)

lemma net_masks: "(0xff000000 :: u32) = NOT (mask 24)" "(0xfff00000 :: u32) = NOT (mask 20)" "(0xffff0000 :: u32) = NOT (mask 16)"
  by code_simp+

lemma net_tests:
  fixes a c :: u32
  shows "take_bit 24 c = 0 \<Longrightarrow> a AND 0xff000000 = c \<longleftrightarrow> drop_bit 24 a = drop_bit 24 c"
    "take_bit 20 c = 0 \<Longrightarrow> a AND 0xfff00000 = c \<longleftrightarrow> drop_bit 20 a = drop_bit 20 c"
    "take_bit 16 c = 0 \<Longrightarrow> a AND 0xffff0000 = c \<longleftrightarrow> drop_bit 16 a = drop_bit 16 c"
  using net_bits [of 8 c a] net_bits [of 12 c a] net_bits [of 16 c a] by (simp_all only: net_masks) simp_all

lemma private_nets_internal:
  "tor_addr_is_internal (AF_INET a) False \<longleftrightarrow> (\<exists>(net, bits) \<in> set private_nets. same_prefix (unat bits) (AF_INET a) net)"
  by (auto simp: tor_addr_is_internal_def internal_v4_def private_nets_def in_private_net net_tests)

text \<open>What a rule of a policy stands for before \<^verbatim>\<open>private\<close> is expanded.\<close>

definition written_matches :: "u32 \<Rightarrow> u16 \<Rightarrow> addr_policy \<Rightarrow> bool" where
  "written_matches a port p \<longleftrightarrow>
     (if ap_is_private p then tor_addr_is_internal (AF_INET a) False \<and> port_hits port p else rule_matches (AF_INET a) port p)"

lemma first_match_same_type:
  "\<forall>q\<in>set qs. ap_policy_type q = act \<Longrightarrow> first_match m (qs @ ps) = (if list_ex m qs then answer act else first_match m ps)"
  by (induction qs) auto

lemma expand_private_first_match:
  "first_match (rule_matches (AF_INET a) port) (policy_expand_private policy) = first_match (written_matches a port) policy"
proof (induction policy)
  case (Cons p policy)
  show ?case
  proof (cases "ap_is_private p")
    case True
    let ?expand = "\<lambda>(addr, bits). p\<lparr>ap_is_private := False, ap_addr := addr, ap_maskbits := bits\<rparr>"
    let ?qs = "map ?expand private_nets"
    have "list_ex (rule_matches (AF_INET a) port) ?qs \<longleftrightarrow> written_matches a port p"
      using True private_nets_internal [of a]
      by (simp add: written_matches_def list_ex_iff rule_matches_def addr_matches_def port_hits_def case_prod_beta)
    moreover have "policy_expand_private (p # policy) = ?qs @ policy_expand_private policy"
      using True by (simp add: policy_expand_private_def)
    moreover have "\<forall>q\<in>set ?qs. ap_policy_type q = ap_policy_type p" by auto
    ultimately show ?thesis using first_match_same_type [of ?qs "ap_policy_type p"] Cons.IH by simp
  next
    case False
    then show ?thesis using Cons.IH by (simp add: policy_expand_private_def written_matches_def)
  qed
qed (simp add: policy_expand_private_def)

lemma private_nets_ok: "(addr, bits) \<in> set private_nets \<Longrightarrow> addr_ok addr \<and> unat bits \<le> 128"
  by (auto simp: private_nets_def)

lemma expand_private_ok:
  "list_all rule_ok policy \<Longrightarrow> list_all rule_ok (policy_expand_private policy) \<and> \<not> list_ex ap_is_private (policy_expand_private policy)"
  using private_nets_ok by (fastforce simp: policy_expand_private_def list_all_iff list_ex_iff rule_ok_def)

subsection \<open>Properties\<close>

text \<open>
  C11: \<^verbatim>\<open>exit_policy_remove_redundancies\<close> (which asks its reader to double-check its logic) returns, keeps only rules of the
  policy, none of which an earlier one that is kept covers, and leaves the decision for a known address and
  port as it was, provided that every rule for all addresses and all ports is of the family of that address.
\<close>

theorem remove_redundancies_keeps_decisions:
  assumes "list_all rule_ok policy"
  shows "\<exists>policy'. exit_policy_remove_redundancies policy = OK policy' \<and> set policy' \<subseteq> set policy \<and>
    sorted_wrt (\<lambda>a b. addr_policy_covers a b = OK False) policy' \<and>
    (\<forall>addr port. addr_ok addr \<longrightarrow> \<not> tor_addr_is_null addr \<longrightarrow> port \<noteq> 0 \<longrightarrow>
      (\<forall>p\<in>set policy. catch_all p \<longrightarrow> tor_addr_family addr = tor_addr_family (ap_addr p)) \<longrightarrow>
      compare_tor_addr_to_addr_policy addr port (Some policy') = compare_tor_addr_to_addr_policy addr port (Some policy))"
proof -
  obtain policy' where p: "exit_policy_remove_redundancies policy = OK policy'" "set policy' \<subseteq> set policy"
      "sorted_wrt (\<lambda>a b. \<not> covers a b) policy'"
      "\<forall>addr port. first_match (rule_matches addr port) policy' = first_match (rule_matches addr port) (cut_after_catch_all policy)"
    by (rule remove_redundancies_ok [OF assms])
  have ok: "list_all rule_ok policy'" using assms p(2) by (auto simp: list_all_iff)
  have "sorted_wrt (\<lambda>a b. addr_policy_covers a b = OK False) policy'"
    using p(3) ok by (rule_tac sorted_wrt_mono_rel [of policy' "\<lambda>a b. \<not> covers a b"]) (auto simp: list_all_iff)
  with p ok assms show ?thesis by (auto simp: compare_first_match cut_after_catch_all_keeps)
qed

text \<open>
  C14: an answer without "probably", for a known address and an unknown port, is the decision for that address and every
  port; for an unknown address and a known port, it is the decision for that port and every address of the
  family that the rules for all addresses have.
\<close>

theorem definite_answers_sound:
  assumes "list_all rule_ok policy" and "ans = ADDR_POLICY_ACCEPTED \<or> ans = ADDR_POLICY_REJECTED"
  shows "(\<forall>addr. addr_ok addr \<longrightarrow> \<not> tor_addr_is_null addr \<longrightarrow>
      compare_tor_addr_to_addr_policy addr 0 (Some policy) = OK ans \<longrightarrow>
      (\<forall>port. port \<noteq> 0 \<longrightarrow> compare_tor_addr_to_addr_policy addr port (Some policy) = OK ans)) \<and>
    (\<forall>port none. port \<noteq> 0 \<longrightarrow> tor_addr_is_null none \<longrightarrow>
      compare_tor_addr_to_addr_policy none port (Some policy) = OK ans \<longrightarrow>
      (\<forall>addr. addr_ok addr \<longrightarrow> \<not> tor_addr_is_null addr \<longrightarrow>
        (\<forall>p\<in>set policy. ap_maskbits p = 0 \<longrightarrow> tor_addr_family addr = tor_addr_family (ap_addr p)) \<longrightarrow>
        compare_tor_addr_to_addr_policy addr port (Some policy) = OK ans))"
proof (intro conjI allI impI)
  fix addr and port :: u16
  assume addr: "addr_ok addr" "\<not> tor_addr_is_null addr" "compare_tor_addr_to_addr_policy addr 0 (Some policy) = OK ans" "port \<noteq> 0"
  then have "noport_loop False False addr policy = OK ans"
    by (simp add: compare_tor_addr_to_addr_policy_def compare_known_tor_addr_to_addr_policy_noport_def)
  with noport_loop_sound [OF addr(1,4) assms(1), of False False] assms(2)
  have "first_match (rule_matches addr port) policy = ans" by auto
  with addr assms(1) show "compare_tor_addr_to_addr_policy addr port (Some policy) = OK ans" by (simp add: compare_first_match)
next
  fix port :: u16 and none addr
  assume a: "port \<noteq> 0" "tor_addr_is_null none" "compare_tor_addr_to_addr_policy none port (Some policy) = OK ans"
    "addr_ok addr" "\<not> tor_addr_is_null addr"
    and fam: "\<forall>p\<in>set policy. ap_maskbits p = 0 \<longrightarrow> tor_addr_family addr = tor_addr_family (ap_addr p)"
  then have "unknown_loop False False port policy = ans"
    by (simp add: compare_tor_addr_to_addr_policy_def compare_unknown_tor_addr_to_addr_policy_def)
  with unknown_loop_sound [of policy addr False False port] fam assms(2)
  have "first_match (rule_matches addr port) policy = ans" by auto
  with a assms(1) show "compare_tor_addr_to_addr_policy addr port (Some policy) = OK ans" by (simp add: compare_first_match)
qed

text \<open>
  C15: expanding \<^verbatim>\<open>private\<close> gives well-formed rules, none of them private, and decides for every IPv4 address as the policy before it, read with
  \<^verbatim>\<open>private\<close> standing for exactly the IPv4 addresses that \<^verbatim>\<open>tor_addr_is_internal\<close> calls internal.
\<close>

theorem expand_private_decides:
  assumes "list_all rule_ok policy"
  shows "list_all rule_ok (policy_expand_private policy) \<and> \<not> list_ex ap_is_private (policy_expand_private policy) \<and>
    (\<forall>a port. compare_known_tor_addr_to_addr_policy (AF_INET a) port (policy_expand_private policy) =
      OK (first_match (written_matches a port) policy))"
  using expand_private_ok [OF assms] by (simp add: compare_known_first_match expand_private_first_match)

subsection \<open>Witnesses\<close>

text \<open>reject 10.0.0.0/8:*, reject 10.1.0.0/16:80, accept *:80-443, reject *:*, accept 1.2.3.4:25\<close>

definition sample_policy :: "addr_policy list" where
  "sample_policy =
    [\<lparr>ap_policy_type = ADDR_POLICY_REJECT, ap_is_private = False, ap_maskbits = 8, ap_addr = AF_INET 0x0A000000, ap_prt_min = 1, ap_prt_max = 65535\<rparr>,
     \<lparr>ap_policy_type = ADDR_POLICY_REJECT, ap_is_private = False, ap_maskbits = 16, ap_addr = AF_INET 0x0A010000, ap_prt_min = 80, ap_prt_max = 80\<rparr>,
     \<lparr>ap_policy_type = ADDR_POLICY_ACCEPT, ap_is_private = False, ap_maskbits = 0, ap_addr = AF_INET 0, ap_prt_min = 80, ap_prt_max = 443\<rparr>,
     \<lparr>ap_policy_type = ADDR_POLICY_REJECT, ap_is_private = False, ap_maskbits = 0, ap_addr = AF_INET 0, ap_prt_min = 1, ap_prt_max = 65535\<rparr>,
     \<lparr>ap_policy_type = ADDR_POLICY_ACCEPT, ap_is_private = False, ap_maskbits = 32, ap_addr = AF_INET 0x01020304, ap_prt_min = 25, ap_prt_max = 25\<rparr>]"

lemma sample_policy_ok: "list_all rule_ok sample_policy"
  by (simp add: sample_policy_def rule_ok_def)

lemma sample_policy_family: "\<forall>p\<in>set sample_policy. tor_addr_family (AF_INET a) = tor_addr_family (ap_addr p)"
  by (simp add: sample_policy_def)

lemma sample_policy_answers:
  "compare_tor_addr_to_addr_policy (AF_INET 0x0A010203) 80 (Some sample_policy) = OK ADDR_POLICY_REJECTED"
  "compare_tor_addr_to_addr_policy (AF_INET 0x0A010203) 0 (Some sample_policy) = OK ADDR_POLICY_REJECTED"
  "compare_tor_addr_to_addr_policy AF_UNSPEC 25 (Some sample_policy) = OK ADDR_POLICY_REJECTED"
  by (simp_all add: sample_policy_def compare_tor_addr_to_addr_policy_def compare_known_tor_addr_to_addr_policy_noport_def
      compare_unknown_tor_addr_to_addr_policy_def addr_hits_def tor_addr_compare_masked_def compare_v4_def port_hits_def all_ports_def certain_answer_def)

theorem remove_redundancies_keeps_decisions_witness:
  "\<exists>policy'. exit_policy_remove_redundancies sample_policy = OK policy' \<and> set policy' \<subseteq> set sample_policy \<and>
    compare_tor_addr_to_addr_policy (AF_INET 0x0A010203) 80 (Some policy') = OK ADDR_POLICY_REJECTED"
proof -
  obtain policy' where p: "exit_policy_remove_redundancies sample_policy = OK policy'" "set policy' \<subseteq> set sample_policy"
    and d: "\<forall>addr port. addr_ok addr \<longrightarrow> \<not> tor_addr_is_null addr \<longrightarrow> port \<noteq> 0 \<longrightarrow>
      (\<forall>p\<in>set sample_policy. catch_all p \<longrightarrow> tor_addr_family addr = tor_addr_family (ap_addr p)) \<longrightarrow>
      compare_tor_addr_to_addr_policy addr port (Some policy') = compare_tor_addr_to_addr_policy addr port (Some sample_policy)"
    using remove_redundancies_keeps_decisions [OF sample_policy_ok] by blast
  have "compare_tor_addr_to_addr_policy (AF_INET 0x0A010203) 80 (Some policy') = OK ADDR_POLICY_REJECTED"
    using d [rule_format, of "AF_INET 0x0A010203" 80] sample_policy_family sample_policy_answers(1) by simp
  with p show ?thesis by blast
qed

theorem definite_answers_sound_witness:
  "compare_tor_addr_to_addr_policy (AF_INET 0x0A010203) 0 (Some sample_policy) = OK ADDR_POLICY_REJECTED \<and>
   compare_tor_addr_to_addr_policy (AF_INET 0x0A010203) 443 (Some sample_policy) = OK ADDR_POLICY_REJECTED \<and>
   compare_tor_addr_to_addr_policy (AF_INET 0x01020304) 25 (Some sample_policy) = OK ADDR_POLICY_REJECTED"
proof -
  have rejected: "ADDR_POLICY_REJECTED = ADDR_POLICY_ACCEPTED \<or> ADDR_POLICY_REJECTED = ADDR_POLICY_REJECTED" by simp
  note sound = definite_answers_sound [OF sample_policy_ok rejected]
  show ?thesis
    using sound [THEN conjunct1, rule_format, of "AF_INET 0x0A010203" 443] sample_policy_answers(2)
      sound [THEN conjunct2, rule_format, of 25 AF_UNSPEC "AF_INET 0x01020304"] sample_policy_answers(3) sample_policy_family
    by simp
qed

theorem expand_private_decides_witness:
  "compare_known_tor_addr_to_addr_policy (AF_INET 0xC0A80101) 80 (policy_expand_private [hd sample_policy\<lparr>ap_is_private := True\<rparr>]) =
     OK ADDR_POLICY_REJECTED"
  using expand_private_decides [of "[hd sample_policy\<lparr>ap_is_private := True\<rparr>]"]
  by (simp add: sample_policy_def rule_ok_def written_matches_def tor_addr_is_internal_def internal_v4_def port_hits_def answer_def)

end
