(* ===== verification/AddrText.thy ===== *)
theory AddrText
  imports Address UtilStrings
begin

section \<open>Addresses and numbers as text (util.c, compat.c, address.c)\<close>

text \<open>
  Reading numbers, \<^verbatim>\<open>tor_sscanf\<close>, and writing and reading addresses, masks and port ranges.  Strings are the lists of
  their bytes before the NUL, pointers into them the rest of the list.
\<close>

subsection \<open>strtol with its end pointer\<close>

text \<open>The value and the rest of the string; the string itself if there are no digits.\<close>

definition split_sign :: "byte list \<Rightarrow> bool \<times> byte list" where
  "split_sign s = (case s of c # cs \<Rightarrow> if c = 0x2D then (True, cs) else if c = 0x2B then (False, cs) else (False, s) | [] \<Rightarrow> (False, s))"

definition strtol10 :: "byte list \<Rightarrow> int \<times> byte list" where
  "strtol10 s =
     (let (neg, u) = split_sign (dropWhile TOR_ISSPACE s); ds = takeWhile TOR_ISDIGIT u in
      if ds = [] then (0, s)
      else (long_clamp (if neg then - int (dec_val ds) else int (dec_val ds)), drop (length ds) u))"

definition hex_val :: "byte list \<Rightarrow> int" where
  "hex_val ds = foldl (\<lambda>v d. 16 * v + hex_decode_digit d) 0 ds"

text \<open>In base 16 a prefix \<^verbatim>\<open>0x\<close> before a digit is skipped.\<close>

definition skip_0x :: "byte list \<Rightarrow> byte list" where
  "skip_0x s = (case s of
     a # b # c # cs \<Rightarrow> if a = 0x30 \<and> (b = 0x78 \<or> b = 0x58) \<and> TOR_ISXDIGIT c then c # cs else s
   | _ \<Rightarrow> s)"

definition strtol16 :: "byte list \<Rightarrow> int \<times> byte list" where
  "strtol16 s =
     (let (neg, u) = split_sign (dropWhile TOR_ISSPACE s); u1 = skip_0x u; ds = takeWhile TOR_ISXDIGIT u1 in
      if ds = [] then (0, s)
      else (long_clamp (if neg then - hex_val ds else hex_val ds), drop (length ds) u1))"

text \<open>
  \<^verbatim>\<open>tor_parse_long\<close> in base 10: whether it succeeded, the value and the rest.  With \<open>to_end\<close> (\<^verbatim>\<open>next\<close> is NULL) nothing
  may follow the number.
\<close>

definition tor_parse_long :: "byte list \<Rightarrow> int \<Rightarrow> int \<Rightarrow> bool \<Rightarrow> bool \<times> int \<times> byte list" where
  "tor_parse_long s lo hi to_end =
     (let (r, endptr) = strtol10 s in
      if endptr = s then (False, 0, endptr)
      else if to_end \<and> endptr \<noteq> [] then (False, 0, endptr)
      else if r < lo \<or> r > hi then (False, 0, endptr)
      else (True, r, endptr))"

subsection \<open>tor_sscanf\<close>

definition MAX_SCANF_WIDTH :: int where "MAX_SCANF_WIDTH = 9999"

definition digit_to_num :: "byte \<Rightarrow> int res" where
  "digit_to_num d = (let num = sint d - 48 in tor_assert (num \<le> 9 \<and> num \<ge> 0) (OK num))"

fun scan_digits :: "int \<Rightarrow> int \<Rightarrow> u32 \<Rightarrow> byte list \<Rightarrow> (u32 \<times> int \<times> byte list) option res" where
  "scan_digits width scanned_so_far result [] = OK (Some (result, scanned_so_far, []))"
| "scan_digits width scanned_so_far result (c # cs) =
     (if TOR_ISDIGIT c \<and> scanned_so_far < width then
        rbind (digit_to_num c) (\<lambda>digit.
          let new_result = result * 10 + word_of_int digit in
          if new_result < result then OK None
          else scan_digits width (scanned_so_far + 1) new_result cs)
      else OK (Some (result, scanned_so_far, c # cs)))"

definition scan_unsigned :: "byte list \<Rightarrow> int \<Rightarrow> (u32 \<times> byte list) option res" where
  "scan_unsigned buf width =
     rbind (scan_digits (if width < 0 then MAX_SCANF_WIDTH else width) 0 0 buf) (\<lambda>r. OK (case r of
       None \<Rightarrow> None
     | Some (result, scanned_so_far, rest) \<Rightarrow> if scanned_so_far = 0 then None else Some (result, rest)))"

fun scan_string :: "byte list \<Rightarrow> int \<Rightarrow> int \<Rightarrow> byte list \<times> byte list" where
  "scan_string [] width scanned_so_far = ([], [])"
| "scan_string (c # cs) width scanned_so_far =
     (if \<not> TOR_ISSPACE c \<and> scanned_so_far < width
      then (case scan_string cs width (scanned_so_far + 1) of (out, rest) \<Rightarrow> (c # out, rest))
      else ([], c # cs))"

text \<open>The field width after a percent sign, -1 if there is none; None is a malformed pattern.\<close>

fun scan_width_loop :: "int \<Rightarrow> byte list \<Rightarrow> (int \<times> byte list) option res" where
  "scan_width_loop width [] = OK (Some (width, []))"
| "scan_width_loop width (c # cs) =
     (if TOR_ISDIGIT c
      then rbind (digit_to_num c) (\<lambda>d. let w = width * 10 + d in if w > MAX_SCANF_WIDTH then OK None else scan_width_loop w cs)
      else OK (Some (width, c # cs)))"

definition scan_width :: "byte list \<Rightarrow> (int \<times> byte list) option res" where
  "scan_width pattern = (case pattern of
     [] \<Rightarrow> OK (Some (-1, []))
   | c # cs \<Rightarrow>
       if \<not> TOR_ISDIGIT c then OK (Some (-1, pattern))
       else rbind (digit_to_num c) (\<lambda>d. rbind (scan_width_loop d cs) (\<lambda>r. OK (case r of
         None \<Rightarrow> None
       | Some (width, rest) \<Rightarrow> if width = 0 then None else Some (width, rest)))))"

datatype scan_value = Scan_u u32 | Scan_s "byte list" | Scan_c byte

lemma scan_width_loop_length: "scan_width_loop w p = OK (Some (w', p')) \<Longrightarrow> length p' \<le> length p"
  by (induction w p rule: scan_width_loop.induct) (auto simp: res_simps Let_def le_SucI split: if_splits)

lemma scan_width_length:
  assumes "scan_width p = OK (Some (w, p'))"
  shows "length p' \<le> length p"
proof (cases p)
  case (Cons c cs)
  show ?thesis
  proof (cases "TOR_ISDIGIT c")
    case True
    with assms Cons obtain d r where "scan_width_loop d cs = OK r"
        "(case r of None \<Rightarrow> None | Some (w, rest) \<Rightarrow> if w = 0 then None else Some (w, rest)) = Some (w, p')"
      by (auto simp: scan_width_def res_simps)
    then have "length p' \<le> length cs" by (auto split: option.splits if_splits dest: scan_width_loop_length)
    with Cons show ?thesis by simp
  qed (use assms Cons in \<open>simp add: scan_width_def\<close>)
qed (use assms in \<open>simp add: scan_width_def\<close>)

text \<open>The number of values stored, or -1 for a malformed pattern, with the values stored up to there.\<close>

function tor_vsscanf :: "byte list \<Rightarrow> byte list \<Rightarrow> int \<Rightarrow> scan_value list \<Rightarrow> (int \<times> scan_value list) res" where
  "tor_vsscanf buf [] n_matched vs = OK (n_matched, vs)"
| "tor_vsscanf buf (p # pattern) n_matched vs =
     (if p \<noteq> 0x25 then
        (case buf of
           [] \<Rightarrow> OK (n_matched, vs)
         | b # bs \<Rightarrow> if b = p then tor_vsscanf bs pattern n_matched vs else OK (n_matched, vs))
      else case scan_width pattern of
        Fault e \<Rightarrow> Fault e
      | OK None \<Rightarrow> OK (-1, vs)
      | OK (Some (width, [])) \<Rightarrow> OK (-1, vs)
      | OK (Some (width, q # rest)) \<Rightarrow>
          if q = 0x75 then
            (if buf = [] then OK (n_matched, vs)
             else rbind (scan_unsigned buf width) (\<lambda>r. case r of
                 None \<Rightarrow> OK (n_matched, vs)
               | Some (u, buf1) \<Rightarrow> tor_vsscanf buf1 rest (n_matched + 1) (vs @ [Scan_u u])))
          else if q = 0x73 then
            (if width < 0 then OK (-1, vs)
             else let (out, buf1) = scan_string buf width 0 in tor_vsscanf buf1 rest (n_matched + 1) (vs @ [Scan_s out]))
          else if q = 0x63 then
            (if width \<noteq> -1 then OK (-1, vs)
             else case buf of
               [] \<Rightarrow> OK (n_matched, vs)
             | b # bs \<Rightarrow> tor_vsscanf bs rest (n_matched + 1) (vs @ [Scan_c b]))
          else if q = 0x25 then
            (case buf of
               [] \<Rightarrow> OK (-1, vs)
             | b # bs \<Rightarrow> if b \<noteq> 0x25 then OK (-1, vs) else tor_vsscanf bs rest n_matched vs)
          else OK (-1, vs))"
  by pat_completeness auto
termination
  by (relation "measure (\<lambda>(_, pattern, _, _). length pattern)") (auto dest: scan_width_length)

declare tor_vsscanf.simps [simp del]

definition tor_sscanf :: "byte list \<Rightarrow> byte list \<Rightarrow> (int \<times> scan_value list) res" where
  "tor_sscanf buf pattern = tor_vsscanf buf pattern 0 []"

subsection \<open>IPv4 addresses\<close>

text \<open>"%3u.%3u.%3u.%3u%c"\<close>

definition quad_pattern :: "byte list" where
  "quad_pattern = [0x25, 0x33, 0x75, 0x2E, 0x25, 0x33, 0x75, 0x2E, 0x25, 0x33, 0x75, 0x2E, 0x25, 0x33, 0x75, 0x25, 0x63]"

definition scan_quad :: "byte list \<Rightarrow> (u32 \<times> u32 \<times> u32 \<times> u32) option res" where
  "scan_quad str = rbind (tor_sscanf str quad_pattern) (\<lambda>(n, vs). OK (case vs of
     [Scan_u a, Scan_u b, Scan_u c, Scan_u d] \<Rightarrow>
       if n \<noteq> 4 \<or> a > 255 \<or> b > 255 \<or> c > 255 \<or> d > 255 then None else Some (a, b, c, d)
   | _ \<Rightarrow> None))"

text \<open>The address in host order.\<close>

definition tor_inet_aton :: "byte list \<Rightarrow> u32 option res" where
  "tor_inet_aton str = rbind (scan_quad str) (\<lambda>r. OK (case r of
     None \<Rightarrow> None
   | Some (a, b, c, d) \<Rightarrow> Some (push_bit 24 a OR push_bit 16 b OR push_bit 8 c OR d)))"

definition print_quad :: "u32 \<Rightarrow> byte list" where
  "print_quad a = dec_string (uint (drop_bit 24 a AND 0xff)) @ [0x2E] @ dec_string (uint (drop_bit 16 a AND 0xff)) @ [0x2E] @
     dec_string (uint (drop_bit 8 a AND 0xff)) @ [0x2E] @ dec_string (uint (a AND 0xff))"

text \<open>\<^verbatim>\<open>tor_snprintf\<close> fails if the text and its NUL do not fit.\<close>

definition snprintf_fits :: "nat \<Rightarrow> byte list \<Rightarrow> byte list option" where
  "snprintf_fits buf_len text = (if length text < buf_len then Some text else None)"

definition tor_inet_ntoa :: "u32 \<Rightarrow> nat \<Rightarrow> byte list option" where
  "tor_inet_ntoa a buf_len = snprintf_fits buf_len (print_quad a)"

subsection \<open>IPv6 addresses\<close>

fun words_of :: "byte list \<Rightarrow> u16 list" where
  "words_of (a # b # bs) = (push_bit 8 (ucast a) + ucast b) # words_of bs"
| "words_of _ = []"

fun bytes_of_words :: "u16 list \<Rightarrow> byte list" where
  "bytes_of_words [] = []"
| "bytes_of_words (w # ws) = ucast (drop_bit 8 w) # ucast (w AND 0xff) # bytes_of_words ws"

text \<open>\<^verbatim>\<open>%x\<close>\<close>

fun hex_digits_of :: "nat \<Rightarrow> byte list" where
  "hex_digits_of n =
     (if n < 16 then [bytes_of ''0123456789abcdef'' ! n] else hex_digits_of (n div 16) @ [bytes_of ''0123456789abcdef'' ! (n mod 16)])"

declare hex_digits_of.simps [simp del]

definition is_mapped :: "u16 list \<Rightarrow> bool" where
  "is_mapped words \<longleftrightarrow> take 5 words = replicate 5 0 \<and>
     (words ! 5 = 0 \<and> words ! 6 \<noteq> 0 \<and> words ! 7 \<noteq> 0 \<or> words ! 5 = 0xffff)"

definition print_mapped :: "byte list \<Rightarrow> u16 list \<Rightarrow> byte list" where
  "print_mapped addr words =
     (let quad = dec_string (uint (addr ! 12)) @ [0x2E] @ dec_string (uint (addr ! 13)) @ [0x2E] @
            dec_string (uint (addr ! 14)) @ [0x2E] @ dec_string (uint (addr ! 15)) in
      if words ! 5 = 0 then [0x3A, 0x3A] @ quad else [0x3A, 0x3A] @ hex_digits_of (unat (words ! 5)) @ [0x3A] @ quad)"

text \<open>The search for the longest run of zeros, from word number \<open>i\<close> on.\<close>

function longest_gap :: "u16 list \<Rightarrow> nat \<Rightarrow> nat \<Rightarrow> int \<Rightarrow> nat \<times> int" where
  "longest_gap [] i len pos = (len, pos)"
| "longest_gap (w # ws) i len pos =
     (if w = 0 then
        let curGapLen = 1 + length (takeWhile (\<lambda>x. x = 0) ws) in
        longest_gap (dropWhile (\<lambda>x. x = 0) ws) (i + curGapLen)
          (if curGapLen > len then curGapLen else len) (if curGapLen > len then int i else pos)
      else longest_gap ws (i + 1) len pos)"
  by pat_completeness auto
termination by (relation "measure (\<lambda>(ws, _, _, _). length ws)") (auto simp: length_dropWhile_le less_Suc_eq_le)

declare longest_gap.simps [simp del]

text \<open>Printing from word number \<open>i\<close> on, with the gap at word number \<open>pos\<close>.\<close>

function print_words :: "u16 list \<Rightarrow> nat \<Rightarrow> int \<Rightarrow> byte list" where
  "print_words [] i pos = []"
| "print_words (w # ws) i pos =
     (if w = 0 \<and> pos = int i
      then (if i = 0 then [0x3A] else []) @ [0x3A] @
           print_words (dropWhile (\<lambda>x. x = 0) ws) (i + 1 + length (takeWhile (\<lambda>x. x = 0) ws)) pos
      else hex_digits_of (unat w) @ (if i \<noteq> 7 then [0x3A] else []) @ print_words ws (i + 1) pos)"
  by pat_completeness auto
termination by (relation "measure (\<lambda>(ws, _, _). length ws)") (auto simp: length_dropWhile_le less_Suc_eq_le)

declare print_words.simps [simp del]

definition print_v6 :: "byte list \<Rightarrow> byte list" where
  "print_v6 addr =
     (let words = words_of addr in
      if is_mapped words then print_mapped addr words
      else let (len, pos) = longest_gap words 0 0 (-1) in print_words words 0 (if len \<le> 1 then -1 else pos))"

text \<open>\<^verbatim>\<open>strlcpy\<close> cuts a text that is as long as the buffer, which the check lets pass.\<close>

definition tor_inet_ntop :: "tor_addr \<Rightarrow> nat \<Rightarrow> byte list option" where
  "tor_inet_ntop src len = (case src of
     AF_INET a \<Rightarrow> tor_inet_ntoa a len
   | AF_INET6 addr \<Rightarrow> if length (print_v6 addr) > len then None else Some (take (len - 1) (print_v6 addr))
   | AF_UNSPEC \<Rightarrow> None)"

text \<open>
  The loop of \<^verbatim>\<open>tor_inet_pton\<close>.  \<open>left\<close> is the distance from \<open>src\<close> to the end of the words, \<open>words\<close> the words read so far, as
  many as the index \<^verbatim>\<open>i\<close> of the code.  The result is the words and the position of the gap.
\<close>

function pton_loop :: "byte list \<Rightarrow> int \<Rightarrow> u16 list \<Rightarrow> nat option \<Rightarrow> (u16 list \<times> nat option) option" where
  "pton_loop src left words gapPos =
     (if left \<le> 0 then Some (words, gapPos)
      else if length words > 7 then None
      else case src of
        [] \<Rightarrow> None
      | c # cs \<Rightarrow>
          if TOR_ISXDIGIT c then
            (let (r, next) = strtol16 src; n = length src - length next in
             if n > 4 \<or> n = 0 \<or> r < 0 \<or> r > 65536 then None
             else if \<not> (next \<noteq> [] \<and> hd next = 0x3A) \<and> left - int n \<noteq> 0 then None
             else pton_loop (tl next) (left - int n - 1) (words @ [word_of_int r]) gapPos)
          else if c = 0x3A \<and> words \<noteq> [] \<and> gapPos = None then pton_loop cs (left - 1) words (Some (length words))
          else if c = 0x3A \<and> words = [] \<and> (cs \<noteq> [] \<and> hd cs = 0x3A) \<and> gapPos = None
          then pton_loop (tl cs) (left - 2) words (Some 0)
          else None)"
  by auto
termination by (relation "measure (\<lambda>(_, left, _, _). nat left)") auto

declare pton_loop.simps [simp del]

text \<open>
  The last step: the words behind the gap move to the end, before those of a dotted quad.
\<close>

definition fill_gap :: "u16 list \<Rightarrow> nat option \<Rightarrow> u16 list \<Rightarrow> u16 list option res" where
  "fill_gap words gapPos quad =
     (let setWords = length words + length quad in
      if setWords > 8 \<or> setWords = 8 \<and> gapPos \<noteq> None \<or> setWords < 8 \<and> gapPos = None then OK None
      else case gapPos of
        None \<Rightarrow> OK (Some (words @ quad))
      | Some p \<Rightarrow> tor_assert (p \<le> length words) (OK (Some (take p words @ replicate (8 - setWords) 0 @ drop p words @ quad))))"

text \<open>The distance from the start to where the digits before the first dot begin.\<close>

definition quad_start :: "byte list \<Rightarrow> nat" where
  "quad_start src = (let before = takeWhile (\<lambda>c. c \<noteq> 0x2E) src in length before - length (takeWhile TOR_ISDIGIT (rev before)))"

text \<open>Where the words end, and the last two words if there is a dotted quad.\<close>

definition words_end :: "byte list \<Rightarrow> (nat \<times> u16 list) option res" where
  "words_end src =
     (if 0x2E \<notin> set src then OK (Some (length src, []))
      else rbind (scan_quad (drop (quad_start src) src)) (\<lambda>r. OK (case r of
        None \<Rightarrow> None
      | Some (b1, b2, b3, b4) \<Rightarrow> Some (quad_start src, [ucast (push_bit 8 b1 OR b2), ucast (push_bit 8 b3 OR b4)]))))"

definition tor_inet_pton6 :: "byte list \<Rightarrow> byte list option res" where
  "tor_inet_pton6 src =
     (if src \<noteq> [] \<and> hd src = 0x2E then OK None
      else rbind (words_end src) (\<lambda>e. case e of
           None \<Rightarrow> OK None
         | Some (eow, quad) \<Rightarrow>
             (case pton_loop src (int eow) [] None of
                None \<Rightarrow> OK None
              | Some (words, gapPos) \<Rightarrow> rbind (fill_gap words gapPos quad) (\<lambda>ws. OK (map_option bytes_of_words ws)))))"

datatype inet_family = Family_INET | Family_INET6

definition tor_inet_pton :: "inet_family \<Rightarrow> byte list \<Rightarrow> tor_addr option res" where
  "tor_inet_pton af src = (case af of
     Family_INET \<Rightarrow> rbind (tor_inet_aton src) (\<lambda>r. OK (map_option AF_INET r))
   | Family_INET6 \<Rightarrow> rbind (tor_inet_pton6 src) (\<lambda>r. OK (map_option AF_INET6 r)))"

subsection \<open>Addresses\<close>

definition TOR_ADDR_BUF_LEN :: nat where "TOR_ADDR_BUF_LEN = 48"
definition INET_NTOA_BUF_LEN :: nat where "INET_NTOA_BUF_LEN = 16"
definition REVERSE_LOOKUP_NAME_BUF_LEN :: nat where "REVERSE_LOOKUP_NAME_BUF_LEN = 73"

definition tor_addr_to_str :: "tor_addr \<Rightarrow> nat \<Rightarrow> bool \<Rightarrow> byte list option" where
  "tor_addr_to_str addr len decorate = (case addr of
     AF_INET a \<Rightarrow> if len < 3 then None else tor_inet_ntop addr len
   | AF_INET6 bs \<Rightarrow>
       if decorate then map_option (\<lambda>t. [0x5B] @ t @ [0x5D]) (tor_inet_ntop addr (len - 2)) else tor_inet_ntop addr len
   | AF_UNSPEC \<Rightarrow> None)"

definition tor_addr_from_str :: "byte list \<Rightarrow> tor_addr option res" where
  "tor_addr_from_str src0 =
     (let src = (if length src0 > 1 \<and> hd src0 = 0x5B then take (length src0 - 2) (tl src0) else src0) in
      rbind (tor_inet_pton Family_INET6 src) (\<lambda>r6. case r6 of
        Some a \<Rightarrow> OK (Some a)
      | None \<Rightarrow> tor_inet_pton Family_INET src))"

subsection \<open>Port ranges, masks and address patterns\<close>

text \<open>\<open>None\<close> for the port is a NULL pointer.\<close>

definition parse_port_range :: "byte list option \<Rightarrow> (u16 \<times> u16) option" where
  "parse_port_range port =
     (let range = (case port of
          None \<Rightarrow> Some (1, 65535)
        | Some t \<Rightarrow>
            if t = [] \<or> t = [0x2A] then Some (1, 65535)
            else (case tor_parse_long t 0 65535 False of (ok, port_min, endptr) \<Rightarrow>
              if \<not> ok then None
              else if endptr \<noteq> [] \<and> hd endptr = 0x2D then
                (case tor_parse_long (tl endptr) 1 65536 False of (ok2, port_max, _) \<Rightarrow>
                  if \<not> ok2 then None else if port_min > port_max then None else Some (port_min, port_max))
              else Some (port_min, port_min)))
      in case range of
        None \<Rightarrow> None
      | Some (port_min, port_max) \<Rightarrow>
          Some (word_of_int (if port_min < 1 then 1 else port_min), word_of_int (if port_max > 65535 then 65535 else port_max)))"

text \<open>What comes before the first occurrence of a character, and after it.\<close>

definition split_first :: "byte \<Rightarrow> byte list \<Rightarrow> byte list \<times> byte list option" where
  "split_first c s = (takeWhile (\<lambda>x. x \<noteq> c) s, if c \<in> set s then Some (tl (dropWhile (\<lambda>x. x \<noteq> c) s)) else None)"

definition MAX_ADDRESS_LENGTH :: nat where "MAX_ADDRESS_LENGTH = TOR_ADDR_BUF_LEN + 2 + (1 + INET_NTOA_BUF_LEN) + 12 + 1"

text \<open>The pattern broken into address, mask and ports; what stands between a closing bracket and the mask is skipped.\<close>

definition split_pattern :: "byte list \<Rightarrow> (byte list \<times> byte list option \<times> byte list option) option" where
  "split_pattern s =
     (let after_address = (\<lambda>rest. case split_first 0x2F rest of
            (front, Some m) \<Rightarrow> (case split_first 0x3A m of (mtext, port) \<Rightarrow> (front, Some mtext, port))
          | (_, None) \<Rightarrow> (case split_first 0x3A rest of (front, port) \<Rightarrow> (front, None, port)))
      in if s \<noteq> [] \<and> hd s = 0x5B
         then (case split_first 0x5D (tl s) of
             (address, Some rest) \<Rightarrow> (case after_address rest of (_, mtext, port) \<Rightarrow> Some (address, mtext, port))
           | (_, None) \<Rightarrow> None)
         else Some (after_address s))"

text \<open>The address part: whether it is a star, and the address.\<close>

definition parse_address_part :: "byte list \<Rightarrow> (bool \<times> tor_addr) option res" where
  "parse_address_part address =
     (if address = [0x2A] then OK (Some (True, AF_INET 0))
      else rbind (tor_inet_pton Family_INET6 address) (\<lambda>r6. case r6 of
          Some a \<Rightarrow> OK (Some (False, a))
        | None \<Rightarrow> rbind (tor_inet_pton Family_INET address) (\<lambda>r4. OK (map_option (\<lambda>a. (False, a)) r4))))"

definition is_inet6 :: "tor_addr \<Rightarrow> bool" where
  "is_inet6 addr \<longleftrightarrow> tor_addr_family addr = 10"

text \<open>The mask part, None for a malformed one.\<close>

definition mask_number :: "bool \<Rightarrow> byte list \<Rightarrow> int option res" where
  "mask_number v4 mask_text =
     (case strtol10 mask_text of (v, endptr) \<Rightarrow>
        if endptr = [] then
          (let bits = c_int v in OK (if bits < 0 \<or> bits > 128 \<or> v4 \<and> bits > 32 then None else Some bits))
        else rbind (tor_inet_aton mask_text) (\<lambda>r. OK (case r of
            None \<Rightarrow> None
          | Some v4mask \<Rightarrow> let bits = addr_mask_get_bits v4mask in if bits < 0 then None else Some bits)))"

definition parse_mask_part :: "bool \<Rightarrow> tor_addr \<Rightarrow> byte list option \<Rightarrow> int option res" where
  "parse_mask_part any_flag addr mask_text = (case mask_text of
     None \<Rightarrow> OK (Some (if any_flag then 0 else if is_inet6 addr then 128 else 32))
   | Some t \<Rightarrow>
       rbind (mask_number (\<not> is_inet6 addr) t) (\<lambda>r. OK (case r of
         None \<Rightarrow> None
       | Some bits \<Rightarrow>
           if is_inet6 addr \<and> tor_addr_is_v4 addr
           then (if bits > 32 \<and> bits < 96 then None else Some (96 + bits mod 32))
           else Some bits)))"

text \<open>
  \<^verbatim>\<open>tor_addr_parse_mask_ports\<close> with room for a mask and two ports, as policies are read.  With NULL for the ports or the mask,
  the code fails if they are given.
\<close>

definition tor_addr_parse_mask_ports :: "byte list \<Rightarrow> (tor_addr \<times> byte \<times> u16 \<times> u16) option res" where
  "tor_addr_parse_mask_ports s =
     (if length s > MAX_ADDRESS_LENGTH then OK None
      else case split_pattern s of
        None \<Rightarrow> OK None
      | Some (address, mask_text, port) \<Rightarrow>
          rbind (parse_address_part address) (\<lambda>a. case a of
            None \<Rightarrow> OK None
          | Some (any_flag, addr) \<Rightarrow>
              rbind (parse_mask_part any_flag addr mask_text) (\<lambda>m. OK (case m of
                None \<Rightarrow> None
              | Some bits \<Rightarrow>
                  (case parse_port_range port of
                     None \<Rightarrow> None
                   | Some (port_min, port_max) \<Rightarrow> Some (addr, word_of_int bits, port_min, port_max))))))"

subsection \<open>Names for reverse lookup\<close>

definition swap_bytes32 :: "u32 \<Rightarrow> u32" where
  "swap_bytes32 a = push_bit 24 (a AND 0x000000ff) OR push_bit 8 (a AND 0x0000ff00) OR drop_bit 8 (a AND 0x00ff0000) OR drop_bit 24 (a AND 0xff000000)"

definition in_addr_arpa :: "byte list" where
  "in_addr_arpa = bytes_of ''.in-addr.arpa''"

definition ip6_arpa :: "byte list" where
  "ip6_arpa = bytes_of ''ip6.arpa''"

text \<open>The byte at a pointer, which may be the NUL, and the pointer behind it; a pointer behind the NUL cannot be read.\<close>

definition next_char :: "byte list option \<Rightarrow> (byte \<times> byte list option) res" where
  "next_char cp = (case cp of
     None \<Rightarrow> Fault Mem_Fault
   | Some [] \<Rightarrow> OK (0, None)
   | Some (c # cs) \<Rightarrow> OK (c, Some cs))"

text \<open>The loop over the nybbles: \<open>n\<close> bytes to go, the bytes read so far with the last one first.\<close>

fun nybble_loop :: "nat \<Rightarrow> byte list option \<Rightarrow> byte list \<Rightarrow> (byte list \<times> byte list option) option res" where
  "nybble_loop 0 cp acc = OK (Some (acc, cp))"
| "nybble_loop (Suc n) cp acc =
     rbind (next_char cp) (\<lambda>(c0, cp1).
     rbind (next_char cp1) (\<lambda>(d0, cp2). if d0 \<noteq> 0x2E then OK None
     else rbind (next_char cp2) (\<lambda>(c1, cp3).
     rbind (next_char cp3) (\<lambda>(d1, cp4). if d1 \<noteq> 0x2E then OK None
     else if hex_decode_digit c0 < 0 \<or> hex_decode_digit c1 < 0 then OK None
     else nybble_loop n cp4 ((word_of_int (hex_decode_digit c0) OR push_bit 4 (word_of_int (hex_decode_digit c1))) # acc)))))"

text \<open>The return code and the address, for a name and a family (0 for any).\<close>

definition tor_addr_parse_reverse_lookup_name :: "byte list \<Rightarrow> nat \<Rightarrow> bool \<Rightarrow> (int \<times> tor_addr option) res" where
  "tor_addr_parse_reverse_lookup_name address family accept_regular =
     (if strcasecmpend address in_addr_arpa = 0 then
        (if family = 10 then OK (-1, None)
         else let len = length address - length in_addr_arpa in
           if len \<ge> INET_NTOA_BUF_LEN then OK (-1, None)
           else rbind (tor_inet_aton (take len address)) (\<lambda>r. OK (case r of
               None \<Rightarrow> (-1, None)
             | Some a \<Rightarrow> (1, Some (AF_INET (swap_bytes32 a))))))
      else if strcasecmpend address (0x2E # ip6_arpa) = 0 then
        (if family = 2 then OK (-1, None)
         else rbind (nybble_loop 16 (Some address) []) (\<lambda>r. case r of
             None \<Rightarrow> OK (-1, None)
           | Some (_, None) \<Rightarrow> Fault Mem_Fault
           | Some (bs, Some cp) \<Rightarrow> OK (if strcasecmp cp ip6_arpa \<noteq> 0 then (-1, None) else (1, Some (AF_INET6 bs)))))
      else if accept_regular then
        rbind (tor_addr_from_str address) (\<lambda>r. OK (case r of
          None \<Rightarrow> (0, None)
        | Some a \<Rightarrow> if tor_addr_family a \<noteq> family \<and> family \<noteq> 0 then (-1, None) else (1, Some a)))
      else OK (0, None))"

definition lower_hex :: "byte \<Rightarrow> byte" where
  "lower_hex b = bytes_of ''0123456789abcdef'' ! unat b"

definition print_nybbles :: "byte list \<Rightarrow> byte list" where
  "print_nybbles bs = concat (map (\<lambda>b. [lower_hex (b AND 0x0f), 0x2E, lower_hex (drop_bit 4 b), 0x2E]) (rev bs))"

definition tor_addr_to_reverse_lookup_name :: "tor_addr \<Rightarrow> nat \<Rightarrow> byte list option" where
  "tor_addr_to_reverse_lookup_name addr outlen = (case addr of
     AF_INET a \<Rightarrow>
       snprintf_fits outlen (dec_string (uint (a AND 0xff)) @ [0x2E] @ dec_string (uint (drop_bit 8 a AND 0xff)) @ [0x2E] @
         dec_string (uint (drop_bit 16 a AND 0xff)) @ [0x2E] @ dec_string (uint (drop_bit 24 a AND 0xff)) @ in_addr_arpa)
   | AF_INET6 bs \<Rightarrow> if outlen < REVERSE_LOOKUP_NAME_BUF_LEN then None else Some (print_nybbles bs @ ip6_arpa)
   | AF_UNSPEC \<Rightarrow> None)"

subsection \<open>Decimal numbers\<close>

lemma unat_digit: "n < 10 \<Longrightarrow> unat (of_nat (48 + n) :: byte) = 48 + n"
  by (simp add: unat_of_nat del: of_nat_add)

lemma digit_char: "n < 10 \<Longrightarrow> TOR_ISDIGIT (of_nat (48 + n)) \<and> digit_val (of_nat (48 + n)) = n"
  using unat_digit [of n] by (simp add: TOR_ISDIGIT_iff word_le_nat_alt digit_val_def del: of_nat_add)

lemma dec_digits_digits: "list_all TOR_ISDIGIT (dec_digits n)" "dec_digits n \<noteq> []"
proof (induction n rule: dec_digits.induct)
  case (1 n)
  {
    case 1
    show ?case using digit_char [of n] digit_char [of "n mod 10"] \<open>\<not> n < 10 \<Longrightarrow> list_all TOR_ISDIGIT (dec_digits (n div 10))\<close>
      by (subst dec_digits.simps) (auto simp del: of_nat_add)
  next
    case 2
    show ?case by (subst dec_digits.simps) auto
  }
qed

lemma dec_val_snoc: "dec_val (ds @ [d]) = 10 * dec_val ds + digit_val d"
  by (simp add: dec_val_def)

lemma dec_val_dec_digits: "dec_val (dec_digits n) = n"
proof (induction n rule: dec_digits.induct)
  case (1 n)
  show ?case
  proof (cases "n < 10")
    case True
    then show ?thesis using digit_char [of n] by (subst dec_digits.simps) (simp add: dec_val_def del: of_nat_add)
  next
    case False
    then show ?thesis using 1 digit_char [of "n mod 10"] by (subst dec_digits.simps) (simp add: dec_val_snoc del: of_nat_add)
  qed
qed

lemma dec_digits_length: "n < 10 ^ k \<Longrightarrow> 0 < k \<Longrightarrow> length (dec_digits n) \<le> k"
proof (induction k arbitrary: n)
  case (Suc k)
  show ?case
  proof (cases "n < 10")
    case False
    then have "0 < k" using Suc.prems by (cases k) auto
    moreover have "n div 10 < 10 ^ k" using Suc.prems(1) by (simp add: less_mult_imp_div_less mult.commute)
    ultimately show ?thesis using Suc.IH False by (subst dec_digits.simps) simp
  qed (simp add: dec_digits.simps)
qed simp

text \<open>What follows a number must not continue it.\<close>

definition ends_digits :: "byte list \<Rightarrow> bool" where
  "ends_digits rest \<longleftrightarrow> rest = [] \<or> \<not> TOR_ISDIGIT (hd rest)"

lemma digit_facts: "TOR_ISDIGIT d \<Longrightarrow> \<not> TOR_ISSPACE d \<and> d \<noteq> 0x2D \<and> d \<noteq> 0x2B"
  by (auto simp: TOR_ISDIGIT_iff TOR_ISSPACE_iff word_le_nat_alt)

lemma takeWhile_digits: "list_all P ds \<Longrightarrow> rest = [] \<or> \<not> P (hd rest) \<Longrightarrow> takeWhile P (ds @ rest) = ds"
  by (induction ds) (cases rest; auto)+

lemma strtol10_digits:
  assumes "list_all TOR_ISDIGIT ds" and "ds \<noteq> []" and "length ds \<le> 18" and "ends_digits rest"
  shows "strtol10 (ds @ rest) = (int (dec_val ds), rest)"
proof -
  obtain d ds' where d: "ds = d # ds'" using assms(2) by (cases ds) auto
  then have dig: "\<not> TOR_ISSPACE d" "d \<noteq> 0x2D" "d \<noteq> 0x2B" using assms(1) digit_facts [of d] by auto
  have "dec_val ds < 10 ^ 18"
    using dec_val_bound [OF assms(1)] power_increasing [OF assms(3), of "10::nat"] by simp
  then have "long_clamp (int (dec_val ds)) = int (dec_val ds)" by (simp add: long_clamp_def)
  moreover have "dropWhile TOR_ISSPACE (ds @ rest) = ds @ rest" "split_sign (ds @ rest) = (False, ds @ rest)"
    using d dig by (simp_all add: split_sign_def)
  moreover have "takeWhile TOR_ISDIGIT (ds @ rest) = ds" using assms(1,4) unfolding ends_digits_def by (rule takeWhile_digits)
  ultimately show ?thesis using assms(2) by (simp add: strtol10_def Let_def)
qed

lemma strtol10_dec_digits: "n < 10 ^ 18 \<Longrightarrow> ends_digits rest \<Longrightarrow> strtol10 (dec_digits n @ rest) = (int n, rest)"
  using strtol10_digits [OF dec_digits_digits(1) dec_digits_digits(2) dec_digits_length [of n 18]] by (simp add: dec_val_dec_digits)

lemma digit_to_num_digit: "TOR_ISDIGIT d \<longrightarrow> digit_to_num d = OK (int (digit_val d)) \<and> digit_val d < 10"
  by (rule all_bytes) code_simp

lemma scan_digits_ok:
  assumes "list_all TOR_ISDIGIT ds" and "k + int (length ds) \<le> width" and "ends_digits rest"
    and "foldl (\<lambda>v d. 10 * v + digit_val d) (unat r) ds < 2 ^ 32"
  shows "scan_digits width k r (ds @ rest) = OK (Some (of_nat (foldl (\<lambda>v d. 10 * v + digit_val d) (unat r) ds), k + int (length ds), rest))"
  using assms(1,2,4)
proof (induction ds arbitrary: k r)
  case Nil
  with assms(3) show ?case by (cases rest) (auto simp: ends_digits_def)
next
  case (Cons d ds)
  have mono: "a \<le> foldl (\<lambda>v d. 10 * v + digit_val d) a ds" for a
  proof (induction ds arbitrary: a)
    case (Cons x xs)
    from Cons [of "10 * a + digit_val x"] show ?case by simp
  qed simp
  have d: "digit_to_num d = OK (int (digit_val d))" using Cons.prems(1) digit_to_num_digit by simp
  have lt: "10 * unat r + digit_val d < 2 ^ 32" using Cons.prems(3) mono [of "10 * unat r + digit_val d"] by simp
  have "r * 10 + word_of_int (int (digit_val d)) = (of_nat (10 * unat r + digit_val d) :: u32)" by (simp add: mult.commute)
  moreover have u: "unat (of_nat (10 * unat r + digit_val d) :: u32) = 10 * unat r + digit_val d"
    using lt by (simp add: unat_of_nat take_bit_nat_eq_self del: of_nat_add of_nat_mult)
  then have "\<not> (of_nat (10 * unat r + digit_val d) :: u32) < r" by (simp add: word_less_nat_alt del: of_nat_add of_nat_mult)
  ultimately show ?case
    using Cons.prems d Cons.IH [of "k + 1" "of_nat (10 * unat r + digit_val d)"] u by (simp add: algebra_simps del: of_nat_add of_nat_mult)
qed

lemma scan_unsigned_dec:
  assumes "n < 1000" and "ends_digits rest"
  shows "scan_unsigned (dec_digits n @ rest) 3 = OK (Some (of_nat n, rest))"
proof -
  have "foldl (\<lambda>v d. 10 * v + digit_val d) 0 (dec_digits n) = n" using dec_val_dec_digits [of n] by (simp add: dec_val_def)
  moreover have "length (dec_digits n) \<le> 3" using dec_digits_length [of n 3] assms(1) by simp
  ultimately show ?thesis
    using scan_digits_ok [OF dec_digits_digits(1) _ assms(2), of 0 n 3 0] dec_digits_digits(2) [of n] assms(1)
    by (simp add: scan_unsigned_def)
qed

subsection \<open>Reading what was written: IPv4\<close>

lemma scan_width_3u: "scan_width (0x33 # 0x75 # rest) = OK (Some (3, 0x75 # rest))"
  by (simp add: scan_width_def TOR_ISDIGIT_iff digit_to_num_def Let_def)

lemma scan_width_c: "scan_width (0x63 # rest) = OK (Some (-1, 0x63 # rest))"
  by (simp add: scan_width_def TOR_ISDIGIT_iff)

lemma dot_ends [simp]: "ends_digits (0x2E # rest)" "ends_digits []" "ends_digits (0x3A # rest)" "ends_digits (0x2D # rest)"
  by (simp_all add: ends_digits_def TOR_ISDIGIT_iff)

lemma scan_3u:
  assumes "n < 256" and "ends_digits rest"
  shows "tor_vsscanf (dec_digits n @ rest) (0x25 # 0x33 # 0x75 # pattern) k vs = tor_vsscanf rest pattern (k + 1) (vs @ [Scan_u (of_nat n)])"
  using scan_unsigned_dec [of n rest] assms dec_digits_digits(2) [of n]
  by (subst tor_vsscanf.simps) (simp add: scan_width_3u)

lemma scan_dot: "tor_vsscanf (0x2E # rest) (0x2E # pattern) k vs = tor_vsscanf rest pattern k vs"
  by (subst tor_vsscanf.simps) simp

definition quad_text :: "nat \<Rightarrow> nat \<Rightarrow> nat \<Rightarrow> nat \<Rightarrow> byte list" where
  "quad_text a b c d = dec_digits a @ [0x2E] @ dec_digits b @ [0x2E] @ dec_digits c @ [0x2E] @ dec_digits d"

lemma scan_quad_text:
  assumes "a < 256" and "b < 256" and "c < 256" and "d < 256"
  shows "scan_quad (quad_text a b c d) = OK (Some (of_nat a, of_nat b, of_nat c, of_nat d))"
proof -
  have "tor_vsscanf [] [0x25, 0x63] 4 vs = OK (4, vs)" for vs by (subst tor_vsscanf.simps) (simp add: scan_width_c)
  moreover have "tor_vsscanf (dec_digits d) (0x25 # 0x33 # 0x75 # pattern) k vs = tor_vsscanf [] pattern (k + 1) (vs @ [Scan_u (of_nat d)])"
    for pattern k vs using scan_3u [OF assms(4), of "[]"] by simp
  ultimately have "tor_sscanf (quad_text a b c d) quad_pattern = OK (4, [Scan_u (of_nat a), Scan_u (of_nat b), Scan_u (of_nat c), Scan_u (of_nat d)])"
    using assms(1-3) by (simp add: tor_sscanf_def quad_text_def quad_pattern_def scan_3u scan_dot)
  moreover have "\<not> (of_nat n :: u32) > 255" if "n < 256" for n
    using that by (simp add: word_less_nat_alt unat_of_nat take_bit_nat_eq_self)
  ultimately show ?thesis using assms by (simp add: scan_quad_def)
qed

definition octet :: "nat \<Rightarrow> u32 \<Rightarrow> nat" where
  "octet k a = unat (drop_bit k a AND 0xff)"

lemma octet_less: "octet k a < 256"
proof -
  have "drop_bit k a AND 0xff \<le> (0xff :: u32)" by (rule word_and_le1)
  then show ?thesis by (simp add: octet_def word_le_nat_alt)
qed

lemma of_nat_octet: "of_nat (octet k a) = drop_bit k a AND (0xff :: u32)"
  by (simp add: octet_def)

lemma octets_join:
  "push_bit 24 (drop_bit 24 a AND 0xff) OR push_bit 16 (drop_bit 16 a AND 0xff) OR push_bit 8 (drop_bit 8 a AND 0xff) OR (a AND 0xff) = (a :: u32)"
proof -
  have ff: "(0xff :: u32) = mask 8" by (simp add: mask_eq_exp_minus_1)
  show ?thesis unfolding ff
  proof (rule bit_word_eqI)
    fix n assume n: "n < LENGTH(32)"
    then consider "n < 8" | "8 \<le> n \<and> n < 16" | "16 \<le> n \<and> n < 24" | "24 \<le> n \<and> n < 32" by fastforce
    then show "bit (push_bit 24 (drop_bit 24 a AND mask 8) OR push_bit 16 (drop_bit 16 a AND mask 8) OR
        push_bit 8 (drop_bit 8 a AND mask 8) OR (a AND mask 8)) n = bit a n"
      by cases (auto simp: bit_simps)
  qed
qed

lemma print_quad_text: "print_quad a = quad_text (octet 24 a) (octet 16 a) (octet 8 a) (octet 0 a)"
  by (simp add: print_quad_def quad_text_def dec_string_def octet_def)

lemma aton_print_quad: "tor_inet_aton (print_quad a) = OK (Some a)"
  unfolding tor_inet_aton_def print_quad_text
  using scan_quad_text [OF octet_less octet_less octet_less octet_less, of 24 a 16 a 8 a 0 a] octets_join [of a]
  by (simp add: of_nat_octet)

subsection \<open>Reading what was written: IPv6\<close>

lemma hex_char:
  "n < 16 \<Longrightarrow> TOR_ISXDIGIT (bytes_of ''0123456789abcdef'' ! n) \<and> hex_decode_digit (bytes_of ''0123456789abcdef'' ! n) = int n"
proof -
  have "\<forall>n\<in>set [0..<16]. TOR_ISXDIGIT (bytes_of ''0123456789abcdef'' ! n) \<and> hex_decode_digit (bytes_of ''0123456789abcdef'' ! n) = int n"
    by code_simp
  then show "n < 16 \<Longrightarrow> ?thesis" by simp
qed

lemma hex_digits_of_digits: "list_all TOR_ISXDIGIT (hex_digits_of n) \<and> hex_digits_of n \<noteq> [] \<and> hex_val (hex_digits_of n) = int n"
proof (induction n rule: hex_digits_of.induct)
  case (1 n)
  show ?case
  proof (cases "n < 16")
    case True
    then show ?thesis using hex_char [of n] by (subst (1 2 3) hex_digits_of.simps) (simp add: hex_val_def)
  next
    case False
    have "hex_val (ds @ [d]) = 16 * hex_val ds + hex_decode_digit d" for ds d by (simp add: hex_val_def)
    moreover have "16 * int (n div 16) + int (n mod 16) = int n" by presburger
    ultimately show ?thesis using False 1 hex_char [of "n mod 16"] by (subst (1 2 3) hex_digits_of.simps) simp
  qed
qed

lemma hex_digits_of_length: "n < 16 ^ k \<Longrightarrow> 0 < k \<Longrightarrow> length (hex_digits_of n) \<le> k"
proof (induction k arbitrary: n)
  case (Suc k)
  show ?case
  proof (cases "n < 16")
    case False
    then have "0 < k" using Suc.prems by (cases k) auto
    moreover have "n div 16 < 16 ^ k" using Suc.prems(1) by (simp add: less_mult_imp_div_less mult.commute)
    ultimately show ?thesis using Suc.IH False by (subst hex_digits_of.simps) simp
  qed (simp add: hex_digits_of.simps)
qed simp

definition hex16 :: "u16 \<Rightarrow> byte list" where
  "hex16 w = hex_digits_of (unat w)"

lemma hex16_facts: "list_all TOR_ISXDIGIT (hex16 w)" "hex16 w \<noteq> []" "hex_val (hex16 w) = uint w" "length (hex16 w) \<le> 4"
proof -
  have "unat w < 16 ^ 4" using unsigned_less [of w] by simp
  then show "length (hex16 w) \<le> 4" unfolding hex16_def by (rule hex_digits_of_length) simp
qed (use hex_digits_of_digits [of "unat w"] in \<open>simp_all add: hex16_def\<close>)

lemma xdigit_facts:
  "TOR_ISXDIGIT c \<Longrightarrow> \<not> TOR_ISSPACE c \<and> c \<noteq> 0x2D \<and> c \<noteq> 0x2B \<and> c \<noteq> 0x78 \<and> c \<noteq> 0x58 \<and> c \<noteq> 0x3A \<and> c \<noteq> 0x2E \<and> c \<noteq> 0x5B"
  by (auto simp: TOR_ISXDIGIT_iff TOR_ISSPACE_iff word_le_nat_alt)

definition colon_or_end :: "byte list \<Rightarrow> bool" where
  "colon_or_end rest \<longleftrightarrow> rest = [] \<or> hd rest = 0x3A"

lemma skip_0x_digits:
  assumes "list_all TOR_ISXDIGIT ds" and "colon_or_end rest"
  shows "skip_0x (ds @ rest) = ds @ rest"
proof -
  have "hd t = 0x3A \<or> TOR_ISXDIGIT (hd t)" if "ds @ rest = a # t" and "t \<noteq> []" and "ds \<noteq> []" for a t
  proof -
    from that obtain ds' where "ds = a # ds'" "t = ds' @ rest" by (cases ds) auto
    with assms that(2) show ?thesis by (cases ds') (auto simp: colon_or_end_def)
  qed
  then have "\<not> (b = 0x78 \<or> b = 0x58)" if "ds @ rest = a # b # c # cs" and "ds \<noteq> []" for a b c cs
    using that xdigit_facts [of b] by fastforce
  moreover have "\<not> a = 0x30" if "ds @ rest = a # t" and "ds = []" for a t
    using that assms(2) by (auto simp: colon_or_end_def)
  ultimately show ?thesis
    unfolding skip_0x_def by (cases "ds = []") (auto split: list.splits)
qed

lemma long_clamp_id: "0 \<le> v \<Longrightarrow> v < 2 ^ 63 \<Longrightarrow> long_clamp v = v"
  by (simp add: long_clamp_def)

lemma strtol16_hex:
  assumes "colon_or_end rest"
  shows "strtol16 (hex16 w @ rest) = (uint w, rest)"
proof -
  obtain d ds where d: "hex16 w = d # ds" using hex16_facts(2) [of w] by (cases "hex16 w") auto
  then have "TOR_ISXDIGIT d" using hex16_facts(1) [of w] by simp
  then have dig: "\<not> TOR_ISSPACE d" "d \<noteq> 0x2D" "d \<noteq> 0x2B" using xdigit_facts [of d] by auto
  have "uint w < 2 ^ 63" using uint_bounded [of w] by simp
  then have "long_clamp (uint w) = uint w" by (rule long_clamp_id [OF uint_ge_0])
  moreover have "dropWhile TOR_ISSPACE (hex16 w @ rest) = hex16 w @ rest" "split_sign (hex16 w @ rest) = (False, hex16 w @ rest)"
    using d dig by (simp_all add: split_sign_def)
  moreover have "takeWhile TOR_ISXDIGIT (hex16 w @ rest) = hex16 w"
    using hex16_facts(1) assms by (intro takeWhile_digits) (auto simp: colon_or_end_def TOR_ISXDIGIT_iff)
  ultimately show ?thesis
    using skip_0x_digits [OF hex16_facts(1) assms] hex16_facts(2,3) [of w] by (simp add: strtol16_def Let_def)
qed

lemma pton_word:
  assumes "length ws \<le> 7" and "colon_or_end rest" and "left = int (length (hex16 w)) + l" and "0 \<le> l" and "rest = [] \<Longrightarrow> l = 0"
  shows "pton_loop (hex16 w @ rest) left ws g = pton_loop (tl rest) (l - 1) (ws @ [w]) g"
proof -
  obtain d ds where d: "hex16 w = d # ds" using hex16_facts(2) [of w] by (cases "hex16 w") auto
  then have x: "TOR_ISXDIGIT d" using hex16_facts(1) [of w] by simp
  have "0 < length (hex16 w)" using hex16_facts(2) [of w] by simp
  then have pos: "\<not> left \<le> 0" using assms(3,4) by linarith
  have u: "\<not> (uint w < 0 \<or> uint w > 65536)" using uint_bounded [of w] by simp
  have n: "length (hex16 w @ rest) - length rest = length (hex16 w)" by simp
  have stop: "\<not> (\<not> (rest \<noteq> [] \<and> hd rest = 0x3A) \<and> left - int (length (hex16 w)) \<noteq> 0)"
    using assms(2,3,5) by (auto simp: colon_or_end_def)
  have "pton_loop (hex16 w @ rest) left ws g =
      (let (r, next) = strtol16 (hex16 w @ rest); n = length (hex16 w @ rest) - length next in
             if n > 4 \<or> n = 0 \<or> r < 0 \<or> r > 65536 then None
             else if \<not> (next \<noteq> [] \<and> hd next = 0x3A) \<and> left - int n \<noteq> 0 then None
             else pton_loop (tl next) (left - int n - 1) (ws @ [word_of_int r]) g)"
    using pos assms(1) x d by (subst pton_loop.simps) simp
  then show ?thesis
    unfolding strtol16_hex [OF assms(2)] Let_def prod.case n using hex16_facts(2,4) [of w] u stop assms(3) by auto
qed

text \<open>Words each followed by a colon, and words with colons between them.\<close>

definition colon_words :: "u16 list \<Rightarrow> byte list" where
  "colon_words us = concat (map (\<lambda>w. hex16 w @ [0x3A]) us)"

fun sep_words :: "u16 list \<Rightarrow> byte list" where
  "sep_words [] = []"
| "sep_words [w] = hex16 w"
| "sep_words (w # v # us) = hex16 w @ [0x3A] @ sep_words (v # us)"

lemma sep_words_Cons: "us \<noteq> [] \<Longrightarrow> sep_words (w # us) = hex16 w @ 0x3A # sep_words us"
  by (cases us) simp_all

lemma pton_colon_words:
  "length ws + length us \<le> 8 \<Longrightarrow> 0 \<le> l \<Longrightarrow>
    pton_loop (colon_words us @ rest) (int (length (colon_words us)) + l) ws g = pton_loop rest l (ws @ us) g"
proof (induction us arbitrary: ws)
  case (Cons u us)
  have "pton_loop (hex16 u @ 0x3A # colon_words us @ rest) (int (length (hex16 u)) + (1 + int (length (colon_words us)) + l)) ws g =
      pton_loop (tl (0x3A # colon_words us @ rest)) (1 + int (length (colon_words us)) + l - 1) (ws @ [u]) g"
    using Cons.prems by (intro pton_word) (auto simp: colon_or_end_def)
  with Cons.IH [of "ws @ [u]"] Cons.prems show ?case by (simp add: colon_words_def algebra_simps)
qed (simp add: colon_words_def)

lemma pton_done: "left \<le> 0 \<Longrightarrow> pton_loop src left ws g = Some (ws, g)"
  by (subst pton_loop.simps) simp

lemma pton_sep_words:
  "length ws + length us \<le> 8 \<Longrightarrow> pton_loop (sep_words us) (int (length (sep_words us))) ws g = Some (ws @ us, g)"
proof (induction us arbitrary: ws)
  case (Cons u us)
  show ?case
  proof (cases "us = []")
    case True
    with Cons.prems pton_word [of ws "[]" "int (length (hex16 u))" u 0 g] show ?thesis
      by (simp add: colon_or_end_def pton_done)
  next
    case False
    have "pton_loop (hex16 u @ 0x3A # sep_words us) (int (length (hex16 u)) + (1 + int (length (sep_words us)))) ws g =
        pton_loop (tl (0x3A # sep_words us)) (1 + int (length (sep_words us)) - 1) (ws @ [u]) g"
      using Cons.prems by (intro pton_word) (auto simp: colon_or_end_def)
    with Cons.IH [of "ws @ [u]"] Cons.prems show ?thesis by (simp add: sep_words_Cons [OF False] algebra_simps)
  qed
qed (simp add: pton_done)

lemma pton_gap:
  assumes "length A + length B \<le> 7"
  shows "pton_loop (colon_words A @ (if A = [] then [0x3A] else []) @ 0x3A # sep_words B)
    (int (length (colon_words A @ (if A = [] then [0x3A] else []) @ 0x3A # sep_words B))) [] None = Some (A @ B, Some (length A))"
proof (cases "A = []")
  case True
  have "pton_loop (0x3A # 0x3A # sep_words B) (2 + int (length (sep_words B))) [] None =
      pton_loop (sep_words B) (int (length (sep_words B))) [] (Some 0)"
    by (subst pton_loop.simps) (simp add: TOR_ISXDIGIT_iff)
  with True assms pton_sep_words [of "[]" B] show ?thesis by (simp add: colon_words_def)
next
  case False
  have "pton_loop (colon_words A @ 0x3A # sep_words B) (int (length (colon_words A)) + (1 + int (length (sep_words B)))) [] None =
      pton_loop (0x3A # sep_words B) (1 + int (length (sep_words B))) A None"
    using pton_colon_words [of "[]" A "1 + int (length (sep_words B))"] assms by simp
  also have "\<dots> = pton_loop (sep_words B) (int (length (sep_words B))) A (Some (length A))"
    using False assms by (subst pton_loop.simps) (simp add: TOR_ISXDIGIT_iff)
  finally show ?thesis using False assms pton_sep_words [of A B] by (simp add: algebra_simps)
qed

text \<open>What \<^verbatim>\<open>tor_inet_ntop\<close> prints, without a gap and around one.\<close>

lemma print_words_plain: "pos < int i \<Longrightarrow> i + length ws = 8 \<Longrightarrow> print_words ws i pos = sep_words ws"
proof (induction ws arbitrary: i)
  case (Cons w ws)
  then show ?case by (cases ws) (subst print_words.simps; simp add: hex16_def print_words.simps(1))+
qed (simp add: print_words.simps)

lemma print_words_front:
  "pos = int (i + length A) \<Longrightarrow> i + length A \<le> 7 \<Longrightarrow> print_words (A @ R) i pos = colon_words A @ print_words R (i + length A) pos"
proof (induction A arbitrary: i)
  case (Cons w A)
  then show ?case by (simp add: print_words.simps(2) colon_words_def hex16_def)
qed (simp add: colon_words_def)

lemma zero_run:
  assumes "0 < g" and "B = [] \<or> hd B \<noteq> (0 :: u16)"
  shows "print_words (replicate g 0 @ B) i (int i) = (if i = 0 then [0x3A] else []) @ [0x3A] @ print_words B (i + g) (int i)"
proof -
  obtain g' where g: "g = Suc g'" using assms(1) by (cases g) auto
  have "takeWhile (\<lambda>x. x = 0) (replicate g' 0 @ B) = replicate g' 0" "dropWhile (\<lambda>x. x = 0) (replicate g' 0 @ B) = B"
    using assms(2) by (induction g') (cases B; auto)+
  then show ?thesis by (simp add: g print_words.simps(2))
qed

lemma print_words_gap:
  assumes "0 < g" and "B = [] \<or> hd B \<noteq> 0" and "length A + g + length B = 8"
  shows "print_words (A @ replicate g 0 @ B) 0 (int (length A)) =
    colon_words A @ (if A = [] then [0x3A] else []) @ 0x3A # sep_words B"
  using assms print_words_front [of "int (length A)" 0 A "replicate g 0 @ B"] zero_run [OF assms(1,2), of "length A"]
    print_words_plain [of "int (length A)" "length A + g" B] by simp

lemma longest_gap_split:
  "longest_gap ws i len pos = (len', pos') \<Longrightarrow> (len', pos') = (len, pos) \<or>
    (\<exists>A B. ws = A @ replicate len' 0 @ B \<and> 0 < len' \<and> (B = [] \<or> hd B \<noteq> 0) \<and> pos' = int (i + length A))"
proof (induction ws i len pos arbitrary: len' pos' rule: longest_gap.induct)
  case (2 w ws i len pos)
  show ?case
  proof (cases "w = 0")
    case True
    let ?Z = "takeWhile (\<lambda>x. x = 0) ws" and ?R = "dropWhile (\<lambda>x. x = 0) ws" and ?n = "1 + length (takeWhile (\<lambda>x. x = 0) ws)"
    have Z: "?Z = replicate (length ?Z) 0" by (metis (mono_tags, lifting) replicate_eqI set_takeWhileD)
    then have ws: "w # ws = replicate ?n 0 @ ?R" using True takeWhile_dropWhile_id [of "\<lambda>x. x = 0" ws] by simp
    have "longest_gap ?R (i + ?n) (if ?n > len then ?n else len) (if ?n > len then int i else pos) = (len', pos')"
      using 2(3) by (simp only: longest_gap.simps True Let_def simp_thms if_True)
    from 2(1) [OF True refl this] show ?thesis
    proof
      assume eq: "(len', pos') = (if ?n > len then ?n else len, if ?n > len then int i else pos)"
      have "?R = [] \<or> hd ?R \<noteq> 0" using hd_dropWhile [of "\<lambda>x. x = 0" ws] by blast
      with eq ws show ?thesis by (cases "?n > len") (auto intro!: exI [of _ "[]"] exI [of _ ?R])
    next
      assume "\<exists>A B. ?R = A @ replicate len' 0 @ B \<and> 0 < len' \<and> (B = [] \<or> hd B \<noteq> 0) \<and> pos' = int (i + ?n + length A)"
      then obtain A B where "?R = A @ replicate len' 0 @ B" "0 < len'" "B = [] \<or> hd B \<noteq> 0" "pos' = int (i + ?n + length A)" by blast
      with ws show ?thesis by (intro disjI2 exI [of _ "replicate ?n 0 @ A"] exI [of _ B]) simp
    qed
  next
    case False
    with 2(3) have "longest_gap ws (i + 1) len pos = (len', pos')" by (simp add: longest_gap.simps)
    from 2(2) [OF False this] show ?thesis
    proof
      assume "\<exists>A B. ws = A @ replicate len' 0 @ B \<and> 0 < len' \<and> (B = [] \<or> hd B \<noteq> 0) \<and> pos' = int (i + 1 + length A)"
      then obtain A B where "ws = A @ replicate len' 0 @ B" "0 < len'" "B = [] \<or> hd B \<noteq> 0" "pos' = int (i + 1 + length A)" by blast
      then show ?thesis by (intro disjI2 exI [of _ "w # A"] exI [of _ B]) simp
    qed simp
  qed
qed (simp add: longest_gap.simps)

lemma hex16_set: "c \<in> set (hex16 w) \<Longrightarrow> TOR_ISXDIGIT c"
  using hex16_facts(1) [of w] by (simp add: list_all_iff)

lemma words_text:
  "c \<in> set (colon_words A) \<Longrightarrow> TOR_ISXDIGIT c \<or> c = 0x3A" "c \<in> set (sep_words B) \<Longrightarrow> TOR_ISXDIGIT c \<or> c = 0x3A"
  "length (colon_words A) \<le> 5 * length A" "length (sep_words B) \<le> 5 * length B"
proof -
  show "c \<in> set (colon_words A) \<Longrightarrow> TOR_ISXDIGIT c \<or> c = 0x3A" by (cases "A = []") (auto simp: colon_words_def dest: hex16_set)
  show "c \<in> set (sep_words B) \<Longrightarrow> TOR_ISXDIGIT c \<or> c = 0x3A" by (induction B rule: sep_words.induct) (auto dest: hex16_set)
  show "length (colon_words A) \<le> 5 * length A"
  proof (induction A)
    case (Cons a A)
    then show ?case using hex16_facts(4) [of a] by (simp add: colon_words_def)
  qed (simp add: colon_words_def)
  show "length (sep_words B) \<le> 5 * length B"
  proof (induction B rule: sep_words.induct)
    case (2 w)
    then show ?case using hex16_facts(4) [of w] by simp
  next
    case (3 w v us)
    then show ?case using hex16_facts(4) [of w] by simp
  qed simp
qed

lemma words_of_length: "length (words_of bs) = length bs div 2"
  by (induction bs rule: words_of.induct) auto

lemma word_disj: "push_bit 8 (ucast (a :: byte)) + ucast (b :: byte) = (push_bit 8 (ucast a) OR ucast b :: u16)"
proof (rule disjunctive_add)
  fix n show "\<not> bit (push_bit 8 (ucast a :: u16)) n \<or> \<not> bit (ucast b :: u16) n"
    by (auto simp: bit_simps dest: bit_imp_le_length)
qed

lemma word_of_bytes:
  "ucast (drop_bit 8 (push_bit 8 (ucast a) + ucast b :: u16)) = (a :: byte)"
  "ucast ((push_bit 8 (ucast a) + ucast b :: u16) AND 0xff) = (b :: byte)"
proof -
  have ff: "(0xff :: u16) = mask 8" by (simp add: mask_eq_exp_minus_1)
  show "ucast (drop_bit 8 (push_bit 8 (ucast a) + ucast b :: u16)) = a" unfolding word_disj
    by (rule bit_word_eqI) (auto simp: bit_simps dest: bit_imp_le_length)
  show "ucast ((push_bit 8 (ucast a) + ucast b :: u16) AND 0xff) = b" unfolding word_disj ff
    by (rule bit_word_eqI) (auto simp: bit_simps dest: bit_imp_le_length)
qed

lemma bytes_of_words_of: "even (length bs) \<Longrightarrow> bytes_of_words (words_of bs) = bs"
  by (induction bs rule: words_of.induct) (auto simp: word_of_bytes)

text \<open>An address that does not look like IPv4: without a gap, or with one.\<close>

lemma print_v6_plain:
  assumes "length bs = 16" and "\<not> is_mapped (words_of bs)"
  shows "(\<exists>A B g. words_of bs = A @ replicate g 0 @ B \<and> 0 < g \<and>
      print_v6 bs = colon_words A @ (if A = [] then [0x3A] else []) @ 0x3A # sep_words B) \<or>
    print_v6 bs = sep_words (words_of bs)"
proof -
  let ?ws = "words_of bs"
  have len: "length ?ws = 8" using assms(1) by (simp add: words_of_length)
  obtain n pos where gap: "longest_gap ?ws 0 0 (-1) = (n, pos)" by (cases "longest_gap ?ws 0 0 (-1)") auto
  then have print: "print_v6 bs = print_words ?ws 0 (if n \<le> 1 then -1 else pos)" using assms(2) by (simp add: print_v6_def Let_def)
  show ?thesis
  proof (cases "n \<le> 1")
    case True
    with print print_words_plain [of "-1" 0 ?ws] len show ?thesis by simp
  next
    case False
    with longest_gap_split [OF gap] obtain A B where AB: "?ws = A @ replicate n 0 @ B" "0 < n" "B = [] \<or> hd B \<noteq> 0" "pos = int (length A)"
      by auto
    then have "length A + n + length B = 8" using len by (metis add.assoc length_append length_replicate)
    with print_words_gap [OF AB(2,3) this] print False AB show ?thesis by (intro disjI1 exI [of _ A] exI [of _ B] exI [of _ n]) simp
  qed
qed

lemma pton6_without_dot:
  assumes "0x2E \<notin> set src" and "pton_loop src (int (length src)) [] None = Some (ws, g)"
  shows "tor_inet_pton6 src = rbind (fill_gap ws g []) (\<lambda>ws. OK (map_option bytes_of_words ws))"
  using assms by (cases src) (auto simp: tor_inet_pton6_def words_end_def)

lemma pton6_print_plain:
  assumes "length bs = 16" and "\<not> is_mapped (words_of bs)"
  shows "tor_inet_pton6 (print_v6 bs) = OK (Some bs) \<and> length (print_v6 bs) \<le> 40 \<and> (\<forall>c\<in>set (print_v6 bs). TOR_ISXDIGIT c \<or> c = 0x3A) \<and> print_v6 bs \<noteq> []"
proof -
  let ?ws = "words_of bs"
  have len: "length ?ws = 8" using assms(1) by (simp add: words_of_length)
  have bs: "bytes_of_words ?ws = bs" using bytes_of_words_of assms(1) by simp
  have nodot: "0x2E \<notin> set t" if "\<forall>c\<in>set t. TOR_ISXDIGIT c \<or> c = 0x3A" for t using that xdigit_facts [of "0x2E"] by fastforce
  from print_v6_plain [OF assms] show ?thesis
  proof
    assume "\<exists>A B g. ?ws = A @ replicate g 0 @ B \<and> 0 < g \<and> print_v6 bs = colon_words A @ (if A = [] then [0x3A] else []) @ 0x3A # sep_words B"
    then obtain A B g where g: "?ws = A @ replicate g 0 @ B" "0 < g" "print_v6 bs = colon_words A @ (if A = [] then [0x3A] else []) @ 0x3A # sep_words B"
      by blast
    then have n: "length A + g + length B = 8" using len by (metis add.assoc length_append length_replicate)
    have chars: "\<forall>c\<in>set (print_v6 bs). TOR_ISXDIGIT c \<or> c = 0x3A" using words_text(1,2) by (auto simp: g(3))
    have "fill_gap (A @ B) (Some (length A)) [] = OK (Some ?ws)" using n g(1,2) by (auto simp: fill_gap_def Let_def)
    moreover have "length (print_v6 bs) \<le> 40" using words_text(3) [of A] words_text(4) [of B] n g(2) by (cases "A = []") (auto simp: g(3))
    ultimately show ?thesis
      using pton6_without_dot [OF nodot [OF chars], of "A @ B" "Some (length A)"] pton_gap [of A B] n g chars bs by simp
  next
    assume p: "print_v6 bs = sep_words ?ws"
    have chars: "\<forall>c\<in>set (print_v6 bs). TOR_ISXDIGIT c \<or> c = 0x3A" using words_text(2) by (auto simp: p)
    have "sep_words ?ws \<noteq> []" using len by (cases ?ws rule: sep_words.cases) auto
    moreover have "fill_gap ?ws None [] = OK (Some ?ws)" using len by (simp add: fill_gap_def)
    ultimately show ?thesis
      using pton6_without_dot [OF nodot [OF chars], of ?ws None] pton_sep_words [of "[]" ?ws None] len chars bs words_text(4) [of ?ws]
      by (simp add: p)
  qed
qed

text \<open>An address that embeds one of IPv4.\<close>

lemma words_of_nth: "2 * i + 1 < length bs \<Longrightarrow> words_of bs ! i = push_bit 8 (ucast (bs ! (2 * i))) + ucast (bs ! (2 * i + 1))"
proof (induction bs arbitrary: i rule: words_of.induct)
  case (1 a b bs)
  then show ?case by (cases i) auto
qed auto

lemma quad_word: "ucast (push_bit 8 (of_nat (unat a)) OR of_nat (unat b) :: u32) = (push_bit 8 (ucast (a :: byte)) + ucast (b :: byte) :: u16)"
  unfolding word_disj by (rule bit_word_eqI) (auto simp: bit_simps dest: bit_imp_le_length)

lemma dec_digits_no_dot: "0x2E \<notin> set (dec_digits n)"
  using dec_digits_digits(1) [of n] by (auto simp: list_all_iff TOR_ISDIGIT_iff)

lemma quad_text_split: "takeWhile (\<lambda>c. c \<noteq> 0x2E) (p @ quad_text a b c d) = p @ dec_digits a" if "0x2E \<notin> set p"
proof -
  have "\<forall>x\<in>set (p @ dec_digits a). x \<noteq> 0x2E" using that dec_digits_no_dot [of a] by auto
  then show ?thesis
    using takeWhile_append2 [of "p @ dec_digits a" "\<lambda>c. c \<noteq> 0x2E" "[0x2E] @ dec_digits b @ [0x2E] @ dec_digits c @ [0x2E] @ dec_digits d"]
    by (simp add: quad_text_def)
qed

lemma quad_start_text:
  assumes "0x2E \<notin> set p" and "p = [] \<or> \<not> TOR_ISDIGIT (last p)"
  shows "quad_start (p @ quad_text a b c d) = length p"
proof -
  have "takeWhile TOR_ISDIGIT (rev (dec_digits a) @ rev p) = rev (dec_digits a)"
    using dec_digits_digits(1) [of a] assms(2) by (intro takeWhile_digits) (auto simp: list_all_iff hd_rev)
  then show ?thesis unfolding quad_start_def Let_def quad_text_split [OF assms(1)] by simp
qed

lemma pton6_with_quad:
  assumes "0x2E \<notin> set p" and "p = [] \<or> \<not> TOR_ISDIGIT (last p)"
    and "pton_loop (p @ quad_text (unat a) (unat b) (unat c) (unat d)) (int (length p)) [] None = Some (ws, g)"
  shows "tor_inet_pton6 (p @ quad_text (unat (a :: byte)) (unat (b :: byte)) (unat (c :: byte)) (unat (d :: byte))) =
    rbind (fill_gap ws g [push_bit 8 (ucast a) + ucast b, push_bit 8 (ucast c) + ucast d]) (\<lambda>ws. OK (map_option bytes_of_words ws))"
proof -
  let ?q = "quad_text (unat a) (unat b) (unat c) (unat d)"
  have lt: "unat x < 256" for x :: byte using unsigned_less [of x] by simp
  have dot: "0x2E \<in> set (p @ ?q)" by (simp add: quad_text_def)
  have hd: "hd (p @ ?q) \<noteq> 0x2E" "p @ ?q \<noteq> []"
    using assms(1) dec_digits_no_dot [of "unat a"] dec_digits_digits(2) [of "unat a"]
    by (cases p; cases "dec_digits (unat a)"; auto simp: quad_text_def)+
  have "scan_quad (drop (quad_start (p @ ?q)) (p @ ?q)) = OK (Some (of_nat (unat a), of_nat (unat b), of_nat (unat c), of_nat (unat d)))"
    using scan_quad_text [OF lt lt lt lt] quad_start_text [OF assms(1,2)] by simp
  then show ?thesis
    using hd dot assms(3) quad_start_text [OF assms(1,2)] quad_word by (simp add: tor_inet_pton6_def words_end_def)
qed

lemma pton6_print_mapped:
  assumes "length bs = 16" and "is_mapped (words_of bs)"
  shows "tor_inet_pton6 (print_v6 bs) = OK (Some bs) \<and> length (print_v6 bs) \<le> 40 \<and> hd (print_v6 bs) = 0x3A \<and> print_v6 bs \<noteq> []"
proof -
  let ?ws = "words_of bs" and ?q = "quad_text (unat (bs ! 12)) (unat (bs ! 13)) (unat (bs ! 14)) (unat (bs ! 15))"
  have len: "length ?ws = 8" using assms(1) by (simp add: words_of_length)
  have "?ws ! 6 = push_bit 8 (ucast (bs ! 12)) + ucast (bs ! 13)" "?ws ! 7 = push_bit 8 (ucast (bs ! 14)) + ucast (bs ! 15)"
    using words_of_nth [of 6 bs] words_of_nth [of 7 bs] assms(1) by simp_all
  moreover have "?ws = take 5 ?ws @ [?ws ! 5, ?ws ! 6, ?ws ! 7]"
  proof (rule nth_equalityI)
    fix i assume "i < length ?ws"
    then consider "i < 5" | "i = 5" | "i = 6" | "i = 7" using len by fastforce
    then show "?ws ! i = (take 5 ?ws @ [?ws ! 5, ?ws ! 6, ?ws ! 7]) ! i" using len by cases (simp_all add: nth_append)
  qed (simp add: len)
  ultimately have words: "?ws = replicate 5 0 @ [x, push_bit 8 (ucast (bs ! 12)) + ucast (bs ! 13), push_bit 8 (ucast (bs ! 14)) + ucast (bs ! 15)]"
    if "?ws ! 5 = x" for x using assms(2) that by (simp add: is_mapped_def)
  have "unat x < 256" for x :: byte using unsigned_less [of x] by simp
  then have "length (dec_digits (unat x)) \<le> 3" for x :: byte using dec_digits_length [of "unat x" 3] order_less_trans [of "unat x" 256 1000] by simp
  from this [of "bs ! 12"] this [of "bs ! 13"] this [of "bs ! 14"] this [of "bs ! 15"] have q: "length ?q \<le> 15"
    by (simp add: quad_text_def)
  have bs: "bytes_of_words ?ws = bs" using bytes_of_words_of assms(1) by simp
  show ?thesis
  proof (cases "?ws ! 5 = 0")
    case True
    then have p: "print_v6 bs = [0x3A, 0x3A] @ ?q" using assms(2) by (simp add: print_v6_def print_mapped_def Let_def quad_text_def dec_string_def)
    have "pton_loop ([0x3A, 0x3A] @ ?q) 2 [] None = Some ([], Some 0)"
      by (subst pton_loop.simps) (simp add: TOR_ISXDIGIT_iff pton_done)
    then have "tor_inet_pton6 (print_v6 bs) = rbind (fill_gap [] (Some 0) [push_bit 8 (ucast (bs ! 12)) + ucast (bs ! 13),
        push_bit 8 (ucast (bs ! 14)) + ucast (bs ! 15)]) (\<lambda>ws. OK (map_option bytes_of_words ws))"
      unfolding p by (intro pton6_with_quad) (simp_all add: TOR_ISDIGIT_iff)
    also have "fill_gap [] (Some 0) [push_bit 8 (ucast (bs ! 12)) + ucast (bs ! 13), push_bit 8 (ucast (bs ! 14)) + ucast (bs ! 15)] = OK (Some ?ws)"
      unfolding words [of 0, OF True] by (simp add: fill_gap_def numeral_eq_Suc)
    finally show ?thesis using bs p q by simp
  next
    case False
    then have five: "?ws ! 5 = 0xffff" using assms(2) by (simp add: is_mapped_def)
    with False have p: "print_v6 bs = ([0x3A, 0x3A] @ hex16 0xffff @ [0x3A]) @ ?q"
      using assms(2) by (simp add: print_v6_def print_mapped_def Let_def quad_text_def dec_string_def hex16_def)
    have "pton_loop (0x3A # 0x3A # hex16 0xffff @ 0x3A # ?q) (2 + (int (length (hex16 0xffff)) + 1)) [] None =
        pton_loop (hex16 0xffff @ 0x3A # ?q) (1 + int (length (hex16 0xffff))) [] (Some 0)"
      by (subst pton_loop.simps) (simp add: TOR_ISXDIGIT_iff)
    also have "\<dots> = Some ([0xffff], Some 0)"
      using pton_word [of "[]" "0x3A # ?q" "1 + int (length (hex16 0xffff))" "0xffff" 1 "Some 0"] by (simp add: colon_or_end_def pton_done)
    finally have loop: "pton_loop (([0x3A, 0x3A] @ hex16 0xffff @ [0x3A]) @ ?q) (int (length ([0x3A, 0x3A] @ hex16 0xffff @ [0x3A]))) [] None = Some ([0xffff], Some 0)"
      by (simp add: algebra_simps)
    have "0x2E \<notin> set (hex16 0xffff)" using hex16_set [of "0x2E"] xdigit_facts [of "0x2E"] by blast
    with loop have "tor_inet_pton6 (print_v6 bs) = rbind (fill_gap [0xffff] (Some 0) [push_bit 8 (ucast (bs ! 12)) + ucast (bs ! 13),
        push_bit 8 (ucast (bs ! 14)) + ucast (bs ! 15)]) (\<lambda>ws. OK (map_option bytes_of_words ws))"
      unfolding p by (intro pton6_with_quad) (simp_all add: TOR_ISDIGIT_iff)
    also have "fill_gap [0xffff] (Some 0) [push_bit 8 (ucast (bs ! 12)) + ucast (bs ! 13), push_bit 8 (ucast (bs ! 14)) + ucast (bs ! 15)] = OK (Some ?ws)"
      unfolding words [of "0xffff", OF five] by (simp add: fill_gap_def)
    finally show ?thesis using bs p q hex16_facts(4) [of "0xffff"] by simp
  qed
qed

text \<open>Text of an IPv4 address is no IPv6 address.\<close>

lemma pton6_print_quad: "tor_inet_pton6 (print_quad a) = OK None"
proof -
  let ?b = "\<lambda>k. of_nat (octet k a) :: byte"
  have oct: "unat (?b k) = octet k a" for k using octet_less [of k a] by (simp add: unat_of_nat take_bit_nat_eq_self)
  have "tor_inet_pton6 ([] @ quad_text (unat (?b 24)) (unat (?b 16)) (unat (?b 8)) (unat (?b 0))) =
      rbind (fill_gap [] None [push_bit 8 (ucast (?b 24)) + ucast (?b 16), push_bit 8 (ucast (?b 8)) + ucast (?b 0)])
        (\<lambda>ws. OK (map_option bytes_of_words ws))"
    by (intro pton6_with_quad) (simp_all add: pton_done)
  then show ?thesis by (simp add: print_quad_text oct fill_gap_def)
qed

lemma print_quad_facts: "length (print_quad a) \<le> 15" "hd (print_quad a) \<noteq> 0x5B" "print_quad a \<noteq> []"
proof -
  have "length (dec_digits (octet k a)) \<le> 3" for k using dec_digits_length [of "octet k a" 3] octet_less [of k a] by simp
  from this [of 24] this [of 16] this [of 8] this [of 0] show "length (print_quad a) \<le> 15"
    by (simp add: print_quad_text quad_text_def)
  obtain d ds where "dec_digits (octet 24 a) = d # ds" "TOR_ISDIGIT d"
    using dec_digits_digits [of "octet 24 a"] by (cases "dec_digits (octet 24 a)") auto
  then show "hd (print_quad a) \<noteq> 0x5B" "print_quad a \<noteq> []" by (auto simp: print_quad_text quad_text_def TOR_ISDIGIT_iff)
qed

lemma pton6_print_v6:
  assumes "length bs = 16"
  shows "tor_inet_pton6 (print_v6 bs) = OK (Some bs)" "length (print_v6 bs) \<le> 40" "hd (print_v6 bs) \<noteq> 0x5B" "print_v6 bs \<noteq> []"
proof -
  have "tor_inet_pton6 (print_v6 bs) = OK (Some bs) \<and> length (print_v6 bs) \<le> 40 \<and> hd (print_v6 bs) \<noteq> 0x5B \<and> print_v6 bs \<noteq> []"
  proof (cases "is_mapped (words_of bs)")
    case True
    with pton6_print_mapped [OF assms] show ?thesis by simp
  next
    case False
    from pton6_print_plain [OF assms this] have r: "tor_inet_pton6 (print_v6 bs) = OK (Some bs)" "length (print_v6 bs) \<le> 40" "print_v6 bs \<noteq> []"
      "hd (print_v6 bs) \<in> set (print_v6 bs)" "\<forall>c\<in>set (print_v6 bs). TOR_ISXDIGIT c \<or> c = 0x3A" by simp_all
    then have "TOR_ISXDIGIT (hd (print_v6 bs)) \<or> hd (print_v6 bs) = 0x3A" by blast
    then have "hd (print_v6 bs) \<noteq> 0x5B" using xdigit_facts [of "hd (print_v6 bs)"] by (elim disjE) simp_all
    with r(1-3) show ?thesis by blast
  qed
  then show "tor_inet_pton6 (print_v6 bs) = OK (Some bs)" "length (print_v6 bs) \<le> 40" "hd (print_v6 bs) \<noteq> 0x5B" "print_v6 bs \<noteq> []" by simp_all
qed

text \<open>The text of an address, which fits the buffers the code uses.\<close>

fun addr_text :: "tor_addr \<Rightarrow> byte list" where
  "addr_text (AF_INET a) = print_quad a"
| "addr_text (AF_INET6 bs) = print_v6 bs"
| "addr_text AF_UNSPEC = []"

lemma addr_to_str:
  assumes "addr_ok addr" and "addr \<noteq> AF_UNSPEC" and "48 \<le> len"
  shows "tor_addr_to_str addr len decorate =
    Some (if decorate \<and> is_inet6 addr then [0x5B] @ addr_text addr @ [0x5D] else addr_text addr)"
proof (cases addr)
  case (AF_INET a)
  with assms(3) print_quad_facts(1) [of a] show ?thesis
    by (simp add: tor_addr_to_str_def tor_inet_ntop_def tor_inet_ntoa_def snprintf_fits_def is_inet6_def)
next
  case (AF_INET6 bs)
  with assms pton6_print_v6(2) [of bs] show ?thesis by (auto simp: tor_addr_to_str_def tor_inet_ntop_def is_inet6_def)
qed (use assms in simp)

lemma read_addr_text:
  assumes "addr_ok addr" and "addr \<noteq> AF_UNSPEC"
  shows "rbind (tor_inet_pton Family_INET6 (addr_text addr)) (\<lambda>r6. case r6 of Some a \<Rightarrow> OK (Some a) | None \<Rightarrow> tor_inet_pton Family_INET (addr_text addr)) = OK (Some addr)"
    and "addr_text addr \<noteq> []" and "hd (addr_text addr) \<noteq> 0x5B"
  using assms pton6_print_v6 pton6_print_quad aton_print_quad print_quad_facts(2,3) by (cases addr; simp add: tor_inet_pton_def)+

lemma from_str_addr_text:
  assumes "addr_ok addr" and "addr \<noteq> AF_UNSPEC"
  shows "tor_addr_from_str (addr_text addr) = OK (Some addr)" "tor_addr_from_str ([0x5B] @ addr_text addr @ [0x5D]) = OK (Some addr)"
  using read_addr_text [OF assms] by (simp_all add: tor_addr_from_str_def Let_def)

subsection \<open>Parsing always returns, with well-formed results\<close>

lemma scan_digits_total: "\<exists>r. scan_digits width k res buf = OK r"
proof (induction buf arbitrary: k res)
  case (Cons c cs)
  then show ?case using digit_to_num_digit [of c] by (simp add: Let_def)
qed simp

lemma scan_width_loop_total: "\<exists>r. scan_width_loop w p = OK r"
proof (induction w p rule: scan_width_loop.induct)
  case (2 w c cs)
  then show ?case using digit_to_num_digit [of c] by (auto simp: Let_def)
qed simp

lemma scan_width_total: "\<exists>r. scan_width p = OK r"
proof (cases p)
  case (Cons c cs)
  obtain r where "scan_width_loop (int (digit_val c)) cs = OK r" using scan_width_loop_total by blast
  with Cons show ?thesis using digit_to_num_digit [of c] by (auto simp: scan_width_def)
qed (simp add: scan_width_def)

lemma scan_unsigned_total: "\<exists>r. scan_unsigned buf width = OK r"
proof -
  obtain r where "scan_digits (if width < 0 then MAX_SCANF_WIDTH else width) 0 0 buf = OK r" using scan_digits_total by blast
  then show ?thesis by (simp add: scan_unsigned_def)
qed

lemma tor_vsscanf_total: "\<exists>r. tor_vsscanf buf pattern n vs = OK r"
proof (induction buf pattern n vs rule: tor_vsscanf.induct)
  case (2 buf p pattern n vs)
  obtain w where w: "scan_width pattern = OK w" using scan_width_total by blast
  obtain u where u: "scan_unsigned buf width = OK (u width)" for width using scan_unsigned_total by metis
  show ?case
    unfolding tor_vsscanf.simps(2) w using 2 [unfolded w] u
    by (auto split: list.splits option.splits prod.splits if_splits simp: Let_def)
qed (simp add: tor_vsscanf.simps)

lemma scan_quad_total: "\<exists>r. scan_quad str = OK r"
proof -
  obtain n vs where "tor_sscanf str quad_pattern = OK (n, vs)" using tor_vsscanf_total [of str quad_pattern 0 "[]"] by (auto simp: tor_sscanf_def)
  then show ?thesis by (simp add: scan_quad_def)
qed

lemma aton_total: "\<exists>r. tor_inet_aton str = OK r"
  using scan_quad_total [of str] by (auto simp: tor_inet_aton_def)

lemma pton_loop_step:
  assumes "pton_loop src left ws g = Some r" and "0 < left"
  shows "(\<exists>src' left' w. left' < left \<and> pton_loop src' left' (ws @ [w]) g = Some r) \<or>
    (\<exists>src' left'. left' < left \<and> pton_loop src' left' ws (Some (length ws)) = Some r)"
proof -
  from assms obtain c cs where src: "src = c # cs" by (subst (asm) pton_loop.simps) (auto split: list.splits if_splits)
  show ?thesis
  proof (cases "TOR_ISXDIGIT c")
    case True
    obtain v nxt where v: "strtol16 src = (v, nxt)" by fastforce
    have "pton_loop (tl nxt) (left - int (length src - length nxt) - 1) (ws @ [word_of_int v]) g = Some r"
      using assms True src v by (subst (asm) pton_loop.simps) (auto simp: Let_def split: if_splits)
    then show ?thesis by (intro disjI1 exI conjI) auto
  next
    case False
    with assms src have "pton_loop cs (left - 1) ws (Some (length ws)) = Some r \<or> pton_loop (tl cs) (left - 2) ws (Some (length ws)) = Some r"
      by (subst (asm) pton_loop.simps) (auto split: if_splits)
    then show ?thesis by (elim disjE) (intro disjI2 exI conjI; auto)+
  qed
qed

lemma pton_loop_gap:
  "pton_loop src left ws g = Some (ws', Some q) \<Longrightarrow> (\<forall>p. g = Some p \<longrightarrow> p \<le> length ws) \<Longrightarrow> q \<le> length ws'"
proof (induction "nat left" arbitrary: src left ws g rule: less_induct)
  case less
  show ?case
  proof (cases "left \<le> 0")
    case True
    with less.prems show ?thesis by (simp add: pton_done)
  next
    case False
    from pton_loop_step [OF less.prems(1)] False show ?thesis
      using less.hyps less.prems(2) by fastforce
  qed
qed

lemma pton6_total: "\<exists>r. tor_inet_pton6 src = OK r \<and> (\<forall>bs. r = Some bs \<longrightarrow> length bs = 16)"
proof -
  have bytes: "length (bytes_of_words ws) = 2 * length ws" for ws by (induction ws) auto
  have fill: "\<exists>r. fill_gap ws g quad = OK r \<and> (\<forall>ws'. r = Some ws' \<longrightarrow> length ws' = 8)"
    if "pton_loop src left [] None = Some (ws, g)" for left ws g quad
    using pton_loop_gap [of src left "[]" None ws] that by (auto simp: fill_gap_def Let_def split: option.splits)
  have "\<exists>e. words_end src = OK e" using scan_quad_total [of "drop (quad_start src) src"] by (auto simp: words_end_def)
  then obtain e where e: "words_end src = OK e" by blast
  show ?thesis
  proof (cases e)
    case (Some p)
    obtain eow quad where p: "p = (eow, quad)" by (cases p)
    show ?thesis
    proof (cases "pton_loop src (int eow) [] None")
      case (Some x)
      obtain ws g where x: "x = (ws, g)" by (cases x)
      obtain r where "fill_gap ws g quad = OK r" "\<forall>ws'. r = Some ws' \<longrightarrow> length ws' = 8" using fill Some x by blast
      with e \<open>e = Some p\<close> p x Some bytes show ?thesis by (auto simp: tor_inet_pton6_def)
    qed (use e Some p in \<open>simp add: tor_inet_pton6_def\<close>)
  qed (use e in \<open>simp add: tor_inet_pton6_def\<close>)
qed

lemma parse_address_part_ok:
  "\<exists>r. parse_address_part address = OK r \<and> (\<forall>any addr. r = Some (any, addr) \<longrightarrow> addr_ok addr \<and> addr \<noteq> AF_UNSPEC)"
proof -
  obtain r6 where "tor_inet_pton6 address = OK r6" "\<forall>bs. r6 = Some bs \<longrightarrow> length bs = 16" using pton6_total by blast
  moreover obtain r4 where "tor_inet_aton address = OK r4" using aton_total by blast
  ultimately show ?thesis by (auto simp: parse_address_part_def tor_inet_pton_def split: option.splits)
qed

lemma mask_get_bits_bound: "mask_get_bits_loop m i = r \<Longrightarrow> r \<le> 32"
  by (induction m i rule: mask_get_bits_loop.induct) (subst (asm) mask_get_bits_loop.simps, auto split: if_splits)

lemma mask_number_ok: "\<exists>r. mask_number v4 t = OK r \<and> (\<forall>bits. r = Some bits \<longrightarrow> 0 \<le> bits \<and> bits \<le> (if v4 then 32 else 128))"
proof -
  obtain m where m: "tor_inet_aton t = OK m" using aton_total by blast
  have b32: "addr_mask_get_bits x \<le> 32" for x using mask_get_bits_bound by (auto simp: addr_mask_get_bits_def)
  have "addr_mask_get_bits x \<le> 128" for x by (rule order_trans [OF b32]) simp
  with m b32 show ?thesis by (auto simp: mask_number_def Let_def split: prod.splits option.splits)
qed

lemma parse_mask_part_ok:
  "\<exists>r. parse_mask_part any addr t = OK r \<and> (\<forall>bits. r = Some bits \<longrightarrow> 0 \<le> bits \<and> bits \<le> (if is_inet6 addr then 128 else 32))"
proof (cases t)
  case (Some m)
  obtain r where r: "mask_number (\<not> is_inet6 addr) m = OK r" "\<forall>bits. r = Some bits \<longrightarrow> 0 \<le> bits \<and> bits \<le> (if is_inet6 addr then 128 else 32)"
    using mask_number_ok [of "\<not> is_inet6 addr" m] by (cases "is_inet6 addr") auto
  have "0 \<le> 96 + bits mod 32 \<and> 96 + bits mod 32 \<le> (128 :: int)" for bits using pos_mod_bound [of 32 bits] pos_mod_sign [of 32 bits] by simp
  with r Some show ?thesis by (cases "is_inet6 addr") (auto simp: parse_mask_part_def split: option.splits)
qed (simp add: parse_mask_part_def)

lemma tor_parse_long_bounds: "tor_parse_long s lo hi e = (True, v, rest) \<Longrightarrow> lo \<le> v \<and> v \<le> hi"
  by (auto simp: tor_parse_long_def Let_def split: prod.splits if_splits)

text \<open>
  A port range starts at 1 or later and is not empty, but for the single port 0, which becomes the range from 1 to 0.
\<close>

lemma port_word: "0 \<le> p \<Longrightarrow> p \<le> 65535 \<Longrightarrow> unat (word_of_int p :: u16) = nat p"
  by (simp add: unsigned_of_int take_bit_int_eq_self)

lemma parse_port_range_ok:
  assumes "parse_port_range port = Some (a, b)"
  shows "a \<noteq> 0 \<and> (a \<le> b \<or> a = 1 \<and> b = 0)"
proof -
  have range: "a \<noteq> 0 \<and> (a \<le> b \<or> a = 1 \<and> b = 0)"
    if "a = word_of_int (if lo < 1 then 1 else lo)" "b = word_of_int (if hi > 65535 then 65535 else hi)"
      "0 \<le> lo" "lo \<le> hi" "lo \<le> 65535" for lo hi
  proof -
    have "unat a = nat (if lo < 1 then 1 else lo)" "unat b = nat (if hi > 65535 then 65535 else hi)"
      using that port_word [of "if lo < 1 then 1 else lo"] port_word [of "if hi > 65535 then 65535 else hi"] by auto
    with that(3-5) show ?thesis
      by (auto simp: word_le_nat_alt word_unat_eq_iff split: if_splits)
  qed
  show ?thesis
  proof (cases "port = None \<or> port = Some [] \<or> port = Some [0x2A]")
    case True
    with assms have "a = word_of_int (if (1::int) < 1 then 1 else 1)" "b = word_of_int (if (65535::int) > 65535 then 65535 else 65535)"
      by (auto simp: parse_port_range_def)
    with range [of 1 65535] show ?thesis by simp
  next
    case False
    then obtain t where t: "port = Some t" "t \<noteq> []" "t \<noteq> [0x2A]" by (cases port) auto
    obtain ok lo rest where p: "tor_parse_long t 0 65535 False = (ok, lo, rest)" by (cases "tor_parse_long t 0 65535 False") auto
    with assms t have ok by (cases ok) (auto simp: parse_port_range_def)
    with p have lo: "0 \<le> lo" "lo \<le> 65535" using tor_parse_long_bounds by auto
    show ?thesis
    proof (cases "rest \<noteq> [] \<and> hd rest = 0x2D")
      case True
      obtain ok2 hi rest2 where "tor_parse_long (tl rest) 1 65536 False = (ok2, hi, rest2)" by (cases "tor_parse_long (tl rest) 1 65536 False") auto
      with assms t p \<open>ok\<close> True lo range [of lo hi] show ?thesis by (auto simp: parse_port_range_def Let_def split: if_splits)
    next
      case False
      with assms t p \<open>ok\<close> lo range [of lo lo] show ?thesis by (auto simp: parse_port_range_def Let_def split: if_splits)
    qed
  qed
qed

lemma parse_mask_ports_ok:
  "\<exists>r. tor_addr_parse_mask_ports s = OK r \<and> (\<forall>addr bits lo hi. r = Some (addr, bits, lo, hi) \<longrightarrow>
    addr_ok addr \<and> addr \<noteq> AF_UNSPEC \<and> unat bits \<le> (if is_inet6 addr then 128 else 32) \<and> lo \<noteq> 0 \<and> (lo \<le> hi \<or> lo = 1 \<and> hi = 0))"
proof -
  have small: "unat (word_of_int bits :: byte) \<le> m" if "0 \<le> bits" "bits \<le> int m" "m \<le> 128" for bits m
    using that by (simp add: unsigned_of_int take_bit_int_eq_self)
  have part: "\<exists>r. rbind (parse_address_part address) (\<lambda>a. case a of
            None \<Rightarrow> OK None
          | Some (any_flag, addr) \<Rightarrow>
              rbind (parse_mask_part any_flag addr t) (\<lambda>m. OK (case m of
                None \<Rightarrow> None
              | Some bits \<Rightarrow>
                  (case parse_port_range port of
                     None \<Rightarrow> None
                   | Some (port_min, port_max) \<Rightarrow> Some (addr, word_of_int bits, port_min, port_max))))) = OK r \<and>
      (\<forall>addr bits lo hi. r = Some (addr, bits :: byte, lo, hi) \<longrightarrow>
        addr_ok addr \<and> addr \<noteq> AF_UNSPEC \<and> unat bits \<le> (if is_inet6 addr then 128 else 32) \<and> lo \<noteq> 0 \<and> (lo \<le> hi \<or> lo = 1 \<and> hi = 0))"
    for address t port
  proof -
    obtain a where a: "parse_address_part address = OK a" "\<forall>any addr. a = Some (any, addr) \<longrightarrow> addr_ok addr \<and> addr \<noteq> AF_UNSPEC"
      using parse_address_part_ok by blast
    show ?thesis
    proof (cases a)
      case (Some x)
      obtain any addr where x: "x = (any, addr)" by (cases x)
      obtain m where m: "parse_mask_part any addr t = OK m" "\<forall>bits. m = Some bits \<longrightarrow> 0 \<le> bits \<and> bits \<le> (if is_inet6 addr then 128 else 32)"
        using parse_mask_part_ok by blast
      show ?thesis
      proof (cases "m = None \<or> parse_port_range port = None")
        case True
        with a m Some x show ?thesis by (auto split: option.splits)
      next
        case False
        then obtain bits lo hi where b: "m = Some bits" "parse_port_range port = Some (lo, hi)" by auto
        moreover have "unat (word_of_int bits :: byte) \<le> (if is_inet6 addr then 128 else 32)"
          using m(2) b(1) small [of bits "if is_inet6 addr then 128 else 32"] by (cases "is_inet6 addr") auto
        ultimately show ?thesis using a m Some x parse_port_range_ok [OF b(2)] by simp
      qed
    qed (simp add: a)
  qed
  show ?thesis
  proof (cases "length s > MAX_ADDRESS_LENGTH \<or> split_pattern s = None")
    case True
    then show ?thesis by (auto simp: tor_addr_parse_mask_ports_def)
  next
    case False
    then obtain address t port where "split_pattern s = Some (address, t, port)" by (cases "split_pattern s") auto
    with False part [of address t port] show ?thesis by (simp add: tor_addr_parse_mask_ports_def)
  qed
qed

subsection \<open>Names for reverse lookup\<close>

lemma strcasecmpend_append: "strcasecmpend (s @ e) e = 0"
  by (simp add: strcasecmpend_def Let_def strncasecmp_def strcasecmp_def)

lemma strcasecmpend_0: "strcasecmpend s e = 0 \<Longrightarrow> length e \<le> length s \<and> map TOR_TOLOWER (drop (length s - length e) s) = map TOR_TOLOWER e"
  by (auto simp: strcasecmpend_def Let_def strncasecmp_def strcasecmp_def dest: map_eq_imp_length_eq split: if_splits)

lemma arpa_texts:
  "in_addr_arpa = [0x2E, 0x69, 0x6E, 0x2D, 0x61, 0x64, 0x64, 0x72, 0x2E, 0x61, 0x72, 0x70, 0x61]"
  "ip6_arpa = [0x69, 0x70, 0x36, 0x2E, 0x61, 0x72, 0x70, 0x61]"
  by (simp_all add: in_addr_arpa_def ip6_arpa_def bytes_of_def of_char_def)

lemma arpa_lengths [simp]: "length in_addr_arpa = 13" "length ip6_arpa = 8"
  by (simp_all add: arpa_texts)

lemma not_in_addr_arpa: "strcasecmpend (s @ ip6_arpa) in_addr_arpa \<noteq> 0"
proof
  assume "strcasecmpend (s @ ip6_arpa) in_addr_arpa = 0"
  then have le: "5 \<le> length s" and eq: "map TOR_TOLOWER (drop (length s - 5) (s @ ip6_arpa)) = map TOR_TOLOWER in_addr_arpa"
    using strcasecmpend_0 [of "s @ ip6_arpa" in_addr_arpa] by simp_all
  have "map TOR_TOLOWER ip6_arpa = drop 5 (map TOR_TOLOWER (drop (length s - 5) (s @ ip6_arpa)))"
    using le by (simp add: drop_map)
  also have "\<dots> = drop 5 (map TOR_TOLOWER in_addr_arpa)" by (simp only: eq)
  finally have "TOR_TOLOWER 0x69 = TOR_TOLOWER 0x64" by (simp add: arpa_texts)
  then show False by (simp add: TOR_TOLOWER_eq TOR_ISUPPER_iff)
qed

lemma byte_masks: "(0xff :: u32) = mask 8" "(0xff00 :: u32) = push_bit 8 (mask 8)" "(0xff0000 :: u32) = push_bit 16 (mask 8)" "(0xff000000 :: u32) = push_bit 24 (mask 8)"
  by code_simp+

lemma bit_swap_bytes32:
  "n < 8 \<Longrightarrow> bit (swap_bytes32 v) n = bit v (n + 24)" "8 \<le> n \<Longrightarrow> n < 16 \<Longrightarrow> bit (swap_bytes32 v) n = bit v (n + 8)"
  "16 \<le> n \<Longrightarrow> n < 24 \<Longrightarrow> bit (swap_bytes32 v) n = bit v (n - 8)" "24 \<le> n \<Longrightarrow> n < 32 \<Longrightarrow> bit (swap_bytes32 v) n = bit v (n - 24)"
  unfolding swap_bytes32_def byte_masks by (auto simp: bit_simps add.commute)

lemma swap_octets:
  "swap_bytes32 (push_bit 24 (a AND 0xff) OR push_bit 16 (drop_bit 8 a AND 0xff) OR push_bit 8 (drop_bit 16 a AND 0xff) OR (drop_bit 24 a AND 0xff)) = (a :: u32)"
    (is "swap_bytes32 ?v = _")
proof (rule bit_word_eqI)
  fix n assume n: "n < LENGTH(32)"
  then consider "n < 8" | "8 \<le> n" "n < 16" | "16 \<le> n" "n < 24" | "24 \<le> n" "n < 32" by fastforce
  then show "bit (swap_bytes32 ?v) n = bit a n"
    unfolding byte_masks by cases (simp_all add: bit_swap_bytes32 bit_simps, auto)
qed

lemma hex_lower: "unat b < 16 \<Longrightarrow> hex_decode_digit (lower_hex b) = uint b"
  using hex_char [of "unat b"] by (simp add: lower_hex_def)

lemma nybble_less: "unat (b AND 0x0f :: byte) < 16" "unat (drop_bit 4 b :: byte) < 16"
proof -
  have "b AND 0x0f \<le> 0x0f" by (rule word_and_le1)
  then show "unat (b AND 0x0f) < 16" by (simp add: word_le_nat_alt)
  have "unat b < 256" using unsigned_less [of b] by simp
  then show "unat (drop_bit 4 b) < 16" by (simp add: unsigned_drop_bit_eq drop_bit_nat_def take_bit_nat_eq_self less_mult_imp_div_less)
qed

lemma nybbles_join:
  "word_of_int (hex_decode_digit (lower_hex (b AND 0x0f))) OR push_bit 4 (word_of_int (hex_decode_digit (lower_hex (drop_bit 4 b)))) = (b :: byte)"
proof -
  have m: "(0x0f :: byte) = mask 4" by (simp add: mask_eq_exp_minus_1)
  have "(b AND 0x0f) OR push_bit 4 (drop_bit 4 b) = b" unfolding m
    by (rule bit_word_eqI) (auto simp: bit_simps, metis le_add_diff_inverse not_less)
  then show ?thesis by (simp add: hex_lower nybble_less)
qed

lemma nybble_digits: "0 \<le> hex_decode_digit (lower_hex (b AND 0x0f))" "0 \<le> hex_decode_digit (lower_hex (drop_bit 4 b))"
  by (simp_all add: hex_lower nybble_less)

lemma nybble_loop_print:
  "nybble_loop (length xs) (Some (concat (map (\<lambda>b. [lower_hex (b AND 0x0f), 0x2E, lower_hex (drop_bit 4 b), 0x2E]) xs) @ rest)) acc =
    OK (Some (rev xs @ acc, Some rest))"
proof (induction xs arbitrary: acc)
  case (Cons x xs)
  then show ?case using nybbles_join [of x] nybble_digits [of x] by (simp add: next_char_def not_less)
qed simp

text \<open>
  The loop reads no byte behind the NUL of a name that does not end in a dot, as the comment in the code argues.
\<close>

lemma nybble_loop_safe:
  "s \<noteq> [] \<Longrightarrow> last s \<noteq> 0x2E \<Longrightarrow> \<exists>r. nybble_loop n (Some s) acc = OK r \<and> (\<forall>bs cp. r = Some (bs, cp) \<longrightarrow> cp \<noteq> None)"
proof (induction n arbitrary: s acc)
  case (Suc n)
  obtain c0 t where s: "s = c0 # t" using Suc.prems(1) by (cases s) auto
  show ?case
  proof (cases "t = [] \<or> hd t \<noteq> 0x2E")
    case True
    with s show ?thesis by (cases t) (auto simp: next_char_def)
  next
    case False
    then obtain t2 where t: "t = 0x2E # t2" by (cases t) auto
    with s Suc.prems obtain c1 t3 where t2: "t2 = c1 # t3" by (cases t2) auto
    show ?thesis
    proof (cases "t3 = [] \<or> hd t3 \<noteq> 0x2E")
      case True
      with s t t2 show ?thesis by (cases t3) (auto simp: next_char_def)
    next
      case dot: False
      then obtain t4 where t3: "t3 = 0x2E # t4" by (cases t3) auto
      with s t t2 Suc.prems have "t4 \<noteq> []" "last t4 \<noteq> 0x2E" by (auto split: if_splits)
      with Suc.IH s t t2 t3 show ?thesis by (simp add: next_char_def)
    qed
  qed
qed simp

lemma reverse_name_safe: "\<exists>r. tor_addr_parse_reverse_lookup_name address family regular = OK r"
proof (cases "strcasecmpend address in_addr_arpa = 0")
  case True
  then show ?thesis using aton_total [of "take (length address - length in_addr_arpa) address"]
    by (auto simp: tor_addr_parse_reverse_lookup_name_def Let_def)
next
  case no: False
  show ?thesis
  proof (cases "strcasecmpend address (0x2E # ip6_arpa) = 0")
    case True
    from strcasecmpend_0 [OF this] have len: "9 \<le> length address" and eq: "map TOR_TOLOWER (drop (length address - 9) address) = map TOR_TOLOWER (0x2E # ip6_arpa)"
      by simp_all
    have "last (map TOR_TOLOWER (drop (length address - 9) address)) = TOR_TOLOWER (last address)" using len by (subst last_map) auto
    then have "TOR_TOLOWER (last address) = 0x61" unfolding eq by (simp add: arpa_texts TOR_TOLOWER_eq TOR_ISUPPER_iff)
    then have "last address \<noteq> 0x2E" by (auto simp: TOR_TOLOWER_eq TOR_ISUPPER_iff)
    moreover have "address \<noteq> []" using len by auto
    ultimately obtain r where "nybble_loop 16 (Some address) [] = OK r" "\<forall>bs cp. r = Some (bs, cp) \<longrightarrow> cp \<noteq> None"
      using nybble_loop_safe by blast
    with no True show ?thesis by (auto simp: tor_addr_parse_reverse_lookup_name_def split: option.splits prod.splits)
  next
    case False
    obtain r6 where "tor_inet_pton6 s = OK (r6 s)" for s using pton6_total by metis
    moreover obtain r4 where "tor_inet_aton s = OK (r4 s)" for s using aton_total by metis
    ultimately have "\<exists>r. tor_addr_from_str address = OK r"
      by (auto simp: tor_addr_from_str_def tor_inet_pton_def Let_def split: option.splits)
    with no False show ?thesis by (auto simp: tor_addr_parse_reverse_lookup_name_def)
  qed
qed

lemma reverse_name_v4:
  "\<exists>name. tor_addr_to_reverse_lookup_name (AF_INET a) 73 = Some name \<and> tor_addr_parse_reverse_lookup_name name 0 False = OK (1, Some (AF_INET a))"
proof -
  let ?q = "quad_text (octet 0 a) (octet 8 a) (octet 16 a) (octet 24 a)"
  have "length (dec_digits (octet k a)) \<le> 3" for k using dec_digits_length [of "octet k a" 3] octet_less [of k a] by simp
  from this [of 24] this [of 16] this [of 8] this [of 0] have q: "length ?q \<le> 15" by (simp add: quad_text_def)
  have "tor_addr_to_reverse_lookup_name (AF_INET a) 73 = Some (?q @ in_addr_arpa)"
    using q by (simp add: tor_addr_to_reverse_lookup_name_def snprintf_fits_def quad_text_def dec_string_def octet_def arpa_texts)
  moreover have "tor_inet_aton ?q = OK (Some (push_bit 24 (a AND 0xff) OR push_bit 16 (drop_bit 8 a AND 0xff) OR push_bit 8 (drop_bit 16 a AND 0xff) OR (drop_bit 24 a AND 0xff)))"
    using scan_quad_text [OF octet_less octet_less octet_less octet_less, of 0 a 8 a 16 a 24 a] by (simp add: tor_inet_aton_def of_nat_octet)
  ultimately show ?thesis
    using q swap_octets [of a] by (simp add: tor_addr_parse_reverse_lookup_name_def strcasecmpend_append INET_NTOA_BUF_LEN_def)
qed

lemma reverse_name_v6:
  assumes "length bs = 16"
  shows "\<exists>name. tor_addr_to_reverse_lookup_name (AF_INET6 bs) 73 = Some name \<and> tor_addr_parse_reverse_lookup_name name 0 False = OK (1, Some (AF_INET6 bs))"
proof -
  let ?f = "\<lambda>b. [lower_hex (b AND 0x0f), 0x2E, lower_hex (drop_bit 4 b), 0x2E]"
  obtain b bs' where b: "bs = b # bs'" using assms by (cases bs) auto
  then have dot: "print_nybbles bs @ ip6_arpa = (concat (map ?f (rev bs')) @ [lower_hex (b AND 0x0f), 0x2E, lower_hex (drop_bit 4 b)]) @ 0x2E # ip6_arpa"
    by (simp add: print_nybbles_def)
  have "strcasecmpend (print_nybbles bs @ ip6_arpa) (0x2E # ip6_arpa) = 0" unfolding dot by (rule strcasecmpend_append)
  moreover have "nybble_loop 16 (Some (print_nybbles bs @ ip6_arpa)) [] = OK (Some (bs, Some ip6_arpa))"
    using nybble_loop_print [of "rev bs" ip6_arpa "[]"] assms by (simp add: print_nybbles_def)
  ultimately show ?thesis
    using not_in_addr_arpa [of "print_nybbles bs"]
    by (simp add: tor_addr_to_reverse_lookup_name_def REVERSE_LOOKUP_NAME_BUF_LEN_def tor_addr_parse_reverse_lookup_name_def strcasecmp_def)
qed

subsection \<open>Properties\<close>

text \<open>
  C18: the text of an address fits the buffers for addresses, with and without brackets, and \<^verbatim>\<open>tor_addr_from_str\<close> reads the
  address back, for IPv4 and for IPv6 with runs of zeros and embedded IPv4 addresses.
\<close>

theorem address_text_roundtrip:
  assumes "addr_ok addr" and "addr \<noteq> AF_UNSPEC"
  shows "\<exists>text. tor_addr_to_str addr TOR_ADDR_BUF_LEN decorate = Some text \<and> length text < TOR_ADDR_BUF_LEN \<and>
    tor_addr_from_str text = OK (Some addr)"
proof -
  have "length (print_quad a) \<le> 40" for a by (rule order_trans [OF print_quad_facts(1)]) simp
  then have "length (addr_text addr) \<le> 40" using assms pton6_print_v6(2) by (cases addr) auto
  then show ?thesis
    using addr_to_str [OF assms, of 48 decorate] from_str_addr_text [OF assms] by (auto simp: TOR_ADDR_BUF_LEN_def)
qed

text \<open>
  C19: \<^verbatim>\<open>tor_addr_parse_mask_ports\<close> returns for every string, without failing an assertion; an address it returns is of IPv4 or has the sixteen bytes of
  IPv6, the mask has at most 32 or 128 bits, and the ports are a range that starts at 1 or later, except that port 0 gives the range from 1 to 0.
\<close>

theorem address_pattern_well_formed:
  "\<exists>r. tor_addr_parse_mask_ports s = OK r \<and> (\<forall>addr bits lo hi. r = Some (addr, bits, lo, hi) \<longrightarrow>
    addr_ok addr \<and> addr \<noteq> AF_UNSPEC \<and> unat bits \<le> (if is_inet6 addr then 128 else 32) \<and> lo \<noteq> 0 \<and> (lo \<le> hi \<or> lo = 1 \<and> hi = 0))"
  by (rule parse_mask_ports_ok)

text \<open>
  C20: the name for the reverse lookup of an address is read back as the address, and the parser of such names reads no byte
  behind the end of any string.
\<close>

theorem reverse_name_roundtrip:
  "(\<exists>r. tor_addr_parse_reverse_lookup_name name family accept_regular = OK r) \<and>
   (addr_ok addr \<and> addr \<noteq> AF_UNSPEC \<longrightarrow>
     (\<exists>text. tor_addr_to_reverse_lookup_name addr REVERSE_LOOKUP_NAME_BUF_LEN = Some text \<and>
       tor_addr_parse_reverse_lookup_name text 0 False = OK (1, Some addr)))"
  using reverse_name_safe reverse_name_v4 reverse_name_v6 by (cases addr) (auto simp: REVERSE_LOOKUP_NAME_BUF_LEN_def)

subsection \<open>Witnesses\<close>

theorem address_text_roundtrip_witness:
  "\<exists>text. tor_addr_to_str (AF_INET6 (replicate 16 0)) TOR_ADDR_BUF_LEN True = Some text \<and> length text < TOR_ADDR_BUF_LEN \<and>
    tor_addr_from_str text = OK (Some (AF_INET6 (replicate 16 0)))"
  by (rule address_text_roundtrip) simp_all

lemma star_80: "tor_addr_parse_mask_ports [0x2A, 0x3A, 0x38, 0x30] = OK (Some (AF_INET 0, 0, 80, 80))"
  by (simp add: tor_addr_parse_mask_ports_def MAX_ADDRESS_LENGTH_def TOR_ADDR_BUF_LEN_def INET_NTOA_BUF_LEN_def split_pattern_def
      split_first_def parse_address_part_def parse_mask_part_def parse_port_range_def tor_parse_long_def strtol10_def split_sign_def
      TOR_ISSPACE_iff TOR_ISDIGIT_iff dec_val_def digit_val_def long_clamp_def Let_def)

theorem address_pattern_well_formed_witness:
  "tor_addr_parse_mask_ports [0x2A, 0x3A, 0x38, 0x30] = OK (Some (AF_INET 0, 0, 80, 80)) \<and> addr_ok (AF_INET 0) \<and>
    unat (0 :: byte) \<le> (if is_inet6 (AF_INET 0) then 128 else 32)"
  using address_pattern_well_formed [of "[0x2A, 0x3A, 0x38, 0x30]"] star_80 by auto

theorem reverse_name_roundtrip_witness:
  "\<exists>text. tor_addr_to_reverse_lookup_name (AF_INET 0x7F000001) REVERSE_LOOKUP_NAME_BUF_LEN = Some text \<and>
    tor_addr_parse_reverse_lookup_name text 0 False = OK (1, Some (AF_INET 0x7F000001))"
  using reverse_name_roundtrip [of "[]" 0 False "AF_INET 0x7F000001"] by simp

end
