(* ===== verification/PolicySummary.thy ===== *)
theory PolicySummary
  imports Policies SmartStrings AddrText
begin

section \<open>Summaries of exit policies (policies.c)\<close>

text \<open>
  The summary of an exit policy that directory authorities publish: which ports a router lets most addresses reach.
\<close>

record policy_summary_item =
  ps_prt_min :: u16
  ps_prt_max :: u16
  ps_reject_count :: u64
  ps_accepted :: bool

definition policy_summary_create :: "policy_summary_item list" where
  "policy_summary_create = [\<lparr>ps_prt_min = 1, ps_prt_max = 65535, ps_reject_count = 0, ps_accepted = False\<rparr>]"

definition policy_summary_item_split ::
  "policy_summary_item \<Rightarrow> u16 \<Rightarrow> (policy_summary_item \<times> policy_summary_item) res" where
  "policy_summary_item_split old new_starts =
     (let new = \<lparr>ps_prt_min = new_starts, ps_prt_max = ps_prt_max old, ps_reject_count = ps_reject_count old, ps_accepted = ps_accepted old\<rparr>;
          old1 = old\<lparr>ps_prt_max := new_starts - 1\<rparr>
      in tor_assert (ps_prt_min old1 \<le> ps_prt_max old1) (tor_assert (ps_prt_min new \<le> ps_prt_max new) (OK (old1, new))))"

definition REJECT_CUTOFF_COUNT :: u64 where "REJECT_CUTOFF_COUNT = 2 ^ 25"

text \<open>The search for the item that ends at or after a port.  Running off the list reads behind the array.\<close>

function seek_port :: "policy_summary_item list \<Rightarrow> u16 \<Rightarrow> nat \<Rightarrow> nat res" where
  "seek_port summary port i =
     (if i < length summary then (if ps_prt_max (summary ! i) < port then seek_port summary port (i + 1) else OK i)
      else Fault Mem_Fault)"
  by auto
termination by (relation "measure (\<lambda>(summary, _, i). length summary - i)") auto

declare seek_port.simps [simp del]

definition split_at :: "policy_summary_item list \<Rightarrow> nat \<Rightarrow> u16 \<Rightarrow> policy_summary_item list res" where
  "split_at summary i new_starts =
     rbind (policy_summary_item_split (summary ! i) new_starts) (\<lambda>(old, new).
       OK (take i summary @ [old, new] @ drop (i + 1) summary))"

definition policy_summary_split :: "policy_summary_item list \<Rightarrow> u16 \<Rightarrow> u16 \<Rightarrow> (policy_summary_item list \<times> nat) res" where
  "policy_summary_split summary prt_min prt_max =
     rbind (seek_port summary prt_min 0) (\<lambda>i.
     rbind (if ps_prt_min (summary ! i) \<noteq> prt_min
            then rbind (split_at summary i prt_min) (\<lambda>summary1. OK (summary1, i + 1))
            else OK (summary, i)) (\<lambda>(summary1, start_at_index).
     rbind (seek_port summary1 prt_max start_at_index) (\<lambda>j.
     rbind (if ps_prt_max (summary1 ! j) \<noteq> prt_max then split_at summary1 j (prt_max + 1) else OK summary1) (\<lambda>summary2.
       OK (summary2, start_at_index)))))"

text \<open>The loops of \<^verbatim>\<open>policy_summary_accept\<close> and \<^verbatim>\<open>policy_summary_reject\<close> over the items of a port range, with the check at their end.\<close>

function change_items ::
  "(policy_summary_item \<Rightarrow> policy_summary_item) \<Rightarrow> u16 \<Rightarrow> nat \<Rightarrow> policy_summary_item list \<Rightarrow> policy_summary_item list res" where
  "change_items f prt_max i summary =
     (if i < length summary \<and> ps_prt_max (summary ! i) \<le> prt_max
      then change_items f prt_max (i + 1) (summary[i := f (summary ! i)])
      else tor_assert (i < length summary \<or> prt_max = 65535) (OK summary))"
  by auto
termination by (relation "measure (\<lambda>(_, _, i, summary). length summary - i)") auto

declare change_items.simps [simp del]

definition accept_item :: "policy_summary_item \<Rightarrow> policy_summary_item" where
  "accept_item it = (if \<not> ps_accepted it \<and> ps_reject_count it \<le> REJECT_CUTOFF_COUNT then it\<lparr>ps_accepted := True\<rparr> else it)"

definition policy_summary_accept :: "policy_summary_item list \<Rightarrow> u16 \<Rightarrow> u16 \<Rightarrow> policy_summary_item list res" where
  "policy_summary_accept summary prt_min prt_max =
     rbind (policy_summary_split summary prt_min prt_max) (\<lambda>(summary1, i). change_items accept_item prt_max i summary1)"

text \<open>A rule with more than 32 mask bits, as one for an IPv6 network has, shifts by a negative count.\<close>

definition policy_summary_reject :: "policy_summary_item list \<Rightarrow> byte \<Rightarrow> u16 \<Rightarrow> u16 \<Rightarrow> policy_summary_item list res" where
  "policy_summary_reject summary maskbits prt_min prt_max =
     rbind (policy_summary_split summary prt_min prt_max) (\<lambda>(summary1, i).
       if unat maskbits > 32 then Fault Int_Overflow
       else change_items (\<lambda>it. it\<lparr>ps_reject_count := ps_reject_count it + push_bit (32 - unat maskbits) 1\<rparr>) prt_max i summary1)"

fun names_private_net :: "(tor_addr \<times> byte) list \<Rightarrow> addr_policy \<Rightarrow> bool res" where
  "names_private_net [] p = OK False"
| "names_private_net ((addr, maskbits) # nets) p =
     rbind (tor_addr_compare (ap_addr p) addr CMP_EXACT) (\<lambda>r.
       if r = 0 \<and> ap_maskbits p = maskbits then OK True else names_private_net nets p)"

definition policy_summary_add_item :: "policy_summary_item list \<Rightarrow> addr_policy \<Rightarrow> policy_summary_item list res" where
  "policy_summary_add_item summary p = (case ap_policy_type p of
     ADDR_POLICY_ACCEPT \<Rightarrow>
       if ap_maskbits p = 0 then policy_summary_accept summary (ap_prt_min p) (ap_prt_max p) else OK summary
   | ADDR_POLICY_REJECT \<Rightarrow>
       rbind (names_private_net private_nets p) (\<lambda>is_private.
         if \<not> is_private then policy_summary_reject summary (ap_maskbits p) (ap_prt_min p) (ap_prt_max p) else OK summary))"

fun policy_summary_add_all :: "policy_summary_item list \<Rightarrow> addr_policy list \<Rightarrow> policy_summary_item list res" where
  "policy_summary_add_all summary [] = OK summary"
| "policy_summary_add_all summary (p # ps) = rbind (policy_summary_add_item summary p) (\<lambda>s. policy_summary_add_all s ps)"

text \<open>
  The loop of \<^verbatim>\<open>policy_summarize\<close> that merges neighbouring items: for each range its first port, last port and whether it is accepted.
\<close>

fun merge_items :: "u16 \<Rightarrow> policy_summary_item list \<Rightarrow> (u16 \<times> u16 \<times> bool) list res" where
  "merge_items start_prt [] = Fault Mem_Fault"
| "merge_items start_prt [it] = OK [(start_prt, ps_prt_max it, ps_accepted it)]"
| "merge_items start_prt (it # nxt # its) =
     (if ps_accepted it \<noteq> ps_accepted nxt
      then rbind (merge_items (ps_prt_min nxt) (nxt # its)) (\<lambda>r. OK ((start_prt, ps_prt_max it, ps_accepted it) # r))
      else merge_items start_prt (nxt # its))"

definition print_range :: "u16 \<Rightarrow> u16 \<Rightarrow> byte list" where
  "print_range a b = (if a = b then dec_string (uint a) else dec_string (uint a) @ [0x2D] @ dec_string (uint b))"

definition print_ranges :: "bool \<Rightarrow> (u16 \<times> u16 \<times> bool) list \<Rightarrow> byte list list" where
  "print_ranges acc rs = map (\<lambda>(a, b, _). print_range a b) (filter (\<lambda>(_, _, c). c = acc) rs)"

definition MAX_EXITPOLICY_SUMMARY_LEN :: nat where "MAX_EXITPOLICY_SUMMARY_LEN = 1000"

definition accept_text :: "byte list" where "accept_text = [0x61, 0x63, 0x63, 0x65, 0x70, 0x74]"
definition reject_text :: "byte list" where "reject_text = [0x72, 0x65, 0x6A, 0x65, 0x63, 0x74]"
definition all_ports_text :: "byte list" where "all_ports_text = [0x20, 0x31, 0x2D, 0x36, 0x35, 0x35, 0x33, 0x35]"

text \<open>
  Cutting a long list of ranges at the last comma that leaves it short enough.  Without a comma the search reads before the string.
\<close>

definition cut_at_comma :: "byte list \<Rightarrow> nat \<Rightarrow> byte list res" where
  "cut_at_comma str pos =
     (if pos \<ge> length str then Fault Mem_Fault
      else let front = rev (dropWhile (\<lambda>c. c \<noteq> 0x2C) (rev (take (pos + 1) str))) in
        if front = [] then Fault Mem_Fault else OK (butlast front))"

definition policy_summarize :: "addr_policy list \<Rightarrow> byte list res" where
  "policy_summarize policy =
     rbind (policy_summary_add_all policy_summary_create policy) (\<lambda>summary.
     rbind (merge_items 1 summary) (\<lambda>ranges.
       let accepts = print_ranges True ranges; rejects = print_ranges False ranges in
       if accepts = [] then OK (reject_text @ all_ports_text)
       else if rejects = [] then OK (accept_text @ all_ports_text)
       else
         rbind (smartlist_join_strings \<lparr>sl_list = accepts, sl_capacity = length accepts\<rparr> [0x2C] False) (\<lambda>(accepts_str, accepts_len).
         rbind (smartlist_join_strings \<lparr>sl_list = rejects, sl_capacity = length rejects\<rparr> [0x2C] False) (\<lambda>(rejects_str, rejects_len).
         rbind
          (if rejects_len > MAX_EXITPOLICY_SUMMARY_LEN \<and> accepts_len > MAX_EXITPOLICY_SUMMARY_LEN
           then rbind (cut_at_comma accepts_str (MAX_EXITPOLICY_SUMMARY_LEN - length accept_text - 1)) (\<lambda>c. OK (accept_text, c))
           else if rejects_len < accepts_len then OK (reject_text, rejects_str)
           else OK (accept_text, accepts_str)) (\<lambda>(pre, shorter_str).
         tor_assert (length pre + 1 + length shorter_str + 1 \<le> MAX_EXITPOLICY_SUMMARY_LEN + 1)
          (OK (pre @ [0x20] @ shorter_str)))))))"

subsection \<open>The ports of a summary\<close>

text \<open>The items of a list follow each other without gaps from one port to before another.\<close>

fun ports_from :: "nat \<Rightarrow> policy_summary_item list \<Rightarrow> nat \<Rightarrow> bool" where
  "ports_from lo [] hi \<longleftrightarrow> lo = hi"
| "ports_from lo (it # its) hi \<longleftrightarrow>
     unat (ps_prt_min it) = lo \<and> lo \<le> unat (ps_prt_max it) \<and> ports_from (unat (ps_prt_max it) + 1) its hi"

lemma ports_from_append: "ports_from lo (xs @ ys) hi \<longleftrightarrow> (\<exists>m. ports_from lo xs m \<and> ports_from m ys hi)"
  by (induction xs arbitrary: lo) auto

lemma ports_from_le: "ports_from lo s hi \<Longrightarrow> lo \<le> hi"
  by (induction s arbitrary: lo) force+

lemma ports_from_bounds:
  "ports_from lo s hi \<Longrightarrow> it \<in> set s \<Longrightarrow> lo \<le> unat (ps_prt_min it) \<and> ps_prt_min it \<le> ps_prt_max it \<and> unat (ps_prt_max it) < hi"
proof (induction s arbitrary: lo)
  case (Cons i s)
  then have "ports_from (unat (ps_prt_max i) + 1) s hi" by simp
  with ports_from_le Cons show ?case by (fastforce simp: word_le_nat_alt)
qed simp

lemma ports_from_map:
  assumes "\<And>it. ps_prt_min (f it) = ps_prt_min it" and "\<And>it. ps_prt_max (f it) = ps_prt_max it"
  shows "ports_from lo (map f s) hi \<longleftrightarrow> ports_from lo s hi"
  by (induction s arbitrary: lo) (simp_all add: assms)

lemma unat_port [simp]: "unat (p :: u16) < 65536"
  using unsigned_less [of p] by simp

lemma port_eqI: "unat (p :: u16) = unat q \<longleftrightarrow> p = q"
  by (simp add: word_unat_eq_iff)

text \<open>Some item holds a port that lies in the list.\<close>

lemma ports_from_find:
  assumes "ports_from lo s hi" and "lo \<le> unat port" and "unat port < hi"
  obtains xs it ys where "s = xs @ it # ys" and "\<forall>x\<in>set xs. ps_prt_max x < port" and "ps_prt_min it \<le> port" and "port \<le> ps_prt_max it"
  using assms
proof (induction s arbitrary: lo thesis)
  case (Cons it s)
  show ?case
  proof (cases "port \<le> ps_prt_max it")
    case True
    with Cons.prems(1) [of "[]" it s] Cons.prems(2,3) show ?thesis by (simp add: word_le_nat_alt)
  next
    case False
    then have lt: "ps_prt_max it < port" by simp
    then have "unat (ps_prt_max it) + 1 \<le> unat port" by (simp add: word_less_nat_alt)
    from Cons.IH [OF _ _ this Cons.prems(4)] Cons.prems(2) obtain xs it' ys
      where "s = xs @ it' # ys" "\<forall>x\<in>set xs. ps_prt_max x < port" "ps_prt_min it' \<le> port" "port \<le> ps_prt_max it'" by auto
    with lt Cons.prems(1) [of "it # xs" it' ys] show ?thesis by simp
  qed
qed simp

lemma seek_port_ok:
  assumes "\<forall>x\<in>set ys. ps_prt_max x < port" and "port \<le> ps_prt_max it"
  shows "seek_port (xs @ ys @ it # zs) port (length xs) = OK (length xs + length ys)"
  using assms(1)
proof (induction ys arbitrary: xs)
  case Nil
  with assms(2) show ?case by (subst seek_port.simps) (simp add: leD)
next
  case (Cons y ys)
  then have "seek_port (xs @ (y # ys) @ it # zs) port (length xs) = seek_port ((xs @ [y]) @ ys @ it # zs) port (length (xs @ [y]))"
    by (subst seek_port.simps) (simp add: nth_append)
  also have "\<dots> = OK (length (xs @ [y]) + length ys)" using Cons.prems by (intro Cons.IH) simp
  finally show ?case by simp
qed

text \<open>A summary of what each port gets.\<close>

definition summarizes :: "(u16 \<Rightarrow> u64 \<times> bool) \<Rightarrow> policy_summary_item list \<Rightarrow> bool" where
  "summarizes g s \<longleftrightarrow> ports_from 1 s 65536 \<and>
     (\<forall>it\<in>set s. \<forall>port. ps_prt_min it \<le> port \<and> port \<le> ps_prt_max it \<longrightarrow> g port = (ps_reject_count it, ps_accepted it))"

definition split_items :: "policy_summary_item \<Rightarrow> u16 \<Rightarrow> policy_summary_item list" where
  "split_items it p = [it\<lparr>ps_prt_max := p - 1\<rparr>, it\<lparr>ps_prt_min := p\<rparr>]"

lemma unat_pred: "(q :: u16) < p \<Longrightarrow> unat (p - 1) = unat p - 1"
  by (rule unat_minus_one) auto

lemma split_at_ok:
  assumes "ps_prt_min it < p" and "p \<le> ps_prt_max it"
  shows "split_at (xs @ it # ys) (length xs) p = OK (xs @ split_items it p @ ys)"
proof -
  have "ps_prt_min it \<le> p - 1"
    using assms(1) unat_pred [OF assms(1)] by (simp add: word_le_nat_alt word_less_nat_alt)
  with assms(2) show ?thesis
    by (simp add: split_at_def policy_summary_item_split_def Let_def split_items_def)
qed

lemma split_items_ports:
  assumes "ps_prt_min it < p" and "p \<le> ps_prt_max it"
  shows "ports_from lo (split_items it p) hi \<longleftrightarrow> ports_from lo [it] hi"
    and "ports_from lo [it\<lparr>ps_prt_max := p - 1\<rparr>] (unat p) \<longleftrightarrow> unat (ps_prt_min it) = lo"
  using assms unat_pred [OF assms(1)] by (auto simp: split_items_def word_less_nat_alt word_le_nat_alt)

lemma split_items_summarizes:
  assumes "ps_prt_min it < p" and "p \<le> ps_prt_max it" and "summarizes g (xs @ it # ys)"
  shows "summarizes g (xs @ split_items it p @ ys)"
proof -
  have ports: "ports_from 1 (xs @ split_items it p @ ys) 65536"
    using assms(3) split_items_ports(1) [OF assms(1,2)] ports_from_append [of _ "[it]" ys]
    by (auto simp: summarizes_def ports_from_append)
  have "p - 1 \<le> p" using unat_pred [OF assms(1)] by (simp add: word_le_nat_alt)
  moreover have g: "g port = (ps_reject_count it, ps_accepted it)" if "ps_prt_min it \<le> port" "port \<le> ps_prt_max it" for port
    using assms(3) that by (simp add: summarizes_def)
  ultimately have "\<forall>i\<in>set (split_items it p). \<forall>port. ps_prt_min i \<le> port \<and> port \<le> ps_prt_max i \<longrightarrow> g port = (ps_reject_count i, ps_accepted i)"
    using assms(1,2) by (auto simp: split_items_def)
  with ports assms(3) show ?thesis by (auto simp: summarizes_def)
qed

text \<open>The first half of \<^verbatim>\<open>policy_summary_split\<close> makes an item start at a port, the second half makes one end at a port.\<close>

lemma split_start:
  assumes "summarizes g s" and "port \<noteq> 0"
  obtains xs it ys where "seek_port s port 0 = OK (length xs)" and "s = xs @ it # ys"
    and "ps_prt_min it = port \<Longrightarrow> ports_from 1 xs (unat port) \<and> ports_from (unat port) (it # ys) 65536"
    and "ps_prt_min it \<noteq> port \<Longrightarrow>
      split_at s (length xs) port = OK (xs @ split_items it port @ ys) \<and> summarizes g (xs @ split_items it port @ ys) \<and>
      ports_from 1 (xs @ [it\<lparr>ps_prt_max := port - 1\<rparr>]) (unat port) \<and>
      ports_from (unat port) (it\<lparr>ps_prt_min := port\<rparr> # ys) 65536"
proof -
  have s: "ports_from 1 s 65536" using assms(1) by (simp add: summarizes_def)
  have "1 \<le> unat port" using assms(2) by (simp add: port_pos word_le_nat_alt)
  with s obtain xs it ys where eq: "s = xs @ it # ys" and xs: "\<forall>x\<in>set xs. ps_prt_max x < port"
    and it: "ps_prt_min it \<le> port" "port \<le> ps_prt_max it" using ports_from_find [OF _ _ unat_port] by metis
  from s eq have ports: "ports_from 1 xs (unat (ps_prt_min it))" "ports_from (unat (ps_prt_min it)) (it # ys) 65536"
    by (auto simp: ports_from_append)
  show thesis
  proof
    show "seek_port s port 0 = OK (length xs)" using seek_port_ok [OF xs it(2), of "[]" ys] eq by simp
    show "s = xs @ it # ys" by (rule eq)
    show "ports_from 1 xs (unat port) \<and> ports_from (unat port) (it # ys) 65536" if "ps_prt_min it = port" using ports that by simp
    assume "ps_prt_min it \<noteq> port"
    with it have lt: "ps_prt_min it < port" by simp
    show "split_at s (length xs) port = OK (xs @ split_items it port @ ys) \<and> summarizes g (xs @ split_items it port @ ys) \<and>
        ports_from 1 (xs @ [it\<lparr>ps_prt_max := port - 1\<rparr>]) (unat port) \<and> ports_from (unat port) (it\<lparr>ps_prt_min := port\<rparr> # ys) 65536"
      using split_at_ok [OF lt it(2)] split_items_summarizes [OF lt it(2)] assms(1) ports split_items_ports(2) [OF lt it(2)] it(2)
      unfolding eq ports_from_append by (auto simp: word_le_nat_alt)
  qed
qed

lemma split_end:
  assumes "summarizes g (xs @ ys)" and "ports_from lo ys 65536" and "lo \<le> unat port"
  shows "\<exists>j us it vs. seek_port (xs @ ys) port (length xs) = OK j \<and> (xs @ ys) ! j = it \<and>
    (if ps_prt_max it \<noteq> port then split_at (xs @ ys) j (port + 1) else OK (xs @ ys)) = OK (xs @ us @ vs) \<and>
    summarizes g (xs @ us @ vs) \<and> ports_from lo us (unat port + 1) \<and> ports_from (unat port + 1) vs 65536"
proof -
  from ports_from_find [OF assms(2,3)] obtain us it vs where eq: "ys = us @ it # vs" and us: "\<forall>x\<in>set us. ps_prt_max x < port"
    and it: "ps_prt_min it \<le> port" "port \<le> ps_prt_max it" by auto
  have seek: "seek_port (xs @ ys) port (length xs) = OK (length xs + length us)"
    using seek_port_ok [OF us it(2), of xs vs] eq by simp
  have nth: "(xs @ ys) ! (length xs + length us) = it" using eq by (simp add: nth_append)
  from assms(2) eq have ports: "ports_from lo us (unat (ps_prt_min it))" "ports_from (unat (ps_prt_min it)) (it # vs) 65536"
    by (auto simp: ports_from_append)
  show ?thesis
  proof (cases "ps_prt_max it = port")
    case True
    have "ports_from lo (us @ [it]) (unat port + 1)" using ports True by (auto simp: ports_from_append)
    moreover have "ports_from (unat port + 1) vs 65536" using ports True by simp
    ultimately show ?thesis using seek nth True assms(1) eq
      by (intro exI [of _ "length xs + length us"] exI [of _ "us @ [it]"] exI [of _ it] exI [of _ vs]) simp
  next
    case False
    with it(2) have lt: "port < ps_prt_max it" by simp
    then have "unat port + 1 < 65536" using unat_port [of "ps_prt_max it"] unfolding word_less_nat_alt by linarith
    then have suc: "unat (port + 1) = unat port + 1" by (simp add: unat_word_ariths)
    have le: "ps_prt_min it < port + 1" "port + 1 \<le> ps_prt_max it"
      using it(1) lt suc by (simp_all add: word_less_nat_alt word_le_nat_alt)
    have "split_at (xs @ ys) (length xs + length us) (port + 1) = OK (xs @ (us @ [it\<lparr>ps_prt_max := port\<rparr>]) @ it\<lparr>ps_prt_min := port + 1\<rparr> # vs)"
      using split_at_ok [OF le, of "xs @ us" vs] eq by (simp add: split_items_def)
    moreover have "summarizes g (xs @ (us @ [it\<lparr>ps_prt_max := port\<rparr>]) @ it\<lparr>ps_prt_min := port + 1\<rparr> # vs)"
      using split_items_summarizes [OF le, of g "xs @ us" vs] assms(1) eq by (simp add: split_items_def)
    moreover have "ports_from lo (us @ [it\<lparr>ps_prt_max := port\<rparr>]) (unat port + 1)"
      using ports it(1) by (auto simp: ports_from_append word_le_nat_alt)
    moreover have "ports_from (unat port + 1) (it\<lparr>ps_prt_min := port + 1\<rparr> # vs) 65536"
      using ports(2) suc le(2) by (simp add: word_le_nat_alt)
    ultimately show ?thesis using seek nth False
      by (intro exI [of _ "length xs + length us"] exI [of _ "us @ [it\<lparr>ps_prt_max := port\<rparr>]"] exI [of _ it]
          exI [of _ "it\<lparr>ps_prt_min := port + 1\<rparr> # vs"]) simp
  qed
qed

lemma policy_summary_split_ok:
  assumes "summarizes g s" and "a \<noteq> 0" and "a \<le> b"
  obtains xs ys zs where "policy_summary_split s a b = OK (xs @ ys @ zs, length xs)" and "summarizes g (xs @ ys @ zs)"
    and "ports_from 1 xs (unat a)" and "ports_from (unat a) ys (unat b + 1)" and "ports_from (unat b + 1) zs 65536"
proof -
  obtain xs it ys where first: "seek_port s a 0 = OK (length xs)" "s = xs @ it # ys"
    "ps_prt_min it = a \<Longrightarrow> ports_from 1 xs (unat a) \<and> ports_from (unat a) (it # ys) 65536"
    "ps_prt_min it \<noteq> a \<Longrightarrow> split_at s (length xs) a = OK (xs @ split_items it a @ ys) \<and> summarizes g (xs @ split_items it a @ ys) \<and>
      ports_from 1 (xs @ [it\<lparr>ps_prt_max := a - 1\<rparr>]) (unat a) \<and> ports_from (unat a) (it\<lparr>ps_prt_min := a\<rparr> # ys) 65536"
    using split_start [OF assms(1,2)] by blast
  obtain xs' ys' where mid: "(if ps_prt_min (s ! length xs) \<noteq> a then rbind (split_at s (length xs) a) (\<lambda>s1. OK (s1, length xs + 1))
      else OK (s, length xs)) = OK (xs' @ ys', length xs')"
    and g: "summarizes g (xs' @ ys')" "ports_from 1 xs' (unat a)" "ports_from (unat a) ys' 65536"
  proof (cases "ps_prt_min it = a")
    case True
    with first assms(1) that [of xs "it # ys"] show ?thesis by simp
  next
    case False
    with first that [of "xs @ [it\<lparr>ps_prt_max := a - 1\<rparr>]" "it\<lparr>ps_prt_min := a\<rparr> # ys"] show ?thesis by (simp add: split_items_def)
  qed
  have "unat a \<le> unat b" using assms(3) by (simp add: word_le_nat_alt)
  from split_end [OF g(1,3) this] obtain j us vs where fin: "seek_port (xs' @ ys') b (length xs') = OK j"
    "(if ps_prt_max ((xs' @ ys') ! j) \<noteq> b then split_at (xs' @ ys') j (b + 1) else OK (xs' @ ys')) = OK (xs' @ us @ vs)"
    "summarizes g (xs' @ us @ vs)" "ports_from (unat a) us (unat b + 1)" "ports_from (unat b + 1) vs 65536" by auto
  show thesis
  proof
    show "policy_summary_split s a b = OK (xs' @ us @ vs, length xs')"
      unfolding policy_summary_split_def first(1) rbind.simps mid prod.case fin(1,2) ..
  qed (use fin g in auto)
qed

lemma change_items_ok:
  "ports_from lo ys (unat b + 1) \<Longrightarrow> ports_from (unat b + 1) zs 65536 \<Longrightarrow>
    change_items f b (length xs) (xs @ ys @ zs) = OK (xs @ map f ys @ zs)"
proof (induction ys arbitrary: xs lo)
  case Nil
  show ?case
  proof (cases zs)
    case (Cons z zs')
    with Nil have "\<not> ps_prt_max z \<le> b" by (simp add: word_le_nat_alt)
    with Cons show ?thesis by (subst change_items.simps) simp
  next
    case Nil
    with \<open>ports_from (unat b + 1) zs 65536\<close> have "b = 65535" using port_eqI [of b 65535] by simp
    with Nil show ?thesis by (subst change_items.simps) simp
  qed
next
  case (Cons y ys)
  from Cons.prems(1) have "y \<in> set (y # ys) \<Longrightarrow> unat (ps_prt_max y) < unat b + 1" using ports_from_bounds by blast
  then have "ps_prt_max y \<le> b" by (simp add: word_le_nat_alt)
  then have "change_items f b (length xs) (xs @ (y # ys) @ zs) = change_items f b (length (xs @ [f y])) ((xs @ [f y]) @ ys @ zs)"
    by (subst change_items.simps) (simp add: nth_append)
  also have "\<dots> = OK ((xs @ [f y]) @ map f ys @ zs)" using Cons by (intro Cons.IH) auto
  finally show ?case by simp
qed

text \<open>Splitting and changing the items of a range changes what the ports of the range get.\<close>

lemma range_changed:
  assumes g: "summarizes g s" and "a \<noteq> 0" and "a \<le> b"
    and f: "\<And>it. ps_prt_min (f it) = ps_prt_min it" "\<And>it. ps_prt_max (f it) = ps_prt_max it"
    and h: "\<And>port it. a \<le> port \<Longrightarrow> port \<le> b \<Longrightarrow> g port = (ps_reject_count it, ps_accepted it) \<Longrightarrow>
      h port = (ps_reject_count (f it), ps_accepted (f it))"
    and other: "\<And>port. \<not> (a \<le> port \<and> port \<le> b) \<Longrightarrow> h port = g port"
  shows "\<exists>s'. rbind (policy_summary_split s a b) (\<lambda>(s1, i). change_items f b i s1) = OK s' \<and> summarizes h s'"
proof -
  obtain xs ys zs where split: "policy_summary_split s a b = OK (xs @ ys @ zs, length xs)" "summarizes g (xs @ ys @ zs)"
    and p: "ports_from 1 xs (unat a)" "ports_from (unat a) ys (unat b + 1)" "ports_from (unat b + 1) zs 65536"
    by (rule policy_summary_split_ok [OF assms(1-3)])
  have "ports_from 1 (xs @ map f ys @ zs) 65536" using p ports_from_map [OF f] by (auto simp: ports_from_append)
  moreover have "h port = (ps_reject_count it, ps_accepted it)"
    if it: "it \<in> set (xs @ map f ys @ zs)" and port: "ps_prt_min it \<le> port" "port \<le> ps_prt_max it" for it port
  proof -
    have same: "h port = (ps_reject_count it, ps_accepted it)" if "it \<in> set xs \<union> set zs"
    proof -
      have "\<not> (a \<le> port \<and> port \<le> b)"
        using that ports_from_bounds [OF p(1), of it] ports_from_bounds [OF p(3), of it] port by (auto simp: word_le_nat_alt)
      with other [OF this] split(2) that port show ?thesis by (auto simp: summarizes_def)
    qed
    show ?thesis
    proof (cases "it \<in> set xs \<union> set zs")
      case False
      with it obtain y where y: "y \<in> set ys" "it = f y" by auto
      then have "g port = (ps_reject_count y, ps_accepted y)" using split(2) port f by (simp add: summarizes_def)
      moreover have "a \<le> port" "port \<le> b"
        using ports_from_bounds [OF p(2) y(1)] port f y(2) by (auto simp: word_le_nat_alt)
      ultimately show ?thesis using h y(2) by simp
    qed (use same in simp)
  qed
  ultimately have "summarizes h (xs @ map f ys @ zs)" unfolding summarizes_def by blast
  with change_items_ok [OF p(2,3)] split(1) show ?thesis by simp
qed

text \<open>
  What a rule does to the count of rejected addresses and to the acceptance of one port: the specification of a summary.
\<close>

definition port_step :: "u16 \<Rightarrow> addr_policy \<Rightarrow> u64 \<times> bool \<Rightarrow> u64 \<times> bool" where
  "port_step port p st =
     (if \<not> port_hits port p then st
      else case ap_policy_type p of
        ADDR_POLICY_ACCEPT \<Rightarrow> (fst st, snd st \<or> ap_maskbits p = 0 \<and> fst st \<le> REJECT_CUTOFF_COUNT)
      | ADDR_POLICY_REJECT \<Rightarrow>
          if (ap_addr p, ap_maskbits p) \<in> set private_nets then st else (fst st + 2 ^ (32 - unat (ap_maskbits p)), snd st))"

definition port_summary :: "addr_policy list \<Rightarrow> u16 \<Rightarrow> u64 \<times> bool" where
  "port_summary ps port = fold (port_step port) ps (0, False)"

text \<open>
  Rules that can be summarized: at most 32 mask bits, and ports from 1 on in order.  Descriptors can have
  others: a rule for an IPv6 network with more mask bits shifts by a negative count, and one for the port 0 fails an assertion.
\<close>

definition summary_rule :: "addr_policy \<Rightarrow> bool" where
  "summary_rule p \<longleftrightarrow> rule_ok p \<and> unat (ap_maskbits p) \<le> 32 \<and> ap_prt_min p \<noteq> 0 \<and> ap_prt_min p \<le> ap_prt_max p"

lemma names_private_net_ok:
  "\<forall>(addr, bits) \<in> set nets. addr_ok addr \<Longrightarrow> rule_ok p \<Longrightarrow>
    names_private_net nets p = OK ((ap_addr p, ap_maskbits p) \<in> set nets)"
proof (induction nets p rule: names_private_net.induct)
  case (2 addr maskbits nets p)
  then obtain r where "tor_addr_compare (ap_addr p) addr CMP_EXACT = OK r" "r = 0 \<longleftrightarrow> ap_addr p = addr"
    using compare_eq [of "ap_addr p" addr] by (auto simp: rule_ok_def)
  with 2 show ?case by auto
qed simp

lemma add_item_ok:
  assumes "summary_rule p" and "summarizes g s"
  shows "\<exists>s'. policy_summary_add_item s p = OK s' \<and> summarizes (\<lambda>port. port_step port p (g port)) s'"
proof (cases "ap_policy_type p")
  case ADDR_POLICY_ACCEPT
  show ?thesis
  proof (cases "ap_maskbits p = 0")
    case True
    have "\<exists>s'. rbind (policy_summary_split s (ap_prt_min p) (ap_prt_max p)) (\<lambda>(s1, i). change_items accept_item (ap_prt_max p) i s1) = OK s' \<and>
        summarizes (\<lambda>port. port_step port p (g port)) s'"
      using assms ADDR_POLICY_ACCEPT True
      by (intro range_changed) (auto simp: summary_rule_def accept_item_def port_step_def port_hits_def)
    with ADDR_POLICY_ACCEPT True show ?thesis by (simp add: policy_summary_add_item_def policy_summary_accept_def)
  next
    case False
    with ADDR_POLICY_ACCEPT have "(\<lambda>port. port_step port p (g port)) = g" by (auto simp: port_step_def fun_eq_iff)
    with ADDR_POLICY_ACCEPT False assms(2) show ?thesis by (simp add: policy_summary_add_item_def)
  qed
next
  case ADDR_POLICY_REJECT
  have nets: "names_private_net private_nets p = OK ((ap_addr p, ap_maskbits p) \<in> set private_nets)"
    using private_nets_ok assms(1) by (intro names_private_net_ok) (auto simp: summary_rule_def)
  show ?thesis
  proof (cases "(ap_addr p, ap_maskbits p) \<in> set private_nets")
    case True
    then have "(\<lambda>port. port_step port p (g port)) = g" using ADDR_POLICY_REJECT by (auto simp: port_step_def fun_eq_iff)
    with ADDR_POLICY_REJECT True assms(2) nets show ?thesis by (simp add: policy_summary_add_item_def)
  next
    case False
    let ?f = "\<lambda>it. it\<lparr>ps_reject_count := ps_reject_count it + push_bit (32 - unat (ap_maskbits p)) 1\<rparr>"
    have "\<exists>s'. rbind (policy_summary_split s (ap_prt_min p) (ap_prt_max p)) (\<lambda>(s1, i). change_items ?f (ap_prt_max p) i s1) = OK s' \<and>
        summarizes (\<lambda>port. port_step port p (g port)) s'"
      using assms ADDR_POLICY_REJECT False
      by (intro range_changed) (auto simp: summary_rule_def port_step_def port_hits_def push_bit_eq_mult)
    with ADDR_POLICY_REJECT False assms(1) nets show ?thesis
      by (simp add: policy_summary_add_item_def policy_summary_reject_def summary_rule_def)
  qed
qed

lemma create_summarizes: "summarizes (\<lambda>port. (0, False)) policy_summary_create"
  by (simp add: summarizes_def policy_summary_create_def)

lemma add_all_ok:
  "list_all summary_rule ps \<Longrightarrow> summarizes g s \<Longrightarrow>
    \<exists>s'. policy_summary_add_all s ps = OK s' \<and> summarizes (\<lambda>port. fold (port_step port) ps (g port)) s'"
proof (induction ps arbitrary: s g)
  case (Cons p ps)
  then obtain s' where "policy_summary_add_item s p = OK s'" "summarizes (\<lambda>port. port_step port p (g port)) s'"
    using add_item_ok [of p g s] by auto
  with Cons.IH [OF _ this(2)] Cons.prems(1) show ?case by auto
qed simp

lemma add_all_create:
  "list_all summary_rule ps \<Longrightarrow> \<exists>s. policy_summary_add_all policy_summary_create ps = OK s \<and> summarizes (port_summary ps) s"
  using add_all_ok [OF _ create_summarizes, of ps] unfolding port_summary_def .

subsection \<open>Merging and printing ranges\<close>

fun ranges_from :: "nat \<Rightarrow> (u16 \<times> u16 \<times> bool) list \<Rightarrow> nat \<Rightarrow> bool" where
  "ranges_from lo [] hi \<longleftrightarrow> lo = hi"
| "ranges_from lo ((a, b, _) # rs) hi \<longleftrightarrow> unat a = lo \<and> lo \<le> unat b \<and> ranges_from (unat b + 1) rs hi"

definition says :: "(u16 \<Rightarrow> bool) \<Rightarrow> u16 \<times> u16 \<times> bool \<Rightarrow> bool" where
  "says acc r \<longleftrightarrow> (\<forall>port. fst r \<le> port \<and> port \<le> fst (snd r) \<longrightarrow> acc port = snd (snd r))"

lemma merge_items_ok:
  assumes "ports_from lo s hi" and "s \<noteq> []" and "unat start \<le> lo"
    and "\<forall>it\<in>set s. says acc (ps_prt_min it, ps_prt_max it, ps_accepted it)"
    and "says acc (start, ps_prt_max (hd s), ps_accepted (hd s))"
  shows "\<exists>rs. merge_items start s = OK rs \<and> ranges_from (unat start) rs hi \<and> rs \<noteq> [] \<and> snd (snd (hd rs)) = ps_accepted (hd s) \<and>
    distinct_adj (map (\<lambda>r. snd (snd r)) rs) \<and> (\<forall>r\<in>set rs. says acc r)"
  using assms
proof (induction start s arbitrary: lo rule: merge_items.induct)
  case (3 start it nxt its)
  have nxt: "ports_from (unat (ps_prt_max it) + 1) (nxt # its) hi" "unat (ps_prt_min nxt) = unat (ps_prt_max it) + 1"
    using 3(3) by simp_all
  show ?case
  proof (cases "ps_accepted it = ps_accepted nxt")
    case True
    have "says acc (start, ps_prt_max nxt, ps_accepted nxt)"
      unfolding says_def fst_conv snd_conv
    proof (intro allI impI)
      fix port assume p: "start \<le> port \<and> port \<le> ps_prt_max nxt"
      show "acc port = ps_accepted nxt"
      proof (cases "port \<le> ps_prt_max it")
        case False
        then have "ps_prt_min nxt \<le> port" using nxt(2) by (simp add: word_le_nat_alt)
        with p 3(6) show ?thesis by (simp add: says_def)
      qed (use p 3(7) True in \<open>auto simp: says_def\<close>)
    qed
    with True 3(2) [OF _ nxt(1)] 3(3,5,6) show ?thesis by (simp add: word_le_nat_alt)
  next
    case False
    with 3(1) [OF _ nxt(1)] nxt(2) 3(6) obtain rs where rs: "merge_items (ps_prt_min nxt) (nxt # its) = OK rs"
      "ranges_from (unat (ps_prt_min nxt)) rs hi" "rs \<noteq> []" "snd (snd (hd rs)) = ps_accepted nxt"
      "distinct_adj (map (\<lambda>r. snd (snd r)) rs)" "\<forall>r\<in>set rs. says acc r" by auto
    with False nxt(2) 3(3,5,7) show ?thesis by (cases rs) (auto simp: word_le_nat_alt)
  qed
qed auto

lemma summary_ranges:
  assumes "summarizes g s"
  shows "\<exists>rs. merge_items 1 s = OK rs \<and> ranges_from 1 rs 65536 \<and> distinct_adj (map (\<lambda>r. snd (snd r)) rs) \<and> (\<forall>r\<in>set rs. says (\<lambda>port. snd (g port)) r)"
proof -
  have "s \<noteq> []" using assms by (auto simp: summarizes_def)
  then obtain it its where s: "s = it # its" by (cases s) auto
  with assms have one: "ps_prt_min it = 1" using port_eqI [of "ps_prt_min it" 1] by (simp add: summarizes_def)
  have says: "\<forall>i\<in>set s. says (\<lambda>port. snd (g port)) (ps_prt_min i, ps_prt_max i, ps_accepted i)"
    using assms by (simp add: summarizes_def says_def)
  then have "says (\<lambda>port. snd (g port)) (1, ps_prt_max (hd s), ps_accepted (hd s))" using s one by (metis list.sel(1) list.set_intros(1))
  with merge_items_ok [of 1 s 65536 1 "\<lambda>port. snd (g port)"] says assms \<open>s \<noteq> []\<close> show ?thesis by (auto simp: summarizes_def)
qed

lemma dec_digits_comma: "0x2C \<notin> set (dec_digits n)"
  using dec_digits_digits(1) [of n] by (auto simp: list_all_iff TOR_ISDIGIT_iff)

lemma print_range_text: "length (print_range a b) \<le> 11" "0x2C \<notin> set (print_range a b)"
proof -
  have "length (dec_string (uint p)) \<le> 5" for p :: u16
    using dec_digits_length [of "unat p" 5] unat_port [of p] by (simp add: dec_string_def del: unat_port)
  from this [of a] this [of b] show "length (print_range a b) \<le> 11" by (simp add: print_range_def)
  show "0x2C \<notin> set (print_range a b)" by (simp add: print_range_def dec_string_def dec_digits_comma)
qed

subsection \<open>Cutting a list of ranges\<close>

lemma join_copy_split:
  "0 < k \<Longrightarrow> k < length ss \<Longrightarrow> join_copy j ss = join_copy j (take k ss) @ j @ join_copy j (drop k ss)"
proof (induction j ss arbitrary: k rule: join_copy.induct)
  case (3 j s t ss)
  then show ?case
  proof (cases "k = 1")
    case False
    with 3 obtain k' where "k = Suc k'" "0 < k'" "k' < length (t # ss)" by (cases k) auto
    moreover from this obtain u us where "take k' (t # ss) = u # us" by (cases k') auto
    ultimately show ?thesis using 3(1) [of k'] by simp
  qed simp
qed auto

lemma join_copy_first: "ss \<noteq> [] \<Longrightarrow> \<exists>rest. join_copy j ss = hd ss @ rest"
  by (cases "(j, ss)" rule: join_copy.cases) auto

lemma cut_at_comma_eq:
  assumes "length c \<le> pos" and "pos < length (c @ [0x2C] @ d)" and "0x2C \<notin> set (take (pos - length c) d)"
  shows "cut_at_comma (c @ [0x2C] @ d) pos = OK c"
proof -
  have "take (pos + 1) (c @ [0x2C] @ d) = c @ [0x2C] @ take (pos - length c) d"
    using assms(1) by (simp add: take_Cons' Suc_diff_le)
  moreover have "dropWhile (\<lambda>x. x \<noteq> 0x2C) (rev (take (pos - length c) d) @ 0x2C # rev c) = 0x2C # rev c"
    using assms(3) by (subst dropWhile_append2) auto
  ultimately show ?thesis using assms(2) by (simp add: cut_at_comma_def Let_def)
qed

lemma cut_at_comma_join:
  assumes "ss \<noteq> []" and "\<forall>x\<in>set ss. 0x2C \<notin> set x" and "length (hd ss) \<le> n" and "n < length (join_copy [0x2C] ss)"
  shows "\<exists>k. 0 < k \<and> k < length ss \<and> cut_at_comma (join_copy [0x2C] ss) n = OK (join_copy [0x2C] (take k ss)) \<and>
    length (join_copy [0x2C] (take k ss)) \<le> n \<and> n < length (join_copy [0x2C] (take (k + 1) ss))"
proof -
  let ?len = "\<lambda>k. length (join_copy [0x2C] (take k ss))"
  define m where "m = (LEAST k. n < ?len k)"
  have "n < ?len (length ss)" using assms(4) by simp
  then have m: "n < ?len m" "m \<le> length ss" unfolding m_def by (rule LeastI, rule Least_le)
  have before: "?len k \<le> n" if "k < m" for k using not_less_Least that unfolding m_def by fastforce
  have "?len 0 = 0" "?len 1 \<le> n" using assms(1,3) by (cases ss; simp)+
  then have "m \<noteq> 0" "m \<noteq> 1" using m(1) by (metis not_less0, metis not_less)
  then obtain k where k: "m = k + 1" "0 < k" by (cases m) auto
  then have kl: "k < length ss" using m(2) by simp
  let ?c = "join_copy [0x2C] (take k ss)" and ?d = "join_copy [0x2C] (drop k ss)"
  have eq: "join_copy [0x2C] ss = ?c @ [0x2C] @ ?d" by (rule join_copy_split [OF k(2) kl])
  have "take (k + 1) ss = take k ss @ [ss ! k]" using kl by (simp add: take_Suc_conv_app_nth)
  with join_copy_split [of k "take (k + 1) ss" "[0x2C]"] k(2) kl
  have "join_copy [0x2C] (take (k + 1) ss) = ?c @ [0x2C] @ ss ! k" by (simp add: min_def)
  with m(1) k(1) have long: "n - length ?c \<le> length (ss ! k)" by simp
  obtain rest where "?d = ss ! k @ rest" using join_copy_first [of "drop k ss" "[0x2C]"] kl by (auto simp: hd_drop_conv_nth)
  with long have "set (take (n - length ?c) ?d) \<subseteq> set (ss ! k)" by (simp add: set_take_subset)
  then have "0x2C \<notin> set (take (n - length ?c) ?d)" using assms(2) kl nth_mem by blast
  then have "cut_at_comma (join_copy [0x2C] ss) n = OK ?c"
    unfolding eq using before [of k] k(1) assms(4) eq by (intro cut_at_comma_eq) auto
  with k kl before [of k] m(1) show ?thesis by auto
qed

subsection \<open>Properties\<close>

text \<open>
  C13: adding the rules of a policy to a fresh summary fails no assertion and reads no item outside the list; the items
  of the result divide the ports from 1 to 65535 between them, and each item has the count and the acceptance that every one of its ports gets from
  the rules one after the other.
\<close>

theorem summary_refines_ports:
  assumes "list_all summary_rule policy"
  shows "\<exists>s. policy_summary_add_all policy_summary_create policy = OK s \<and> ports_from 1 s 65536 \<and>
    (\<forall>it\<in>set s. \<forall>port. ps_prt_min it \<le> port \<and> port \<le> ps_prt_max it \<longrightarrow> port_summary policy port = (ps_reject_count it, ps_accepted it))"
  using add_all_create [OF assms] by (simp add: summarizes_def)

text \<open>The text for lists of accepted and rejected ranges.\<close>

definition summary_text :: "byte list list \<Rightarrow> byte list list \<Rightarrow> byte list res \<Rightarrow> bool" where
  "summary_text accepts rejects res \<longleftrightarrow>
     (let a = join_copy [0x2C] accepts; r = join_copy [0x2C] rejects in
      if accepts = [] then res = OK (reject_text @ all_ports_text)
      else if rejects = [] then res = OK (accept_text @ all_ports_text)
      else if length r > 1000 \<and> length a > 1000 then
        (\<exists>k. 0 < k \<and> k < length accepts \<and> res = OK (accept_text @ [0x20] @ join_copy [0x2C] (take k accepts)) \<and>
          length (accept_text @ [0x20] @ join_copy [0x2C] (take k accepts)) \<le> 1000 \<and>
          1000 < length (accept_text @ [0x20] @ join_copy [0x2C] (take (k + 1) accepts)))
      else if min (length r) (length a) > 993 then res = Fault Assert_Fail
      else res = OK (if length r < length a then reject_text @ [0x20] @ r else accept_text @ [0x20] @ a))"

lemma print_ranges_text: "x \<in> set (print_ranges b rs) \<Longrightarrow> length x \<le> 11 \<and> 0x2C \<notin> set x"
  using print_range_text by (auto simp: print_ranges_def)

lemma policy_summarize_ranges:
  assumes "policy_summary_add_all policy_summary_create policy = OK s" and "merge_items 1 s = OK rs"
  shows "summary_text (print_ranges True rs) (print_ranges False rs) (policy_summarize policy)"
proof -
  let ?A = "print_ranges True rs" and ?R = "print_ranges False rs"
  let ?a = "join_copy [0x2C] ?A" and ?r = "join_copy [0x2C] ?R"
  have texts: "length accept_text = 6" "length reject_text = 6" by (simp_all add: accept_text_def reject_text_def)
  note unfold = policy_summarize_def assms rbind.simps join_strings_ok Let_def policy_summary_item.simps smartlist.simps prod.case if_False append_Nil2
  show ?thesis
  proof (cases "?A = [] \<or> ?R = []")
    case True
    then show ?thesis by (auto simp: summary_text_def policy_summarize_def assms Let_def)
  next
    case False
    show ?thesis
    proof (cases "length ?r > 1000 \<and> length ?a > 1000")
      case True
      have "length (hd ?A) \<le> 993" using print_ranges_text [of "hd ?A" True rs] False by simp
      with cut_at_comma_join [of ?A 993] print_ranges_text True False obtain k where k: "0 < k" "k < length ?A"
        "cut_at_comma ?a 993 = OK (join_copy [0x2C] (take k ?A))" "length (join_copy [0x2C] (take k ?A)) \<le> 993"
        "993 < length (join_copy [0x2C] (take (k + 1) ?A))" by auto
      then have "policy_summarize policy = OK (accept_text @ [0x20] @ join_copy [0x2C] (take k ?A))"
        using False True texts by (simp add: unfold MAX_EXITPOLICY_SUMMARY_LEN_def)
      with k True False texts show ?thesis unfolding summary_text_def Let_def by auto
    next
      case short: False
      with False texts show ?thesis
        by (auto simp: summary_text_def unfold MAX_EXITPOLICY_SUMMARY_LEN_def min_def)
    qed
  qed
qed

text \<open>
  C12: the text of a summary comes from ranges that divide the ports from 1 to 65535, neighbours differ, and each says whether its
  ports are accepted.  If all ports are of one kind, the text says so (\<^verbatim>\<open>reject 1-65535\<close> when none is accepted).  If both lists of ranges have more than 1000
  characters, the accepted ranges are printed, as many as fit in 1000 characters.  Otherwise the shorter list is printed, the accepted one
  on a tie, if it has at most 993 characters; if it has 994 to 1000, the assertion on the length of the text fails.
\<close>

theorem policy_summarize_text:
  assumes "list_all summary_rule policy"
  shows "\<exists>rs. ranges_from 1 rs 65536 \<and> distinct_adj (map (\<lambda>r. snd (snd r)) rs) \<and>
    (\<forall>r\<in>set rs. says (\<lambda>port. snd (port_summary policy port)) r) \<and>
    summary_text (print_ranges True rs) (print_ranges False rs) (policy_summarize policy)"
proof -
  obtain s where s: "policy_summary_add_all policy_summary_create policy = OK s" "summarizes (port_summary policy) s"
    using add_all_create [OF assms] by blast
  from summary_ranges [OF s(2)] obtain rs where "merge_items 1 s = OK rs" "ranges_from 1 rs 65536"
    "distinct_adj (map (\<lambda>r. snd (snd r)) rs)" "\<forall>r\<in>set rs. says (\<lambda>port. snd (port_summary policy port)) r" by blast
  with policy_summarize_ranges [OF s(1)] show ?thesis by blast
qed

subsection \<open>Witnesses\<close>

text \<open>accept *:80, reject *:*\<close>

definition web_policy :: "addr_policy list" where
  "web_policy =
    [\<lparr>ap_policy_type = ADDR_POLICY_ACCEPT, ap_is_private = False, ap_maskbits = 0, ap_addr = AF_INET 0, ap_prt_min = 80, ap_prt_max = 80\<rparr>,
     \<lparr>ap_policy_type = ADDR_POLICY_REJECT, ap_is_private = False, ap_maskbits = 0, ap_addr = AF_INET 0, ap_prt_min = 1, ap_prt_max = 65535\<rparr>]"

lemma web_policy_ok: "list_all summary_rule web_policy"
  by (simp add: web_policy_def summary_rule_def rule_ok_def)

lemma web_policy_80: "port_summary web_policy 80 = (2 ^ 32, True)" "snd (port_summary web_policy 81) = False"
  by (simp_all add: port_summary_def web_policy_def port_step_def port_hits_def private_nets_def REJECT_CUTOFF_COUNT_def)

theorem summary_refines_ports_witness:
  "\<exists>s. policy_summary_add_all policy_summary_create web_policy = OK s \<and> ports_from 1 s 65536 \<and>
    (\<exists>it\<in>set s. ps_prt_min it \<le> 80 \<and> 80 \<le> ps_prt_max it \<and> ps_reject_count it = 2 ^ 32 \<and> ps_accepted it)"
proof -
  obtain s where s: "policy_summary_add_all policy_summary_create web_policy = OK s" "ports_from 1 s 65536"
    "\<forall>it\<in>set s. \<forall>port. ps_prt_min it \<le> port \<and> port \<le> ps_prt_max it \<longrightarrow> port_summary web_policy port = (ps_reject_count it, ps_accepted it)"
    using summary_refines_ports [OF web_policy_ok] by blast
  have "1 \<le> unat (80 :: u16)" "unat (80 :: u16) < 65536" by simp_all
  from ports_from_find [OF s(2) this] obtain xs it ys where it: "s = xs @ it # ys" "ps_prt_min it \<le> 80" "80 \<le> ps_prt_max it"
    by metis
  then have "it \<in> set s" by simp
  with s(3) it(2,3) web_policy_80(1) have "ps_reject_count it = 2 ^ 32 \<and> ps_accepted it" by (metis prod.inject)
  with s(1,2) it(2,3) \<open>it \<in> set s\<close> show ?thesis by blast
qed

theorem policy_summarize_text_witness:
  "\<exists>rs. ranges_from 1 rs 65536 \<and> distinct_adj (map (\<lambda>r. snd (snd r)) rs) \<and>
    summary_text (print_ranges True rs) (print_ranges False rs) (policy_summarize web_policy)"
  using policy_summarize_text [OF web_policy_ok] by blast

end
