(* ===== verification/PolicyText.thy ===== *)
theory PolicyText
  imports PolicySummary AddrText
begin

section \<open>Exit policies as text (policies.c, routerparse.c)\<close>

text \<open>
  Writing a rule, reading the rules of a router descriptor, and what becomes of them in the summary of the descriptor's policy.
  Tokens come from the tokenizer of \<^verbatim>\<open>routerparse.c\<close>, which is not modelled.
\<close>

definition POLICY_BUF_LEN :: nat where "POLICY_BUF_LEN = 52"

definition private_text :: "byte list" where
  "private_text = bytes_of ''private''"

text \<open>The address of a rule; for an address of no family the code uses a buffer that was never written.\<close>

definition write_addr_part :: "addr_policy \<Rightarrow> byte list res" where
  "write_addr_part p =
     (if ap_is_private p then OK private_text
      else if ap_maskbits p = 0 then OK [0x2A]
      else case tor_addr_to_str (ap_addr p) TOR_ADDR_BUF_LEN True of None \<Rightarrow> Fault Mem_Fault | Some t \<Rightarrow> OK t)"

definition write_mask_part :: "nat \<Rightarrow> addr_policy \<Rightarrow> byte list option" where
  "write_mask_part room p =
     (if ap_maskbits p < 32 \<and> ap_maskbits p > 0 then snprintf_fits room ([0x2F] @ dec_string (uint (ap_maskbits p))) else Some [])"

definition write_port_part :: "nat \<Rightarrow> addr_policy \<Rightarrow> byte list option" where
  "write_port_part room p =
     (if ap_prt_min p \<le> 1 \<and> ap_prt_max p = 65535 then (if room < 4 then None else Some [0x3A, 0x2A])
      else if ap_prt_min p = ap_prt_max p then snprintf_fits room ([0x3A] @ dec_string (uint (ap_prt_min p)))
      else snprintf_fits room ([0x3A] @ dec_string (uint (ap_prt_min p)) @ [0x2D] @ dec_string (uint (ap_prt_max p))))"

definition policy_write_item :: "nat \<Rightarrow> addr_policy \<Rightarrow> bool \<Rightarrow> byte list option res" where
  "policy_write_item buflen p format_for_desc =
     rbind (write_addr_part p) (\<lambda>addrpart.
       let six = is_inet6 (ap_addr p) \<and> format_for_desc;
           front = (if six then bytes_of ''opt '' else []) @
             (if ap_policy_type p = ADDR_POLICY_ACCEPT then accept_text else reject_text) @
             (if six then [0x36] else []) @ [0x20] @ addrpart
       in OK (case snprintf_fits buflen front of
            None \<Rightarrow> None
          | Some buf1 \<Rightarrow>
              (case write_mask_part (buflen - length buf1) p of
                 None \<Rightarrow> None
               | Some masktext \<Rightarrow>
                   (let written = length buf1 + length masktext in
                    case write_port_part (buflen - written) p of
                      None \<Rightarrow> None
                    | Some ports \<Rightarrow> if written + length ports < buflen then Some (buf1 @ masktext @ ports) else None))))"

subsection \<open>Reading rules\<close>

text \<open>The keywords of policy lines; \<open>K_OTHER\<close> stands for every other keyword.\<close>

datatype directory_keyword = K_ACCEPT | K_ACCEPT6 | K_REJECT | K_REJECT6 | K_OTHER

record directory_token =
  tok_tp :: directory_keyword
  tok_args :: "byte list list"

definition keyword_action :: "directory_keyword \<Rightarrow> addr_policy_action" where
  "keyword_action tp = (if tp = K_REJECT \<or> tp = K_REJECT6 then ADDR_POLICY_REJECT else ADDR_POLICY_ACCEPT)"

definition router_parse_addr_policy_private :: "directory_token \<Rightarrow> addr_policy option" where
  "router_parse_addr_policy_private tok =
     (let arg = tok_args tok ! 0 in
      if strcmpstart arg private_text \<noteq> 0 then None
      else let rest = eat_whitespace (drop (length private_text) arg) in
        if rest = [] \<or> hd rest \<noteq> 0x3A then None
        else case parse_port_range (Some (tl rest)) of
          None \<Rightarrow> None
        | Some (port_min, port_max) \<Rightarrow>
            Some \<lparr>ap_policy_type = keyword_action (tok_tp tok), ap_is_private = True, ap_maskbits = 0, ap_addr = AF_UNSPEC,
                  ap_prt_min = port_min, ap_prt_max = port_max\<rparr>)"

definition router_parse_addr_policy :: "directory_token \<Rightarrow> addr_policy option res" where
  "router_parse_addr_policy tok =
     tor_assert (tok_tp tok \<noteq> K_OTHER)
      (if length (tok_args tok) \<noteq> 1 then OK None
       else let arg = tok_args tok ! 0 in
         if strcmpstart arg private_text = 0 then OK (router_parse_addr_policy_private tok)
         else rbind (tor_addr_parse_mask_ports arg) (\<lambda>r. OK (case r of
             None \<Rightarrow> None
           | Some (addr, maskbits, prt_min, prt_max) \<Rightarrow>
               Some \<lparr>ap_policy_type = keyword_action (tok_tp tok), ap_is_private = False, ap_maskbits = maskbits, ap_addr = addr,
                     ap_prt_min = prt_min, ap_prt_max = prt_max\<rparr>)))"

text \<open>The policy with the new rule, or None if it is malformed.\<close>

definition router_add_exit_policy :: "addr_policy list \<Rightarrow> directory_token \<Rightarrow> addr_policy list option res" where
  "router_add_exit_policy exit_policy tok =
     rbind (router_parse_addr_policy tok) (\<lambda>r. OK (case r of
       None \<Rightarrow> None
     | Some newe \<Rightarrow>
         if (tok_tp tok = K_ACCEPT6 \<or> tok_tp tok = K_REJECT6) \<and> tor_addr_family (ap_addr newe) = 2 \<or>
            (tok_tp tok = K_ACCEPT \<or> tok_tp tok = K_REJECT) \<and> tor_addr_family (ap_addr newe) = 10
         then None else Some (exit_policy @ [newe])))"

fun add_exit_policies :: "addr_policy list \<Rightarrow> directory_token list \<Rightarrow> addr_policy list option res" where
  "add_exit_policies policy [] = OK (Some policy)"
| "add_exit_policies policy (t # ts) =
     rbind (router_add_exit_policy policy t) (\<lambda>r. case r of None \<Rightarrow> OK None | Some policy' \<Rightarrow> add_exit_policies policy' ts)"

text \<open>The exit policy of a descriptor, as \<^verbatim>\<open>router_parse_entry_from_string\<close> builds it.\<close>

definition read_exit_policy :: "directory_token list \<Rightarrow> addr_policy list option res" where
  "read_exit_policy exit_policy_tokens =
     (if exit_policy_tokens = [] then OK None
      else rbind (add_exit_policies [] exit_policy_tokens) (\<lambda>r. OK (map_option policy_expand_private r)))"

subsection \<open>Reading what was written\<close>

definition port_text :: "u16 \<Rightarrow> u16 \<Rightarrow> byte list" where
  "port_text lo hi = (if lo \<le> 1 \<and> hi = 65535 then [0x2A] else if lo = hi then dec_digits (unat lo) else dec_digits (unat lo) @ [0x2D] @ dec_digits (unat hi))"

lemma tor_parse_long_dec:
  assumes "n < 10 ^ 18" and "ends_digits rest" and "lo \<le> int n" and "int n \<le> hi"
  shows "tor_parse_long (dec_digits n @ rest) lo hi False = (True, int n, rest)"
  using strtol10_dec_digits [OF assms(1,2)] dec_digits_digits(2) [of n] assms(3,4) by (simp add: tor_parse_long_def)

lemma dec_digits_not_star: "dec_digits n @ rest \<noteq> [0x2A]"
  using dec_digits_digits [of n] by (cases "dec_digits n") (auto simp: TOR_ISDIGIT_iff)

lemma parse_port_text:
  assumes "lo \<noteq> 0" and "lo \<le> hi"
  shows "parse_port_range (Some (port_text lo hi)) = Some (lo, hi)"
proof -
  have lt: "unat p < 10 ^ 18" for p :: u16 by (rule order_less_trans [OF unat_port]) simp
  have le: "int (unat p) \<le> 65535" for p :: u16 using uint_bounded [of p] by simp
  have nat: "1 \<le> unat lo" "unat lo \<le> unat hi" using assms by (auto simp: port_pos word_le_nat_alt)
  have "int 1 \<le> int (unat lo)" "int (unat lo) \<le> int (unat hi)" using nat by (simp_all only: of_nat_le_iff)
  then have pos: "1 \<le> uint lo" "uint lo \<le> uint hi" "1 \<le> uint hi" "uint lo \<le> 65535" "uint hi \<le> 65535"
    using le [of lo] le [of hi] by simp_all
  show ?thesis
  proof (cases "lo \<le> 1 \<and> hi = 65535")
    case True
    then have "lo = 1" using assms(1) by (metis antisym port_pos)
    with True show ?thesis by (simp add: port_text_def parse_port_range_def)
  next
    case False
    show ?thesis
    proof (cases "lo = hi")
      case True
      have "tor_parse_long (dec_digits (unat lo)) 0 65535 False = (True, int (unat lo), [])"
        using tor_parse_long_dec [of "unat lo" "[]" 0 65535] lt le by simp
      moreover have "dec_digits (unat lo) \<noteq> [0x2A]" using dec_digits_not_star [of "unat lo" "[]"] by simp
      ultimately show ?thesis
        using False True pos dec_digits_digits(2) [of "unat lo"]
        by (auto simp: port_text_def parse_port_range_def Let_def)
    next
      case ne: False
      have "tor_parse_long (dec_digits (unat lo) @ 0x2D # dec_digits (unat hi)) 0 65535 False = (True, int (unat lo), 0x2D # dec_digits (unat hi))"
        by (rule tor_parse_long_dec) (use lt le in simp_all)
      moreover have "tor_parse_long (dec_digits (unat hi)) 1 65536 False = (True, int (unat hi), [])"
        using tor_parse_long_dec [of "unat hi" "[]" 1 65536] lt le [of hi] pos by simp
      moreover have "dec_digits (unat lo) @ 0x2D # dec_digits (unat hi) \<noteq> [0x2A]" using dec_digits_not_star by simp
      ultimately show ?thesis
        using False ne pos by (auto simp: port_text_def parse_port_range_def Let_def)
    qed
  qed
qed

lemma split_first_append: "c \<notin> set u \<Longrightarrow> split_first c (u @ c # v) = (u, Some v)"
  by (induction u) (auto simp: split_first_def)

lemma split_first_none: "c \<notin> set u \<Longrightarrow> split_first c u = (u, None)"
  by (induction u) (auto simp: split_first_def)

lemma port_text_chars: "c \<in> set (port_text lo hi) \<Longrightarrow> TOR_ISDIGIT c \<or> c = 0x2A \<or> c = 0x2D"
  using dec_digits_digits(1) by (auto simp: port_text_def list_all_iff split: if_splits)

lemma quad_chars: "c \<in> set (print_quad a) \<Longrightarrow> TOR_ISDIGIT c \<or> c = 0x2E"
  using dec_digits_digits(1) by (auto simp: print_quad_text quad_text_def list_all_iff)

lemma split_pattern_text:
  assumes "0x2F \<notin> set u" and "0x3A \<notin> set u" and "u \<noteq> []" and "hd u \<noteq> 0x5B" and "0x2F \<notin> set v" and "0x3A \<notin> set m"
  shows "split_pattern (u @ 0x3A # v) = Some (u, None, Some v)" "split_pattern (u @ 0x2F # m @ 0x3A # v) = Some (u, Some m, Some v)"
proof -
  have "split_first 0x2F (u @ 0x3A # v) = (u @ 0x3A # v, None)" using assms by (intro split_first_none) auto
  then show "split_pattern (u @ 0x3A # v) = Some (u, None, Some v)"
    using assms split_first_append [of "0x3A" u v] by (simp add: split_pattern_def Let_def)
  show "split_pattern (u @ 0x2F # m @ 0x3A # v) = Some (u, Some m, Some v)"
    using assms split_first_append [of "0x2F" u "m @ 0x3A # v"] split_first_append [of "0x3A" m v] by (simp add: split_pattern_def Let_def)
qed

text \<open>Rules that can be written and read back: for IPv4 networks, or for the private networks.\<close>

definition writable_rule :: "addr_policy \<Rightarrow> bool" where
  "writable_rule p \<longleftrightarrow> ap_prt_min p \<noteq> 0 \<and> ap_prt_min p \<le> ap_prt_max p \<and>
     (if ap_is_private p then ap_addr p = AF_UNSPEC \<and> ap_maskbits p = 0
      else tor_addr_family (ap_addr p) = 2 \<and> unat (ap_maskbits p) \<le> 32 \<and> (ap_maskbits p = 0 \<longrightarrow> ap_addr p = AF_INET 0))"

definition rule_text :: "addr_policy \<Rightarrow> byte list" where
  "rule_text p =
     (if ap_is_private p then private_text else if ap_maskbits p = 0 then [0x2A] else addr_text (ap_addr p)) @
     (if ap_maskbits p < 32 \<and> ap_maskbits p > 0 then [0x2F] @ dec_digits (unat (ap_maskbits p)) else []) @ [0x3A] @ port_text (ap_prt_min p) (ap_prt_max p)"

lemma port_digits: "length (dec_digits (unat (p :: u16))) \<le> 5"
  by (rule dec_digits_length) (rule order_less_trans [OF unat_port], simp_all)

lemma port_text_length: "length (port_text lo hi) \<le> 11"
  using port_digits [of lo] port_digits [of hi] by (simp add: port_text_def)

lemma mask_text_length: "length (dec_digits (unat (m :: byte))) \<le> 3"
proof -
  have "unat m < 256" using unsigned_less [of m] by simp
  then show ?thesis by (intro dec_digits_length) simp_all
qed

lemma policy_write_item_text:
  assumes "writable_rule p"
  shows "policy_write_item POLICY_BUF_LEN p False =
    OK (Some ((if ap_policy_type p = ADDR_POLICY_ACCEPT then accept_text else reject_text) @ [0x20] @ rule_text p))"
proof -
  define part where "part = (if ap_is_private p then private_text else if ap_maskbits p = 0 then [0x2A] else addr_text (ap_addr p))"
  have texts: "length accept_text = 6" "length reject_text = 6" "length private_text = 7"
    by (simp_all add: accept_text_def reject_text_def private_text_def bytes_of_def)
  have "write_addr_part p = OK part \<and> length part \<le> 15"
  proof (cases "ap_is_private p \<or> ap_maskbits p = 0")
    case True
    then show ?thesis by (auto simp: write_addr_part_def part_def texts)
  next
    case False
    with assms obtain a where a: "ap_addr p = AF_INET a" by (cases "ap_addr p") (auto simp: writable_rule_def)
    with False show ?thesis
      using addr_to_str [of "AF_INET a" 48 True] print_quad_facts(1) [of a] by (simp add: write_addr_part_def part_def TOR_ADDR_BUF_LEN_def is_inet6_def)
  qed
  then have part: "write_addr_part p = OK part" "length part \<le> 15" by simp_all
  define mt where "mt = (if ap_maskbits p < 32 \<and> ap_maskbits p > 0 then [0x2F] @ dec_digits (unat (ap_maskbits p)) else [])"
  have mt: "write_mask_part room p = Some mt" "length mt \<le> 4" if "5 \<le> room" for room
    using that mask_text_length [of "ap_maskbits p"] by (auto simp: write_mask_part_def mt_def snprintf_fits_def dec_string_def)
  have ports: "write_port_part room p = Some ([0x3A] @ port_text (ap_prt_min p) (ap_prt_max p))" if "13 \<le> room" for room
    using that port_digits [of "ap_prt_min p"] port_digits [of "ap_prt_max p"]
    by (auto simp: write_port_part_def port_text_def snprintf_fits_def dec_string_def)
  have six: "\<not> is_inet6 (ap_addr p)" using assms by (auto simp: writable_rule_def is_inet6_def split: if_splits)
  let ?front = "(if ap_policy_type p = ADDR_POLICY_ACCEPT then accept_text else reject_text) @ [0x20] @ part"
  have front: "length ?front \<le> 22" using part(2) texts by simp
  have rule: "rule_text p = part @ mt @ [0x3A] @ port_text (ap_prt_min p) (ap_prt_max p)" by (simp add: rule_text_def part_def mt_def)
  have "snprintf_fits 52 ?front = Some ?front" using front by (simp add: snprintf_fits_def)
  moreover have "write_mask_part (52 - length ?front) p = Some mt" "length mt \<le> 4" using front mt(1) mt(2) [of 5] by simp_all
  moreover have "write_port_part (52 - (length ?front + length mt)) p = Some ([0x3A] @ port_text (ap_prt_min p) (ap_prt_max p))"
    using front \<open>length mt \<le> 4\<close> by (intro ports) simp
  ultimately show ?thesis
    using front port_text_length [of "ap_prt_min p" "ap_prt_max p"]
    unfolding policy_write_item_def part(1) rbind.simps POLICY_BUF_LEN_def Let_def rule by (simp add: six)
qed

lemma mask_number_dec: "n \<le> 32 \<Longrightarrow> mask_number v4 (dec_digits n) = OK (Some (int n))"
  using strtol10_dec_digits [of n "[]"] by (simp add: mask_number_def c_int_id)

lemma star_address: "parse_address_part [0x2A] = OK (Some (True, AF_INET 0))"
  by (simp add: parse_address_part_def)

lemma quad_address: "parse_address_part (print_quad a) = OK (Some (False, AF_INET a))"
proof -
  have "print_quad a \<noteq> [0x2A]"
  proof
    assume "print_quad a = [0x2A]"
    then have "0x2A \<in> set (print_quad a)" by simp
    then show False using quad_chars [of "0x2A" a] by (simp add: TOR_ISDIGIT_iff)
  qed
  then show ?thesis using pton6_print_quad [of a] aton_print_quad [of a] by (simp add: parse_address_part_def tor_inet_pton_def)
qed

lemma not_in_chars:
  "c \<notin> set (port_text lo hi)" if "\<not> TOR_ISDIGIT c" "c \<noteq> 0x2A" "c \<noteq> 0x2D" using port_text_chars that by blast

lemma parse_public_rule:
  assumes "writable_rule p" and "\<not> ap_is_private p"
  shows "tor_addr_parse_mask_ports (rule_text p) = OK (Some (ap_addr p, ap_maskbits p, ap_prt_min p, ap_prt_max p))"
proof -
  let ?m = "unat (ap_maskbits p)" and ?ports = "port_text (ap_prt_min p) (ap_prt_max p)"
  from assms obtain a where a: "ap_addr p = AF_INET a" and m: "?m \<le> 32" and zero: "ap_maskbits p = 0 \<Longrightarrow> a = 0"
    by (cases "ap_addr p") (auto simp: writable_rule_def)
  define u where "u = (if ap_maskbits p = 0 then [0x2A] else print_quad a)"
  have part: "parse_address_part u = OK (Some (ap_maskbits p = 0, AF_INET a))"
    using zero quad_address [of a] star_address by (auto simp: u_def)
  have uc: "0x2F \<notin> set u" "0x3A \<notin> set u" "u \<noteq> []" "hd u \<noteq> 0x5B" "length u \<le> 15"
    using quad_chars [of "0x2F" a] quad_chars [of "0x3A" a] print_quad_facts [of a] by (auto simp: u_def TOR_ISDIGIT_iff)
  have pc: "0x2F \<notin> set ?ports" by (rule not_in_chars) (simp_all add: TOR_ISDIGIT_iff)
  have mc: "0x3A \<notin> set (dec_digits ?m)" using dec_digits_digits(1) [of ?m] by (auto simp: list_all_iff TOR_ISDIGIT_iff)
  have ports: "parse_port_range (Some ?ports) = Some (ap_prt_min p, ap_prt_max p)"
    using assms(1) by (intro parse_port_text) (auto simp: writable_rule_def)
  have len: "length (rule_text p) \<le> 80"
    using uc(5) port_text_length [of "ap_prt_min p" "ap_prt_max p"] mask_text_length [of "ap_maskbits p"] assms(2) a
    by (auto simp: rule_text_def u_def split: if_splits)
  show ?thesis
  proof (cases "ap_maskbits p < 32 \<and> ap_maskbits p > 0")
    case True
    then have "rule_text p = u @ 0x2F # dec_digits ?m @ 0x3A # ?ports" using assms(2) a by (simp add: rule_text_def u_def)
    then have "split_pattern (rule_text p) = Some (u, Some (dec_digits ?m), Some ?ports)" using split_pattern_text(2) uc pc mc by simp
    moreover have "parse_mask_part (ap_maskbits p = 0) (AF_INET a) (Some (dec_digits ?m)) = OK (Some (int ?m))"
      using mask_number_dec [OF m] by (simp add: parse_mask_part_def is_inet6_def)
    ultimately show ?thesis using part ports len a
      by (simp add: tor_addr_parse_mask_ports_def MAX_ADDRESS_LENGTH_def TOR_ADDR_BUF_LEN_def INET_NTOA_BUF_LEN_def)
  next
    case False
    then have "rule_text p = u @ 0x3A # ?ports" using assms(2) a by (simp add: rule_text_def u_def)
    then have "split_pattern (rule_text p) = Some (u, None, Some ?ports)" using split_pattern_text(1) uc pc by simp
    moreover have "ap_maskbits p = 0 \<or> ap_maskbits p = 32"
      using False m by (auto simp: word_less_nat_alt word_unat_eq_iff)
    then have "parse_mask_part (ap_maskbits p = 0) (AF_INET a) None = OK (Some (int ?m))" by (auto simp: parse_mask_part_def is_inet6_def)
    ultimately show ?thesis using part ports len a
      by (simp add: tor_addr_parse_mask_ports_def MAX_ADDRESS_LENGTH_def TOR_ADDR_BUF_LEN_def INET_NTOA_BUF_LEN_def)
  qed
qed

lemma private_text_bytes: "private_text = [0x70, 0x72, 0x69, 0x76, 0x61, 0x74, 0x65]"
  by (simp add: private_text_def bytes_of_def of_char_def)

lemma eat_colon: "eat_whitespace (0x3A # rest) = 0x3A # rest"
  by simp

definition action_keyword :: "addr_policy_action \<Rightarrow> directory_keyword" where
  "action_keyword act = (case act of ADDR_POLICY_ACCEPT \<Rightarrow> K_ACCEPT | ADDR_POLICY_REJECT \<Rightarrow> K_REJECT)"

lemma parse_rule_text:
  assumes "writable_rule p"
  shows "router_parse_addr_policy \<lparr>tok_tp = action_keyword (ap_policy_type p), tok_args = [rule_text p]\<rparr> = OK (Some p)"
proof -
  have act: "keyword_action (action_keyword (ap_policy_type p)) = ap_policy_type p" "action_keyword (ap_policy_type p) \<noteq> K_OTHER"
    by (cases "ap_policy_type p"; simp add: keyword_action_def action_keyword_def)+
  show ?thesis
  proof (cases "ap_is_private p")
    case True
    with assms have p: "ap_addr p = AF_UNSPEC" "ap_maskbits p = 0" "ap_prt_min p \<noteq> 0" "ap_prt_min p \<le> ap_prt_max p" by (simp_all add: writable_rule_def)
    have "rule_text p = private_text @ 0x3A # port_text (ap_prt_min p) (ap_prt_max p)" using True p by (simp add: rule_text_def)
    then show ?thesis
      using True p act parse_port_text [OF p(3,4)]
      by (cases p) (simp add: router_parse_addr_policy_def router_parse_addr_policy_private_def strcmpstart_def strncmp_def eat_colon)
  next
    case False
    have "strcmpstart (rule_text p) private_text \<noteq> 0"
    proof
      assume "strcmpstart (rule_text p) private_text = 0"
      then have "take (length private_text) (rule_text p) = private_text" by (simp add: strcmpstart_def strncmp_def)
      then have hd: "hd (rule_text p) = 0x70" by (cases "rule_text p") (simp_all add: private_text_bytes)
      show False
      proof (cases "ap_maskbits p = 0")
        case True
        with hd \<open>\<not> ap_is_private p\<close> show False by (simp add: rule_text_def)
      next
        case nz: False
        with assms \<open>\<not> ap_is_private p\<close> obtain a where "ap_addr p = AF_INET a" by (cases "ap_addr p") (auto simp: writable_rule_def)
        with nz hd \<open>\<not> ap_is_private p\<close> print_quad_facts(3) [of a] have "hd (print_quad a) = 0x70" by (simp add: rule_text_def)
        with quad_chars [of "hd (print_quad a)" a] hd_in_set [OF print_quad_facts(3), of a] show False by (simp add: TOR_ISDIGIT_iff)
      qed
    qed
    with False act parse_public_rule [OF assms False] show ?thesis
      by (cases p) (simp add: router_parse_addr_policy_def)
  qed
qed

subsection \<open>From a descriptor to its summary\<close>

text \<open>A rule that was read from an \<^verbatim>\<open>accept\<close> or \<^verbatim>\<open>reject\<close> line.\<close>

definition read_rule :: "addr_policy \<Rightarrow> bool" where
  "read_rule p \<longleftrightarrow> ap_prt_min p \<noteq> 0 \<and> (ap_prt_min p \<le> ap_prt_max p \<or> ap_prt_min p = 1 \<and> ap_prt_max p = 0) \<and>
     (if ap_is_private p then ap_addr p = AF_UNSPEC \<and> ap_maskbits p = 0 else tor_addr_family (ap_addr p) = 2 \<and> unat (ap_maskbits p) \<le> 32)"

lemma router_add_exit_policy_ok:
  assumes "tok_tp t = K_ACCEPT \<or> tok_tp t = K_REJECT"
  shows "\<exists>r. router_add_exit_policy policy t = OK r \<and> (\<forall>policy'. r = Some policy' \<longrightarrow> (\<exists>p. read_rule p \<and> policy' = policy @ [p]))"
proof (cases "length (tok_args t) = 1")
  case True
  let ?arg = "tok_args t ! 0"
  show ?thesis
  proof (cases "strcmpstart ?arg private_text = 0")
    case priv: True
    have "read_rule p" if "router_parse_addr_policy_private t = Some p" for p
      using that by (auto simp: router_parse_addr_policy_private_def read_rule_def Let_def split: if_splits option.splits dest!: parse_port_range_ok)
    with True priv assms show ?thesis
      by (auto simp: router_add_exit_policy_def router_parse_addr_policy_def split: option.splits)
  next
    case False
    obtain r where r: "tor_addr_parse_mask_ports ?arg = OK r"
      "\<forall>addr bits lo hi. r = Some (addr, bits, lo, hi) \<longrightarrow>
        addr_ok addr \<and> addr \<noteq> AF_UNSPEC \<and> unat bits \<le> (if is_inet6 addr then 128 else 32) \<and> lo \<noteq> 0 \<and> (lo \<le> hi \<or> lo = 1 \<and> hi = 0)"
      using parse_mask_ports_ok by blast
    show ?thesis
    proof (cases r)
      case (Some x)
      obtain addr bits lo hi where x: "x = (addr, bits, lo, hi)" by (cases x)
      with r Some have ok: "addr \<noteq> AF_UNSPEC" "unat bits \<le> (if is_inet6 addr then 128 else 32)" "lo \<noteq> 0" "lo \<le> hi \<or> lo = 1 \<and> hi = 0" by auto
      show ?thesis
      proof (cases "tor_addr_family addr = 10")
        case six: True
        with True False r(1) Some x assms show ?thesis by (auto simp: router_add_exit_policy_def router_parse_addr_policy_def)
      next
        case four: False
        with ok(1) have "tor_addr_family addr = 2" by (cases addr) auto
        with ok four have "read_rule \<lparr>ap_policy_type = act, ap_is_private = False, ap_maskbits = bits, ap_addr = addr, ap_prt_min = lo, ap_prt_max = hi\<rparr>" for act
          by (simp add: read_rule_def is_inet6_def)
        with True False r(1) Some x assms show ?thesis by (auto simp: router_add_exit_policy_def router_parse_addr_policy_def)
      qed
    qed (use True False r(1) assms in \<open>auto simp: router_add_exit_policy_def router_parse_addr_policy_def\<close>)
  qed
qed (use assms in \<open>auto simp: router_add_exit_policy_def router_parse_addr_policy_def\<close>)

lemma add_exit_policies_ok:
  "\<forall>t\<in>set ts. tok_tp t = K_ACCEPT \<or> tok_tp t = K_REJECT \<Longrightarrow> list_all read_rule policy \<Longrightarrow>
    \<exists>r. add_exit_policies policy ts = OK r \<and> (\<forall>policy'. r = Some policy' \<longrightarrow> list_all read_rule policy')"
proof (induction ts arbitrary: policy)
  case (Cons t ts)
  then obtain r where r: "router_add_exit_policy policy t = OK r" "\<forall>policy'. r = Some policy' \<longrightarrow> (\<exists>p. read_rule p \<and> policy' = policy @ [p])"
    using router_add_exit_policy_ok [of t policy] by auto
  show ?case
  proof (cases r)
    case (Some policy')
    with r Cons.prems have "list_all read_rule policy'" by auto
    with Cons r Some show ?thesis by simp
  qed (simp add: r)
qed simp

text \<open>The rules of a descriptor after the private networks have been written out.\<close>

definition expanded_rule :: "addr_policy \<Rightarrow> bool" where
  "expanded_rule p \<longleftrightarrow> rule_ok p \<and> unat (ap_maskbits p) \<le> 32 \<and> ap_prt_min p \<noteq> 0 \<and>
     (ap_prt_min p \<le> ap_prt_max p \<or> ap_prt_min p = 1 \<and> ap_prt_max p = 0)"

lemma expanded_rule_cases: "expanded_rule p \<Longrightarrow> summary_rule p \<or> ap_prt_min p = 1 \<and> ap_prt_max p = 0"
  by (auto simp: expanded_rule_def summary_rule_def)

lemma expand_read_rules:
  assumes "list_all read_rule policy"
  shows "list_all expanded_rule (policy_expand_private policy)"
proof -
  have "expanded_rule q" if "p \<in> set policy" "q \<in> set (if \<not> ap_is_private p then [p]
     else map (\<lambda>(addr, bits). p\<lparr>ap_is_private := False, ap_addr := addr, ap_maskbits := bits\<rparr>) private_nets)" for p q
  proof -
    have p: "read_rule p" using that(1) assms by (auto simp: list_all_iff)
    then have ports: "ap_prt_min p \<noteq> 0" "ap_prt_min p \<le> ap_prt_max p \<or> ap_prt_min p = 1 \<and> ap_prt_max p = 0"
      by (auto simp: read_rule_def)
    show ?thesis
    proof (cases "ap_is_private p")
      case True
      with that(2) obtain addr bits where "(addr, bits) \<in> set private_nets" "q = p\<lparr>ap_is_private := False, ap_addr := addr, ap_maskbits := bits\<rparr>" by auto
      moreover from this(1) have "addr_ok addr" "unat bits \<le> 32" by (auto simp: private_nets_def)
      ultimately show ?thesis using ports by (simp add: expanded_rule_def rule_ok_def)
    next
      case False
      with that(2) p have "q = p" "tor_addr_family (ap_addr p) = 2" "unat (ap_maskbits p) \<le> 32" by (auto simp: read_rule_def)
      with ports show ?thesis by (cases "ap_addr p") (auto simp: expanded_rule_def rule_ok_def)
    qed
  qed
  then show ?thesis by (fastforce simp: policy_expand_private_def list_all_iff)
qed

lemma read_policy_rules:
  assumes "\<forall>t\<in>set tokens. tok_tp t = K_ACCEPT \<or> tok_tp t = K_REJECT"
  shows "\<exists>r. read_exit_policy tokens = OK r \<and> (\<forall>policy. r = Some policy \<longrightarrow> list_all expanded_rule policy)"
proof (cases "tokens = []")
  case False
  obtain r where "add_exit_policies [] tokens = OK r" "\<forall>policy. r = Some policy \<longrightarrow> list_all read_rule policy"
    using add_exit_policies_ok [OF assms, of "[]"] by auto
  with False expand_read_rules show ?thesis by (auto simp: read_exit_policy_def)
qed (simp add: read_exit_policy_def)

text \<open>The range from 1 to 0.\<close>

lemma parse_port_zero: "parse_port_range (Some [0x30]) = Some (1, 0)"
  using tor_parse_long_dec [of 0 "[]" 0 65535] by (simp add: parse_port_range_def dec_digits.simps)

lemma parse_star_zero:
  "router_parse_addr_policy \<lparr>tok_tp = K_REJECT, tok_args = [[0x2A, 0x3A, 0x30]]\<rparr> =
    OK (Some \<lparr>ap_policy_type = ADDR_POLICY_REJECT, ap_is_private = False, ap_maskbits = 0, ap_addr = AF_INET 0, ap_prt_min = 1, ap_prt_max = 0\<rparr>)"
proof -
  have "split_pattern [0x2A, 0x3A, 0x30] = Some ([0x2A], None, Some [0x30])"
    using split_pattern_text(1) [of "[0x2A]" "[0x30]" "[]"] by simp
  then have "tor_addr_parse_mask_ports [0x2A, 0x3A, 0x30] = OK (Some (AF_INET 0, 0, 1, 0))"
    by (simp add: tor_addr_parse_mask_ports_def star_address parse_mask_part_def parse_port_zero MAX_ADDRESS_LENGTH_def
        TOR_ADDR_BUF_LEN_def INET_NTOA_BUF_LEN_def)
  then show ?thesis
    by (simp add: router_parse_addr_policy_def strcmpstart_def strncmp_def private_text_bytes keyword_action_def)
qed

text \<open>
  A rule for the ports from 1 to 0 that is counted: a rejecting one, unless it names a private network, or an
  accepting one for all addresses.  Splitting the first item of any summary in front of port 1 fails the assertion.
\<close>

definition counted_zero_rule :: "addr_policy \<Rightarrow> bool" where
  "counted_zero_rule p \<longleftrightarrow> ap_prt_min p = 1 \<and> ap_prt_max p = 0 \<and>
     (case ap_policy_type p of ADDR_POLICY_ACCEPT \<Rightarrow> ap_maskbits p = 0
      | ADDR_POLICY_REJECT \<Rightarrow> (ap_addr p, ap_maskbits p) \<notin> set private_nets)"

lemma split_empty_range:
  assumes "summarizes g s"
  shows "policy_summary_split s 1 0 = Fault Assert_Fail"
proof -
  obtain it its where s: "s = it # its" "unat (ps_prt_min it) = 1" "1 \<le> unat (ps_prt_max it)"
    using assms by (cases s) (auto simp: summarizes_def)
  have "ps_prt_min it = 1" using s(2) by (metis unat_1 unsigned_word_eqI)
  moreover have "ps_prt_max it \<noteq> 0" "\<not> ps_prt_max it < 1" using s(3) by (auto simp: word_less_nat_alt)
  ultimately show ?thesis
    by (simp add: policy_summary_split_def seek_port.simps split_at_def policy_summary_item_split_def Let_def s(1))
qed

lemma add_zero_rule:
  assumes "expanded_rule p" and "ap_prt_min p = 1" "ap_prt_max p = 0" and "summarizes g s"
  shows "policy_summary_add_item s p = (if counted_zero_rule p then Fault Assert_Fail else OK s)"
proof -
  have "names_private_net private_nets p = OK ((ap_addr p, ap_maskbits p) \<in> set private_nets)"
    using private_nets_ok assms(1) by (intro names_private_net_ok) (auto simp: expanded_rule_def)
  with assms(2-4) split_empty_range show ?thesis
    by (auto simp: policy_summary_add_item_def policy_summary_accept_def policy_summary_reject_def counted_zero_rule_def
        split: addr_policy_action.splits)
qed

lemma counted_zero_rule_fails:
  "list_all expanded_rule ps \<Longrightarrow> list_ex counted_zero_rule ps \<Longrightarrow> summarizes g s \<Longrightarrow>
    policy_summary_add_all s ps = Fault Assert_Fail"
proof (induction ps arbitrary: s g)
  case (Cons p ps)
  show ?case
  proof (cases "summary_rule p")
    case True
    then have "\<not> counted_zero_rule p" by (auto simp: summary_rule_def counted_zero_rule_def)
    moreover obtain s' where "policy_summary_add_item s p = OK s'" "summarizes (\<lambda>port. port_step port p (g port)) s'"
      using add_item_ok [OF True Cons.prems(3)] by blast
    ultimately show ?thesis using Cons by simp
  next
    case False
    with Cons.prems expanded_rule_cases have "ap_prt_min p = 1 \<and> ap_prt_max p = 0" by auto
    with add_zero_rule [of p g s] Cons show ?thesis by auto
  qed
qed simp

text \<open>
  A rule for an IPv6 network with 32 to 127 mask bits is written without them, and read back as one for a single address.
\<close>

lemma write_item_drops_v6_mask:
  "ap_maskbits p = 64 \<Longrightarrow> ap_addr p = AF_INET6 bs \<Longrightarrow> write_mask_part room p = Some []"
  by (simp add: write_mask_part_def)

subsection \<open>Properties\<close>

text \<open>
  C17: a rule for an IPv4 network or for the private networks, with ports from 1 on, fits the buffer for policy lines when it
  is written; the line is the keyword of its action, a space and an argument, and reading a token of that keyword with that argument gives the rule back.
\<close>

theorem policy_text_roundtrip:
  assumes "writable_rule p"
  shows "\<exists>arg. policy_write_item POLICY_BUF_LEN p False =
      OK (Some ((if ap_policy_type p = ADDR_POLICY_ACCEPT then accept_text else reject_text) @ [0x20] @ arg)) \<and>
    router_parse_addr_policy \<lparr>tok_tp = action_keyword (ap_policy_type p), tok_args = [arg]\<rparr> = OK (Some p)"
  using policy_write_item_text [OF assms] parse_rule_text [OF assms] by blast

text \<open>
  C16: the exit policy of a descriptor with only \<^verbatim>\<open>accept\<close> and \<^verbatim>\<open>reject\<close> lines is read without fault.  If it is well formed and no
  rule has the ports from 1 to 0, its summary is the text for ranges that divide the ports from 1 to 65535, neighbours differing, each with the acceptance its
  ports get from the rules.  So it fails exactly when the assertion on the length does: the shorter of the two lists of ranges has 994 to 1000 characters.
\<close>

theorem descriptor_policy_summarizes:
  assumes "\<forall>t\<in>set tokens. tok_tp t = K_ACCEPT \<or> tok_tp t = K_REJECT"
  shows "\<exists>r. read_exit_policy tokens = OK r \<and>
    (\<forall>policy. r = Some policy \<longrightarrow> (\<forall>p\<in>set policy. ap_prt_max p \<noteq> 0) \<longrightarrow>
      (\<exists>rs. ranges_from 1 rs 65536 \<and> distinct_adj (map (\<lambda>r. snd (snd r)) rs) \<and>
        (\<forall>r\<in>set rs. says (\<lambda>port. snd (port_summary policy port)) r) \<and>
        summary_text (print_ranges True rs) (print_ranges False rs) (policy_summarize policy)))"
proof -
  obtain r where r: "read_exit_policy tokens = OK r" "\<forall>policy. r = Some policy \<longrightarrow> list_all expanded_rule policy"
    using read_policy_rules [OF assms] by blast
  have "\<exists>rs. ranges_from 1 rs 65536 \<and> distinct_adj (map (\<lambda>r. snd (snd r)) rs) \<and>
      (\<forall>r\<in>set rs. says (\<lambda>port. snd (port_summary policy port)) r) \<and>
      summary_text (print_ranges True rs) (print_ranges False rs) (policy_summarize policy)"
    if "r = Some policy" "\<forall>p\<in>set policy. ap_prt_max p \<noteq> 0" for policy
  proof -
    have "list_all summary_rule policy" using r(2) that expanded_rule_cases by (fastforce simp: list_all_iff)
    from add_all_create [OF this] obtain s where s: "policy_summary_add_all policy_summary_create policy = OK s"
      "summarizes (port_summary policy) s" by blast
    from summary_ranges [OF s(2)] policy_summarize_ranges [OF s(1)] show ?thesis by blast
  qed
  with r(1) show ?thesis by blast
qed

text \<open>
  C21: a descriptor with \<^verbatim>\<open>accept\<close> and \<^verbatim>\<open>reject\<close> lines that is accepted and has, anywhere, a line for the port 0 (such as \<^verbatim>\<open>reject *:0\<close>) that is
  rejecting and names no private network, or accepting and for all addresses, ends an authority that summarizes its policy in a failed assertion.
\<close>

theorem port_zero_ends_summary:
  assumes "\<forall>t\<in>set tokens. tok_tp t = K_ACCEPT \<or> tok_tp t = K_REJECT"
    and "read_exit_policy tokens = OK (Some policy)" and "p \<in> set policy" and "counted_zero_rule p"
  shows "policy_summarize policy = Fault Assert_Fail"
proof -
  have "list_all expanded_rule policy" using read_policy_rules [OF assms(1)] assms(2) by auto
  moreover have "list_ex counted_zero_rule policy" using assms(3,4) by (auto simp: list_ex_iff)
  ultimately show ?thesis using counted_zero_rule_fails [OF _ _ create_summarizes] by (simp add: policy_summarize_def)
qed

subsection \<open>Witnesses\<close>

theorem policy_text_roundtrip_witness:
  "\<exists>arg. policy_write_item POLICY_BUF_LEN (hd sample_policy) False = OK (Some (reject_text @ [0x20] @ arg)) \<and>
    router_parse_addr_policy \<lparr>tok_tp = K_REJECT, tok_args = [arg]\<rparr> = OK (Some (hd sample_policy))"
proof -
  have "writable_rule (hd sample_policy)" by (simp add: sample_policy_def writable_rule_def)
  from policy_text_roundtrip [OF this] show ?thesis by (simp add: sample_policy_def action_keyword_def)
qed

lemma ranges_from_nonempty: "ranges_from lo rs hi \<Longrightarrow> r \<in> set rs \<Longrightarrow> fst r \<le> fst (snd r)"
  by (induction lo rs hi rule: ranges_from.induct) (auto simp: word_le_nat_alt)

definition reject_all_token :: directory_token where
  "reject_all_token = \<lparr>tok_tp = K_REJECT, tok_args = [[0x2A, 0x3A, 0x2A]]\<rparr>"

definition port_zero_token :: directory_token where
  "port_zero_token = \<lparr>tok_tp = K_REJECT, tok_args = [[0x2A, 0x3A, 0x30]]\<rparr>"

definition port_zero_rule :: addr_policy where
  "port_zero_rule = \<lparr>ap_policy_type = ADDR_POLICY_REJECT, ap_is_private = False, ap_maskbits = 0, ap_addr = AF_INET 0, ap_prt_min = 1, ap_prt_max = 0\<rparr>"

lemma parse_reject_all: "router_parse_addr_policy reject_all_token = OK (Some (sample_policy ! 3))"
proof -
  have "writable_rule (sample_policy ! 3)" "rule_text (sample_policy ! 3) = [0x2A, 0x3A, 0x2A]" "action_keyword (ap_policy_type (sample_policy ! 3)) = K_REJECT"
    by (simp_all add: sample_policy_def writable_rule_def rule_text_def port_text_def action_keyword_def)
  then show ?thesis using parse_rule_text [of "sample_policy ! 3"] by (simp add: reject_all_token_def)
qed

lemma read_examples:
  "read_exit_policy [reject_all_token] = OK (Some [sample_policy ! 3])"
  "read_exit_policy [reject_all_token, port_zero_token] = OK (Some [sample_policy ! 3, port_zero_rule])"
proof -
  have "tok_tp reject_all_token = K_REJECT" "tok_tp port_zero_token = K_REJECT" by (simp_all add: reject_all_token_def port_zero_token_def)
  with parse_reject_all parse_star_zero [folded port_zero_token_def port_zero_rule_def]
  show "read_exit_policy [reject_all_token] = OK (Some [sample_policy ! 3])"
    "read_exit_policy [reject_all_token, port_zero_token] = OK (Some [sample_policy ! 3, port_zero_rule])"
    by (simp_all add: read_exit_policy_def router_add_exit_policy_def policy_expand_private_def sample_policy_def port_zero_rule_def)
qed

text \<open>The descriptor with the line \<^verbatim>\<open>reject *:*\<close> is summarized as \<^verbatim>\<open>reject 1-65535\<close>.\<close>

theorem descriptor_policy_summarizes_witness:
  "read_exit_policy [reject_all_token] = OK (Some [sample_policy ! 3]) \<and>
    policy_summarize [sample_policy ! 3] = OK (reject_text @ all_ports_text)"
proof -
  have "\<forall>t\<in>set [reject_all_token]. tok_tp t = K_ACCEPT \<or> tok_tp t = K_REJECT" by (simp add: reject_all_token_def)
  moreover have "\<forall>p\<in>set [sample_policy ! 3]. ap_prt_max p \<noteq> 0" by (simp add: sample_policy_def)
  ultimately obtain rs where rs: "ranges_from 1 rs 65536" "\<forall>r\<in>set rs. says (\<lambda>port. snd (port_summary [sample_policy ! 3] port)) r"
    "summary_text (print_ranges True rs) (print_ranges False rs) (policy_summarize [sample_policy ! 3])"
    using descriptor_policy_summarizes [of "[reject_all_token]"] read_examples(1) by auto
  have no: "\<not> snd (port_summary [sample_policy ! 3] port)" for port
    by (simp add: port_summary_def port_step_def sample_policy_def)
  have "\<not> snd (snd r)" if "r \<in> set rs" for r
  proof -
    have "fst r \<le> fst (snd r)" using ranges_from_nonempty [OF rs(1) that] .
    then show ?thesis using rs(2) that no by (auto simp: says_def)
  qed
  then have "print_ranges True rs = []" by (fastforce simp: print_ranges_def filter_empty_conv)
  with rs(3) read_examples(1) show ?thesis by (simp add: summary_text_def)
qed

theorem port_zero_ends_summary_witness:
  "read_exit_policy [reject_all_token, port_zero_token] = OK (Some [sample_policy ! 3, port_zero_rule]) \<and>
    policy_summarize [sample_policy ! 3, port_zero_rule] = Fault Assert_Fail"
proof -
  have "\<forall>t\<in>set [reject_all_token, port_zero_token]. tok_tp t = K_ACCEPT \<or> tok_tp t = K_REJECT"
    by (simp add: reject_all_token_def port_zero_token_def)
  moreover have "counted_zero_rule port_zero_rule" by (simp add: counted_zero_rule_def port_zero_rule_def private_nets_def)
  ultimately show ?thesis using port_zero_ends_summary [OF _ read_examples(2), of port_zero_rule] read_examples(2) by simp
qed

end
