(* ===== verification/Spec2Isabelle.thy ===== *)
theory Spec2Isabelle
  imports CType CLib BufferQueue BufferParse Cells Aes RelayCrypt Commands PQueue SmartStrings Maps PolicyText
begin

text \<open>
  A verification of the onion router of BitBlinder, the modified Tor 0.2.2.1-alpha in
  \<^verbatim>\<open>src/innomitor\<close>.  Paths below are relative to \<^verbatim>\<open>src/innomitor/src\<close>.

  \<^bold>\<open>The program.\<close>  A process keeps TLS connections to other routers and stream connections to
  applications and servers.  Bytes that arrive on a connection go into its input buffer
  (\<^verbatim>\<open>or/buffers.c\<close>), are cut into cells of 512 bytes (\<^verbatim>\<open>or/connection_or.c\<close>), and each relay cell
  is encrypted or decrypted by one layer (\<^verbatim>\<open>or/relay.c\<close>, with the cipher of \<^verbatim>\<open>common/aes.c\<close>) and
  either delivered here or queued on its circuit for the next connection, from which the queues
  of all circuits are flushed in turn.  These parts rest on the containers and string functions of
  \<^verbatim>\<open>common/container.c\<close>, \<^verbatim>\<open>common/ht.h\<close> and \<^verbatim>\<open>common/util.c\<close>.

  \<^bold>\<open>Conventions.\<close>  An operation that can fail returns the type \<open>'a res\<close> of \<^verbatim>\<open>Prelude\<close>: \<open>OK\<close> with its
  results and the new state, or \<open>Fault\<close> with what went wrong (a failed \<^verbatim>\<open>tor_assert\<close>, an access
  outside a block of memory, an overflow of a signed integer, a loop known to run forever).  Return
  codes of the C code are part of the result.  Integers that wrap around are words; counters and
  lengths are naturals with the wrap-around or the overflow written out where it can be reached.
  Loops that may run forever are \<^verbatim>\<open>partial_function (option)\<close>, with theorems that they
  return.  Memory allocation always succeeds, as \<^verbatim>\<open>tor_malloc\<close> ends the process otherwise.

  \<^bold>\<open>Theories, with the parts of the code they model.\<close>

  \<^item> \<^verbatim>\<open>Prelude\<close>, \<^verbatim>\<open>CType\<close>, \<^verbatim>\<open>CLib\<close>: the result type, generic lemmas, the character tables of
    \<^verbatim>\<open>common/compat.c\<close>, and what the sources use of the C library (\<^verbatim>\<open>atoi\<close>, \<^verbatim>\<open>strcmp\<close>, \<^verbatim>\<open>memcmp\<close>).
  \<^item> \<^verbatim>\<open>Chunks\<close>, \<^verbatim>\<open>Buffers\<close>, \<^verbatim>\<open>BufferQueue\<close>: \<^verbatim>\<open>or/buffers.c\<close>, chunks with their offset in a block
    of memory, freelists, appending, peeking, fetching, moving between buffers, pulling up.  A buffer
    refines a queue of bytes (locale \<open>byte_fifo\<close>); four defects of \<^verbatim>\<open>buf_pullup\<close> and of the
    freelists are proved.
  \<^item> \<^verbatim>\<open>BufferParse\<close>: positions and searches in a buffer across chunks, and the parsers of HTTP
    messages, lines, control commands and variable-length cells, each against a reference on the bytes; for HTTP under a
    condition that keeps \<^verbatim>\<open>buf_pullup\<close> from its defects.
  \<^item> \<^verbatim>\<open>Cells\<close>: the wire formats of cells and relay headers and the loop of \<^verbatim>\<open>or/connection_or.c\<close>
    that takes cells from an input buffer: it recovers exactly the cells that were packed.
  \<^item> \<^verbatim>\<open>AesTables\<close>, \<^verbatim>\<open>Aes\<close>: \<^verbatim>\<open>common/aes.c\<close>; the key schedule and the table-driven block function equal
    those of FIPS 197 (with their own S-box, round constants and reading of the key), and counter mode is the key stream of an incrementing counter.
  \<^item> \<^verbatim>\<open>RelayCrypt\<close>: the layers of encryption and the digests of \<^verbatim>\<open>or/relay.c\<close>.  The digest (SHA-1
    from OpenSSL) is a parameter, a record of functions.  The theorems say in terms of the bytes and the keys alone
    (\<open>meant_for\<close>, \<open>own_at\<close>, \<open>lands_at\<close>) which hop a cell is for: it is taken by exactly the first hop that reads
    a zero field and its own digest, the hop it was wrapped for does, and when no earlier one does the cell arrives
    unchanged and both directions stay in step.
  \<^item> \<^verbatim>\<open>LinkedRings\<close>, \<^verbatim>\<open>Circuits\<close>, \<^verbatim>\<open>ActiveCircuits\<close>: circuits and connections as records in a store
    of addresses, and the doubly linked rings of circuits with cells to send, with cell queues and
    the blocking of streams.  The rings stay well linked, and queueing and flushing refine a round-robin
    scheduler.  The attempt to write to the socket is a parameter.
  \<^item> \<^verbatim>\<open>CircuitList\<close>: \<^verbatim>\<open>or/circuitlist.c\<close>, the map from circuit IDs on a connection to circuits with its
    one-entry cache, the consistency check of a circuit, and marking circuits and streams for
    close.  Setting the ID of a circuit changes exactly two entries and moves the circuit between the rings
    of the two connections.  The calls into subsystems that are not modelled are the fields of the record
    \<open>relay_env\<close>, and theorems hold for every such record unless they say what they assume of it.
  \<^item> \<^verbatim>\<open>Frames\<close>: what queueing a cell and closing a circuit leave alone, as locales over a relation between
    worlds (\<open>frame\<close>, \<open>ring_frame\<close>, \<open>close_frame\<close>) interpreted for two relations.  Closing a circuit of a
    relay, if it returns, newly marks exactly the circuit and the other half of its rendezvous.
  \<^item> \<^verbatim>\<open>RelaySend\<close>: the sending half of \<^verbatim>\<open>or/relay.c\<close> with \<^verbatim>\<open>connection_edge_end\<close>: relay commands, the fee
    of each cell, RELAY\_EARLY, packaging of stream data within the windows, SENDME cells.  A command of the
    origin is passed on to exactly the first hop that reads it as its own, and read there as it was sent when this is
    its hop; an exit stream sends exactly what its windows and payments allow, in order.
  \<^item> \<^verbatim>\<open>Handshake\<close>: circuits are built (\<^verbatim>\<open>or/circuitbuild.c\<close>, \<^verbatim>\<open>or/onion.c\<close>, the create cells of \<^verbatim>\<open>or/command.c\<close>):
    key material and its split into ciphers and digests, CREATE, EXTEND and their answers, circuit IDs for new circuits, the queue of
    handshakes.  After a CREATE\_FAST handshake both ends are in step; answers without the right digest are refused; an extended
    circuit gets an unused ID.  Public keys and Diffie-Hellman (OpenSSL) are fields of \<open>relay_env\<close>.
  \<^item> \<^verbatim>\<open>RelayRecv\<close>: the receiving half of \<^verbatim>\<open>or/relay.c\<close>: decryption, fee, lookup of the stream and the relay
    commands.  Data that is meant for this exit, with the ID of an open stream, is added to the output of that stream
    exactly once and acknowledged; acknowledgements bring the windows back to their limit; two
    accesses to memory outside of what the code owns are proved.
  \<^item> \<^verbatim>\<open>Commands\<close>: \<^verbatim>\<open>or/command.c\<close>, the dispatch of cells to circuits.  A cell in transit that arrives on one side of
    a circuit is queued once on the other, sealed for that direction; on circuits without credit it is dropped and the circuit
    closed; payment messages are counted down.  All this is for circuits with different IDs on both sides: a cell
    whose ID is used on both goes back to where it came from, which is proved as well.
  \<^item> \<^verbatim>\<open>Address\<close>: network addresses of \<^verbatim>\<open>common/address.c\<close> and their comparison under a mask, which is
    shown to compare the first bits (a locale of the laws of prefixes, interpreted on them).
  \<^item> \<^verbatim>\<open>Policies\<close>: exit policies, \<^verbatim>\<open>or/policies.c\<close>: the decision of the first matching rule, definite and probable
    answers when the port or the address is unknown, the removal of redundant rules, which keeps every decision for
    addresses of the family of the rules for all addresses (and changes others), and the IPv4 networks of \<^verbatim>\<open>private\<close>.
  \<^item> \<^verbatim>\<open>PolicySummary\<close>: the summaries of policies that authorities publish, refined from what the rules say of each port,
    and their text.
  \<^item> \<^verbatim>\<open>AddrText\<close>: addresses, masks, port ranges and names for reverse lookup as text (\<^verbatim>\<open>common/address.c\<close>,
    \<^verbatim>\<open>common/compat.c\<close>, \<^verbatim>\<open>common/util.c\<close>): addresses that are printed are read back, and every pattern is parsed without fault.
  \<^item> \<^verbatim>\<open>PolicyText\<close>: rules written as lines, which are read back for IPv4 and \<^verbatim>\<open>private\<close>, and the exit policy of a
    descriptor, from its tokens (\<^verbatim>\<open>or/routerparse.c\<close>) to its summary: with IPv4 lines and without port 0 the
    summary is the text for the ports the rules accept, up to the assertion on its length; with port 0 it fails another.
  \<^item> \<^verbatim>\<open>Smartlist\<close>, \<^verbatim>\<open>PQueue\<close>, \<^verbatim>\<open>SmartStrings\<close>: \<^verbatim>\<open>common/container.c\<close>, arrays with their capacity,
    the binary heap (locales \<open>comparator\<close> and \<open>priority_queue\<close>), splitting and joining of strings.
  \<^item> \<^verbatim>\<open>HashTable\<close>, \<^verbatim>\<open>Maps\<close>: the chained hash table of \<^verbatim>\<open>common/ht.h\<close> with its growth, and the
    string and digest maps on it (locale \<open>finite_map\<close>), which refine mathematical functions.
  \<^item> \<^verbatim>\<open>UtilStrings\<close>: the string functions of \<^verbatim>\<open>common/util.c\<close>, quoting, hexadecimal, configuration
    lines.

  \<^bold>\<open>Bounds.\<close>  Arrays have fewer than \<open>2\<^sup>3\<^sup>0\<close> elements where the doubling of their capacity would
  overflow \<^verbatim>\<open>int\<close>, hash tables at most \<open>HT_MAX\<close> entries, beyond which the table of primes ends.  Both
  are stated in the theorems that need them.  No loop has fuel: those whose end is not structural have
  \<^verbatim>\<open>option\<close> results, which are proved to be \<open>Some\<close>.

  \<^bold>\<open>Not modelled.\<close>  System calls, sockets, TLS and OpenSSL, zlib, libevent, threads and files: the
  sources only call them.  The directory system (\<^verbatim>\<open>routerlist.c\<close>, \<^verbatim>\<open>routerparse.c\<close>, \<^verbatim>\<open>dirserv.c\<close>,
  \<^verbatim>\<open>dirvote.c\<close>, \<^verbatim>\<open>directory.c\<close>, \<^verbatim>\<open>networkstatus.c\<close>), configuration, the controller, hidden services,
  path selection, the worker processes and statistics are separate subsystems above the ones verified here.
\<close>

end
